(* ===== verification/Prelude.thy ===== *)
theory Prelude
  imports Main "HOL-Library.Word" "HOL-Library.Finite_Map"
begin

text \<open>
  Shared material of the development: the machine constants of the 64-bit target, index
  arithmetic of power-of-two tables (\<open>i & (capacity - 1)\<close>), counting occurrences in
  lists, and finite-map facts. Nothing here models a particular function of the
  program.
\<close>

unbundle bit_operations_syntax

named_theorems heap_simps \<open>projections and frame equations of the heap operations\<close>

subsection \<open>Machine constants\<close>

type_synonym u64 = "64 word"

definition SIZE_MAX :: nat where
  "SIZE_MAX = 2 ^ 64 - 1"

definition PTR_BYTES :: nat where
  \<comment> \<open>\<open>sizeof(RcValue *)\<close>\<close>
  "PTR_BYTES = 8"

text \<open>The mask idiom \<open>i & (capacity - 1)\<close> and the wrapping subtraction of \<open>size_t\<close>.\<close>

definition wrap :: "nat \<Rightarrow> nat \<Rightarrow> nat" where
  "wrap cap i = i AND (cap - 1)"

definition sub64 :: "nat \<Rightarrow> nat \<Rightarrow> nat" where
  "sub64 a b = (a + 2 ^ 64 - b) mod 2 ^ 64"

definition pow2 :: "nat \<Rightarrow> bool" where
  "pow2 n \<longleftrightarrow> (\<exists>k\<le>64. n = 2 ^ k)"

lemma wrap_pow2: "pow2 n \<Longrightarrow> wrap n i = i mod n"
  unfolding pow2_def wrap_def
  by (metis mask_eq_exp_minus_1 take_bit_eq_mask take_bit_eq_mod)

lemma pow2_pos: "pow2 n \<Longrightarrow> 0 < n"
  by (auto simp: pow2_def)

lemma wrap_less: "pow2 n \<Longrightarrow> wrap n i < n"
  by (simp add: wrap_pow2 pow2_pos)

lemma pow2_le: "pow2 n \<Longrightarrow> n \<le> 2 ^ 64"
  unfolding pow2_def by (metis one_le_numeral power_increasing)

lemma pow2_dvd: "pow2 n \<Longrightarrow> n dvd 2 ^ 64"
  unfolding pow2_def by (metis le_imp_power_dvd)

lemma pow2_double: "pow2 n \<Longrightarrow> 2 * n \<le> 2 ^ 64 \<Longrightarrow> pow2 (2 * n)"
proof -
  assume "pow2 n" and le: "2 * n \<le> 2 ^ 64"
  then obtain k where k: "n = 2 ^ k" by (auto simp: pow2_def)
  from le have "(2::nat) ^ Suc k \<le> 2 ^ 64" by (simp only: k power_Suc)
  then have "Suc k \<le> 64" by (rule power_le_imp_le_exp [rotated]) simp
  then show "pow2 (2 * n)" unfolding pow2_def by (intro exI [of _ "Suc k"]) (simp add: k)
qed

subsection \<open>Cyclic distance\<close>

text \<open>\<open>cdist n a b\<close>: how many steps forward lead from index \<open>a\<close> to index \<open>b\<close> in a ring of
  \<open>n\<close> slots; this is what \<open>(b - a) & (n - 1)\<close> computes.\<close>

definition cdist :: "nat \<Rightarrow> nat \<Rightarrow> nat \<Rightarrow> nat" where
  "cdist n a b = (if a \<le> b then b - a else b + n - a)"

lemma cdist_self [simp]: "cdist n a a = 0"
  by (simp add: cdist_def)

lemma cdist_less: "a < n \<Longrightarrow> b < n \<Longrightarrow> cdist n a b < n"
  by (auto simp: cdist_def)

lemma cdist_0_iff: "a < n \<Longrightarrow> b < n \<Longrightarrow> cdist n a b = 0 \<longleftrightarrow> a = b"
  by (auto simp: cdist_def)

lemma mod_succ_cases: "i < n \<Longrightarrow> Suc i mod n = (if Suc i = n then 0 else Suc i)"
  for n :: nat
  by auto

lemma sub64_wrap:
  assumes p: "pow2 n" and a: "a < n" and b: "b < n"
  shows "wrap n (sub64 b a) = cdist n a b"
proof -
  obtain q where q: "2 ^ 64 = n * q" using pow2_dvd [OF p] by (elim dvdE) auto
  have "0 < q"
  proof (rule ccontr)
    assume "\<not> 0 < q"
    with q show False by simp
  qed
  then obtain r where r: "q = Suc r" by (cases q) auto
  have "wrap n (sub64 b a) = (b + 2 ^ 64 - a) mod 2 ^ 64 mod n"
    by (simp add: wrap_pow2 [OF p] sub64_def)
  also have "\<dots> = (b + 2 ^ 64 - a) mod n"
    using pow2_dvd [OF p] by (rule mod_mod_cancel)
  also have "b + 2 ^ 64 - a = (b + n - a) + n * r"
    using a q r by (simp add: algebra_simps)
  also have "\<dots> mod n = (b + n - a) mod n" by simp
  also have "\<dots> = cdist n a b"
    using a b by (auto simp: cdist_def mod_if)
  finally show ?thesis .
qed

subsection \<open>Counting\<close>

lemma count_list_pos_iff: "0 < count_list xs x \<longleftrightarrow> x \<in> set xs"
  by (induction xs) auto

lemma sum_count_split:
  assumes "finite A" "a \<in> A"
  shows "(\<Sum>x\<in>A. f x) = f a + (\<Sum>x\<in>A - {a}. (f x :: nat))"
  using assms by (simp add: sum.remove)

subsection \<open>Finite maps\<close>

lemma card_fmdrop_less: "fmlookup m a = Some c \<Longrightarrow> card (fmdom' (fmdrop a m)) < card (fmdom' m)"
  by (metis card_Diff1_less finite_fmdom' fmdom'I fmdom'_drop)

end
