(* ===== verification/Open_Addressing.thy ===== *)
theory Open_Addressing
  imports Prelude
begin

text \<open>
  Linear probing in power-of-two tables. The runtime uses one scheme in several places: the
  evaluator's plan side table (\<open>plan_entry\<close>, \<open>plan_insert\<close>, \<open>plan_grow\<close>, \<open>plan_remove\<close> in
  \<open>src/rc/rc.c\<close>), the set of shared immortal closures (\<open>rc_closure_static\<close>,
  \<open>grow_static_closures\<close>) and the visited-pair set of \<open>graph_equal\<close>. The loops are written once
  here, over the home position of an entry; the locale \<open>open_addressing\<close> states what a home
  function must promise and proves that the loops implement a finite map.

  A slot is \<open>None\<close> when the C slot is empty (a NULL key or a zero index).
\<close>

subsection \<open>The loops\<close>

text \<open>Walk from slot \<open>i\<close> until a slot is empty or its entry satisfies \<open>hit\<close>. The fuel is the
  number of slots looked at; \<open>None\<close> means that a full ring has neither.\<close>

fun probe :: "nat \<Rightarrow> ('e \<Rightarrow> bool) \<Rightarrow> 'e option list \<Rightarrow> nat \<Rightarrow> nat option" where
  "probe 0 hit t i = None"
| "probe (Suc fuel) hit t i =
     (case t ! i of
        None \<Rightarrow> Some i
      | Some e \<Rightarrow> if hit e then Some i else probe fuel hit t (wrap (length t) (i + 1)))"

definition put_first_free :: "('e \<Rightarrow> nat \<Rightarrow> nat) \<Rightarrow> 'e \<Rightarrow> 'e option list \<Rightarrow> 'e option list" where
  \<comment> \<open>\<open>while (slots[j]) j = (j + 1) & mask; slots[j] = e;\<close>\<close>
  "put_first_free home e t =
     (case probe (length t) (\<lambda>_. False) t (home e (length t)) of
        None \<Rightarrow> t
      | Some j \<Rightarrow> t[j := Some e])"

fun rehash :: "('e \<Rightarrow> nat \<Rightarrow> nat) \<Rightarrow> 'e option list \<Rightarrow> 'e option list \<Rightarrow> 'e option list" where
  \<comment> \<open>the copy loop of the grow functions: old slots in index order\<close>
  "rehash home [] t = t"
| "rehash home (None # old) t = rehash home old t"
| "rehash home (Some e # old) t = rehash home old (put_first_free home e t)"

fun shift_back :: "nat \<Rightarrow> ('e \<Rightarrow> nat \<Rightarrow> nat) \<Rightarrow> 'e option list \<Rightarrow> nat \<Rightarrow> nat \<Rightarrow> 'e option list" where
  \<comment> \<open>backward-shift deletion; slot \<open>i\<close> is the hole, \<open>j\<close> the slot under inspection\<close>
  "shift_back 0 home t i j = t[i := None]"
| "shift_back (Suc fuel) home t i j =
     (case t ! j of
        None \<Rightarrow> t[i := None]
      | Some e \<Rightarrow>
          if wrap (length t) (sub64 j (home e (length t))) \<ge> wrap (length t) (sub64 j i)
          then shift_back fuel home (t[i := Some e]) j (wrap (length t) (j + 1))
          else shift_back fuel home t i (wrap (length t) (j + 1)))"

definition occupied :: "'e option list \<Rightarrow> nat" where
  "occupied t = length (filter (\<lambda>x. x \<noteq> None) t)"

definition entries :: "'e option list \<Rightarrow> 'e set" where
  "entries t = {e. Some e \<in> set t}"

primrec contents :: "'e option list \<Rightarrow> 'e list" where
  "contents [] = []"
| "contents (x # t) = (case x of None \<Rightarrow> contents t | Some e \<Rightarrow> e # contents t)"

lemma entries_contents: "entries t = set (contents t)"
  by (induction t) (auto simp: entries_def split: option.splits)

lemma entriesI: "i < length t \<Longrightarrow> t ! i = Some e \<Longrightarrow> e \<in> entries t"
  unfolding entries_def by (metis (mono_tags) mem_Collect_eq nth_mem)

lemma entries_nth: "e \<in> entries t \<longleftrightarrow> (\<exists>i<length t. t ! i = Some e)"
  by (auto simp: entries_def in_set_conv_nth)

lemma entries_replicate [simp]: "entries (replicate n None) = {}"
  by (auto simp: entries_def)

lemma occupied_replicate [simp]: "occupied (replicate n None) = 0"
  by (simp add: occupied_def)

lemma occupied_le: "occupied t \<le> length t"
  by (simp add: occupied_def)

lemma entries_put:
  assumes "j < length t" "t ! j = None"
  shows "entries (t[j := Some e]) = insert e (entries t)"
proof (intro set_eqI iffI)
  fix x assume "x \<in> entries (t[j := Some e])"
  then obtain i where "i < length t" "t[j := Some e] ! i = Some x" by (auto simp: entries_nth)
  then show "x \<in> insert e (entries t)" by (cases "i = j") (auto intro: entriesI)
next
  fix x assume "x \<in> insert e (entries t)"
  then consider "x = e" | i where "i < length t" "t ! i = Some x" by (auto simp: entries_nth)
  then show "x \<in> entries (t[j := Some e])"
  proof cases
    case 1
    with assms show ?thesis by (intro entriesI [of j]) auto
  next
    case 2
    with assms have "i \<noteq> j" by auto
    with 2 show ?thesis by (intro entriesI [of i]) auto
  qed
qed

lemma entries_clear:
  assumes "j < length t" "t ! j = Some e"
  shows "entries t = insert e (entries (t[j := None]))"
  using entries_put [of j "t[j := None]" e] assms by (simp add: list_update_same_conv [THEN iffD2])

lemma occupied_less_ex: "occupied t < length t \<Longrightarrow> \<exists>i<length t. t ! i = None"
proof (rule ccontr)
  assume lt: "occupied t < length t" and no: "\<not> (\<exists>i<length t. t ! i = None)"
  from no have "\<forall>x\<in>set t. x \<noteq> None" by (metis in_set_conv_nth)
  then have "filter (\<lambda>x. x \<noteq> None) t = t" by (rule filter_True)
  with lt show False by (simp add: occupied_def)
qed

lemma occupied_update:
  assumes "i < length t"
  shows "occupied (t[i := x]) + (if t ! i \<noteq> None then 1 else 0) = occupied t + (if x \<noteq> None then 1 else 0)"
  using assms
proof (induction t arbitrary: i)
  case Nil
  then show ?case by simp
next
  case (Cons a t)
  show ?case
  proof (cases i)
    case 0
    then show ?thesis by (simp add: occupied_def)
  next
    case (Suc k)
    with Cons.prems have "k < length t" by simp
    from Cons.IH [OF this] Suc show ?thesis by (auto simp: occupied_def)
  qed
qed


lemma cdist_step:
  assumes "pow2 n" "i < n" "q < n" "q \<noteq> i"
  shows "cdist n i q = Suc (cdist n (wrap n (i + 1)) q)"
  using assms by (auto simp: wrap_pow2 mod_succ_cases cdist_def)

lemma cdist_inj: "a < n \<Longrightarrow> q < n \<Longrightarrow> r < n \<Longrightarrow> cdist n a q = cdist n a r \<Longrightarrow> q = r"
  by (auto simp: cdist_def split: if_splits)

text \<open>What a probe finds: the first slot, in ring order from \<open>i\<close>, that is empty or hit.\<close>

lemma probe_spec:
  assumes "pow2 (length t)" "i < length t" "z < length t" "t ! z = None" "cdist (length t) i z < fuel"
  shows "\<exists>j<length t. probe fuel hit t i = Some j \<and> (t ! j = None \<or> (\<exists>e. t ! j = Some e \<and> hit e)) \<and>
    (\<forall>q<length t. cdist (length t) i q < cdist (length t) i j \<longrightarrow> (\<exists>e. t ! q = Some e \<and> \<not> hit e))"
  using assms
proof (induction fuel arbitrary: i)
  case 0
  then show ?case by simp
next
  case (Suc fuel)
  let ?n = "length t" and ?i = "wrap (length t) (i + 1)"
  show ?case
  proof (cases "\<exists>e. t ! i = Some e \<and> \<not> hit e")
    case False
    then have stop: "t ! i = None \<or> (\<exists>e. t ! i = Some e \<and> hit e)" by auto
    then have "probe (Suc fuel) hit t i = Some i" by auto
    with stop Suc.prems(2) show ?thesis by (intro exI [of _ i]) simp
  next
    case True
    then obtain e where e: "t ! i = Some e" "\<not> hit e" by blast
    with Suc.prems have "z \<noteq> i" by auto
    with cdist_step [OF Suc.prems(1,2,3)] Suc.prems(5) have "cdist ?n ?i z < fuel" by simp
    from Suc.IH [OF Suc.prems(1) wrap_less [OF Suc.prems(1)] Suc.prems(3,4) this]
    obtain j where j: "j < ?n" "probe fuel hit t ?i = Some j"
      "t ! j = None \<or> (\<exists>e. t ! j = Some e \<and> hit e)"
      "\<forall>q<?n. cdist ?n ?i q < cdist ?n ?i j \<longrightarrow> (\<exists>e. t ! q = Some e \<and> \<not> hit e)" by blast
    from j(3) e have "j \<noteq> i" by auto
    have "\<forall>q<?n. cdist ?n i q < cdist ?n i j \<longrightarrow> (\<exists>e. t ! q = Some e \<and> \<not> hit e)"
    proof (intro allI impI)
      fix q assume q: "q < ?n" "cdist ?n i q < cdist ?n i j"
      show "\<exists>e. t ! q = Some e \<and> \<not> hit e"
      proof (cases "q = i")
        case False
        with q j(4) cdist_step [OF Suc.prems(1,2) q(1)] cdist_step [OF Suc.prems(1,2) j(1) \<open>j \<noteq> i\<close>]
        show ?thesis by simp
      qed (use e in auto)
    qed
    with j e show ?thesis by (intro exI [of _ j]) simp
  qed
qed

subsection \<open>The table invariant\<close>

definition reachable_slot :: "('e \<Rightarrow> nat \<Rightarrow> nat) \<Rightarrow> 'e option list \<Rightarrow> 'e \<Rightarrow> nat \<Rightarrow> bool" where
  \<comment> \<open>every slot between the home of \<open>e\<close> and slot \<open>p\<close> is taken\<close>
  "reachable_slot home t e p \<longleftrightarrow>
     (\<forall>q<length t. cdist (length t) (home e (length t)) q < cdist (length t) (home e (length t)) p
        \<longrightarrow> t ! q \<noteq> None)"

definition table_ok :: "('e \<Rightarrow> nat \<Rightarrow> nat) \<Rightarrow> ('e \<Rightarrow> 'k) \<Rightarrow> 'e option list \<Rightarrow> bool" where
  "table_ok home key t \<longleftrightarrow>
     pow2 (length t) \<and> occupied t < length t \<and>
     (\<forall>i<length t. \<forall>j<length t. \<forall>e e'. t ! i = Some e \<and> t ! j = Some e' \<and> key e = key e' \<longrightarrow> i = j) \<and>
     (\<forall>p<length t. \<forall>e. t ! p = Some e \<longrightarrow> reachable_slot home t e p)"

lemma table_ok_unique:
  assumes "table_ok home key t" "e \<in> entries t" "e' \<in> entries t" "key e = key e'"
  shows "e = e'"
  using assms unfolding table_ok_def entries_nth by (metis option.inject)

lemma table_ok_replicate: "pow2 n \<Longrightarrow> table_ok home key (replicate n None)"
  by (auto simp: table_ok_def pow2_pos)


subsection \<open>Ring order\<close>

lemma cdist_split:
  assumes "a < n" "b < n" "c < n" "cdist n a b \<le> cdist n a c"
  shows "cdist n a c = cdist n a b + cdist n b c"
  using assms by (auto simp: cdist_def split: if_splits)

lemma cdist_split_back:
  assumes "a < n" "b < n" "c < n" "cdist n b c \<le> cdist n a c"
  shows "cdist n a c = cdist n a b + cdist n b c"
  using assms by (auto simp: cdist_def split: if_splits)

lemma cdist_next_self:
  assumes "pow2 n" "i < n" "1 < n"
  shows "cdist n i (wrap n (i + 1)) = 1"
  using assms by (auto simp: wrap_pow2 mod_succ_cases cdist_def)

lemma cdist_next:
  assumes "pow2 n" "i < n" "j < n" "cdist n i j + 1 < n"
  shows "cdist n i (wrap n (j + 1)) = cdist n i j + 1"
  using assms by (auto simp: wrap_pow2 mod_succ_cases cdist_def split: if_splits)

lemma contents_distinct:
  assumes "\<And>i j x y. i < length t \<Longrightarrow> j < length t \<Longrightarrow> t ! i = Some x \<Longrightarrow> t ! j = Some y \<Longrightarrow> f x = f y \<Longrightarrow> i = j"
  shows "distinct (map f (contents t))"
  using assms
proof (induction t)
  case Nil
  then show ?case by (simp add: contents.simps)
next
  case (Cons a t)
  have tl: "distinct (map f (contents t))"
  proof (rule Cons.IH)
    fix i j x y
    assume "i < length t" "j < length t" "t ! i = Some x" "t ! j = Some y" "f x = f y"
    with Cons.prems [of "Suc i" "Suc j" x y] show "i = j" by simp
  qed
  show ?case
  proof (cases a)
    case None
    with tl show ?thesis by (simp add: contents.simps)
  next
    case (Some e)
    have "f x \<noteq> f e" if "Some x \<in> set t" for x
    proof
      assume k: "f x = f e"
      from that obtain i where "i < length t" "t ! i = Some x" by (auto simp: in_set_conv_nth)
      with Cons.prems [of "Suc i" 0 x e] Some k show False by simp
    qed
    then have "f e \<notin> set (map f (contents t))"
      by (auto simp flip: entries_contents simp: entries_def) metis
    with tl Some show ?thesis by (simp add: contents.simps)
  qed
qed

lemma occupied_contents: "occupied t = length (contents t)"
  by (induction t) (auto simp: occupied_def split: option.splits)

lemma rehash_Some: "rehash home (map Some es) t = fold (put_first_free home) es t"
  by (induction es arbitrary: t) simp_all

subsection \<open>The interface\<close>

locale open_addressing =
  fixes hk :: "'k \<Rightarrow> nat \<Rightarrow> nat"
    and key :: "'e \<Rightarrow> 'k"
  assumes hk_less: "pow2 n \<Longrightarrow> hk k n < n"
begin

lemma find:
  assumes ok: "table_ok (\<lambda>e. hk (key e)) key t"
  shows "\<exists>j<length t. probe (length t) (\<lambda>x. key x = k) t (hk k (length t)) = Some j \<and>
    (case t ! j of Some x \<Rightarrow> x \<in> entries t \<and> key x = k | None \<Rightarrow> \<forall>x\<in>entries t. key x \<noteq> k)"
proof -
  let ?n = "length t" and ?h = "hk k (length t)"
  from ok have p2: "pow2 ?n" and "occupied t < ?n" by (auto simp: table_ok_def)
  then obtain z where z: "z < ?n" "t ! z = None" using occupied_less_ex by blast
  note h = hk_less [OF p2, of k]
  from probe_spec [OF p2 h z cdist_less [OF h z(1)]]
  obtain j where j: "j < ?n" "probe ?n (\<lambda>x. key x = k) t ?h = Some j"
    "t ! j = None \<or> (\<exists>e. t ! j = Some e \<and> key e = k)"
    "\<And>q. q < ?n \<Longrightarrow> cdist ?n ?h q < cdist ?n ?h j \<Longrightarrow> \<exists>e. t ! q = Some e \<and> key e \<noteq> k" by blast
  have "key x \<noteq> k" if none: "t ! j = None" and x: "x \<in> entries t" for x
  proof
    assume k: "key x = k"
    from x obtain p where p: "p < ?n" "t ! p = Some x" by (auto simp: entries_nth)
    with ok have r: "reachable_slot (\<lambda>e. hk (key e)) t x p" by (auto simp: table_ok_def)
    with none j(1) k have "\<not> cdist ?n ?h j < cdist ?n ?h p" by (auto simp: reachable_slot_def)
    moreover have "\<not> cdist ?n ?h p < cdist ?n ?h j" using j(4) [OF p(1)] p(2) k by auto
    ultimately have "j = p" using cdist_inj [OF h j(1) p(1)] by simp
    with none p show False by simp
  qed
  with j show ?thesis by (intro exI [of _ j]) (auto intro: entriesI)
qed

lemma put_slot:
  assumes p2: "pow2 (length t)" and occ: "occupied t < length t"
  shows "\<exists>j<length t. t ! j = None \<and> put_first_free (\<lambda>e. hk (key e)) e t = t[j := Some e] \<and>
    (\<forall>q<length t. cdist (length t) (hk (key e) (length t)) q < cdist (length t) (hk (key e) (length t)) j
       \<longrightarrow> t ! q \<noteq> None)"
proof -
  from occupied_less_ex [OF occ] obtain z where z: "z < length t" "t ! z = None" by blast
  note h = hk_less [OF p2, of "key e"]
  from probe_spec [OF p2 h z cdist_less [OF h z(1)], of "\<lambda>_. False"] show ?thesis
    by (force simp: put_first_free_def)
qed

lemma put:
  assumes ok: "table_ok (\<lambda>e. hk (key e)) key t" and new: "\<forall>x\<in>entries t. key x \<noteq> key e"
    and room: "occupied t + 1 < length t"
  defines "t' \<equiv> put_first_free (\<lambda>e. hk (key e)) e t"
  shows "table_ok (\<lambda>e. hk (key e)) key t'" "entries t' = insert e (entries t)"
    "occupied t' = occupied t + 1" "length t' = length t"
proof -
  from ok have p2: "pow2 (length t)" by (simp add: table_ok_def)
  from put_slot [OF p2, of e] room obtain j where j: "j < length t" "t ! j = None" "t' = t[j := Some e]"
    and free: "\<forall>q<length t. cdist (length t) (hk (key e) (length t)) q < cdist (length t) (hk (key e) (length t)) j
       \<longrightarrow> t ! q \<noteq> None" unfolding t'_def by auto
  show len: "length t' = length t" by (simp add: j)
  show occ: "occupied t' = occupied t + 1" using occupied_update [OF j(1), of "Some e"] j by simp
  show ent: "entries t' = insert e (entries t)"
    using entries_put [OF j(1,2)] j(3) by simp
  have reach: "reachable_slot (\<lambda>e. hk (key e)) t' x p" if "p < length t" "t' ! p = Some x" for x p
  proof (cases "p = j")
    case True
    with that j free show ?thesis by (auto simp: reachable_slot_def nth_list_update)
  next
    case False
    with that j ok have "reachable_slot (\<lambda>e. hk (key e)) t x p" by (auto simp: table_ok_def)
    then show ?thesis by (auto simp: reachable_slot_def j nth_list_update)
  qed
  have "i = i'" if a: "i < length t" "i' < length t" "t' ! i = Some x" "t' ! i' = Some y" "key x = key y" for i i' x y
  proof (cases "i = j \<or> i' = j")
    case True
    with a new j show ?thesis by (auto simp: nth_list_update entries_nth split: if_splits)
  next
    case False
    with a j ok show ?thesis by (auto simp: table_ok_def)
  qed
  with reach room occ len p2 show "table_ok (\<lambda>e. hk (key e)) key t'" by (auto simp: table_ok_def)
qed

lemma shift_back_step:
  fixes t :: "'e option list"
  defines "n \<equiv> length t"
  assumes p2: "pow2 n" and i: "i < n" and j: "j < n" and ij: "i \<noteq> j"
    and e: "t ! j = Some e"
    and btw: "\<And>q. q < n \<Longrightarrow> 0 < cdist n i q \<Longrightarrow> cdist n i q < cdist n i j \<Longrightarrow> t ! q \<noteq> None"
    and reach: "\<And>p x q. p < n \<Longrightarrow> p \<noteq> i \<Longrightarrow> t ! p = Some x \<Longrightarrow> q < n \<Longrightarrow>
      cdist n (hk (key x) n) q < cdist n (hk (key x) n) p \<Longrightarrow>
      q \<noteq> i \<and> t ! q \<noteq> None \<or> q = i \<and> cdist n i j \<le> cdist n i p"
    and here: "cdist n (hk (key e) n) j \<ge> cdist n i j"
    and p: "p < n" "p \<noteq> j" "t[i := Some e] ! p = Some x"
    and q: "q < n" "cdist n (hk (key x) n) q < cdist n (hk (key x) n) p"
  shows "q \<noteq> j \<and> t[i := Some e] ! q \<noteq> None \<or> q = j \<and> 1 \<le> cdist n j p"
proof (cases "p = i")
  case False
  with p have px: "t ! p = Some x" by simp
  from reach [OF p(1) False px q] have "q = i \<or> t ! q \<noteq> None" by auto
  moreover have "1 \<le> cdist n j p" using cdist_0_iff [OF j p(1)] p(2) by (simp add: Suc_le_eq)
  ultimately show ?thesis using i q(1) by (auto simp: n_def nth_list_update)
next
  case True
  with p i have x: "x = e" by (simp add: n_def)
  have h: "hk (key e) n < n" by (rule hk_less [OF p2])
  from cdist_split_back [OF h i j here]
  have sp: "cdist n (hk (key e) n) j = cdist n (hk (key e) n) i + cdist n i j" .
  with q x True have lt: "cdist n (hk (key e) n) q < cdist n (hk (key e) n) j" by simp
  with q x True have "q \<noteq> i" "q \<noteq> j" by auto
  with reach [OF j _ e q(1) lt] ij have "t ! q \<noteq> None" by auto
  with \<open>q \<noteq> i\<close> \<open>q \<noteq> j\<close> show ?thesis by (simp add: n_def)
qed

lemma shift_back:
  fixes t :: "'e option list"
  defines "n \<equiv> length t"
  assumes "pow2 n" "i < n" "j < n" "i \<noteq> j"
    and "\<And>p p' x y. p < n \<Longrightarrow> p' < n \<Longrightarrow> p \<noteq> i \<Longrightarrow> p' \<noteq> i \<Longrightarrow> t ! p = Some x \<Longrightarrow> t ! p' = Some y
      \<Longrightarrow> key x = key y \<Longrightarrow> p = p'"
    and "\<And>p x q. p < n \<Longrightarrow> p \<noteq> i \<Longrightarrow> t ! p = Some x \<Longrightarrow> q < n \<Longrightarrow>
      cdist n (hk (key x) n) q < cdist n (hk (key x) n) p \<Longrightarrow>
      q \<noteq> i \<and> t ! q \<noteq> None \<or> q = i \<and> cdist n i j \<le> cdist n i p"
    and "\<And>q. q < n \<Longrightarrow> 0 < cdist n i q \<Longrightarrow> cdist n i q < cdist n i j \<Longrightarrow> t ! q \<noteq> None"
    and "z < n" "z \<noteq> i" "t ! z = None" "cdist n i j \<le> cdist n i z" "cdist n j z < fuel"
    and "t ! i \<noteq> None"
  defines "r \<equiv> shift_back fuel (\<lambda>e. hk (key e)) t i j"
  shows "table_ok (\<lambda>e. hk (key e)) key r \<and> entries r = entries (t[i := None]) \<and>
    occupied r + 1 = occupied t \<and> length r = n"
  using assms(2-14) unfolding r_def n_def
proof (induction fuel arbitrary: t i j)
  case 0
  then show ?case by simp
next
  case (Suc fuel t i j)
  let ?n = "length t" and ?j = "wrap (length t) (j + 1)"
  note p2 = Suc.prems(1) and i = Suc.prems(2) and j = Suc.prems(3) and ij = Suc.prems(4)
    and dist = Suc.prems(5) and reach = Suc.prems(6) and btw = Suc.prems(7) and z = Suc.prems(8,9,10,11,12)
  show ?case
  proof (cases "t ! j")
    case None
    have ri: "\<not> (q = i \<and> cdist ?n i j \<le> cdist ?n i p)"
      if "p < ?n" "p \<noteq> i" "t ! p = Some x" "q < ?n"
        "cdist ?n (hk (key x) ?n) q < cdist ?n (hk (key x) ?n) p" for p x q
    proof
      assume a: "q = i \<and> cdist ?n i j \<le> cdist ?n i p"
      have h: "hk (key x) ?n < ?n" by (rule hk_less [OF p2])
      from that a have s1: "cdist ?n (hk (key x) ?n) p = cdist ?n (hk (key x) ?n) i + cdist ?n i p"
        using cdist_split [OF h i that(1)] by simp
      from that None have "p \<noteq> j" by auto
      with a cdist_inj [OF i j that(1)] have "cdist ?n i j < cdist ?n i p" by (metis le_neq_implies_less)
      moreover have "cdist ?n (hk (key x) ?n) j \<le> cdist ?n (hk (key x) ?n) i + cdist ?n i j"
        using h i j by (auto simp: cdist_def split: if_splits)
      ultimately have "cdist ?n (hk (key x) ?n) j < cdist ?n (hk (key x) ?n) p" using s1 by simp
      from reach [OF that(1,2,3) j this] ij None show False by simp
    qed
    have occ: "occupied (t[i := None]) + 1 = occupied t"
      using occupied_update [OF i, of None] Suc.prems(13) by simp
    have "table_ok (\<lambda>e. hk (key e)) key (t[i := None])"
      unfolding table_ok_def
    proof (intro conjI allI impI)
      show "pow2 (length (t[i := None]))" using p2 by simp
      show "occupied (t[i := None]) < length (t[i := None])" using occ occupied_le [of t] by simp
    next
      fix p q x y
      assume a: "p < length (t[i := None])" "q < length (t[i := None])"
        and b: "t[i := None] ! p = Some x \<and> t[i := None] ! q = Some y \<and> key x = key y"
      then have "p \<noteq> i" "q \<noteq> i" by auto
      with a b dist [of p q x y] show "p = q" by simp
    next
      fix p x
      assume a: "p < length (t[i := None])" and b: "t[i := None] ! p = Some x"
      then have "p \<noteq> i" by auto
      with a b have pi: "p < ?n" "p \<noteq> i" "t ! p = Some x" by auto
      show "reachable_slot (\<lambda>e. hk (key e)) (t[i := None]) x p"
        unfolding reachable_slot_def
      proof (intro allI impI)
        fix q
        assume "q < length (t[i := None])"
          and "cdist (length (t[i := None])) (hk (key x) (length (t[i := None]))) q
            < cdist (length (t[i := None])) (hk (key x) (length (t[i := None]))) p"
        then have q: "q < ?n" "cdist ?n (hk (key x) ?n) q < cdist ?n (hk (key x) ?n) p" by auto
        from reach [OF pi q] ri [OF pi q] show "t[i := None] ! q \<noteq> None" by auto
      qed
    qed
    with occ None show ?thesis by simp
  next
    case (Some e)
    have n1: "1 < ?n" using i j ij by linarith
    have zj: "z \<noteq> j" using Some z(3) by auto
    have jz: "cdist ?n ?j z < fuel" using cdist_step [OF p2 j z(1) zj] z(5) by simp
    have j': "?j < ?n" by (rule wrap_less [OF p2])
    show ?thesis
    proof (cases "cdist ?n (hk (key e) ?n) j \<ge> cdist ?n i j")
      case True
      let ?t = "t[i := Some e]"
      have jj: "cdist ?n j ?j = 1" by (rule cdist_next_self [OF p2 j n1])
      have a1: "p = p'" if "p < ?n" "p' < ?n" "p \<noteq> j" "p' \<noteq> j" "?t ! p = Some x" "?t ! p' = Some y" "key x = key y" for p p' x y
      proof -
        have "p = i \<and> x = e \<or> p \<noteq> i \<and> t ! p = Some x" "p' = i \<and> y = e \<or> p' \<noteq> i \<and> t ! p' = Some y"
          using that i by (auto simp: nth_list_update split: if_splits)
        then show ?thesis using that dist [of j p' e y] dist [of p j x e] dist [of p p' x y] Some ij j by metis
      qed
      have a2: "q \<noteq> j \<and> ?t ! q \<noteq> None \<or> q = j \<and> cdist ?n j ?j \<le> cdist ?n j p"
        if "p < ?n" "p \<noteq> j" "?t ! p = Some x" "q < ?n" "cdist ?n (hk (key x) ?n) q < cdist ?n (hk (key x) ?n) p" for p x q
        using shift_back_step [OF p2 i j ij Some btw reach True that] jj by simp
      have a3: "j \<noteq> ?j" using jj by auto
      have "table_ok (\<lambda>e. hk (key e)) key (shift_back fuel (\<lambda>e. hk (key e)) ?t j ?j) \<and>
        entries (shift_back fuel (\<lambda>e. hk (key e)) ?t j ?j) = entries (?t[j := None]) \<and>
        occupied (shift_back fuel (\<lambda>e. hk (key e)) ?t j ?j) + 1 = occupied ?t \<and>
        length (shift_back fuel (\<lambda>e. hk (key e)) ?t j ?j) = length ?t"
      proof (rule Suc.IH)
        show "cdist (length ?t) j ?j \<le> cdist (length ?t) j z"
          using jj cdist_0_iff [OF j z(1)] zj by (simp add: Suc_le_eq)
        show "?t ! q \<noteq> None" if "q < length ?t" "0 < cdist (length ?t) j q" "cdist (length ?t) j q < cdist (length ?t) j ?j" for q
          using that jj by simp
      qed (use a1 a2 a3 i j j' p2 z jz zj ij Some in simp_all)
      moreover have "entries (?t[j := None]) = entries (t[i := None])"
      proof -
        have "?t[j := None] = (t[i := None, j := None])[i := Some e]" 
        proof (rule nth_equalityI)
          fix q assume "q < length (?t[j := None])"
          then show "?t[j := None] ! q = (t[i := None, j := None])[i := Some e] ! q"
            using i j ij by (auto simp: nth_list_update)
        qed simp
        then have "entries (?t[j := None]) = insert e (entries (t[i := None, j := None]))"
          using entries_put [of i "t[i := None, j := None]" e] i ij by simp
        also have "\<dots> = entries (t[i := None])" using entries_clear [of j "t[i := None]" e] j ij Some by simp
        finally show ?thesis .
      qed
      moreover have "occupied ?t = occupied t" using occupied_update [OF i, of "Some e"] Suc.prems(13) by simp
      ultimately show ?thesis using Some True by (simp add: sub64_wrap [OF p2] i j hk_less [OF p2])
    next
      case False
      have near: "cdist ?n i j + 1 < ?n"
        using z(4) cdist_less [OF i z(1)] cdist_inj [OF i j z(1)] zj by (metis Suc_eq_plus1 Suc_leI le_neq_implies_less order_le_less_trans)
      have ijj: "cdist ?n i ?j = cdist ?n i j + 1" by (rule cdist_next [OF p2 i j near])
      have b2: "q \<noteq> i \<and> t ! q \<noteq> None \<or> q = i \<and> cdist ?n i ?j \<le> cdist ?n i p"
        if "p < ?n" "p \<noteq> i" "t ! p = Some x" "q < ?n" "cdist ?n (hk (key x) ?n) q < cdist ?n (hk (key x) ?n) p" for p x q
      proof (cases "q = i")
        case True
        have "p \<noteq> j"
        proof
          assume "p = j"
          with that Some have x: "x = e" by simp
          have h: "hk (key e) ?n < ?n" by (rule hk_less [OF p2])
          from cdist_split [OF h i j] that True x \<open>p = j\<close> False show False by simp
        qed
        with reach [OF that] True cdist_inj [OF i j that(1)] show ?thesis
          unfolding ijj by (metis Suc_eq_plus1 Suc_leI le_neq_implies_less)
      qed (use reach [OF that] in auto)
      have b3: "t ! q \<noteq> None" if "q < ?n" "0 < cdist ?n i q" "cdist ?n i q < cdist ?n i ?j" for q
        using that btw [of q] cdist_inj [OF i that(1) j] Some unfolding ijj by (metis Suc_eq_plus1 less_Suc_eq option.distinct(1))
      have b4: "cdist ?n i ?j \<le> cdist ?n i z"
        unfolding ijj using z(4) cdist_inj [OF i j z(1)] zj by (metis Suc_eq_plus1 Suc_leI le_neq_implies_less)
      have "table_ok (\<lambda>e. hk (key e)) key (shift_back fuel (\<lambda>e. hk (key e)) t i ?j) \<and>
        entries (shift_back fuel (\<lambda>e. hk (key e)) t i ?j) = entries (t[i := None]) \<and>
        occupied (shift_back fuel (\<lambda>e. hk (key e)) t i ?j) + 1 = occupied t \<and>
        length (shift_back fuel (\<lambda>e. hk (key e)) t i ?j) = length t"
      proof (rule Suc.IH)
        show "i \<noteq> ?j" using ijj by auto
      qed (fact p2 i j' dist b2 b3 z b4 jz Suc.prems(13))+
      with Some False show ?thesis by (simp add: sub64_wrap [OF p2] i j hk_less [OF p2])
    qed
  qed
qed

lemma delete:
  fixes t :: "'e option list"
  assumes ok: "table_ok (\<lambda>e. hk (key e)) key t" and i: "i < length t" and e: "t ! i = Some e"
  defines "r \<equiv> shift_back (length t) (\<lambda>e. hk (key e)) t i (wrap (length t) (i + 1))"
  shows "table_ok (\<lambda>e. hk (key e)) key r" "entries r = entries t - {e}"
    "occupied r + 1 = occupied t" "length r = length t"
proof -
  let ?n = "length t" and ?j = "wrap (length t) (i + 1)"
  from ok have p2: "pow2 ?n" and occ: "occupied t < ?n"
    and dist: "\<And>p q x y. p < ?n \<Longrightarrow> q < ?n \<Longrightarrow> t ! p = Some x \<Longrightarrow> t ! q = Some y \<Longrightarrow> key x = key y \<Longrightarrow> p = q"
    and reach: "\<And>p x. p < ?n \<Longrightarrow> t ! p = Some x \<Longrightarrow> reachable_slot (\<lambda>e. hk (key e)) t x p"
    unfolding table_ok_def by blast+
  from occupied_less_ex [OF occ] obtain z where z: "z < ?n" "t ! z = None" by blast
  with e have zi: "z \<noteq> i" by auto
  have n1: "1 < ?n" using z(1) i zi by linarith
  have j: "?j < ?n" by (rule wrap_less [OF p2])
  have ij: "cdist ?n i ?j = 1" by (rule cdist_next_self [OF p2 i n1])
  have "table_ok (\<lambda>e. hk (key e)) key r \<and> entries r = entries (t[i := None]) \<and>
    occupied r + 1 = occupied t \<and> length r = ?n"
    unfolding r_def
  proof (rule shift_back [OF p2 i j])
    show "i \<noteq> ?j" using ij by auto
    show "p = p'" if "p < ?n" "p' < ?n" "t ! p = Some x" "t ! p' = Some y" "key x = key y" for p p' x y
      using dist that by blast
    show "q \<noteq> i \<and> t ! q \<noteq> None \<or> q = i \<and> cdist ?n i ?j \<le> cdist ?n i p"
      if "p < ?n" "p \<noteq> i" "t ! p = Some x" "q < ?n" "cdist ?n (hk (key x) ?n) q < cdist ?n (hk (key x) ?n) p" for p x q
      using that reach [of p x] cdist_0_iff [OF i that(1)] ij by (auto simp: reachable_slot_def Suc_le_eq)
    show "cdist ?n i ?j \<le> cdist ?n i z" using ij cdist_0_iff [OF i z(1)] zi by (simp add: Suc_le_eq)
  qed (use z zi e ij cdist_less [OF j z(1)] in auto)
  moreover have "e \<notin> entries (t[i := None])"
  proof
    assume "e \<in> entries (t[i := None])"
    then obtain q where q: "q < ?n" "t[i := None] ! q = Some e" by (auto simp: entries_nth)
    then have "q \<noteq> i" by auto
    with q dist [of q i e e] i e show False by simp
  qed
  ultimately show "table_ok (\<lambda>e. hk (key e)) key r" "entries r = entries t - {e}"
    "occupied r + 1 = occupied t" "length r = length t"
    using entries_clear [OF i e] by auto
qed

lemma rehash:
  fixes t :: "'e option list"
  assumes "table_ok (\<lambda>e. hk (key e)) key t"
    and "\<forall>x\<in>entries old. \<forall>y\<in>entries t. key x \<noteq> key y"
    and "distinct (map key (contents old))"
    and "occupied old + occupied t < length t"
  shows "table_ok (\<lambda>e. hk (key e)) key (rehash (\<lambda>e. hk (key e)) old t) \<and>
    entries (rehash (\<lambda>e. hk (key e)) old t) = entries old \<union> entries t \<and>
    occupied (rehash (\<lambda>e. hk (key e)) old t) = occupied old + occupied t \<and>
    length (rehash (\<lambda>e. hk (key e)) old t) = length t"
  using assms
proof (induction old arbitrary: t)
  case Nil
  then show ?case by (simp add: entries_def occupied_def)
next
  case (Cons a old)
  show ?case
  proof (cases a)
    case None
    have "table_ok (\<lambda>e. hk (key e)) key (rehash (\<lambda>e. hk (key e)) old t) \<and>
      entries (rehash (\<lambda>e. hk (key e)) old t) = entries old \<union> entries t \<and>
      occupied (rehash (\<lambda>e. hk (key e)) old t) = occupied old + occupied t \<and>
      length (rehash (\<lambda>e. hk (key e)) old t) = length t"
      by (rule Cons.IH) (use Cons.prems None in \<open>auto simp: entries_def occupied_def contents.simps\<close>)
    with None show ?thesis by (simp add: entries_def occupied_def)
  next
    case (Some e)
    let ?t = "put_first_free (\<lambda>e. hk (key e)) e t"
    have mem: "entries (a # old) = insert e (entries old)" using Some by (auto simp: entries_def)
    have occ: "occupied (a # old) = Suc (occupied old)" using Some by (simp add: occupied_def)
    have keys: "key ` entries old = set (map key (contents old))"
      by (simp add: entries_contents)
    have new: "\<forall>x\<in>entries t. key x \<noteq> key e" using Cons.prems(2) mem by auto
    have room: "occupied t + 1 < length t" using Cons.prems(4) occ by simp
    note p = put [OF Cons.prems(1) new room]
    have "key e \<notin> key ` entries old" using Cons.prems(3) Some unfolding keys by (simp add: contents.simps)
    then have dis: "\<forall>x\<in>entries old. \<forall>y\<in>entries ?t. key x \<noteq> key y"
      using Cons.prems(2) mem p(2) by (auto simp: image_iff)
    have "table_ok (\<lambda>e. hk (key e)) key (rehash (\<lambda>e. hk (key e)) old ?t) \<and>
      entries (rehash (\<lambda>e. hk (key e)) old ?t) = entries old \<union> entries ?t \<and>
      occupied (rehash (\<lambda>e. hk (key e)) old ?t) = occupied old + occupied ?t \<and>
      length (rehash (\<lambda>e. hk (key e)) old ?t) = length ?t"
      by (rule Cons.IH [OF p(1) dis]) (use Cons.prems Some occ p in \<open>simp_all add: contents.simps\<close>)
    with Some mem occ p show ?thesis by simp
  qed
qed

lemma distinct_keys:
  assumes "table_ok (\<lambda>e. hk (key e)) key t"
  shows "distinct (map key (contents t))"
  by (rule contents_distinct) (use assms in \<open>unfold table_ok_def, blast\<close>)

end

end
