(* ===== verification/Double.thy ===== *)
theory Double
  imports Prelude
begin

text \<open>
  C's \<open>double\<close> (IEEE 754 binary64, round to nearest, ties to even), as far as the runtime
  uses it: the conversion from \<open>int64_t\<close>, \<open>isfinite\<close>, \<open>trunc(n) == n\<close>, the
  conversion back to \<open>int64_t\<close>, the comparisons and the four arithmetic operations.
  A finite number is a sign, a mantissa and an exponent: \<open>(-1)^s * m * 2^e\<close>.
\<close>

datatype dbl = NaN | Inf bool | Fin bool nat int

fun bits :: "nat \<Rightarrow> nat" where
  "bits n = (if n = 0 then 0 else Suc (bits (n div 2)))"

declare bits.simps [simp del]

lemma bits_0 [simp]: "bits 0 = 0" by (simp add: bits.simps)

lemma bits_bounds: "0 < n \<Longrightarrow> 2 ^ (bits n - 1) \<le> n \<and> n < 2 ^ bits n"
proof (induction n rule: bits.induct)
  case (1 n)
  show ?case
  proof (cases "n div 2 = 0")
    case True
    with 1 have "n = 1" by auto
    then show ?thesis by (simp add: bits.simps)
  next
    case False
    with 1 have IH: "2 ^ (bits (n div 2) - 1) \<le> n div 2" "n div 2 < 2 ^ bits (n div 2)" by auto
    from False have b: "bits (n div 2) = Suc (bits (n div 2) - 1)" by (simp add: bits.simps [of "n div 2"])
    have "bits n = Suc (bits (n div 2))" using 1 by (subst bits.simps) simp
    moreover have "2 ^ bits (n div 2) \<le> n"
      using IH(1) by (subst b, subst power_Suc) linarith
    moreover have "n < 2 * 2 ^ bits (n div 2)" using IH(2) by linarith
    ultimately show ?thesis by simp
  qed
qed

text \<open>The double nearest to the fraction \<open>n / d\<close> (\<open>0 < d\<close>) with sign \<open>s\<close>.\<close>

definition round_ratio :: "bool \<Rightarrow> nat \<Rightarrow> nat \<Rightarrow> dbl" where
  "round_ratio s n d =
     (if n = 0 then Fin s 0 (-1074)
      else let k = int (bits n) - int (bits d);
               top = (if d * 2 ^ nat k \<le> n * 2 ^ nat (- k) then k else k - 1);
               e = max (-1074) (top - 52);
               num = n * 2 ^ nat (- e);
               den = d * 2 ^ nat e;
               q = num div den;
               r = num mod den;
               m = (if den < 2 * r \<or> (2 * r = den \<and> odd q) then q + 1 else q)
           in if m = 2 ^ 53
              then (if 971 < e + 1 then Inf s else Fin s (2 ^ 52) (e + 1))
              else if 971 < e then Inf s else Fin s m e)"

definition dbl_of_int :: "int \<Rightarrow> dbl" where
  \<comment> \<open>\<open>(double)n\<close>\<close>
  "dbl_of_int n = round_ratio (n < 0) (nat \<bar>n\<bar>) 1"

fun scaled :: "dbl \<Rightarrow> int" where
  \<comment> \<open>the value times \<open>2^1074\<close>: an integer for every finite double\<close>
  "scaled (Fin s m e) = (if s then - 1 else 1) * int m * 2 ^ nat (e + 1074)"
| "scaled (Inf s) = 0"
| "scaled NaN = 0"

fun isfinite :: "dbl \<Rightarrow> bool" where
  "isfinite (Fin _ _ _) = True"
| "isfinite _ = False"

fun is_integral :: "dbl \<Rightarrow> bool" where
  \<comment> \<open>\<open>trunc(n) == n\<close>; true of the infinities, false of NaN\<close>
  "is_integral (Fin s m e) = (0 \<le> e \<or> 2 ^ nat (- e) dvd m)"
| "is_integral (Inf _) = True"
| "is_integral NaN = False"

fun dbl_to_int :: "dbl \<Rightarrow> int" where
  \<comment> \<open>\<open>(int64_t)n\<close> inside the range; truncation towards zero\<close>
  "dbl_to_int (Fin s m e) = (if s then - 1 else 1) * int (m * 2 ^ nat e div 2 ^ nat (- e))"
| "dbl_to_int _ = 0"

fun dbl_lt :: "dbl \<Rightarrow> dbl \<Rightarrow> bool" where
  "dbl_lt NaN _ = False"
| "dbl_lt _ NaN = False"
| "dbl_lt (Inf s) (Inf t) = (s \<and> \<not> t)"
| "dbl_lt (Inf s) (Fin _ _ _) = s"
| "dbl_lt (Fin _ _ _) (Inf t) = (\<not> t)"
| "dbl_lt (Fin s m e) (Fin t n f) = (scaled (Fin s m e) < scaled (Fin t n f))"

fun dbl_eq :: "dbl \<Rightarrow> dbl \<Rightarrow> bool" where
  "dbl_eq (Inf s) (Inf t) = (s = t)"
| "dbl_eq (Fin s m e) (Fin t n f) = (scaled (Fin s m e) = scaled (Fin t n f))"
| "dbl_eq _ _ = False"

definition dbl_le :: "dbl \<Rightarrow> dbl \<Rightarrow> bool" where
  "dbl_le a b = (dbl_lt a b \<or> dbl_eq a b)"

definition int64_range :: "dbl \<Rightarrow> bool" where
  \<comment> \<open>\<open>n >= -9223372036854775808.0 && n < 9223372036854775808.0\<close>\<close>
  "int64_range n = (dbl_le (Fin True (2 ^ 52) 11) n \<and> dbl_lt n (Fin False (2 ^ 52) 11))"

fun dbl_neg :: "dbl \<Rightarrow> dbl" where
  "dbl_neg NaN = NaN"
| "dbl_neg (Inf s) = Inf (\<not> s)"
| "dbl_neg (Fin s m e) = Fin (\<not> s) m e"

fun dbl_add :: "dbl \<Rightarrow> dbl \<Rightarrow> dbl" where
  "dbl_add NaN _ = NaN"
| "dbl_add _ NaN = NaN"
| "dbl_add (Inf s) (Inf t) = (if s = t then Inf s else NaN)"
| "dbl_add (Inf s) (Fin _ _ _) = Inf s"
| "dbl_add (Fin _ _ _) (Inf t) = Inf t"
| "dbl_add (Fin s m e) (Fin t n f) =
     (let v = scaled (Fin s m e) + scaled (Fin t n f)
      in if v = 0 then Fin (s \<and> t) 0 (-1074)
         else round_ratio (v < 0) (nat \<bar>v\<bar>) (2 ^ 1074))"

definition dbl_sub :: "dbl \<Rightarrow> dbl \<Rightarrow> dbl" where
  "dbl_sub a b = dbl_add a (dbl_neg b)"

fun dbl_mul :: "dbl \<Rightarrow> dbl \<Rightarrow> dbl" where
  "dbl_mul NaN _ = NaN"
| "dbl_mul _ NaN = NaN"
| "dbl_mul (Inf s) (Inf t) = Inf (s \<noteq> t)"
| "dbl_mul (Inf s) (Fin t n _) = (if n = 0 then NaN else Inf (s \<noteq> t))"
| "dbl_mul (Fin s m _) (Inf t) = (if m = 0 then NaN else Inf (s \<noteq> t))"
| "dbl_mul (Fin s m e) (Fin t n f) =
     round_ratio (s \<noteq> t) (m * n * 2 ^ nat (e + f)) (2 ^ nat (- (e + f)))"

fun dbl_div :: "dbl \<Rightarrow> dbl \<Rightarrow> dbl" where
  "dbl_div NaN _ = NaN"
| "dbl_div _ NaN = NaN"
| "dbl_div (Inf s) (Inf t) = NaN"
| "dbl_div (Inf s) (Fin t _ _) = Inf (s \<noteq> t)"
| "dbl_div (Fin s _ _) (Inf t) = Fin (s \<noteq> t) 0 (-1074)"
| "dbl_div (Fin s m e) (Fin t n f) =
     (if n = 0 then (if m = 0 then NaN else Inf (s \<noteq> t))
      else round_ratio (s \<noteq> t) (m * 2 ^ nat (e - f)) (n * 2 ^ nat (f - e)))"

subsection \<open>Integers up to \<open>2^53\<close> survive the conversion\<close>

lemma dbl_to_int_of_int:
  assumes "\<bar>n\<bar> \<le> 2 ^ 53"
  shows "isfinite (dbl_of_int n) \<and> is_integral (dbl_of_int n) \<and> dbl_to_int (dbl_of_int n) = n"
proof (cases "n = 0")
  case True
  then show ?thesis by (simp add: dbl_of_int_def round_ratio_def)
next
  case False
  define a where "a = nat \<bar>n\<bar>"
  have n: "n = (if n < 0 then - 1 else 1) * int a" by (simp add: a_def)
  have a: "0 < a" "a \<le> 2 ^ 53" using False assms by (auto simp: a_def)
  define k where "k = bits a - 1"
  from bits_bounds [OF a(1)] have kb: "2 ^ k \<le> a" "a < 2 ^ bits a" by (auto simp: k_def)
  have b: "bits a = Suc k" using a(1) by (simp add: k_def bits.simps [of a])
  have "(2::nat) ^ k \<le> 2 ^ 53" using kb(1) a(2) by (rule order_trans)
  then have k53: "k \<le> 53" by (rule power_le_imp_le_exp [rotated]) simp
  have bits1: "bits 1 = 1" by (simp add: bits.simps)
  show ?thesis
  proof (cases "k \<le> 52")
    case True
    have e: "max (-1074) (int k - 52) = - int (52 - k)" using True by simp
    have m: "a * 2 ^ (52 - k) < 2 ^ 53"
    proof -
      have "a * 2 ^ (52 - k) < 2 ^ Suc k * 2 ^ (52 - k)" using kb(2) b by simp
      also have "\<dots> = 2 ^ 53" using True by (simp flip: power_add)
      finally show ?thesis .
    qed
    have "dbl_of_int n = Fin (n < 0) (a * 2 ^ (52 - k)) (- int (52 - k))"
      using a(1) kb(1) m
      unfolding dbl_of_int_def a_def [symmetric] round_ratio_def Let_def b bits1
      by (simp add: e)
    then show ?thesis using n by simp
  next
    case False
    with k53 have k: "k = 53" by simp
    with kb(1) a(2) have "a = 2 ^ 53" by simp
    then have "dbl_of_int n = Fin (n < 0) (2 ^ 52) 1"
      unfolding dbl_of_int_def a_def [symmetric] round_ratio_def Let_def b k bits1 by simp
    then show ?thesis using n \<open>a = 2 ^ 53\<close> by simp
  qed
qed

end
