(* ===== verification/Heap.thy ===== *)
theory Heap
  imports Open_Addressing Double
begin

text \<open>
  The data model of the reference-counting runtime: \<open>struct RcValue\<close> and \<open>struct RcPage\<close>
  (\<open>src/rc/rc_layout.h\<close>), \<open>struct RcContext\<close> and \<open>RcStats\<close> (\<open>src/rc/rc.c\<close>, \<open>src/rc/rc.h\<close>), the
  memory they live in, and the functions that only read it.

  A handle is an \<open>RcValue *\<close>: NULL, the static nil, an immediate integer (the raw tagged
  word) or the address of a cell. Memory maps the addresses of live cells to their contents;
  a freed cell has no entry, and reading it gives the type \<open>RC_FREE_CELL\<close>, the mark that
  \<open>raw_free\<close> leaves in the page. A write to a freed cell, a count that would go below zero and
  every \<open>abort()\<close> set the \<open>fault\<close> flag, so "no fault" is memory safety.

  Library calls that may fail (the allocators and the file functions) take their
  outcome from the list \<open>outcomes\<close>; past its end they succeed. Theorems quantify over the
  outcomes, hence over every pattern of failures.
\<close>

subsection \<open>Values\<close>

type_synonym addr = nat
type_synonym ctxid = nat  \<comment> \<open>\<open>RcContext *\<close>; 0 is NULL\<close>
type_synonym native_id = nat  \<comment> \<open>a C function pointer; 0 is NULL\<close>

datatype handle = HNull | HNil | HImm u64 | HRef addr

datatype RcType = RC_NIL | RC_NUMBER | RC_STRING | RC_SYMBOL | RC_PAIR | RC_VECTOR
  | RC_CLOSURE | RC_STREAM | RC_TAIL | RC_ENV | RC_FREE_CELL

text \<open>The union of \<open>struct RcValue\<close>. A number is exact when its integer is present; a symbol's
  \<open>intern_next\<close> chain is kept in the bucket lists of its context.\<close>

datatype payload =
    VNumber (real_value: dbl) (integer: "int option")
  | VString (data: string)
  | VSymbol (data: string) (hash: u64) (global_slot: handle) (function_slot: handle)
  | VPair (head: handle) (tail: handle)
  | VVector (items: "handle list") (cycle_source: bool)
  | VEnv (parent: handle) (env_keys: "handle list") (env_values: "handle list") (key_classes: nat)
  | VClosure (native: native_id) (owned_native: native_id) (arity: nat)
      (captures: "handle list") (bound: "handle list")
  | VStream (stream_file: "nat option") (close_on_release: bool) (input: bool)
  | VTail (tail_function: handle) (argv: "handle list") (guards: nat)
  | VFree

fun type_of_payload :: "payload \<Rightarrow> RcType" where
  "type_of_payload (VNumber _ _) = RC_NUMBER"
| "type_of_payload (VString _) = RC_STRING"
| "type_of_payload (VSymbol _ _ _ _) = RC_SYMBOL"
| "type_of_payload (VPair _ _) = RC_PAIR"
| "type_of_payload (VVector _ _) = RC_VECTOR"
| "type_of_payload (VEnv _ _ _ _) = RC_ENV"
| "type_of_payload (VClosure _ _ _ _ _) = RC_CLOSURE"
| "type_of_payload (VStream _ _ _) = RC_STREAM"
| "type_of_payload (VTail _ _ _) = RC_TAIL"
| "type_of_payload VFree = RC_FREE_CELL"

text \<open>The header word and scratch word of a cell. \<open>refs\<close> is a \<open>uint32_t\<close>: it is only ever
  incremented below the sentinel \<open>RC_IMMORTAL\<close>, so it never wraps.\<close>

record cell =
  refs :: nat
  marked :: bool
  reaches_vector :: bool
  builtin_slot :: nat
  returns_second :: bool
  visited :: bool
  has_plan :: bool
  trial :: nat
  load :: payload

definition RC_IMMORTAL :: nat where
  "RC_IMMORTAL = 2 ^ 32 - 1"

definition free_cell :: cell where
  "free_cell = \<lparr>refs = 0, marked = False, reaches_vector = False, builtin_slot = 0,
     returns_second = False, visited = False, has_plan = False, trial = 0, load = VFree\<rparr>"

subsection \<open>Contexts and memory\<close>

record stats =
  live_objects :: nat
  live_bytes :: nat
  total_allocations :: nat
  total_frees :: nat
  collections :: nat
  cycle_objects_freed :: nat
  peak_objects :: nat
  cached_objects :: nat
  peak_cached_bytes :: nat
  system_allocations :: nat
  pair_allocations :: nat
  pair_reuse_attempts :: nat
  pair_reuses :: nat
  pair_reuse_misses :: nat
  pair_tail_transfers :: nat
  pair_tail_shares :: nat
  capture_edges_created :: nat
  live_capture_edges :: nat
  peak_capture_edges :: nat
  acyclic_collections :: nat

record plan_slot =
  plan_key :: addr
  plan_value :: handle
  plan_calls :: nat

record page =
  page_ctx :: ctxid
  page_cell_bytes :: nat
  page_used :: nat
  page_limit :: nat

text \<open>The 15 canonical builtins of \<open>RcBuiltinSlot\<close>, in their order.\<close>

definition RC_BUILTIN_COUNT :: nat where "RC_BUILTIN_COUNT = 15"
definition RC_BUILTIN_EQ :: nat where "RC_BUILTIN_EQ = 5"

record ctx =
  error_active :: bool
  acyclic :: bool
  since_collection :: nat
  collection_interval :: nat
  interpreter_entries :: nat
  verify_native :: bool
  interpreter_fallback :: bool
  execution_mode :: int
  pages :: "nat list"  \<comment> \<open>newest first\<close>
  bump :: "nat \<Rightarrow> nat option"
  free_cells :: "nat \<Rightarrow> addr list"
  free_bytes :: nat
  plans :: "plan_slot option list"
  plan_count :: nat
  walk_capacity :: nat
  destroying :: bool
  symbols :: "addr list list"
  symbol_count :: nat
  compiled_symbols :: "(nat \<times> handle list) list"  \<comment> \<open>per descriptor: its address and resolved symbols\<close>
  compiled_symbol_cache :: "nat \<Rightarrow> (nat \<times> handle list) option"
  true_symbol :: handle
  false_symbol :: handle
  static_closures :: "addr option list"
  static_count :: nat
  retired_functions :: "handle list"
  retired_capacity :: nat
  call_depth :: nat
  builtin_roots :: "handle list"
  function_generation :: nat
  prolog_guard_generation :: nat
  prolog_guard_keys :: "handle list"
  prolog_guard_mask :: nat
  native_hash_generation :: nat
  stats :: stats
  graph_slots :: nat
  cycle_sources :: nat
  sources :: "addr list"  \<comment> \<open>the doubly linked list through the vectors' payloads\<close>
  gc_capacity :: nat
  error :: "string option"
  stack_limit :: nat
  collecting :: bool
  adaptive_collection :: bool

record mem =
  cells :: "(addr, cell) fmap"
  page_table :: "(nat, page) fmap"
  next_page :: nat
  ctxs :: "ctxid \<Rightarrow> ctx"
  next_ctx :: ctxid
  closed_files :: "nat list"
  file_input :: "nat \<Rightarrow> string"  \<comment> \<open>what is left to read of an open file\<close>
  file_output :: "nat \<Rightarrow> string"  \<comment> \<open>what was written to it\<close>
  disk :: "string \<Rightarrow> string option"  \<comment> \<open>contents of the files that can be opened for reading\<close>
  file_path :: "nat \<Rightarrow> string option"  \<comment> \<open>of the files opened for writing\<close>
  next_file :: nat
  errno_text :: string  \<comment> \<open>\<open>strerror(errno)\<close> of the next failure\<close>
  unix_time :: int  \<comment> \<open>\<open>time(NULL)\<close>\<close>
  cpu_time :: dbl  \<comment> \<open>\<open>(double)clock() / CLOCKS_PER_SEC\<close>\<close>
  outcomes :: "bool list"
  fault :: bool

definition upd_ctx :: "ctxid \<Rightarrow> (ctx \<Rightarrow> ctx) \<Rightarrow> mem \<Rightarrow> mem" where
  "upd_ctx c f s = s\<lparr>ctxs := (ctxs s)(c := f (ctxs s c))\<rparr>"

definition upd_stats :: "ctxid \<Rightarrow> (stats \<Rightarrow> stats) \<Rightarrow> mem \<Rightarrow> mem" where
  "upd_stats c f = upd_ctx c (\<lambda>x. x\<lparr>stats := f (stats x)\<rparr>)"

definition cell_at :: "mem \<Rightarrow> addr \<Rightarrow> cell" where
  "cell_at s a = (case fmlookup (cells s) a of Some x \<Rightarrow> x | None \<Rightarrow> free_cell)"

definition live :: "mem \<Rightarrow> addr \<Rightarrow> bool" where
  "live s a \<longleftrightarrow> fmlookup (cells s) a \<noteq> None"

definition upd_cell :: "addr \<Rightarrow> (cell \<Rightarrow> cell) \<Rightarrow> mem \<Rightarrow> mem" where
  \<comment> \<open>a write through a pointer; a freed target is a fault\<close>
  "upd_cell a f s =
     (case fmlookup (cells s) a of
        None \<Rightarrow> s\<lparr>fault := True\<rparr>
      | Some x \<Rightarrow> s\<lparr>cells := fmupd a (f x) (cells s)\<rparr>)"

definition library_call :: "mem \<Rightarrow> bool \<times> mem" where
  \<comment> \<open>whether the next fallible library call succeeds\<close>
  "library_call s = (case outcomes s of [] \<Rightarrow> (True, s) | b # bs \<Rightarrow> (b, s\<lparr>outcomes := bs\<rparr>))"

subsection \<open>Reading values\<close>

definition RC_PAGE_BYTES :: nat where "RC_PAGE_BYTES = 64 * 1024"

definition rc_value_context :: "mem \<Rightarrow> addr \<Rightarrow> ctxid" where
  \<comment> \<open>the page header at the address with its low bits cleared\<close>
  "rc_value_context s a =
     (case fmlookup (page_table s) (a div RC_PAGE_BYTES) of None \<Rightarrow> 0 | Some p \<Rightarrow> page_ctx p)"

fun is_immediate :: "handle \<Rightarrow> bool" where
  "is_immediate (HImm _) = True"
| "is_immediate _ = False"

fun immediate_integer :: "handle \<Rightarrow> int" where
  "immediate_integer (HImm w) =
     (let payload = drop_bit 1 w
      in uint (payload AND 0x3fffffffffffffff) - uint (payload AND 0x4000000000000000))"
| "immediate_integer _ = 0"

fun is_heap :: "handle \<Rightarrow> bool" where
  "is_heap (HRef _) = True"
| "is_heap _ = False"

fun is_counted :: "mem \<Rightarrow> handle \<Rightarrow> bool" where
  "is_counted s (HRef a) = (refs (cell_at s a) \<noteq> RC_IMMORTAL)"
| "is_counted s _ = False"

fun may_reach_vector :: "mem \<Rightarrow> handle \<Rightarrow> bool" where
  "may_reach_vector s (HRef a) = reaches_vector (cell_at s a)"
| "may_reach_vector s _ = False"

fun rc_type :: "mem \<Rightarrow> handle \<Rightarrow> RcType" where
  "rc_type s (HImm _) = RC_NUMBER"
| "rc_type s (HRef a) = type_of_payload (load (cell_at s a))"
| "rc_type s _ = RC_NIL"

fun load_of :: "mem \<Rightarrow> handle \<Rightarrow> payload" where
  \<comment> \<open>the payload behind a pointer\<close>
  "load_of s (HRef a) = load (cell_at s a)"
| "load_of s _ = VFree"

fun rc_refcount :: "mem \<Rightarrow> handle \<Rightarrow> nat" where
  "rc_refcount s (HImm _) = SIZE_MAX"
| "rc_refcount s HNull = 0"
| "rc_refcount s HNil = SIZE_MAX"
| "rc_refcount s (HRef a) =
     (if refs (cell_at s a) = RC_IMMORTAL then SIZE_MAX else refs (cell_at s a))"

definition rc_nil :: handle where "rc_nil = HNil"

definition rc_is_nil :: "handle \<Rightarrow> bool" where "rc_is_nil v \<longleftrightarrow> v = HNil"

fun belongs :: "mem \<Rightarrow> ctxid \<Rightarrow> handle \<Rightarrow> bool" where
  "belongs s c HNull = False"
| "belongs s c HNil = True"
| "belongs s c (HImm _) = True"
| "belongs s c (HRef a) = (rc_value_context s a = c)"

subsection \<open>Errors\<close>

definition rc_error :: "ctxid \<Rightarrow> string \<Rightarrow> mem \<Rightarrow> mem" where
  \<comment> \<open>always returns NULL in C; here only the memory is returned\<close>
  "rc_error c msg s =
     (if c = 0 then s
      else let s = upd_ctx c (\<lambda>x. x\<lparr>error_active := True\<rparr>) s;
               (ok, s) = library_call s
           in if ok then upd_ctx c (\<lambda>x. x\<lparr>error := Some msg\<rparr>) s
              else let (ok2, s) = library_call s
                   in upd_ctx c (\<lambda>x. x\<lparr>error := (if ok2 then Some ''out of memory'' else None)\<rparr>) s)"

definition rc_fail :: "ctxid \<Rightarrow> string \<Rightarrow> mem \<Rightarrow> handle \<times> mem" where
  \<comment> \<open>\<open>return rc_error(ctx, msg)\<close>\<close>
  "rc_fail c msg s = (HNull, rc_error c msg s)"

definition rc_has_error :: "mem \<Rightarrow> ctxid \<Rightarrow> bool" where
  "rc_has_error s c \<longleftrightarrow> c \<noteq> 0 \<and> error_active (ctxs s c)"

definition rc_error_message :: "mem \<Rightarrow> ctxid \<Rightarrow> string" where
  "rc_error_message s c =
     (if c \<noteq> 0 \<and> error (ctxs s c) \<noteq> None then the (error (ctxs s c))
      else if c \<noteq> 0 \<and> error_active (ctxs s c) then ''out of memory'' else [])"

definition rc_clear_error :: "ctxid \<Rightarrow> mem \<Rightarrow> mem" where
  "rc_clear_error c s = (if c = 0 then s else upd_ctx c (\<lambda>x. x\<lparr>error := None, error_active := False\<rparr>) s)"

definition rc_set_stack_limit :: "ctxid \<Rightarrow> nat \<Rightarrow> mem \<Rightarrow> mem" where
  "rc_set_stack_limit c limit s = (if c = 0 then s else upd_ctx c (\<lambda>x. x\<lparr>stack_limit := limit\<rparr>) s)"

definition rc_stack_check :: "ctxid \<Rightarrow> nat \<Rightarrow> mem \<Rightarrow> bool \<times> mem" where
  \<comment> \<open>\<open>address\<close> is the current frame address\<close>
  "rc_stack_check c address s =
     (if stack_limit (ctxs s c) = 0 \<or> address \<ge> stack_limit (ctxs s c) then (True, s)
      else (False, rc_error c ''stack exhausted: recursion is too deep'' s))"

end
