(* ===== verification/Alloc.thy ===== *)
theory Alloc
  imports Heap
begin

text \<open>
  Slab allocation and contexts (\<open>src/rc/rc.c\<close>): \<open>cell_bytes\<close>, \<open>new_cell\<close>, \<open>allocate\<close>,
  \<open>rc_context_new\<close>, \<open>rc_context_new_with_policy\<close>. A page is 64 KiB, aligned to its size; the
  model numbers the pages handed out by \<open>aligned_alloc\<close>, and a cell's address is page number
  times page size plus offset, so that clearing the low bits of the address finds the page.
\<close>

subsection \<open>Cells\<close>

definition RC_PAIR_CELL :: nat where "RC_PAIR_CELL = 32"
definition RC_VALUE_BYTES :: nat where "RC_VALUE_BYTES = 72"

definition PAGE_FIRST :: nat where
  \<comment> \<open>\<open>(sizeof(RcPage) + 63) & ~63\<close>, with \<open>sizeof(RcPage) = 80\<close>\<close>
  "PAGE_FIRST = 128"

definition cell_bytes :: "RcType \<Rightarrow> nat" where
  "cell_bytes t = (if t = RC_PAIR then RC_PAIR_CELL else RC_VALUE_BYTES)"

definition cell_class :: "RcType \<Rightarrow> nat" where
  "cell_class t = (if t = RC_PAIR then 0 else 1)"

text \<open>A cell from the bump page of its class, after a fresh page when that is full.\<close>

definition fresh_page :: "ctxid \<Rightarrow> nat \<Rightarrow> nat \<Rightarrow> mem \<Rightarrow> mem" where
  "fresh_page c cls bytes s =
     (let n = next_page s;
          p = \<lparr>page_ctx = c, page_cell_bytes = bytes, page_used = PAGE_FIRST,
               page_limit = RC_PAGE_BYTES - (RC_PAGE_BYTES - PAGE_FIRST) mod bytes\<rparr>
      in upd_stats c (\<lambda>x. x\<lparr>system_allocations := system_allocations x + 1\<rparr>)
           (upd_ctx c (\<lambda>x. x\<lparr>pages := n # pages x, bump := (bump x)(cls := Some n)\<rparr>)
             (s\<lparr>page_table := fmupd n p (page_table s), next_page := n + 1\<rparr>)))"

definition page_full :: "mem \<Rightarrow> ctxid \<Rightarrow> nat \<Rightarrow> nat \<Rightarrow> bool" where
  "page_full s c cls bytes =
     (case bump (ctxs s c) cls of
        None \<Rightarrow> True
      | Some n \<Rightarrow> (case fmlookup (page_table s) n of
                     None \<Rightarrow> True
                   | Some p \<Rightarrow> page_limit p < page_used p + bytes))"

definition bump_cell :: "ctxid \<Rightarrow> nat \<Rightarrow> nat \<Rightarrow> mem \<Rightarrow> addr option \<times> mem" where
  "bump_cell c cls bytes s =
     (case bump (ctxs s c) cls of
        None \<Rightarrow> (None, s)
      | Some n \<Rightarrow> (case fmlookup (page_table s) n of
                     None \<Rightarrow> (None, s)
                   | Some p \<Rightarrow> (Some (n * RC_PAGE_BYTES + page_used p),
                       s\<lparr>page_table := fmupd n (p\<lparr>page_used := page_used p + bytes\<rparr>) (page_table s)\<rparr>)))"

definition new_cell :: "ctxid \<Rightarrow> nat \<Rightarrow> nat \<Rightarrow> mem \<Rightarrow> addr option \<times> mem" where
  "new_cell c cls bytes s =
     (if page_full s c cls bytes
      then let (ok, s) = library_call s
           in if ok then bump_cell c cls bytes (fresh_page c cls bytes s) else (None, s)
      else bump_cell c cls bytes s)"

subsection \<open>Allocation\<close>

text \<open>The payload of a cell before its constructor writes it: uninitialised in C, no edges here.\<close>

fun blank :: "RcType \<Rightarrow> payload" where
  "blank RC_NUMBER = VNumber NaN None"
| "blank RC_STRING = VString []"
| "blank RC_SYMBOL = VSymbol [] 0 HNull HNull"
| "blank RC_PAIR = VPair HNull HNull"
| "blank RC_VECTOR = VVector [] False"
| "blank RC_CLOSURE = VClosure 0 0 0 [] []"
| "blank RC_STREAM = VStream None False False"
| "blank RC_TAIL = VTail HNull [] 0"
| "blank RC_ENV = VEnv HNull [] [] 0"
| "blank _ = VFree"

definition new_header :: "RcType \<Rightarrow> cell" where
  "new_header t = \<lparr>refs = 1, marked = False, reaches_vector = False, builtin_slot = 0,
     returns_second = False, visited = False, has_plan = False, trial = 0, load = blank t\<rparr>"

definition note_allocation :: "RcType \<Rightarrow> nat \<Rightarrow> stats \<Rightarrow> stats" where
  "note_allocation t extra x =
     (let x = x\<lparr>live_objects := live_objects x + 1,
                live_bytes := live_bytes x + cell_bytes t + extra,
                total_allocations := total_allocations x + 1\<rparr>;
          x = (if t = RC_PAIR then x\<lparr>pair_allocations := pair_allocations x + 1\<rparr> else x);
          x = (if t = RC_CLOSURE
               then let n = extra div PTR_BYTES;
                        x = x\<lparr>capture_edges_created := capture_edges_created x + n,
                              live_capture_edges := live_capture_edges x + n\<rparr>
                    in x\<lparr>peak_capture_edges := max (peak_capture_edges x) (live_capture_edges x)\<rparr>
               else x)
      in x\<lparr>peak_objects := max (peak_objects x) (live_objects x)\<rparr>)"

definition slots_of_new :: "RcType \<Rightarrow> nat \<Rightarrow> nat" where
  "slots_of_new t extra =
     (if t = RC_PAIR then 2
      else if t = RC_VECTOR \<or> t = RC_CLOSURE then extra div PTR_BYTES
      else if t = RC_TAIL then 1 else 0)"

definition take_cell :: "ctxid \<Rightarrow> RcType \<Rightarrow> mem \<Rightarrow> addr option \<times> mem" where
  \<comment> \<open>the free list of the class first, then a new cell\<close>
  "take_cell c t s =
     (case free_cells (ctxs s c) (cell_class t) of
        a # as \<Rightarrow>
          (Some a, upd_ctx c (\<lambda>x. x\<lparr>free_cells := (free_cells x)(cell_class t := as),
             stats := (stats x)\<lparr>cached_objects := cached_objects (stats x) - 1\<rparr>,
             free_bytes := free_bytes x - cell_bytes t\<rparr>) s)
      | [] \<Rightarrow> new_cell c (cell_class t) (cell_bytes t) s)"

definition init_cell :: "ctxid \<Rightarrow> RcType \<Rightarrow> nat \<Rightarrow> addr \<Rightarrow> mem \<Rightarrow> mem" where
  \<comment> \<open>the header of the new value and the accounting of \<open>allocate\<close>\<close>
  "init_cell c t extra a s =
     upd_ctx c (\<lambda>x. x\<lparr>stats := note_allocation t extra (stats x),
         since_collection := since_collection x + 1,
         graph_slots := graph_slots x + slots_of_new t extra\<rparr>)
       (s\<lparr>cells := fmupd a (new_header t) (cells s)\<rparr>)"

definition allocate :: "ctxid \<Rightarrow> RcType \<Rightarrow> nat \<Rightarrow> mem \<Rightarrow> handle \<times> mem" where
  "allocate c t extra s =
     (if c = 0 \<or> extra > SIZE_MAX - RC_VALUE_BYTES then rc_fail c ''allocation size overflow'' s
      else case take_cell c t s of
             (None, s) \<Rightarrow> rc_fail c ''out of memory'' s
           | (Some a, s) \<Rightarrow> (HRef a, init_cell c t extra a s))"

subsection \<open>Contexts\<close>

datatype RcCyclePolicy = RC_CYCLES_ALLOWED | RC_ACYCLIC_ONLY

definition empty_stats :: stats where
  "empty_stats = \<lparr>live_objects = 0, live_bytes = 0, total_allocations = 0, total_frees = 0,
     collections = 0, cycle_objects_freed = 0, peak_objects = 0, cached_objects = 0,
     peak_cached_bytes = 0, system_allocations = 0, pair_allocations = 0, pair_reuse_attempts = 0,
     pair_reuses = 0, pair_reuse_misses = 0, pair_tail_transfers = 0, pair_tail_shares = 0,
     capture_edges_created = 0, live_capture_edges = 0, peak_capture_edges = 0,
     acyclic_collections = 0\<rparr>"

definition zero_ctx :: ctx where
  \<comment> \<open>\<open>calloc\<close>\<close>
  "zero_ctx = \<lparr>error_active = False, acyclic = False, since_collection = 0,
     collection_interval = 0, interpreter_entries = 0, verify_native = False,
     interpreter_fallback = False, execution_mode = 0, pages = [], bump = (\<lambda>_. None),
     free_cells = (\<lambda>_. []), free_bytes = 0, plans = [], plan_count = 0, walk_capacity = 0,
     destroying = False, symbols = [], symbol_count = 0,
     compiled_symbols = [], compiled_symbol_cache = (\<lambda>_. None), true_symbol = HNull,
     false_symbol = HNull, static_closures = [], static_count = 0, retired_functions = [],
     retired_capacity = 0, call_depth = 0, builtin_roots = replicate RC_BUILTIN_COUNT HNull,
     function_generation = 0, prolog_guard_generation = 0,
     prolog_guard_keys = replicate 3 HNull, prolog_guard_mask = 0, native_hash_generation = 0,
     stats = empty_stats, graph_slots = 0, cycle_sources = 0, sources = [], gc_capacity = 0,
     error = None, stack_limit = 0, collecting = False, adaptive_collection = False\<rparr>"

definition empty_mem :: "bool list \<Rightarrow> mem" where
  \<comment> \<open>a process before the first context\<close>
  "empty_mem bs = \<lparr>cells = fmempty, page_table = fmempty, next_page = 1, ctxs = (\<lambda>_. zero_ctx),
     next_ctx = 1, closed_files = [], file_input = (\<lambda>_. []), file_output = (\<lambda>_. []),
     disk = (\<lambda>_. None), file_path = (\<lambda>_. None), next_file = 3, errno_text = [], unix_time = 0, cpu_time = Fin False 0 0, outcomes = bs, fault = False\<rparr>"

definition rc_context_new_with_policy ::
  "RcCyclePolicy \<Rightarrow> string option \<Rightarrow> string option \<Rightarrow> mem \<Rightarrow> ctxid \<times> mem" where
  \<comment> \<open>\<open>strict\<close> and \<open>backend\<close> are the environment's SHEN_RC_VERIFY_NATIVE and SHEN_RC_EXECUTION; the
    default build, without the compile-time SHEN_RC_ACYCLIC_ONLY\<close>
  "rc_context_new_with_policy policy strict backend s =
     (let (ok, s) = library_call s
      in if \<not> ok then (0, s)
         else let c = next_ctx s;
                  x = zero_ctx\<lparr>collection_interval := 4096, adaptive_collection := True,
                        verify_native := (case strict of None \<Rightarrow> False | Some v \<Rightarrow> v \<noteq> ''0''),
                        execution_mode := (case backend of None \<Rightarrow> 0
                          | Some v \<Rightarrow> if v = ''native'' then 0 else if v = ''interpret'' then 1 else - 1),
                        acyclic := (policy = RC_ACYCLIC_ONLY)\<rparr>
              in (c, s\<lparr>ctxs := (ctxs s)(c := x), next_ctx := c + 1\<rparr>))"

definition rc_context_new :: "string option \<Rightarrow> string option \<Rightarrow> mem \<Rightarrow> ctxid \<times> mem" where
  "rc_context_new = rc_context_new_with_policy RC_CYCLES_ALLOWED"

definition rc_context_is_acyclic :: "mem \<Rightarrow> ctxid \<Rightarrow> bool" where
  "rc_context_is_acyclic s c \<longleftrightarrow> c \<noteq> 0 \<and> acyclic (ctxs s c)"

end
