(* ===== verification/Plan_Table.thy ===== *)
theory Plan_Table
  imports Alloc
begin

text \<open>
  The evaluator's side table from pair cells to (plan, call count), \<open>plan_hash\<close>,
  \<open>plan_entry\<close>, \<open>plan_of\<close>, \<open>plan_grow\<close>, \<open>plan_insert\<close>, \<open>plan_remove\<close>, \<open>rc_eval_plan_get\<close> and
  \<open>rc_eval_plan_heat\<close> of \<open>src/rc/rc.c\<close>: linear probing with backward-shift deletion. The table
  is an interpretation of the interface \<open>open_addressing\<close>; the lemmas say that the operations
  look up, insert and delete in a finite map keyed by cell address.
\<close>

subsection \<open>Operations\<close>

definition plan_hash :: "addr \<Rightarrow> nat \<Rightarrow> nat" where
  "plan_hash key capacity =
     wrap capacity (unat (drop_bit 17 ((of_nat key :: u64) * 0x9e3779b97f4a7c15)))"

abbreviation plan_home :: "plan_slot \<Rightarrow> nat \<Rightarrow> nat" where
  "plan_home e \<equiv> plan_hash (plan_key e)"

definition plan_find :: "plan_slot option list \<Rightarrow> addr \<Rightarrow> (nat \<times> plan_slot) option" where
  \<comment> \<open>the probe loop of \<open>plan_entry\<close>\<close>
  "plan_find t a =
     (case probe (length t) (\<lambda>e. plan_key e = a) t (plan_hash a (length t)) of
        None \<Rightarrow> None
      | Some j \<Rightarrow> (case t ! j of None \<Rightarrow> None | Some e \<Rightarrow> Some (j, e)))"

definition plan_entry :: "mem \<Rightarrow> addr \<Rightarrow> (nat \<times> plan_slot) option" where
  "plan_entry s a =
     (let t = plans (ctxs s (rc_value_context s a))
      in if \<not> has_plan (cell_at s a) \<or> t = [] then None else plan_find t a)"

definition plan_of :: "mem \<Rightarrow> addr \<Rightarrow> handle" where
  "plan_of s a = (case plan_entry s a of None \<Rightarrow> HNull | Some (_, e) \<Rightarrow> plan_value e)"

definition PLAN_ENTRY_BYTES :: nat where "PLAN_ENTRY_BYTES = 24"

definition plan_grow :: "ctxid \<Rightarrow> mem \<Rightarrow> bool \<times> mem" where
  "plan_grow c s =
     (let t = plans (ctxs s c);
          capacity = (if t \<noteq> [] then length t * 2 else 64);
          (ok, s) = library_call s
      in if ok \<and> capacity * PLAN_ENTRY_BYTES \<le> SIZE_MAX
         then (True, upd_ctx c (\<lambda>x. x\<lparr>plans := rehash plan_home t (replicate capacity None)\<rparr>) s)
         else (False, s))"

definition plan_add :: "addr \<Rightarrow> mem \<Rightarrow> mem" where
  "plan_add a s =
     (let c = rc_value_context s a
      in upd_cell a (\<lambda>x. x\<lparr>has_plan := True\<rparr>)
           (upd_ctx c (\<lambda>x. x\<lparr>plans := put_first_free plan_home
                \<lparr>plan_key = a, plan_value = HNull, plan_calls = 0\<rparr> (plans x),
              plan_count := plan_count x + 1\<rparr>) s))"

definition plan_insert :: "addr \<Rightarrow> mem \<Rightarrow> bool \<times> mem" where
  \<comment> \<open>afterwards \<open>plan_entry\<close> finds the entry, unless the result is False (out of memory)\<close>
  "plan_insert a s =
     (if plan_entry s a \<noteq> None then (True, s)
      else let c = rc_value_context s a; x = ctxs s c
           in if (plan_count x + 1) * 2 > length (plans x)
              then let (ok, s) = plan_grow c s
                   in if ok then (True, plan_add a s) else (False, s)
              else (True, plan_add a s))"

definition plan_remove :: "addr \<Rightarrow> mem \<Rightarrow> handle \<times> mem" where
  "plan_remove a s =
     (let e = plan_entry s a;
          s = upd_cell a (\<lambda>x. x\<lparr>has_plan := False\<rparr>) s;
          c = rc_value_context s a
      in case e of
           None \<Rightarrow> (HNull, s)
         | Some (i, e) \<Rightarrow>
             (plan_value e,
              upd_ctx c (\<lambda>x. x\<lparr>plans := shift_back (length (plans x)) plan_home (plans x) i
                   (wrap (length (plans x)) (i + 1)),
                 plan_count := plan_count x - 1,
                 graph_slots := graph_slots x - (if plan_value e \<noteq> HNull then 1 else 0)\<rparr>) s))"

definition rc_eval_plan_get :: "mem \<Rightarrow> handle \<Rightarrow> handle" where
  "rc_eval_plan_get s v =
     (case v of HRef a \<Rightarrow> if rc_type s v = RC_PAIR then plan_of s a else HNull | _ \<Rightarrow> HNull)"

definition rc_eval_plan_heat :: "addr \<Rightarrow> mem \<Rightarrow> bool \<times> mem" where
  "rc_eval_plan_heat a s =
     (let (ok, s) = plan_insert a s
      in case plan_entry s a of
           None \<Rightarrow> (False, s)
         | Some (i, e) \<Rightarrow>
             if \<not> ok \<or> plan_calls e = SIZE_MAX then (False, s)
             else let n = plan_calls e + 1;
                      s = upd_ctx (rc_value_context s a)
                            (\<lambda>x. x\<lparr>plans := (plans x)[i := Some (e\<lparr>plan_calls := n\<rparr>)]\<rparr>) s
                  in (32 \<le> n \<and> n AND (n - 1) = 0, s))"

subsection \<open>The table as a map\<close>

lemma plan_hash_less: "pow2 n \<Longrightarrow> plan_hash a n < n"
  by (simp add: plan_hash_def wrap_less)

interpretation plan_tab: open_addressing plan_hash plan_key
  by unfold_locales (rule plan_hash_less)

abbreviation plan_table_ok :: "plan_slot option list \<Rightarrow> bool" where
  "plan_table_ok t \<equiv> table_ok plan_home plan_key t"

definition plans_ok :: "ctx \<Rightarrow> bool" where
  \<comment> \<open>no table yet, or a table at most half full\<close>
  "plans_ok x \<longleftrightarrow> (plans x = [] \<and> plan_count x = 0) \<or>
     (plan_table_ok (plans x) \<and> occupied (plans x) = plan_count x \<and> 2 * plan_count x \<le> length (plans x))"

definition plan_value_in :: "plan_slot option list \<Rightarrow> addr \<Rightarrow> handle" where
  "plan_value_in t a = (case plan_find t a of None \<Rightarrow> HNull | Some (_, e) \<Rightarrow> plan_value e)"

lemma plan_find_Some:
  assumes "plan_table_ok t" "e \<in> entries t" "plan_key e = a"
  shows "\<exists>j<length t. plan_find t a = Some (j, e) \<and> t ! j = Some e"
proof -
  from plan_tab.find [OF assms(1), of a] obtain j where j: "j < length t"
    "probe (length t) (\<lambda>x. plan_key x = a) t (plan_hash a (length t)) = Some j"
    "case t ! j of Some x \<Rightarrow> x \<in> entries t \<and> plan_key x = a | None \<Rightarrow> \<forall>x\<in>entries t. plan_key x \<noteq> a" by blast
  have "t ! j \<noteq> None"
  proof
    assume "t ! j = None"
    with j(3) have "\<forall>x\<in>entries t. plan_key x \<noteq> a" by simp
    with assms(2,3) show False by blast
  qed
  then obtain x where x: "t ! j = Some x" by blast
  with j(3) have x2: "x \<in> entries t" "plan_key x = a" by simp_all
  have "x = e" by (rule table_ok_unique [OF assms(1) x2(1) assms(2)]) (simp add: x2 assms(3))
  with j(1,2) x show ?thesis by (intro exI [of _ j]) (simp add: plan_find_def)
qed

lemma plan_find_None:
  assumes "plan_table_ok t" "\<forall>e\<in>entries t. plan_key e \<noteq> a"
  shows "plan_find t a = None"
proof -
  from plan_tab.find [OF assms(1), of a] assms(2) show ?thesis
    by (auto simp: plan_find_def split: option.splits)
qed

lemma plan_find_iff:
  assumes "plan_table_ok t"
  shows "(\<exists>j. plan_find t a = Some (j, e)) \<longleftrightarrow> e \<in> entries t \<and> plan_key e = a"
proof
  assume "\<exists>j. plan_find t a = Some (j, e)"
  then obtain j where j: "plan_find t a = Some (j, e)" by blast
  then have "plan_find t a \<noteq> None" by simp
  with plan_find_None [OF assms, of a] have "\<not> (\<forall>x\<in>entries t. plan_key x \<noteq> a)" by metis
  then obtain e' where e': "e' \<in> entries t" "plan_key e' = a" by auto
  from plan_find_Some [OF assms e'] j have "e = e'" by (elim exE conjE) simp
  with e' show "e \<in> entries t \<and> plan_key e = a" by simp
next
  assume "e \<in> entries t \<and> plan_key e = a"
  then have "e \<in> entries t" "plan_key e = a" by simp_all
  from plan_find_Some [OF assms this] show "\<exists>j. plan_find t a = Some (j, e)" by blast
qed

lemma plan_find_index:
  assumes "plan_table_ok t" "plan_find t a = Some (j, e)"
  shows "j < length t \<and> t ! j = Some e \<and> e \<in> entries t \<and> plan_key e = a"
proof -
  have "\<exists>j. plan_find t a = Some (j, e)" using assms(2) by blast
  then have e: "e \<in> entries t" "plan_key e = a" using plan_find_iff [OF assms(1)] by simp_all
  from plan_find_Some [OF assms(1) e] assms(2) e show ?thesis by (elim exE conjE) simp
qed

lemma plan_value_in_cong:
  assumes "plan_table_ok t" "plan_table_ok t'"
    and "\<And>e. plan_key e = a \<Longrightarrow> e \<in> entries t \<longleftrightarrow> e \<in> entries t'"
  shows "plan_value_in t a = plan_value_in t' a"
proof (cases "\<exists>e\<in>entries t. plan_key e = a")
  case True
  then obtain e where e: "e \<in> entries t" "plan_key e = a" by blast
  with assms(3) have e': "e \<in> entries t'" by blast
  from plan_find_Some [OF assms(1) e] plan_find_Some [OF assms(2) e' e(2)]
  show ?thesis by (auto simp: plan_value_in_def)
next
  case False
  then have "plan_find t a = None" using plan_find_None [OF assms(1)] by blast
  moreover have "plan_find t' a = None" using plan_find_None [OF assms(2)] False assms(3) by blast
  ultimately show ?thesis by (simp add: plan_value_in_def)
qed

lemma plan_of_alt:
  "plan_of s a =
     (if has_plan (cell_at s a) \<and> plans (ctxs s (rc_value_context s a)) \<noteq> []
      then plan_value_in (plans (ctxs s (rc_value_context s a))) a else HNull)"
  by (auto simp: plan_of_def plan_entry_def plan_value_in_def Let_def split: option.splits)

lemma plans_ok_remove:
  assumes ok: "plans_ok x" and f: "plan_find (plans x) a = Some (i, e)"
  defines "t \<equiv> shift_back (length (plans x)) plan_home (plans x) i (wrap (length (plans x)) (i + 1))"
  shows "plan_table_ok t" "entries t = entries (plans x) - {e}" "length t = length (plans x)"
    "occupied t = plan_count x - 1" "0 < plan_count x" "plan_table_ok (plans x)" "plan_key e = a"
proof -
  from f have ne: "plans x \<noteq> []" by (auto simp: plan_find_def)
  with ok have tok: "plan_table_ok (plans x)" and occ: "occupied (plans x) = plan_count x"
    by (auto simp: plans_ok_def)
  from plan_find_index [OF tok f] have i: "i < length (plans x)" "plans x ! i = Some e" "plan_key e = a" by auto
  note d = plan_tab.delete [OF tok i(1,2)]
  from d occ show "plan_table_ok t" "entries t = entries (plans x) - {e}" "length t = length (plans x)"
    "occupied t = plan_count x - 1" "0 < plan_count x" "plan_table_ok (plans x)" "plan_key e = a"
    using tok i(3) unfolding t_def by simp_all
qed

lemma plans_ok_after_remove:
  assumes "plans_ok x" "plan_find (plans x) a = Some (i, e)"
  shows "plans_ok (x\<lparr>plans := shift_back (length (plans x)) plan_home (plans x) i (wrap (length (plans x)) (i + 1)),
      plan_count := plan_count x - 1, graph_slots := g\<rparr>)"
proof -
  have "2 * plan_count x \<le> length (plans x)" using assms(1) by (auto simp: plans_ok_def)
  moreover have "2 * (plan_count x - 1) \<le> 2 * plan_count x" by simp
  ultimately have "2 * (plan_count x - 1) \<le> length (plans x)" by linarith
  with plans_ok_remove(1,3,4) [OF assms] show ?thesis unfolding plans_ok_def by simp
qed

lemma plans_ok_grow:
  assumes ok: "plans_ok x" and cap: "capacity * PLAN_ENTRY_BYTES \<le> SIZE_MAX"
    and c: "capacity = (if plans x \<noteq> [] then length (plans x) * 2 else 64)"
  defines "t \<equiv> rehash plan_home (plans x) (replicate capacity None)"
  shows "plan_table_ok t" "entries t = entries (plans x)" "occupied t = plan_count x"
    "length t = capacity" "2 * plan_count x < capacity"
proof -
  have p2: "pow2 capacity"
  proof (cases "plans x = []")
    case True
    with c have "capacity = 2 ^ 6" by simp
    then show ?thesis unfolding pow2_def by (intro exI [of _ 6]) simp
  next
    case False
    with ok have "pow2 (length (plans x))" by (auto simp: plans_ok_def table_ok_def)
    moreover have "2 * length (plans x) \<le> 2 ^ 64" using cap c False by (simp add: PLAN_ENTRY_BYTES_def SIZE_MAX_def)
    ultimately show ?thesis using c False pow2_double by (metis mult.commute)
  qed
  have cnt: "occupied (plans x) = plan_count x" using ok by (auto simp: plans_ok_def occupied_def)
  have room: "2 * plan_count x < capacity"
  proof (cases "plans x = []")
    case False
    with ok have "2 * plan_count x \<le> length (plans x)" by (auto simp: plans_ok_def)
    moreover have "0 < length (plans x)" using False by simp
    ultimately have "2 * plan_count x < length (plans x) * 2" by linarith
    with c False show ?thesis by simp
  qed (use ok c in \<open>auto simp: plans_ok_def table_ok_def\<close>)
  have dist: "distinct (map plan_key (contents (plans x)))"
    using ok plan_tab.distinct_keys [of "plans x"] by (auto simp: plans_ok_def)
  have "plan_table_ok t \<and> entries t = entries (plans x) \<union> entries (replicate capacity None :: plan_slot option list) \<and>
    occupied t = occupied (plans x) + occupied (replicate capacity None :: plan_slot option list) \<and>
    length t = length (replicate capacity None :: plan_slot option list)"
    unfolding t_def
    by (rule plan_tab.rehash [OF table_ok_replicate [OF p2]]) (use dist room cnt in auto)
  with cnt room show "plan_table_ok t" "entries t = entries (plans x)" "occupied t = plan_count x"
    "length t = capacity" "2 * plan_count x < capacity" by auto
qed

end
