(* ===== verification/Ownership.thy ===== *)
theory Ownership
  imports Heap "HOL-Library.Multiset"
begin

text \<open>
  The abstract specification of reference counting: a graph of cells with counts and outgoing
  handles, the multiset \<open>R\<close> of handles owned outside the graph (C variables, context roots), a
  work list \<open>W\<close> of cells whose count has just reached zero and a set \<open>D\<close> of cells being
  dismantled. The invariant \<open>counts_ok\<close> says that every count is exact. It sees the graph only
  through the multiset of all handles held, so moving a handle from a cell to a C variable, the
  basic step of an ownership transfer, changes nothing.
\<close>

subsection \<open>Graphs\<close>

record graph =
  nodes :: "addr set"
  cnt :: "addr \<Rightarrow> nat"
  out :: "addr \<Rightarrow> handle list"

definition held :: "graph \<Rightarrow> addr set \<Rightarrow> handle multiset" where
  "held g D = (\<Sum>b\<in>nodes g - D. mset (out g b))"

definition counts_ok :: "graph \<Rightarrow> handle multiset \<Rightarrow> addr list \<Rightarrow> addr set \<Rightarrow> bool" where
  "counts_ok g R W D \<longleftrightarrow>
     finite (nodes g) \<and> D \<subseteq> nodes g \<and>
     (\<forall>x\<in>nodes g - D. cnt g x = RC_IMMORTAL \<or> cnt g x < RC_IMMORTAL \<and> cnt g x = count (held g D + R) (HRef x)) \<and>
     (\<forall>x. HRef x \<in># held g D + R \<longrightarrow> x \<in> nodes g - D) \<and>
     distinct W \<and> set W = {x \<in> nodes g - D. cnt g x = 0}"

definition g_count :: "addr \<Rightarrow> (nat \<Rightarrow> nat) \<Rightarrow> graph \<Rightarrow> graph" where
  "g_count a f g = g\<lparr>cnt := (cnt g)(a := f (cnt g a))\<rparr>"

definition g_out :: "addr \<Rightarrow> handle list \<Rightarrow> graph \<Rightarrow> graph" where
  "g_out a xs g = g\<lparr>out := (out g)(a := xs)\<rparr>"

definition g_drop :: "addr \<Rightarrow> graph \<Rightarrow> graph" where
  "g_drop a g = \<lparr>nodes = nodes g - {a}, cnt = (cnt g)(a := 0), out = (out g)(a := [])\<rparr>"

definition g_new :: "addr \<Rightarrow> nat \<Rightarrow> handle list \<Rightarrow> graph \<Rightarrow> graph" where
  "g_new a n xs g = \<lparr>nodes = insert a (nodes g), cnt = (cnt g)(a := n), out = (out g)(a := xs)\<rparr>"

lemma RC_IMMORTAL_pos [simp]: "0 < RC_IMMORTAL" "RC_IMMORTAL \<noteq> 0" "RC_IMMORTAL \<noteq> Suc 0" "Suc 0 \<noteq> RC_IMMORTAL"
  "Suc 0 < RC_IMMORTAL"
  by (simp_all add: RC_IMMORTAL_def)

lemma held_g_count [simp]: "held (g_count a f g) D = held g D"
  by (simp add: held_def g_count_def)

lemma nodes_g_count [simp]: "nodes (g_count a f g) = nodes g" "out (g_count a f g) = out g"
  by (simp_all add: g_count_def)

lemma cnt_g_count: "cnt (g_count a f g) b = (if b = a then f (cnt g a) else cnt g b)"
  by (simp add: g_count_def)

lemma held_remove:
  assumes "finite (nodes g)" "a \<in> nodes g - D"
  shows "held g D = mset (out g a) + held g (insert a D)"
proof -
  have "nodes g - D - {a} = nodes g - insert a D" by auto
  then show ?thesis using sum.remove [of "nodes g - D" a "\<lambda>b. mset (out g b)"] assms
    by (simp add: held_def)
qed

lemma held_cong:
  assumes "nodes g - D = nodes g' - D'" "\<And>b. b \<in> nodes g - D \<Longrightarrow> out g b = out g' b"
  shows "held g D = held g' D'"
  unfolding held_def by (rule sum.cong) (use assms in auto)

lemma held_mem: "finite (nodes g) \<Longrightarrow> v \<in># held g D \<longleftrightarrow> (\<exists>b\<in>nodes g - D. v \<in> set (out g b))"
  unfolding held_def by (subst set_mset_sum) auto

subsection \<open>Steps\<close>

lemma counts_okD:
  assumes "counts_ok g R W D"
  shows "finite (nodes g)" "D \<subseteq> nodes g" "distinct W" "set W = {x \<in> nodes g - D. cnt g x = 0}"
    and "HRef x \<in># held g D + R \<Longrightarrow> x \<in> nodes g - D"
    and "x \<in> nodes g - D \<Longrightarrow> cnt g x = RC_IMMORTAL \<or> cnt g x < RC_IMMORTAL \<and> cnt g x = count (held g D + R) (HRef x)"
  using assms unfolding counts_ok_def by blast+

lemma counts_ok_pos:
  assumes "counts_ok g R W D" "HRef x \<in># R"
  shows "x \<in> nodes g - D" "0 < cnt g x"
proof -
  from assms(2) have m: "HRef x \<in># held g D + R" by simp
  with counts_okD(5) [OF assms(1)] show x: "x \<in> nodes g - D" by blast
  from counts_okD(6) [OF assms(1) x] m show "0 < cnt g x" by (auto simp flip: count_greater_zero_iff)
qed

text \<open>Only the handles held matter: an irrelevant handle (nil, an immediate, NULL) can be
  owned or forgotten.\<close>

lemma counts_ok_non_ref:
  assumes "\<And>a. v \<noteq> HRef a"
  shows "counts_ok g (add_mset v R) W D \<longleftrightarrow> counts_ok g R W D"
proof -
  have "count (held g D + add_mset v R) (HRef x) = count (held g D + R) (HRef x)" for x
    using assms [of x] by simp
  moreover have "HRef x \<in># held g D + add_mset v R \<longleftrightarrow> HRef x \<in># held g D + R" for x
    using assms [of x] by auto
  ultimately show ?thesis unfolding counts_ok_def by presburger
qed

lemma counts_ok_retain:
  assumes ok: "counts_ok g R W D" and x: "x \<in> nodes g - D" "0 < cnt g x"
  shows "counts_ok (if cnt g x = RC_IMMORTAL then g else g_count x Suc g) (add_mset (HRef x) R) W D"
proof -
  let ?g = "if cnt g x = RC_IMMORTAL then g else g_count x Suc g"
  have h: "held ?g D = held g D" "nodes ?g = nodes g" by simp_all
  have c: "cnt ?g y = (if y = x \<and> cnt g x \<noteq> RC_IMMORTAL then Suc (cnt g x) else cnt g y)" for y
    by (simp add: cnt_g_count)
  have "cnt ?g y = RC_IMMORTAL \<or> cnt ?g y < RC_IMMORTAL \<and> cnt ?g y = count (held ?g D + add_mset (HRef x) R) (HRef y)"
    if y: "y \<in> nodes g - D" for y
    using counts_okD(6) [OF ok y] unfolding h c by auto
  moreover have "HRef y \<in># held ?g D + add_mset (HRef x) R \<longrightarrow> y \<in> nodes g - D" for y
    using counts_okD(5) [OF ok, of y] x unfolding h by auto
  moreover have "{y \<in> nodes g - D. cnt ?g y = 0} = {y \<in> nodes g - D. cnt g y = 0}"
    using x by (auto simp: c)
  ultimately show ?thesis
    using counts_okD(1-4) [OF ok] unfolding counts_ok_def h by simp
qed

lemma counts_ok_dec:
  assumes ok: "counts_ok g (add_mset (HRef x) R) W D" and x: "cnt g x \<noteq> RC_IMMORTAL"
  shows "counts_ok (g_count x (\<lambda>n. n - 1) g) R (if cnt g x = 1 then x # W else W) D"
proof -
  let ?g = "g_count x (\<lambda>n. n - 1) g" and ?W = "if cnt g x = 1 then x # W else W"
  have "HRef x \<in># add_mset (HRef x) R" by simp
  note pos = counts_ok_pos [OF ok this]
  have xc: "cnt g x = Suc (count (held g D + R) (HRef x))" "cnt g x < RC_IMMORTAL"
    using counts_okD(6) [OF ok pos(1)] x by auto
  have "cnt ?g y = RC_IMMORTAL \<or> cnt ?g y < RC_IMMORTAL \<and> cnt ?g y = count (held ?g D + R) (HRef y)"
    if y: "y \<in> nodes g - D" for y
    using counts_okD(6) [OF ok y] xc by (cases "y = x") (simp_all add: cnt_g_count)
  moreover have "HRef y \<in># held ?g D + R \<longrightarrow> y \<in> nodes g - D" for y
    using counts_okD(5) [OF ok, of y] by auto
  moreover have "x \<notin> set W" using counts_okD(4) [OF ok] pos by simp
  moreover have "set ?W = {y \<in> nodes g - D. cnt ?g y = 0}"
  proof (cases "cnt g x = 1")
    case True
    with counts_okD(4) [OF ok] pos show ?thesis by (auto simp: cnt_g_count)
  next
    case False
    with pos have "cnt g x - 1 \<noteq> 0" by simp
    with False counts_okD(4) [OF ok] pos show ?thesis by (auto simp: cnt_g_count)
  qed
  ultimately show ?thesis
    using counts_okD(1-3) [OF ok] unfolding counts_ok_def by simp
qed

lemma counts_ok_skip:
  assumes ok: "counts_ok g (add_mset (HRef x) R) W D" and x: "cnt g x = RC_IMMORTAL"
  shows "counts_ok g R W D"
proof -
  have "cnt g y = RC_IMMORTAL \<or> cnt g y < RC_IMMORTAL \<and> cnt g y = count (held g D + R) (HRef y)"
    if y: "y \<in> nodes g - D" for y
    using counts_okD(6) [OF ok y] x by auto
  moreover have "HRef y \<in># held g D + R \<longrightarrow> y \<in> nodes g - D" for y
    using counts_okD(5) [OF ok, of y] by auto
  ultimately show ?thesis using counts_okD(1-4) [OF ok] unfolding counts_ok_def by simp
qed

text \<open>A dead cell is opened: its handles become owned by the loop that releases them.\<close>

lemma counts_ok_open:
  assumes ok: "counts_ok g R (d # W) D"
  shows "counts_ok g (mset (out g d) + R) W (insert d D)" "d \<in> nodes g - D"
proof -
  have d: "d \<in> nodes g - D" "cnt g d = 0" "d \<notin> set W" using counts_okD(3,4) [OF ok] by auto
  have h: "held g (insert d D) + (mset (out g d) + R) = held g D + R"
    using held_remove [OF counts_okD(1) [OF ok] d(1)] by simp
  have dz: "count (held g D + R) (HRef d) = 0"
    using counts_okD(6) [OF ok d(1)] d(2) by (metis RC_IMMORTAL_pos(2))
  have "HRef y \<in># held g D + R \<longrightarrow> y \<in> nodes g - insert d D" for y
  proof
    assume y: "HRef y \<in># held g D + R"
    then have "y \<noteq> d" using dz by (metis count_greater_zero_iff less_numeral_extra(3))
    with counts_okD(5) [OF ok y] show "y \<in> nodes g - insert d D" by simp
  qed
  moreover have "set W = {y \<in> nodes g - insert d D. cnt g y = 0}"
    using counts_okD(4) [OF ok] d by auto
  moreover have "cnt g y = RC_IMMORTAL \<or> cnt g y < RC_IMMORTAL \<and> cnt g y = count (held g D + R) (HRef y)"
    if "y \<in> nodes g - insert d D" for y
    using counts_okD(6) [OF ok] that by blast
  ultimately show "counts_ok g (mset (out g d) + R) W (insert d D)"
    using counts_okD(1-3) [OF ok] d unfolding counts_ok_def h by auto
  show "d \<in> nodes g - D" by (rule d(1))
qed

lemma counts_ok_drop:
  assumes ok: "counts_ok g R W D" and d: "d \<in> D"
  shows "counts_ok (g_drop d g) R W (D - {d})"
proof -
  have n: "nodes (g_drop d g) - (D - {d}) = nodes g - D" using d by (auto simp: g_drop_def)
  have h: "held (g_drop d g) (D - {d}) = held g D"
    by (rule held_cong) (use n d in \<open>auto simp: g_drop_def\<close>)
  have c: "cnt (g_drop d g) y = cnt g y" if "y \<in> nodes g - D" for y
    using that d by (auto simp: g_drop_def)
  show ?thesis
    using ok c d unfolding counts_ok_def n h by (auto simp: g_drop_def)
qed

lemma counts_ok_new:
  assumes ok: "counts_ok g (mset xs + R) W D" and a: "a \<notin> nodes g"
    and n: "n = RC_IMMORTAL \<or> n = 1"
  shows "counts_ok (g_new a n xs g) (add_mset (HRef a) R) W D"
proof -
  let ?g = "g_new a n xs g"
  have fin: "finite (nodes ?g)" using counts_okD(1) [OF ok] by (simp add: g_new_def)
  have aD: "a \<in> nodes ?g - D" using a counts_okD(2) [OF ok] by (auto simp: g_new_def)
  have "held ?g (insert a D) = held g D"
    by (rule held_cong) (use a in \<open>auto simp: g_new_def\<close>)
  with held_remove [OF fin aD] have h: "held ?g D = mset xs + held g D" by (simp add: g_new_def)
  have za: "HRef a \<notin># held g D + (mset xs + R)" using counts_okD(5) [OF ok, of a] a by blast
  have h2: "held ?g D + add_mset (HRef a) R = add_mset (HRef a) (held g D + (mset xs + R))"
    unfolding h by simp
  have nodes: "nodes ?g - D = insert a (nodes g - D)" using aD by (auto simp: g_new_def)
  have cnt: "cnt ?g y = (if y = a then n else cnt g y)" for y by (simp add: g_new_def)
  have "count (held g D + (mset xs + R)) (HRef a) = 0" using za by (meson not_in_iff)
  then have "cnt ?g y = RC_IMMORTAL \<or> cnt ?g y < RC_IMMORTAL \<and> cnt ?g y = count (held ?g D + add_mset (HRef a) R) (HRef y)"
    if "y \<in> insert a (nodes g - D)" for y
    using counts_okD(6) [OF ok, of y] that n a unfolding h2 cnt by auto
  moreover have "HRef y \<in># held ?g D + add_mset (HRef a) R \<longrightarrow> y \<in> insert a (nodes g - D)" for y
    using counts_okD(5) [OF ok, of y] unfolding h2 by auto
  moreover have "{y \<in> insert a (nodes g - D). cnt ?g y = 0} = {y \<in> nodes g - D. cnt g y = 0}"
    using n a by (auto simp: cnt)
  ultimately show ?thesis
    using counts_okD(1-4) [OF ok] fin unfolding counts_ok_def nodes by (auto simp: g_new_def)
qed

text \<open>The slots of a cell are rewritten: what they held is owned afterwards, what they hold now
  was owned before.\<close>

lemma counts_ok_out:
  assumes ok: "counts_ok g (mset ys + R) W D" and a: "a \<in> nodes g - D"
  shows "counts_ok (g_out a ys g) (mset (out g a) + R) W D"
proof -
  let ?g = "g_out a ys g"
  have nodes: "nodes ?g = nodes g" "cnt ?g = cnt g" by (simp_all add: g_out_def)
  have fin: "finite (nodes ?g)" and a': "a \<in> nodes ?g - D" using counts_okD(1) [OF ok] a nodes by auto
  have "held ?g (insert a D) = held g (insert a D)"
    by (rule held_cong) (auto simp: g_out_def)
  with held_remove [OF fin a'] held_remove [OF counts_okD(1) [OF ok] a]
  have "held ?g D + (mset (out g a) + R) = held g D + (mset ys + R)" by (simp add: g_out_def)
  with ok show ?thesis unfolding counts_ok_def nodes by metis
qed

subsection \<open>What exact counts give\<close>

inductive_set owned :: "graph \<Rightarrow> handle multiset \<Rightarrow> addr set"
  for g :: graph and R :: "handle multiset" where
  root: "HRef x \<in># R \<Longrightarrow> x \<in> owned g R"
| immortal: "x \<in> nodes g \<Longrightarrow> cnt g x = RC_IMMORTAL \<Longrightarrow> x \<in> owned g R"
| edge: "b \<in> owned g R \<Longrightarrow> HRef x \<in> set (out g b) \<Longrightarrow> x \<in> owned g R"

lemma owned_live:
  assumes ok: "counts_ok g R [] {}" and x: "x \<in> owned g R"
  shows "x \<in> nodes g \<and> 0 < cnt g x"
  using x
proof induction
  case (root x)
  then show ?case using counts_ok_pos [OF ok] by simp
next
  case (immortal x)
  then show ?case by simp
next
  case (edge b x)
  then have "HRef x \<in># held g {}" using held_mem [OF counts_okD(1) [OF ok]] by auto
  then have "HRef x \<in># held g {} + R" by simp
  then have "x \<in> nodes g" using counts_okD(5) [OF ok] by blast
  moreover have "cnt g x \<noteq> 0" using counts_okD(4) [OF ok] calculation by auto
  ultimately show ?case by simp
qed

text \<open>No leak but cycles: a live cell has a holder, and in a graph without cycles following
  holders back ends at an owner.\<close>

lemma holder:
  assumes ok: "counts_ok g R [] {}" and x: "x \<in> nodes g"
  shows "cnt g x = RC_IMMORTAL \<or> HRef x \<in># R \<or> (\<exists>b\<in>nodes g. HRef x \<in> set (out g b))"
proof (rule ccontr)
  assume no: "\<not> ?thesis"
  then have "HRef x \<notin># held g {} + R" using held_mem [OF counts_okD(1) [OF ok]] by auto
  then have "count (held g {} + R) (HRef x) = 0" by (meson not_in_iff)
  moreover have xx: "x \<in> nodes g - {}" using x by simp
  ultimately have "cnt g x = 0" using counts_okD(6) [OF ok xx] no by auto
  with counts_okD(4) [OF ok] x show False by auto
qed

definition g_edge :: "graph \<Rightarrow> (addr \<times> addr) set" where
  "g_edge g = {(b, x). b \<in> nodes g \<and> HRef x \<in> set (out g b)}"

lemma acyclic_all_owned:
  assumes ok: "counts_ok g R [] {}" and ac: "Transitive_Closure.acyclic (g_edge g)" and x: "x \<in> nodes g"
  shows "x \<in> owned g R"
proof -
  have "g_edge g \<subseteq> nodes g \<times> nodes g"
  proof
    fix p assume "p \<in> g_edge g"
    then obtain b y where p: "p = (b, y)" "b \<in> nodes g" "HRef y \<in> set (out g b)" by (auto simp: g_edge_def)
    then have "HRef y \<in># held g {} + R" using held_mem [OF counts_okD(1) [OF ok]] by auto
    with counts_okD(5) [OF ok] p show "p \<in> nodes g \<times> nodes g" by blast
  qed
  then have "finite (g_edge g)" using counts_okD(1) [OF ok] finite_subset by blast
  with ac have "wf (g_edge g)" by (rule finite_acyclic_wf [rotated])
  then show ?thesis using x
  proof (induction x rule: wf_induct_rule)
    case (less x)
    from holder [OF ok less.prems] consider "cnt g x = RC_IMMORTAL" | "HRef x \<in># R"
      | b where "b \<in> nodes g" "HRef x \<in> set (out g b)" by blast
    then show ?case
    proof cases
      case 3
      then have "(b, x) \<in> g_edge g" by (simp add: g_edge_def)
      with less.IH 3 show ?thesis by (blast intro: owned.edge)
    qed (use less.prems in \<open>auto intro: owned.root owned.immortal\<close>)
  qed
qed

end
