(* ===== verification/Invariant.thy ===== *)
theory Invariant
  imports Plan_Table Ownership
begin

text \<open>
  The edges of a value (\<open>edges\<close> of \<open>src/rc/rc.c\<close>), the abstraction of a memory to a counted
  graph, and the invariant of the runtime's memory: plan tables, slab pages and free lists,
  the list of cycle sources, and exact reference counts. Each part of the invariant has a
  congruence rule that names the projections of the state it depends on.
\<close>

subsection \<open>Edges\<close>

definition plan_edge :: "mem \<Rightarrow> addr \<Rightarrow> handle list" where
  "plan_edge s a = (if has_plan (cell_at s a) \<and> plan_of s a \<noteq> HNull then [plan_of s a] else [])"

fun payload_edges :: "payload \<Rightarrow> handle list \<Rightarrow> handle list" where
  "payload_edges (VPair h t) plan = [h, t] @ plan"
| "payload_edges (VVector xs _) plan = xs"
| "payload_edges (VEnv p _ vs _) plan = p # vs"
| "payload_edges (VClosure _ _ _ caps bnd) plan = caps @ bnd"
| "payload_edges (VTail f args _) plan = f # args"
| "payload_edges _ plan = []"

definition edges :: "mem \<Rightarrow> addr \<Rightarrow> handle list" where
  \<comment> \<open>the values that \<open>edges(v, fn, data)\<close> passes to its callback, in order\<close>
  "edges s a = payload_edges (load (cell_at s a)) (plan_edge s a)"

fun symbol_slots :: "payload \<Rightarrow> handle list" where
  "symbol_slots (VSymbol _ _ g f) = [g, f]"
| "symbol_slots _ = []"

definition holds :: "mem \<Rightarrow> addr \<Rightarrow> handle list" where
  \<comment> \<open>every handle a cell owns; a symbol's two slots are owned but not walked by \<open>edges\<close>\<close>
  "holds s a = edges s a @ symbol_slots (load (cell_at s a))"

definition view :: "mem \<Rightarrow> graph" where
  "view s = \<lparr>nodes = fmdom' (cells s), cnt = (\<lambda>a. refs (cell_at s a)), out = holds s\<rparr>"

subsection \<open>Projections of the update functions\<close>

lemma upd_ctx_simps [simp]:
  "cells (upd_ctx c f s) = cells s" "page_table (upd_ctx c f s) = page_table s"
  "next_page (upd_ctx c f s) = next_page s" "next_ctx (upd_ctx c f s) = next_ctx s"
  "closed_files (upd_ctx c f s) = closed_files s" "outcomes (upd_ctx c f s) = outcomes s"
  "fault (upd_ctx c f s) = fault s" "cell_at (upd_ctx c f s) a = cell_at s a"
  "live (upd_ctx c f s) a = live s a" "rc_value_context (upd_ctx c f s) a = rc_value_context s a"
  by (simp_all add: upd_ctx_def cell_at_def live_def rc_value_context_def)

lemma ctxs_upd_ctx: "ctxs (upd_ctx c f s) d = (if d = c then f (ctxs s c) else ctxs s d)"
  by (simp add: upd_ctx_def)

lemma upd_stats_simps [simp]:
  "cells (upd_stats c f s) = cells s" "page_table (upd_stats c f s) = page_table s"
  "next_page (upd_stats c f s) = next_page s" "next_ctx (upd_stats c f s) = next_ctx s"
  "closed_files (upd_stats c f s) = closed_files s" "outcomes (upd_stats c f s) = outcomes s"
  "fault (upd_stats c f s) = fault s" "cell_at (upd_stats c f s) a = cell_at s a"
  "live (upd_stats c f s) a = live s a" "rc_value_context (upd_stats c f s) a = rc_value_context s a"
  by (simp_all add: upd_stats_def)

lemma ctxs_upd_stats:
  "ctxs (upd_stats c f s) d = (if d = c then (ctxs s c)\<lparr>stats := f (stats (ctxs s c))\<rparr> else ctxs s d)"
  by (simp add: upd_stats_def ctxs_upd_ctx)

lemma live_fmdom: "live s a \<longleftrightarrow> a \<in> fmdom' (cells s)"
  unfolding live_def by (metis fmdom'I fmdom'_notI fmdom'_notD)

lemma cell_at_dead: "\<not> live s a \<Longrightarrow> cell_at s a = free_cell"
  by (simp add: live_def cell_at_def)

lemma upd_cell_simps [simp]:
  "ctxs (upd_cell a f s) = ctxs s" "page_table (upd_cell a f s) = page_table s"
  "next_page (upd_cell a f s) = next_page s" "next_ctx (upd_cell a f s) = next_ctx s"
  "closed_files (upd_cell a f s) = closed_files s" "outcomes (upd_cell a f s) = outcomes s"
  "rc_value_context (upd_cell a f s) b = rc_value_context s b"
  "live (upd_cell a f s) b = live s b"
  "fmdom' (cells (upd_cell a f s)) = fmdom' (cells s)"
  by (auto simp: upd_cell_def rc_value_context_def live_def fmdom'I split: option.splits)

lemma fault_upd_cell [simp]: "live s a \<Longrightarrow> fault (upd_cell a f s) = fault s"
  by (auto simp: upd_cell_def live_def)

lemma fault_upd_cell_mono: "fault s \<Longrightarrow> fault (upd_cell a f s)"
  by (auto simp: upd_cell_def split: option.splits)

lemma cell_at_upd_cell:
  "cell_at (upd_cell a f s) b = (if b = a \<and> live s a then f (cell_at s a) else cell_at s b)"
  by (auto simp: upd_cell_def cell_at_def live_def split: option.splits)

lemma library_call_simps [simp]:
  "cells (snd (library_call s)) = cells s" "ctxs (snd (library_call s)) = ctxs s"
  "page_table (snd (library_call s)) = page_table s" "next_page (snd (library_call s)) = next_page s"
  "next_ctx (snd (library_call s)) = next_ctx s" "closed_files (snd (library_call s)) = closed_files s"
  "fault (snd (library_call s)) = fault s" "cell_at (snd (library_call s)) a = cell_at s a"
  "live (snd (library_call s)) a = live s a" "rc_value_context (snd (library_call s)) a = rc_value_context s a"
  by (simp_all add: library_call_def cell_at_def live_def rc_value_context_def split: list.splits)

subsection \<open>The view\<close>

lemma view_sel [simp]:
  "nodes (view s) = fmdom' (cells s)" "cnt (view s) a = refs (cell_at s a)" "out (view s) = holds s"
  by (simp_all add: view_def)

lemma plan_of_cong:
  assumes "rc_value_context s' a = rc_value_context s a"
    and "plans (ctxs s' (rc_value_context s a)) = plans (ctxs s (rc_value_context s a))"
    and "has_plan (cell_at s' a) = has_plan (cell_at s a)"
  shows "plan_of s' a = plan_of s a"
  using assms by (simp add: plan_of_def plan_entry_def)

lemma plan_edge_cong:
  assumes "has_plan (cell_at s' a) = has_plan (cell_at s a)" "plan_of s' a = plan_of s a"
  shows "plan_edge s' a = plan_edge s a"
  using assms by (simp add: plan_edge_def)

lemma edges_cong:
  assumes "load (cell_at s' a) = load (cell_at s a)" "has_plan (cell_at s' a) = has_plan (cell_at s a)"
    and "plan_of s' a = plan_of s a"
  shows "edges s' a = edges s a"
  unfolding edges_def using assms plan_edge_cong [of s' a s] by simp

lemma holds_cong:
  assumes "load (cell_at s' a) = load (cell_at s a)" "has_plan (cell_at s' a) = has_plan (cell_at s a)"
    and "plan_of s' a = plan_of s a"
  shows "holds s' a = holds s a"
  using edges_cong [OF assms] assms by (simp add: holds_def)

lemma view_cong:
  assumes "fmdom' (cells s') = fmdom' (cells s)"
    and "\<And>a. refs (cell_at s' a) = refs (cell_at s a)"
    and "\<And>a. load (cell_at s' a) = load (cell_at s a)"
    and "\<And>a. has_plan (cell_at s' a) = has_plan (cell_at s a)"
    and "\<And>a. plan_of s' a = plan_of s a"
  shows "view s' = view s"
proof -
  have "holds s' = holds s" by (rule ext, rule holds_cong) (use assms in auto)
  with assms show ?thesis by (simp add: view_def)
qed

lemma view_upd_cell:
  assumes "live s a"
  shows "view (upd_cell a f s) = \<lparr>nodes = nodes (view s),
      cnt = (cnt (view s))(a := refs (f (cell_at s a))),
      out = (out (view s))(a := holds (upd_cell a f s) a)\<rparr>"
proof -
  have "holds (upd_cell a f s) b = holds s b" if "b \<noteq> a" for b
    by (rule holds_cong) (use that in \<open>auto simp: cell_at_upd_cell intro: plan_of_cong\<close>)
  then have "holds (upd_cell a f s) = (holds s)(a := holds (upd_cell a f s) a)" by auto
  then show ?thesis using assms by (auto simp: view_def cell_at_upd_cell)
qed

lemma view_upd_ctx:
  assumes "\<And>x. plans (f x) = plans x"
  shows "view (upd_ctx c f s) = view s"
  by (rule view_cong) (auto intro!: plan_of_cong simp: ctxs_upd_ctx assms)

lemma view_upd_stats [simp]: "view (upd_stats c f s) = view s"
  unfolding upd_stats_def by (rule view_upd_ctx) simp

subsection \<open>Plan tables\<close>

definition plans_wf :: "mem \<Rightarrow> bool" where
  "plans_wf s \<longleftrightarrow>
     (\<forall>c. plans_ok (ctxs s c)) \<and>
     (\<forall>c. \<forall>e\<in>entries (plans (ctxs s c)).
        has_plan (cell_at s (plan_key e)) \<and> rc_value_context s (plan_key e) = c \<and>
        type_of_payload (load (cell_at s (plan_key e))) = RC_PAIR) \<and>
     (\<forall>a. has_plan (cell_at s a) \<longrightarrow> type_of_payload (load (cell_at s a)) = RC_PAIR)"

lemma plans_wf_cong:
  assumes "plans_wf s"
    and "\<And>c. plans (ctxs s' c) = plans (ctxs s c)" "\<And>c. plan_count (ctxs s' c) = plan_count (ctxs s c)"
    and "\<And>a. rc_value_context s' a = rc_value_context s a"
    and "\<And>a. has_plan (cell_at s' a) = has_plan (cell_at s a)"
    and "\<And>a. has_plan (cell_at s a) \<Longrightarrow> type_of_payload (load (cell_at s' a)) = type_of_payload (load (cell_at s a))"
  shows "plans_wf s'"
  using assms(1) unfolding plans_wf_def plans_ok_def by (auto simp: assms(2-5)) (auto simp: assms(6))

subsection \<open>Cycle sources\<close>

definition is_source :: "mem \<Rightarrow> addr \<Rightarrow> bool" where
  "is_source s a = (case load (cell_at s a) of VVector _ b \<Rightarrow> b | _ \<Rightarrow> False)"

definition sources_wf :: "mem \<Rightarrow> bool" where
  "sources_wf s \<longleftrightarrow>
     (\<forall>c. distinct (sources (ctxs s c)) \<and> cycle_sources (ctxs s c) = length (sources (ctxs s c)) \<and>
        set (sources (ctxs s c)) = {a. is_source s a \<and> rc_value_context s a = c})"

lemma sources_wf_cong:
  assumes "sources_wf s"
    and "\<And>c. sources (ctxs s' c) = sources (ctxs s c)" "\<And>c. cycle_sources (ctxs s' c) = cycle_sources (ctxs s c)"
    and "\<And>a. is_source s' a \<longleftrightarrow> is_source s a" "\<And>a. rc_value_context s' a = rc_value_context s a"
  shows "sources_wf s'"
  using assms by (simp add: sources_wf_def)

subsection \<open>Pages and free lists\<close>

definition class_bytes :: "nat \<Rightarrow> nat" where
  "class_bytes cls = (if cls = 0 then RC_PAIR_CELL else RC_VALUE_BYTES)"

lemma class_bytes_cell_class [simp]: "class_bytes (cell_class t) = cell_bytes t"
  by (simp add: class_bytes_def cell_class_def cell_bytes_def)

lemma cell_class_cases: "cell_class t = 0 \<or> cell_class t = 1"
  by (simp add: cell_class_def)

definition placed :: "mem \<Rightarrow> addr \<Rightarrow> ctxid \<Rightarrow> nat \<Rightarrow> bool" where
  \<comment> \<open>the address is a cell of the given size handed out by a page of the context\<close>
  "placed s a c bytes \<longleftrightarrow>
     (case fmlookup (page_table s) (a div RC_PAGE_BYTES) of
        None \<Rightarrow> False
      | Some p \<Rightarrow> page_ctx p = c \<and> page_cell_bytes p = bytes \<and>
          PAGE_FIRST \<le> a mod RC_PAGE_BYTES \<and> a mod RC_PAGE_BYTES < page_used p \<and>
          bytes dvd a mod RC_PAGE_BYTES - PAGE_FIRST)"

definition page_ok :: "page \<Rightarrow> bool" where
  "page_ok p \<longleftrightarrow> 0 < page_cell_bytes p \<and> PAGE_FIRST \<le> page_used p \<and> page_used p \<le> page_limit p \<and>
     page_limit p \<le> RC_PAGE_BYTES \<and> page_cell_bytes p dvd page_used p - PAGE_FIRST"

definition alloc_wf :: "mem \<Rightarrow> bool" where
  "alloc_wf s \<longleftrightarrow>
     (\<forall>n p. fmlookup (page_table s) n = Some p \<longrightarrow>
        n < next_page s \<and> page_ok p \<and> page_ctx p \<noteq> 0 \<and> page_ctx p < next_ctx s) \<and>
     (\<forall>c cls n. bump (ctxs s c) cls = Some n \<longrightarrow>
        (\<exists>p. fmlookup (page_table s) n = Some p \<and> page_ctx p = c \<and> page_cell_bytes p = class_bytes cls)) \<and>
     (\<forall>c cls. distinct (free_cells (ctxs s c) cls) \<and> (cls \<noteq> 0 \<and> cls \<noteq> 1 \<longrightarrow> free_cells (ctxs s c) cls = []) \<and>
        (\<forall>a\<in>set (free_cells (ctxs s c) cls). \<not> live s a \<and> placed s a c (class_bytes cls))) \<and>
     (\<forall>a. live s a \<longrightarrow> placed s a (rc_value_context s a) (cell_bytes (type_of_payload (load (cell_at s a)))))"

lemma placed_cong: "page_table s' = page_table s \<Longrightarrow> placed s' = placed s"
  by (intro ext) (simp add: placed_def)

lemma placed_context: "placed s a c b \<Longrightarrow> rc_value_context s a = c"
  by (simp add: placed_def rc_value_context_def split: option.splits)

lemma placed_bytes: "placed s a c b \<Longrightarrow> placed s a c' b' \<Longrightarrow> b = b' \<and> c = c'"
  by (simp add: placed_def split: option.splits)

lemma alloc_wf_cong:
  assumes wf: "alloc_wf s"
    and pt: "page_table s' = page_table s" "next_page s' = next_page s" "next_ctx s' = next_ctx s"
    and bf: "\<And>c. bump (ctxs s' c) = bump (ctxs s c)" "\<And>c. free_cells (ctxs s' c) = free_cells (ctxs s c)"
    and lv: "\<And>a. live s' a \<longleftrightarrow> live s a"
    and ty: "\<And>a. live s a \<Longrightarrow> type_of_payload (load (cell_at s' a)) = type_of_payload (load (cell_at s a))"
  shows "alloc_wf s'"
proof -
  have cx: "rc_value_context s' a = rc_value_context s a" for a by (simp add: rc_value_context_def pt)
  show ?thesis using wf ty
    unfolding alloc_wf_def pt bf lv placed_cong [OF pt(1)] cx by simp
qed

subsection \<open>The invariant\<close>

definition symbols_ok :: "mem \<Rightarrow> bool" where
  \<comment> \<open>a symbol with a value in a slot is immortal: no release ever has to walk the slots\<close>
  "symbols_ok s \<longleftrightarrow>
     (\<forall>a. refs (cell_at s a) = RC_IMMORTAL \<or> set (symbol_slots (load (cell_at s a))) \<subseteq> {HNull})"

definition rc_ok :: "mem \<Rightarrow> handle multiset \<Rightarrow> addr list \<Rightarrow> addr set \<Rightarrow> bool" where
  \<comment> \<open>the invariant inside the release loop\<close>
  "rc_ok s R W D \<longleftrightarrow> \<not> fault s \<and> plans_wf s \<and> sources_wf s \<and> alloc_wf s \<and> symbols_ok s \<and>
     counts_ok (view s) R W D"

definition heap_ok :: "mem \<Rightarrow> handle multiset \<Rightarrow> bool" where
  \<comment> \<open>the invariant between operations: \<open>R\<close> is what C code outside the heap owns\<close>
  "heap_ok s R \<longleftrightarrow> rc_ok s R [] {}"

lemma rc_okD:
  assumes "rc_ok s R W D"
  shows "\<not> fault s" "plans_wf s" "sources_wf s" "alloc_wf s" "symbols_ok s" "counts_ok (view s) R W D"
  using assms by (simp_all add: rc_ok_def)

text \<open>A write that changes no payload, plan flag or count.\<close>

definition same_heap :: "mem \<Rightarrow> mem \<Rightarrow> bool" where
  \<comment> \<open>nothing the invariant depends on differs\<close>
  "same_heap s s' \<longleftrightarrow>
     fmdom' (cells s') = fmdom' (cells s) \<and> page_table s' = page_table s \<and> next_page s' = next_page s \<and>
     next_ctx s' = next_ctx s \<and> fault s' = fault s \<and>
     (\<forall>a. refs (cell_at s' a) = refs (cell_at s a) \<and> load (cell_at s' a) = load (cell_at s a) \<and>
        has_plan (cell_at s' a) = has_plan (cell_at s a)) \<and>
     (\<forall>c. plans (ctxs s' c) = plans (ctxs s c) \<and> plan_count (ctxs s' c) = plan_count (ctxs s c) \<and>
        sources (ctxs s' c) = sources (ctxs s c) \<and> cycle_sources (ctxs s' c) = cycle_sources (ctxs s c) \<and>
        bump (ctxs s' c) = bump (ctxs s c) \<and> free_cells (ctxs s' c) = free_cells (ctxs s c))"

lemma same_heap_context: "same_heap s s' \<Longrightarrow> rc_value_context s' a = rc_value_context s a"
  by (simp add: same_heap_def rc_value_context_def)

lemma rc_ok_same_heap:
  assumes ok: "rc_ok s R W D" and eq: "same_heap s s'"
  shows "rc_ok s' R W D"
proof -
  note c = same_heap_context [OF eq]
  from eq have e: "fmdom' (cells s') = fmdom' (cells s)" "page_table s' = page_table s" "next_page s' = next_page s"
     "next_ctx s' = next_ctx s" "fault s' = fault s"
     "\<And>a. refs (cell_at s' a) = refs (cell_at s a)" "\<And>a. load (cell_at s' a) = load (cell_at s a)"
     "\<And>a. has_plan (cell_at s' a) = has_plan (cell_at s a)"
     "\<And>c. plans (ctxs s' c) = plans (ctxs s c)" "\<And>c. plan_count (ctxs s' c) = plan_count (ctxs s c)"
     "\<And>c. sources (ctxs s' c) = sources (ctxs s c)" "\<And>c. cycle_sources (ctxs s' c) = cycle_sources (ctxs s c)"
     "\<And>c. bump (ctxs s' c) = bump (ctxs s c)" "\<And>c. free_cells (ctxs s' c) = free_cells (ctxs s c)"
    unfolding same_heap_def by simp_all
  have "plan_of s' a = plan_of s a" for a by (rule plan_of_cong) (simp_all add: e c)
  then have "view s' = view s" by (intro view_cong) (simp_all add: e)
  moreover have "plans_wf s'" by (rule plans_wf_cong [OF rc_okD(2) [OF ok]]) (simp_all add: e c)
  moreover have "sources_wf s'" by (rule sources_wf_cong [OF rc_okD(3) [OF ok]]) (simp_all add: e c is_source_def)
  moreover have "alloc_wf s'" by (rule alloc_wf_cong [OF rc_okD(4) [OF ok]]) (simp_all add: e live_fmdom)
  moreover have "symbols_ok s'" using rc_okD(5) [OF ok] by (simp add: symbols_ok_def e)
  ultimately show ?thesis using rc_okD(1,6) [OF ok] e by (simp add: rc_ok_def)
qed

lemma symbols_okD:
  "symbols_ok s \<Longrightarrow> refs (cell_at s a) \<noteq> RC_IMMORTAL \<Longrightarrow> set (symbol_slots (load (cell_at s a))) \<subseteq> {HNull}"
  by (auto simp: symbols_ok_def)

lemma counts_ok_nulls: "set xs \<subseteq> {HNull} \<Longrightarrow> counts_ok g (mset xs + R) W D \<longleftrightarrow> counts_ok g R W D"
  by (induction xs) (auto simp: counts_ok_non_ref)

lemma heap_ok_same_heap: "heap_ok s R \<Longrightarrow> same_heap s s' \<Longrightarrow> heap_ok s' R"
  unfolding heap_ok_def by (rule rc_ok_same_heap)

lemma same_heap_refl [simp]: "same_heap s s"
  by (simp add: same_heap_def)

lemma same_heap_trans: "same_heap s s' \<Longrightarrow> same_heap s' s'' \<Longrightarrow> same_heap s s''"
  by (simp add: same_heap_def)

lemma same_heap_library_call [simp]: "same_heap s (snd (library_call s))"
  by (simp add: same_heap_def)

lemma same_heap_upd_ctx:
  assumes "\<And>x. plans (f x) = plans x \<and> plan_count (f x) = plan_count x \<and> sources (f x) = sources x \<and>
    cycle_sources (f x) = cycle_sources x \<and> bump (f x) = bump x \<and> free_cells (f x) = free_cells x"
  shows "same_heap s (upd_ctx c f s)"
  using assms by (auto simp: same_heap_def ctxs_upd_ctx)

lemma same_heap_rc_error [simp]: "same_heap s (rc_error c msg s)"
proof (cases "c = 0")
  case False
  let ?s1 = "upd_ctx c (\<lambda>x. x\<lparr>error_active := True\<rparr>) s"
  let ?s2 = "snd (library_call ?s1)" and ?s3 = "snd (library_call (snd (library_call ?s1)))"
  have 1: "same_heap s ?s1" by (rule same_heap_upd_ctx) simp
  have 2: "same_heap s ?s2" by (rule same_heap_trans [OF 1]) simp
  have 3: "same_heap s ?s3" by (rule same_heap_trans [OF 2]) simp
  have w: "same_heap t (upd_ctx c (\<lambda>x. x\<lparr>error := m\<rparr>) t)" for t m by (rule same_heap_upd_ctx) simp
  have "rc_error c msg s = upd_ctx c (\<lambda>x. x\<lparr>error := Some msg\<rparr>) ?s2 \<or>
    (\<exists>m. rc_error c msg s = upd_ctx c (\<lambda>x. x\<lparr>error := m\<rparr>) ?s3)"
    using False by (auto simp: rc_error_def Let_def case_prod_beta)
  then show ?thesis using same_heap_trans [OF 2 w] same_heap_trans [OF 3 w] by metis
qed (simp add: rc_error_def)

lemma heap_ok_not_fault: "heap_ok s R \<Longrightarrow> \<not> fault s"
  by (simp add: heap_ok_def rc_ok_def)

lemma heap_ok_owned_live:
  assumes "heap_ok s R" "HRef a \<in># R"
  shows "live s a" "0 < refs (cell_at s a)"
  using counts_ok_pos [OF rc_okD(6) [OF assms(1) [unfolded heap_ok_def]] assms(2)] by (simp_all add: live_fmdom)

lemma heap_ok_non_ref: "(\<And>a. v \<noteq> HRef a) \<Longrightarrow> heap_ok s (add_mset v R) \<longleftrightarrow> heap_ok s R"
  by (simp add: heap_ok_def rc_ok_def counts_ok_non_ref)

end
