(* ===== verification/Release.thy ===== *)
theory Release
  imports Invariant
begin

text \<open>
  Retain and release (\<open>src/rc/rc.c\<close>): \<open>rc_retain\<close>, \<open>source_link\<close>, \<open>source_unlink\<close>,
  \<open>extra_bytes\<close>, \<open>unlink_object\<close>, \<open>raw_free\<close>, \<open>release_edge\<close> and \<open>rc_release\<close>, whose loop
  frees the whole cascade of cells that lose their last owner. The lemmas show that a release
  never touches a freed cell, keeps the invariant for the remaining owners, and terminates.
\<close>

subsection \<open>Operations\<close>

fun rc_retain :: "handle \<Rightarrow> mem \<Rightarrow> mem" where
  "rc_retain (HRef a) s =
     (if is_counted s (HRef a) then upd_cell a (\<lambda>x. x\<lparr>refs := refs x + 1\<rparr>) s else s)"
| "rc_retain _ s = s"

fun with_cycle_source :: "bool \<Rightarrow> payload \<Rightarrow> payload" where
  "with_cycle_source b (VVector xs _) = VVector xs b"
| "with_cycle_source _ p = p"

definition source_link :: "ctxid \<Rightarrow> addr \<Rightarrow> mem \<Rightarrow> mem" where
  "source_link c a s =
     upd_ctx c (\<lambda>x. x\<lparr>sources := a # sources x, cycle_sources := cycle_sources x + 1\<rparr>)
       (upd_cell a (\<lambda>x. x\<lparr>load := with_cycle_source True (load x)\<rparr>) s)"

definition source_unlink :: "ctxid \<Rightarrow> addr \<Rightarrow> mem \<Rightarrow> mem" where
  "source_unlink c a s =
     upd_ctx c (\<lambda>x. x\<lparr>sources := remove1 a (sources x), cycle_sources := cycle_sources x - 1\<rparr>)
       (upd_cell a (\<lambda>x. x\<lparr>load := with_cycle_source False (load x)\<rparr>) s)"

fun extra_bytes :: "payload \<Rightarrow> nat" where
  "extra_bytes (VString d) = length d + 1"
| "extra_bytes (VSymbol d _ _ _) = length d + 1"
| "extra_bytes (VVector xs _) = length xs * PTR_BYTES"
| "extra_bytes (VEnv _ _ vs _) = (if 1 < length vs then 2 * length vs * PTR_BYTES else 0)"
| "extra_bytes (VClosure _ _ _ caps bnd) = (length caps + length bnd) * PTR_BYTES"
| "extra_bytes (VTail _ args _) = (if 3 < length args then length args * PTR_BYTES else 0)"
| "extra_bytes _ = 0"

fun graph_slots_of :: "payload \<Rightarrow> nat" where
  "graph_slots_of (VPair _ _) = 2"
| "graph_slots_of (VVector xs _) = length xs"
| "graph_slots_of (VEnv _ _ vs _) = 1 + length vs"
| "graph_slots_of (VClosure _ _ _ caps bnd) = length caps + length bnd"
| "graph_slots_of (VTail _ args _) = 1 + length args"
| "graph_slots_of _ = 0"

fun capture_edges_of :: "payload \<Rightarrow> nat" where
  "capture_edges_of (VClosure _ _ _ caps _) = length caps"
| "capture_edges_of _ = 0"

definition account_death :: "ctxid \<Rightarrow> payload \<Rightarrow> mem \<Rightarrow> mem" where
  "account_death c p s =
     upd_ctx c (\<lambda>x. x\<lparr>graph_slots := graph_slots x - graph_slots_of p\<rparr>)
       (upd_stats c (\<lambda>x. x\<lparr>live_objects := live_objects x - 1,
          live_bytes := live_bytes x - (cell_bytes (type_of_payload p) + extra_bytes p),
          total_frees := total_frees x + 1,
          live_capture_edges := live_capture_edges x - capture_edges_of p\<rparr>) s)"

definition unlink_object :: "addr \<Rightarrow> mem \<Rightarrow> mem" where
  "unlink_object a s =
     (let c = rc_value_context s a; s = account_death c (load (cell_at s a)) s
      in case load (cell_at s a) of
           VVector _ True \<Rightarrow> source_unlink c a s
         | _ \<Rightarrow> s)"

definition free_payload :: "addr \<Rightarrow> mem \<Rightarrow> mem" where
  \<comment> \<open>the switch of \<open>raw_free\<close>: the cell's plan entry, its file; C memory owned by the payload\<close>
  "free_payload a s =
     (case load (cell_at s a) of
        VPair _ _ \<Rightarrow> if has_plan (cell_at s a) then snd (plan_remove a s) else s
      | VStream (Some f) True _ \<Rightarrow> s\<lparr>closed_files := f # closed_files s\<rparr>
      | _ \<Rightarrow> s)"

definition raw_free :: "addr \<Rightarrow> mem \<Rightarrow> mem" where
  \<comment> \<open>the cell's entry in memory is dropped; while the context is destroyed the cell is not
    reused, its page is freed next\<close>
  "raw_free a s =
     (let c = rc_value_context s a; t = type_of_payload (load (cell_at s a));
          s = free_payload a s;
          s = s\<lparr>cells := fmdrop a (cells s)\<rparr>
      in if destroying (ctxs s c) then s
         else upd_ctx c (\<lambda>x. x\<lparr>
                free_cells := (free_cells x)(cell_class t := a # free_cells x (cell_class t)),
                free_bytes := free_bytes x + cell_bytes t,
                stats := (stats x)\<lparr>cached_objects := cached_objects (stats x) + 1,
                  peak_cached_bytes := max (peak_cached_bytes (stats x)) (free_bytes x + cell_bytes t)\<rparr>\<rparr>) s)"

fun release_edge :: "handle \<Rightarrow> addr list \<times> mem \<Rightarrow> addr list \<times> mem" where
  "release_edge (HRef a) (work, s) =
     (if \<not> is_counted s (HRef a) then (work, s)
      else let n = refs (cell_at s a)
           in if n = 0 then (work, s\<lparr>fault := True\<rparr>)
              else (if n - 1 = 0 then a # work else work, upd_cell a (\<lambda>x. x\<lparr>refs := n - 1\<rparr>) s))"
| "release_edge _ ws = ws"

definition release_cell :: "addr \<Rightarrow> addr list \<Rightarrow> mem \<Rightarrow> addr list \<times> mem" where
  \<comment> \<open>one iteration of the loop of \<open>rc_release\<close>\<close>
  "release_cell dead work s =
     (let s = unlink_object dead s;
          (work, s) = fold release_edge (edges s dead) (work, s)
      in (work, raw_free dead s))"

lemma cells_release_edge: "fmdom' (cells (snd (release_edge v ws))) = fmdom' (cells (snd ws))"
  by (cases ws; cases v) (simp_all add: Let_def)

lemma cells_fold_release_edge: "fmdom' (cells (snd (fold release_edge vs ws))) = fmdom' (cells (snd ws))"
  by (induction vs arbitrary: ws) (simp_all add: cells_release_edge)

lemma cells_source_unlink [simp]: "fmdom' (cells (source_unlink c a s)) = fmdom' (cells s)"
  by (simp add: source_unlink_def)

lemma cells_account_death [simp]: "cells (account_death c p s) = cells s"
  by (simp add: account_death_def)

lemma cells_unlink_object [simp]: "fmdom' (cells (unlink_object a s)) = fmdom' (cells s)"
  by (simp add: unlink_object_def Let_def split: payload.splits bool.splits)

lemma cells_plan_remove [simp]: "fmdom' (cells (snd (plan_remove a s))) = fmdom' (cells s)"
  by (simp add: plan_remove_def Let_def split: option.splits)

lemma cells_free_payload [simp]: "fmdom' (cells (free_payload a s)) = fmdom' (cells s)"
  by (simp add: free_payload_def split: payload.splits option.splits bool.splits)

lemma cells_raw_free: "fmdom' (cells (raw_free a s)) = fmdom' (cells s) - {a}"
  by (simp add: raw_free_def Let_def)

lemma cells_release_cell: "fmdom' (cells (snd (release_cell a work s))) = fmdom' (cells s) - {a}"
  using cells_fold_release_edge [of "edges (unlink_object a s) a" "(work, unlink_object a s)"]
  by (simp add: release_cell_def Let_def cells_raw_free case_prod_beta)

text \<open>The loop pops freed cells only if memory is already damaged; the model then stops with
  the fault flag set.\<close>

function release_loop :: "addr list \<Rightarrow> mem \<Rightarrow> mem" where
  "release_loop [] s = s"
| "release_loop (dead # work) s =
     (if live s dead
      then release_loop (fst (release_cell dead work s)) (snd (release_cell dead work s))
      else s\<lparr>fault := True\<rparr>)"
  by pat_completeness auto
termination
  by (relation "measure (\<lambda>(work, s). card (fmdom' (cells s)))")
    (simp_all add: live_fmdom cells_release_cell case_prod_beta card_Diff1_less del: card_Diff_insert)

definition rc_release :: "handle \<Rightarrow> mem \<Rightarrow> mem" where
  "rc_release v s = (case release_edge v ([], s) of (work, s) \<Rightarrow> release_loop work s)"

subsection \<open>Retain\<close>

lemma holds_refs_irrelevant:
  "holds (upd_cell a (\<lambda>x. x\<lparr>refs := n\<rparr>) s) b = holds s b"
proof -
  have "has_plan (cell_at (upd_cell a (\<lambda>x. x\<lparr>refs := n\<rparr>) s) b) = has_plan (cell_at s b)"
    "load (cell_at (upd_cell a (\<lambda>x. x\<lparr>refs := n\<rparr>) s) b) = load (cell_at s b)"
    by (simp_all add: cell_at_upd_cell)
  then show ?thesis by (intro holds_cong plan_of_cong) simp_all
qed

lemma rc_ok_upd_refs:
  assumes ok: "rc_ok s R W D" and a: "live s a" and n: "refs (cell_at s a) \<noteq> RC_IMMORTAL"
    and c: "counts_ok (g_count a (\<lambda>_. n) (view s)) R' W' D"
  shows "rc_ok (upd_cell a (\<lambda>x. x\<lparr>refs := n\<rparr>) s) R' W' D"
proof -
  let ?s = "upd_cell a (\<lambda>x. x\<lparr>refs := n\<rparr>) s"
  note sym = symbols_okD [OF rc_okD(5) [OF ok] n]
  have "plans_wf ?s" by (rule plans_wf_cong [OF rc_okD(2) [OF ok]]) (auto simp: cell_at_upd_cell)
  moreover have "sources_wf ?s"
    by (rule sources_wf_cong [OF rc_okD(3) [OF ok]]) (auto simp: is_source_def cell_at_upd_cell)
  moreover have "alloc_wf ?s" by (rule alloc_wf_cong [OF rc_okD(4) [OF ok]]) (auto simp: cell_at_upd_cell)
  moreover have "symbols_ok ?s"
    using rc_okD(5) [OF ok] sym by (auto simp: symbols_ok_def cell_at_upd_cell)
  moreover have "view ?s = g_count a (\<lambda>_. n) (view s)"
    using a by (simp add: view_upd_cell g_count_def holds_refs_irrelevant)
  ultimately show ?thesis using rc_okD(1) [OF ok] a c by (simp add: rc_ok_def)
qed

lemma rc_ok_retain:
  assumes ok: "rc_ok s R W D" and v: "\<And>a. v = HRef a \<Longrightarrow> a \<in> nodes (view s) - D \<and> 0 < refs (cell_at s a)"
  shows "rc_ok (rc_retain v s) (add_mset v R) W D"
proof (cases v)
  case (HRef a)
  with v have a: "a \<in> nodes (view s) - D" "0 < cnt (view s) a" by simp_all
  note r = counts_ok_retain [OF rc_okD(6) [OF ok] a]
  show ?thesis
  proof (cases "refs (cell_at s a) = RC_IMMORTAL")
    case True
    with r HRef ok show ?thesis by (simp add: rc_ok_def)
  next
    case False
    have "g_count a (\<lambda>_. refs (cell_at s a) + 1) (view s) = g_count a Suc (view s)"
      by (simp add: g_count_def)
    with r False have "counts_ok (g_count a (\<lambda>_. refs (cell_at s a) + 1) (view s)) (add_mset (HRef a) R) W D" by simp
    from rc_ok_upd_refs [OF ok _ False this] a HRef False
    have "rc_ok (upd_cell a (\<lambda>x. x\<lparr>refs := refs (cell_at s a) + 1\<rparr>) s) (add_mset v R) W D"
      by (simp add: live_fmdom)
    moreover have "upd_cell a (\<lambda>x. x\<lparr>refs := refs (cell_at s a) + 1\<rparr>) s = upd_cell a (\<lambda>x. x\<lparr>refs := refs x + 1\<rparr>) s"
      by (simp add: upd_cell_def cell_at_def split: option.splits)
    ultimately show ?thesis using HRef False by simp
  qed
qed (use ok in \<open>simp_all add: rc_ok_def counts_ok_non_ref\<close>)

subsection \<open>Release of one edge\<close>

lemma rc_ok_release_edge:
  assumes ok: "rc_ok s (add_mset v R) W D"
  shows "case release_edge v (W, s) of (W', s') \<Rightarrow> rc_ok s' R W' D"
proof (cases v)
  case (HRef a)
  note c = rc_okD(6) [OF ok, unfolded HRef]
  have "HRef a \<in># add_mset (HRef a) R" by simp
  note pos = counts_ok_pos [OF c this]
  show ?thesis
  proof (cases "refs (cell_at s a) = RC_IMMORTAL")
    case True
    with counts_ok_skip [OF c] HRef ok show ?thesis by (simp add: rc_ok_def)
  next
    case False
    let ?n = "refs (cell_at s a)"
    have "g_count a (\<lambda>_. ?n - 1) (view s) = g_count a (\<lambda>n. n - 1) (view s)" by (simp add: g_count_def)
    with counts_ok_dec [OF c] False
    have "counts_ok (g_count a (\<lambda>_. ?n - 1) (view s)) R (if ?n = 1 then a # W else W) D" by simp
    from rc_ok_upd_refs [OF ok _ False this] pos
    have "rc_ok (upd_cell a (\<lambda>x. x\<lparr>refs := ?n - 1\<rparr>) s) R (if ?n = 1 then a # W else W) D"
      by (simp add: live_fmdom)
    with pos HRef False show ?thesis by (cases "?n = 1") (simp_all add: Let_def)
  qed
qed (use ok in \<open>simp_all add: rc_ok_def counts_ok_non_ref\<close>)

lemma rc_ok_fold_release_edge:
  assumes "rc_ok s (mset vs + R) W D"
  shows "case fold release_edge vs (W, s) of (W', s') \<Rightarrow> rc_ok s' R W' D"
  using assms
proof (induction vs arbitrary: s W)
  case (Cons v vs)
  then have "rc_ok s (add_mset v (mset vs + R)) W D" by simp
  from rc_ok_release_edge [OF this] obtain W' s' where
    "release_edge v (W, s) = (W', s')" "rc_ok s' (mset vs + R) W' D" by (auto split: prod.splits)
  with Cons.IH show ?case by simp
qed simp

text \<open>What a release of edges leaves alone: payloads, plan tables, addresses.\<close>

definition same_but_refs :: "cell \<Rightarrow> cell \<Rightarrow> bool" where
  "same_but_refs x y \<longleftrightarrow> load y = load x \<and> has_plan y = has_plan x \<and> reaches_vector y = reaches_vector x \<and>
     builtin_slot y = builtin_slot x \<and> returns_second y = returns_second x \<and> marked y = marked x \<and>
     visited y = visited x \<and> trial y = trial x"

lemma same_but_refs_refl [simp]: "same_but_refs x x"
  by (simp add: same_but_refs_def)

lemma same_but_refs_trans: "same_but_refs x y \<Longrightarrow> same_but_refs y z \<Longrightarrow> same_but_refs x z"
  by (simp add: same_but_refs_def)

definition only_refs :: "mem \<Rightarrow> mem \<Rightarrow> bool" where
  "only_refs s s' \<longleftrightarrow>
     fmdom' (cells s') = fmdom' (cells s) \<and> ctxs s' = ctxs s \<and> page_table s' = page_table s \<and>
     next_page s' = next_page s \<and> closed_files s' = closed_files s \<and> next_ctx s' = next_ctx s \<and>
     outcomes s' = outcomes s \<and>
     (\<forall>a. same_but_refs (cell_at s a) (cell_at s' a) \<and>
        (refs (cell_at s a) = RC_IMMORTAL \<longrightarrow> refs (cell_at s' a) = RC_IMMORTAL) \<and>
        refs (cell_at s' a) \<le> refs (cell_at s a))"

lemma only_refs_refl [simp]: "only_refs s s"
  by (simp add: only_refs_def)

lemma only_refs_trans: "only_refs s s' \<Longrightarrow> only_refs s' s'' \<Longrightarrow> only_refs s s''"
  unfolding only_refs_def by (auto intro: same_but_refs_trans le_trans)

lemma only_refs_upd:
  assumes "refs (cell_at s a) \<noteq> RC_IMMORTAL" "n \<le> refs (cell_at s a)"
  shows "only_refs s (upd_cell a (\<lambda>x. x\<lparr>refs := n\<rparr>) s)"
  using assms by (simp add: only_refs_def cell_at_upd_cell) (simp add: same_but_refs_def)

lemma only_refs_release_edge: "only_refs (snd ws) (snd (release_edge v ws))"
proof (cases ws; cases v)
  fix W s a
  assume "ws = (W, s)" "v = HRef a"
  moreover have "only_refs s (s\<lparr>fault := True\<rparr>)" by (simp add: only_refs_def cell_at_def)
  ultimately show ?thesis using only_refs_upd [of s a] by (simp add: Let_def)
qed auto

lemma only_refs_fold: "only_refs (snd ws) (snd (fold release_edge vs ws))"
proof (induction vs arbitrary: ws)
  case (Cons v vs)
  from only_refs_trans [OF only_refs_release_edge Cons.IH] show ?case by simp
qed simp

lemma only_refs_cell:
  assumes "only_refs s s'"
  shows "load (cell_at s' a) = load (cell_at s a)" "has_plan (cell_at s' a) = has_plan (cell_at s a)"
  using assms by (simp_all add: only_refs_def same_but_refs_def)

lemma only_refs_context: "only_refs s s' \<Longrightarrow> rc_value_context s' a = rc_value_context s a"
  by (simp add: only_refs_def rc_value_context_def)

lemma only_refs_edges: "only_refs s s' \<Longrightarrow> edges s' a = edges s a"
  by (intro edges_cong plan_of_cong) (simp_all add: only_refs_cell, simp_all add: only_refs_def rc_value_context_def)

subsection \<open>Unlinking and freeing a cell\<close>

lemma rc_ok_source_unlink:
  assumes ok: "rc_ok s R W D" and src: "load (cell_at s a) = VVector xs True"
  shows "rc_ok (source_unlink (rc_value_context s a) a s) R W D"
proof -
  let ?s = "upd_cell a (\<lambda>x. x\<lparr>load := with_cycle_source False (load x)\<rparr>) s"
  let ?c = "rc_value_context s a"
  have live: "live s a" using src cell_at_dead [of s a] by (cases "live s a") (simp_all add: free_cell_def)
  have lo: "load (cell_at ?s b) = (if b = a then VVector xs False else load (cell_at s b))" for b
    using live src by (simp add: cell_at_upd_cell)
  have hp: "has_plan (cell_at ?s b) = has_plan (cell_at s b)" "refs (cell_at ?s b) = refs (cell_at s b)" for b
    by (simp_all add: cell_at_upd_cell)
  have pe: "plan_edge ?s b = plan_edge s b" for b
    by (intro plan_edge_cong plan_of_cong) (simp_all add: hp)
  have "holds ?s = holds s" using src by (intro ext) (simp add: holds_def edges_def lo pe)
  then have v: "view ?s = view s" by (simp add: view_def hp)
  let ?t = "source_unlink ?c a s"
  have vt: "view ?t = view s" unfolding source_unlink_def by (simp add: view_upd_ctx v)
  have ty: "type_of_payload (load (cell_at ?t b)) = type_of_payload (load (cell_at s b))" for b
    by (simp add: source_unlink_def lo src)
  have "plans_wf ?t"
    by (rule plans_wf_cong [OF rc_okD(2) [OF ok]]) (simp_all add: source_unlink_def ctxs_upd_ctx hp lo src)
  moreover have "sources_wf ?t"
  proof -
    note wf = rc_okD(3) [OF ok, unfolded sources_wf_def]
    have iss: "is_source ?t b \<longleftrightarrow> is_source s b \<and> b \<noteq> a" for b
      by (auto simp: source_unlink_def is_source_def lo)
    have "is_source s a" using src by (simp add: is_source_def)
    then have mem: "a \<in> set (sources (ctxs s ?c))" using wf by auto
    show ?thesis unfolding sources_wf_def iss using wf mem
      by (auto simp: source_unlink_def ctxs_upd_ctx length_remove1)
  qed
  moreover have "alloc_wf ?t"
    by (rule alloc_wf_cong [OF rc_okD(4) [OF ok]]) (simp_all add: ty, simp_all add: source_unlink_def ctxs_upd_ctx)
  moreover have "symbols_ok ?t"
    using rc_okD(5) [OF ok] by (simp add: symbols_ok_def source_unlink_def hp lo)
  moreover have "\<not> fault ?t" using rc_okD(1) [OF ok] live by (simp add: source_unlink_def)
  ultimately show ?thesis using rc_okD(6) [OF ok] by (simp add: rc_ok_def vt)
qed

lemma rc_ok_upd_ctx_stats:
  assumes "rc_ok s R W D"
    and "\<And>x. plans (f x) = plans x \<and> plan_count (f x) = plan_count x \<and> sources (f x) = sources x \<and>
      cycle_sources (f x) = cycle_sources x \<and> bump (f x) = bump x \<and> free_cells (f x) = free_cells x"
  shows "rc_ok (upd_ctx c f s) R W D"
  using assms(1) by (rule rc_ok_same_heap) (rule same_heap_upd_ctx, rule assms(2))

lemma same_heap_account_death: "same_heap s (account_death c p s)"
  unfolding account_death_def upd_stats_def
  by (rule same_heap_trans [OF same_heap_upd_ctx same_heap_upd_ctx]) simp_all

lemma rc_ok_unlink_object:
  assumes ok: "rc_ok s R W D"
  shows "rc_ok (unlink_object a s) R W D"
proof -
  let ?c = "rc_value_context s a" and ?s = "account_death (rc_value_context s a) (load (cell_at s a)) s"
  have ok': "rc_ok ?s R W D" by (rule rc_ok_same_heap [OF ok same_heap_account_death])
  have same: "load (cell_at ?s a) = load (cell_at s a)" "rc_value_context ?s a = ?c"
    by (simp_all add: account_death_def)
  show ?thesis
  proof (cases "\<exists>xs. load (cell_at s a) = VVector xs True")
    case True
    then obtain xs where "load (cell_at s a) = VVector xs True" by blast
    with rc_ok_source_unlink [OF ok', of a xs] same show ?thesis by (simp add: unlink_object_def Let_def)
  next
    case False
    then have "unlink_object a s = ?s"
      by (auto simp: unlink_object_def same Let_def split: payload.splits bool.splits)
    with ok' show ?thesis by simp
  qed
qed

lemma plan_remove_simps:
  "page_table (snd (plan_remove a s)) = page_table s" "next_page (snd (plan_remove a s)) = next_page s"
  "next_ctx (snd (plan_remove a s)) = next_ctx s" "rc_value_context (snd (plan_remove a s)) b = rc_value_context s b"
  "live (snd (plan_remove a s)) b = live s b" "closed_files (snd (plan_remove a s)) = closed_files s"
  "live s a \<Longrightarrow> fault (snd (plan_remove a s)) = fault s"
  "cell_at (snd (plan_remove a s)) b = (if b = a \<and> live s a then (cell_at s a)\<lparr>has_plan := False\<rparr> else cell_at s b)"
  by (simp_all add: plan_remove_def Let_def cell_at_upd_cell split: option.splits)

lemma plan_remove_ctx:
  "sources (ctxs (snd (plan_remove a s)) c) = sources (ctxs s c)"
  "cycle_sources (ctxs (snd (plan_remove a s)) c) = cycle_sources (ctxs s c)"
  "bump (ctxs (snd (plan_remove a s)) c) = bump (ctxs s c)"
  "free_cells (ctxs (snd (plan_remove a s)) c) = free_cells (ctxs s c)"
  "destroying (ctxs (snd (plan_remove a s)) c) = destroying (ctxs s c)"
  by (simp_all add: plan_remove_def Let_def ctxs_upd_ctx split: option.splits)

lemma plans_wfD:
  assumes "plans_wf s"
  shows "plans_ok (ctxs s c)"
    and "e \<in> entries (plans (ctxs s c)) \<Longrightarrow> has_plan (cell_at s (plan_key e)) \<and>
      rc_value_context s (plan_key e) = c \<and> type_of_payload (load (cell_at s (plan_key e))) = RC_PAIR"
    and "has_plan (cell_at s a) \<Longrightarrow> type_of_payload (load (cell_at s a)) = RC_PAIR"
    and "plans (ctxs s c) \<noteq> [] \<Longrightarrow> plan_table_ok (plans (ctxs s c))"
  using assms unfolding plans_wf_def plans_ok_def by blast+

lemma plan_remove_None:
  assumes wf: "plans_wf s" and none: "plan_entry s a = None"
  shows "ctxs (snd (plan_remove a s)) = ctxs s"
    and "e \<in> entries (plans (ctxs s c)) \<Longrightarrow> plan_key e \<noteq> a"
proof -
  show "ctxs (snd (plan_remove a s)) = ctxs s" by (simp add: plan_remove_def none)
  assume e: "e \<in> entries (plans (ctxs s c))"
  show "plan_key e \<noteq> a"
  proof
    assume k: "plan_key e = a"
    with plans_wfD(2) [OF wf e] have c: "c = rc_value_context s a" "has_plan (cell_at s a)" by auto
    from e have ne: "plans (ctxs s c) \<noteq> []" by (auto simp: entries_def)
    with none c have "plan_find (plans (ctxs s c)) a = None" by (simp add: plan_entry_def Let_def)
    with plan_find_Some [OF plans_wfD(4) [OF wf ne] e k] show False by auto
  qed
qed

lemma plan_remove_Some:
  fixes s :: mem and a :: addr
  assumes wf: "plans_wf s" and some: "plan_entry s a = Some (i, e)"
  defines "c \<equiv> rc_value_context s a"
  obtains x where "ctxs (snd (plan_remove a s)) = (ctxs s)(c := x)" "plans_ok x" "plans x \<noteq> []"
    "plans (ctxs s c) \<noteq> []" "entries (plans x) = entries (plans (ctxs s c)) - {e}" "plan_key e = a"
    "e \<in> entries (plans (ctxs s c))" "has_plan (cell_at s a)"
proof -
  let ?t = "plans (ctxs s c)"
  from some have f: "plan_find ?t a = Some (i, e)" and ne: "?t \<noteq> []" and hp: "has_plan (cell_at s a)"
    by (simp_all add: plan_entry_def Let_def c_def split: if_splits)
  define x where "x = (ctxs s c)\<lparr>plans := shift_back (length ?t) plan_home ?t i (wrap (length ?t) (i + 1)),
      plan_count := plan_count (ctxs s c) - 1,
      graph_slots := graph_slots (ctxs s c) - (if plan_value e \<noteq> HNull then 1 else 0)\<rparr>"
  have "ctxs (snd (plan_remove a s)) = (ctxs s)(c := x)"
    by (simp add: plan_remove_def some x_def c_def upd_ctx_def Let_def)
  moreover have "plans_ok x" unfolding x_def by (rule plans_ok_after_remove [OF plans_wfD(1) [OF wf] f])
  moreover note r = plans_ok_remove [OF plans_wfD(1) [OF wf] f]
  have "entries (plans x) = entries ?t - {e}" "length (plans x) = length ?t" using r(2,3) by (simp_all add: x_def)
  moreover have "plans x \<noteq> []" using calculation(4) ne by (metis length_0_conv)
  moreover have "e \<in> entries ?t" using plan_find_index [OF r(6) f] by blast
  ultimately show thesis using that r(7) ne hp by blast
qed

lemma plan_of_remove:
  assumes wf: "plans_wf s" and b: "b \<noteq> a"
  shows "plan_of (snd (plan_remove a s)) b = plan_of s b"
proof (cases "plan_entry s a")
  case None
  from plan_remove_None(1) [OF wf None] show ?thesis
    by (intro plan_of_cong) (simp_all add: plan_remove_simps b)
next
  case (Some p)
  obtain i e where p: "plan_entry s a = Some (i, e)" using Some by (cases p) auto
  let ?c = "rc_value_context s a"
  obtain x where x: "ctxs (snd (plan_remove a s)) = (ctxs s)(?c := x)" "plans_ok x" "plans x \<noteq> []"
    "plans (ctxs s ?c) \<noteq> []" "entries (plans x) = entries (plans (ctxs s ?c)) - {e}" "plan_key e = a"
    using plan_remove_Some [OF wf p] by blast
  show ?thesis
  proof (cases "rc_value_context s b = ?c")
    case False
    with x show ?thesis by (intro plan_of_cong) (simp_all add: plan_remove_simps b)
  next
    case True
    have "plan_table_ok (plans x)" using x by (simp add: plans_ok_def)
    then have "plan_value_in (plans x) b = plan_value_in (plans (ctxs s ?c)) b"
      by (rule plan_value_in_cong [OF _ plans_wfD(4) [OF wf x(4)]]) (use x b in auto)
    with True x show ?thesis by (simp add: plan_of_alt plan_remove_simps b)
  qed
qed

lemma plans_wf_remove_drop:
  assumes wf: "plans_wf s"
    and cx: "\<And>b. rc_value_context s' b = rc_value_context s b"
    and ce: "\<And>b. b \<noteq> a \<Longrightarrow> cell_at s' b = cell_at s b" "\<not> has_plan (cell_at s' a)"
    and pl: "\<And>c. plans (ctxs s' c) = plans (ctxs (snd (plan_remove a s)) c)"
    and pc: "\<And>c. plan_count (ctxs s' c) = plan_count (ctxs (snd (plan_remove a s)) c)"
  shows "plans_wf s'"
proof -
  have key: "plans_ok (ctxs (snd (plan_remove a s)) c) \<and>
      (\<forall>e\<in>entries (plans (ctxs (snd (plan_remove a s)) c)). e \<in> entries (plans (ctxs s c)) \<and> plan_key e \<noteq> a)" for c
  proof (cases "plan_entry s a")
    case None
    from plan_remove_None(2) [OF wf None, of _ c] plans_wfD(1) [OF wf, of c]
    show ?thesis unfolding plan_remove_None(1) [OF wf None] by blast
  next
    case (Some p)
    obtain i e where p: "plan_entry s a = Some (i, e)" using Some by (cases p) auto
    let ?c = "rc_value_context s a"
    obtain x where x: "ctxs (snd (plan_remove a s)) = (ctxs s)(?c := x)" "plans_ok x"
      "entries (plans x) = entries (plans (ctxs s ?c)) - {e}" "plan_key e = a"
      "plans (ctxs s ?c) \<noteq> []" "e \<in> entries (plans (ctxs s ?c))"
      using plan_remove_Some [OF wf p] by blast
    show ?thesis
    proof (cases "c = ?c")
      case True
      have "plan_key e' \<noteq> a" if "e' \<in> entries (plans x)" for e'
      proof
        assume "plan_key e' = a"
        with that x(3,4) table_ok_unique [OF plans_wfD(4) [OF wf x(5)] _ x(6), of e'] show False by simp
      qed
      with True x(1,2,3) show ?thesis by simp
    next
      case False
      with x(1) have same: "ctxs (snd (plan_remove a s)) c = ctxs s c" by simp
      have "plan_key e' \<noteq> a" if "e' \<in> entries (plans (ctxs s c))" for e'
      proof
        assume "plan_key e' = a"
        with plans_wfD(2) [OF wf that] False show False by simp
      qed
      with plans_wfD(1) [OF wf] show ?thesis by (simp add: same)
    qed
  qed
  then have "plans_ok (ctxs s' c)" for c using pl pc by (simp add: plans_ok_def)
  moreover have "has_plan (cell_at s' (plan_key e)) \<and> rc_value_context s' (plan_key e) = c \<and>
      type_of_payload (load (cell_at s' (plan_key e))) = RC_PAIR" if "e \<in> entries (plans (ctxs s' c))" for e c
  proof -
    from that key [of c] have e: "e \<in> entries (plans (ctxs s c))" "plan_key e \<noteq> a" by (auto simp: pl)
    with plans_wfD(2) [OF wf e(1)] show ?thesis by (simp add: cx ce(1))
  qed
  moreover have "type_of_payload (load (cell_at s' b)) = RC_PAIR" if "has_plan (cell_at s' b)" for b
    using that plans_wfD(3) [OF wf, of b] ce by (cases "b = a") simp_all
  ultimately show ?thesis unfolding plans_wf_def by blast
qed

text \<open>What \<open>raw_free\<close> does to each part of the state.\<close>

lemma closed_files_upd_simps [simp]:
  "cell_at (s\<lparr>closed_files := fs\<rparr>) a = cell_at s a" "live (s\<lparr>closed_files := fs\<rparr>) a = live s a"
  "rc_value_context (s\<lparr>closed_files := fs\<rparr>) a = rc_value_context s a"
  by (simp_all add: cell_at_def live_def rc_value_context_def)

lemma free_payload_simps:
  "page_table (free_payload a s) = page_table s" "next_page (free_payload a s) = next_page s"
  "next_ctx (free_payload a s) = next_ctx s" "rc_value_context (free_payload a s) b = rc_value_context s b"
  "live (free_payload a s) b = live s b"
  "live s a \<Longrightarrow> fault (free_payload a s) = fault s"
  "b \<noteq> a \<Longrightarrow> cell_at (free_payload a s) b = cell_at s b"
  by (simp_all add: free_payload_def plan_remove_simps
      split: payload.splits option.splits bool.splits)

lemma free_payload_ctxs:
  assumes wf: "plans_wf s"
  shows "ctxs (free_payload a s) = ctxs (snd (plan_remove a s))"
proof (cases "has_plan (cell_at s a)")
  case True
  then have "type_of_payload (load (cell_at s a)) = RC_PAIR" by (rule plans_wfD(3) [OF wf])
  then show ?thesis using True by (cases "load (cell_at s a)") (simp_all add: free_payload_def)
next
  case False
  then have "plan_entry s a = None" by (simp add: plan_entry_def Let_def)
  then have "ctxs (snd (plan_remove a s)) = ctxs s" by (simp add: plan_remove_def)
  with False show ?thesis by (simp add: free_payload_def split: payload.splits option.splits bool.splits)
qed

lemma raw_free_simps:
  "page_table (raw_free a s) = page_table s" "next_page (raw_free a s) = next_page s"
  "next_ctx (raw_free a s) = next_ctx s"
  "live s a \<Longrightarrow> fault (raw_free a s) = fault s"
  "cell_at (raw_free a s) b = (if b = a then free_cell else cell_at s b)"
  "live (raw_free a s) b \<longleftrightarrow> live s b \<and> b \<noteq> a"
proof -
  show "cell_at (raw_free a s) b = (if b = a then free_cell else cell_at s b)"
    using free_payload_simps(7) [of b a s] by (simp add: raw_free_def Let_def cell_at_def)
  show "live (raw_free a s) b \<longleftrightarrow> live s b \<and> b \<noteq> a"
    using free_payload_simps(5) [of a s b] by (simp add: raw_free_def Let_def live_def)
qed (simp_all add: raw_free_def Let_def free_payload_simps)

lemma raw_free_context [simp]: "rc_value_context (raw_free a s) b = rc_value_context s b"
  by (simp add: rc_value_context_def raw_free_simps)

lemma raw_free_ctx:
  fixes s :: mem and a :: addr
  assumes wf: "plans_wf s"
  defines "c \<equiv> rc_value_context s a" and "t \<equiv> type_of_payload (load (cell_at s a))"
  shows "plans (ctxs (raw_free a s) d) = plans (ctxs (snd (plan_remove a s)) d)"
    "plan_count (ctxs (raw_free a s) d) = plan_count (ctxs (snd (plan_remove a s)) d)"
    "sources (ctxs (raw_free a s) d) = sources (ctxs s d)"
    "cycle_sources (ctxs (raw_free a s) d) = cycle_sources (ctxs s d)"
    "bump (ctxs (raw_free a s) d) = bump (ctxs s d)"
    "free_cells (ctxs (raw_free a s) d) = (if d = c \<and> \<not> destroying (ctxs s c)
       then (free_cells (ctxs s c))(cell_class t := a # free_cells (ctxs s c) (cell_class t))
       else free_cells (ctxs s d))"
  using free_payload_ctxs [OF wf, of a] plan_remove_ctx [of a s]
  by (simp_all add: raw_free_def Let_def ctxs_upd_ctx c_def t_def)

lemma plan_of_raw_free:
  assumes wf: "plans_wf s" and b: "b \<noteq> a"
  shows "plan_of (raw_free a s) b = plan_of s b"
proof -
  have "plan_of (raw_free a s) b = plan_of (snd (plan_remove a s)) b"
    by (intro plan_of_cong) (simp_all add: raw_free_ctx [OF wf] plan_remove_simps raw_free_simps b)
  with plan_of_remove [OF assms] show ?thesis by simp
qed

lemma view_raw_free:
  assumes wf: "plans_wf s"
  shows "view (raw_free a s) = g_drop a (view s)"
proof -
  have "holds (raw_free a s) b = (if b = a then [] else holds s b)" for b
  proof (cases "b = a")
    case False
    then show ?thesis
      using holds_cong [of "raw_free a s" b s] plan_of_raw_free [OF wf False] by (simp add: raw_free_simps)
  qed (simp add: holds_def edges_def raw_free_simps free_cell_def)
  then show ?thesis by (auto simp: view_def g_drop_def cells_raw_free raw_free_simps free_cell_def)
qed

lemma placed_same: "page_table s' = page_table s \<Longrightarrow> placed s' a c b = placed s a c b"
  by (simp add: placed_def)

lemma alloc_wfD:
  assumes "alloc_wf s"
  shows "fmlookup (page_table s) n = Some p \<Longrightarrow> n < next_page s \<and> page_ok p \<and> page_ctx p \<noteq> 0 \<and> page_ctx p < next_ctx s"
    and "bump (ctxs s c) cls = Some n \<Longrightarrow>
      \<exists>p. fmlookup (page_table s) n = Some p \<and> page_ctx p = c \<and> page_cell_bytes p = class_bytes cls"
    and "distinct (free_cells (ctxs s c) cls)"
    and "cls \<noteq> 0 \<Longrightarrow> cls \<noteq> 1 \<Longrightarrow> free_cells (ctxs s c) cls = []"
    and "a \<in> set (free_cells (ctxs s c) cls) \<Longrightarrow> \<not> live s a \<and> placed s a c (class_bytes cls)"
    and "live s a \<Longrightarrow> placed s a (rc_value_context s a) (cell_bytes (type_of_payload (load (cell_at s a))))"
  using assms unfolding alloc_wf_def by blast+

lemma alloc_wf_raw_free:
  assumes wf: "plans_wf s" and aw: "alloc_wf s" and a: "live s a"
  shows "alloc_wf (raw_free a s)"
proof -
  let ?s = "raw_free a s" and ?c = "rc_value_context s a" and ?t = "type_of_payload (load (cell_at s a))"
  have new: "a \<notin> set (free_cells (ctxs s d) cls)" for d cls using alloc_wfD(5) [OF aw] a by blast
  have pa: "placed s a ?c (class_bytes (cell_class ?t))" using alloc_wfD(6) [OF aw a] by simp
  have pl: "placed ?s b d n = placed s b d n" for b d n by (rule placed_same) (simp add: raw_free_simps)
  have "distinct (free_cells (ctxs ?s d) cls) \<and> (cls \<noteq> 0 \<and> cls \<noteq> 1 \<longrightarrow> free_cells (ctxs ?s d) cls = []) \<and>
      (\<forall>b\<in>set (free_cells (ctxs ?s d) cls). \<not> live ?s b \<and> placed ?s b d (class_bytes cls))" for d cls
  proof (cases "d = ?c \<and> \<not> destroying (ctxs s ?c) \<and> cls = cell_class ?t")
    case True
    then have "free_cells (ctxs ?s d) cls = a # free_cells (ctxs s d) cls" by (simp add: raw_free_ctx [OF wf])
    then show ?thesis using alloc_wfD(3) [OF aw, of d cls] alloc_wfD(5) [OF aw, of _ d cls] new True pa
        cell_class_cases [of ?t]
      by (auto simp: raw_free_simps pl)
  next
    case False
    then have "free_cells (ctxs ?s d) cls = free_cells (ctxs s d) cls" by (auto simp: raw_free_ctx [OF wf])
    then show ?thesis using alloc_wfD(3) [OF aw, of d cls] alloc_wfD(4) [OF aw, of cls d] alloc_wfD(5) [OF aw, of _ d cls]
      by (auto simp: raw_free_simps pl)
  qed
  moreover have "placed ?s b (rc_value_context ?s b) (cell_bytes (type_of_payload (load (cell_at ?s b))))"
    if "live ?s b" for b
    using that alloc_wfD(6) [OF aw, of b] by (simp add: raw_free_simps pl)
  ultimately show ?thesis
    using alloc_wfD(1,2) [OF aw] unfolding alloc_wf_def by (simp add: raw_free_simps raw_free_ctx [OF wf])
qed

lemma rc_ok_raw_free:
  assumes ok: "rc_ok s R W D" and a: "a \<in> D" and src: "\<not> is_source s a"
  shows "rc_ok (raw_free a s) R W (D - {a})"
proof -
  let ?s = "raw_free a s"
  note wf = rc_okD(2) [OF ok] and c = rc_okD(6) [OF ok]
  have live: "live s a" using counts_okD(2) [OF c] a by (auto simp: live_fmdom)
  have "plans_wf ?s"
    by (rule plans_wf_remove_drop [OF wf, of _ a]) (simp_all add: raw_free_simps raw_free_ctx [OF wf] free_cell_def)
  moreover have "is_source ?s b \<longleftrightarrow> is_source s b" for b
    using src by (simp add: is_source_def raw_free_simps free_cell_def)
  then have "sources_wf ?s"
    by (intro sources_wf_cong [OF rc_okD(3) [OF ok]]) (simp_all add: raw_free_ctx [OF wf])
  moreover have "alloc_wf ?s" by (rule alloc_wf_raw_free [OF wf rc_okD(4) [OF ok] live])
  moreover have "symbols_ok ?s"
    using rc_okD(5) [OF ok] by (auto simp: symbols_ok_def raw_free_simps free_cell_def)
  moreover have "counts_ok (view ?s) R W (D - {a})"
    unfolding view_raw_free [OF wf] by (rule counts_ok_drop [OF c a])
  ultimately show ?thesis using rc_okD(1) [OF ok] live by (simp add: rc_ok_def raw_free_simps)
qed

subsection \<open>The loop\<close>

lemma load_unlink_object:
  "load (cell_at (unlink_object a s) b) =
     (if b = a \<and> is_source s a then with_cycle_source False (load (cell_at s a)) else load (cell_at s b))"
proof -
  have "is_source s a \<Longrightarrow> live s a"
    using cell_at_dead [of s a] by (cases "live s a") (simp_all add: is_source_def free_cell_def)
  then show ?thesis
    by (auto simp: unlink_object_def account_death_def source_unlink_def is_source_def cell_at_upd_cell Let_def
        split: payload.splits bool.splits)
qed

lemma is_source_unlink_object [simp]: "\<not> is_source (unlink_object a s) a"
  by (auto simp: is_source_def load_unlink_object split: payload.splits)

lemma is_source_only_refs: "only_refs s s' \<Longrightarrow> is_source s' a = is_source s a"
  by (simp add: is_source_def only_refs_cell)

lemma counts_ok_holds_counted:
  assumes "symbols_ok s" "refs (cell_at s a) \<noteq> RC_IMMORTAL"
  shows "counts_ok g (mset (holds s a) + R) W D \<longleftrightarrow> counts_ok g (mset (edges s a) + R) W D"
proof -
  have "mset (holds s a) + R = mset (symbol_slots (load (cell_at s a))) + (mset (edges s a) + R)"
    by (simp add: holds_def)
  then show ?thesis using counts_ok_nulls [OF symbols_okD [OF assms]] by metis
qed

lemma refs_unlink_object [simp]:
  "refs (cell_at (unlink_object a s) b) = refs (cell_at s b)"
  "reaches_vector (cell_at (unlink_object a s) b) = reaches_vector (cell_at s b)"
  "has_plan (cell_at (unlink_object a s) b) = has_plan (cell_at s b)"
  by (simp_all add: unlink_object_def account_death_def source_unlink_def cell_at_upd_cell Let_def
      split: payload.splits bool.splits)

lemma rc_ok_release_cell:
  assumes ok: "rc_ok s R (d # W) D"
  shows "case release_cell d W s of (W', s') \<Rightarrow> rc_ok s' R W' D"
proof -
  let ?u = "unlink_object d s"
  have ok1: "rc_ok ?u R (d # W) D" by (rule rc_ok_unlink_object [OF ok])
  note c = rc_okD(6) [OF ok1]
  from counts_ok_open [OF c] have open_: "counts_ok (view ?u) (mset (holds ?u d) + R) W (insert d D)"
    and d: "d \<in> nodes (view ?u) - D" by simp_all
  have "d \<in> set (d # W)" by simp
  then have "cnt (view ?u) d = 0" using counts_okD(4) [OF c] by blast
  then have "refs (cell_at ?u d) \<noteq> RC_IMMORTAL" by simp
  with open_ ok1 counts_ok_holds_counted [OF rc_okD(5) [OF ok1]] have "rc_ok ?u (mset (edges ?u d) + R) W (insert d D)" by (simp add: rc_ok_def)
  from rc_ok_fold_release_edge [OF this] obtain W' s' where
    f: "fold release_edge (edges ?u d) (W, ?u) = (W', s')" "rc_ok s' R W' (insert d D)"
    by (auto split: prod.splits)
  have "only_refs ?u s'" using only_refs_fold [of "(W, ?u)" "edges ?u d"] f(1) by simp
  then have "\<not> is_source s' d" by (simp add: is_source_only_refs)
  from rc_ok_raw_free [OF f(2) _ this] have "rc_ok (raw_free d s') R W' D" using d by simp
  with f(1) show ?thesis by (simp add: release_cell_def)
qed

lemma rc_ok_release_loop:
  assumes "rc_ok s R W D"
  shows "rc_ok (release_loop W s) R [] D"
  using assms
proof (induction W s rule: release_loop.induct)
  case (2 d W s)
  from rc_ok_release_cell [OF 2(2)]
  have "rc_ok (snd (release_cell d W s)) R (fst (release_cell d W s)) D" by (simp add: case_prod_beta)
  moreover have "d \<in> set (d # W)" by simp
  then have "live s d" using counts_okD(4) [OF rc_okD(6) [OF 2(2)]] by (auto simp: live_fmdom)
  ultimately show ?case using 2(1) by simp
qed simp

lemma rc_ok_release:
  assumes "rc_ok s (add_mset v R) [] D"
  shows "rc_ok (rc_release v s) R [] D"
  using rc_ok_release_edge [OF assms] rc_ok_release_loop by (auto simp: rc_release_def split: prod.splits)

lemma heap_ok_release: "heap_ok s (add_mset v R) \<Longrightarrow> heap_ok (rc_release v s) R"
  unfolding heap_ok_def by (rule rc_ok_release)

lemma heap_ok_retain:
  assumes "heap_ok s R" "\<And>a. v = HRef a \<Longrightarrow> live s a"
  shows "heap_ok (rc_retain v s) (add_mset v R)"
  unfolding heap_ok_def
proof (rule rc_ok_retain)
  show "rc_ok s R [] {}" using assms(1) by (simp add: heap_ok_def)
  fix a assume "v = HRef a"
  then have a: "a \<in> nodes (view s)" using assms(2) by (simp add: live_fmdom)
  with counts_okD(4) [OF rc_okD(6) [OF assms(1) [unfolded heap_ok_def]]] show "a \<in> nodes (view s) - {} \<and> 0 < refs (cell_at s a)"
    by auto
qed

subsection \<open>What survives a release\<close>

definition heap_fields_cleared :: "ctx \<Rightarrow> ctx" where
  \<comment> \<open>without the accounting, the plan table, the source list and the free lists\<close>
  "heap_fields_cleared x =
     x\<lparr>stats := empty_stats, graph_slots := 0, plans := [], plan_count := 0,
       sources := [], cycle_sources := 0, free_cells := (\<lambda>_. []), free_bytes := 0\<rparr>"

definition same_but_heap_fields :: "ctx \<Rightarrow> ctx \<Rightarrow> bool" where
  "same_but_heap_fields x y \<longleftrightarrow> heap_fields_cleared x = heap_fields_cleared y"

lemma same_but_heap_fields_refl [simp]: "same_but_heap_fields x x"
  by (simp add: same_but_heap_fields_def)

lemma same_but_heap_fields_trans:
  "same_but_heap_fields x y \<Longrightarrow> same_but_heap_fields y z \<Longrightarrow> same_but_heap_fields x z"
  by (simp add: same_but_heap_fields_def)

definition shrinks :: "mem \<Rightarrow> mem \<Rightarrow> bool" where
  \<comment> \<open>some counted cells are gone; the others have the same contents, up to the count\<close>
  "shrinks s s' \<longleftrightarrow>
     page_table s' = page_table s \<and> next_page s' = next_page s \<and> next_ctx s' = next_ctx s \<and>
     outcomes s' = outcomes s \<and>
     (\<forall>c. same_but_heap_fields (ctxs s c) (ctxs s' c)) \<and>
     (\<forall>a. live s' a \<longrightarrow> live s a \<and> plan_of s' a = plan_of s a \<and>
        same_but_refs (cell_at s a) (cell_at s' a)) \<and>
     (\<forall>a. live s a \<and> refs (cell_at s a) = RC_IMMORTAL \<longrightarrow> live s' a \<and> refs (cell_at s' a) = RC_IMMORTAL)"

lemma shrinks_refl [simp]: "shrinks s s"
  by (simp add: shrinks_def same_but_refs_def)

lemma shrinksD:
  assumes "shrinks s s'"
  shows "live s' a \<Longrightarrow> live s a \<and> plan_of s' a = plan_of s a \<and> same_but_refs (cell_at s a) (cell_at s' a)"
    and "live s b \<Longrightarrow> refs (cell_at s b) = RC_IMMORTAL \<Longrightarrow> live s' b \<and> refs (cell_at s' b) = RC_IMMORTAL"
    and "same_but_heap_fields (ctxs s c) (ctxs s' c)"
    and "page_table s' = page_table s \<and> next_page s' = next_page s \<and> next_ctx s' = next_ctx s \<and> outcomes s' = outcomes s"
  using assms unfolding shrinks_def by blast+

lemma shrinksI:
  assumes "\<And>a. live s' a \<Longrightarrow> live s a \<and> plan_of s' a = plan_of s a \<and> same_but_refs (cell_at s a) (cell_at s' a)"
    and "\<And>a. live s a \<Longrightarrow> refs (cell_at s a) = RC_IMMORTAL \<Longrightarrow> live s' a \<and> refs (cell_at s' a) = RC_IMMORTAL"
    and "\<And>c. same_but_heap_fields (ctxs s c) (ctxs s' c)"
    and "page_table s' = page_table s \<and> next_page s' = next_page s \<and> next_ctx s' = next_ctx s \<and> outcomes s' = outcomes s"
  shows "shrinks s s'"
  using assms unfolding shrinks_def by blast

lemma shrinks_trans:
  assumes 1: "shrinks s t" and 2: "shrinks t u"
  shows "shrinks s u"
proof (rule shrinksI)
  fix a assume "live u a"
  note t = shrinksD(1) [OF 2 this]
  note s = shrinksD(1) [OF 1 conjunct1 [OF t]]
  have "same_but_refs (cell_at s a) (cell_at u a)" using s t by (blast intro: same_but_refs_trans)
  with s t show "live s a \<and> plan_of u a = plan_of s a \<and> same_but_refs (cell_at s a) (cell_at u a)" by (metis (no_types))
next
  fix a assume "live s a" "refs (cell_at s a) = RC_IMMORTAL"
  from shrinksD(2) [OF 1 this] show "live u a \<and> refs (cell_at u a) = RC_IMMORTAL" by (blast dest: shrinksD(2) [OF 2])
next
  fix c show "same_but_heap_fields (ctxs s c) (ctxs u c)"
    by (rule same_but_heap_fields_trans [OF shrinksD(3) [OF 1] shrinksD(3) [OF 2]])
next
  show "page_table u = page_table s \<and> next_page u = next_page s \<and> next_ctx u = next_ctx s \<and> outcomes u = outcomes s"
    using shrinksD(4) [OF 1] shrinksD(4) [OF 2] by (metis (no_types))
qed

lemma shrinks_context: "shrinks s s' \<Longrightarrow> rc_value_context s' a = rc_value_context s a"
  by (simp add: shrinks_def rc_value_context_def)

lemma shrinks_cell:
  assumes "shrinks s s'" "live s' a"
  shows "live s a" "load (cell_at s' a) = load (cell_at s a)" "has_plan (cell_at s' a) = has_plan (cell_at s a)"
    "plan_of s' a = plan_of s a" "reaches_vector (cell_at s' a) = reaches_vector (cell_at s a)"
    "builtin_slot (cell_at s' a) = builtin_slot (cell_at s a)"
    "returns_second (cell_at s' a) = returns_second (cell_at s a)" "holds s' a = holds s a"
proof -
  from assms have e: "live s a" "plan_of s' a = plan_of s a" "same_but_refs (cell_at s a) (cell_at s' a)"
    by (simp_all add: shrinks_def)
  then have f: "load (cell_at s' a) = load (cell_at s a)" "has_plan (cell_at s' a) = has_plan (cell_at s a)"
    by (simp_all add: same_but_refs_def)
  from e holds_cong [OF f e(2)] show "live s a" "load (cell_at s' a) = load (cell_at s a)" "has_plan (cell_at s' a) = has_plan (cell_at s a)"
    "plan_of s' a = plan_of s a" "reaches_vector (cell_at s' a) = reaches_vector (cell_at s a)"
    "builtin_slot (cell_at s' a) = builtin_slot (cell_at s a)"
    "returns_second (cell_at s' a) = returns_second (cell_at s a)" "holds s' a = holds s a"
    by (simp_all add: same_but_refs_def)
qed

text \<open>Whatever the remaining owners can reach survives.\<close>

lemma owned_survives:
  assumes s: "shrinks s s'" and ok: "counts_ok (view s') R [] {}" and x: "x \<in> owned (view s) R"
  shows "live s' x"
  using x
proof induction
  case (root x)
  then show ?case using counts_ok_pos [OF ok] by (simp add: live_fmdom)
next
  case (immortal x)
  with s show ?case by (simp add: shrinks_def live_fmdom)
next
  case (edge b x)
  with shrinks_cell(8) [OF s] have "HRef x \<in> set (out (view s') b)" by simp
  with edge have "HRef x \<in># held (view s') {}"
    using held_mem [OF counts_okD(1) [OF ok]] by (auto simp: live_fmdom)
  then have "HRef x \<in># held (view s') {} + R" by simp
  from counts_okD(5) [OF ok this] show ?case by (simp add: live_fmdom)
qed

lemma unlink_object_other:
  "b \<noteq> a \<Longrightarrow> cell_at (unlink_object a s) b = cell_at s b"
  "page_table (unlink_object a s) = page_table s" "next_page (unlink_object a s) = next_page s"
  "next_ctx (unlink_object a s) = next_ctx s" "outcomes (unlink_object a s) = outcomes s"
  "live (unlink_object a s) b = live s b" "plans (ctxs (unlink_object a s) c) = plans (ctxs s c)"
  "plan_count (ctxs (unlink_object a s) c) = plan_count (ctxs s c)"
  "same_but_heap_fields (ctxs s c) (ctxs (unlink_object a s) c)"
  by (simp_all add: unlink_object_def account_death_def source_unlink_def cell_at_upd_cell ctxs_upd_ctx ctxs_upd_stats
      same_but_heap_fields_def heap_fields_cleared_def Let_def split: payload.splits bool.splits)

lemma only_refs_shrinks:
  assumes "only_refs s s'"
  shows "shrinks s s'"
proof -
  have "plan_of s' a = plan_of s a" for a
    by (rule plan_of_cong) (use assms only_refs_cell [OF assms] in \<open>simp_all add: only_refs_def rc_value_context_def\<close>)
  with assms show ?thesis by (simp add: only_refs_def shrinks_def live_fmdom)
qed

lemma raw_free_rest:
  assumes wf: "plans_wf s"
  shows "outcomes (raw_free a s) = outcomes s"
    and "same_but_heap_fields (ctxs s c) (ctxs (raw_free a s) c)"
proof -
  have "outcomes (free_payload a s) = outcomes s"
    by (simp add: free_payload_def plan_remove_def Let_def split: payload.splits option.splits bool.splits)
  then show "outcomes (raw_free a s) = outcomes s" by (simp add: raw_free_def Let_def)
  have "same_but_heap_fields (ctxs s c) (ctxs (snd (plan_remove a s)) c)"
    by (simp add: plan_remove_def Let_def ctxs_upd_ctx same_but_heap_fields_def heap_fields_cleared_def split: option.splits)
  then show "same_but_heap_fields (ctxs s c) (ctxs (raw_free a s) c)"
    by (simp add: raw_free_def Let_def free_payload_ctxs [OF wf] ctxs_upd_ctx same_but_heap_fields_def heap_fields_cleared_def)
qed

text \<open>Freeing one cell: the others keep their contents, and the freed one was counted.\<close>

lemma shrinks_free:
  assumes wf: "plans_wf s" and n: "refs (cell_at s a) \<noteq> RC_IMMORTAL"
  shows "shrinks s (raw_free a s)"
  using n unfolding shrinks_def
  by (simp add: raw_free_simps raw_free_rest [OF wf] plan_of_raw_free [OF wf])

lemma shrinks_release_cell:
  assumes ok: "rc_ok s R (d # W) D"
  shows "shrinks s (snd (release_cell d W s))"
proof -
  let ?u = "unlink_object d s"
  obtain W' v where f: "fold release_edge (edges ?u d) (W, ?u) = (W', v)" by fastforce
  have w: "snd (release_cell d W s) = raw_free d v" by (simp add: release_cell_def f)
  have or: "only_refs ?u v" using only_refs_fold [of "(W, ?u)" "edges ?u d"] f by simp
  have "d \<in> set (d # W)" by simp
  then have d0: "refs (cell_at s d) = 0" using counts_okD(4) [OF rc_okD(6) [OF ok]] by auto
  then have n: "refs (cell_at v d) \<noteq> RC_IMMORTAL"
    using or by (metis RC_IMMORTAL_pos(2) le_zero_eq only_refs_def refs_unlink_object(1))
  have "plans_wf ?u" using rc_okD(2) [OF rc_ok_unlink_object [OF ok]] .
  then have wf: "plans_wf v"
    by (rule plans_wf_cong) (use or in \<open>simp_all add: only_refs_cell [OF or] only_refs_context [OF or], simp_all add: only_refs_def\<close>)
  have uw: "shrinks ?u (raw_free d v)" by (rule shrinks_trans [OF only_refs_shrinks [OF or] shrinks_free [OF wf n]])
  have "plan_of ?u a = plan_of s a" for a
    by (rule plan_of_cong) (simp_all add: rc_value_context_def unlink_object_other)
  note po = this
  show ?thesis
    unfolding w
  proof (rule shrinksI)
    fix a assume a: "live (raw_free d v) a"
    then have "a \<noteq> d" by (simp add: raw_free_simps)
    with shrinksD(1) [OF uw a] show "live s a \<and> plan_of (raw_free d v) a = plan_of s a \<and> same_but_refs (cell_at s a) (cell_at (raw_free d v) a)"
      by (simp add: unlink_object_other po)
  next
    fix a assume a: "live s a" "refs (cell_at s a) = RC_IMMORTAL"
    with shrinksD(2) [OF uw, of a] show "live (raw_free d v) a \<and> refs (cell_at (raw_free d v) a) = RC_IMMORTAL"
      by (simp add: unlink_object_other)
  next
    fix c show "same_but_heap_fields (ctxs s c) (ctxs (raw_free d v) c)"
      by (rule same_but_heap_fields_trans [OF unlink_object_other(9) shrinksD(3) [OF uw]])
  next
    show "page_table (raw_free d v) = page_table s \<and> next_page (raw_free d v) = next_page s \<and>
      next_ctx (raw_free d v) = next_ctx s \<and> outcomes (raw_free d v) = outcomes s"
      using shrinksD(4) [OF uw] by (simp add: unlink_object_other)
  qed
qed

lemma shrinks_release_loop:
  assumes "rc_ok s R W D"
  shows "shrinks s (release_loop W s)"
  using assms
proof (induction W s rule: release_loop.induct)
  case (2 d W s)
  from rc_ok_release_cell [OF 2(2)]
  have "rc_ok (snd (release_cell d W s)) R (fst (release_cell d W s)) D" by (simp add: case_prod_beta)
  moreover have "d \<in> set (d # W)" by simp
  then have "live s d" using counts_okD(4) [OF rc_okD(6) [OF 2(2)]] by (auto simp: live_fmdom)
  ultimately show ?case using 2(1) shrinks_trans [OF shrinks_release_cell [OF 2(2)]] by simp
qed simp

lemma shrinks_release:
  assumes "rc_ok s (add_mset v R) [] D"
  shows "shrinks s (rc_release v s)"
proof -
  obtain W s' where e: "release_edge v ([], s) = (W, s')" by fastforce
  have "shrinks s s'" using only_refs_shrinks [OF only_refs_release_edge [of "([], s)" v]] e by simp
  moreover have "rc_ok s' R W D" using rc_ok_release_edge [OF assms] e by simp
  ultimately show ?thesis using shrinks_trans [OF _ shrinks_release_loop] e by (simp add: rc_release_def)
qed

end
