(* ===== verification/Allocation.thy ===== *)
theory Allocation
  imports Release
begin

text \<open>
  Correctness of slab allocation (\<open>new_cell\<close>, \<open>allocate\<close> of \<open>src/rc/rc.c\<close>): a cell handed out
  lies in a page of the context, was not live and is on no free list; every other cell keeps
  its contents, and the invariant holds with the caller as the owner of the new cell. When
  memory runs out, nothing changes but the error state.
\<close>

definition same_cells :: "mem \<Rightarrow> mem \<Rightarrow> bool" where
  \<comment> \<open>the same live cells with the same contents; pages and free lists may differ\<close>
  "same_cells s s' \<longleftrightarrow>
     cells s' = cells s \<and> fault s' = fault s \<and> next_ctx s' = next_ctx s \<and>
     (\<forall>a. live s a \<longrightarrow> rc_value_context s' a = rc_value_context s a) \<and>
     (\<forall>c. plans (ctxs s' c) = plans (ctxs s c) \<and> plan_count (ctxs s' c) = plan_count (ctxs s c) \<and>
        sources (ctxs s' c) = sources (ctxs s c) \<and> cycle_sources (ctxs s' c) = cycle_sources (ctxs s c))"

lemma same_cellsD:
  assumes "same_cells s s'"
  shows "cells s' = cells s" "fault s' = fault s" "next_ctx s' = next_ctx s" "cell_at s' a = cell_at s a" "live s' a = live s a"
    and "live s a \<Longrightarrow> rc_value_context s' a = rc_value_context s a"
    and "plans (ctxs s' c) = plans (ctxs s c)" "plan_count (ctxs s' c) = plan_count (ctxs s c)"
    and "sources (ctxs s' c) = sources (ctxs s c)" "cycle_sources (ctxs s' c) = cycle_sources (ctxs s c)"
  using assms by (simp_all add: same_cells_def cell_at_def live_def)

lemma has_plan_live: "has_plan (cell_at s a) \<Longrightarrow> live s a"
  using cell_at_dead [of s a] by (cases "live s a") (simp_all add: free_cell_def)

lemma is_source_live: "is_source s a \<Longrightarrow> live s a"
  using cell_at_dead [of s a] by (cases "live s a") (simp_all add: is_source_def free_cell_def)

lemma plan_of_no_plan: "\<not> has_plan (cell_at s a) \<Longrightarrow> plan_of s a = HNull"
  by (simp add: plan_of_def plan_entry_def Let_def)

lemma plan_of_same_cells:
  assumes "same_cells s s'"
  shows "plan_of s' a = plan_of s a"
proof (cases "has_plan (cell_at s a)")
  case True
  from same_cellsD(6) [OF assms has_plan_live [OF True]] show ?thesis
    by (intro plan_of_cong) (simp_all add: same_cellsD [OF assms])
next
  case False
  then show ?thesis by (simp add: plan_of_no_plan same_cellsD(4) [OF assms])
qed

lemma rc_ok_same_cells:
  assumes ok: "rc_ok s R W D" and same: "same_cells s s'" and aw: "alloc_wf s'"
  shows "rc_ok s' R W D"
proof -
  note d = same_cellsD [OF same]
  have "view s' = view s" by (rule view_cong) (simp_all add: d plan_of_same_cells [OF same])
  moreover have "plans_wf s'"
    unfolding plans_wf_def
  proof (intro conjI allI ballI impI)
    show "plans_ok (ctxs s' c)" for c using plans_wfD(1) [OF rc_okD(2) [OF ok], of c] by (simp add: plans_ok_def d)
    show "type_of_payload (load (cell_at s' a)) = RC_PAIR" if "has_plan (cell_at s' a)" for a
      using plans_wfD(3) [OF rc_okD(2) [OF ok]] that by (simp add: d)
    fix c e assume "e \<in> entries (plans (ctxs s' c))"
    then have e: "e \<in> entries (plans (ctxs s c))" by (simp add: d)
    note k = plans_wfD(2) [OF rc_okD(2) [OF ok] e]
    then show "has_plan (cell_at s' (plan_key e))" "type_of_payload (load (cell_at s' (plan_key e))) = RC_PAIR"
      by (simp_all add: d)
    from k show "rc_value_context s' (plan_key e) = c" by (simp add: d(6) has_plan_live)
  qed
  moreover have "is_source s' a \<and> rc_value_context s' a = c \<longleftrightarrow> is_source s a \<and> rc_value_context s a = c" for a c
    using d(6) [OF is_source_live, of a] by (auto simp: is_source_def d)
  then have "sources_wf s'" using rc_okD(3) [OF ok] by (simp add: sources_wf_def d)
  moreover have "symbols_ok s'" using rc_okD(5) [OF ok] by (simp add: symbols_ok_def d)
  ultimately show ?thesis using rc_okD(1,6) [OF ok] aw by (simp add: rc_ok_def d)
qed

lemma rc_error_simps [simp]:
  "cells (rc_error c msg s) = cells s" "page_table (rc_error c msg s) = page_table s"
  "next_page (rc_error c msg s) = next_page s" "next_ctx (rc_error c msg s) = next_ctx s"
  "fault (rc_error c msg s) = fault s" "closed_files (rc_error c msg s) = closed_files s"
  by (simp_all add: rc_error_def Let_def case_prod_beta)

lemma rc_error_cell_simps [simp]:
  "cell_at (rc_error c msg s) a = cell_at s a" "live (rc_error c msg s) a = live s a"
  "rc_value_context (rc_error c msg s) a = rc_value_context s a"
  by (simp_all add: cell_at_def live_def rc_value_context_def)

lemma same_cells_rc_error [simp]: "same_cells s (rc_error c msg s)"
  using same_heap_rc_error [of s c msg] by (simp add: same_cells_def same_heap_def)

subsection \<open>Pages\<close>

lemma PAGE_bounds [simp]: "0 < RC_PAGE_BYTES" "PAGE_FIRST < RC_PAGE_BYTES" "0 < class_bytes cls" "class_bytes cls \<le> 72"
  "PAGE_FIRST + class_bytes cls \<le> RC_PAGE_BYTES"
  by (simp_all add: RC_PAGE_BYTES_def PAGE_FIRST_def class_bytes_def RC_PAIR_CELL_def RC_VALUE_BYTES_def)

lemma class_bytes_inj: "cls \<in> {0, 1} \<Longrightarrow> cls' \<in> {0, 1} \<Longrightarrow> class_bytes cls = class_bytes cls' \<Longrightarrow> cls = cls'"
  by (auto simp: class_bytes_def RC_PAIR_CELL_def RC_VALUE_BYTES_def)

lemma placed_mono:
  assumes "placed s a c b"
    and "\<And>p. fmlookup (page_table s) (a div RC_PAGE_BYTES) = Some p \<Longrightarrow>
      \<exists>p'. fmlookup (page_table s') (a div RC_PAGE_BYTES) = Some p' \<and> page_ctx p' = page_ctx p \<and>
        page_cell_bytes p' = page_cell_bytes p \<and> page_used p \<le> page_used p'"
  shows "placed s' a c b"
  using assms by (fastforce simp: placed_def split: option.splits)

lemma fresh_page_wf:
  fixes s :: mem and c :: ctxid and cls :: nat
  assumes aw: "alloc_wf s" and c: "c \<noteq> 0" "c < next_ctx s"
  defines "s' \<equiv> fresh_page c cls (class_bytes cls) s"
  shows "alloc_wf s'" "same_cells s s'"
    "\<exists>n p. bump (ctxs s' c) cls = Some n \<and> fmlookup (page_table s') n = Some p \<and>
      page_used p + class_bytes cls \<le> page_limit p"
proof -
  let ?n = "next_page s" and ?b = "class_bytes cls"
  define p where "p = \<lparr>page_ctx = c, page_cell_bytes = ?b, page_used = PAGE_FIRST,
      page_limit = RC_PAGE_BYTES - (RC_PAGE_BYTES - PAGE_FIRST) mod ?b\<rparr>"
  have pt: "page_table s' = fmupd ?n p (page_table s)" "next_page s' = ?n + 1" "next_ctx s' = next_ctx s"
    "cells s' = cells s" "fault s' = fault s"
    by (simp_all add: s'_def fresh_page_def Let_def p_def)
  have cx: "bump (ctxs s' d) = (if d = c then (bump (ctxs s c))(cls := Some ?n) else bump (ctxs s d))"
    "free_cells (ctxs s' d) = free_cells (ctxs s d)" "plans (ctxs s' d) = plans (ctxs s d)"
    "plan_count (ctxs s' d) = plan_count (ctxs s d)" "sources (ctxs s' d) = sources (ctxs s d)"
    "cycle_sources (ctxs s' d) = cycle_sources (ctxs s d)" for d
    by (simp_all add: s'_def fresh_page_def Let_def ctxs_upd_stats ctxs_upd_ctx)
  have old: "fmlookup (page_table s') m = Some q \<and> m \<noteq> ?n" if "fmlookup (page_table s) m = Some q" for m q
    using alloc_wfD(1) [OF aw that] that by (auto simp: pt)
  have lim: "PAGE_FIRST + ?b \<le> page_limit p" "page_limit p \<le> RC_PAGE_BYTES"
    by (simp_all add: p_def RC_PAGE_BYTES_def PAGE_FIRST_def class_bytes_def RC_PAIR_CELL_def RC_VALUE_BYTES_def)
  have pok: "page_ok p" using lim unfolding page_ok_def by (simp add: p_def)
  have pc: "page_ctx p = c" by (simp add: p_def)
  have pl: "placed s' a d b" if "placed s a d b" for a d b
    by (rule placed_mono [OF that]) (use old in auto)
  have lv: "live s' a = live s a" "cell_at s' a = cell_at s a" for a by (simp_all add: live_def cell_at_def pt)
  have ctx: "rc_value_context s' a = rc_value_context s a" if "live s a" for a
    using placed_context [OF alloc_wfD(6) [OF aw that]] placed_context [OF pl [OF alloc_wfD(6) [OF aw that]]] by simp
  show "alloc_wf s'"
    unfolding alloc_wf_def
  proof (intro conjI allI impI ballI)
    fix m q assume q: "fmlookup (page_table s') m = Some q"
    have "m = ?n \<and> q = p \<or> fmlookup (page_table s) m = Some q" using q by (auto simp: pt split: if_splits)
    then have "m < ?n + 1 \<and> page_ok q \<and> page_ctx q \<noteq> 0 \<and> page_ctx q < next_ctx s"
    proof
      assume "m = ?n \<and> q = p"
      with c pok pc show ?thesis by simp
    next
      assume "fmlookup (page_table s) m = Some q"
      from alloc_wfD(1) [OF aw this] show ?thesis by simp
    qed
    then show "m < next_page s'" "page_ok q" "page_ctx q \<noteq> 0" "page_ctx q < next_ctx s'"
      by (simp_all add: pt(2,3))
  next
    fix d k m assume "bump (ctxs s' d) k = Some m"
    then have "d = c \<and> k = cls \<and> m = ?n \<or> bump (ctxs s d) k = Some m"
      unfolding cx(1) by (cases "d = c"; cases "k = cls") simp_all
    then consider "d = c" "k = cls" "m = ?n" | "bump (ctxs s d) k = Some m" by blast
    then show "\<exists>p. fmlookup (page_table s') m = Some p \<and> page_ctx p = d \<and> page_cell_bytes p = class_bytes k"
    proof cases
      case 1
      then show ?thesis by (simp add: pt p_def)
    next
      case 2
      from alloc_wfD(2) [OF aw this] old show ?thesis by blast
    qed
  next
    fix d k
    show "distinct (free_cells (ctxs s' d) k)" using alloc_wfD(3) [OF aw] by (simp add: cx)
    show "free_cells (ctxs s' d) k = []" if "k \<noteq> 0 \<and> k \<noteq> 1" using alloc_wfD(4) [OF aw] that by (simp add: cx)
    fix a assume "a \<in> set (free_cells (ctxs s' d) k)"
    then have "a \<in> set (free_cells (ctxs s d) k)" by (simp add: cx)
    from alloc_wfD(5) [OF aw this] show "\<not> live s' a" "placed s' a d (class_bytes k)" by (auto simp: lv intro: pl)
  next
    fix a assume "live s' a"
    then have "live s a" by (simp add: lv)
    from pl [OF alloc_wfD(6) [OF aw this]] ctx [OF this]
    show "placed s' a (rc_value_context s' a) (cell_bytes (type_of_payload (load (cell_at s' a))))" by (simp add: lv)
  qed
  show "same_cells s s'" using ctx by (simp add: same_cells_def pt cx)
  show "\<exists>n p. bump (ctxs s' c) cls = Some n \<and> fmlookup (page_table s') n = Some p \<and>
      page_used p + class_bytes cls \<le> page_limit p"
    using lim(1) by (auto simp: cx pt) (simp add: p_def)
qed

lemma page_okD:
  "page_ok p \<Longrightarrow> 0 < page_cell_bytes p \<and> PAGE_FIRST \<le> page_used p \<and> page_used p \<le> page_limit p \<and>
     page_limit p \<le> RC_PAGE_BYTES \<and> page_cell_bytes p dvd page_used p - PAGE_FIRST"
  by (simp add: page_ok_def)

lemma bump_cell_wf:
  fixes s :: mem and c :: ctxid and cls n :: nat and p :: page
  assumes aw: "alloc_wf s" and b: "bump (ctxs s c) cls = Some n" and p: "fmlookup (page_table s) n = Some p"
    and room: "page_used p + class_bytes cls \<le> page_limit p"
  defines "a \<equiv> n * RC_PAGE_BYTES + page_used p" and "s' \<equiv> snd (bump_cell c cls (class_bytes cls) s)"
  shows "fst (bump_cell c cls (class_bytes cls) s) = Some a" "\<not> live s a" "placed s' a c (class_bytes cls)"
    "\<And>d k. a \<notin> set (free_cells (ctxs s d) k)" "alloc_wf s'" "same_cells s s'" "ctxs s' = ctxs s"
proof -
  let ?b = "class_bytes cls" and ?p = "p\<lparr>page_used := page_used p + class_bytes cls\<rparr>"
  from alloc_wfD(2) [OF aw b] p have pc: "page_ctx p = c" "page_cell_bytes p = ?b" by auto
  from alloc_wfD(1) [OF aw p] have n: "n < next_page s" "page_ok p" "page_ctx p \<noteq> 0" "page_ctx p < next_ctx s" by auto
  note pk = page_okD [OF n(2)]
  have u: "page_used p < RC_PAGE_BYTES" "PAGE_FIRST \<le> page_used p"
    using pk room PAGE_bounds(3) [of cls] by linarith+
  have ad: "a div RC_PAGE_BYTES = n" "a mod RC_PAGE_BYTES = page_used p"
    unfolding a_def using u by simp_all
  show "fst (bump_cell c cls ?b s) = Some a" by (simp add: bump_cell_def b p a_def)
  have s': "s' = s\<lparr>page_table := fmupd n ?p (page_table s)\<rparr>" by (simp add: s'_def bump_cell_def b p)
  then have proj: "cells s' = cells s" "ctxs s' = ctxs s" "fault s' = fault s" "next_ctx s' = next_ctx s"
    "next_page s' = next_page s" "page_table s' = fmupd n ?p (page_table s)" by simp_all
  have lv: "live s' x = live s x" "cell_at s' x = cell_at s x" for x by (simp_all add: live_def cell_at_def proj)
  have ctx: "rc_value_context s' x = rc_value_context s x" for x
    using p by (cases "n = x div RC_PAGE_BYTES") (simp_all add: rc_value_context_def proj)
  have unplaced: "\<not> placed s a d k" for d k by (simp add: placed_def ad p)
  then show "\<not> live s a" using alloc_wfD(6) [OF aw] by blast
  show "a \<notin> set (free_cells (ctxs s d) k)" for d k using unplaced alloc_wfD(5) [OF aw] by blast
  have pl: "placed s' x d k" if "placed s x d k" for x d k
    by (rule placed_mono [OF that]) (use p in \<open>auto simp: proj\<close>)
  show "placed s' a c ?b" unfolding placed_def ad using pk pc u by (simp add: proj)
  show "alloc_wf s'"
    unfolding alloc_wf_def
  proof (intro conjI allI impI ballI)
    fix m q assume q: "fmlookup (page_table s') m = Some q"
    have "page_ok ?p"
      using pk room pc dvd_add [of ?b "page_used p - PAGE_FIRST" ?b] by (simp add: page_ok_def)
    moreover have "m = n \<and> q = ?p \<or> fmlookup (page_table s) m = Some q" using q by (auto simp: proj split: if_splits)
    ultimately show "m < next_page s'" "page_ok q" "page_ctx q \<noteq> 0" "page_ctx q < next_ctx s'"
      using alloc_wfD(1) [OF aw, of m q] n by (auto simp: proj)
  next
    fix d k m assume "bump (ctxs s' d) k = Some m"
    then have "bump (ctxs s d) k = Some m" by (simp add: proj)
    from alloc_wfD(2) [OF aw this] show "\<exists>p. fmlookup (page_table s') m = Some p \<and> page_ctx p = d \<and> page_cell_bytes p = class_bytes k"
      using p by (auto simp: proj)
  next
    fix d k
    show "distinct (free_cells (ctxs s' d) k)" using alloc_wfD(3) [OF aw] by (simp add: proj)
    show "free_cells (ctxs s' d) k = []" if "k \<noteq> 0 \<and> k \<noteq> 1" using alloc_wfD(4) [OF aw] that by (simp add: proj)
    fix x assume "x \<in> set (free_cells (ctxs s' d) k)"
    then have "x \<in> set (free_cells (ctxs s d) k)" by (simp add: proj)
    from alloc_wfD(5) [OF aw this] show "\<not> live s' x" "placed s' x d (class_bytes k)" by (auto simp: lv intro: pl)
  next
    fix x assume "live s' x"
    then have "live s x" by (simp add: lv)
    from pl [OF alloc_wfD(6) [OF aw this]]
    show "placed s' x (rc_value_context s' x) (cell_bytes (type_of_payload (load (cell_at s' x))))" by (simp add: lv ctx)
  qed
  show "same_cells s s'" using ctx by (simp add: same_cells_def proj)
  show "ctxs s' = ctxs s" by (simp add: proj)
qed

subsection \<open>Taking a cell\<close>

definition cell_ready :: "mem \<Rightarrow> mem \<Rightarrow> ctxid \<Rightarrow> nat \<Rightarrow> addr option \<Rightarrow> bool" where
  \<comment> \<open>what a successful or failed \<open>new_cell\<close> or \<open>take_cell\<close> leaves behind\<close>
  "cell_ready s s' c bytes r \<longleftrightarrow> alloc_wf s' \<and> same_cells s s' \<and>
     (\<forall>d. same_but_heap_fields ((ctxs s d)\<lparr>pages := [], bump := (\<lambda>_. None)\<rparr>)
        ((ctxs s' d)\<lparr>pages := [], bump := (\<lambda>_. None)\<rparr>)) \<and>
     (\<forall>a. r = Some a \<longrightarrow> \<not> live s a \<and> placed s' a c bytes \<and> (\<forall>d k. a \<notin> set (free_cells (ctxs s' d) k)))"

lemma same_cells_refl [simp]: "same_cells s s"
  by (simp add: same_cells_def)

lemma same_cells_trans: "same_cells s t \<Longrightarrow> same_cells t u \<Longrightarrow> same_cells s u"
  by (auto simp: same_cells_def live_def)

lemma same_cells_library_call [simp]: "same_cells s (snd (library_call s))"
  by (simp add: same_cells_def)

lemma alloc_wf_library_call: "alloc_wf s \<Longrightarrow> alloc_wf (snd (library_call s))"
  by (erule alloc_wf_cong) simp_all

lemma fresh_page_ctx:
  "same_but_heap_fields ((ctxs s d)\<lparr>pages := [], bump := (\<lambda>_. None)\<rparr>)
     ((ctxs (fresh_page c cls b s) d)\<lparr>pages := [], bump := (\<lambda>_. None)\<rparr>)"
  by (simp add: fresh_page_def Let_def ctxs_upd_stats ctxs_upd_ctx same_but_heap_fields_def heap_fields_cleared_def)

lemma bump_cell_ready:
  assumes aw: "alloc_wf s" and b: "bump (ctxs s c) cls = Some n" and p: "fmlookup (page_table s) n = Some p"
    and room: "page_used p + class_bytes cls \<le> page_limit p"
  shows "cell_ready s (snd (bump_cell c cls (class_bytes cls) s)) c (class_bytes cls)
    (fst (bump_cell c cls (class_bytes cls) s))"
  using bump_cell_wf [OF assms] unfolding cell_ready_def by simp

lemma cell_ready_after:
  assumes "same_cells s t" "cell_ready t u c b r"
    and "\<And>d. same_but_heap_fields ((ctxs s d)\<lparr>pages := [], bump := (\<lambda>_. None)\<rparr>)
        ((ctxs t d)\<lparr>pages := [], bump := (\<lambda>_. None)\<rparr>)"
  shows "cell_ready s u c b r"
  using assms same_cells_trans [OF assms(1)] same_but_heap_fields_trans [OF assms(3)] same_cellsD(5) [OF assms(1)]
  unfolding cell_ready_def by blast

lemma new_cell_ready:
  assumes aw: "alloc_wf s" and c: "c \<noteq> 0" "c < next_ctx s"
  shows "cell_ready s (snd (new_cell c cls (class_bytes cls) s)) c (class_bytes cls)
    (fst (new_cell c cls (class_bytes cls) s))"
proof (cases "page_full s c cls (class_bytes cls)")
  case True
  let ?t = "snd (library_call s)"
  have wt: "alloc_wf ?t" by (rule alloc_wf_library_call [OF aw])
  show ?thesis
  proof (cases "fst (library_call s)")
    case False
    with True have "new_cell c cls (class_bytes cls) s = (None, ?t)" by (simp add: new_cell_def case_prod_beta)
    with wt show ?thesis by (simp add: cell_ready_def)
  next
    case ok: True
    let ?u = "fresh_page c cls (class_bytes cls) ?t"
    have ct: "c < next_ctx ?t" using c by simp
    note f = fresh_page_wf [OF wt c(1) ct, of cls]
    from f(3) obtain n p where n: "bump (ctxs ?u c) cls = Some n" "fmlookup (page_table ?u) n = Some p"
      "page_used p + class_bytes cls \<le> page_limit p" by blast
    have e: "new_cell c cls (class_bytes cls) s = bump_cell c cls (class_bytes cls) ?u"
      using True ok by (simp add: new_cell_def case_prod_beta)
    have su: "same_cells s ?u" by (rule same_cells_trans [OF same_cells_library_call f(2)])
    have "same_but_heap_fields ((ctxs s d)\<lparr>pages := [], bump := (\<lambda>_. None)\<rparr>)
        ((ctxs ?u d)\<lparr>pages := [], bump := (\<lambda>_. None)\<rparr>)" for d using fresh_page_ctx [of ?t] by simp
    from cell_ready_after [OF su bump_cell_ready [OF f(1) n] this] show ?thesis by (simp add: e)
  qed
next
  case False
  then obtain n p where "bump (ctxs s c) cls = Some n" "fmlookup (page_table s) n = Some p"
    "page_used p + class_bytes cls \<le> page_limit p"
    by (auto simp: page_full_def split: option.splits)
  from bump_cell_ready [OF aw this] False show ?thesis by (simp add: new_cell_def)
qed

lemma take_cell_ready:
  assumes aw: "alloc_wf s" and c: "c \<noteq> 0" "c < next_ctx s"
  shows "cell_ready s (snd (take_cell c t s)) c (cell_bytes t) (fst (take_cell c t s))"
proof (cases "free_cells (ctxs s c) (cell_class t)")
  case Nil
  with new_cell_ready [OF aw c, of "cell_class t"] show ?thesis by (simp add: take_cell_def)
next
  case (Cons a as)
  let ?k = "cell_class t" and ?s = "snd (take_cell c t s)"
  have s': "fst (take_cell c t s) = Some a" and fc: "free_cells (ctxs ?s d) = (if d = c then (free_cells (ctxs s c))(?k := as) else free_cells (ctxs s d))"
    and proj: "cells ?s = cells s" "fault ?s = fault s" "page_table ?s = page_table s" "next_page ?s = next_page s"
      "next_ctx ?s = next_ctx s"
    and cx: "plans (ctxs ?s d) = plans (ctxs s d)" "plan_count (ctxs ?s d) = plan_count (ctxs s d)"
      "sources (ctxs ?s d) = sources (ctxs s d)" "cycle_sources (ctxs ?s d) = cycle_sources (ctxs s d)"
      "bump (ctxs ?s d) = bump (ctxs s d)"
      "same_but_heap_fields ((ctxs s d)\<lparr>pages := [], bump := (\<lambda>_. None)\<rparr>) ((ctxs ?s d)\<lparr>pages := [], bump := (\<lambda>_. None)\<rparr>)" for d
    by (simp_all add: take_cell_def Cons ctxs_upd_ctx same_but_heap_fields_def heap_fields_cleared_def)
  have lv: "live ?s x = live s x" "cell_at ?s x = cell_at s x" "rc_value_context ?s x = rc_value_context s x"
    "placed ?s x d b = placed s x d b" for x d b
    by (simp_all add: live_def cell_at_def rc_value_context_def placed_def proj)
  have mem: "a \<in> set (free_cells (ctxs s c) ?k)" using Cons by simp
  note af = alloc_wfD(5) [OF aw mem]
  have sub: "set (free_cells (ctxs ?s d) k) \<subseteq> set (free_cells (ctxs s d) k)" for d k by (auto simp: fc Cons)
  have "alloc_wf ?s"
    unfolding alloc_wf_def
  proof (intro conjI allI impI ballI)
    fix m q assume "fmlookup (page_table ?s) m = Some q"
    with alloc_wfD(1) [OF aw, of m q] show "m < next_page ?s" "page_ok q" "page_ctx q \<noteq> 0" "page_ctx q < next_ctx ?s"
      unfolding proj by blast+
  next
    fix d k m assume "bump (ctxs ?s d) k = Some m"
    with alloc_wfD(2) [OF aw, of d k m] show "\<exists>p. fmlookup (page_table ?s) m = Some p \<and> page_ctx p = d \<and> page_cell_bytes p = class_bytes k"
      unfolding proj cx by blast
  next
    fix d k
    show "distinct (free_cells (ctxs ?s d) k)" using alloc_wfD(3) [OF aw, of d k] Cons by (auto simp: fc)
    show "free_cells (ctxs ?s d) k = []" if "k \<noteq> 0 \<and> k \<noteq> 1" using alloc_wfD(4) [OF aw, of k d] sub [of d k] that by simp
    fix x assume "x \<in> set (free_cells (ctxs ?s d) k)"
    with sub have "x \<in> set (free_cells (ctxs s d) k)" by blast
    from alloc_wfD(5) [OF aw this] show "\<not> live ?s x" "placed ?s x d (class_bytes k)" by (simp_all add: lv)
  next
    fix x assume "live ?s x"
    with alloc_wfD(6) [OF aw, of x] show "placed ?s x (rc_value_context ?s x) (cell_bytes (type_of_payload (load (cell_at ?s x))))"
      by (simp add: lv)
  qed
  moreover have "same_cells s ?s" by (simp add: same_cells_def proj cx lv)
  moreover have "a \<notin> set (free_cells (ctxs ?s d) k)" for d k
  proof
    assume a: "a \<in> set (free_cells (ctxs ?s d) k)"
    then have "a \<in> set (free_cells (ctxs s d) k)" using sub by blast
    from alloc_wfD(5) [OF aw this] af have "class_bytes k = class_bytes ?k" "d = c" using placed_bytes by blast+
    moreover have "k \<in> {0, 1}"
    proof (rule ccontr)
      assume "k \<notin> {0, 1}"
      then have "free_cells (ctxs s d) k = []" by (intro alloc_wfD(4) [OF aw]) simp_all
      with \<open>a \<in> set (free_cells (ctxs s d) k)\<close> show False by simp
    qed
    ultimately have "d = c" "k = ?k" using class_bytes_inj [of k ?k] cell_class_cases [of t] by auto
    with a alloc_wfD(3) [OF aw, of c ?k] Cons show False by (simp add: fc)
  qed
  ultimately show ?thesis using af cx(6) unfolding cell_ready_def s' by (simp add: lv)
qed

subsection \<open>Allocation\<close>

text \<open>The caller of \<open>allocate\<close> becomes the owner of a cell with a blank payload.\<close>

lemma plan_of_init_cell:
  assumes "\<not> live s a"
  shows "plan_of (init_cell c t extra a s) b = plan_of s b"
proof (cases "b = a")
  case True
  with assms show ?thesis
    by (simp add: plan_of_no_plan init_cell_def new_header_def cell_at_def live_def free_cell_def)
next
  case False
  then show ?thesis
    by (intro plan_of_cong) (simp_all add: init_cell_def cell_at_def rc_value_context_def ctxs_upd_ctx)
qed

lemma init_cell_simps:
  "cell_at (init_cell c t extra a s) b = (if b = a then new_header t else cell_at s b)"
  "live (init_cell c t extra a s) b \<longleftrightarrow> b = a \<or> live s b"
  "page_table (init_cell c t extra a s) = page_table s" "next_page (init_cell c t extra a s) = next_page s"
  "next_ctx (init_cell c t extra a s) = next_ctx s" "fault (init_cell c t extra a s) = fault s"
  "rc_value_context (init_cell c t extra a s) b = rc_value_context s b"
  "fmdom' (cells (init_cell c t extra a s)) = insert a (fmdom' (cells s))"
  "plans (ctxs (init_cell c t extra a s) d) = plans (ctxs s d)"
  "plan_count (ctxs (init_cell c t extra a s) d) = plan_count (ctxs s d)"
  "sources (ctxs (init_cell c t extra a s) d) = sources (ctxs s d)"
  "cycle_sources (ctxs (init_cell c t extra a s) d) = cycle_sources (ctxs s d)"
  "bump (ctxs (init_cell c t extra a s) d) = bump (ctxs s d)"
  "free_cells (ctxs (init_cell c t extra a s) d) = free_cells (ctxs s d)"
  by (simp_all add: init_cell_def cell_at_def live_def rc_value_context_def ctxs_upd_ctx)

lemma blank_simps:
  "set (payload_edges (blank t) []) \<subseteq> {HNull}" "set (symbol_slots (blank t)) \<subseteq> {HNull}"
  "(case blank t of VVector xs b \<Rightarrow> b | _ \<Rightarrow> False) = False"
  by (cases t; simp)+

lemma type_blank: "t \<noteq> RC_NIL \<Longrightarrow> type_of_payload (blank t) = t"
  by (cases t) simp_all

lemma view_init_cell:
  assumes "\<not> live s a"
  shows "view (init_cell c t extra a s) = g_new a 1 (payload_edges (blank t) [] @ symbol_slots (blank t)) (view s)"
proof -
  let ?s = "init_cell c t extra a s"
  have "holds ?s b = (if b = a then payload_edges (blank t) [] @ symbol_slots (blank t) else holds s b)" for b
  proof (cases "b = a")
    case True
    then show ?thesis by (simp add: holds_def edges_def plan_edge_def init_cell_simps new_header_def)
  next
    case False
    then show ?thesis using holds_cong [of ?s b s] plan_of_init_cell [OF assms] by (simp add: init_cell_simps)
  qed
  then show ?thesis by (auto simp: view_def g_new_def init_cell_simps new_header_def)
qed

lemma rc_ok_init_cell:
  assumes ok: "rc_ok s R W D" and a: "\<not> live s a" "placed s a (rc_value_context s a) (cell_bytes t)"
    "\<And>d k. a \<notin> set (free_cells (ctxs s d) k)" and t: "t \<noteq> RC_NIL"
  shows "rc_ok (init_cell c t extra a s) (add_mset (HRef a) R) W D"
proof -
  let ?s = "init_cell c t extra a s"
  note i = init_cell_simps [of c t extra a s]
  have dead: "cell_at s a = free_cell" by (rule cell_at_dead [OF a(1)])
  have hp: "has_plan (cell_at ?s b) = has_plan (cell_at s b)" for b
    by (simp add: i dead new_header_def free_cell_def)
  have ty: "type_of_payload (load (cell_at ?s b)) = type_of_payload (load (cell_at s b))" if "has_plan (cell_at s b)" for b
    using that by (auto simp: i dead free_cell_def)
  have "plans_wf ?s" by (rule plans_wf_cong [OF rc_okD(2) [OF ok]]) (simp_all add: i(7-14) hp ty)
  moreover have "is_source ?s b = is_source s b" for b
    using blank_simps(3) [of t] by (simp add: is_source_def i dead new_header_def free_cell_def)
  then have "sources_wf ?s" by (intro sources_wf_cong [OF rc_okD(3) [OF ok]]) (simp_all add: i)
  moreover have "symbols_ok ?s"
    using rc_okD(5) [OF ok] blank_simps(2) [of t] unfolding symbols_ok_def i(1) by (auto simp: new_header_def)
  moreover have "alloc_wf ?s"
  proof -
    note aw = rc_okD(4) [OF ok]
    have pl: "placed ?s b d n = placed s b d n" for b d n by (rule placed_same) (rule i)
    have "placed s b (rc_value_context s b) (cell_bytes (type_of_payload (load (cell_at ?s b))))" if "live ?s b" for b
      using that a(2) alloc_wfD(6) [OF aw, of b] type_blank [OF t] by (auto simp: i new_header_def)
    moreover have "\<not> live ?s b \<and> placed s b d (class_bytes k)" if "b \<in> set (free_cells (ctxs s d) k)" for b d k
      using alloc_wfD(5) [OF aw that] that a(3) by (auto simp: i)
    ultimately show ?thesis
      using alloc_wfD(1-4) [OF aw] unfolding alloc_wf_def i(3-7,13,14) pl by blast
  qed
  moreover have "counts_ok (view ?s) (add_mset (HRef a) R) W D"
    unfolding view_init_cell [OF a(1)]
  proof (rule counts_ok_new)
    have "set (payload_edges (blank t) [] @ symbol_slots (blank t)) \<subseteq> {HNull}" using blank_simps(1,2) [of t] by simp
    from counts_ok_nulls [OF this] rc_okD(6) [OF ok]
    show "counts_ok (view s) (mset (payload_edges (blank t) [] @ symbol_slots (blank t)) + R) W D" by blast
  qed (use a(1) in \<open>simp_all add: live_fmdom\<close>)
  ultimately show ?thesis using rc_okD(1) [OF ok] by (simp add: rc_ok_def i)
qed

lemma heap_ok_allocate:
  assumes ok: "heap_ok s R" and c: "c < next_ctx s" and t: "t \<noteq> RC_NIL" and e: "allocate c t extra s = (v, s')"
  shows "v = HNull \<and> heap_ok s' R \<and> same_cells s s' \<or>
    (\<exists>a u. v = HRef a \<and> \<not> live s a \<and> same_cells s u \<and> s' = init_cell c t extra a u \<and> c \<noteq> 0 \<and>
       rc_value_context s' a = c \<and> heap_ok s' (add_mset (HRef a) R))"
proof (cases "c = 0 \<or> extra > SIZE_MAX - RC_VALUE_BYTES")
  case True
  with e have "v = HNull" "s' = rc_error c ''allocation size overflow'' s" by (auto simp: allocate_def rc_fail_def)
  then show ?thesis using heap_ok_same_heap [OF ok same_heap_rc_error] same_heap_rc_error by auto
next
  case False
  note aw = rc_okD(4) [OF ok [unfolded heap_ok_def]]
  obtain r u where tc: "take_cell c t s = (r, u)" by fastforce
  have rdy: "cell_ready s u c (cell_bytes t) r" using take_cell_ready [OF aw _ c, of t] False tc by simp
  then have u: "rc_ok u R [] {}" using rc_ok_same_cells [OF ok [unfolded heap_ok_def]] by (simp add: cell_ready_def)
  show ?thesis
  proof (cases r)
    case None
    with e False tc have "v = HNull" "s' = rc_error c ''out of memory'' u" by (auto simp: allocate_def rc_fail_def)
    moreover have "same_cells s (rc_error c ''out of memory'' u)"
      using rdy same_cells_trans [OF _ same_cells_rc_error] by (simp add: cell_ready_def)
    ultimately show ?thesis using rc_ok_same_heap [OF u same_heap_rc_error] by (simp add: heap_ok_def)
  next
    case (Some a)
    with rdy have a: "\<not> live s a" "placed u a c (cell_bytes t)" "same_cells s u" "\<And>d k. a \<notin> set (free_cells (ctxs u d) k)"
      by (auto simp: cell_ready_def)
    note cx = placed_context [OF a(2)]
    have "\<not> live u a" using a(1) same_cellsD(5) [OF a(3)] by simp
    from rc_ok_init_cell [OF u this, of t c extra] a cx t
    have "heap_ok (init_cell c t extra a u) (add_mset (HRef a) R)" by (simp add: heap_ok_def)
    moreover have "v = HRef a" "s' = init_cell c t extra a u" using e False tc Some by (auto simp: allocate_def)
    ultimately show ?thesis using a cx False by (auto simp: init_cell_simps)
  qed
qed

end
