(* ===== verification/Frame.thy ===== *)
theory Frame
  imports Allocation
begin

text \<open>
  What an operation may not touch. \<open>preserves R s s'\<close> says that every cell reachable from the
  owners \<open>R\<close> keeps its contents; retaining, releasing and allocating all have this property for
  whatever their callers' other owners are. \<open>heap_ok_write\<close> is the rule for a constructor or
  mutator that stores a payload: the handles stored were owned, those overwritten are owned
  afterwards. The locale \<open>ownership\<close> is the interface the rest of the runtime uses.
\<close>

subsection \<open>Contexts outside the heap\<close>

definition ctx_core :: "ctx \<Rightarrow> ctx" where
  \<comment> \<open>without what allocation, release, collection and error reporting write\<close>
  "ctx_core x =
     (heap_fields_cleared x)\<lparr>pages := [], bump := (\<lambda>_. None), error := None, error_active := False,
       since_collection := 0, walk_capacity := 0, gc_capacity := 0\<rparr>"

definition same_core :: "mem \<Rightarrow> mem \<Rightarrow> bool" where
  "same_core s s' \<longleftrightarrow> next_ctx s' = next_ctx s \<and> (\<forall>c. ctx_core (ctxs s' c) = ctx_core (ctxs s c))"

lemma same_core_refl [simp]: "same_core s s"
  by (simp add: same_core_def)

lemma same_core_trans: "same_core s t \<Longrightarrow> same_core t u \<Longrightarrow> same_core s u"
  by (simp add: same_core_def)

lemma same_core_upd_ctx: "(\<And>x. ctx_core (f x) = ctx_core x) \<Longrightarrow> same_core s (upd_ctx c f s)"
  by (simp add: same_core_def ctxs_upd_ctx)

lemma same_core_upd_cell [simp]: "same_core s (upd_cell a f s)"
  by (simp add: same_core_def)

lemma same_core_library_call [simp]: "same_core s (snd (library_call s))"
  by (simp add: same_core_def)

lemma ctx_core_heap_fields: "same_but_heap_fields x y \<Longrightarrow> ctx_core y = ctx_core x"
  by (simp add: same_but_heap_fields_def ctx_core_def)

lemma same_core_shrinks: "shrinks s s' \<Longrightarrow> same_core s s'"
  using shrinksD(3,4) ctx_core_heap_fields unfolding same_core_def by metis

lemma same_core_rc_error [simp]: "same_core s (rc_error c msg s)"
proof -
  have "ctx_core (x\<lparr>error_active := b\<rparr>) = ctx_core x" "ctx_core (x\<lparr>error := m\<rparr>) = ctx_core x" for x b m
    by (simp_all add: ctx_core_def heap_fields_cleared_def)
  then show ?thesis by (auto simp: rc_error_def Let_def case_prod_beta same_core_def ctxs_upd_ctx)
qed

lemma ctx_core_pages: "ctx_core (x\<lparr>pages := [], bump := (\<lambda>_. None)\<rparr>) = ctx_core x"
  by (simp add: ctx_core_def heap_fields_cleared_def)

lemma same_core_cell_ready: "cell_ready s s' c b r \<Longrightarrow> same_core s s'"
proof -
  assume rdy: "cell_ready s s' c b r"
  have "ctx_core (ctxs s' d) = ctx_core (ctxs s d)" for d
  proof -
    have "same_but_heap_fields ((ctxs s d)\<lparr>pages := [], bump := (\<lambda>_. None)\<rparr>)
        ((ctxs s' d)\<lparr>pages := [], bump := (\<lambda>_. None)\<rparr>)" using rdy unfolding cell_ready_def by blast
    from ctx_core_heap_fields [OF this] show ?thesis unfolding ctx_core_pages .
  qed
  moreover have "next_ctx s' = next_ctx s" using rdy by (simp add: cell_ready_def same_cells_def)
  ultimately show ?thesis by (simp add: same_core_def)
qed

lemma same_core_init_cell: "same_core s (init_cell c t extra a s)"
  by (simp add: same_core_def init_cell_def ctxs_upd_ctx ctx_core_def heap_fields_cleared_def)

lemma same_coreD:
  assumes "same_core s s'"
  shows "symbols (ctxs s' c) = symbols (ctxs s c)" "symbol_count (ctxs s' c) = symbol_count (ctxs s c)"
    "true_symbol (ctxs s' c) = true_symbol (ctxs s c)" "false_symbol (ctxs s' c) = false_symbol (ctxs s c)"
    "static_closures (ctxs s' c) = static_closures (ctxs s c)" "static_count (ctxs s' c) = static_count (ctxs s c)"
    "builtin_roots (ctxs s' c) = builtin_roots (ctxs s c)" "retired_functions (ctxs s' c) = retired_functions (ctxs s c)"
    "call_depth (ctxs s' c) = call_depth (ctxs s c)" "acyclic (ctxs s' c) = acyclic (ctxs s c)"
    "destroying (ctxs s' c) = destroying (ctxs s c)" "next_ctx s' = next_ctx s"
proof -
  have e: "ctx_core (ctxs s' c) = ctx_core (ctxs s c)" using assms by (simp add: same_core_def)
  have p: "symbols (ctx_core x) = symbols x" "symbol_count (ctx_core x) = symbol_count x"
    "true_symbol (ctx_core x) = true_symbol x" "false_symbol (ctx_core x) = false_symbol x"
    "static_closures (ctx_core x) = static_closures x" "static_count (ctx_core x) = static_count x"
    "builtin_roots (ctx_core x) = builtin_roots x" "retired_functions (ctx_core x) = retired_functions x"
    "call_depth (ctx_core x) = call_depth x" "acyclic (ctx_core x) = acyclic x" "destroying (ctx_core x) = destroying x" for x
    by (simp_all add: ctx_core_def heap_fields_cleared_def)
  show "symbols (ctxs s' c) = symbols (ctxs s c)" by (rule arg_cong [OF e, of symbols, unfolded p])
  show "symbol_count (ctxs s' c) = symbol_count (ctxs s c)" by (rule arg_cong [OF e, of symbol_count, unfolded p])
  show "true_symbol (ctxs s' c) = true_symbol (ctxs s c)" by (rule arg_cong [OF e, of true_symbol, unfolded p])
  show "false_symbol (ctxs s' c) = false_symbol (ctxs s c)" by (rule arg_cong [OF e, of false_symbol, unfolded p])
  show "static_closures (ctxs s' c) = static_closures (ctxs s c)" by (rule arg_cong [OF e, of static_closures, unfolded p])
  show "static_count (ctxs s' c) = static_count (ctxs s c)" by (rule arg_cong [OF e, of static_count, unfolded p])
  show "builtin_roots (ctxs s' c) = builtin_roots (ctxs s c)" by (rule arg_cong [OF e, of builtin_roots, unfolded p])
  show "retired_functions (ctxs s' c) = retired_functions (ctxs s c)" by (rule arg_cong [OF e, of retired_functions, unfolded p])
  show "call_depth (ctxs s' c) = call_depth (ctxs s c)" by (rule arg_cong [OF e, of call_depth, unfolded p])
  show "acyclic (ctxs s' c) = acyclic (ctxs s c)" by (rule arg_cong [OF e, of acyclic, unfolded p])
  show "destroying (ctxs s' c) = destroying (ctxs s c)" by (rule arg_cong [OF e, of destroying, unfolded p])
  show "next_ctx s' = next_ctx s" using assms by (simp add: same_core_def)
qed

subsection \<open>Preservation\<close>

definition same_contents :: "cell \<Rightarrow> cell \<Rightarrow> bool" where
  \<comment> \<open>all but the count and the scratch state of graph walks\<close>
  "same_contents x y \<longleftrightarrow> load y = load x \<and> has_plan y = has_plan x \<and> reaches_vector y = reaches_vector x \<and>
     builtin_slot y = builtin_slot x \<and> returns_second y = returns_second x"

lemma same_contents_refl [simp]: "same_contents x x"
  by (simp add: same_contents_def)

lemma same_contents_trans: "same_contents x y \<Longrightarrow> same_contents y z \<Longrightarrow> same_contents x z"
  by (simp add: same_contents_def)

lemma same_but_refs_contents: "same_but_refs x y \<Longrightarrow> same_contents x y"
  by (simp add: same_but_refs_def same_contents_def)

definition cell_kept :: "mem \<Rightarrow> mem \<Rightarrow> addr \<Rightarrow> bool" where
  "cell_kept s s' a \<longleftrightarrow> live s' a \<and> same_contents (cell_at s a) (cell_at s' a) \<and>
     plan_of s' a = plan_of s a \<and> rc_value_context s' a = rc_value_context s a \<and>
     (refs (cell_at s a) = RC_IMMORTAL \<longrightarrow> refs (cell_at s' a) = RC_IMMORTAL)"

definition preserves :: "handle multiset \<Rightarrow> mem \<Rightarrow> mem \<Rightarrow> bool" where
  "preserves R s s' \<longleftrightarrow> same_core s s' \<and> (\<forall>a\<in>owned (view s) R. cell_kept s s' a)"

definition grows :: "mem \<Rightarrow> mem \<Rightarrow> bool" where
  \<comment> \<open>no live cell is lost or changed\<close>
  "grows s s' \<longleftrightarrow> same_core s s' \<and> (\<forall>a. live s a \<longrightarrow> cell_kept s s' a)"

lemma cell_kept_refl: "live s a \<Longrightarrow> cell_kept s s a"
  by (simp add: cell_kept_def)

lemma cell_kept_trans: "cell_kept s t a \<Longrightarrow> cell_kept t u a \<Longrightarrow> cell_kept s u a"
  unfolding cell_kept_def by (auto intro: same_contents_trans)

lemma cell_kept_load:
  assumes "cell_kept s s' a"
  shows "load (cell_at s' a) = load (cell_at s a)" "has_plan (cell_at s' a) = has_plan (cell_at s a)"
    "reaches_vector (cell_at s' a) = reaches_vector (cell_at s a)" "holds s' a = holds s a"
    "plan_edge s' a = plan_edge s a" "edges s' a = edges s a"
proof -
  have e: "load (cell_at s' a) = load (cell_at s a)" "has_plan (cell_at s' a) = has_plan (cell_at s a)"
    "reaches_vector (cell_at s' a) = reaches_vector (cell_at s a)" "plan_of s' a = plan_of s a"
    using assms by (simp_all add: cell_kept_def same_contents_def)
  from e show "load (cell_at s' a) = load (cell_at s a)" "has_plan (cell_at s' a) = has_plan (cell_at s a)"
    "reaches_vector (cell_at s' a) = reaches_vector (cell_at s a)" by simp_all
  show "holds s' a = holds s a" "plan_edge s' a = plan_edge s a" "edges s' a = edges s a"
    by (rule holds_cong plan_edge_cong edges_cong, (rule e)+)+
qed

lemma grows_refl [simp]: "grows s s"
  by (simp add: grows_def cell_kept_refl)

lemma grows_trans:
  assumes "grows s t" "grows t u"
  shows "grows s u"
proof -
  have "cell_kept s u a" if "live s a" for a
  proof -
    have 1: "cell_kept s t a" using assms(1) that by (simp add: grows_def)
    then have "live t a" by (simp add: cell_kept_def)
    with assms(2) have "cell_kept t u a" by (simp add: grows_def)
    with 1 show ?thesis by (rule cell_kept_trans)
  qed
  with assms show ?thesis by (auto simp: grows_def intro: same_core_trans)
qed

lemma owned_mono:
  assumes x: "x \<in> owned (view s) R" and k: "\<And>a. a \<in> owned (view s) R \<Longrightarrow> cell_kept s s' a"
  shows "x \<in> owned (view s') R"
  using x
proof induction
  case (root x)
  then show ?case by (rule owned.root)
next
  case (immortal x)
  then have "cell_kept s s' x" using k owned.immortal by blast
  with immortal show ?case by (intro owned.immortal) (simp_all add: cell_kept_def live_fmdom)
next
  case (edge b x)
  from cell_kept_load(4) [OF k [OF edge(1)]] edge(2) have "HRef x \<in> set (out (view s') b)" by simp
  with edge.IH show ?case by (rule owned.edge)
qed

lemma preserves_refl: "heap_ok s R \<Longrightarrow> preserves R s s"
  using owned_live [OF rc_okD(6) [of s R "[]" "{}"]]
  by (auto simp: preserves_def heap_ok_def live_fmdom intro!: cell_kept_refl)

lemma preserves_trans:
  assumes "preserves R s t" "preserves R t u"
  shows "preserves R s u"
proof -
  have "cell_kept s u a" if a: "a \<in> owned (view s) R" for a
  proof -
    have "a \<in> owned (view t) R" by (rule owned_mono [OF a]) (use assms(1) in \<open>simp add: preserves_def\<close>)
    with assms a show ?thesis unfolding preserves_def by (blast intro: cell_kept_trans)
  qed
  with assms show ?thesis by (auto simp: preserves_def intro: same_core_trans)
qed

lemma owned_subset: "R \<subseteq># R' \<Longrightarrow> owned g R \<subseteq> owned g R'"
proof
  fix x assume sub: "R \<subseteq># R'" and "x \<in> owned g R"
  from this(2) show "x \<in> owned g R'"
    by induction (use sub in \<open>auto intro: owned.intros dest: mset_subset_eqD\<close>)
qed

lemma preserves_subset: "preserves R' s s' \<Longrightarrow> R \<subseteq># R' \<Longrightarrow> preserves R s s'"
  using owned_subset unfolding preserves_def by blast

lemma grows_preserves:
  assumes "grows s s'" "heap_ok s R"
  shows "preserves R s s'"
proof -
  have "live s a" if "a \<in> owned (view s) R" for a
    using owned_live [OF rc_okD(6) [OF assms(2) [unfolded heap_ok_def]] that] by (simp add: live_fmdom)
  with assms(1) show ?thesis by (simp add: grows_def preserves_def)
qed

lemma shrinks_preserves:
  assumes s: "shrinks s s'" and ok: "heap_ok s' R"
  shows "preserves R s s'"
  unfolding preserves_def
proof (intro conjI ballI)
  show "same_core s s'" by (rule same_core_shrinks [OF s])
  fix a assume "a \<in> owned (view s) R"
  from owned_survives [OF s rc_okD(6) [OF ok [unfolded heap_ok_def]] this] have a: "live s' a" .
  note d = shrinksD(1) [OF s a]
  have "refs (cell_at s' a) = RC_IMMORTAL" if "refs (cell_at s a) = RC_IMMORTAL"
    using shrinksD(2) [OF s _ that] d by blast
  with a d shrinks_context [OF s] show "cell_kept s s' a" by (simp add: cell_kept_def same_but_refs_contents)
qed

lemma preserves_release:
  assumes "heap_ok s (add_mset v R)"
  shows "preserves R s (rc_release v s)"
  using shrinks_preserves [OF shrinks_release heap_ok_release] assms by (simp add: heap_ok_def)

lemma grows_retain: "grows s (rc_retain v s)"
proof (cases v)
  case (HRef a)
  show ?thesis
  proof (cases "is_counted s v")
    case True
    let ?s = "upd_cell a (\<lambda>x. x\<lparr>refs := refs x + 1\<rparr>) s"
    have "same_contents (cell_at s b) (cell_at ?s b)" for b by (simp add: cell_at_upd_cell same_contents_def)
    moreover from this have "plan_of ?s b = plan_of s b" for b by (intro plan_of_cong) (simp_all add: same_contents_def)
    moreover have "refs (cell_at s b) = RC_IMMORTAL \<longrightarrow> refs (cell_at ?s b) = RC_IMMORTAL" for b
      using True HRef by (auto simp: cell_at_upd_cell)
    ultimately show ?thesis using True HRef by (simp add: grows_def cell_kept_def)
  qed (use HRef in simp)
qed simp_all

lemma same_cells_kept: "same_cells s s' \<Longrightarrow> live s a \<Longrightarrow> cell_kept s s' a"
  using same_cellsD [of s s'] plan_of_same_cells [of s s'] by (simp add: cell_kept_def)

lemma grows_same_cells: "same_cells s s' \<Longrightarrow> same_core s s' \<Longrightarrow> grows s s'"
  by (simp add: grows_def same_cells_kept)

lemma grows_rc_error [simp]: "grows s (rc_error c msg s)"
  by (rule grows_same_cells) simp_all

lemma grows_library_call [simp]: "grows s (snd (library_call s))"
  by (rule grows_same_cells) simp_all

lemma grows_init_cell: "\<not> live s a \<Longrightarrow> grows s (init_cell c t extra a s)"
  by (auto simp: grows_def same_core_init_cell cell_kept_def init_cell_simps plan_of_init_cell)

lemma grows_allocate:
  assumes ok: "heap_ok s R" and c: "c < next_ctx s" and e: "allocate c t extra s = (v, s')"
  shows "grows s s'"
proof (cases "c = 0 \<or> extra > SIZE_MAX - RC_VALUE_BYTES")
  case True
  with e show ?thesis by (auto simp: allocate_def rc_fail_def)
next
  case False
  obtain r u where tc: "take_cell c t s = (r, u)" by fastforce
  have rdy: "cell_ready s u c (cell_bytes t) r"
    using take_cell_ready [OF rc_okD(4) [OF ok [unfolded heap_ok_def]] _ c, of t] False tc by simp
  then have u: "grows s u" by (intro grows_same_cells same_core_cell_ready) (auto simp: cell_ready_def)
  show ?thesis
  proof (cases r)
    case None
    with e False tc have "s' = rc_error c ''out of memory'' u" by (auto simp: allocate_def rc_fail_def)
    with u show ?thesis by (auto intro: grows_trans)
  next
    case (Some a)
    with rdy have "\<not> live u a" by (auto simp: cell_ready_def same_cellsD(5))
    moreover have "s' = init_cell c t extra a u" using e False tc Some by (auto simp: allocate_def)
    ultimately show ?thesis using grows_trans [OF u grows_init_cell] by simp
  qed
qed

subsection \<open>Writing a payload\<close>

definition payload_slots :: "payload \<Rightarrow> handle list" where
  "payload_slots p = payload_edges p [] @ symbol_slots p"

fun source_flag :: "payload \<Rightarrow> bool" where
  "source_flag (VVector _ b) = b"
| "source_flag _ = False"

lemma is_source_flag: "is_source s a = source_flag (load (cell_at s a))"
  by (cases "load (cell_at s a)") (simp_all add: is_source_def)

lemma mset_payload_edges:
  "mset (payload_edges p pl) = mset (payload_edges p []) + (if type_of_payload p = RC_PAIR then mset pl else {#})"
  by (cases p) simp_all

text \<open>The old and new slots of the cell and the handles owned before (\<open>X\<close>) and after (\<open>Y\<close>) balance.\<close>

lemma heap_ok_exchange:
  assumes ok: "heap_ok s (X + R)" and a: "live s a"
    and bal: "mset (payload_slots (load (cell_at s a))) + X = mset (payload_slots p) + Y"
    and ty: "type_of_payload p = type_of_payload (load (cell_at s a))"
    and f: "refs (f (cell_at s a)) = refs (cell_at s a)" "has_plan (f (cell_at s a)) = has_plan (cell_at s a)"
      "load (f (cell_at s a)) = p"
    and src: "source_flag p = source_flag (load (cell_at s a))"
    and sym: "refs (cell_at s a) = RC_IMMORTAL \<or> set (symbol_slots p) \<subseteq> {HNull}"
  shows "heap_ok (upd_cell a f s) (Y + R)"
proof -
  let ?s = "upd_cell a f s" and ?old = "load (cell_at s a)"
  note rc = ok [unfolded heap_ok_def]
  have at: "cell_at ?s b = (if b = a then f (cell_at s a) else cell_at s b)" for b using a by (simp add: cell_at_upd_cell)
  have hp: "has_plan (cell_at ?s b) = has_plan (cell_at s b)" for b by (simp add: at f)
  have tyb: "type_of_payload (load (cell_at ?s b)) = type_of_payload (load (cell_at s b))" for b by (simp add: at f ty)
  have pe: "plan_edge ?s b = plan_edge s b" for b by (intro plan_edge_cong plan_of_cong) (simp_all add: hp)
  have "plans_wf ?s" by (rule plans_wf_cong [OF rc_okD(2) [OF rc]]) (simp_all add: hp tyb)
  moreover have "sources_wf ?s"
    by (rule sources_wf_cong [OF rc_okD(3) [OF rc]]) (simp_all add: is_source_flag at f src)
  moreover have "alloc_wf ?s" by (rule alloc_wf_cong [OF rc_okD(4) [OF rc]]) (simp_all add: tyb)
  moreover have "symbols_ok ?s" using rc_okD(5) [OF rc] sym by (auto simp: symbols_ok_def at f)
  moreover have "counts_ok (view ?s) (Y + R) [] {}"
  proof -
    have g: "view ?s = g_out a (holds ?s a) (view s)"
    proof -
      have "(cnt (view s))(a := refs (f (cell_at s a))) = cnt (view s)" by (auto simp: f)
      then show ?thesis unfolding view_upd_cell [OF a, of f] by (simp add: g_out_def)
    qed
    let ?pl = "if type_of_payload p = RC_PAIR then mset (plan_edge s a) else {#}"
    have new: "mset (holds ?s a) = mset (payload_slots p) + ?pl"
      using mset_payload_edges [of p "plan_edge s a"] by (simp add: holds_def edges_def pe at f payload_slots_def)
    have old: "mset (holds s a) = mset (payload_slots ?old) + ?pl"
      using mset_payload_edges [of ?old "plan_edge s a"] by (simp add: holds_def edges_def payload_slots_def ty)
    have an: "a \<in> nodes (view s) - {}" using a by (simp add: live_fmdom)
    have "held (view ?s) {a} = held (view s) {a}" by (rule held_cong) (auto simp: g g_out_def)
    moreover have "held (view ?s) {} = mset (holds ?s a) + held (view ?s) {a}"
      using held_remove [of "view ?s" a "{}"] an by simp
    moreover have "held (view s) {} = mset (holds s a) + held (view s) {a}"
      using held_remove [OF _ an] by simp
    ultimately have "held (view ?s) {} + (Y + R) + mset (payload_slots ?old) =
        held (view s) {} + R + (mset (payload_slots p) + Y)" by (simp add: new old ac_simps)
    also have "\<dots> = held (view s) {} + (X + R) + mset (payload_slots ?old)" unfolding bal [symmetric] by simp
    finally have "held (view ?s) {} + (Y + R) = held (view s) {} + (X + R)" by simp
    moreover have "nodes (view ?s) = nodes (view s)" "cnt (view ?s) = cnt (view s)" by (simp_all add: g g_out_def)
    ultimately show ?thesis using rc_okD(6) [OF rc] unfolding counts_ok_def by (metis (no_types))
  qed
  ultimately show ?thesis using rc_okD(1) [OF rc] a by (simp add: heap_ok_def rc_ok_def)
qed

lemma heap_ok_write:
  assumes ok: "heap_ok s (mset (payload_slots p) + R)" and a: "live s a"
    and ty: "type_of_payload p = type_of_payload (load (cell_at s a))"
    and f: "refs (f (cell_at s a)) = refs (cell_at s a)" "has_plan (f (cell_at s a)) = has_plan (cell_at s a)"
      "load (f (cell_at s a)) = p"
    and src: "source_flag p = source_flag (load (cell_at s a))"
    and sym: "refs (cell_at s a) = RC_IMMORTAL \<or> set (symbol_slots p) \<subseteq> {HNull}"
  shows "heap_ok (upd_cell a f s) (mset (payload_slots (load (cell_at s a))) + R)"
  by (rule heap_ok_exchange [where s = s and a = a and p = p and f = f and X = "mset (payload_slots p)", OF ok a _ ty f src sym]) simp

text \<open>A constructor fills in the blank cell that \<open>allocate\<close> returned.\<close>

lemma heap_ok_fill:
  assumes ok: "heap_ok s (mset (payload_slots p) + R)" and a: "live s a"
    and blank: "load (cell_at s a) = blank t" "type_of_payload p = t" "t \<noteq> RC_NIL"
    and f: "refs (f (cell_at s a)) = refs (cell_at s a)" "has_plan (f (cell_at s a)) = has_plan (cell_at s a)"
      "load (f (cell_at s a)) = p"
    and src: "\<not> source_flag p" and sym: "set (symbol_slots p) \<subseteq> {HNull}"
  shows "heap_ok (upd_cell a f s) R"
proof -
  have "source_flag (blank t) = False" by (cases t) simp_all
  with heap_ok_write [OF ok a, of f] blank f src sym type_blank [of t]
  have "heap_ok (upd_cell a f s) (mset (payload_slots (blank t)) + R)" by simp
  moreover have "set (payload_slots (blank t)) \<subseteq> {HNull}" using blank_simps(1,2) [of t] by (simp add: payload_slots_def)
  ultimately show ?thesis using counts_ok_nulls by (simp add: heap_ok_def rc_ok_def)
qed

lemma heap_ok_flags:
  assumes "heap_ok s R"
    and "\<And>x. refs (f x) = refs x \<and> has_plan (f x) = has_plan x \<and> load (f x) = load x" "live s a"
  shows "heap_ok (upd_cell a f s) R"
  by (rule heap_ok_same_heap [OF assms(1)]) (use assms(2,3) in \<open>auto simp: same_heap_def cell_at_upd_cell\<close>)

lemma cell_kept_upd_other:
  assumes "b \<noteq> a" "live s b"
  shows "cell_kept s (upd_cell a f s) b"
proof -
  have "cell_at (upd_cell a f s) b = cell_at s b" using assms by (simp add: cell_at_upd_cell)
  moreover from this have "plan_of (upd_cell a f s) b = plan_of s b" by (intro plan_of_cong) simp_all
  ultimately show ?thesis using assms by (simp add: cell_kept_def)
qed

text \<open>Filling a cell that nobody else can reach yet.\<close>

lemma preserves_fill:
  assumes ok: "heap_ok s R" and a: "\<not> live s a" and g: "grows s s'"
  shows "preserves R s (upd_cell a f s')"
  unfolding preserves_def
proof (intro conjI ballI)
  show "same_core s (upd_cell a f s')"
    by (rule same_core_trans [OF _ same_core_upd_cell]) (use g in \<open>simp add: grows_def\<close>)
  fix b assume "b \<in> owned (view s) R"
  then have b: "live s b" using owned_live [OF rc_okD(6) [OF ok [unfolded heap_ok_def]]] by (simp add: live_fmdom)
  then have k: "cell_kept s s' b" using g by (simp add: grows_def)
  moreover have "b \<noteq> a" using a b by auto
  ultimately show "cell_kept s (upd_cell a f s') b"
    using cell_kept_trans [OF k cell_kept_upd_other] by (simp add: cell_kept_def)
qed

subsection \<open>The interface of ownership\<close>

definition valid :: "mem \<Rightarrow> handle \<Rightarrow> bool" where
  \<comment> \<open>the handle may be read: not a freed cell\<close>
  "valid s v \<longleftrightarrow> (\<forall>a. v = HRef a \<longrightarrow> live s a)"

lemma valid_owned: "heap_ok s R \<Longrightarrow> v \<in># R \<Longrightarrow> valid s v"
  using heap_ok_owned_live by (auto simp: valid_def)

lemma valid_grows: "valid s v \<Longrightarrow> grows s s' \<Longrightarrow> valid s' v"
  by (auto simp: valid_def grows_def cell_kept_def)

locale ownership =
  fixes inv :: "'s \<Rightarrow> handle multiset \<Rightarrow> bool"
    and retain :: "handle \<Rightarrow> 's \<Rightarrow> 's"
    and release :: "handle \<Rightarrow> 's \<Rightarrow> 's"
    and keeps :: "handle multiset \<Rightarrow> 's \<Rightarrow> 's \<Rightarrow> bool"
    and readable :: "'s \<Rightarrow> handle \<Rightarrow> bool"
  assumes release_inv: "inv s (add_mset v R) \<Longrightarrow> inv (release v s) R"
    and release_keeps: "inv s (add_mset v R) \<Longrightarrow> keeps R s (release v s)"
    and retain_inv: "inv s R \<Longrightarrow> readable s v \<Longrightarrow> inv (retain v s) (add_mset v R)"
    and retain_keeps: "inv s R \<Longrightarrow> keeps R s (retain v s)"
    and retain_readable: "readable s w \<Longrightarrow> readable (retain v s) w"
    and owned_readable: "inv s R \<Longrightarrow> v \<in># R \<Longrightarrow> readable s v"
    and keeps_refl: "inv s R \<Longrightarrow> keeps R s s"
    and keeps_trans: "keeps R s t \<Longrightarrow> keeps R t u \<Longrightarrow> keeps R s u"
    and keeps_weaken: "keeps (add_mset v R) s t \<Longrightarrow> keeps R s t"
begin

lemma release_list:
  "inv s (mset vs + R) \<Longrightarrow> inv (fold release vs s) R \<and> keeps R s (fold release vs s)"
proof (induction vs arbitrary: s)
  case Nil
  then show ?case by (simp add: keeps_refl)
next
  case (Cons v vs)
  then have i: "inv s (add_mset v (mset vs + R))" by simp
  note r = release_inv [OF i] and k = release_keeps [OF i]
  have w: "keeps (mset ws + R) t u \<Longrightarrow> keeps R t u" for ws t u
    by (induction ws) (auto dest: keeps_weaken)
  have "keeps R s (release v s)" by (rule w [OF k])
  with Cons.IH [OF r] show ?case by (auto intro: keeps_trans)
qed

lemma retain_list:
  "inv s R \<Longrightarrow> \<forall>v\<in>set vs. readable s v \<Longrightarrow> inv (fold retain vs s) (mset vs + R) \<and> keeps R s (fold retain vs s)"
proof (induction vs arbitrary: s R)
  case Nil
  then show ?case by (simp add: keeps_refl)
next
  case (Cons v vs)
  have i: "inv (retain v s) (add_mset v R)" by (rule retain_inv) (use Cons.prems in auto)
  have "\<forall>w\<in>set vs. readable (retain v s) w" using Cons.prems by (auto intro: retain_readable)
  from Cons.IH [OF i this] have "inv (fold retain vs (retain v s)) (mset vs + add_mset v R)"
    "keeps (add_mset v R) (retain v s) (fold retain vs (retain v s))" by auto
  then show ?case using retain_keeps [OF Cons.prems(1), of v] by (auto intro: keeps_trans dest: keeps_weaken)
qed

end

lemma preserves_weaken: "preserves (add_mset v R) s t \<Longrightarrow> preserves R s t"
  by (erule preserves_subset) (simp add: subset_mset.le_iff_add)

interpretation own: ownership heap_ok rc_retain rc_release preserves valid
proof
  show "heap_ok (rc_release v s) R" "preserves R s (rc_release v s)" if "heap_ok s (add_mset v R)" for s v R
    using that by (rule heap_ok_release preserves_release)+
  show "heap_ok (rc_retain v s) (add_mset v R)" if "heap_ok s R" "valid s v" for s v R
    by (rule heap_ok_retain [OF that(1)]) (use that(2) in \<open>simp add: valid_def\<close>)
  show "preserves R s (rc_retain v s)" if "heap_ok s R" for s v R by (rule grows_preserves [OF grows_retain that])
  show "valid (rc_retain v s) w" if "valid s w" for s v w using that grows_retain by (rule valid_grows)
qed (fact valid_owned preserves_refl preserves_trans preserves_weaken)+

lemma grows_retain_list: "grows s (fold rc_retain vs s)"
  by (induction vs arbitrary: s) (auto intro: grows_trans [OF grows_retain])

subsection \<open>Moving ownership\<close>

text \<open>\<open>moves s A s' B\<close>: in the step from \<open>s\<close> to \<open>s'\<close> the owned handles \<open>A\<close> are given up and \<open>B\<close> are
  owned instead, whatever else (\<open>R\<close>) is owned; nothing reachable from \<open>R\<close> changes.\<close>

definition moves :: "mem \<Rightarrow> handle multiset \<Rightarrow> mem \<Rightarrow> handle multiset \<Rightarrow> bool" where
  "moves s A s' B \<longleftrightarrow> (\<forall>R. heap_ok s (A + R) \<longrightarrow> heap_ok s' (B + R) \<and> preserves R s s')"

lemma movesI:
  assumes "\<And>R. heap_ok s (A + R) \<Longrightarrow> heap_ok s' (B + R)" "\<And>R. heap_ok s (A + R) \<Longrightarrow> preserves R s s'"
  shows "moves s A s' B"
  using assms by (simp add: moves_def)

lemma movesD:
  assumes "moves s A s' B" "heap_ok s (A + R)"
  shows "heap_ok s' (B + R)" "preserves R s s'"
  using assms by (auto simp: moves_def)

lemma moves_trans: "moves s A t B \<Longrightarrow> moves t B u C \<Longrightarrow> moves s A u C"
  unfolding moves_def by (blast intro: preserves_trans)

lemma moves_frame: "moves s A t B \<Longrightarrow> moves s (X + A) t (X + B)"
  unfolding moves_def by (metis add.assoc add.commute mset_subset_eq_add_left preserves_subset)

lemma moves_cong: "moves s A t B \<Longrightarrow> A' = A \<Longrightarrow> B' = B \<Longrightarrow> moves s A' t B'"
  by simp

lemma grows_moves:
  assumes "grows s t" "\<And>R. heap_ok s (A + R) \<Longrightarrow> heap_ok t (B + R)"
  shows "moves s A t B"
proof (rule movesI)
  fix R assume ok: "heap_ok s (A + R)"
  then show "heap_ok t (B + R)" by (rule assms(2))
  show "preserves R s t" by (rule preserves_subset [OF grows_preserves [OF assms(1) ok]]) simp
qed

lemma moves_growsI:
  assumes "\<And>R. heap_ok s (A + R) \<Longrightarrow> heap_ok t (B + R) \<and> grows s t"
  shows "moves s A t B"
  using assms by (metis grows_moves moves_def)

lemma moves_refl [simp]: "moves s A s A"
  by (rule grows_moves) simp_all

lemma moves_release: "moves s (add_mset v A) (rc_release v s) A"
  unfolding moves_def
  using own.release_inv own.release_keeps by (metis mset_subset_eq_add_right preserves_subset union_mset_add_mset_left)

lemma moves_release_list: "moves s (mset vs + A) (fold rc_release vs s) A"
proof (induction vs arbitrary: s)
  case (Cons v vs)
  have "moves s (add_mset v (mset vs + A)) (rc_release v s) (mset vs + A)" by (rule moves_release)
  from moves_trans [OF this Cons.IH] show ?case by simp
qed simp

lemma moves_retain:
  assumes "valid s v"
  shows "moves s A (rc_retain v s) (add_mset v A)"
  by (rule grows_moves [OF grows_retain]) (use own.retain_inv [OF _ assms] in simp)

lemma moves_retain_list:
  assumes "\<forall>v\<in>set vs. valid s v"
  shows "moves s A (fold rc_retain vs s) (mset vs + A)"
  by (rule grows_moves [OF grows_retain_list]) (use own.retain_list [OF _ assms] in \<open>simp only: add.assoc\<close>)

lemma same_heap_moves:
  assumes "same_heap s t" "grows s t"
  shows "moves s A t A"
  by (rule grows_moves [OF assms(2)]) (rule heap_ok_same_heap [OF _ assms(1)])

lemma moves_rc_error [simp]: "moves s A (rc_error c m s) A"
  by (rule same_heap_moves) simp_all

lemma heap_ok_null [simp]: "heap_ok s (add_mset HNull R) \<longleftrightarrow> heap_ok s R" "heap_ok s (add_mset HNil R) \<longleftrightarrow> heap_ok s R"
  "heap_ok s (add_mset (HImm w) R) \<longleftrightarrow> heap_ok s R"
  by (simp_all add: heap_ok_non_ref)

lemma moves_null [simp]: "moves s (add_mset HNull A) t B \<longleftrightarrow> moves s A t B" "moves s A t (add_mset HNull B) \<longleftrightarrow> moves s A t B"
  "moves s (add_mset HNil A) t B \<longleftrightarrow> moves s A t B" "moves s A t (add_mset HNil B) \<longleftrightarrow> moves s A t B"
  by (simp_all add: moves_def)

lemma same_heap_upd_stats [simp]: "same_heap s (upd_stats c f s)"
  unfolding upd_stats_def by (rule same_heap_upd_ctx) simp

lemma grows_upd_stats [simp]: "grows s (upd_stats c f s)"
proof (rule grows_same_cells)
  show "same_cells s (upd_stats c f s)"
    by (simp add: same_cells_def ctxs_upd_stats)
  show "same_core s (upd_stats c f s)"
    unfolding upd_stats_def by (rule same_core_upd_ctx) (simp add: ctx_core_def heap_fields_cleared_def)
qed

lemma moves_upd_stats [simp]: "moves s A (upd_stats c f s) A"
  by (rule same_heap_moves) simp_all

lemma moves_then_upd_stats: "moves s A t B \<Longrightarrow> moves s A (upd_stats c f t) B"
  by (rule moves_trans [OF _ moves_upd_stats])

lemma moves_then_error: "moves s A t B \<Longrightarrow> moves s A (rc_error c m t) B"
  by (rule moves_trans [OF _ moves_rc_error])

lemma moves_kept:
  assumes "moves s A t B" "heap_ok s (add_mset (HRef a) (A + R))"
  shows "cell_kept s t a"
proof -
  have "heap_ok s (A + add_mset (HRef a) R)" using assms(2) by simp
  from movesD(2) [OF assms(1) this] have "preserves (add_mset (HRef a) R) s t" .
  moreover have "a \<in> owned (view s) (add_mset (HRef a) R)" by (rule owned.root) simp
  ultimately show ?thesis by (simp add: preserves_def)
qed

subsection \<open>Constructors\<close>

text \<open>Allocate a cell, retain the handles \<open>vs\<close>, take over the handles \<open>ms\<close>, store the payload.\<close>

lemma construct:
  assumes ok: "heap_ok s (mset ms + R)" and c: "c < next_ctx s" and alloc: "allocate c t extra s = (HRef a, s1)"
    and p: "type_of_payload p = t" "t \<noteq> RC_NIL" "\<not> source_flag p" "set (symbol_slots p) \<subseteq> {HNull}"
    and slots: "mset (payload_slots p) = mset vs + mset ms" and vs: "\<forall>v\<in>set vs. valid s v"
    and f: "\<And>x. refs (f x) = refs x \<and> has_plan (f x) = has_plan x \<and> load (f x) = p"
  shows "heap_ok (upd_cell a f (fold rc_retain vs s1)) (add_mset (HRef a) R)"
    and "grows s (upd_cell a f (fold rc_retain vs s1))"
    and "\<not> live s a" "c \<noteq> 0" "rc_value_context (upd_cell a f (fold rc_retain vs s1)) a = c"
    and "load (cell_at (upd_cell a f (fold rc_retain vs s1)) a) = p"
    and "cell_at (upd_cell a f (fold rc_retain vs s1)) a = f (cell_at (fold rc_retain vs s1) a)"
proof -
  let ?s2 = "fold rc_retain vs s1"
  from heap_ok_allocate [OF ok c p(2) alloc] obtain u where u: "\<not> live s a" "same_cells s u" "s1 = init_cell c t extra a u"
    "c \<noteq> 0" "rc_value_context s1 a = c" "heap_ok s1 (add_mset (HRef a) (mset ms + R))" by auto
  have g1: "grows s s1" by (rule grows_allocate [OF ok c alloc])
  have g12: "grows s1 ?s2" by (rule grows_retain_list)
  have "\<forall>v\<in>set vs. valid s1 v" using vs valid_grows [OF _ g1] by blast
  from own.retain_list [OF u(6) this]
  have ok2: "heap_ok ?s2 (mset (payload_slots p) + add_mset (HRef a) R)" by (simp add: slots ac_simps)
  have l1: "live s1 a" "load (cell_at s1 a) = blank t" by (simp_all add: u(3) init_cell_simps new_header_def)
  with g12 have k: "cell_kept s1 ?s2 a" by (simp add: grows_def)
  then have l2: "live ?s2 a" "load (cell_at ?s2 a) = blank t" "rc_value_context ?s2 a = c"
    using l1 u(5) cell_kept_load(1) [OF k] by (simp_all add: cell_kept_def)
  show "heap_ok (upd_cell a f ?s2) (add_mset (HRef a) R)"
    using heap_ok_fill [OF ok2 l2(1,2), of f] p f by simp
  show "\<not> live s a" "c \<noteq> 0" by (fact u)+
  show "grows s (upd_cell a f ?s2)"
    unfolding grows_def
  proof (intro conjI allI impI)
    show "same_core s (upd_cell a f ?s2)"
      by (rule same_core_trans [OF _ same_core_upd_cell]) (use grows_trans [OF g1 g12] in \<open>simp add: grows_def\<close>)
    fix b assume b: "live s b"
    then have "cell_kept s ?s2 b" using grows_trans [OF g1 g12] by (simp add: grows_def)
    moreover have "b \<noteq> a" "live ?s2 b" using b u(1) calculation by (auto simp: cell_kept_def)
    ultimately show "cell_kept s (upd_cell a f ?s2) b" using cell_kept_trans cell_kept_upd_other by blast
  qed
  show "rc_value_context (upd_cell a f ?s2) a = c" using l2 by simp
  show "load (cell_at (upd_cell a f ?s2) a) = p" "cell_at (upd_cell a f ?s2) a = f (cell_at ?s2 a)"
    using l2 f by (simp_all add: cell_at_upd_cell)
qed

text \<open>A failed allocation changes nothing but the error.\<close>

lemma allocate_failed:
  assumes ok: "heap_ok s R" and c: "c < next_ctx s" and t: "t \<noteq> RC_NIL" and e: "allocate c t extra s = (v, s')"
    and v: "\<And>a. v \<noteq> HRef a"
  shows "v = HNull" "heap_ok s' R" "grows s s'"
  using heap_ok_allocate [OF assms(1-4)] grows_allocate [OF ok c e] v by auto

subsection \<open>Detaching a plan\<close>

lemma heap_ok_plan_remove:
  assumes ok: "heap_ok s R" and a: "live s a"
  shows "heap_ok (snd (plan_remove a s)) (add_mset (fst (plan_remove a s)) R)"
proof -
  let ?s = "snd (plan_remove a s)" and ?v = "fst (plan_remove a s)"
  note rc = ok [unfolded heap_ok_def]
  note wf = rc_okD(2) [OF rc]
  note at = plan_remove_simps(8) [of a s]
  have ld: "load (cell_at ?s b) = load (cell_at s b)" "refs (cell_at ?s b) = refs (cell_at s b)" for b
    using a by (simp_all add: at)
  have "plans_wf ?s"
    by (rule plans_wf_remove_drop [OF wf, of _ a]) (use a in \<open>simp_all add: plan_remove_simps\<close>)
  moreover have "sources_wf ?s"
    by (rule sources_wf_cong [OF rc_okD(3) [OF rc]]) (simp_all add: is_source_def ld plan_remove_ctx plan_remove_simps(4))
  moreover have "alloc_wf ?s"
    by (rule alloc_wf_cong [OF rc_okD(4) [OF rc]]) (simp_all add: ld plan_remove_ctx plan_remove_simps(1,2,3,5))
  moreover have "symbols_ok ?s" using rc_okD(5) [OF rc] by (simp add: symbols_ok_def ld)
  moreover have "counts_ok (view ?s) (add_mset ?v R) [] {}"
  proof -
    have v: "?v = plan_of s a"
      by (simp add: plan_remove_def plan_of_def Let_def split: option.splits)
    have other: "holds ?s b = holds s b" if "b \<noteq> a" for b
      using that by (intro holds_cong) (simp_all add: plan_remove_simps plan_of_remove [OF wf that])
    have view: "view ?s = g_out a (holds ?s a) (view s)"
      using other by (simp add: view_def g_out_def ld fun_eq_iff)
    have an: "a \<in> nodes (view s) - {}" using a by (simp add: live_fmdom)
    have pe: "plan_edge ?s a = []" using a by (simp add: plan_edge_def plan_remove_simps)
    show ?thesis
    proof (cases "plan_edge s a = []")
      case True
      then have "holds ?s a = holds s a" by (simp add: holds_def edges_def ld pe)
      with other have "holds ?s = holds s" by (metis ext)
      then have "view ?s = view s" by (simp add: view_def ld)
      moreover have "\<And>b. ?v \<noteq> HRef b"
        using True plan_of_no_plan [of s a] by (auto simp: v plan_edge_def split: if_splits)
      ultimately show ?thesis using rc_okD(6) [OF rc] by (simp add: counts_ok_non_ref)
    next
      case False
      then have pl: "plan_edge s a = [?v]" "has_plan (cell_at s a)" by (simp_all add: plan_edge_def v split: if_splits)
      with plans_wfD(3) [OF wf pl(2)] obtain h t where hd: "load (cell_at s a) = VPair h t"
        by (cases "load (cell_at s a)") auto
      have "held (view s) {} = mset (holds s a) + held (view s) {a}"
        using held_remove [OF _ an] by simp
      moreover have "held (view ?s) {a} = held (view s) {a}" by (rule held_cong) (auto simp: view g_out_def)
      moreover have "held (view ?s) {} = mset (holds ?s a) + held (view ?s) {a}"
        using held_remove [of "view ?s" a "{}"] an by (simp add: view g_out_def)
      ultimately have "held (view ?s) {} + add_mset ?v R = held (view s) {} + R"
        by (simp add: holds_def edges_def ld hd pl pe)
      moreover have "nodes (view ?s) = nodes (view s)" "cnt (view ?s) = cnt (view s)" by (simp_all add: view g_out_def)
      ultimately show ?thesis using rc_okD(6) [OF rc] unfolding counts_ok_def by (metis (no_types))
    qed
  qed
  ultimately show ?thesis using rc_okD(1) [OF rc] a by (simp add: heap_ok_def rc_ok_def plan_remove_simps)
qed

end
