(* ===== verification/Pairs.thy ===== *)
theory Pairs
  imports Frame
begin

text \<open>
  Pairs (\<open>src/rc/rc.c\<close>): \<open>rc_cons\<close>, \<open>rc_cons_owned\<close>, the two reuse constructors, the ownership
  transfers \<open>rc_pair_take_unique\<close>, \<open>rc_pair_take_last\<close> and \<open>rc_pair_take_tail_reuse\<close>, the
  projections and the list length. The lemmas give each operation's result and what it does to
  ownership: borrowing operations leave the caller's owners as they were and add the result,
  owned ones consume their arguments on every path, errors included.
\<close>

subsection \<open>Operations\<close>

definition pair_of :: "handle \<Rightarrow> handle \<Rightarrow> bool \<Rightarrow> cell \<Rightarrow> cell" where
  "pair_of h t reaches x = x\<lparr>load := VPair h t, reaches_vector := reaches\<rparr>"

definition rc_cons :: "ctxid \<Rightarrow> handle \<Rightarrow> handle \<Rightarrow> mem \<Rightarrow> handle \<times> mem" where
  "rc_cons c h t s =
     (if \<not> belongs s c h \<or> \<not> belongs s c t then rc_fail c ''invalid cons value/context'' s
      else case allocate c RC_PAIR 0 s of
             (HRef a, s) \<Rightarrow>
               let s = rc_retain t (rc_retain h s)
               in (HRef a, upd_cell a (pair_of h t (may_reach_vector s h \<or> may_reach_vector s t)) s)
           | (v, s) \<Rightarrow> (v, s))"

definition rc_cons_owned :: "ctxid \<Rightarrow> handle \<Rightarrow> handle \<Rightarrow> mem \<Rightarrow> handle \<times> mem" where
  "rc_cons_owned c h t s =
     (if \<not> belongs s c h \<or> \<not> belongs s c t
      then rc_fail c ''invalid owned cons value/context'' (rc_release t (rc_release h s))
      else case allocate c RC_PAIR 0 s of
             (HRef a, s) \<Rightarrow>
               (HRef a, upd_cell a (pair_of h t (may_reach_vector s h \<or> may_reach_vector s t)) s)
           | (v, s) \<Rightarrow> (HNull, rc_release t (rc_release h s)))"

definition note_stats :: "ctxid \<Rightarrow> (stats \<Rightarrow> stats) \<Rightarrow> mem \<Rightarrow> mem" where
  \<comment> \<open>\<open>if (ctx) ctx->stats.x++\<close>\<close>
  "note_stats c f s = (if c = 0 then s else upd_stats c f s)"

definition unique_pair :: "mem \<Rightarrow> handle \<Rightarrow> bool" where
  "unique_pair s v = (case v of HRef a \<Rightarrow> rc_type s v = RC_PAIR \<and> refs (cell_at s a) = 1 | _ \<Rightarrow> False)"

definition overwrite_pair :: "addr \<Rightarrow> handle \<Rightarrow> handle \<Rightarrow> mem \<Rightarrow> mem" where
  \<comment> \<open>replace both fields, then release what the pair held and its plan\<close>
  "overwrite_pair a h t s =
     (let old_head = head (load (cell_at s a)); old_tail = tail (load (cell_at s a));
          (old_plan, s) = (if has_plan (cell_at s a) then plan_remove a s else (HNull, s));
          s = upd_cell a (pair_of h t (may_reach_vector s h \<or> may_reach_vector s t)) s
      in rc_release old_plan (rc_release old_tail (rc_release old_head s)))"

definition rc_cons_reuse :: "ctxid \<Rightarrow> handle \<Rightarrow> handle \<Rightarrow> handle \<Rightarrow> mem \<Rightarrow> handle \<times> mem" where
  "rc_cons_reuse c candidate h t s =
     (let s = note_stats c (\<lambda>x. x\<lparr>pair_reuse_attempts := pair_reuse_attempts x + 1\<rparr>) s
      in if \<not> belongs s c h \<or> \<not> belongs s c t \<or> candidate \<noteq> HNull \<and> \<not> belongs s c candidate
         then let s = note_stats c (\<lambda>x. x\<lparr>pair_reuse_misses := pair_reuse_misses x + 1\<rparr>) s
              in rc_fail c ''invalid cons reuse value/context'' (rc_release candidate s)
         else if unique_pair s candidate \<and> candidate \<noteq> h \<and> candidate \<noteq> t
         then case candidate of
                HRef a \<Rightarrow>
                  let s = overwrite_pair a h t (rc_retain t (rc_retain h s))
                  in (candidate, upd_stats c (\<lambda>x. x\<lparr>pair_reuses := pair_reuses x + 1\<rparr>) s)
              | _ \<Rightarrow> (candidate, s)
         else let s = note_stats c (\<lambda>x. x\<lparr>pair_reuse_misses := pair_reuse_misses x + 1\<rparr>) s;
                  (v, s) = rc_cons c h t s
              in (v, rc_release candidate s))"

definition rc_cons_reuse_owned :: "ctxid \<Rightarrow> handle \<Rightarrow> handle \<Rightarrow> handle \<Rightarrow> mem \<Rightarrow> handle \<times> mem" where
  "rc_cons_reuse_owned c candidate h t s =
     (let s = upd_stats c (\<lambda>x. x\<lparr>pair_reuse_attempts := pair_reuse_attempts x + 1\<rparr>) s
      in if candidate \<noteq> HNull \<and> belongs s c candidate \<and> unique_pair s candidate \<and>
            candidate \<noteq> h \<and> candidate \<noteq> t \<and> belongs s c h \<and> belongs s c t
         then case candidate of
                HRef a \<Rightarrow>
                  let s = overwrite_pair a h t s
                  in (candidate, upd_stats c (\<lambda>x. x\<lparr>pair_reuses := pair_reuses x + 1\<rparr>) s)
              | _ \<Rightarrow> (candidate, s)
         else let s = upd_stats c (\<lambda>x. x\<lparr>pair_reuse_misses := pair_reuse_misses x + 1\<rparr>) s;
                  (v, s) = rc_cons_owned c h t s
              in (v, rc_release candidate s))"

definition pair_field :: "mem \<Rightarrow> addr \<Rightarrow> bool \<Rightarrow> handle" where
  "pair_field s a first = (if first then head (load (cell_at s a)) else tail (load (cell_at s a)))"

definition with_pair_field :: "bool \<Rightarrow> handle \<Rightarrow> payload \<Rightarrow> payload" where
  "with_pair_field first v p = (if first then VPair v (tail p) else VPair (head p) v)"

definition rc_pair_take_unique :: "ctxid \<Rightarrow> handle \<Rightarrow> bool \<Rightarrow> mem \<Rightarrow> handle \<times> mem" where
  "rc_pair_take_unique c p first s =
     (case p of
        HRef a \<Rightarrow>
          if \<not> belongs s c p \<or> rc_type s p \<noteq> RC_PAIR \<or> refs (cell_at s a) \<noteq> 1 \<or> has_plan (cell_at s a)
          then (HNull, s)
          else let v = pair_field s a first
               in if \<not> belongs s c v \<or> rc_type s v = RC_TAIL then (HNull, s)
                  else let s = upd_cell a (\<lambda>x. x\<lparr>load := with_pair_field first HNil (load x)\<rparr>) s
                       in (v, if first then s
                              else upd_stats c (\<lambda>x. x\<lparr>pair_tail_transfers := pair_tail_transfers x + 1\<rparr>) s)
      | _ \<Rightarrow> (HNull, s))"

definition rc_pair_take_last :: "ctxid \<Rightarrow> handle \<Rightarrow> bool \<Rightarrow> mem \<Rightarrow> handle \<times> handle \<times> mem" where
  \<comment> \<open>returns the value, the new contents of \<open>*slot\<close> and the memory\<close>
  "rc_pair_take_last c p first s =
     (case p of
        HRef a \<Rightarrow>
          if \<not> belongs s c p \<or> rc_type s p \<noteq> RC_PAIR then (HNull, p, s)
          else let v = pair_field s a first
               in if \<not> belongs s c v \<or> rc_type s v = RC_TAIL then (HNull, p, s)
                  else if refs (cell_at s a) = 1 \<and> \<not> has_plan (cell_at s a)
                  then let other = pair_field s a (\<not> first);
                           s = upd_cell a (pair_of HNil HNil False) s;
                           s = rc_release other s
                       in (v, p, if first then s
                                 else upd_stats c (\<lambda>x. x\<lparr>pair_tail_transfers := pair_tail_transfers x + 1\<rparr>) s)
                  else let s = rc_release p (rc_retain v s)
                       in (v, HNull, if first then s
                                     else upd_stats c (\<lambda>x. x\<lparr>pair_tail_shares := pair_tail_shares x + 1\<rparr>) s)
      | _ \<Rightarrow> (HNull, p, s))"

definition rc_pair_take_tail_reuse :: "ctxid \<Rightarrow> handle \<Rightarrow> bool \<Rightarrow> mem \<Rightarrow> handle \<times> handle \<times> mem" where
  \<comment> \<open>\<open>has_out\<close>: whether the output pointer is not NULL; returns the tail, \<open>*out\<close> and the memory\<close>
  "rc_pair_take_tail_reuse c candidate has_out s =
     (case candidate of
        HRef a \<Rightarrow>
          if \<not> has_out \<or> \<not> belongs s c candidate \<or> rc_type s candidate \<noteq> RC_PAIR
          then (HNull, HNull, rc_error c ''tail reuse projection expects a pair and output slot'' (rc_release candidate s))
          else let rest = tail (load (cell_at s a))
               in if refs (cell_at s a) = 1
                  then let old_head = head (load (cell_at s a));
                           (old_plan, s) = (if has_plan (cell_at s a) then plan_remove a s else (HNull, s));
                           s = upd_cell a (pair_of HNil HNil False) s;
                           s = rc_release old_plan (rc_release old_head s)
                       in (rest, candidate, upd_stats c (\<lambda>x. x\<lparr>pair_tail_transfers := pair_tail_transfers x + 1\<rparr>) s)
                  else (rest, candidate,
                        upd_stats c (\<lambda>x. x\<lparr>pair_tail_shares := pair_tail_shares x + 1\<rparr>) (rc_retain rest s))
      | _ \<Rightarrow> (HNull, HNull, rc_error c ''tail reuse projection expects a pair and output slot'' (rc_release candidate s)))"

datatype RcListLengthStatus = RC_LIST_LENGTH_OK | RC_LIST_LENGTH_IMPROPER | RC_LIST_LENGTH_OVERFLOW

function list_length_loop :: "mem \<Rightarrow> nat \<Rightarrow> handle \<Rightarrow> RcListLengthStatus \<times> nat" where
  "list_length_loop s n cursor =
     (if rc_type s cursor = RC_PAIR
      then if SIZE_MAX - 2 \<le> n then (RC_LIST_LENGTH_OVERFLOW, 0)
           else list_length_loop s (n + 1) (tail (load_of s cursor))
      else if \<not> rc_is_nil cursor then (RC_LIST_LENGTH_IMPROPER, 0)
      else (RC_LIST_LENGTH_OK, n))"
  by pat_completeness auto
termination by (relation "measure (\<lambda>(s, n, v). SIZE_MAX - n)") auto

declare list_length_loop.simps [simp del]

definition rc_list_length_cached :: "mem \<Rightarrow> handle \<Rightarrow> RcListLengthStatus \<times> nat" where
  "rc_list_length_cached s v =
     (if rc_is_nil v then (RC_LIST_LENGTH_OK, 0)
      else if rc_type s v \<noteq> RC_PAIR then (RC_LIST_LENGTH_IMPROPER, 0)
      else list_length_loop s 0 v)"

definition rc_head_borrowed :: "mem \<Rightarrow> handle \<Rightarrow> handle" where
  "rc_head_borrowed s v = (if v \<noteq> HNull \<and> rc_type s v = RC_PAIR then head (load_of s v) else HNull)"

definition rc_tail_borrowed :: "mem \<Rightarrow> handle \<Rightarrow> handle" where
  "rc_tail_borrowed s v = (if v \<noteq> HNull \<and> rc_type s v = RC_PAIR then tail (load_of s v) else HNull)"

definition rc_head :: "ctxid \<Rightarrow> handle \<Rightarrow> mem \<Rightarrow> handle \<times> mem" where
  "rc_head c v s =
     (if v \<noteq> HNull \<and> rc_type s v = RC_PAIR
      then (head (load_of s v), rc_retain (head (load_of s v)) s)
      else rc_fail c ''hd expects a nonempty list'' s)"

definition rc_tail :: "ctxid \<Rightarrow> handle \<Rightarrow> mem \<Rightarrow> handle \<times> mem" where
  "rc_tail c v s =
     (if v \<noteq> HNull \<and> rc_type s v = RC_PAIR
      then (tail (load_of s v), rc_retain (tail (load_of s v)) s)
      else rc_fail c ''tl expects a nonempty list'' s)"

subsection \<open>Accounting does not matter\<close>

lemma same_heap_note_stats [simp]: "same_heap s (note_stats c f s)"
  by (simp add: note_stats_def)

lemma note_stats_simps [simp]:
  "cell_at (note_stats c f s) a = cell_at s a" "live (note_stats c f s) a = live s a"
  "rc_value_context (note_stats c f s) a = rc_value_context s a" "next_ctx (note_stats c f s) = next_ctx s"
  by (simp_all add: note_stats_def)

lemma moves_note_stats [simp]: "moves s A (note_stats c f s) A"
  by (simp add: note_stats_def)

lemma moves_release_two: "moves s (add_mset v (add_mset w A)) (rc_release w (rc_release v s)) A"
  by (rule moves_trans [OF moves_release moves_release])

lemma moves_release_three:
  "moves s (add_mset v (add_mset w (add_mset x A))) (rc_release x (rc_release w (rc_release v s))) A"
  by (rule moves_trans [OF moves_release_two moves_release])

subsection \<open>Cons\<close>

lemma rc_cons_cases:
  assumes "rc_cons c h t s = (v, s')"
  obtains (error) m where "v = HNull" "s' = rc_error c m s"
  | (failed) s1 where "allocate c RC_PAIR 0 s = (v, s1)" "s' = s1" "\<And>a. v \<noteq> HRef a"
  | (new) a s1 r where "v = HRef a" "allocate c RC_PAIR 0 s = (HRef a, s1)"
      "s' = upd_cell a (pair_of h t r) (fold rc_retain [h, t] s1)"
  using assms unfolding rc_cons_def rc_fail_def Let_def
  by (auto split: if_splits prod.splits handle.splits)

lemma rc_cons_owned_cases:
  assumes "rc_cons_owned c h t s = (v, s')"
  obtains (error) m where "v = HNull" "s' = rc_error c m (rc_release t (rc_release h s))"
  | (failed) w s1 where "allocate c RC_PAIR 0 s = (w, s1)" "v = HNull" "s' = rc_release t (rc_release h s1)" "\<And>a. w \<noteq> HRef a"
  | (new) a s1 r where "v = HRef a" "allocate c RC_PAIR 0 s = (HRef a, s1)"
      "s' = upd_cell a (pair_of h t r) (fold rc_retain [] s1)"
  using assms unfolding rc_cons_owned_def rc_fail_def Let_def
  by (auto split: if_splits prod.splits handle.splits)

lemma pair_of_simps: "refs (pair_of h t r x) = refs x \<and> has_plan (pair_of h t r x) = has_plan x \<and>
    load (pair_of h t r x) = VPair h t"
  by (simp add: pair_of_def)

lemma moves_rc_cons:
  assumes c: "c < next_ctx s" and v: "valid s h" "valid s t" and e: "rc_cons c h t s = (v, s')"
  shows "moves s {#} s' {#v#}"
  using e
proof (cases rule: rc_cons_cases)
  case (failed s1)
  show ?thesis
    by (rule moves_growsI) (use allocate_failed [OF _ c _ failed(1,3)] failed in auto)
next
  case (new a s1 r)
  note k = construct [where ms = "[]" and vs = "[h, t]" and p = "VPair h t" and f = "pair_of h t r", OF _ c new(2) _ _ _ _ _ _ pair_of_simps]
  show ?thesis
    by (rule moves_growsI) (use k v new in \<open>simp add: payload_slots_def\<close>)
qed simp

lemma moves_rc_cons_owned:
  assumes c: "c < next_ctx s" and e: "rc_cons_owned c h t s = (v, s')"
  shows "moves s {#h, t#} s' {#v#}"
  using e
proof (cases rule: rc_cons_owned_cases)
  case (error m)
  then show ?thesis using moves_then_error [OF moves_release_two] by simp
next
  case (failed w s1)
  have "moves s {#h, t#} s1 {#h, t#}"
    by (rule moves_growsI) (use allocate_failed [OF _ c _ failed(1,4)] in simp)
  from moves_trans [OF this moves_release_two] failed show ?thesis by simp
next
  case (new a s1 r)
  note k = construct [where vs = "[]" and ms = "[h, t]" and p = "VPair h t" and f = "pair_of h t r", OF _ c new(2) _ _ _ _ _ _ pair_of_simps]
  show ?thesis
    by (rule moves_growsI) (use k new in \<open>simp add: payload_slots_def\<close>)
qed

text \<open>The pair built holds the two arguments, in a cell of the context that was not live.\<close>

lemma rc_cons_result:
  assumes ok: "heap_ok s R" and c: "c < next_ctx s" and v: "valid s h" "valid s t" and e: "rc_cons c h t s = (HRef a, s')"
  shows "\<not> live s a" "load (cell_at s' a) = VPair h t" "rc_value_context s' a = c" "grows s s'"
proof -
  have "\<not> live s a \<and> load (cell_at s' a) = VPair h t \<and> rc_value_context s' a = c \<and> grows s s'"
    using e
  proof (cases rule: rc_cons_cases)
    case (new a' s1 r)
    note k = construct [where ms = "[]" and vs = "[h, t]" and p = "VPair h t" and f = "pair_of h t r", OF _ c new(2) _ _ _ _ _ _ pair_of_simps]
    show ?thesis using k [of R] new v ok by (simp add: payload_slots_def)
  qed auto
  then show "\<not> live s a" "load (cell_at s' a) = VPair h t" "rc_value_context s' a = c" "grows s s'" by simp_all
qed

lemma rc_cons_owned_result:
  assumes ok: "heap_ok s (add_mset h (add_mset t R))" and c: "c < next_ctx s" and e: "rc_cons_owned c h t s = (HRef a, s')"
  shows "\<not> live s a" "load (cell_at s' a) = VPair h t" "rc_value_context s' a = c" "grows s s'"
proof -
  have "\<not> live s a \<and> load (cell_at s' a) = VPair h t \<and> rc_value_context s' a = c \<and> grows s s'"
    using e
  proof (cases rule: rc_cons_owned_cases)
    case (new a' s1 r)
    note k = construct [where vs = "[]" and ms = "[h, t]" and p = "VPair h t" and f = "pair_of h t r", OF _ c new(2) _ _ _ _ _ _ pair_of_simps]
    show ?thesis using k [of R] new ok by (simp add: payload_slots_def)
  qed auto
  then show "\<not> live s a" "load (cell_at s' a) = VPair h t" "rc_value_context s' a = c" "grows s s'" by simp_all
qed

subsection \<open>Writing a pair nobody else can reach\<close>

lemma unique_not_owned:
  assumes ok: "heap_ok s (add_mset (HRef a) R)" and n: "refs (cell_at s a) = 1"
  shows "a \<notin> owned (view s) R"
proof
  note c = rc_okD(6) [OF ok [unfolded heap_ok_def]]
  have "HRef a \<in># add_mset (HRef a) R" by simp
  note pos = counts_ok_pos [OF c this]
  have z: "count (held (view s) {} + R) (HRef a) = 0"
    using counts_okD(6) [OF c pos(1)] n by auto
  assume "a \<in> owned (view s) R"
  then show False
  proof cases
    case root
    with z show ?thesis by (simp add: count_eq_zero_iff)
  next
    case immortal
    with n show ?thesis by simp
  next
    case (edge b)
    have "owned (view s) R \<subseteq> owned (view s) (add_mset (HRef a) R)" by (rule owned_subset) (simp add: subset_mset.le_iff_add)
    with edge(1) owned_live [OF c] have "b \<in> nodes (view s)" by blast
    with edge(2) have "HRef a \<in># held (view s) {}" using held_mem [OF counts_okD(1) [OF c]] by auto
    with z show ?thesis by (simp add: count_eq_zero_iff)
  qed
qed

lemma preserves_untouched:
  assumes ok: "heap_ok s (add_mset (HRef a) R)" and n: "refs (cell_at s a) = 1"
    and k: "\<And>b. b \<noteq> a \<Longrightarrow> live s b \<Longrightarrow> cell_kept s s' b" and core: "same_core s s'"
  shows "preserves R s s'"
  unfolding preserves_def
proof (intro conjI ballI)
  fix b assume b: "b \<in> owned (view s) R"
  have "owned (view s) R \<subseteq> owned (view s) (add_mset (HRef a) R)" by (rule owned_subset) (simp add: subset_mset.le_iff_add)
  with b have "live s b" using owned_live [OF rc_okD(6) [OF ok [unfolded heap_ok_def]], of b] by (auto simp: live_fmdom)
  moreover have "b \<noteq> a" using b unique_not_owned [OF ok n] by auto
  ultimately show "cell_kept s s' b" using k by blast
qed (rule core)

lemma cell_kept_plan_remove:
  assumes ok: "heap_ok s R" and b: "b \<noteq> a" "live s b"
  shows "cell_kept s (snd (plan_remove a s)) b"
  using b plan_of_remove [OF rc_okD(2) [OF ok [unfolded heap_ok_def]] b(1)]
  by (simp add: cell_kept_def plan_remove_simps)

lemma same_core_plan_remove: "same_core s (snd (plan_remove a s))"
  by (simp add: plan_remove_def Let_def same_core_def ctxs_upd_ctx ctx_core_def heap_fields_cleared_def
      split: option.splits)

text \<open>The common step of the reuse operations: take the plan off, store new fields.\<close>

lemma rewrite_pair:
  fixes s s1 :: mem and a :: addr and h t q :: handle and r :: bool
  assumes ok: "heap_ok s (add_mset (HRef a) (add_mset h (add_mset t R)))"
    and ty: "rc_type s (HRef a) = RC_PAIR" and n: "refs (cell_at s a) = 1"
    and e: "(if has_plan (cell_at s a) then plan_remove a s else (HNull, s)) = (q, s1)"
  defines "s2 \<equiv> upd_cell a (pair_of h t r) s1"
  shows "heap_ok s2 (add_mset (head (load (cell_at s a))) (add_mset (tail (load (cell_at s a)))
      (add_mset q (add_mset (HRef a) R))))"
    and "preserves (add_mset h (add_mset t R)) s s2"
    and "load (cell_at s2 a) = VPair h t" "rc_value_context s2 a = rc_value_context s a" "next_ctx s2 = next_ctx s"
proof -
  from ty obtain oh ot where old: "load (cell_at s a) = VPair oh ot" by (cases "load (cell_at s a)") auto
  have a: "live s a" using old cell_at_dead [of s a] by (cases "live s a") (simp_all add: free_cell_def)
  have s1: "s1 = s \<and> q = HNull \<or> s1 = snd (plan_remove a s) \<and> q = fst (plan_remove a s)"
    using e by (auto split: if_splits)
  then have ld: "load (cell_at s1 a) = VPair oh ot" "live s1 a" "refs (cell_at s1 a) = 1"
      "rc_value_context s1 a = rc_value_context s a" "next_ctx s1 = next_ctx s"
    using old n a by (auto simp: plan_remove_simps)
  from s1 have ok1: "heap_ok s1 (mset (payload_slots (VPair h t)) + (add_mset q (add_mset (HRef a) R)))"
    using ok heap_ok_plan_remove [OF ok a] by (auto simp: payload_slots_def add_mset_commute)
  show "heap_ok s2 (add_mset (head (load (cell_at s a))) (add_mset (tail (load (cell_at s a)))
      (add_mset q (add_mset (HRef a) R))))"
    unfolding s2_def using heap_ok_write [OF ok1 ld(2), of "pair_of h t r"] ld old
    by (simp add: pair_of_def payload_slots_def add_mset_commute)
  have core: "same_core s s1" using s1 same_core_plan_remove by auto
  have k: "cell_kept s s2 b" if b: "b \<noteq> a" "live s b" for b
  proof -
    have k1: "cell_kept s s1 b" using s1 cell_kept_plan_remove [OF ok b] cell_kept_refl [OF b(2)] by auto
    then have "live s1 b" by (simp add: cell_kept_def)
    from cell_kept_trans [OF k1 cell_kept_upd_other [OF b(1) this]] show ?thesis by (simp add: s2_def)
  qed
  show "preserves (add_mset h (add_mset t R)) s s2"
    by (rule preserves_untouched [OF ok n k]) (simp_all add: s2_def same_core_trans [OF core same_core_upd_cell])
  show "load (cell_at s2 a) = VPair h t" "rc_value_context s2 a = rc_value_context s a" "next_ctx s2 = next_ctx s"
    using ld by (simp_all add: cell_at_upd_cell pair_of_def s2_def)
qed


lemma moves_overwrite_pair:
  assumes ty: "rc_type s (HRef a) = RC_PAIR" and n: "refs (cell_at s a) = 1"
  shows "moves s {#HRef a, h, t#} (overwrite_pair a h t s) {#HRef a#}"
    and "heap_ok s (add_mset (HRef a) (add_mset h (add_mset t R))) \<Longrightarrow> load (cell_at (overwrite_pair a h t s) a) = VPair h t"
proof -
  obtain q s1 where e: "(if has_plan (cell_at s a) then plan_remove a s else (HNull, s)) = (q, s1)" by fastforce
  let ?m = "may_reach_vector s1 h \<or> may_reach_vector s1 t"
  define s2 where "s2 = upd_cell a (pair_of h t ?m) s1"
  let ?s = "overwrite_pair a h t s" and ?A = "{#head (load (cell_at s a)), tail (load (cell_at s a)), q, HRef a#}"
  have s: "?s = rc_release q (rc_release (tail (load (cell_at s a))) (rc_release (head (load (cell_at s a))) s2))"
    by (simp add: overwrite_pair_def Let_def e s2_def)
  note r = rewrite_pair [OF _ ty n e, of h t _ ?m, folded s2_def]
  have 1: "moves s {#HRef a, h, t#} s2 ?A"
    by (rule movesI) (use r(1) preserves_weaken [OF preserves_weaken [OF r(2)]] in simp_all)
  have 2: "moves s2 ?A ?s {#HRef a#}" unfolding s by (rule moves_release_three)
  show "moves s {#HRef a, h, t#} ?s {#HRef a#}" by (rule moves_trans [OF 1 2])
  assume ok: "heap_ok s (add_mset (HRef a) (add_mset h (add_mset t R)))"
  have "moves s2 {#head (load (cell_at s a)), tail (load (cell_at s a)), q#} ?s {#}" unfolding s by (rule moves_release_three)
  from moves_kept [OF this, of a R] r(1) [OF ok] have "cell_kept s2 ?s a" by (simp add: add_mset_commute)
  with r(3) [OF ok] show "load (cell_at ?s a) = VPair h t" by (simp add: cell_kept_load(1))
qed

subsection \<open>Reuse\<close>

lemma unique_pairD:
  assumes "unique_pair s v"
  obtains a where "v = HRef a" "rc_type s (HRef a) = RC_PAIR" "refs (cell_at s a) = 1"
  using assms by (auto simp: unique_pair_def split: handle.splits)

lemma rc_cons_reuse_owned_cases:
  assumes "rc_cons_reuse_owned c v0 h t s = (v, s')"
  obtains (reuse) a f g where "v0 = HRef a" "v = v0" "unique_pair (upd_stats c f s) v0"
      "s' = upd_stats c g (overwrite_pair a h t (upd_stats c f s))"
  | (miss) f g s1 where "rc_cons_owned c h t (upd_stats c g (upd_stats c f s)) = (v, s1)" "s' = rc_release v0 s1"
proof (cases "v0 \<noteq> HNull \<and> belongs (upd_stats c (\<lambda>x. x\<lparr>pair_reuse_attempts := pair_reuse_attempts x + 1\<rparr>) s) c v0 \<and>
    unique_pair (upd_stats c (\<lambda>x. x\<lparr>pair_reuse_attempts := pair_reuse_attempts x + 1\<rparr>) s) v0 \<and> v0 \<noteq> h \<and> v0 \<noteq> t \<and>
    belongs (upd_stats c (\<lambda>x. x\<lparr>pair_reuse_attempts := pair_reuse_attempts x + 1\<rparr>) s) c h \<and>
    belongs (upd_stats c (\<lambda>x. x\<lparr>pair_reuse_attempts := pair_reuse_attempts x + 1\<rparr>) s) c t")
  case True
  with assms reuse show thesis
    unfolding rc_cons_reuse_owned_def Let_def by (auto simp: unique_pair_def split: handle.splits)
next
  case False
  with assms miss show thesis
    unfolding rc_cons_reuse_owned_def Let_def by (auto split: prod.splits if_splits)
qed

lemma moves_rc_cons_reuse_owned:
  assumes c: "c < next_ctx s" and e: "rc_cons_reuse_owned c v0 h t s = (v, s')"
  shows "moves s {#v0, h, t#} s' {#v#}"
  using e
proof (cases rule: rc_cons_reuse_owned_cases)
  case (reuse a f g)
  then have u: "rc_type (upd_stats c f s) (HRef a) = RC_PAIR" "refs (cell_at (upd_stats c f s) a) = 1"
    using unique_pairD by blast+
  from moves_trans [OF moves_upd_stats moves_then_upd_stats [OF moves_overwrite_pair(1) [OF u]]] reuse
  show ?thesis by simp
next
  case (miss f g s1)
  have "c < next_ctx (upd_stats c g (upd_stats c f s))" using c by simp
  from moves_frame [OF moves_rc_cons_owned [OF this miss(1)], of "{#v0#}"]
  have "moves (upd_stats c g (upd_stats c f s)) {#v0, h, t#} s1 {#v0, v#}" by (simp add: add_mset_commute)
  from moves_trans [OF moves_trans [OF moves_trans [OF moves_upd_stats moves_upd_stats] this] moves_release]
  show ?thesis by (simp add: miss)
qed

lemma rc_cons_reuse_cases:
  assumes "rc_cons_reuse c v0 h t s = (v, s')"
  obtains (error) f g m where "v = HNull" "s' = rc_error c m (rc_release v0 (note_stats c g (note_stats c f s)))"
  | (reuse) a f g where "v0 = HRef a" "v = v0" "unique_pair (note_stats c f s) v0" "v0 \<noteq> h" "v0 \<noteq> t"
      "s' = upd_stats c g (overwrite_pair a h t (fold rc_retain [h, t] (note_stats c f s)))"
  | (miss) f g s1 where "rc_cons c h t (note_stats c g (note_stats c f s)) = (v, s1)" "s' = rc_release v0 s1"
  using assms unfolding rc_cons_reuse_def rc_fail_def Let_def
  by (auto simp: unique_pair_def split: if_splits prod.splits handle.splits)

lemma rc_type_retain [simp]: "rc_type (rc_retain w s) v = rc_type s v"
  using grows_retain [of s w] cell_kept_load(1) [of s "rc_retain w s"]
  by (cases v; cases w) (auto simp: cell_at_upd_cell)

lemma refs_retain_other: "v \<noteq> HRef a \<Longrightarrow> refs (cell_at (rc_retain v s) a) = refs (cell_at s a)"
  by (cases v) (auto simp: cell_at_upd_cell)

lemma valid_retain: "valid s w \<Longrightarrow> valid (rc_retain v s) w"
  by (rule own.retain_readable)

lemma valid_same_live: "(\<And>a. live s' a = live s a) \<Longrightarrow> valid s' v = valid s v"
  by (simp add: valid_def)

lemma moves_rc_cons_reuse:
  assumes c: "c < next_ctx s" and v: "valid s h" "valid s t" and e: "rc_cons_reuse c v0 h t s = (v, s')"
  shows "moves s {#v0#} s' {#v#}"
  using e
proof (cases rule: rc_cons_reuse_cases)
  case (error f g m)
  have "moves s {#v0#} (rc_release v0 (note_stats c g (note_stats c f s))) {#}"
    by (rule moves_trans [OF moves_trans [OF moves_note_stats moves_note_stats] moves_release])
  from moves_then_error [OF this] error show ?thesis by simp
next
  case (reuse a f g)
  let ?s1 = "note_stats c f s" and ?s2 = "fold rc_retain [h, t] (note_stats c f s)"
  have v1: "\<forall>w\<in>set [h, t]. valid ?s1 w" using v by (simp add: valid_def)
  have u1: "rc_type ?s1 (HRef a) = RC_PAIR" "refs (cell_at ?s1 a) = 1" using reuse(1,3) unique_pairD by blast+
  then have u2: "rc_type ?s2 (HRef a) = RC_PAIR" "refs (cell_at ?s2 a) = 1"
    using reuse(1,4,5) by (simp_all add: refs_retain_other del: rc_retain.simps rc_type.simps)
  have 1: "moves s {#v0#} ?s1 {#v0#}" by simp
  have 2: "moves ?s1 {#v0#} ?s2 {#v0, h, t#}" using moves_retain_list [OF v1, of "{#v0#}"] by (simp add: add_mset_commute)
  have 3: "moves ?s2 {#v0, h, t#} s' {#v0#}"
    using moves_then_upd_stats [OF moves_overwrite_pair(1) [OF u2]] reuse(1,6) by simp
  from moves_trans [OF moves_trans [OF 1 2] 3] reuse show ?thesis by simp
next
  case (miss f g s1)
  let ?s2 = "note_stats c g (note_stats c f s)"
  have c2: "c < next_ctx ?s2" and v2: "valid ?s2 h" "valid ?s2 t" using c v by (simp_all add: valid_def)
  from moves_frame [OF moves_rc_cons [OF c2 v2 miss(1)], of "{#v0#}"]
  have "moves ?s2 {#v0#} s1 {#v0, v#}" by (simp add: add_mset_commute)
  from moves_trans [OF moves_trans [OF moves_trans [OF moves_note_stats moves_note_stats] this] moves_release]
  show ?thesis by (simp add: miss)
qed

text \<open>A reused cell keeps its address and holds the new fields.\<close>

lemma rc_cons_reuse_owned_reused:
  assumes ok: "heap_ok s (add_mset (HRef a) (add_mset h (add_mset t R)))"
    and u: "unique_pair s (HRef a)" "HRef a \<noteq> h" "HRef a \<noteq> t" and b: "belongs s c (HRef a)" "belongs s c h" "belongs s c t"
    and e: "rc_cons_reuse_owned c (HRef a) h t s = (v, s')"
  shows "v = HRef a" "load (cell_at s' a) = VPair h t"
proof -
  let ?s1 = "upd_stats c (\<lambda>x. x\<lparr>pair_reuse_attempts := pair_reuse_attempts x + 1\<rparr>) s"
  have bel: "belongs ?s1 c w = belongs s c w" for w by (cases w) simp_all
  have u1: "unique_pair ?s1 (HRef a)" using u(1) by (simp add: unique_pair_def)
  then have *: "v = HRef a \<and> s' = upd_stats c (\<lambda>x. x\<lparr>pair_reuses := pair_reuses x + 1\<rparr>) (overwrite_pair a h t ?s1)"
    using e u b unfolding rc_cons_reuse_owned_def Let_def bel by auto
  have "rc_type ?s1 (HRef a) = RC_PAIR" "refs (cell_at ?s1 a) = 1" using unique_pairD [OF u1] by auto
  from moves_overwrite_pair(2) [OF this, of h t R] movesD(1) [OF moves_upd_stats, of s "{#HRef a, h, t#}" R] ok *
  show "v = HRef a" "load (cell_at s' a) = VPair h t" by simp_all
qed

subsection \<open>Taking fields\<close>

lemma pair_type_valid: "rc_type s (HRef a) = RC_PAIR \<Longrightarrow> valid s (HRef a)"
  using cell_at_dead [of s a] by (cases "live s a") (simp_all add: valid_def free_cell_def)

lemma payload_slots_pair: "payload_slots (VPair h t) = [h, t]"
  by (simp add: payload_slots_def)

lemma pair_payload: "rc_type s (HRef a) = RC_PAIR \<Longrightarrow> \<exists>h t. load (cell_at s a) = VPair h t"
  by (cases "load (cell_at s a)") auto

lemma pair_child_valid:
  assumes ok: "heap_ok s R" and ty: "rc_type s (HRef a) = RC_PAIR" and live: "live s a"
  shows "valid s (head (load (cell_at s a)))" "valid s (tail (load (cell_at s a)))"
proof -
  obtain h t where p: "load (cell_at s a) = VPair h t" using pair_payload [OF ty] by blast
  note c = rc_okD(6) [OF ok [unfolded heap_ok_def]]
  have "live s b" if "HRef b \<in> {h, t}" for b
  proof -
    have "HRef b \<in> set (out (view s) a)" using that p by (auto simp: holds_def edges_def)
    then have "HRef b \<in># held (view s) {} + R" using held_mem [OF counts_okD(1) [OF c]] live by (auto simp: live_fmdom)
    from counts_okD(5) [OF c this] show ?thesis by (simp add: live_fmdom)
  qed
  then show "valid s (head (load (cell_at s a)))" "valid s (tail (load (cell_at s a)))"
    using p by (auto simp: valid_def)
qed

text \<open>Writing the fields of an owned, unshared pair.\<close>

lemma moves_write_pair:
  assumes p: "load (cell_at s a) = VPair oh ot" and n: "refs (cell_at s a) = 1"
    and f: "refs (f (cell_at s a)) = refs (cell_at s a)" "has_plan (f (cell_at s a)) = has_plan (cell_at s a)"
      "load (f (cell_at s a)) = VPair h t"
    and bal: "{#oh, ot#} + X = {#h, t#} + Y"
  shows "moves s (add_mset (HRef a) X) (upd_cell a f s) (add_mset (HRef a) Y)"
proof (rule movesI)
  fix R assume ok: "heap_ok s (add_mset (HRef a) X + R)"
  have live: "live s a" using p cell_at_dead [of s a] by (cases "live s a") (simp_all add: free_cell_def)
  have "heap_ok s (X + add_mset (HRef a) R)" using ok by simp
  from heap_ok_exchange [where s = s and a = a and p = "VPair h t" and f = f and X = X and Y = Y, OF this live _ _ f] p bal
  show "heap_ok (upd_cell a f s) (add_mset (HRef a) Y + R)" by (simp add: payload_slots_pair)
  have "heap_ok s (add_mset (HRef a) (X + R))" using ok by simp
  then have "preserves (X + R) s (upd_cell a f s)"
    by (rule preserves_untouched [OF _ n cell_kept_upd_other]) simp_all
  then show "preserves R s (upd_cell a f s)" by (rule preserves_subset) simp
qed

lemma rc_pair_take_unique_cases:
  assumes "rc_pair_take_unique c p first s = (v, s')"
  obtains (refused) "v = HNull" "s' = s"
  | (taken) a g where "p = HRef a" "rc_type s p = RC_PAIR" "refs (cell_at s a) = 1" "\<not> has_plan (cell_at s a)"
      "v = pair_field s a first"
      "s' = (if first then upd_cell a (\<lambda>x. x\<lparr>load := with_pair_field first HNil (load x)\<rparr>) s
             else upd_stats c g (upd_cell a (\<lambda>x. x\<lparr>load := with_pair_field first HNil (load x)\<rparr>) s))"
  using assms unfolding rc_pair_take_unique_def Let_def by (auto split: handle.splits if_splits)

lemma moves_rc_pair_take_unique:
  assumes e: "rc_pair_take_unique c p first s = (v, s')"
  shows "moves s {#p#} s' {#v, p#}"
  using e
proof (cases rule: rc_pair_take_unique_cases)
  case (taken a g)
  obtain h t where p: "load (cell_at s a) = VPair h t" using pair_payload taken(1,2) by blast
  let ?f = "\<lambda>x. x\<lparr>load := with_pair_field first HNil (load x)\<rparr>"
  have "moves s {#HRef a, HNil#} (upd_cell a ?f s) {#HRef a, v#}"
    using moves_write_pair [OF p taken(3), of ?f _ _ "{#HNil#}" "{#v#}"] taken(5) p
    by (cases first) (simp_all add: with_pair_field_def pair_field_def add_mset_commute)
  then have "moves s {#HNil, HRef a#} (upd_cell a ?f s) {#v, HRef a#}"
    by (rule moves_cong) (simp_all add: add_mset_commute)
  then have "moves s {#p#} (upd_cell a ?f s) {#v, p#}" using taken(1) by simp
  with taken(6) moves_then_upd_stats show ?thesis by (cases first) simp_all
qed simp

lemma rc_pair_take_last_cases:
  assumes "rc_pair_take_last c p first s = (v, p', s')"
  obtains (refused) "v = HNull" "p' = p" "s' = s"
  | (transfer) a s1 where "p = HRef a" "rc_type s p = RC_PAIR" "refs (cell_at s a) = 1" "\<not> has_plan (cell_at s a)"
      "v = pair_field s a first" "p' = p"
      "s1 = rc_release (pair_field s a (\<not> first)) (upd_cell a (pair_of HNil HNil False) s)"
      "s' = s1 \<or> (\<exists>g. s' = upd_stats c g s1)"
  | (share) a s1 where "p = HRef a" "rc_type s p = RC_PAIR" "v = pair_field s a first" "p' = HNull"
      "s1 = rc_release p (rc_retain v s)" "s' = s1 \<or> (\<exists>g. s' = upd_stats c g s1)"
  using assms unfolding rc_pair_take_last_def Let_def by (cases p; cases first) (auto split: if_splits)

lemma moves_rc_pair_take_last:
  assumes e: "rc_pair_take_last c p first s = (v, p', s')"
  shows "moves s {#p#} s' {#v, p'#}"
  using e
proof (cases rule: rc_pair_take_last_cases)
  case refused
  then show ?thesis by simp
next
  case (transfer a s1)
  obtain h t where p: "load (cell_at s a) = VPair h t" using pair_payload transfer(1,2) by blast
  let ?f = "pair_of HNil HNil False" and ?w = "pair_field s a (\<not> first)"
  have "{#h, t#} = {#?w, v#}" using transfer(5) p by (cases first) (simp_all add: pair_field_def add_mset_commute)
  then have "{#h, t#} + {#HNil, HNil#} = {#HNil, HNil#} + {#?w, v#}" by simp
  from moves_write_pair [OF p transfer(3) _ _ _ this, of ?f]
  have "moves s {#HRef a, HNil, HNil#} (upd_cell a ?f s) {#HRef a, ?w, v#}" by (simp add: pair_of_def)
  then have "moves s {#HNil, HNil, HRef a#} (upd_cell a ?f s) {#?w, v, HRef a#}"
    by (rule moves_cong) (simp_all add: add_mset_commute)
  then have "moves s {#p#} (upd_cell a ?f s) {#?w, v, p'#}" using transfer(1,6) by simp
  from moves_trans [OF this moves_release] have "moves s {#p#} s1 {#v, p'#}" by (simp add: transfer(7))
  with transfer(8) moves_then_upd_stats show ?thesis by blast
next
  case (share a s1)
  have "moves s {#p#} (rc_retain v s) {#p, v#}"
  proof (rule moves_growsI)
    fix R assume ok: "heap_ok s ({#p#} + R)"
    have "live s a" using pair_type_valid share(1,2) by (simp add: valid_def)
    with share(1,2,3) pair_child_valid [OF ok, of a] have "valid s v" by (simp add: pair_field_def)
    from own.retain_inv [OF ok this] show "heap_ok (rc_retain v s) ({#p, v#} + R) \<and> grows s (rc_retain v s)"
      by (simp add: grows_retain add_mset_commute [of v p])
  qed
  from moves_trans [OF this moves_release] have "moves s {#p#} s1 {#v, p'#}" by (simp add: share(4,5) add_mset_commute [of v HNull])
  with share(6) moves_then_upd_stats show ?thesis by blast
qed

lemma rc_pair_take_tail_reuse_cases:
  assumes "rc_pair_take_tail_reuse c p has_out s = (v, p', s')"
  obtains (error) m where "v = HNull" "p' = HNull" "s' = rc_error c m (rc_release p s)"
  | (transfer) a q s1 g where "p = HRef a" "rc_type s p = RC_PAIR" "refs (cell_at s a) = 1"
      "v = tail (load (cell_at s a))" "p' = p"
      "(if has_plan (cell_at s a) then plan_remove a s else (HNull, s)) = (q, s1)"
      "s' = upd_stats c g (rc_release q (rc_release (head (load (cell_at s a))) (upd_cell a (pair_of HNil HNil False) s1)))"
  | (share) a g where "p = HRef a" "rc_type s p = RC_PAIR" "v = tail (load (cell_at s a))" "p' = p"
      "s' = upd_stats c g (rc_retain v s)"
  using assms unfolding rc_pair_take_tail_reuse_def Let_def
  by (cases p) (auto split: if_splits prod.splits)

lemma moves_rc_pair_take_tail_reuse:
  assumes e: "rc_pair_take_tail_reuse c p has_out s = (v, p', s')"
  shows "moves s {#p#} s' {#v, p'#}"
  using e
proof (cases rule: rc_pair_take_tail_reuse_cases)
  case (error m)
  with moves_then_error [OF moves_release, of s p "{#}"] show ?thesis by simp
next
  case (transfer a q s1 g)
  let ?h = "head (load (cell_at s a))" and ?s2 = "upd_cell a (pair_of HNil HNil False) s1"
  have ty: "rc_type s (HRef a) = RC_PAIR" using transfer(1,2) by simp
  have "moves s {#p#} ?s2 {#?h, q, v, p'#}"
  proof (rule movesI)
    fix R assume "heap_ok s ({#p#} + R)"
    then have "heap_ok s (add_mset HNil (add_mset HNil (add_mset (HRef a) R)))" using transfer(1) by simp
    then have ok: "heap_ok s (add_mset (HRef a) (add_mset HNil (add_mset HNil R)))" by (simp only: add_mset_commute)
    note r = rewrite_pair [OF ok ty transfer(3,6), of False]
    have eq: "add_mset ?h (add_mset v (add_mset q (add_mset (HRef a) R))) = {#?h, q, v, p'#} + R"
      using transfer(1,5) by (simp add: add_mset_commute)
    have "heap_ok ?s2 (add_mset ?h (add_mset v (add_mset q (add_mset (HRef a) R))))" using r(1) transfer(4) by simp
    then show "heap_ok ?s2 ({#?h, q, v, p'#} + R)" unfolding eq .
    show "preserves R s ?s2" using preserves_weaken [OF preserves_weaken [OF r(2)]] .
  qed
  from moves_then_upd_stats [OF moves_trans [OF this moves_release_two]] transfer(7) show ?thesis by simp
next
  case (share a g)
  have "moves s {#p#} (rc_retain v s) {#v, p'#}"
  proof (rule moves_growsI)
    fix R assume ok: "heap_ok s ({#p#} + R)"
    have "live s a" using pair_type_valid share(1,2) by (simp add: valid_def)
    with share(1,2,3) pair_child_valid [OF ok, of a] have "valid s v" by simp
    from own.retain_inv [OF ok this] show "heap_ok (rc_retain v s) ({#v, p'#} + R) \<and> grows s (rc_retain v s)"
      by (simp add: grows_retain share(4))
  qed
  from moves_then_upd_stats [OF this] share(5) show ?thesis by simp
qed

lemma rc_head_ok:
  assumes e: "rc_head c p s = (v, s')"
  shows "moves s {#p#} s' {#v, p#}" "rc_type s p = RC_PAIR \<Longrightarrow> p \<noteq> HNull \<Longrightarrow> v = head (load_of s p)"
proof -
  show "rc_type s p = RC_PAIR \<Longrightarrow> p \<noteq> HNull \<Longrightarrow> v = head (load_of s p)" using e by (simp add: rc_head_def)
  show "moves s {#p#} s' {#v, p#}"
  proof (cases "p \<noteq> HNull \<and> rc_type s p = RC_PAIR")
    case False
    with e show ?thesis by (auto simp: rc_head_def rc_fail_def)
  next
    case True
    then obtain a where a: "p = HRef a" by (cases p) auto
    show ?thesis
    proof (rule moves_growsI)
      fix R assume ok: "heap_ok s ({#p#} + R)"
      have "live s a" using pair_type_valid True a by (simp add: valid_def)
      with True a have "valid s (head (load (cell_at s a)))" by (intro pair_child_valid [OF ok]) simp_all
      then have "valid s v" using True e a by (simp add: rc_head_def)
      from own.retain_inv [OF ok this] True e show "heap_ok s' ({#v, p#} + R) \<and> grows s s'"
        by (auto simp: rc_head_def grows_retain)
    qed
  qed
qed

lemma rc_tail_ok:
  assumes e: "rc_tail c p s = (v, s')"
  shows "moves s {#p#} s' {#v, p#}" "rc_type s p = RC_PAIR \<Longrightarrow> p \<noteq> HNull \<Longrightarrow> v = tail (load_of s p)"
proof -
  show "rc_type s p = RC_PAIR \<Longrightarrow> p \<noteq> HNull \<Longrightarrow> v = tail (load_of s p)" using e by (simp add: rc_tail_def)
  show "moves s {#p#} s' {#v, p#}"
  proof (cases "p \<noteq> HNull \<and> rc_type s p = RC_PAIR")
    case False
    with e show ?thesis by (auto simp: rc_tail_def rc_fail_def)
  next
    case True
    then obtain a where a: "p = HRef a" by (cases p) auto
    show ?thesis
    proof (rule moves_growsI)
      fix R assume ok: "heap_ok s ({#p#} + R)"
      have "live s a" using pair_type_valid True a by (simp add: valid_def)
      with True a have "valid s (tail (load (cell_at s a)))" by (intro pair_child_valid [OF ok]) simp_all
      then have "valid s v" using True e a by (simp add: rc_tail_def)
      from own.retain_inv [OF ok this] True e show "heap_ok s' ({#v, p#} + R) \<and> grows s s'"
        by (auto simp: rc_tail_def grows_retain)
    qed
  qed
qed

subsection \<open>List length\<close>

text \<open>The chain of pairs from a handle to nil, with the elements it carries.\<close>

fun list_at :: "mem \<Rightarrow> handle \<Rightarrow> handle list \<Rightarrow> bool" where
  "list_at s v [] \<longleftrightarrow> v = HNil"
| "list_at s v (x # xs) \<longleftrightarrow> rc_type s v = RC_PAIR \<and> head (load_of s v) = x \<and> list_at s (tail (load_of s v)) xs"

lemma list_length_loop_ok:
  "list_at s v xs \<Longrightarrow> n + length xs \<le> SIZE_MAX - 2 \<Longrightarrow> list_length_loop s n v = (RC_LIST_LENGTH_OK, n + length xs)"
proof (induction xs arbitrary: v n)
  case Nil
  then show ?case by (simp add: list_length_loop.simps [of s n] rc_is_nil_def)
next
  case (Cons x xs)
  then have "list_length_loop s n v = list_length_loop s (n + 1) (tail (load_of s v))"
    by (subst list_length_loop.simps) simp
  with Cons show ?case by simp
qed

lemma list_length_loop_sound:
  "list_length_loop s n v = (RC_LIST_LENGTH_OK, m) \<Longrightarrow> \<exists>xs. list_at s v xs \<and> m = n + length xs"
proof (induction s n v rule: list_length_loop.induct)
  case (1 s n v)
  show ?case
  proof (cases "rc_type s v = RC_PAIR")
    case False
    with 1(2) have "v = HNil" "m = n"
      by (auto simp: list_length_loop.simps [of s n v] rc_is_nil_def split: if_splits)
    then show ?thesis by (intro exI [of _ "[]"]) simp
  next
    case True
    with 1(2) have n: "\<not> SIZE_MAX - 2 \<le> n" and e: "list_length_loop s (n + 1) (tail (load_of s v)) = (RC_LIST_LENGTH_OK, m)"
      by (auto simp: list_length_loop.simps [of s n v] split: if_splits)
    from 1(1) [OF True n e] obtain xs where "list_at s (tail (load_of s v)) xs" "m = n + 1 + length xs" by blast
    with True show ?thesis by (intro exI [of _ "head (load_of s v) # xs"]) simp
  qed
qed

lemma rc_list_length_spec:
  assumes "n \<le> SIZE_MAX - 2"
  shows "rc_list_length_cached s v = (RC_LIST_LENGTH_OK, n) \<longleftrightarrow> (\<exists>xs. list_at s v xs \<and> length xs = n)"
proof
  assume e: "rc_list_length_cached s v = (RC_LIST_LENGTH_OK, n)"
  show "\<exists>xs. list_at s v xs \<and> length xs = n"
  proof (cases "rc_is_nil v")
    case True
    with e show ?thesis by (intro exI [of _ "[]"]) (simp add: rc_list_length_cached_def rc_is_nil_def)
  next
    case False
    with e have "list_length_loop s 0 v = (RC_LIST_LENGTH_OK, n)"
      by (auto simp: rc_list_length_cached_def split: if_splits)
    from list_length_loop_sound [OF this] show ?thesis by auto
  qed
next
  assume "\<exists>xs. list_at s v xs \<and> length xs = n"
  then obtain xs where xs: "list_at s v xs" "length xs = n" by blast
  with list_length_loop_ok [OF xs(1), of 0] assms show "rc_list_length_cached s v = (RC_LIST_LENGTH_OK, n)"
    by (cases xs) (auto simp: rc_list_length_cached_def rc_is_nil_def)
qed

end
