(* ===== verification/Contexts.thy ===== *)
theory Contexts
  imports Pairs
begin

text \<open>
  The life of a context (\<open>src/rc/rc.c\<close>): a new context owns nothing and changes no other
  context; the small accessors of the context's execution state (\<open>rc_interpreter_enter\<close>,
  \<open>rc_interpreter_allow_fallback\<close>, the call depth, the collection interval).
\<close>

subsection \<open>Operations\<close>

definition rc_interpreter_enter :: "ctxid \<Rightarrow> mem \<Rightarrow> bool \<times> mem" where
  "rc_interpreter_enter c s =
     (let s = upd_ctx c (\<lambda>x. x\<lparr>interpreter_entries := interpreter_entries x + 1\<rparr>) s; x = ctxs s c
      in if verify_native x \<or> execution_mode x \<noteq> 1 \<and> \<not> interpreter_fallback x
         then (False, rc_error c ''strict native execution entered interpreter'' s)
         else (True, s))"

definition rc_interpreter_allow_fallback :: "ctxid \<Rightarrow> mem \<Rightarrow> bool \<times> mem" where
  "rc_interpreter_allow_fallback c s =
     (if verify_native (ctxs s c) then (False, s)
      else (True, upd_ctx c (\<lambda>x. x\<lparr>interpreter_fallback := True\<rparr>) s))"

definition rc_set_collection_interval :: "ctxid \<Rightarrow> nat \<Rightarrow> mem \<Rightarrow> mem" where
  "rc_set_collection_interval c n s =
     (if c = 0 then s else upd_ctx c (\<lambda>x. x\<lparr>collection_interval := n, adaptive_collection := False\<rparr>) s)"

subsection \<open>The empty process and new contexts\<close>

lemma heap_ok_empty: "heap_ok (empty_mem bs) {#}"
proof -
  let ?s = "empty_mem bs"
  have at: "cell_at ?s a = free_cell" for a by (simp add: cell_at_def empty_mem_def)
  have z: "ctxs ?s c = zero_ctx" for c by (simp add: empty_mem_def)
  have "plans_wf ?s" by (simp add: plans_wf_def plans_ok_def at z zero_ctx_def entries_def free_cell_def)
  moreover have "sources_wf ?s" by (simp add: sources_wf_def is_source_def at z zero_ctx_def free_cell_def)
  moreover have "alloc_wf ?s" by (simp add: alloc_wf_def z zero_ctx_def empty_mem_def live_def)
  moreover have "symbols_ok ?s" by (simp add: symbols_ok_def at free_cell_def)
  moreover have "counts_ok (view ?s) {#} [] {}" by (simp add: counts_ok_def view_def held_def empty_mem_def)
  ultimately show ?thesis by (simp add: heap_ok_def rc_ok_def empty_mem_def)
qed

lemma next_ctx_empty: "next_ctx (empty_mem bs) = 1"
  by (simp add: empty_mem_def)

text \<open>Replacing the record of a context that no page belongs to.\<close>

lemma heap_ok_fresh_ctx:
  assumes ok: "heap_ok s R" and n: "0 < next_ctx s"
    and x: "plans x = []" "plan_count x = 0" "sources x = []" "cycle_sources x = 0" "bump x = (\<lambda>_. None)"
      "free_cells x = (\<lambda>_. [])"
  defines "s' \<equiv> s\<lparr>ctxs := (ctxs s)(next_ctx s := x), next_ctx := next_ctx s + 1\<rparr>"
  shows "heap_ok s' R" "live s a \<Longrightarrow> cell_kept s s' a"
proof -
  let ?c = "next_ctx s"
  note rc = ok [unfolded heap_ok_def]
  note aw = rc_okD(4) [OF rc]
  have proj: "cells s' = cells s" "page_table s' = page_table s" "next_page s' = next_page s" "fault s' = fault s"
    "cell_at s' b = cell_at s b" "live s' b = live s b" "rc_value_context s' b = rc_value_context s b"
    "placed s' b d k = placed s b d k" for b d k
    by (simp_all add: s'_def cell_at_def live_def rc_value_context_def placed_def)
  have cx: "ctxs s' d = (if d = ?c then x else ctxs s d)" for d by (simp add: s'_def)
  have low: "rc_value_context s b < ?c" if "live s b" for b
    using alloc_wfD(6) [OF aw that] alloc_wfD(1) [OF aw]
    by (auto simp: placed_def rc_value_context_def split: option.splits)
  have po: "plan_of s' b = plan_of s b" for b
  proof (cases "has_plan (cell_at s b)")
    case True
    then have "rc_value_context s b \<noteq> ?c" using low [OF has_plan_live [OF True]] by simp
    then show ?thesis by (intro plan_of_cong) (simp_all add: proj cx)
  qed (simp add: plan_of_no_plan proj)
  have "view s' = view s" by (rule view_cong) (simp_all add: proj po)
  moreover have "plans_wf s'"
    unfolding plans_wf_def proj
  proof (intro conjI allI ballI impI)
    note wf = rc_okD(2) [OF rc]
    show "plans_ok (ctxs s' d)" for d using plans_wfD(1) [OF wf, of d] x by (simp add: cx plans_ok_def)
    fix d e assume "e \<in> entries (plans (ctxs s' d))"
    then have e: "e \<in> entries (plans (ctxs s d))" using x by (auto simp: cx entries_def split: if_splits)
    from plans_wfD(2) [OF wf e] show "has_plan (cell_at s (plan_key e))" "rc_value_context s (plan_key e) = d"
      "type_of_payload (load (cell_at s (plan_key e))) = RC_PAIR" by auto
  qed (rule plans_wfD(3) [OF rc_okD(2) [OF rc]])
  moreover have "sources_wf s'"
  proof -
    have "{b. is_source s b \<and> rc_value_context s b = ?c} = {}" using low is_source_live by fastforce
    then show ?thesis using rc_okD(3) [OF rc] x by (simp add: sources_wf_def cx proj is_source_def)
  qed
  moreover have "alloc_wf s'"
    unfolding alloc_wf_def proj
  proof (intro conjI allI impI ballI)
    fix m q assume "fmlookup (page_table s) m = Some q"
    from alloc_wfD(1) [OF aw this] show "m < next_page s" "page_ok q" "page_ctx q \<noteq> 0" "page_ctx q < next_ctx s'"
      by (simp_all add: s'_def)
  next
    fix d k m assume "bump (ctxs s' d) k = Some m"
    then have "bump (ctxs s d) k = Some m" using x by (auto simp: cx split: if_splits)
    from alloc_wfD(2) [OF aw this] show "\<exists>p. fmlookup (page_table s) m = Some p \<and> page_ctx p = d \<and> page_cell_bytes p = class_bytes k" .
  next
    fix d k
    show "distinct (free_cells (ctxs s' d) k)" using alloc_wfD(3) [OF aw, of d k] x by (simp add: cx)
    show "free_cells (ctxs s' d) k = []" if "k \<noteq> 0 \<and> k \<noteq> 1" using alloc_wfD(4) [OF aw, of k d] that x by (simp add: cx)
    fix b assume "b \<in> set (free_cells (ctxs s' d) k)"
    then have "b \<in> set (free_cells (ctxs s d) k)" using x by (auto simp: cx split: if_splits)
    from alloc_wfD(5) [OF aw this] show "\<not> live s b" "placed s b d (class_bytes k)" by simp_all
  qed (rule alloc_wfD(6) [OF aw])
  moreover have "symbols_ok s'" using rc_okD(5) [OF rc] by (simp add: symbols_ok_def proj)
  ultimately show "heap_ok s' R" using rc_okD(1,6) [OF rc] by (simp add: heap_ok_def rc_ok_def proj)
  show "cell_kept s s' a" if "live s a" using that by (simp add: cell_kept_def proj po)
qed

lemma rc_context_new_ok:
  assumes ok: "heap_ok s R" and n: "0 < next_ctx s" and e: "rc_context_new_with_policy policy strict backend s = (c, s')"
  shows "heap_ok s' R" "\<forall>a. live s a \<longrightarrow> cell_kept s s' a"
    "c = 0 \<and> next_ctx s' = next_ctx s \<or> c = next_ctx s \<and> next_ctx s' = next_ctx s + 1 \<and> c < next_ctx s'"
proof -
  let ?t = "snd (library_call s)"
  have okt: "heap_ok ?t R" by (rule heap_ok_same_heap [OF ok same_heap_library_call])
  have kt: "cell_kept s ?t a" if "live s a" for a using grows_library_call that by (simp add: grows_def)
  have "heap_ok s' R \<and> (\<forall>a. live s a \<longrightarrow> cell_kept s s' a) \<and>
    (c = 0 \<and> next_ctx s' = next_ctx s \<or> c = next_ctx s \<and> next_ctx s' = next_ctx s + 1 \<and> c < next_ctx s')"
  proof (cases "fst (library_call s)")
    case False
    with e have "c = 0" "s' = ?t" by (auto simp: rc_context_new_with_policy_def case_prod_beta)
    with okt kt show ?thesis by simp
  next
    case True
    let ?x = "zero_ctx\<lparr>collection_interval := 4096, adaptive_collection := True,
        verify_native := (case strict of None \<Rightarrow> False | Some v \<Rightarrow> v \<noteq> ''0''),
        execution_mode := (case backend of None \<Rightarrow> 0 | Some v \<Rightarrow> if v = ''native'' then 0 else if v = ''interpret'' then 1 else - 1),
        acyclic := (policy = RC_ACYCLIC_ONLY)\<rparr>"
    from True e have s': "c = next_ctx s" "s' = ?t\<lparr>ctxs := (ctxs ?t)(next_ctx ?t := ?x), next_ctx := next_ctx ?t + 1\<rparr>"
      by (auto simp: rc_context_new_with_policy_def case_prod_beta Let_def)
    have nt: "0 < next_ctx ?t" using n by simp
    note f = heap_ok_fresh_ctx [OF okt nt, of ?x]
    have "heap_ok s' R" unfolding s'(2) by (rule f(1)) (simp_all add: zero_ctx_def)
    moreover have "cell_kept ?t s' a" if "live ?t a" for a unfolding s'(2) by (rule f(2)) (use that in \<open>simp_all add: zero_ctx_def\<close>)
    then have "cell_kept s s' a" if "live s a" for a using cell_kept_trans [OF kt [OF that]] that by simp
    ultimately show ?thesis using s' by simp
  qed
  then show "heap_ok s' R" "\<forall>a. live s a \<longrightarrow> cell_kept s s' a"
    "c = 0 \<and> next_ctx s' = next_ctx s \<or> c = next_ctx s \<and> next_ctx s' = next_ctx s + 1 \<and> c < next_ctx s'" by simp_all
qed

end
