(* ===== verification/Vectors.thy ===== *)
theory Vectors
  imports Contexts
begin

text \<open>
  Vectors (\<open>src/rc/rc.c\<close>): \<open>rc_vector\<close>, \<open>rc_vector_get\<close>, \<open>rc_vector_set\<close> and the bounded graph
  search \<open>reaches\<close> that decides whether an assignment may close a cycle. Visited bits and the
  scratch array are modelled as they are: the bits live in the cells, the array's capacity in
  the context, and growing it is a library call that can fail.
\<close>

subsection \<open>Operations\<close>

record walk =
  \<comment> \<open>\<open>CycleSearch\<close> and \<open>GcScan\<close>: the nodes collected so far and the outcome\<close>
  nodes_found :: "addr list"
  found :: bool
  failed :: bool
  walk_mem :: mem

definition walk_push :: "ctxid \<Rightarrow> nat \<Rightarrow> mem \<Rightarrow> bool \<times> mem" where
  \<comment> \<open>room for one more entry when \<open>n\<close> are used\<close>
  "walk_push c n s =
     (if n = walk_capacity (ctxs s c)
      then let capacity = (if walk_capacity (ctxs s c) \<noteq> 0 then walk_capacity (ctxs s c) * 2 else 256)
           in if capacity > SIZE_MAX div PTR_BYTES then (False, s)
              else let (ok, s) = library_call s
                   in if ok then (True, upd_ctx c (\<lambda>x. x\<lparr>walk_capacity := capacity\<rparr>) s) else (False, s)
      else (True, s))"

definition cycle_search_edge :: "ctxid \<Rightarrow> addr \<Rightarrow> handle \<Rightarrow> walk \<Rightarrow> walk" where
  "cycle_search_edge c target v w =
     (case v of
        HRef a \<Rightarrow>
          if \<not> may_reach_vector (walk_mem w) v then w
          else if a = target then w\<lparr>found := True\<rparr>
          else if visited (cell_at (walk_mem w) a) then w
          else let s = upd_cell a (\<lambda>x. x\<lparr>visited := True\<rparr>) (walk_mem w);
                   (ok, s) = walk_push c (length (nodes_found w)) s
               in if ok then w\<lparr>nodes_found := nodes_found w @ [a], walk_mem := s\<rparr>
                  else w\<lparr>failed := True, walk_mem := s\<rparr>
      | _ \<Rightarrow> w)"

definition search_width :: "cell \<Rightarrow> nat" where
  "search_width x =
     (case load x of
        VPair _ _ \<Rightarrow> 2 + (if has_plan x then 1 else 0)
      | VVector xs _ \<Rightarrow> length xs
      | VClosure _ _ _ caps bnd \<Rightarrow> length caps + length bnd
      | VEnv _ _ vs _ \<Rightarrow> 1 + length vs
      | VTail _ args _ \<Rightarrow> 1 + length args
      | _ \<Rightarrow> 0)"

definition search_edges :: "ctxid \<Rightarrow> addr \<Rightarrow> addr \<Rightarrow> walk \<Rightarrow> walk" where
  \<comment> \<open>\<open>edges(v, cycle_search_edge, &search)\<close>\<close>
  "search_edges c target a w = fold (cycle_search_edge c target) (edges (walk_mem w) a) w"

definition unvisited :: "mem \<Rightarrow> nat" where
  "unvisited s = card {a \<in> fmdom' (cells s). \<not> visited (cell_at s a)}"

lemma unvisited_visit:
  assumes "live s a" "\<not> visited (cell_at s a)"
  shows "unvisited (upd_cell a (\<lambda>x. x\<lparr>visited := True\<rparr>) s) + 1 = unvisited s"
proof -
  let ?S = "{b \<in> fmdom' (cells s). \<not> visited (cell_at s b)}"
  have "{b \<in> fmdom' (cells s). \<not> visited (cell_at (upd_cell a (\<lambda>x. x\<lparr>visited := True\<rparr>) s) b)} = ?S - {a}"
    using assms(1) by (auto simp: cell_at_upd_cell)
  moreover have "a \<in> ?S" using assms by (simp add: live_fmdom)
  ultimately show ?thesis unfolding unvisited_def
    using card_Suc_Diff1 [of ?S a] by simp
qed

lemma walk_push_simps [simp]:
  "cells (snd (walk_push c n s)) = cells s" "cell_at (snd (walk_push c n s)) a = cell_at s a"
  "live (snd (walk_push c n s)) a = live s a"
  by (simp_all add: walk_push_def Let_def case_prod_beta)

lemma unvisited_push [simp]: "unvisited (snd (walk_push c n s)) = unvisited s"
  by (simp add: unvisited_def)

lemma reaches_vector_live: "reaches_vector (cell_at s a) \<Longrightarrow> live s a"
  using cell_at_dead [of s a] by (cases "live s a") (simp_all add: free_cell_def)

lemma search_measure:
  "unvisited (walk_mem (cycle_search_edge c t v w)) + length (nodes_found (cycle_search_edge c t v w))
     \<le> unvisited (walk_mem w) + length (nodes_found w) \<and>
   length (nodes_found w) \<le> length (nodes_found (cycle_search_edge c t v w))"
proof (cases v)
  case (HRef a)
  show ?thesis
  proof (cases "reaches_vector (cell_at (walk_mem w) a) \<and> a \<noteq> t \<and> \<not> visited (cell_at (walk_mem w) a)")
    case True
    with unvisited_visit [OF reaches_vector_live, of "walk_mem w" a] HRef show ?thesis
      by (auto simp: cycle_search_edge_def Let_def case_prod_beta)
  qed (use HRef in \<open>auto simp: cycle_search_edge_def\<close>)
qed (simp_all add: cycle_search_edge_def)

lemma search_edges_measure:
  "unvisited (walk_mem (search_edges c t a w)) + length (nodes_found (search_edges c t a w))
     \<le> unvisited (walk_mem w) + length (nodes_found w) \<and>
   length (nodes_found w) \<le> length (nodes_found (search_edges c t a w))"
proof -
  have "unvisited (walk_mem (fold (cycle_search_edge c t) vs u)) + length (nodes_found (fold (cycle_search_edge c t) vs u))
     \<le> unvisited (walk_mem u) + length (nodes_found u) \<and>
     length (nodes_found u) \<le> length (nodes_found (fold (cycle_search_edge c t) vs u))" for vs u
  proof (induction vs arbitrary: u)
    case (Cons v vs)
    from Cons.IH [of "cycle_search_edge c t v u"] search_measure [of c t v u] show ?case by simp
  qed simp
  then show ?thesis by (simp add: search_edges_def)
qed

lemma search_step_less:
  "i < length (nodes_found w) \<Longrightarrow>
     unvisited (walk_mem (search_edges c t a w)) + length (nodes_found (search_edges c t a w)) - Suc i
       < unvisited (walk_mem w) + length (nodes_found w) - i"
  using search_edges_measure [of c t a w] by linarith

function search_loop :: "ctxid \<Rightarrow> addr \<Rightarrow> nat \<Rightarrow> nat \<Rightarrow> walk \<Rightarrow> bool \<times> walk" where
  \<comment> \<open>node \<open>i\<close> is expanded next; the first result is the early answer of the budget test\<close>
  "search_loop c target budget i w =
     (if i < length (nodes_found w) \<and> \<not> found w \<and> \<not> failed w
      then let a = nodes_found w ! i; width = search_width (cell_at (walk_mem w) a)
           in if budget = 0 \<or> width > budget - 1 then (True, w)
              else search_loop c target (budget - (width + 1)) (i + 1) (search_edges c target a w)
      else (False, w))"
  by pat_completeness auto
termination
  by (relation "measure (\<lambda>(c, t, b, i, w). unvisited (walk_mem w) + length (nodes_found w) - i)")
    (simp_all add: search_step_less)

declare search_loop.simps [simp del]

lemma search_loop_stop: "\<not> (i < length (nodes_found w) \<and> \<not> found w \<and> \<not> failed w) \<Longrightarrow> search_loop c t b i w = (False, w)"
  by (subst search_loop.simps) auto

lemma search_loop_budget:
  "i < length (nodes_found w) \<and> \<not> found w \<and> \<not> failed w \<Longrightarrow>
     b = 0 \<or> b - 1 < search_width (cell_at (walk_mem w) (nodes_found w ! i)) \<Longrightarrow> search_loop c t b i w = (True, w)"
  by (subst search_loop.simps) (simp add: Let_def)

lemma search_loop_step:
  "i < length (nodes_found w) \<and> \<not> found w \<and> \<not> failed w \<Longrightarrow>
     \<not> (b = 0 \<or> b - 1 < search_width (cell_at (walk_mem w) (nodes_found w ! i))) \<Longrightarrow>
     search_loop c t b i w = search_loop c t (b - (search_width (cell_at (walk_mem w) (nodes_found w ! i)) + 1)) (i + 1)
       (search_edges c t (nodes_found w ! i) w)"
  by (subst search_loop.simps) (simp add: Let_def)

text \<open>Induction over the search, with one case per outcome of an iteration.\<close>

lemma search_loop_induct [case_names stop budget step]:
  assumes "\<And>b i w. \<not> (i < length (nodes_found w) \<and> \<not> found w \<and> \<not> failed w) \<Longrightarrow> P b i w (False, w)"
    and "\<And>b i w. i < length (nodes_found w) \<Longrightarrow> \<not> found w \<Longrightarrow> \<not> failed w \<Longrightarrow> P b i w (True, w)"
    and "\<And>b b' i w r. i < length (nodes_found w) \<Longrightarrow> \<not> found w \<Longrightarrow> \<not> failed w \<Longrightarrow>
      P b' (i + 1) (search_edges c t (nodes_found w ! i) w) r \<Longrightarrow> P b i w r"
  shows "P b i w (search_loop c t b i w)"
  using assms
proof (induction c t b i w rule: search_loop.induct)
  case (1 c t b i w)
  note ih = 1(1) and stop = 1(2) and budget = 1(3) and step = 1(4)
  let ?go = "i < length (nodes_found w) \<and> \<not> found w \<and> \<not> failed w"
  let ?width = "search_width (cell_at (walk_mem w) (nodes_found w ! i))"
  consider "\<not> ?go" | "?go" "b = 0 \<or> b - 1 < ?width" | "?go" "\<not> (b = 0 \<or> b - 1 < ?width)" by blast
  then show ?case
  proof cases
    case 3
    have "P (b - (?width + 1)) (i + 1) (search_edges c t (nodes_found w ! i) w)
       (search_loop c t (b - (?width + 1)) (i + 1) (search_edges c t (nodes_found w ! i) w))"
      by (rule ih [OF _ refl refl]) (use 3 stop budget step in blast)+
    with 3 step show ?thesis unfolding search_loop_step [OF 3] by blast
  qed (use stop budget search_loop_stop search_loop_budget in metis)+
qed

definition clear_visited :: "addr list \<Rightarrow> mem \<Rightarrow> mem" where
  "clear_visited as s = fold (\<lambda>a. upd_cell a (\<lambda>x. x\<lparr>visited := False\<rparr>)) as s"

definition reaches :: "ctxid \<Rightarrow> addr \<Rightarrow> handle \<Rightarrow> nat \<Rightarrow> bool \<Rightarrow> mem \<Rightarrow> bool \<times> mem" where
  "reaches c target item budget from_children s =
     (let w = \<lparr>nodes_found = [], found = False, failed = False, walk_mem = s\<rparr>;
          w = (case item of
                 HRef a \<Rightarrow> if from_children then search_edges c target a w else cycle_search_edge c target item w
               | _ \<Rightarrow> w);
          (early, w) = search_loop c target budget 0 w
      in (early \<or> found w \<or> failed w, clear_visited (nodes_found w) (walk_mem w)))"

definition would_create_cycle :: "ctxid \<Rightarrow> addr \<Rightarrow> handle \<Rightarrow> nat \<Rightarrow> mem \<Rightarrow> bool \<times> mem" where
  "would_create_cycle c target item budget s = reaches c target item budget False s"

definition on_cycle :: "ctxid \<Rightarrow> addr \<Rightarrow> mem \<Rightarrow> bool \<times> mem" where
  "on_cycle c source s = reaches c source (HRef source) SIZE_MAX True s"

definition rc_vector :: "ctxid \<Rightarrow> nat \<Rightarrow> mem \<Rightarrow> handle \<times> mem" where
  "rc_vector c n s =
     (if n > SIZE_MAX div PTR_BYTES then rc_fail c ''vector size overflow'' s
      else let (ok, s) = (if n \<noteq> 0 then library_call s else (True, s))
           in if \<not> ok then rc_fail c ''out of memory'' s
              else case allocate c RC_VECTOR (n * PTR_BYTES) s of
                     (HRef a, s) \<Rightarrow>
                       (HRef a, upd_cell a (\<lambda>x. x\<lparr>load := VVector (replicate n HNil) False, reaches_vector := True\<rparr>) s)
                   | (v, s) \<Rightarrow> (v, s))"

definition rc_vector_length :: "mem \<Rightarrow> handle \<Rightarrow> nat" where
  "rc_vector_length s v = (if v \<noteq> HNull \<and> rc_type s v = RC_VECTOR then length (items (load_of s v)) else 0)"

definition rc_vector_get :: "ctxid \<Rightarrow> handle \<Rightarrow> nat \<Rightarrow> mem \<Rightarrow> handle \<times> mem" where
  "rc_vector_get c v i s =
     (if v \<noteq> HNull \<and> rc_type s v = RC_VECTOR \<and> i < length (items (load_of s v))
      then (items (load_of s v) ! i, rc_retain (items (load_of s v) ! i) s)
      else rc_fail c ''absvector index out of bounds'' s)"

definition rc_vector_slot_borrowed :: "mem \<Rightarrow> handle \<Rightarrow> nat \<Rightarrow> handle" where
  "rc_vector_slot_borrowed s v i =
     (if rc_type s v = RC_VECTOR \<and> i < length (items (load_of s v)) then items (load_of s v) ! i else HNull)"

fun with_item :: "nat \<Rightarrow> handle \<Rightarrow> payload \<Rightarrow> payload" where
  "with_item i v (VVector xs b) = VVector (xs[i := v]) b"
| "with_item i v p = p"

definition store_item :: "addr \<Rightarrow> nat \<Rightarrow> handle \<Rightarrow> mem \<Rightarrow> mem" where
  \<comment> \<open>the assignment itself: retain the new item, store it, release the old one\<close>
  "store_item a i item s =
     (let old = items (load (cell_at s a)) ! i
      in rc_release old (upd_cell a (\<lambda>x. x\<lparr>load := with_item i item (load x)\<rparr>) (rc_retain item s)))"

definition rc_vector_set :: "ctxid \<Rightarrow> handle \<Rightarrow> nat \<Rightarrow> handle \<Rightarrow> mem \<Rightarrow> bool \<times> mem" where
  "rc_vector_set c v i item s =
     (case v of
        HRef a \<Rightarrow>
          if \<not> belongs s c v \<or> rc_type s v \<noteq> RC_VECTOR \<or> i \<ge> length (items (load (cell_at s a))) \<or> \<not> belongs s c item
          then (False, rc_error c ''invalid absvector assignment'' s)
          else let strict = acyclic (ctxs s c);
                   (closes, s) =
                     (if may_reach_vector s item \<and> (strict \<or> \<not> cycle_source (load (cell_at s a)))
                      then would_create_cycle c a item (if strict then SIZE_MAX else 256) s
                      else (False, s))
               in if closes \<and> strict
                  then (False, rc_error c ''acyclic mode rejects vector assignment that would create a cycle'' s)
                  else (True, store_item a i item (if closes then source_link c a s else s))
      | _ \<Rightarrow> (False, rc_error c ''invalid absvector assignment'' s))"

subsection \<open>Walks change only walk state\<close>

definition walk_only :: "mem \<Rightarrow> mem \<Rightarrow> bool" where
  "walk_only s s' \<longleftrightarrow> same_heap s s' \<and> same_core s s' \<and> closed_files s' = closed_files s \<and>
     (\<forall>a. same_contents (cell_at s a) (cell_at s' a))"

lemma walk_only_refl [simp]: "walk_only s s"
  by (simp add: walk_only_def)

lemma walk_only_trans: "walk_only s t \<Longrightarrow> walk_only t u \<Longrightarrow> walk_only s u"
  unfolding walk_only_def by (auto intro: same_heap_trans same_core_trans same_contents_trans)

lemma walk_only_upd_cell:
  assumes "live s a" "\<And>x. refs (f x) = refs x \<and> same_contents x (f x)"
  shows "walk_only s (upd_cell a f s)"
  using assms by (auto simp: walk_only_def same_heap_def cell_at_upd_cell same_contents_def)

lemma walk_only_library_call [simp]: "walk_only s (snd (library_call s))"
  by (simp add: walk_only_def)

lemma walk_only_capacity:
  "walk_only s (upd_ctx c (\<lambda>x. x\<lparr>walk_capacity := n\<rparr>) s)" "walk_only s (upd_ctx c (\<lambda>x. x\<lparr>gc_capacity := n\<rparr>) s)"
  by (auto simp: walk_only_def ctx_core_def heap_fields_cleared_def intro: same_heap_upd_ctx same_core_upd_ctx)

lemma walk_only_push [simp]: "walk_only s (snd (walk_push c n s))"
  using walk_only_trans [OF walk_only_library_call walk_only_capacity(1)]
  by (auto simp: walk_push_def Let_def case_prod_beta)

lemma walk_only_search_edge: "walk_only (walk_mem w) (walk_mem (cycle_search_edge c t v w))"
proof (cases v)
  case (HRef a)
  show ?thesis
  proof (cases "reaches_vector (cell_at (walk_mem w) a) \<and> a \<noteq> t \<and> \<not> visited (cell_at (walk_mem w) a)")
    case True
    have "walk_only (walk_mem w) (upd_cell a (\<lambda>x. x\<lparr>visited := True\<rparr>) (walk_mem w))"
      by (rule walk_only_upd_cell) (use True in \<open>simp_all add: reaches_vector_live same_contents_def\<close>)
    from walk_only_trans [OF this walk_only_push] True HRef show ?thesis
      by (simp add: cycle_search_edge_def Let_def case_prod_beta)
  qed (use HRef in \<open>auto simp: cycle_search_edge_def\<close>)
qed (simp_all add: cycle_search_edge_def)

lemma walk_only_search_edges: "walk_only (walk_mem w) (walk_mem (search_edges c t a w))"
proof -
  have "walk_only (walk_mem u) (walk_mem (fold (cycle_search_edge c t) vs u))" for vs u
    by (induction vs arbitrary: u) (auto intro: walk_only_trans [OF walk_only_search_edge])
  then show ?thesis by (simp add: search_edges_def)
qed

lemma walk_only_search_loop: "walk_only (walk_mem w) (walk_mem (snd (search_loop c t b i w)))"
  by (rule search_loop_induct [where P = "\<lambda>b i w r. walk_only (walk_mem w) (walk_mem (snd r))"])
    (auto intro: walk_only_trans [OF walk_only_search_edges])

lemma walk_only_clear: "\<forall>a\<in>set as. live s a \<Longrightarrow> walk_only s (clear_visited as s)"
proof (induction as arbitrary: s)
  case (Cons a as)
  have "walk_only s (upd_cell a (\<lambda>x. x\<lparr>visited := False\<rparr>) s)"
    by (rule walk_only_upd_cell) (use Cons.prems in \<open>simp_all add: same_contents_def\<close>)
  from walk_only_trans [OF this Cons.IH] Cons.prems show ?case by (simp add: clear_visited_def)
qed (simp add: clear_visited_def)

lemma walk_onlyD:
  assumes "walk_only s s'"
  shows "same_heap s s'" "live s' a = live s a" "load (cell_at s' a) = load (cell_at s a)"
    "has_plan (cell_at s' a) = has_plan (cell_at s a)" "reaches_vector (cell_at s' a) = reaches_vector (cell_at s a)"
    "refs (cell_at s' a) = refs (cell_at s a)" "rc_value_context s' a = rc_value_context s a" "edges s' a = edges s a"
    "holds s' a = holds s a" "plan_of s' a = plan_of s a"
proof -
  from assms have h: "same_heap s s'" and sc: "same_contents (cell_at s a) (cell_at s' a)" by (simp_all add: walk_only_def)
  then show "same_heap s s'" "live s' a = live s a" "load (cell_at s' a) = load (cell_at s a)"
    "has_plan (cell_at s' a) = has_plan (cell_at s a)" "reaches_vector (cell_at s' a) = reaches_vector (cell_at s a)"
    "refs (cell_at s' a) = refs (cell_at s a)" "rc_value_context s' a = rc_value_context s a"
    by (simp_all add: same_heap_def same_contents_def live_fmdom rc_value_context_def)
  have po: "plan_of s' a = plan_of s a"
    by (rule plan_of_cong) (use h in \<open>simp_all add: same_heap_def rc_value_context_def\<close>)
  then show "plan_of s' a = plan_of s a" .
  show "edges s' a = edges s a" "holds s' a = holds s a"
    by (rule edges_cong holds_cong; use h po in \<open>simp add: same_heap_def\<close>)+
qed

lemma grows_walk_only: "walk_only s s' \<Longrightarrow> grows s s'"
  using walk_onlyD [of s s'] by (simp add: grows_def cell_kept_def walk_only_def)

subsection \<open>What the search finds\<close>

definition visited_clear :: "mem \<Rightarrow> bool" where
  \<comment> \<open>outside a walk no cell carries a walk mark\<close>
  "visited_clear s \<longleftrightarrow> (\<forall>a. \<not> visited (cell_at s a))"

definition walk_ok :: "mem \<Rightarrow> addr \<Rightarrow> walk \<Rightarrow> bool" where
  "walk_ok s t w \<longleftrightarrow> walk_only s (walk_mem w) \<and> distinct (nodes_found w) \<and>
     (\<forall>a\<in>set (nodes_found w). reaches_vector (cell_at s a)) \<and>
     (\<forall>a\<in>set (nodes_found w). visited (cell_at (walk_mem w) a)) \<and>
     (visited_clear s \<longrightarrow> \<not> failed w \<longrightarrow> (\<forall>a. visited (cell_at (walk_mem w) a) \<longrightarrow> a \<in> set (nodes_found w))) \<and>
     t \<notin> set (nodes_found w)"

lemma visited_walk_push [simp]: "visited (cell_at (snd (walk_push c n s)) a) = visited (cell_at s a)"
  by simp

lemma search_edge_ok:
  fixes s :: mem and t :: addr and w :: walk and c :: ctxid and v :: handle
  assumes ok: "walk_ok s t w"
  defines "w' \<equiv> cycle_search_edge c t v w"
  shows "walk_ok s t w'" "set (nodes_found w) \<subseteq> set (nodes_found w')"
    "\<exists>ns. nodes_found w' = nodes_found w @ ns" "failed w \<Longrightarrow> failed w'" "found w \<Longrightarrow> found w'"
    "visited_clear s \<Longrightarrow> \<not> found w' \<Longrightarrow> \<not> failed w' \<Longrightarrow> v = HRef a \<Longrightarrow> reaches_vector (cell_at s a) \<Longrightarrow> a \<in> set (nodes_found w') \<and> a \<noteq> t"
proof -
  have wo: "walk_only s (walk_mem w)" using ok by (simp add: walk_ok_def)
  note rv = walk_onlyD(5) [OF wo]
  have main: "walk_ok s t w' \<and> (\<exists>ns. nodes_found w' = nodes_found w @ ns) \<and> (failed w \<longrightarrow> failed w') \<and> (found w \<longrightarrow> found w') \<and>
    (visited_clear s \<longrightarrow> \<not> found w' \<longrightarrow> \<not> failed w' \<longrightarrow> (\<forall>a. v = HRef a \<longrightarrow> reaches_vector (cell_at s a) \<longrightarrow> a \<in> set (nodes_found w') \<and> a \<noteq> t))"
  proof (cases "\<exists>b. v = HRef b \<and> reaches_vector (cell_at s b)")
    case False
    then have "w' = w" by (cases v) (auto simp: w'_def cycle_search_edge_def rv)
    with False ok show ?thesis by auto
  next
    case True
    then obtain b where b: "v = HRef b" "reaches_vector (cell_at s b)" by blast
    consider "b = t" | "b \<noteq> t" "visited (cell_at (walk_mem w) b)" | "b \<noteq> t" "\<not> visited (cell_at (walk_mem w) b)" by blast
    then show ?thesis
    proof cases
      case 1
      then have "w' = w\<lparr>found := True\<rparr>" using b by (simp add: w'_def cycle_search_edge_def rv)
      with ok show ?thesis by (simp add: walk_ok_def)
    next
      case 2
      then have "w' = w" using b by (simp add: w'_def cycle_search_edge_def rv)
      with ok 2 b show ?thesis by (auto simp: walk_ok_def)
    next
      case 3
      let ?u = "upd_cell b (\<lambda>x. x\<lparr>visited := True\<rparr>) (walk_mem w)"
      let ?p = "walk_push c (length (nodes_found w)) ?u"
      have w': "w' = (if fst ?p then w\<lparr>nodes_found := nodes_found w @ [b], walk_mem := snd ?p\<rparr>
          else w\<lparr>failed := True, walk_mem := snd ?p\<rparr>)"
        using 3 b by (simp add: w'_def cycle_search_edge_def rv Let_def case_prod_beta)
      have live: "live (walk_mem w) b" using reaches_vector_live b(2) walk_onlyD(2) [OF wo] by simp
      have wp: "walk_only s (snd ?p)"
      proof (rule walk_only_trans [OF wo walk_only_trans [OF _ walk_only_push]])
        show "walk_only (walk_mem w) ?u" by (rule walk_only_upd_cell [OF live]) (simp add: same_contents_def)
      qed
      have vis: "visited (cell_at (snd ?p) a) \<longleftrightarrow> a = b \<or> visited (cell_at (walk_mem w) a)" for a
        using live by (auto simp: cell_at_upd_cell)
      have nb: "b \<notin> set (nodes_found w)" using ok 3 by (auto simp: walk_ok_def)
      show ?thesis using ok wp vis nb b 3 w' by (auto simp: walk_ok_def)
    qed
  qed
  then show "walk_ok s t w'" "\<exists>ns. nodes_found w' = nodes_found w @ ns" "failed w \<Longrightarrow> failed w'" "found w \<Longrightarrow> found w'"
    "visited_clear s \<Longrightarrow> \<not> found w' \<Longrightarrow> \<not> failed w' \<Longrightarrow> v = HRef a \<Longrightarrow> reaches_vector (cell_at s a) \<Longrightarrow> a \<in> set (nodes_found w') \<and> a \<noteq> t"
    by blast+
  from main show "set (nodes_found w) \<subseteq> set (nodes_found w')" by auto
qed

lemma search_fold_ok:
  assumes "walk_ok s t w"
  shows "walk_ok s t (fold (cycle_search_edge c t) vs w) \<and>
    (\<exists>ns. nodes_found (fold (cycle_search_edge c t) vs w) = nodes_found w @ ns) \<and>
    (failed w \<longrightarrow> failed (fold (cycle_search_edge c t) vs w)) \<and> (found w \<longrightarrow> found (fold (cycle_search_edge c t) vs w)) \<and>
    (visited_clear s \<longrightarrow> \<not> found (fold (cycle_search_edge c t) vs w) \<longrightarrow> \<not> failed (fold (cycle_search_edge c t) vs w) \<longrightarrow>
      (\<forall>a. HRef a \<in> set vs \<longrightarrow> reaches_vector (cell_at s a) \<longrightarrow> a \<in> set (nodes_found (fold (cycle_search_edge c t) vs w)) \<and> a \<noteq> t))"
  using assms
proof (induction vs arbitrary: w)
  case (Cons v vs)
  note e = search_edge_ok [OF Cons.prems, of c v]
  note ih = Cons.IH [OF e(1)]
  let ?w = "cycle_search_edge c t v w" and ?r = "fold (cycle_search_edge c t) vs (cycle_search_edge c t v w)"
  have "a \<in> set (nodes_found ?r) \<and> a \<noteq> t"
    if "visited_clear s" "\<not> found ?r" "\<not> failed ?r" "HRef a \<in> set (v # vs)" "reaches_vector (cell_at s a)" for a
    using that ih e(6) [of a] by auto
  moreover have "\<exists>ns. nodes_found ?r = nodes_found w @ ns" using ih e(3) by auto
  ultimately show ?case using ih e(4,5) by auto
qed simp

definition vector_edge :: "mem \<Rightarrow> (addr \<times> addr) set" where
  \<comment> \<open>the edges a search follows: those to cells that may reach a vector\<close>
  "vector_edge s = {(a, b). HRef b \<in> set (edges s a) \<and> reaches_vector (cell_at s b)}"

definition expanded :: "mem \<Rightarrow> addr \<Rightarrow> nat \<Rightarrow> walk \<Rightarrow> bool" where
  "expanded s t i w \<longleftrightarrow> (visited_clear s \<longrightarrow> \<not> found w \<longrightarrow> \<not> failed w \<longrightarrow>
     (\<forall>j<i. \<forall>b. (nodes_found w ! j, b) \<in> vector_edge s \<longrightarrow> b \<in> set (nodes_found w) \<and> b \<noteq> t))"

lemma search_edges_ok:
  assumes "walk_ok s t w" "i < length (nodes_found w)" "expanded s t i w"
  shows "expanded s t (Suc i) (search_edges c t (nodes_found w ! i) w)"
proof -
  let ?a = "nodes_found w ! i" and ?r = "search_edges c t (nodes_found w ! i) w"
  have wo: "walk_only s (walk_mem w)" using assms(1) by (simp add: walk_ok_def)
  note f = search_fold_ok [OF assms(1), of c "edges (walk_mem w) ?a", folded search_edges_def]
  from f obtain ns where ns: "nodes_found ?r = nodes_found w @ ns" by blast
  show ?thesis unfolding expanded_def
  proof (intro impI allI)
    fix j b assume r: "visited_clear s" "\<not> found ?r" "\<not> failed ?r" "j < Suc i" and e: "(nodes_found ?r ! j, b) \<in> vector_edge s"
    have j: "nodes_found ?r ! j = nodes_found w ! j" using r(4) assms(2) by (simp add: ns nth_append)
    show "b \<in> set (nodes_found ?r) \<and> b \<noteq> t"
    proof (cases "j = i")
      case True
      then show ?thesis using f r e j walk_onlyD(8) [OF wo] by (auto simp: vector_edge_def)
    next
      case False
      then have "j < i" using r(4) by simp
      moreover have "\<not> found w" "\<not> failed w" using f r by auto
      ultimately have "b \<in> set (nodes_found w) \<and> b \<noteq> t" using r(1) assms(3) e j by (auto simp: expanded_def)
      then show ?thesis by (simp add: ns)
    qed
  qed
qed

lemma search_loop_ok:
  assumes "walk_ok s t w" "expanded s t i w"
  shows "walk_ok s t (snd (search_loop c t b i w)) \<and> set (nodes_found w) \<subseteq> set (nodes_found (snd (search_loop c t b i w))) \<and>
    (\<not> fst (search_loop c t b i w) \<longrightarrow>
      expanded s t (length (nodes_found (snd (search_loop c t b i w)))) (snd (search_loop c t b i w)))"
proof -
  let ?P = "\<lambda>b i w r. walk_ok s t w \<longrightarrow> expanded s t i w \<longrightarrow>
    walk_ok s t (snd r) \<and> set (nodes_found w) \<subseteq> set (nodes_found (snd r)) \<and>
    (\<not> fst r \<longrightarrow> expanded s t (length (nodes_found (snd r))) (snd r))"
  have "?P b i w (search_loop c t b i w)"
  proof (rule search_loop_induct [where P = ?P])
    fix b b' i w r
    assume i: "i < length (nodes_found w)" and ih: "?P b' (i + 1) (search_edges c t (nodes_found w ! i) w) r"
    show "?P b i w r"
    proof (intro impI)
      assume w: "walk_ok s t w" "expanded s t i w"
      note f = search_fold_ok [OF w(1), of c "edges (walk_mem w) (nodes_found w ! i)", folded search_edges_def]
      from f have sub: "set (nodes_found w) \<subseteq> set (nodes_found (search_edges c t (nodes_found w ! i) w))" by auto
      from ih f search_edges_ok [OF w(1) i w(2)] sub
      show "walk_ok s t (snd r) \<and> set (nodes_found w) \<subseteq> set (nodes_found (snd r)) \<and>
        (\<not> fst r \<longrightarrow> expanded s t (length (nodes_found (snd r))) (snd r))" by auto
    qed
  next
    fix b i and w :: walk assume stop: "\<not> (i < length (nodes_found w) \<and> \<not> found w \<and> \<not> failed w)"
    have "expanded s t (length (nodes_found w)) w" if "expanded s t i w"
    proof (cases "found w \<or> failed w")
      case False
      then have "length (nodes_found w) \<le> i" using stop by simp
      then have "j < i" if "j < length (nodes_found w)" for j using that by simp
      with that show ?thesis unfolding expanded_def by blast
    qed (auto simp: expanded_def)
    then show "?P b i w (False, w)" by simp
  qed simp
  with assms show ?thesis by blast
qed

text \<open>The start of a search, and what its two outcomes mean.\<close>

definition search_start :: "ctxid \<Rightarrow> addr \<Rightarrow> handle \<Rightarrow> bool \<Rightarrow> mem \<Rightarrow> walk" where
  "search_start c target item from_children s =
     (let w = \<lparr>nodes_found = [], found = False, failed = False, walk_mem = s\<rparr>
      in case item of
           HRef a \<Rightarrow> if from_children then search_edges c target a w else cycle_search_edge c target item w
         | _ \<Rightarrow> w)"

lemma reaches_start:
  "reaches c t v b fc s =
     (let (early, w) = search_loop c t b 0 (search_start c t v fc s)
      in (early \<or> found w \<or> failed w, clear_visited (nodes_found w) (walk_mem w)))"
  by (simp add: reaches_def search_start_def Let_def)

lemma search_start_ok: "walk_ok s t (search_start c t v fc s)"
proof -
  have w0: "walk_ok s t \<lparr>nodes_found = [], found = False, failed = False, walk_mem = s\<rparr>"
    by (simp add: walk_ok_def visited_clear_def)
  show ?thesis
    by (cases v) (simp_all add: search_start_def Let_def w0 search_edge_ok(1) [OF w0]
      search_fold_ok [OF w0, THEN conjunct1, folded search_edges_def] search_edges_def)
qed

lemma reaches_walk:
  "\<exists>w early. search_loop c t b 0 (search_start c t v fc s) = (early, w) \<and> walk_ok s t w \<and>
     set (nodes_found (search_start c t v fc s)) \<subseteq> set (nodes_found w) \<and>
     (\<not> early \<longrightarrow> expanded s t (length (nodes_found w)) w) \<and>
     reaches c t v b fc s = (early \<or> found w \<or> failed w, clear_visited (nodes_found w) (walk_mem w))"
proof -
  have "expanded s t 0 (search_start c t v fc s)" by (simp add: expanded_def)
  from search_loop_ok [OF search_start_ok this, where b = b and c = c] show ?thesis
    by (cases "search_loop c t b 0 (search_start c t v fc s)") (simp add: reaches_start)
qed

lemma walk_only_reaches: "walk_only s (snd (reaches c t v b fc s))"
proof -
  from reaches_walk [of c t b v fc s] obtain w where w: "walk_ok s t w"
      "snd (reaches c t v b fc s) = clear_visited (nodes_found w) (walk_mem w)" by fastforce
  from w(1) have wo: "walk_only s (walk_mem w)" by (simp add: walk_ok_def)
  have "\<forall>a\<in>set (nodes_found w). live (walk_mem w) a"
    using w(1) walk_onlyD(2) [OF wo] by (auto simp: walk_ok_def dest: reaches_vector_live)
  from walk_only_trans [OF wo walk_only_clear [OF this]] w(2) show ?thesis by simp
qed

lemma visited_clear_visited: "visited (cell_at (clear_visited as s) a) \<longleftrightarrow> visited (cell_at s a) \<and> a \<notin> set as"
proof (induction as arbitrary: s)
  case (Cons b as)
  have "visited (cell_at (upd_cell b (\<lambda>x. x\<lparr>visited := False\<rparr>) s) a) \<longleftrightarrow> visited (cell_at s a) \<and> a \<noteq> b"
    using cell_at_dead [of s b] by (cases "live s b") (simp_all add: cell_at_upd_cell upd_cell_def live_def free_cell_def cell_at_def, (auto simp: free_cell_def split: option.splits)?)
  then show ?case using Cons.IH [of "upd_cell b (\<lambda>x. x\<lparr>visited := False\<rparr>) s"] by (auto simp: clear_visited_def)
qed (simp add: clear_visited_def)

lemma reaches_False:
  assumes clear: "visited_clear s" and no: "\<not> fst (reaches c t v b fc s)"
  shows "\<not> fc \<Longrightarrow> v = HRef a \<Longrightarrow> reaches_vector (cell_at s a) \<Longrightarrow> (a, t) \<notin> (vector_edge s)\<^sup>*"
    and "fc \<Longrightarrow> v = HRef a \<Longrightarrow> (a, t) \<notin> (vector_edge s)\<^sup>+"
proof -
  from reaches_walk [of c t b v fc s] no obtain w where w: "walk_ok s t w" "expanded s t (length (nodes_found w)) w"
      "\<not> found w" "\<not> failed w" and sub: "set (nodes_found (search_start c t v fc s)) \<subseteq> set (nodes_found w)"
    and lp: "search_loop c t b 0 (search_start c t v fc s) = (False, w)" by fastforce
  have step: "d \<in> set (nodes_found w) \<and> d \<noteq> t" if "x \<in> set (nodes_found w)" "(x, d) \<in> vector_edge s" for x d
    using that w(2,3,4) clear by (auto simp: expanded_def in_set_conv_nth)
  have closed: "d \<in> set (nodes_found w)" if "x \<in> set (nodes_found w)" "(x, d) \<in> (vector_edge s)\<^sup>*" for x d
    using that(2,1) by induction (auto dest: step)
  have nt: "t \<notin> set (nodes_found w)" using w(1) by (simp add: walk_ok_def)
  let ?w0 = "\<lparr>nodes_found = [], found = False, failed = False, walk_mem = s\<rparr>"
  have w0: "walk_ok s t ?w0" by (simp add: walk_ok_def visited_clear_def)
  have mono: "(found u \<longrightarrow> found (snd (search_loop c t b i u))) \<and> (failed u \<longrightarrow> failed (snd (search_loop c t b i u)))" for i u
    using search_loop_stop [of i u c t b] by (cases "found u \<or> failed u") auto
  have st: "\<not> found (search_start c t v fc s)" "\<not> failed (search_start c t v fc s)"
    using mono [of "search_start c t v fc s" 0] w lp by auto
  show "(a, t) \<notin> (vector_edge s)\<^sup>*" if "\<not> fc" "v = HRef a" "reaches_vector (cell_at s a)"
  proof -
    have "a \<in> set (nodes_found (search_start c t v fc s)) \<and> a \<noteq> t"
      using search_edge_ok(6) [OF w0 clear, of c v a] that st by (simp add: search_start_def)
    then show ?thesis using closed sub nt by blast
  qed
  show "(a, t) \<notin> (vector_edge s)\<^sup>+" if "fc" "v = HRef a"
  proof
    assume "(a, t) \<in> (vector_edge s)\<^sup>+"
    then obtain d where d: "(a, d) \<in> vector_edge s" "(d, t) \<in> (vector_edge s)\<^sup>*" by (meson tranclD)
    have "d \<in> set (nodes_found (search_start c t v fc s)) \<and> d \<noteq> t"
      using search_fold_ok [OF w0, of c "edges s a"] clear that st d(1)
      by (auto simp: search_start_def search_edges_def vector_edge_def)
    then show False using closed sub nt d(2) by blast
  qed
qed

text \<open>The converse: a search that found its target has a path to it.\<close>

definition reached :: "mem \<Rightarrow> addr set \<Rightarrow> addr \<Rightarrow> walk \<Rightarrow> bool" where
  "reached s X t w \<longleftrightarrow> walk_only s (walk_mem w) \<and> (\<forall>a\<in>set (nodes_found w). \<exists>x\<in>X. (x, a) \<in> (vector_edge s)\<^sup>*) \<and>
     (found w \<longrightarrow> (\<exists>x\<in>X. (x, t) \<in> (vector_edge s)\<^sup>*))"

lemma reached_edge:
  assumes "reached s X t w" "\<And>a. v = HRef a \<Longrightarrow> reaches_vector (cell_at s a) \<Longrightarrow> \<exists>x\<in>X. (x, a) \<in> (vector_edge s)\<^sup>*"
  shows "reached s X t (cycle_search_edge c t v w)"
proof -
  have wo: "walk_only s (walk_mem w)" using assms(1) by (simp add: reached_def)
  have "walk_only s (walk_mem (cycle_search_edge c t v w))" by (rule walk_only_trans [OF wo walk_only_search_edge])
  moreover have "nodes_found (cycle_search_edge c t v w) = nodes_found w \<or>
      (\<exists>a. v = HRef a \<and> reaches_vector (cell_at s a) \<and> nodes_found (cycle_search_edge c t v w) = nodes_found w @ [a])"
    by (cases v) (auto simp: cycle_search_edge_def Let_def case_prod_beta walk_onlyD(5) [OF wo])
  moreover have "found (cycle_search_edge c t v w) \<Longrightarrow> found w \<or> (v = HRef t \<and> reaches_vector (cell_at s t))"
    by (cases v) (auto simp: cycle_search_edge_def Let_def case_prod_beta walk_onlyD(5) [OF wo] split: if_splits)
  ultimately show ?thesis using assms unfolding reached_def by fastforce
qed

lemma reached_edges:
  assumes "reached s X t w" "\<And>b. (a, b) \<in> vector_edge s \<Longrightarrow> \<exists>x\<in>X. (x, b) \<in> (vector_edge s)\<^sup>*"
  shows "reached s X t (search_edges c t a w)"
proof -
  have "reached s X t (fold (cycle_search_edge c t) vs u)"
    if "reached s X t u" "set vs \<subseteq> set (edges s a)" for vs u
    using that
  proof (induction vs arbitrary: u)
    case (Cons v vs)
    have "reached s X t (cycle_search_edge c t v u)"
      by (rule reached_edge) (use Cons.prems assms(2) in \<open>auto simp: vector_edge_def\<close>)
    with Cons show ?case by simp
  qed simp
  moreover have "edges (walk_mem w) a = edges s a" using assms(1) walk_onlyD(8) by (simp add: reached_def)
  ultimately show ?thesis using assms(1) by (simp add: search_edges_def)
qed

lemma reached_loop:
  assumes "reached s X t w"
  shows "reached s X t (snd (search_loop c t b i w))"
proof -
  have "reached s X t w \<longrightarrow> reached s X t (snd (search_loop c t b i w))"
  proof (rule search_loop_induct [where P = "\<lambda>b i w r. reached s X t w \<longrightarrow> reached s X t (snd r)"])
    fix b b' i w r
    assume "i < length (nodes_found w)" and ih: "reached s X t (search_edges c t (nodes_found w ! i) w) \<longrightarrow> reached s X t (snd r)"
    then have n: "nodes_found w ! i \<in> set (nodes_found w)" by simp
    show "reached s X t w \<longrightarrow> reached s X t (snd r)"
    proof
      assume w: "reached s X t w"
      have "reached s X t (search_edges c t (nodes_found w ! i) w)"
        by (rule reached_edges [OF w]) (use w n in \<open>unfold reached_def, meson rtrancl.rtrancl_into_rtrancl\<close>)
      with ih show "reached s X t (snd r)" by blast
    qed
  qed simp_all
  with assms show ?thesis by blast
qed

end
