(* ===== verification/Vector_Laws.thy ===== *)
theory Vector_Laws
  imports Vectors Pairs
begin

text \<open>
  What vector assignment promises: the heap invariant for every set of owners, bounds, and in an
  acyclic context that no assignment ever closes a cycle, which is what makes reference counting
  alone complete there.
\<close>

subsection \<open>Ownership\<close>

lemma moves_walk_only: "walk_only s t \<Longrightarrow> moves s A t A"
  by (rule same_heap_moves) (auto intro: grows_walk_only dest: walk_onlyD(1))

lemma vector_payload: "type_of_payload p = RC_VECTOR \<Longrightarrow> p = VVector (items p) (cycle_source p)"
  by (cases p) simp_all

lemma moves_rc_vector:
  assumes c: "c < next_ctx s" and e: "rc_vector c n s = (v, s')"
  shows "moves s {#} s' {#v#}"
proof -
  let ?p = "VVector (replicate n HNil) False"
  let ?f = "\<lambda>x. x\<lparr>load := ?p, reaches_vector := True\<rparr>"
  let ?body = "\<lambda>t. case allocate c RC_VECTOR (n * PTR_BYTES) t of (HRef a, u) \<Rightarrow> (HRef a, upd_cell a ?f u) | (w, u) \<Rightarrow> (w, u)"
  have nulls: "heap_ok t (mset (replicate n HNil) + R) \<longleftrightarrow> heap_ok t R" for t R
    by (induction n) simp_all
  have body: "moves t {#} s' {#v#}" if ct: "c < next_ctx t" and b: "?body t = (v, s')" for t
  proof -
    obtain w u where al: "allocate c RC_VECTOR (n * PTR_BYTES) t = (w, u)" by fastforce
    show ?thesis
    proof (cases "\<exists>a. w = HRef a")
      case True
      then obtain a where w: "w = HRef a" by blast
      then have vs: "v = HRef a" "s' = upd_cell a ?f u" using b al by simp_all
      note k = construct [where vs = "[]" and ms = "replicate n HNil" and p = ?p and f = ?f, OF _ ct al [unfolded w]]
      show ?thesis by (rule moves_growsI) (use k vs nulls in \<open>simp add: payload_slots_def\<close>)
    next
      case False
      then have "v = w" "s' = u" using b al by (cases w; simp)+
      then show ?thesis using False
        by (intro moves_growsI) (use allocate_failed [OF _ ct _ al] in auto)
    qed
  qed
  have lib: "moves s {#} (snd (library_call s)) {#}" by (rule same_heap_moves) simp_all
  show ?thesis
  proof (cases "n > SIZE_MAX div PTR_BYTES")
    case True
    with e show ?thesis by (auto simp: rc_vector_def rc_fail_def)
  next
    case False
    obtain okay t where l: "(if n \<noteq> 0 then library_call s else (True, s)) = (okay, t)" by fastforce
    have t: "t = s \<or> t = snd (library_call s)" using l by (auto split: if_splits)
    then have m: "moves s {#} t {#}" "c < next_ctx t"
      using lib c by auto
    have "(if okay then ?body t else (HNull, rc_error c ''out of memory'' t)) = (v, s')"
      using e False l by (cases okay) (simp_all add: rc_vector_def rc_fail_def)
    then show ?thesis using moves_then_error [OF m(1)] moves_trans [OF m(1) body [OF m(2)]] by (auto split: if_splits)
  qed
qed

lemma heap_ok_store_item:
  assumes ok: "heap_ok s R" and a: "live s a" and v: "type_of_payload (load (cell_at s a)) = RC_VECTOR"
    and i: "i < length (items (load (cell_at s a)))" and item: "valid s item"
  shows "heap_ok (store_item a i item s) R"
proof -
  let ?p = "load (cell_at s a)" and ?t = "rc_retain item s"
  let ?f = "\<lambda>x. x\<lparr>load := with_item i item (load x)\<rparr>"
  obtain xs b where p: "?p = VVector xs b" using vector_payload [OF v] by metis
  have ok1: "heap_ok ?t ({#item#} + R)" using own.retain_inv [OF ok item] by simp
  have k: "cell_kept s ?t a" using grows_retain [of s item] a by (simp add: grows_def)
  have l: "load (cell_at ?t a) = VVector xs b" "live ?t a" using cell_kept_load(1) [OF k] k p by (simp_all add: cell_kept_def)
  have bal: "mset (payload_slots (load (cell_at ?t a))) + {#item#} = mset (payload_slots (VVector (xs[i := item]) b)) + {#xs ! i#}"
    using i p l by (simp add: payload_slots_def mset_update)
  have "heap_ok (upd_cell a ?f ?t) ({#xs ! i#} + R)"
    by (rule heap_ok_exchange [OF ok1 l(2) bal]) (simp_all add: l)
  then have "heap_ok (rc_release (xs ! i) (upd_cell a ?f ?t)) R"
    using own.release_inv by simp
  then show ?thesis by (simp add: store_item_def Let_def p)
qed

lemma heap_ok_source_link:
  assumes ok: "heap_ok s R" and a: "load (cell_at s a) = VVector xs False"
  shows "heap_ok (source_link (rc_value_context s a) a s) R"
proof -
  let ?f = "\<lambda>x. x\<lparr>load := with_cycle_source True (load x)\<rparr>"
  let ?s = "upd_cell a ?f s" and ?c = "rc_value_context s a"
  let ?t = "source_link ?c a s"
  note rc = ok [unfolded heap_ok_def]
  have live: "live s a" using a cell_at_dead [of s a] by (cases "live s a") (simp_all add: free_cell_def)
  have lo: "load (cell_at ?s b) = (if b = a then VVector xs True else load (cell_at s b))" for b
    using live a by (simp add: cell_at_upd_cell)
  have hp: "has_plan (cell_at ?s b) = has_plan (cell_at s b)" "refs (cell_at ?s b) = refs (cell_at s b)" for b
    by (simp_all add: cell_at_upd_cell)
  have pe: "plan_edge ?s b = plan_edge s b" for b by (intro plan_edge_cong plan_of_cong) (simp_all add: hp)
  have "holds ?s = holds s" using a by (intro ext) (simp add: holds_def edges_def lo pe)
  then have v: "view ?s = view s" by (simp add: view_def hp)
  have vt: "view ?t = view s" unfolding source_link_def by (simp add: view_upd_ctx v)
  have ct: "cell_at ?t b = cell_at ?s b" for b by (simp add: source_link_def)
  have ty: "type_of_payload (load (cell_at ?t b)) = type_of_payload (load (cell_at s b))" for b
    by (simp add: ct lo a)
  have "plans_wf ?t"
    by (rule plans_wf_cong [OF rc_okD(2) [OF rc]]) (simp_all add: source_link_def ctxs_upd_ctx hp lo a)
  moreover have "sources_wf ?t"
  proof -
    note wf = rc_okD(3) [OF rc, unfolded sources_wf_def]
    have iss: "is_source ?t b \<longleftrightarrow> is_source s b \<or> b = a" for b by (auto simp: ct is_source_def lo)
    have "\<not> is_source s a" using a by (simp add: is_source_def)
    then have mem: "a \<notin> set (sources (ctxs s ?c))" using wf by auto
    show ?thesis unfolding sources_wf_def iss using wf mem by (auto simp: source_link_def ctxs_upd_ctx)
  qed
  moreover have "alloc_wf ?t"
    by (rule alloc_wf_cong [OF rc_okD(4) [OF rc]]) (simp_all add: lo a source_link_def ctxs_upd_ctx)
  moreover have "symbols_ok ?t" using rc_okD(5) [OF rc] a by (simp add: symbols_ok_def ct lo hp)
  moreover have "\<not> fault ?t" using rc_okD(1) [OF rc] live by (simp add: source_link_def)
  ultimately show ?thesis using rc_okD(6) [OF rc] by (simp add: heap_ok_def rc_ok_def vt)
qed

text \<open>The three ways an assignment in bounds can go.\<close>

lemma rc_vector_set_cases:
  assumes "rc_vector_set c v i item s = (r, s')"
  obtains (invalid) m where "\<not> r" "s' = rc_error c m s"
  | (rejected) a t m where "\<not> r" "v = HRef a" "acyclic (ctxs s c)" "walk_only s t" "s' = rc_error c m t"
  | (stored) a t k where "r" "v = HRef a" "rc_type s v = RC_VECTOR" "rc_value_context s a = c"
      "i < length (items (load (cell_at s a)))" "walk_only s t" "k \<longrightarrow> load (cell_at s a) = VVector (items (load (cell_at s a))) False"
      "k \<longrightarrow> \<not> acyclic (ctxs s c)" "s' = store_item a i item (if k then source_link c a t else t)"
      "\<not> k \<and> acyclic (ctxs s c) \<and> may_reach_vector s item \<longrightarrow> \<not> fst (reaches c a item SIZE_MAX False s)"
proof (cases v)
  case (HRef a)
  let ?strict = "acyclic (ctxs s c)"
  let ?ask = "may_reach_vector s item \<and> (?strict \<or> \<not> cycle_source (load (cell_at s a)))"
  let ?w = "reaches c a item (if ?strict then SIZE_MAX else 256) False s"
  let ?cs = "if ?ask then ?w else (False, s)"
  have wo: "walk_only s (snd ?cs)" by (simp add: walk_only_reaches)
  show ?thesis
  proof (cases "\<not> belongs s c v \<or> rc_type s v \<noteq> RC_VECTOR \<or> i \<ge> length (items (load (cell_at s a))) \<or> \<not> belongs s c item")
    case True
    then show ?thesis using assms invalid HRef by (auto simp: rc_vector_set_def)
  next
    case False
    then have ok: "rc_type s v = RC_VECTOR" "rc_value_context s a = c" "i < length (items (load (cell_at s a)))"
      using HRef by auto
    have e: "(r, s') = (if fst ?cs \<and> ?strict
        then (False, rc_error c ''acyclic mode rejects vector assignment that would create a cycle'' (snd ?cs))
        else (True, store_item a i item (if fst ?cs then source_link c a (snd ?cs) else snd ?cs)))"
      using assms False HRef unfolding rc_vector_set_def would_create_cycle_def by (simp add: Let_def case_prod_beta)
    show ?thesis
    proof (cases "fst ?cs \<and> ?strict")
      case True
      with e have "\<not> r" "s' = rc_error c ''acyclic mode rejects vector assignment that would create a cycle'' (snd ?cs)" by auto
      then show ?thesis using rejected [OF _ HRef _ wo] True by blast
    next
      case no: False
      have vec: "load (cell_at s a) = VVector (items (load (cell_at s a))) (cycle_source (load (cell_at s a)))"
        using ok(1) HRef by (intro vector_payload) simp
      have k: "fst ?cs \<longrightarrow> load (cell_at s a) = VVector (items (load (cell_at s a))) False"
        using vec no by (auto split: if_splits)
      have "r" "s' = store_item a i item (if fst ?cs then source_link c a (snd ?cs) else snd ?cs)" using e no by simp_all
      from stored [OF this(1) HRef ok wo k _ this(2)] no show ?thesis by (auto split: if_splits)
    qed
  qed
qed (use assms invalid in \<open>auto simp: rc_vector_set_def\<close>)

lemma store_ready:
  assumes ok: "heap_ok s R" and w: "walk_only s t" and a: "rc_type s (HRef a) = RC_VECTOR"
    and i: "i < length (items (load (cell_at s a)))" and item: "valid s item" and c: "rc_value_context s a = c"
    and k: "k \<longrightarrow> load (cell_at s a) = VVector (items (load (cell_at s a))) False"
  defines "u \<equiv> if k then source_link c a t else t"
  shows "heap_ok u R" "live u a" "type_of_payload (load (cell_at u a)) = RC_VECTOR"
    "items (load (cell_at u a)) = items (load (cell_at s a))" "valid u item"
    "\<And>b. live u b = live s b" "\<And>b. b \<noteq> a \<Longrightarrow> load (cell_at u b) = load (cell_at s b)"
    "\<And>b. has_plan (cell_at u b) = has_plan (cell_at s b)" "\<And>b. reaches_vector (cell_at u b) = reaches_vector (cell_at s b)"
    "\<And>b. plan_of u b = plan_of s b"
proof -
  note D = walk_onlyD [OF w]
  have live: "live s a" using a cell_at_dead [of s a] by (cases "live s a") (simp_all add: free_cell_def)
  have okt: "heap_ok t R" by (rule heap_ok_same_heap [OF ok D(1)])
  show "heap_ok u R"
    using okt heap_ok_source_link [OF okt, of a] k c by (auto simp: u_def D(3,7))
  have cu: "cell_at u b = (if k \<and> b = a then (cell_at t a)\<lparr>load := with_cycle_source True (load (cell_at t a))\<rparr> else cell_at t b)" for b
    using live by (simp add: u_def source_link_def cell_at_upd_cell D(2))
  show l: "live u b = live s b" for b by (simp add: u_def source_link_def D(2))
  then show "live u a" using live by simp
  obtain xs b where p: "load (cell_at s a) = VVector xs b" using vector_payload a by (metis rc_type.simps(2))
  then show "type_of_payload (load (cell_at u a)) = RC_VECTOR" "items (load (cell_at u a)) = items (load (cell_at s a))"
    by (auto simp: cu D(3))
  show "valid u item" using item by (simp add: valid_def l)
  show "load (cell_at u b) = load (cell_at s b)" if "b \<noteq> a" for b using that by (simp add: cu D(3))
  show hp: "has_plan (cell_at u b) = has_plan (cell_at s b)" for b by (simp add: cu D(4))
  show "reaches_vector (cell_at u b) = reaches_vector (cell_at s b)" for b by (simp add: cu D(5))
  have "plan_of u b = plan_of t b" for b
    by (rule plan_of_cong) (auto simp: u_def source_link_def ctxs_upd_ctx cell_at_upd_cell)
  then show "plan_of u b = plan_of s b" for b by (simp add: D(10))
qed

lemma heap_ok_rc_vector_set:
  assumes ok: "heap_ok s R" and item: "valid s item" and e: "rc_vector_set c v i item s = (r, s')"
  shows "heap_ok s' R"
  using e
proof (cases rule: rc_vector_set_cases)
  case (invalid m)
  then show ?thesis using movesD(1) [OF moves_rc_error [of s "{#}" c m], of R] ok by simp
next
  case (rejected a t m)
  have "moves s {#} s' {#}" unfolding rejected(5) by (rule moves_then_error [OF moves_walk_only [OF rejected(4)]])
  from movesD(1) [OF this, of R] ok show ?thesis by simp
next
  case (stored a t k)
  note u = store_ready [OF ok stored(6) stored(3) [unfolded stored(2)] stored(5) item stored(4,7)]
  show ?thesis unfolding stored(9)
    by (rule heap_ok_store_item [OF u(1,2,3) _ u(5)]) (use stored(5) u(4) in simp)
qed

subsection \<open>No cycles in an acyclic context\<close>

lemma edges_dead: "\<not> live s a \<Longrightarrow> edges s a = []"
  by (simp add: cell_at_dead edges_def free_cell_def plan_edge_def)

lemma vector_edge_store:
  assumes ok: "heap_ok s R" and a: "live s a" and v: "type_of_payload (load (cell_at s a)) = RC_VECTOR"
    and i: "i < length (items (load (cell_at s a)))" and item: "valid s item"
  shows "vector_edge (store_item a i item s) \<subseteq> vector_edge s \<union> {(a, b) | b. item = HRef b \<and> reaches_vector (cell_at s b)}"
proof -
  let ?t = "rc_retain item s" and ?f = "\<lambda>x. x\<lparr>load := with_item i item (load x)\<rparr>"
  let ?u = "upd_cell a ?f ?t"
  obtain xs b where p: "load (cell_at s a) = VVector xs b" using vector_payload [OF v] by metis
  have kept: "live s x \<Longrightarrow> cell_kept s ?t x" for x using grows_retain [of s item] by (simp add: grows_def)
  have lt: "live ?t x \<longleftrightarrow> live s x" for x by (cases item) simp_all
  have ok1: "heap_ok ?t ({#item#} + R)" using own.retain_inv [OF ok item] by simp
  have l: "load (cell_at ?t a) = VVector xs b" using cell_kept_load(1) [OF kept [OF a]] p by simp
  have bal: "mset (payload_slots (load (cell_at ?t a))) + {#item#} = mset (payload_slots (VVector (xs[i := item]) b)) + {#xs ! i#}"
    using i p l by (simp add: payload_slots_def mset_update)
  have at: "live ?t a" using a lt by simp
  have ok2: "heap_ok ?u ({#xs ! i#} + R)" by (rule heap_ok_exchange [OF ok1 at bal]) (simp_all add: l)
  have e: "store_item a i item s = rc_release (xs ! i) ?u" by (simp add: store_item_def Let_def p)
  have sh: "shrinks ?u (rc_release (xs ! i) ?u)" by (rule shrinks_release) (use ok2 in \<open>simp add: heap_ok_def\<close>)
  have fu: "reaches_vector (cell_at ?u x) = reaches_vector (cell_at s x)" if "live s x" for x
    using cell_kept_load(3) [OF kept [OF that]] by (auto simp: cell_at_upd_cell)
  have pu: "plan_edge ?u x = plan_edge ?t x" for x by (intro plan_edge_cong plan_of_cong) (simp_all add: cell_at_upd_cell)
  have eu: "set (edges ?u x) \<subseteq> set (edges s x) \<union> (if x = a then {item} else {})" if "live s x" for x
  proof (cases "x = a")
    case True
    then have "edges ?u x = xs[i := item]" using at l by (simp add: edges_def cell_at_upd_cell)
    moreover have "edges s x = xs" using True p by (simp add: edges_def)
    ultimately show ?thesis using set_update_subset_insert [of xs i item] True by auto
  next
    case False
    then have "edges ?u x = edges ?t x" by (simp add: edges_def cell_at_upd_cell pu)
    then show ?thesis using cell_kept_load(6) [OF kept [OF that]] by simp
  qed
  show ?thesis
  proof (rule subrelI)
    fix x y assume "(x, y) \<in> vector_edge (store_item a i item s)"
    then have xy: "HRef y \<in> set (edges (rc_release (xs ! i) ?u) x)" "reaches_vector (cell_at (rc_release (xs ! i) ?u) y)"
      by (simp_all add: vector_edge_def e)
    then have lv: "live (rc_release (xs ! i) ?u) x" "live (rc_release (xs ! i) ?u) y"
      using edges_dead [of "rc_release (xs ! i) ?u" x] reaches_vector_live by (fastforce, blast)
    note cx = shrinks_cell [OF sh lv(1)] and cy = shrinks_cell [OF sh lv(2)]
    have ls: "live s x" "live s y" using cx(1) cy(1) lt by simp_all
    have "edges (rc_release (xs ! i) ?u) x = edges ?u x"
      by (rule edges_cong) (rule cx)+
    then have "HRef y \<in> set (edges s x) \<or> (x = a \<and> item = HRef y)" using xy(1) eu [OF ls(1)] by (auto split: if_splits)
    moreover have "reaches_vector (cell_at s y)" using xy(2) cy(5) fu [OF ls(2)] by simp
    ultimately show "(x, y) \<in> vector_edge s \<union> {(a, b) | b. item = HRef b \<and> reaches_vector (cell_at s b)}"
      by (auto simp: vector_edge_def)
  qed
qed

lemma vector_edge_walk_only: "walk_only s t \<Longrightarrow> vector_edge t = vector_edge s"
  by (simp add: vector_edge_def walk_onlyD)

lemma vector_edge_error [simp]: "vector_edge (rc_error c m s) = vector_edge s"
proof -
  have "edges (rc_error c m s) a = edges s a" "cell_at (rc_error c m s) a = cell_at s a" for a
    using same_heap_rc_error [of s c m] by (auto intro!: edges_cong plan_of_cong simp: same_heap_def)
  then show ?thesis by (simp add: vector_edge_def)
qed

lemma acyclic_rc_vector_set:
  assumes ok: "heap_ok s R" and item: "valid s item" and clear: "visited_clear s" and strict: "acyclic (ctxs s c)"
    and ac: "Transitive_Closure.acyclic (vector_edge s)" and e: "rc_vector_set c v i item s = (r, s')"
  shows "Transitive_Closure.acyclic (vector_edge s')"
  using e
proof (cases rule: rc_vector_set_cases)
  case (stored a t k)
  have nk: "\<not> k" using stored(8) strict by simp
  have w: "walk_only s t" by (fact stored(6))
  note u = store_ready [OF ok w stored(3) [unfolded stored(2)] stored(5) item stored(4,7)]
  have s': "s' = store_item a i item t" using stored(9) nk by simp
  have sub: "vector_edge s' \<subseteq> vector_edge s \<union> {(a, b) | b. item = HRef b \<and> reaches_vector (cell_at s b)}"
    unfolding s' using vector_edge_store [of t R a i item] u nk stored(5)
    by (simp add: vector_edge_walk_only [OF w] walk_onlyD [OF w])
  have new: "{(a, b) | b. item = HRef b \<and> reaches_vector (cell_at s b)} = {(x, y). x = a \<and> item = HRef y \<and> reaches_vector (cell_at s y)}"
    by auto
  have "Transitive_Closure.acyclic (vector_edge s \<union> {(a, b) | b. item = HRef b \<and> reaches_vector (cell_at s b)})"
  proof (cases "may_reach_vector s item")
    case True
    then obtain b where b: "item = HRef b" "reaches_vector (cell_at s b)" by (cases item) auto
    have "\<not> fst (reaches c a item SIZE_MAX False s)" using stored(10) nk strict True by simp
    from reaches_False(1) [OF clear this] b have "(b, a) \<notin> (vector_edge s)\<^sup>*" by simp
    with ac b show ?thesis by (simp add: acyclic_insert)
  next
    case False
    then have none: "{(x, y). x = a \<and> item = HRef y \<and> reaches_vector (cell_at s y)} = {}" by (cases item) auto
    show ?thesis unfolding new none using ac by simp
  qed
  then show ?thesis by (rule acyclic_subset) (rule sub)
qed (use ac in \<open>simp_all add: vector_edge_walk_only\<close>)

lemma visited_clear_reaches:
  assumes "visited_clear s" and "\<And>w. snd (search_loop c t b 0 (search_start c t v fc s)) = w \<Longrightarrow> \<not> failed w"
  shows "visited_clear (snd (reaches c t v b fc s))"
proof -
  from reaches_walk [of c t b v fc s] obtain w early where w: "search_loop c t b 0 (search_start c t v fc s) = (early, w)"
      "walk_ok s t w" "reaches c t v b fc s = (early \<or> found w \<or> failed w, clear_visited (nodes_found w) (walk_mem w))" by blast
  then have "\<not> failed w" using assms(2) by simp
  with w(2) assms(1) have "\<forall>a. visited (cell_at (walk_mem w) a) \<longrightarrow> a \<in> set (nodes_found w)" by (simp add: walk_ok_def)
  then show ?thesis using w(3) by (simp add: visited_clear_def visited_clear_visited)
qed

end
