(* ===== verification/Scalars.thy ===== *)
theory Scalars
  imports Frame
begin

text \<open>
  Numbers, strings and symbols (\<open>src/rc/rc.c\<close>): \<open>rc_number\<close> to \<open>rc_integer_value\<close>, the text
  constructors, the intern table and the compiled modules' symbol tables. An integer of 63 bits
  is encoded in the handle itself; larger ones are boxed. The intern table's buckets are lists:
  the chains that C threads through \<open>intern_next\<close>.
\<close>

subsection \<open>Numbers\<close>

definition encode_immediate :: "int \<Rightarrow> handle" where
  "encode_immediate n = HImm (push_bit 1 (word_of_int n) OR 1)"

definition rc_number :: "ctxid \<Rightarrow> dbl \<Rightarrow> mem \<Rightarrow> handle \<times> mem" where
  "rc_number c n s =
     (case allocate c RC_NUMBER 0 s of
        (HRef a, s) \<Rightarrow> (HRef a, upd_cell a (\<lambda>x. x\<lparr>load := VNumber n None\<rparr>) s)
      | (v, s) \<Rightarrow> (v, s))"

definition rc_integer :: "ctxid \<Rightarrow> int \<Rightarrow> mem \<Rightarrow> handle \<times> mem" where
  \<comment> \<open>\<open>n\<close> is an \<open>int64_t\<close>\<close>
  "rc_integer c n s =
     (if c = 0 then (HNull, s)
      else if - 4611686018427387904 \<le> n \<and> n \<le> 4611686018427387903 then (encode_immediate n, s)
      else case allocate c RC_NUMBER 0 s of
             (HRef a, s) \<Rightarrow> (HRef a, upd_cell a (\<lambda>x. x\<lparr>load := VNumber (dbl_of_int n) (Some n)\<rparr>) s)
           | (v, s) \<Rightarrow> (v, s))"

definition rc_number_value :: "mem \<Rightarrow> handle \<Rightarrow> dbl" where
  "rc_number_value s v =
     (if is_immediate v then dbl_of_int (immediate_integer v)
      else if v \<noteq> HNull \<and> rc_type s v = RC_NUMBER then real_value (load_of s v) else NaN)"

definition boxed_exact :: "mem \<Rightarrow> handle \<Rightarrow> bool" where
  \<comment> \<open>\<open>v->as.number.exact\<close>\<close>
  "boxed_exact s v \<longleftrightarrow> integer (load_of s v) \<noteq> None"

definition rc_number_is_integer :: "mem \<Rightarrow> handle \<Rightarrow> bool" where
  "rc_number_is_integer s v \<longleftrightarrow>
     is_immediate v \<or>
     (v \<noteq> HNull \<and> rc_type s v = RC_NUMBER \<and>
       (boxed_exact s v \<or> (isfinite (real_value (load_of s v)) \<and> is_integral (real_value (load_of s v)))))"

definition rc_number_is_exact_integer :: "mem \<Rightarrow> handle \<Rightarrow> bool" where
  "rc_number_is_exact_integer s v \<longleftrightarrow>
     is_immediate v \<or> (v \<noteq> HNull \<and> rc_type s v = RC_NUMBER \<and> boxed_exact s v)"

definition rc_number_is_int64 :: "mem \<Rightarrow> handle \<Rightarrow> bool" where
  "rc_number_is_int64 s v \<longleftrightarrow>
     rc_number_is_integer s v \<and> (is_immediate v \<or> boxed_exact s v \<or> int64_range (real_value (load_of s v)))"

definition rc_integer_value :: "mem \<Rightarrow> handle \<Rightarrow> int" where
  "rc_integer_value s v =
     (if is_immediate v then immediate_integer v
      else if v = HNull \<or> rc_type s v \<noteq> RC_NUMBER then 0
      else case integer (load_of s v) of
             Some n \<Rightarrow> n
           | None \<Rightarrow> let n = real_value (load_of s v)
                     in if \<not> isfinite n \<or> \<not> int64_range n then 0 else dbl_to_int n)"

subsection \<open>Text\<close>

definition c_string :: "string \<Rightarrow> string" where
  \<comment> \<open>the bytes up to the terminator, as \<open>strlen\<close> and \<open>strcmp\<close> see a buffer\<close>
  "c_string = takeWhile (\<lambda>x. x \<noteq> CHR 0x00)"

definition text_payload :: "RcType \<Rightarrow> string \<Rightarrow> payload" where
  "text_payload t txt = (if t = RC_SYMBOL then VSymbol txt 0 HNull HNull else VString txt)"

definition text_value :: "ctxid \<Rightarrow> RcType \<Rightarrow> string option \<Rightarrow> mem \<Rightarrow> handle \<times> mem" where
  \<comment> \<open>the text is the \<open>n\<close> bytes at the pointer; None is a null pointer\<close>
  "text_value c t text s =
     (case text of
        None \<Rightarrow> rc_fail c ''invalid text length'' s
      | Some txt \<Rightarrow>
          if length txt = SIZE_MAX then rc_fail c ''invalid text length'' s
          else let (ok, s) = library_call s
               in if \<not> ok then rc_fail c ''out of memory'' s
                  else case allocate c t (length txt + 1) s of
                         (HRef a, s) \<Rightarrow> (HRef a, upd_cell a (\<lambda>x. x\<lparr>load := text_payload t txt\<rparr>) s)
                       | (v, s) \<Rightarrow> (v, s))"

definition rc_string_n :: "ctxid \<Rightarrow> string option \<Rightarrow> mem \<Rightarrow> handle \<times> mem" where
  "rc_string_n c text = text_value c RC_STRING text"

definition rc_string :: "ctxid \<Rightarrow> string option \<Rightarrow> mem \<Rightarrow> handle \<times> mem" where
  "rc_string c text s =
     (case text of Some txt \<Rightarrow> rc_string_n c (Some (c_string txt)) s | None \<Rightarrow> rc_fail c ''NULL string'' s)"

definition rc_text :: "mem \<Rightarrow> handle \<Rightarrow> string option" where
  "rc_text s v = (if v \<noteq> HNull \<and> (rc_type s v = RC_STRING \<or> rc_type s v = RC_SYMBOL) then Some (data (load_of s v)) else None)"

definition rc_text_length :: "mem \<Rightarrow> handle \<Rightarrow> nat" where
  "rc_text_length s v =
     (if v \<noteq> HNull \<and> (rc_type s v = RC_STRING \<or> rc_type s v = RC_SYMBOL) then length (data (load_of s v)) else 0)"

subsection \<open>Symbols\<close>

definition char_word :: "char \<Rightarrow> u64" where
  "char_word x = word_of_nat (of_char x)"

definition symbol_hash :: "string \<Rightarrow> u64" where
  \<comment> \<open>FNV-1a\<close>
  "symbol_hash name =
     fold (\<lambda>x h. (h XOR char_word x) * 1099511628211) (c_string name) 14695981039346656037"

definition hash_bucket :: "u64 \<Rightarrow> nat \<Rightarrow> nat" where
  "hash_bucket h capacity = wrap capacity (unat h)"

definition rehash_symbol :: "mem \<Rightarrow> nat \<Rightarrow> addr \<Rightarrow> addr list list \<Rightarrow> addr list list" where
  "rehash_symbol s capacity v buckets =
     (let b = hash_bucket (hash (load (cell_at s v))) capacity in buckets[b := v # buckets ! b])"

definition resize_symbols :: "ctxid \<Rightarrow> nat \<Rightarrow> mem \<Rightarrow> bool \<times> mem" where
  "resize_symbols c capacity s =
     (if capacity > SIZE_MAX div PTR_BYTES then (False, rc_error c ''symbol table size overflow'' s)
      else let (ok, s) = library_call s
           in if \<not> ok then (False, rc_error c ''out of memory'' s)
              else let buckets = fold (rehash_symbol s capacity) (concat (symbols (ctxs s c))) (replicate capacity [])
                   in (True, upd_ctx c (\<lambda>x. x\<lparr>symbols := buckets\<rparr>) s))"

definition find_symbol :: "mem \<Rightarrow> ctxid \<Rightarrow> string \<Rightarrow> addr option" where
  \<comment> \<open>the search of the bucket's chain\<close>
  "find_symbol s c name =
     (let capacity = length (symbols (ctxs s c)); h = symbol_hash name
      in if capacity = 0 then None
         else List.find (\<lambda>v. hash (load (cell_at s v)) = h \<and> data (load (cell_at s v)) = c_string name)
                (symbols (ctxs s c) ! hash_bucket h capacity))"

definition intern_symbol :: "ctxid \<Rightarrow> string \<Rightarrow> addr \<Rightarrow> mem \<Rightarrow> mem" where
  \<comment> \<open>the new symbol becomes immortal and the first of its bucket\<close>
  "intern_symbol c name a s =
     (let h = symbol_hash name;
          s = upd_cell a (\<lambda>x. x\<lparr>load := VSymbol (c_string name) h HNull HNull, refs := RC_IMMORTAL\<rparr>) s;
          b = hash_bucket h (length (symbols (ctxs s c)));
          s = upd_ctx c (\<lambda>x. x\<lparr>symbols := (symbols x)[b := a # symbols x ! b], symbol_count := symbol_count x + 1\<rparr>) s
      in if c_string name = ''true'' then upd_ctx c (\<lambda>x. x\<lparr>true_symbol := HRef a\<rparr>) s
         else if c_string name = ''false'' then upd_ctx c (\<lambda>x. x\<lparr>false_symbol := HRef a\<rparr>) s
         else s)"

definition symbols_full :: "ctx \<Rightarrow> bool" where
  "symbols_full x \<longleftrightarrow> symbols x = [] \<or> symbol_count x \<ge> length (symbols x) - length (symbols x) div 4"

definition rc_symbol :: "ctxid \<Rightarrow> string option \<Rightarrow> mem \<Rightarrow> handle \<times> mem" where
  "rc_symbol c name s =
     (case name of
        None \<Rightarrow> rc_fail c ''invalid symbol'' s
      | Some name \<Rightarrow>
          if c = 0 then rc_fail c ''invalid symbol'' s
          else case find_symbol s c name of
                 Some v \<Rightarrow> (HRef v, s)
               | None \<Rightarrow>
                   let capacity = length (symbols (ctxs s c));
                       (ok, s) =
                         (if symbols_full (ctxs s c)
                          then let grown = (if capacity \<noteq> 0 then capacity * 2 mod 2 ^ 64 else 64)
                               in if grown < capacity then (False, rc_error c ''symbol table size overflow'' s)
                                  else resize_symbols c grown s
                          else (True, s))
                   in if \<not> ok then (HNull, s)
                      else case text_value c RC_SYMBOL (Some (c_string name)) s of
                             (HRef a, s) \<Rightarrow> (HRef a, intern_symbol c name a s)
                           | (v, s) \<Rightarrow> (v, s))"

fun resolve_names :: "ctxid \<Rightarrow> string list \<Rightarrow> mem \<Rightarrow> handle list option \<times> mem" where
  "resolve_names c [] s = (Some [], s)"
| "resolve_names c (n # ns) s =
     (let (v, s) = rc_symbol c (Some n) s
      in if v = HNull then (None, s)
         else let (vs, s) = resolve_names c ns (rc_release v s)
              in (map_option ((#) v) vs, s))"

definition cache_entry :: "ctxid \<Rightarrow> nat \<times> handle list \<Rightarrow> mem \<Rightarrow> mem" where
  \<comment> \<open>\<open>*cached = entry\<close>: the direct-mapped slot of the descriptor's address\<close>
  "cache_entry c e = upd_ctx c (\<lambda>x. x\<lparr>compiled_symbol_cache :=
     (compiled_symbol_cache x)(drop_bit 4 (fst e) mod 64 := Some e)\<rparr>)"

definition symbol_table_search :: "ctxid \<Rightarrow> nat \<Rightarrow> string list option \<Rightarrow> nat \<Rightarrow> mem \<Rightarrow> handle list option \<times> mem" where
  \<comment> \<open>the cache missed: search the list, or resolve the names\<close>
  "symbol_table_search c adr names n s =
     (case List.find (\<lambda>e. fst e = adr) (compiled_symbols (ctxs s c)) of
        Some e \<Rightarrow> (Some (snd e), cache_entry c e s)
      | None \<Rightarrow>
          if (n \<noteq> 0 \<and> names = None) \<or> n > (SIZE_MAX - 2 * PTR_BYTES) div PTR_BYTES
          then (None, rc_error c ''invalid compiled symbol table size'' s)
          else let (ok, s) = library_call s
               in if \<not> ok then (None, rc_error c ''out of memory'' s)
                  else let (vs, s) = resolve_names c (take n (case names of Some ns \<Rightarrow> ns | None \<Rightarrow> [])) s
                       in case vs of
                            None \<Rightarrow> (None, s)
                          | Some vs \<Rightarrow> (Some vs, cache_entry c (adr, vs)
                              (upd_ctx c (\<lambda>x. x\<lparr>compiled_symbols := (adr, vs) # compiled_symbols x\<rparr>) s)))"

definition rc_symbol_table :: "ctxid \<Rightarrow> (nat \<times> string list option \<times> nat) option \<Rightarrow> mem \<Rightarrow> handle list option \<times> mem" where
  \<comment> \<open>a descriptor: its address, its names (None a null array) and their number\<close>
  "rc_symbol_table c table s =
     (case table of
        None \<Rightarrow> (None, rc_error c ''invalid compiled symbol table'' s)
      | Some (adr, names, n) \<Rightarrow>
          if c = 0 then (None, rc_error c ''invalid compiled symbol table'' s)
          else case compiled_symbol_cache (ctxs s c) (drop_bit 4 adr mod 64) of
                 Some e \<Rightarrow> if fst e = adr then (Some (snd e), s) else symbol_table_search c adr names n s
               | None \<Rightarrow> symbol_table_search c adr names n s)"

subsection \<open>Booleans\<close>

definition rc_true :: "ctxid \<Rightarrow> mem \<Rightarrow> handle \<times> mem" where
  "rc_true c s = (if c \<noteq> 0 \<and> true_symbol (ctxs s c) \<noteq> HNull then (true_symbol (ctxs s c), s) else rc_symbol c (Some ''true'') s)"

definition rc_false :: "ctxid \<Rightarrow> mem \<Rightarrow> handle \<times> mem" where
  "rc_false c s = (if c \<noteq> 0 \<and> false_symbol (ctxs s c) \<noteq> HNull then (false_symbol (ctxs s c), s) else rc_symbol c (Some ''false'') s)"

fun handle_ctx :: "mem \<Rightarrow> handle \<Rightarrow> ctxid" where
  \<comment> \<open>\<open>ctx_of\<close>\<close>
  "handle_ctx s (HRef a) = rc_value_context s a"
| "handle_ctx s _ = 0"

definition rc_is_true :: "mem \<Rightarrow> handle \<Rightarrow> bool" where
  "rc_is_true s v \<longleftrightarrow> rc_type s v = RC_SYMBOL \<and> v = true_symbol (ctxs s (handle_ctx s v))"

definition rc_is_false :: "mem \<Rightarrow> handle \<Rightarrow> bool" where
  "rc_is_false s v \<longleftrightarrow> rc_type s v = RC_SYMBOL \<and> v = false_symbol (ctxs s (handle_ctx s v))"

definition rc_is_boolean :: "mem \<Rightarrow> handle \<Rightarrow> bool" where
  "rc_is_boolean s v \<longleftrightarrow> rc_type s v = RC_SYMBOL \<and>
     (v = true_symbol (ctxs s (handle_ctx s v)) \<or> v = false_symbol (ctxs s (handle_ctx s v)))"

end
