(* ===== verification/Collector.thy ===== *)
theory Collector
  imports Vectors Scalars
begin

text \<open>
  The cycle collector (\<open>src/rc/rc.c\<close>): \<open>collect_from_sources\<close> and its edge callbacks, \<open>rc_collect\<close>
  and \<open>rc_safepoint\<close>, and the teardown \<open>rc_context_free\<close>. The scratch array \<open>gc_nodes\<close> is the list
  of discovered cells followed by the mark stack; growing it is a library call that may fail.
\<close>

subsection \<open>Discovery\<close>

definition gc_push :: "ctxid \<Rightarrow> nat \<Rightarrow> mem \<Rightarrow> bool \<times> mem" where
  \<comment> \<open>room for one more entry when \<open>n\<close> are used\<close>
  "gc_push c n s =
     (if n = gc_capacity (ctxs s c)
      then let capacity = (if gc_capacity (ctxs s c) \<noteq> 0 then gc_capacity (ctxs s c) * 2 else 1024)
           in if capacity > SIZE_MAX div PTR_BYTES then (False, s)
              else let (ok, s) = library_call s
                   in if ok then (True, upd_ctx c (\<lambda>x. x\<lparr>gc_capacity := capacity\<rparr>) s) else (False, s)
      else (True, s))"

definition start_trial :: "cell \<Rightarrow> cell" where
  "start_trial x = x\<lparr>visited := True, trial := (if refs x = RC_IMMORTAL then SIZE_MAX else refs x), marked := False\<rparr>"

definition gc_discover_edge :: "ctxid \<Rightarrow> handle \<Rightarrow> walk \<Rightarrow> walk" where
  "gc_discover_edge c v w =
     (case v of
        HRef a \<Rightarrow>
          if \<not> may_reach_vector (walk_mem w) v \<or> visited (cell_at (walk_mem w) a) then w
          else let s = upd_cell a start_trial (walk_mem w);
                   (ok, s) = gc_push c (length (nodes_found w)) s
               in if ok then w\<lparr>nodes_found := nodes_found w @ [a], walk_mem := s\<rparr>
                  else w\<lparr>failed := True, walk_mem := s\<rparr>
      | _ \<Rightarrow> w)"

definition discover_edges :: "ctxid \<Rightarrow> addr \<Rightarrow> walk \<Rightarrow> walk" where
  "discover_edges c a w = fold (gc_discover_edge c) (edges (walk_mem w) a) w"

fun discover_sources :: "ctxid \<Rightarrow> addr list \<Rightarrow> walk \<Rightarrow> walk" where
  "discover_sources c [] w = w"
| "discover_sources c (a # as) w = (if failed w then w else discover_sources c as (gc_discover_edge c (HRef a) w))"

lemma gc_push_simps [simp]:
  "cells (snd (gc_push c n s)) = cells s" "cell_at (snd (gc_push c n s)) a = cell_at s a"
  "live (snd (gc_push c n s)) a = live s a"
  by (simp_all add: gc_push_def Let_def case_prod_beta)

lemma unvisited_start_trial:
  assumes "live s a" "\<not> visited (cell_at s a)"
  shows "unvisited (upd_cell a start_trial s) + 1 = unvisited s"
proof -
  have "unvisited (upd_cell a start_trial s) = unvisited (upd_cell a (\<lambda>x. x\<lparr>visited := True\<rparr>) s)"
    unfolding unvisited_def by (rule arg_cong [of _ _ card]) (auto simp: cell_at_upd_cell start_trial_def)
  with unvisited_visit [OF assms] show ?thesis by simp
qed

lemma unvisited_gc_push [simp]: "unvisited (snd (gc_push c n s)) = unvisited s"
  by (simp add: unvisited_def)

definition walk_left :: "walk \<Rightarrow> nat" where
  "walk_left w = unvisited (walk_mem w) + length (nodes_found w)"

lemma discover_edge_left:
  "walk_left (gc_discover_edge c v w) \<le> walk_left w \<and> length (nodes_found w) \<le> length (nodes_found (gc_discover_edge c v w))"
proof (cases v)
  case (HRef a)
  show ?thesis
  proof (cases "reaches_vector (cell_at (walk_mem w) a) \<and> \<not> visited (cell_at (walk_mem w) a)")
    case True
    with unvisited_start_trial [OF reaches_vector_live, of "walk_mem w" a] HRef show ?thesis
      by (auto simp: gc_discover_edge_def walk_left_def Let_def case_prod_beta)
  qed (use HRef in \<open>auto simp: gc_discover_edge_def\<close>)
qed (simp_all add: gc_discover_edge_def)

lemma discover_edges_left:
  "walk_left (discover_edges c a w) \<le> walk_left w \<and> length (nodes_found w) \<le> length (nodes_found (discover_edges c a w))"
proof -
  have "walk_left (fold (gc_discover_edge c) vs u) \<le> walk_left u \<and>
     length (nodes_found u) \<le> length (nodes_found (fold (gc_discover_edge c) vs u))" for vs u
  proof (induction vs arbitrary: u)
    case (Cons v vs)
    from Cons.IH [of "gc_discover_edge c v u"] discover_edge_left [of c v u] show ?case by simp
  qed simp
  then show ?thesis by (simp add: discover_edges_def)
qed

function discover_loop :: "ctxid \<Rightarrow> nat \<Rightarrow> walk \<Rightarrow> walk" where
  \<comment> \<open>\<open>for (i = 0; i < scan.n && !scan.failed; ++i)\<close>\<close>
  "discover_loop c i w =
     (if i < length (nodes_found w) \<and> \<not> failed w
      then discover_loop c (i + 1) (discover_edges c (nodes_found w ! i) w)
      else w)"
  by pat_completeness auto
termination
proof (relation "measure (\<lambda>(c, i, w). walk_left w - i)")
  fix c i and w :: walk assume "i < length (nodes_found w) \<and> \<not> failed w"
  then have "i < walk_left w" by (simp add: walk_left_def)
  moreover have "walk_left (discover_edges c (nodes_found w ! i) w) \<le> walk_left w"
    using discover_edges_left by blast
  ultimately show "((c, i + 1, discover_edges c (nodes_found w ! i) w), c, i, w) \<in> measure (\<lambda>(c, i, w). walk_left w - i)"
    by simp
qed simp

declare discover_loop.simps [simp del]

subsection \<open>Trial deletion\<close>

definition gc_subtract_edge :: "handle \<Rightarrow> mem \<Rightarrow> mem" where
  "gc_subtract_edge v s =
     (case v of
        HRef a \<Rightarrow>
          if \<not> may_reach_vector s v \<or> \<not> visited (cell_at s a) then s
          else if trial (cell_at s a) = 0 then s\<lparr>fault := True\<rparr>
          else upd_cell a (\<lambda>x. x\<lparr>trial := trial x - 1\<rparr>) s
      | _ \<Rightarrow> s)"

definition subtract_edges :: "addr \<Rightarrow> mem \<Rightarrow> mem" where
  "subtract_edges a s = fold gc_subtract_edge (edges s a) s"

subsection \<open>Marking\<close>

record marking =
  stack :: "addr list"  \<comment> \<open>the entries past the first \<open>n\<close>, last first\<close>
  mark_failed :: bool
  mark_mem :: mem

definition mark_and_push :: "ctxid \<Rightarrow> nat \<Rightarrow> addr \<Rightarrow> marking \<Rightarrow> bool \<times> marking" where
  "mark_and_push c n a m =
     (let s = upd_cell a (\<lambda>x. x\<lparr>marked := True\<rparr>) (mark_mem m);
          (ok, s) = gc_push c (n + length (stack m)) s
      in (ok, if ok then m\<lparr>stack := a # stack m, mark_mem := s\<rparr> else m\<lparr>mark_failed := True, mark_mem := s\<rparr>))"

definition gc_mark_edge :: "ctxid \<Rightarrow> nat \<Rightarrow> handle \<Rightarrow> marking \<Rightarrow> marking" where
  "gc_mark_edge c n v m =
     (case v of
        HRef a \<Rightarrow>
          if \<not> may_reach_vector (mark_mem m) v \<or> \<not> visited (cell_at (mark_mem m) a) \<or> marked (cell_at (mark_mem m) a)
          then m else snd (mark_and_push c n a m)
      | _ \<Rightarrow> m)"

definition mark_edges :: "ctxid \<Rightarrow> nat \<Rightarrow> addr \<Rightarrow> marking \<Rightarrow> marking" where
  "mark_edges c n a m = fold (gc_mark_edge c n) (edges (mark_mem m) a) m"

definition unmarked :: "mem \<Rightarrow> nat" where
  "unmarked s = card {a \<in> fmdom' (cells s). \<not> marked (cell_at s a)}"

definition mark_left :: "marking \<Rightarrow> nat" where
  "mark_left m = 2 * unmarked (mark_mem m) + length (stack m)"

lemma unmarked_mark:
  assumes "live s a" "\<not> marked (cell_at s a)"
  shows "unmarked (upd_cell a (\<lambda>x. x\<lparr>marked := True\<rparr>) s) + 1 = unmarked s"
proof -
  let ?S = "{b \<in> fmdom' (cells s). \<not> marked (cell_at s b)}"
  have "{b \<in> fmdom' (cells s). \<not> marked (cell_at (upd_cell a (\<lambda>x. x\<lparr>marked := True\<rparr>) s) b)} = ?S - {a}"
    using assms(1) by (auto simp: cell_at_upd_cell)
  moreover have "a \<in> ?S" using assms by (simp add: live_fmdom)
  ultimately show ?thesis unfolding unmarked_def
    using card_Suc_Diff1 [of ?S a] by simp
qed

lemma unmarked_gc_push [simp]: "unmarked (snd (gc_push c n s)) = unmarked s"
  by (simp add: unmarked_def)

lemma mark_edge_left: "mark_left (gc_mark_edge c n v m) \<le> mark_left m"
proof (cases v)
  case (HRef a)
  show ?thesis
  proof (cases "reaches_vector (cell_at (mark_mem m) a) \<and> visited (cell_at (mark_mem m) a) \<and> \<not> marked (cell_at (mark_mem m) a)")
    case True
    with unmarked_mark [OF reaches_vector_live, of "mark_mem m" a] HRef show ?thesis
      by (auto simp: gc_mark_edge_def mark_and_push_def mark_left_def Let_def case_prod_beta)
  qed (use HRef in \<open>auto simp: gc_mark_edge_def\<close>)
qed (simp_all add: gc_mark_edge_def)

lemma mark_edges_left: "mark_left (mark_edges c n a m) \<le> mark_left m"
proof -
  have "mark_left (fold (gc_mark_edge c n) vs u) \<le> mark_left u" for vs u
  proof (induction vs arbitrary: u)
    case (Cons v vs)
    from Cons.IH [of "gc_mark_edge c n v u"] mark_edge_left [of c n v u] show ?case by simp
  qed simp
  then show ?thesis by (simp add: mark_edges_def)
qed

function mark_drain :: "ctxid \<Rightarrow> nat \<Rightarrow> marking \<Rightarrow> marking" where
  \<comment> \<open>\<open>while (mark.n > n && !mark.failed)\<close>\<close>
  "mark_drain c n m =
     (if mark_failed m then m
      else case stack m of
             [] \<Rightarrow> m
           | a # as \<Rightarrow> mark_drain c n (mark_edges c n a (m\<lparr>stack := as\<rparr>)))"
  by pat_completeness auto
termination
proof (relation "measure (\<lambda>(c, n, m). mark_left m)")
  fix c n and m :: marking and a as assume "stack m = a # as"
  with mark_edges_left [of c n a "m\<lparr>stack := as\<rparr>"]
  show "((c, n, mark_edges c n a (m\<lparr>stack := as\<rparr>)), c, n, m) \<in> measure (\<lambda>(c, n, m). mark_left m)"
    by (simp add: mark_left_def)
qed simp

declare mark_drain.simps [simp del]

fun mark_roots :: "ctxid \<Rightarrow> nat \<Rightarrow> addr list \<Rightarrow> marking \<Rightarrow> marking" where
  \<comment> \<open>the loop over the first \<open>n\<close> entries\<close>
  "mark_roots c n [] m = m"
| "mark_roots c n (a # as) m =
     (let (ok, m) = (if trial (cell_at (mark_mem m) a) \<noteq> 0 \<and> \<not> marked (cell_at (mark_mem m) a)
                     then mark_and_push c n a m else (True, m))
      in if \<not> ok then m else mark_roots c n as (mark_drain c n m))"

subsection \<open>Freeing\<close>

definition classify :: "addr \<Rightarrow> addr list \<times> mem \<Rightarrow> addr list \<times> mem" where
  \<comment> \<open>push an unmarked cell on the dead list, clear the walk bit of a marked one\<close>
  "classify a r =
     (case r of (dead, s) \<Rightarrow>
        if \<not> marked (cell_at s a) then (a # dead, unlink_object a s)
        else (dead, upd_cell a (\<lambda>x. x\<lparr>visited := False\<rparr>) s))"

definition gc_release_edge :: "handle \<Rightarrow> mem \<Rightarrow> mem" where
  "gc_release_edge v s =
     (case v of
        HRef a \<Rightarrow> if visited (cell_at s a) \<and> \<not> marked (cell_at s a) then s else rc_release v s
      | _ \<Rightarrow> s)"

definition release_dead :: "addr \<Rightarrow> mem \<Rightarrow> mem" where
  "release_dead a s = fold gc_release_edge (edges s a) s"

definition unmark_source :: "ctxid \<Rightarrow> addr \<Rightarrow> mem \<Rightarrow> mem" where
  \<comment> \<open>drop the mark of a source that lies on no cycle\<close>
  "unmark_source c a s = (let (cyclic, s) = on_cycle c a s in if cyclic then s else source_unlink c a s)"

definition collect_from_sources :: "ctxid \<Rightarrow> mem \<Rightarrow> mem" where
  "collect_from_sources c s =
     (let w = discover_loop c 0 (discover_sources c (sources (ctxs s c))
                \<lparr>nodes_found = [], found = False, failed = False, walk_mem = s\<rparr>);
          nodes = nodes_found w
      in if failed w then clear_visited nodes (walk_mem w)
         else let s = fold subtract_edges nodes (walk_mem w);
                  m = mark_roots c (length nodes) nodes \<lparr>stack = [], mark_failed = False, mark_mem = s\<rparr>
              in if mark_failed m then clear_visited nodes (mark_mem m)
                 else let s = mark_mem m;
                          frees = total_frees (stats (ctxs s c));
                          (dead, s) = fold classify nodes ([], s);
                          s = fold raw_free dead (fold release_dead dead s);
                          s = upd_stats c (\<lambda>x. x\<lparr>cycle_objects_freed := cycle_objects_freed x + (total_frees x - frees)\<rparr>) s
                      in fold (unmark_source c) (take 64 (sources (ctxs s c))) s)"

subsection \<open>Collection and teardown\<close>

definition collection_budget :: "nat \<Rightarrow> nat \<Rightarrow> nat" where
  "collection_budget objects slots =
     (let work = (if objects > SIZE_MAX - slots then SIZE_MAX else objects + slots);
          budget = (if work > SIZE_MAX div 4 then SIZE_MAX else work * 4)
      in if budget < 4096 then 4096 else budget)"

definition rc_collect :: "ctxid \<Rightarrow> mem \<Rightarrow> mem" where
  "rc_collect c s =
     (if c = 0 \<or> acyclic (ctxs s c) \<or> collecting (ctxs s c) then s
      else let s = upd_ctx c (\<lambda>x. x\<lparr>collecting := True, since_collection := 0,
                      stats := (stats x)\<lparr>collections := collections (stats x) + 1\<rparr>\<rparr>) s;
               s = (if cycle_sources (ctxs s c) = 0
                    then upd_stats c (\<lambda>x. x\<lparr>acyclic_collections := acyclic_collections x + 1\<rparr>) s
                    else collect_from_sources c s);
               s = (if adaptive_collection (ctxs s c)
                    then upd_ctx c (\<lambda>x. x\<lparr>collection_interval := collection_budget (live_objects (stats x)) (graph_slots x)\<rparr>) s
                    else s)
           in upd_ctx c (\<lambda>x. x\<lparr>collecting := False\<rparr>) s)"

definition rc_safepoint :: "ctxid \<Rightarrow> mem \<Rightarrow> mem" where
  "rc_safepoint c s =
     (if c \<noteq> 0 \<and> \<not> acyclic (ctxs s c) \<and> collection_interval (ctxs s c) \<noteq> 0 \<and>
         since_collection (ctxs s c) \<ge> collection_interval (ctxs s c)
      then rc_collect c s else s)"

definition page_cells :: "nat \<Rightarrow> page \<Rightarrow> addr list" where
  \<comment> \<open>the cells of a page, from the first offset to the bump offset\<close>
  "page_cells n p =
     map (\<lambda>i. n * RC_PAGE_BYTES + PAGE_FIRST + i * page_cell_bytes p)
       [0 ..< (page_used p - PAGE_FIRST + page_cell_bytes p - 1) div page_cell_bytes p]"

definition free_page :: "nat \<Rightarrow> mem \<Rightarrow> mem" where
  \<comment> \<open>free every cell of the page that is in use, then the page\<close>
  "free_page n s =
     (case fmlookup (page_table s) n of
        None \<Rightarrow> s
      | Some p \<Rightarrow>
          let s = fold (\<lambda>a s. if live s a then raw_free a s else s) (page_cells n p) s
          in s\<lparr>page_table := fmdrop n (page_table s)\<rparr>)"

definition rc_context_free :: "ctxid \<Rightarrow> mem \<Rightarrow> mem" where
  \<comment> \<open>afterwards nothing of the context is left; the record is reset for definiteness\<close>
  "rc_context_free c s =
     (if c = 0 then s
      else let s = upd_ctx c (\<lambda>x. x\<lparr>compiled_symbols := [], destroying := True\<rparr>) s;
               s = fold free_page (pages (ctxs s c)) s
           in upd_ctx c (\<lambda>_. zero_ctx) s)"

end
