(* ===== verification/Collector_Laws.thy ===== *)
theory Collector_Laws
  imports Collector
begin

text \<open>
  The cycle collector is safe. The three walks of \<open>collect_from_sources\<close> change walk state only:
  they end with the set \<open>G\<close> of discovered cells, the trial counts of its members (the references
  from outside \<open>G\<close>) and the marks, which are closed under the edges inside \<open>G\<close>. The unmarked
  members therefore have no holder but each other, which is what dismantling them together needs.
\<close>

subsection \<open>Discovery\<close>

definition discovered :: "mem \<Rightarrow> walk \<Rightarrow> bool" where
  "discovered s w \<longleftrightarrow> walk_only s (walk_mem w) \<and> distinct (nodes_found w) \<and>
     (\<forall>a\<in>set (nodes_found w). live s a \<and> visited (cell_at (walk_mem w) a)) \<and>
     (\<not> failed w \<longrightarrow> (\<forall>a. visited (cell_at (walk_mem w) a) \<longleftrightarrow> a \<in> set (nodes_found w)) \<and>
       (\<forall>a\<in>set (nodes_found w). reaches_vector (cell_at s a) \<and>
          cell_at (walk_mem w) a = start_trial (cell_at s a)))"

lemma walk_only_gc_push [simp]: "walk_only s (snd (gc_push c n s))"
  using walk_only_trans [OF walk_only_library_call walk_only_capacity(2)]
  by (auto simp: gc_push_def Let_def case_prod_beta)

lemma walk_only_start_trial: "live s a \<Longrightarrow> walk_only s (upd_cell a start_trial s)"
  by (rule walk_only_upd_cell) (simp_all add: start_trial_def same_contents_def)

lemma discover_edge_ok:
  assumes "discovered s w"
  shows "discovered s (gc_discover_edge c v w)"
proof (cases "\<exists>a. v = HRef a \<and> reaches_vector (cell_at (walk_mem w) a) \<and> \<not> visited (cell_at (walk_mem w) a)")
  case False
  then have "gc_discover_edge c v w = w" by (auto simp: gc_discover_edge_def split: handle.split)
  with assms show ?thesis by simp
next
  case True
  then obtain a where a: "v = HRef a" "reaches_vector (cell_at (walk_mem w) a)" "\<not> visited (cell_at (walk_mem w) a)" by blast
  have wo: "walk_only s (walk_mem w)" using assms by (simp add: discovered_def)
  have l: "live (walk_mem w) a" by (rule reaches_vector_live [OF a(2)])
  let ?u = "upd_cell a start_trial (walk_mem w)"
  obtain okay u where p: "gc_push c (length (nodes_found w)) ?u = (okay, u)" by fastforce
  have cu: "cell_at u b = (if b = a then start_trial (cell_at (walk_mem w) a) else cell_at (walk_mem w) b)" for b
    using gc_push_simps(2) [of c "length (nodes_found w)" ?u b] l p by (simp add: cell_at_upd_cell)
  have wu: "walk_only s u"
    using walk_only_trans [OF walk_only_trans [OF wo walk_only_start_trial [OF l]] walk_only_gc_push] p by (metis snd_conv)
  have r: "gc_discover_edge c v w = (if okay then w\<lparr>nodes_found := nodes_found w @ [a], walk_mem := u\<rparr> else w\<lparr>failed := True, walk_mem := u\<rparr>)"
    using a p by (simp add: gc_discover_edge_def)
  have an: "a \<notin> set (nodes_found w)" using assms a(3) by (auto simp: discovered_def)
  have la: "live s a" using l walk_onlyD(2) [OF wo] by simp
  have vis: "\<forall>b\<in>set (nodes_found w). live s b \<and> visited (cell_at u b)" using assms an by (auto simp: discovered_def cu)
  show ?thesis
  proof (cases "okay \<and> \<not> failed w")
    case False
    have "visited (cell_at u a)" by (simp add: cu start_trial_def)
    with False assms wu an la vis show ?thesis by (auto simp: r discovered_def)
  next
    case ok: True
    then have G: "\<And>b. visited (cell_at (walk_mem w) b) \<longleftrightarrow> b \<in> set (nodes_found w)"
      "\<And>b. b \<in> set (nodes_found w) \<Longrightarrow> reaches_vector (cell_at s b) \<and> cell_at (walk_mem w) b = start_trial (cell_at s b)"
      using assms by (simp_all add: discovered_def)
    have sc: "start_trial (cell_at (walk_mem w) a) = start_trial (cell_at s a)"
      by (rule cell.equality) (use wo in \<open>simp_all add: start_trial_def walk_only_def same_contents_def same_heap_def\<close>)
    have "visited (cell_at u b) \<longleftrightarrow> b = a \<or> b \<in> set (nodes_found w)" for b using G(1) by (simp add: cu start_trial_def)
    moreover have "reaches_vector (cell_at s b) \<and> cell_at u b = start_trial (cell_at s b)" if "b = a \<or> b \<in> set (nodes_found w)" for b
      using that G(2) a(2) an walk_onlyD(5) [OF wo, of a] sc by (auto simp: cu)
    moreover have "visited (start_trial x)" for x by (simp add: start_trial_def)
    ultimately show ?thesis using ok assms wu an la by (auto simp: r discovered_def)
  qed
qed

lemma discover_edges_ok: "discovered s w \<Longrightarrow> discovered s (discover_edges c a w)"
proof -
  have "discovered s u \<Longrightarrow> discovered s (fold (gc_discover_edge c) vs u)" for vs u
    by (induction vs arbitrary: u) (simp_all add: discover_edge_ok)
  then show "discovered s w \<Longrightarrow> discovered s (discover_edges c a w)" by (simp add: discover_edges_def)
qed

lemma discover_sources_ok: "discovered s w \<Longrightarrow> discovered s (discover_sources c as w)"
  by (induction as arbitrary: w) (simp_all add: discover_edge_ok)

lemma discover_loop_ok: "discovered s w \<Longrightarrow> discovered s (discover_loop c i w)"
proof (induction c i w rule: discover_loop.induct)
  case (1 c i w)
  then show ?case using discover_edges_ok [OF "1.prems"] by (subst discover_loop.simps) simp
qed

subsection \<open>Trial deletion\<close>

text \<open>Only members of \<open>G\<close> are visited, so an edge is subtracted exactly when it leads into \<open>G\<close>.\<close>

definition in_walk :: "addr set \<Rightarrow> mem \<Rightarrow> bool" where
  "in_walk G s \<longleftrightarrow> (\<forall>a. visited (cell_at s a) \<longleftrightarrow> a \<in> G) \<and> (\<forall>a\<in>G. reaches_vector (cell_at s a))"

lemma in_walk_upd:
  assumes "in_walk G s" "live s a" "\<And>x. visited (f x) = visited x \<and> reaches_vector (f x) = reaches_vector x"
  shows "in_walk G (upd_cell a f s)"
  using assms by (simp add: in_walk_def cell_at_upd_cell)

lemma subtract_edge_ok:
  assumes "in_walk G s" "\<And>x. x \<in> G \<Longrightarrow> count (mset (v # vs)) (HRef x) \<le> trial (cell_at s x)"
  shows "walk_only s (gc_subtract_edge v s) \<and> in_walk G (gc_subtract_edge v s) \<and>
    (\<forall>x\<in>G. trial (cell_at (gc_subtract_edge v s) x) + count {#v#} (HRef x) = trial (cell_at s x)) \<and>
    (\<forall>x. marked (cell_at (gc_subtract_edge v s) x) = marked (cell_at s x))"
proof (cases "\<exists>a\<in>G. v = HRef a")
  case False
  then have "gc_subtract_edge v s = s" using assms(1) by (auto simp: gc_subtract_edge_def in_walk_def split: handle.split)
  with False assms(1) show ?thesis by auto
next
  case True
  then obtain a where a: "a \<in> G" "v = HRef a" by blast
  have t: "trial (cell_at s a) \<noteq> 0" using assms(2) [OF a(1)] a(2) by auto
  have rv: "reaches_vector (cell_at s a)" "visited (cell_at s a)" using assms(1) a(1) by (simp_all add: in_walk_def)
  have l: "live s a" by (rule reaches_vector_live [OF rv(1)])
  have e: "gc_subtract_edge v s = upd_cell a (\<lambda>x. x\<lparr>trial := trial x - 1\<rparr>) s"
    using a(2) t rv by (simp add: gc_subtract_edge_def)
  have "walk_only s (gc_subtract_edge v s)" unfolding e by (rule walk_only_upd_cell [OF l]) (simp add: same_contents_def)
  moreover have "in_walk G (gc_subtract_edge v s)" unfolding e by (rule in_walk_upd [OF assms(1) l]) simp
  ultimately show ?thesis using t a(2) l unfolding e by (auto simp: cell_at_upd_cell)
qed

lemma subtract_fold_ok:
  assumes "in_walk G s" "\<And>x. x \<in> G \<Longrightarrow> count (mset vs) (HRef x) \<le> trial (cell_at s x)"
  shows "walk_only s (fold gc_subtract_edge vs s) \<and> in_walk G (fold gc_subtract_edge vs s) \<and>
    (\<forall>x\<in>G. trial (cell_at (fold gc_subtract_edge vs s) x) + count (mset vs) (HRef x) = trial (cell_at s x)) \<and>
    (\<forall>x. marked (cell_at (fold gc_subtract_edge vs s) x) = marked (cell_at s x))"
  using assms
proof (induction vs arbitrary: s)
  case (Cons v vs)
  let ?u = "gc_subtract_edge v s"
  from subtract_edge_ok [OF Cons.prems] have u: "walk_only s ?u" "in_walk G ?u"
    "\<And>x. x \<in> G \<Longrightarrow> trial (cell_at ?u x) + count {#v#} (HRef x) = trial (cell_at s x)"
    "\<And>x. marked (cell_at ?u x) = marked (cell_at s x)" by simp_all
  have "count (mset vs) (HRef x) \<le> trial (cell_at ?u x)" if "x \<in> G" for x
    using u(3) [OF that] Cons.prems(2) [OF that] by (auto split: if_splits)
  from Cons.IH [OF u(2) this] have f: "walk_only ?u (fold gc_subtract_edge vs ?u)" "in_walk G (fold gc_subtract_edge vs ?u)"
    "\<And>x. x \<in> G \<Longrightarrow> trial (cell_at (fold gc_subtract_edge vs ?u) x) + count (mset vs) (HRef x) = trial (cell_at ?u x)"
    "\<And>x. marked (cell_at (fold gc_subtract_edge vs ?u) x) = marked (cell_at ?u x)" by simp_all
  have "trial (cell_at (fold gc_subtract_edge (v # vs) s) x) + count (mset (v # vs)) (HRef x) = trial (cell_at s x)" if "x \<in> G" for x
    using f(3) [OF that] u(3) [OF that] by (cases "v = HRef x") simp_all
  moreover have "walk_only s (fold gc_subtract_edge (v # vs) s)" using walk_only_trans [OF u(1) f(1)] by simp
  ultimately show ?case using f(2,4) u(4) by simp
qed simp

lemma subtract_all: "(\<And>a t. walk_only s t \<Longrightarrow> edges t a = edges s a) \<Longrightarrow>
  walk_only s u \<Longrightarrow> in_walk G u \<Longrightarrow> (\<And>x. x \<in> G \<Longrightarrow> count (mset (concat (map (edges s) as))) (HRef x) \<le> trial (cell_at u x)) \<Longrightarrow>
  fold subtract_edges as u = fold gc_subtract_edge (concat (map (edges s) as)) u"
proof (induction as arbitrary: u)
  case (Cons a as)
  have e: "subtract_edges a u = fold gc_subtract_edge (edges s a) u"
    using Cons.prems(1) [OF Cons.prems(2)] by (simp add: subtract_edges_def)
  have le: "count (mset (edges s a)) (HRef x) \<le> trial (cell_at u x)" if "x \<in> G" for x
    using Cons.prems(4) [OF that] by simp
  let ?t = "fold gc_subtract_edge (edges s a) u"
  from subtract_fold_ok [OF Cons.prems(3) le] have t: "walk_only u ?t" "in_walk G ?t"
    "\<And>x. x \<in> G \<Longrightarrow> trial (cell_at ?t x) + count (mset (edges s a)) (HRef x) = trial (cell_at u x)" by simp_all
  have "count (mset (concat (map (edges s) as))) (HRef x) \<le> trial (cell_at ?t x)" if "x \<in> G" for x
    using t(3) [OF that] Cons.prems(4) [OF that] by simp
  from Cons.IH [OF Cons.prems(1) walk_only_trans [OF Cons.prems(2) t(1)] t(2) this] e show ?case by simp
qed simp

subsection \<open>Marking\<close>

definition marking_ok :: "mem \<Rightarrow> addr set \<Rightarrow> marking \<Rightarrow> bool" where
  \<comment> \<open>\<open>s\<close> is the memory before the marking: only marks have changed, and what is pushed is marked\<close>
  "marking_ok s G m \<longleftrightarrow> walk_only s (mark_mem m) \<and> in_walk G (mark_mem m) \<and>
     (\<forall>a. trial (cell_at (mark_mem m) a) = trial (cell_at s a)) \<and>
     (\<forall>a. marked (cell_at (mark_mem m) a) \<longrightarrow> marked (cell_at s a) \<or> a \<in> G) \<and>
     (\<forall>a\<in>set (stack m). a \<in> G \<and> marked (cell_at (mark_mem m) a))"

definition marks_grow :: "marking \<Rightarrow> marking \<Rightarrow> bool" where
  "marks_grow m m' \<longleftrightarrow> (mark_failed m \<longrightarrow> mark_failed m') \<and> set (stack m) \<subseteq> set (stack m') \<and>
     (\<forall>a. marked (cell_at (mark_mem m) a) \<longrightarrow> marked (cell_at (mark_mem m') a)) \<and>
     (\<not> mark_failed m' \<longrightarrow> (\<forall>a. marked (cell_at (mark_mem m') a) \<longrightarrow> marked (cell_at (mark_mem m) a) \<or> a \<in> set (stack m')))"

lemma marks_grow_refl [simp]: "marks_grow m m"
  by (simp add: marks_grow_def)

lemma marks_grow_trans: "marks_grow a b \<Longrightarrow> marks_grow b c \<Longrightarrow> marks_grow a c"
  unfolding marks_grow_def by blast

lemma mark_and_push_ok:
  assumes "marking_ok s G m" "a \<in> G" "mark_and_push c n a m = (okay, m')"
  shows "marking_ok s G m' \<and> marks_grow m m' \<and> marked (cell_at (mark_mem m') a) \<and> (okay \<longrightarrow> mark_failed m' = mark_failed m) \<and>
    (\<not> okay \<longrightarrow> mark_failed m')"
proof -
  let ?u = "upd_cell a (\<lambda>x. x\<lparr>marked := True\<rparr>) (mark_mem m)"
  have wo: "walk_only s (mark_mem m)" and iw: "in_walk G (mark_mem m)" using assms(1) by (simp_all add: marking_ok_def)
  have l: "live (mark_mem m) a" using iw assms(2) reaches_vector_live by (auto simp: in_walk_def)
  obtain u where p: "gc_push c (n + length (stack m)) ?u = (okay, u)" using assms(3) by (auto simp: mark_and_push_def split: prod.splits)
  have cu: "cell_at u b = (if b = a then (cell_at (mark_mem m) a)\<lparr>marked := True\<rparr> else cell_at (mark_mem m) b)" for b
    using gc_push_simps(2) [of c "n + length (stack m)" ?u b] l p by (simp add: cell_at_upd_cell)
  have "walk_only (mark_mem m) ?u" by (rule walk_only_upd_cell [OF l]) (simp add: same_contents_def)
  then have wu: "walk_only s u" using walk_only_trans [OF walk_only_trans [OF wo] walk_only_gc_push] p by (metis snd_conv)
  have m': "m' = (if okay then m\<lparr>stack := a # stack m, mark_mem := u\<rparr> else m\<lparr>mark_failed := True, mark_mem := u\<rparr>)"
    using assms(3) p by (simp add: mark_and_push_def)
  have "in_walk G u" using iw by (simp add: in_walk_def cu)
  with assms(1,2) wu m' show ?thesis by (auto simp: marking_ok_def marks_grow_def cu)
qed

lemma mark_edge_ok:
  assumes "marking_ok s G m"
  shows "marking_ok s G (gc_mark_edge c n v m) \<and> marks_grow m (gc_mark_edge c n v m) \<and>
    (\<forall>a\<in>G. v = HRef a \<longrightarrow> marked (cell_at (mark_mem (gc_mark_edge c n v m)) a))"
proof (cases "\<exists>a\<in>G. v = HRef a \<and> \<not> marked (cell_at (mark_mem m) a)")
  case False
  then have "gc_mark_edge c n v m = m" using assms
    by (auto simp: gc_mark_edge_def marking_ok_def in_walk_def split: handle.split)
  with assms False show ?thesis by auto
next
  case True
  then obtain a where a: "a \<in> G" "v = HRef a" "\<not> marked (cell_at (mark_mem m) a)" by blast
  obtain okay m' where p: "mark_and_push c n a m = (okay, m')" by fastforce
  have "gc_mark_edge c n v m = m'" using a assms p by (simp add: gc_mark_edge_def marking_ok_def in_walk_def)
  with mark_and_push_ok [OF assms a(1) p] a(2) show ?thesis by simp
qed

lemma mark_fold_ok:
  assumes "marking_ok s G m"
  shows "marking_ok s G (fold (gc_mark_edge c n) vs m) \<and> marks_grow m (fold (gc_mark_edge c n) vs m) \<and>
    (\<forall>a\<in>G. HRef a \<in> set vs \<longrightarrow> marked (cell_at (mark_mem (fold (gc_mark_edge c n) vs m)) a))"
  using assms
proof (induction vs arbitrary: m)
  case (Cons v vs)
  let ?u = "gc_mark_edge c n v m" and ?r = "fold (gc_mark_edge c n) vs (gc_mark_edge c n v m)"
  note e = mark_edge_ok [OF Cons.prems, of c n v]
  then have f: "marking_ok s G ?r" "marks_grow ?u ?r" "\<forall>a\<in>G. HRef a \<in> set vs \<longrightarrow> marked (cell_at (mark_mem ?r) a)"
    using Cons.IH [of ?u] by blast+
  have "marked (cell_at (mark_mem ?r) a)" if "a \<in> G" "v = HRef a" for a
  proof -
    have "marked (cell_at (mark_mem ?u) a)" using e that by blast
    with f(2) show ?thesis by (simp add: marks_grow_def)
  qed
  with f e show ?case by (auto intro: marks_grow_trans)
qed simp

definition mark_closed :: "mem \<Rightarrow> addr set \<Rightarrow> marking \<Rightarrow> bool" where
  \<comment> \<open>all but the cells on the stack have been followed\<close>
  "mark_closed s G m \<longleftrightarrow> (\<not> mark_failed m \<longrightarrow> (\<forall>a\<in>G. marked (cell_at (mark_mem m) a) \<longrightarrow> a \<notin> set (stack m) \<longrightarrow>
     (\<forall>b\<in>G. HRef b \<in> set (edges s a) \<longrightarrow> marked (cell_at (mark_mem m) b))))"

lemma mark_drain_ok:
  assumes "marking_ok s G m" "mark_closed s G m"
  shows "marking_ok s G (mark_drain c n m) \<and> mark_closed s G (mark_drain c n m) \<and>
    (mark_failed m \<longrightarrow> mark_failed (mark_drain c n m)) \<and> (\<not> mark_failed (mark_drain c n m) \<longrightarrow> stack (mark_drain c n m) = []) \<and>
    (\<forall>a. marked (cell_at (mark_mem m) a) \<longrightarrow> marked (cell_at (mark_mem (mark_drain c n m)) a))"
  using assms
proof (induction c n m rule: mark_drain.induct)
  case (1 c n m)
  show ?case
  proof (cases "mark_failed m \<or> stack m = []")
    case True
    then have "mark_drain c n m = m" by (auto simp: mark_drain.simps [of c n m])
    with True "1.prems" show ?thesis by auto
  next
    case False
    then obtain a as where st: "\<not> mark_failed m" "stack m = a # as" by (cases "stack m") auto
    let ?m0 = "m\<lparr>stack := as\<rparr>"
    let ?u = "mark_edges c n a ?m0"
    have step: "mark_drain c n m = mark_drain c n ?u" using st by (simp add: mark_drain.simps [of c n m])
    have m0: "marking_ok s G ?m0" using "1.prems"(1) st(2) by (simp add: marking_ok_def)
    have a: "a \<in> G" "marked (cell_at (mark_mem m) a)" using "1.prems"(1) st(2) by (simp_all add: marking_ok_def)
    have es: "edges (mark_mem m) a = edges s a" using "1.prems"(1) walk_onlyD(8) by (simp add: marking_ok_def)
    have f: "marking_ok s G ?u" "marks_grow ?m0 ?u" "\<forall>b\<in>G. HRef b \<in> set (edges s a) \<longrightarrow> marked (cell_at (mark_mem ?u) b)"
      using mark_fold_ok [OF m0, of c n "edges s a"] by (simp_all add: mark_edges_def es)
    have "mark_closed s G ?u"
      unfolding mark_closed_def
    proof (intro impI ballI)
      fix b d assume nf: "\<not> mark_failed ?u" and b: "b \<in> G" "marked (cell_at (mark_mem ?u) b)" "b \<notin> set (stack ?u)"
        and d: "d \<in> G" "HRef d \<in> set (edges s b)"
      show "marked (cell_at (mark_mem ?u) d)"
      proof (cases "b = a")
        case True
        with f(3) d show ?thesis by simp
      next
        case False
        have g: "set as \<subseteq> set (stack ?u)" "\<And>x. marked (cell_at (mark_mem m) x) \<Longrightarrow> marked (cell_at (mark_mem ?u) x)"
          "\<And>x. marked (cell_at (mark_mem ?u) x) \<Longrightarrow> marked (cell_at (mark_mem m) x) \<or> x \<in> set (stack ?u)"
          using f(2) nf by (simp_all add: marks_grow_def)
        have "marked (cell_at (mark_mem m) b)" using g(3) b(2,3) by blast
        moreover have "b \<notin> set (stack m)" using g(1) b(3) False st(2) by auto
        moreover note "1.prems"(2) [unfolded mark_closed_def, rule_format, OF st(1) b(1)]
        ultimately have "marked (cell_at (mark_mem m) d)" using d by blast
        then show ?thesis by (rule g(2))
      qed
    qed
    note I = "1.IH" [OF st(1,2) f(1) this]
    have "marked (cell_at (mark_mem ?u) x)" if "marked (cell_at (mark_mem m) x)" for x
      using f(2) that by (simp add: marks_grow_def)
    with I st(1) show ?thesis unfolding step by blast
  qed
qed

lemma mark_root_ok:
  assumes "marking_ok s G m" "a \<in> G"
    and p: "(if trial (cell_at (mark_mem m) a) \<noteq> 0 \<and> \<not> marked (cell_at (mark_mem m) a)
      then mark_and_push c n a m else (True, m)) = (okay, m1)"
  shows "marking_ok s G m1" "marks_grow m m1" "\<not> okay \<Longrightarrow> mark_failed m1"
    "trial (cell_at s a) \<noteq> 0 \<Longrightarrow> marked (cell_at (mark_mem m1) a)"
proof -
  have "marking_ok s G m1 \<and> marks_grow m m1 \<and> (\<not> okay \<longrightarrow> mark_failed m1) \<and>
    (trial (cell_at s a) \<noteq> 0 \<longrightarrow> marked (cell_at (mark_mem m1) a))"
  proof (cases "trial (cell_at (mark_mem m) a) \<noteq> 0 \<and> \<not> marked (cell_at (mark_mem m) a)")
    case True
    with p have "mark_and_push c n a m = (okay, m1)" by (simp only: if_True simp_thms)
    from mark_and_push_ok [OF assms(1,2) this] show ?thesis by blast
  next
    case False
    with p have "okay" "m1 = m" by auto
    with False assms(1) show ?thesis unfolding marking_ok_def by force
  qed
  then show "marking_ok s G m1" "marks_grow m m1" "\<not> okay \<Longrightarrow> mark_failed m1"
    "trial (cell_at s a) \<noteq> 0 \<Longrightarrow> marked (cell_at (mark_mem m1) a)" by blast+
qed

lemma mark_closed_grow:
  assumes "mark_closed s G m" "marks_grow m m1" "stack m = []"
  shows "mark_closed s G m1"
  unfolding mark_closed_def
proof (intro impI ballI)
  fix b d assume nf: "\<not> mark_failed m1" and b: "b \<in> G" "marked (cell_at (mark_mem m1) b)" "b \<notin> set (stack m1)"
    and d: "d \<in> G" "HRef d \<in> set (edges s b)"
  have g: "\<not> mark_failed m" "\<And>x. marked (cell_at (mark_mem m) x) \<Longrightarrow> marked (cell_at (mark_mem m1) x)"
    "\<And>x. marked (cell_at (mark_mem m1) x) \<Longrightarrow> marked (cell_at (mark_mem m) x) \<or> x \<in> set (stack m1)"
    using assms(2) nf by (auto simp: marks_grow_def)
  have "marked (cell_at (mark_mem m) b)" using g(3) b(2,3) by blast
  moreover have "b \<notin> set (stack m)" by (simp add: assms(3))
  ultimately show "marked (cell_at (mark_mem m1) d)"
    using assms(1) [unfolded mark_closed_def, rule_format, OF g(1) b(1)] d g(2) by blast
qed

lemma mark_roots_step:
  assumes "(if trial (cell_at (mark_mem m) a) \<noteq> 0 \<and> \<not> marked (cell_at (mark_mem m) a)
      then mark_and_push c n a m else (True, m)) = (okay, m1)"
  shows "mark_roots c n (a # as) m = (if \<not> okay then m1 else mark_roots c n as (mark_drain c n m1))"
  by (simp only: mark_roots.simps assms Let_def prod.case)

lemma mark_roots_failed:
  "marking_ok s G m \<Longrightarrow> set as \<subseteq> G \<Longrightarrow> mark_failed m \<Longrightarrow> mark_failed (mark_roots c n as m)"
proof (induction as arbitrary: m)
  case (Cons x xs)
  obtain okay m1 where p: "(if trial (cell_at (mark_mem m) x) \<noteq> 0 \<and> \<not> marked (cell_at (mark_mem m) x)
      then mark_and_push c n x m else (True, m)) = (okay, m1)" by fastforce
  have x: "x \<in> G" using Cons.prems(2) by simp
  note K = mark_root_ok [OF Cons.prems(1) x p]
  have f: "mark_failed m1" using K(2) Cons.prems(3) by (simp add: marks_grow_def)
  then have "mark_drain c n m1 = m1" by (simp add: mark_drain.simps [of c n m1])
  moreover have "mark_failed (mark_roots c n xs m1)" using Cons.IH [OF K(1) _ f] Cons.prems(2) by simp
  ultimately show ?case using f unfolding mark_roots_step [OF p] by simp
qed simp

lemma mark_roots_ok:
  "marking_ok s G m \<Longrightarrow> mark_closed s G m \<Longrightarrow> stack m = [] \<Longrightarrow> set as \<subseteq> G \<Longrightarrow> \<not> mark_failed (mark_roots c n as m) \<Longrightarrow>
   marking_ok s G (mark_roots c n as m) \<and> mark_closed s G (mark_roots c n as m) \<and> stack (mark_roots c n as m) = [] \<and>
    (\<forall>a. marked (cell_at (mark_mem m) a) \<longrightarrow> marked (cell_at (mark_mem (mark_roots c n as m)) a)) \<and>
    (\<forall>a\<in>set as. trial (cell_at s a) \<noteq> 0 \<longrightarrow> marked (cell_at (mark_mem (mark_roots c n as m)) a))"
proof (induction as arbitrary: m)
  case (Cons a as)
  obtain okay m1 where p: "(if trial (cell_at (mark_mem m) a) \<noteq> 0 \<and> \<not> marked (cell_at (mark_mem m) a)
      then mark_and_push c n a m else (True, m)) = (okay, m1)" by fastforce
  have a: "a \<in> G" "set as \<subseteq> G" using Cons.prems(4) by simp_all
  note r = mark_roots_step [OF p, of as] and K = mark_root_ok [OF Cons.prems(1) a(1) p]
  note c1 = mark_closed_grow [OF Cons.prems(2) K(2) Cons.prems(3)]
  have okay: okay using K(3) r Cons.prems(5) by (cases okay) simp_all
  define d where "d = mark_drain c n m1"
  note D = mark_drain_ok [OF K(1) c1, of c n, folded d_def]
  have r': "mark_roots c n (a # as) m = mark_roots c n as d" using r okay by (simp add: d_def)
  have nf: "\<not> mark_failed (mark_roots c n as d)" using Cons.prems(5) r' by simp
  have dk: "marking_ok s G d" "mark_closed s G d" using D by blast+
  have "\<not> mark_failed d" using nf mark_roots_failed [OF dk(1) a(2)] by blast
  then have st: "stack d = []" using D by blast
  note I = Cons.IH [OF dk st a(2) nf]
  have g: "marked (cell_at (mark_mem (mark_roots c n as d)) b)" if "marked (cell_at (mark_mem m1) b)" for b
    using that D I by blast
  have "marked (cell_at (mark_mem (mark_roots c n as d)) b)" if "marked (cell_at (mark_mem m) b)" for b
    using that K(2) g by (simp add: marks_grow_def)
  moreover have "marked (cell_at (mark_mem (mark_roots c n as d)) a)" if "trial (cell_at s a) \<noteq> 0"
    using K(4) [OF that] by (rule g)
  ultimately show ?case unfolding r' using I by auto
qed simp

lemma mark_roots_walk:
  "marking_ok s G m \<Longrightarrow> mark_closed s G m \<Longrightarrow> stack m = [] \<or> mark_failed m \<Longrightarrow> set as \<subseteq> G \<Longrightarrow>
   marking_ok s G (mark_roots c n as m)"
proof (induction as arbitrary: m)
  case (Cons a as)
  obtain okay m1 where p: "(if trial (cell_at (mark_mem m) a) \<noteq> 0 \<and> \<not> marked (cell_at (mark_mem m) a)
      then mark_and_push c n a m else (True, m)) = (okay, m1)" by fastforce
  have a: "a \<in> G" "set as \<subseteq> G" using Cons.prems(4) by simp_all
  note r = mark_roots_step [OF p, of as] and K = mark_root_ok [OF Cons.prems(1) a(1) p]
  have "mark_closed s G m1"
  proof (cases "stack m = []")
    case True
    then show ?thesis by (rule mark_closed_grow [OF Cons.prems(2) K(2)])
  next
    case False
    with Cons.prems(3) K(2) show ?thesis by (simp add: marks_grow_def mark_closed_def)
  qed
  note D = mark_drain_ok [OF K(1) this, of c n]
  have "marking_ok s G (mark_roots c n as (mark_drain c n m1))"
    using Cons.IH [of "mark_drain c n m1"] D a(2) by blast
  with K(1) show ?case unfolding r by simp
qed simp

end
