(* ===== verification/Dismantle.thy ===== *)
theory Dismantle
  imports Collector_Laws
begin

text \<open>
  The second half of the collector: the cells found to have no holder but each other are taken out
  of the lists, their outgoing references released and the cells freed. A set of cells without
  outside holders can leave the counted graph in one step (\<open>counts_ok_dismantle\<close>), which is how the
  invariant of reference counting extends to cyclic garbage.
\<close>

subsection \<open>Leaving the graph together\<close>

definition leads_out :: "addr set \<Rightarrow> handle \<Rightarrow> bool" where
  "leads_out D v \<longleftrightarrow> (\<forall>d\<in>D. v \<noteq> HRef d)"

lemma counts_ok_dismantle:
  assumes ok: "counts_ok g R [] {}" and D: "D \<subseteq> nodes g"
    and alone: "\<And>d. d \<in> D \<Longrightarrow> HRef d \<notin># held g D + R"
  shows "counts_ok g (filter_mset (leads_out D) (\<Sum>d\<in>D. mset (out g d)) + R) [] D"
proof -
  let ?E = "\<Sum>d\<in>D. mset (out g d)"
  let ?X = "filter_mset (leads_out D) ?E"
  have fin: "finite (nodes g)" by (rule counts_okD(1) [OF ok])
  have h: "held g {} = held g D + ?E" unfolding held_def using sum.subset_diff [OF D fin] by simp
  have c: "count (held g D + (?X + R)) (HRef x) = count (held g {} + R) (HRef x)" if "x \<notin> D" for x
    using that by (auto simp: h leads_out_def)
  have "cnt g x = RC_IMMORTAL \<or> cnt g x < RC_IMMORTAL \<and> cnt g x = count (held g D + (?X + R)) (HRef x)"
    if x: "x \<in> nodes g - D" for x
  proof -
    have "x \<in> nodes g - {}" using x by simp
    with counts_okD(6) [OF ok this] c [of x] x show ?thesis by (metis DiffD2)
  qed
  moreover have "x \<in> nodes g - D" if x: "HRef x \<in># held g D + (?X + R)" for x
  proof -
    have "x \<notin> D" using x alone [of x] by (auto simp: leads_out_def)
    moreover have "HRef x \<in># held g {} + R" using x by (auto simp: h)
    ultimately show ?thesis using counts_okD(5) [OF ok, of x] by simp
  qed
  moreover have "{x \<in> nodes g - D. cnt g x = 0} = {}" using counts_okD(4) [OF ok] by auto
  ultimately show ?thesis using fin D unfolding counts_ok_def by simp
qed

subsection \<open>Unlinking\<close>

lemma plan_of_unlink: "plan_of (unlink_object a s) b = plan_of s b"
  by (rule plan_of_cong) (simp_all add: rc_value_context_def unlink_object_other)

lemma edges_source_flag:
  assumes "load (cell_at s' a) = load (cell_at s a) \<or> load (cell_at s' a) = with_cycle_source False (load (cell_at s a))"
    and "has_plan (cell_at s' a) = has_plan (cell_at s a)" "plan_of s' a = plan_of s a"
  shows "edges s' a = edges s a" "holds s' a = holds s a"
proof -
  have "payload_edges (with_cycle_source False p) e = payload_edges p e" "symbol_slots (with_cycle_source False p) = symbol_slots p" for p e
    by (cases p; simp)+
  with assms plan_edge_cong [OF assms(2,3)] show "edges s' a = edges s a" "holds s' a = holds s a"
    by (auto simp: edges_def holds_def)
qed

lemma edges_unlink [simp]: "edges (unlink_object a s) b = edges s b" "holds (unlink_object a s) b = holds s b"
  by (rule edges_source_flag; simp add: load_unlink_object plan_of_unlink)+

lemma view_unlink [simp]: "view (unlink_object a s) = view s"
proof -
  have "fmdom' (cells (unlink_object a s)) = fmdom' (cells s)" using unlink_object_other(6) [of a s] by (auto simp: live_fmdom)
  moreover have "holds (unlink_object a s) = holds s" by (rule ext) simp
  ultimately show ?thesis by (simp add: view_def)
qed

lemma unlink_marks [simp]:
  "visited (cell_at (unlink_object a s) b) = visited (cell_at s b)" "marked (cell_at (unlink_object a s) b) = marked (cell_at s b)"
  by (simp_all add: unlink_object_def account_death_def source_unlink_def cell_at_upd_cell Let_def split: payload.splits bool.splits)

text \<open>What a collection leaves of a cell that survives: its contents, up to the source flag.\<close>

definition settles :: "mem \<Rightarrow> mem \<Rightarrow> bool" where
  "settles s s' \<longleftrightarrow> page_table s' = page_table s \<and> next_page s' = next_page s \<and> next_ctx s' = next_ctx s \<and>
     (\<forall>a. live s' a \<longrightarrow> live s a \<and> holds s' a = holds s a \<and>
        with_cycle_source False (load (cell_at s' a)) = with_cycle_source False (load (cell_at s a))) \<and>
     (\<forall>a. live s a \<and> refs (cell_at s a) = RC_IMMORTAL \<longrightarrow> live s' a \<and> refs (cell_at s' a) = RC_IMMORTAL)"

lemma settles_refl [simp]: "settles s s"
  by (simp add: settles_def)

lemma settles_trans: "settles s t \<Longrightarrow> settles t u \<Longrightarrow> settles s u"
  unfolding settles_def by metis

lemma settles_same_heap: "same_heap s t \<Longrightarrow> settles s t"
proof -
  assume h: "same_heap s t"
  have "plan_of t a = plan_of s a" for a
    by (rule plan_of_cong) (use h same_heap_context [OF h] in \<open>simp_all add: same_heap_def\<close>)
  then have "holds t a = holds s a" for a by (intro holds_cong) (use h in \<open>simp_all add: same_heap_def\<close>)
  with h show ?thesis by (simp add: settles_def same_heap_def live_fmdom)
qed

lemma settles_walk_only: "walk_only s t \<Longrightarrow> settles s t"
  by (rule settles_same_heap) (rule walk_onlyD(1))

lemma settles_shrinks: "shrinks s t \<Longrightarrow> settles s t"
  using shrinks_cell [of s t] shrinksD [of s t] unfolding settles_def by metis

lemma settles_unlink: "settles s (unlink_object a s)"
  by (cases "is_source s a") (auto simp: settles_def unlink_object_other load_unlink_object is_source_def split: payload.splits)

lemma settles_owned:
  assumes s: "settles s s'" and ok: "counts_ok (view s') R [] {}" and x: "x \<in> owned (view s) R"
  shows "live s' x"
  using x
proof induction
  case (root x)
  then show ?case using counts_ok_pos [OF ok] by (simp add: live_fmdom)
next
  case (immortal x)
  with s show ?case by (simp add: settles_def live_fmdom)
next
  case (edge b x)
  have "holds s' b = holds s b" using s edge.IH by (simp add: settles_def)
  with edge have "b \<in> nodes (view s') - {}" "HRef x \<in> set (out (view s') b)" by (simp_all add: live_fmdom)
  then have "HRef x \<in># held (view s') {}" unfolding held_mem [OF counts_okD(1) [OF ok]] by blast
  then have "HRef x \<in># held (view s') {} + R" by simp
  from counts_okD(5) [OF ok this] show ?case by (simp add: live_fmdom)
qed

subsection \<open>Classification\<close>

lemma view_walk_only: "walk_only s t \<Longrightarrow> view t = view s"
  using walk_onlyD [of s t] by (intro view_cong) (simp_all add: same_heap_def)

lemma rc_ok_walk_only: "rc_ok s R W D \<Longrightarrow> walk_only s t \<Longrightarrow> rc_ok t R W D"
  by (rule rc_ok_same_heap) (auto dest: walk_onlyD(1))

definition unlinked :: "mem \<Rightarrow> mem \<Rightarrow> addr set \<Rightarrow> bool" where
  \<comment> \<open>the marked cells of the set have lost their walk bit, the others their places in the lists\<close>
  "unlinked s t A \<longleftrightarrow> view t = view s \<and> settles s t \<and> edges t = edges s \<and>
     (\<forall>b. marked (cell_at t b) = marked (cell_at s b) \<and>
        (visited (cell_at t b) \<longleftrightarrow> visited (cell_at s b) \<and> \<not> (b \<in> A \<and> marked (cell_at s b))) \<and>
        (is_source t b \<longrightarrow> is_source s b \<and> \<not> (b \<in> A \<and> \<not> marked (cell_at s b))))"

lemma classify_ok:
  assumes ok: "rc_ok s R [] {}" and live: "live s a"
  shows "rc_ok (snd (classify a (dead, s))) R [] {} \<and> unlinked s (snd (classify a (dead, s))) {a} \<and>
    fst (classify a (dead, s)) = (if marked (cell_at s a) then dead else a # dead)"
proof (cases "marked (cell_at s a)")
  case True
  let ?t = "upd_cell a (\<lambda>x. x\<lparr>visited := False\<rparr>) s"
  have wo: "walk_only s ?t" by (rule walk_only_upd_cell [OF live]) (simp add: same_contents_def)
  have "edges ?t = edges s" using walk_onlyD(8) [OF wo] by (intro ext) simp
  with True live have "unlinked s ?t {a}"
    using view_walk_only [OF wo] settles_walk_only [OF wo] unfolding unlinked_def by (auto simp: cell_at_upd_cell is_source_def)
  with True rc_ok_walk_only [OF ok wo] show ?thesis by (simp add: classify_def)
next
  case False
  let ?t = "unlink_object a s"
  have "edges ?t = edges s" by (rule ext) simp
  moreover have "is_source ?t b \<Longrightarrow> is_source s b \<and> b \<noteq> a" for b
    using is_source_unlink_object [of a s] by (cases "b = a") (simp_all add: is_source_def unlink_object_other)
  ultimately have "unlinked s ?t {a}" using False settles_unlink unfolding unlinked_def by auto
  with False rc_ok_unlink_object [OF ok] show ?thesis by (simp add: classify_def)
qed

lemma unlinked_live: "unlinked s t A \<Longrightarrow> live t a = live s a"
  by (simp add: unlinked_def view_def live_fmdom)

lemma unlinked_trans: "unlinked s t A \<Longrightarrow> unlinked t u B \<Longrightarrow> unlinked s u (A \<union> B)"
  unfolding unlinked_def using settles_trans by fastforce

lemma classify_all:
  assumes "rc_ok s R [] {}" "\<forall>a\<in>set as. live s a"
  shows "rc_ok (snd (fold classify as (dead, s))) R [] {} \<and> unlinked s (snd (fold classify as (dead, s))) (set as) \<and>
    fst (fold classify as (dead, s)) = rev (filter (\<lambda>a. \<not> marked (cell_at s a)) as) @ dead"
  using assms
proof (induction as arbitrary: dead s)
  case Nil
  then show ?case by (simp add: unlinked_def)
next
  case (Cons a as)
  obtain dead' t where e: "classify a (dead, s) = (dead', t)" by fastforce
  have c: "rc_ok t R [] {}" "unlinked s t {a}" "dead' = (if marked (cell_at s a) then dead else a # dead)"
    using classify_ok [OF Cons.prems(1), of a dead] Cons.prems(2) e by simp_all
  have I: "rc_ok (snd (fold classify as (dead', t))) R [] {}" "unlinked t (snd (fold classify as (dead', t))) (set as)"
    "fst (fold classify as (dead', t)) = rev (filter (\<lambda>a. \<not> marked (cell_at t a)) as) @ dead'"
    using Cons.IH [OF c(1), of dead'] Cons.prems(2) unlinked_live [OF c(2)] by auto
  have "marked (cell_at t b) = marked (cell_at s b)" for b using c(2) by (simp add: unlinked_def)
  with I(3) c(3) have "fst (fold classify as (dead', t)) = rev (filter (\<lambda>a. \<not> marked (cell_at s a)) (a # as)) @ dead" by simp
  with I(1) unlinked_trans [OF c(2) I(2)] show ?case by (simp add: e)
qed

subsection \<open>Releasing what the dead cells hold\<close>

definition dismantling :: "mem \<Rightarrow> addr set \<Rightarrow> bool" where
  \<comment> \<open>what \<open>gc_release_edge\<close> tests: the dead cells are those with the walk bit and no mark\<close>
  "dismantling s D \<longleftrightarrow> (\<forall>a. visited (cell_at s a) \<and> \<not> marked (cell_at s a) \<longleftrightarrow> a \<in> D)"

lemma dismantling_shrinks:
  assumes "dismantling s D" "shrinks s t" "\<forall>d\<in>D. live t d"
  shows "dismantling t D"
  unfolding dismantling_def
proof
  fix a show "visited (cell_at t a) \<and> \<not> marked (cell_at t a) \<longleftrightarrow> a \<in> D"
  proof (cases "live t a")
    case True
    with shrinksD(1) [OF assms(2)] have "same_but_refs (cell_at s a) (cell_at t a)" by blast
    then show ?thesis using assms(1) by (simp add: same_but_refs_def dismantling_def)
  next
    case False
    then show ?thesis using assms(3) by (auto simp: cell_at_dead free_cell_def)
  qed
qed

lemma rc_ok_dead_live: "rc_ok s R W D \<Longrightarrow> \<forall>d\<in>D. live s d"
  using counts_okD(2) [OF rc_okD(6), of s R W D] by (auto simp: live_fmdom)

lemma release_edges_ok:
  assumes "rc_ok s (mset (filter (leads_out D) vs) + R) [] D" "dismantling s D"
  shows "rc_ok (fold gc_release_edge vs s) R [] D \<and> dismantling (fold gc_release_edge vs s) D \<and>
    shrinks s (fold gc_release_edge vs s)"
  using assms
proof (induction vs arbitrary: s)
  case (Cons v vs)
  let ?t = "gc_release_edge v s" and ?R = "mset (filter (leads_out D) vs) + R"
  have "rc_ok ?t ?R [] D \<and> shrinks s ?t"
  proof (cases "leads_out D v")
    case True
    with Cons.prems(1) have ok: "rc_ok s (add_mset v ?R) [] D" by simp
    show ?thesis
    proof (cases "\<exists>a. v = HRef a")
      case True
      then obtain a where v: "v = HRef a" by blast
      with \<open>leads_out D v\<close> Cons.prems(2) have "?t = rc_release v s"
        by (auto simp: gc_release_edge_def dismantling_def leads_out_def)
      with rc_ok_release [OF ok] shrinks_release [OF ok] show ?thesis by simp
    next
      case False
      then have "?t = s" by (simp add: gc_release_edge_def split: handle.split)
      moreover have "rc_ok s ?R [] D" using ok False by (simp add: rc_ok_def counts_ok_non_ref)
      ultimately show ?thesis by simp
    qed
  next
    case False
    then have "?t = s" using Cons.prems(2) by (auto simp: gc_release_edge_def leads_out_def dismantling_def)
    with Cons.prems(1) False show ?thesis by simp
  qed
  then have t: "rc_ok ?t ?R [] D" "shrinks s ?t" by simp_all
  have d: "dismantling ?t D" by (rule dismantling_shrinks [OF Cons.prems(2) t(2) rc_ok_dead_live [OF t(1)]])
  from Cons.IH [OF t(1) d] shrinks_trans [OF t(2)] show ?case by simp
qed simp

lemma release_all_ok:
  assumes "rc_ok s (mset (filter (leads_out D) (concat (map (edges s) as))) + R) [] D" "dismantling s D" "set as \<subseteq> D"
  shows "rc_ok (fold release_dead as s) R [] D \<and> dismantling (fold release_dead as s) D \<and> shrinks s (fold release_dead as s)"
  using assms
proof (induction as arbitrary: s)
  case (Cons a as)
  let ?t = "release_dead a s" and ?R = "\<lambda>s. mset (filter (leads_out D) (concat (map (edges s) as))) + R"
  have "rc_ok s (mset (filter (leads_out D) (edges s a)) + ?R s) [] D" using Cons.prems(1) by (simp add: ac_simps)
  from release_edges_ok [OF this Cons.prems(2)] have t: "rc_ok ?t (?R s) [] D" "dismantling ?t D" "shrinks s ?t"
    by (simp_all add: release_dead_def)
  have "edges ?t b = edges s b" if "b \<in> set as" for b
  proof -
    have "live ?t b" using rc_ok_dead_live [OF t(1)] that Cons.prems(3) by auto
    from shrinks_cell [OF t(3) this] show ?thesis by (intro edges_cong)
  qed
  then have "map (edges ?t) as = map (edges s) as" by simp
  with t(1) have t1: "rc_ok ?t (?R ?t) [] D" by metis
  from Cons.IH [OF t1 t(2)] Cons.prems(3) shrinks_trans [OF t(3)] show ?case by simp
qed simp

subsection \<open>Freeing the dead cells\<close>

lemma free_all_ok:
  assumes "rc_ok s R [] D" "distinct as" "set as \<subseteq> D" "\<forall>a\<in>D. \<not> is_source s a"
  shows "rc_ok (fold raw_free as s) R [] (D - set as) \<and> page_table (fold raw_free as s) = page_table s \<and>
    next_page (fold raw_free as s) = next_page s \<and> next_ctx (fold raw_free as s) = next_ctx s \<and>
    (\<forall>b. b \<notin> set as \<longrightarrow> cell_at (fold raw_free as s) b = cell_at s b \<and> live (fold raw_free as s) b = live s b \<and>
      plan_of (fold raw_free as s) b = plan_of s b) \<and>
    (\<forall>b\<in>set as. \<not> live (fold raw_free as s) b)"
  using assms
proof (induction as arbitrary: s D)
  case (Cons a as)
  let ?t = "raw_free a s"
  note wf = rc_okD(2) [OF Cons.prems(1)]
  have t: "rc_ok ?t R [] (D - {a})" by (rule rc_ok_raw_free) (use Cons.prems in auto)
  have src: "\<forall>b\<in>D - {a}. \<not> is_source ?t b" using Cons.prems(4) by (simp add: is_source_def raw_free_simps)
  have eq: "cell_at ?t b = cell_at s b \<and> live ?t b = live s b \<and> plan_of ?t b = plan_of s b" if "b \<noteq> a" for b
    using that by (simp add: raw_free_simps plan_of_raw_free [OF wf])
  have D: "D - {a} - set as = D - set (a # as)" by auto
  have "distinct as" "set as \<subseteq> D - {a}" using Cons.prems(2,3) by auto
  note I = Cons.IH [OF t this src]
  have "\<not> live ?t a" by (simp add: raw_free_simps)
  moreover have "a \<notin> set as" using Cons.prems(2) by simp
  ultimately have "\<not> live (fold raw_free as ?t) a" using I by blast
  with I eq show ?case by (simp add: D raw_free_simps)
qed simp

lemma settles_free_all:
  assumes "settles s t" "rc_ok t R [] (set as)" "distinct as" "\<forall>a\<in>set as. \<not> is_source t a \<and> refs (cell_at s a) \<noteq> RC_IMMORTAL"
  shows "settles s (fold raw_free as t)"
proof -
  let ?u = "fold raw_free as t"
  have u: "page_table ?u = page_table t" "next_page ?u = next_page t" "next_ctx ?u = next_ctx t"
    "\<And>b. b \<notin> set as \<Longrightarrow> cell_at ?u b = cell_at t b \<and> live ?u b = live t b \<and> plan_of ?u b = plan_of t b"
    "\<And>b. b \<in> set as \<Longrightarrow> \<not> live ?u b"
    using free_all_ok [OF assms(2,3) order_refl] assms(4) by simp_all
  have "holds ?u b = holds t b" if "b \<notin> set as" for b by (rule holds_cong) (simp_all add: u(4) [OF that])
  with u assms(1,4) show ?thesis unfolding settles_def by metis
qed

subsection \<open>Sources that lie on no cycle\<close>

lemma settles_source_unlink: "settles s (source_unlink c a s)"
proof -
  have "plan_of (source_unlink c a s) b = plan_of s b" for b
    by (rule plan_of_cong) (simp_all add: source_unlink_def rc_value_context_def cell_at_upd_cell ctxs_upd_ctx)
  then have "holds (source_unlink c a s) b = holds s b" for b
    by (intro edges_source_flag) (simp_all add: source_unlink_def cell_at_upd_cell)
  moreover have "with_cycle_source False (with_cycle_source False p) = with_cycle_source False p" for p by (cases p) simp_all
  ultimately show ?thesis by (simp add: settles_def source_unlink_def cell_at_upd_cell)
qed

lemma unmark_source_ok:
  assumes ok: "rc_ok s R [] {}" and a: "is_source s a" "rc_value_context s a = c"
  shows "rc_ok (unmark_source c a s) R [] {} \<and> settles s (unmark_source c a s) \<and>
    (\<forall>b. b \<noteq> a \<longrightarrow> is_source (unmark_source c a s) b = is_source s b) \<and>
    rc_value_context (unmark_source c a s) = rc_value_context s"
proof -
  obtain cyclic t where e: "on_cycle c a s = (cyclic, t)" by fastforce
  have wo: "walk_only s t" using walk_only_reaches [of s c a "HRef a" SIZE_MAX True] e by (simp add: on_cycle_def)
  have t: "rc_ok t R [] {}" "settles s t" "is_source t = is_source s" "rc_value_context t = rc_value_context s"
    using rc_ok_walk_only [OF ok wo] settles_walk_only [OF wo] walk_onlyD(3,7) [OF wo] by (auto simp: is_source_def)
  show ?thesis
  proof (cases cyclic)
    case False
    obtain xs where x: "load (cell_at t a) = VVector xs True" using a(1) walk_onlyD(3) [OF wo, of a] by (auto simp: is_source_def split: payload.splits)
    have "rc_ok (source_unlink c a t) R [] {}" using rc_ok_source_unlink [OF t(1) x] a(2) t(4) by simp
    moreover have "is_source (source_unlink c a t) b = is_source t b" if "b \<noteq> a" for b
      using that by (simp add: is_source_def source_unlink_def cell_at_upd_cell)
    moreover have "rc_value_context (source_unlink c a t) = rc_value_context t" by (rule ext) (simp add: source_unlink_def rc_value_context_def)
    ultimately show ?thesis using False e t settles_trans [OF t(2) settles_source_unlink] by (simp add: unmark_source_def)
  qed (use e t in \<open>simp add: unmark_source_def\<close>)
qed

lemma unmark_all_ok:
  assumes "rc_ok s R [] {}" "distinct as" "\<forall>a\<in>set as. is_source s a \<and> rc_value_context s a = c"
  shows "rc_ok (fold (unmark_source c) as s) R [] {} \<and> settles s (fold (unmark_source c) as s)"
  using assms
proof (induction as arbitrary: s)
  case (Cons a as)
  have a: "is_source s a" "rc_value_context s a = c" using Cons.prems(3) by simp_all
  let ?t = "unmark_source c a s"
  have t: "rc_ok ?t R [] {}" "settles s ?t" "\<And>b. b \<noteq> a \<Longrightarrow> is_source ?t b = is_source s b"
    "rc_value_context ?t = rc_value_context s"
    using unmark_source_ok [OF Cons.prems(1) a] by simp_all
  have "\<forall>b\<in>set as. is_source ?t b \<and> rc_value_context ?t b = c"
  proof
    fix b assume b: "b \<in> set as"
    then have "b \<noteq> a" using Cons.prems(2) by auto
    with b Cons.prems(3) show "is_source ?t b \<and> rc_value_context ?t b = c" by (simp add: t(3,4))
  qed
  with Cons.IH [OF t(1)] Cons.prems(2) settles_trans [OF t(2)] show ?case by simp
qed simp

subsection \<open>Trial deletion isolates garbage\<close>

lemma mset_concat_map: "distinct xs \<Longrightarrow> mset (concat (map f xs)) = (\<Sum>x\<in>set xs. mset (f x))"
  by (induction xs) simp_all

lemma held_split:
  assumes "finite (nodes (view s))" "distinct ns" "\<forall>a\<in>set ns. live s a"
  shows "held (view s) {} = held (view s) (set ns) + mset (concat (map (edges s) ns)) +
    mset (concat (map (\<lambda>a. symbol_slots (load (cell_at s a))) ns))"
proof -
  have "set ns \<subseteq> nodes (view s)" using assms(3) by (auto simp: live_fmdom)
  then have "held (view s) {} = held (view s) (set ns) + (\<Sum>a\<in>set ns. mset (holds s a))"
    unfolding held_def using sum.subset_diff [OF _ assms(1), of "set ns" "\<lambda>b. mset (out (view s) b)"] by simp
  also have "(\<Sum>a\<in>set ns. mset (holds s a)) = (\<Sum>a\<in>set ns. mset (edges s a)) + (\<Sum>a\<in>set ns. mset (symbol_slots (load (cell_at s a))))"
    by (simp add: holds_def sum.distrib)
  finally show ?thesis by (simp add: mset_concat_map [OF assms(2)] ac_simps)
qed

definition trial_start :: "cell \<Rightarrow> nat" where
  "trial_start x = (if refs x = RC_IMMORTAL then SIZE_MAX else refs x)"

lemma edges_bounded:
  assumes ok: "rc_ok s R [] {}" and size: "size (held (view s) {}) < SIZE_MAX"
    and ns: "distinct ns" "\<forall>a\<in>set ns. live s a" and x: "live s x"
  shows "count (mset (concat (map (edges s) ns))) (HRef x) \<le> trial_start (cell_at s x)"
proof -
  note c = rc_okD(6) [OF ok]
  let ?E = "mset (concat (map (edges s) ns))"
  have le: "count ?E (HRef x) \<le> count (held (view s) {}) (HRef x)"
    using held_split [OF counts_okD(1) [OF c] ns] by simp
  show ?thesis
  proof (cases "refs (cell_at s x) = RC_IMMORTAL")
    case True
    have "count (held (view s) {}) (HRef x) \<le> size (held (view s) {})" by (rule count_le_size)
    with le size True show ?thesis by (simp add: trial_start_def)
  next
    case False
    then have "refs (cell_at s x) = count (held (view s) {} + R) (HRef x)"
      using counts_okD(6) [OF c, of x] x by (simp add: live_fmdom)
    with le False show ?thesis by (simp add: trial_start_def)
  qed
qed

lemma trial_isolates:
  assumes ok: "rc_ok s R [] {}" and size: "size (held (view s) {}) < SIZE_MAX"
    and ns: "distinct ns" "\<forall>a\<in>set ns. live s a"
    and D: "D \<subseteq> set ns" "\<And>d. d \<in> D \<Longrightarrow> trial_start (cell_at s d) = count (mset (concat (map (edges s) ns))) (HRef d)"
    and closed: "\<And>a d. a \<in> set ns - D \<Longrightarrow> d \<in> D \<Longrightarrow> HRef d \<notin> set (edges s a)" and d: "d \<in> D"
  shows "refs (cell_at s d) \<noteq> RC_IMMORTAL" "HRef d \<notin># held (view s) D + R"
proof -
  note c = rc_okD(6) [OF ok] and h = held_split [OF counts_okD(1) [OF rc_okD(6) [OF ok]] ns]
  let ?E = "mset (concat (map (edges s) ns))"
  have l: "d \<in> nodes (view s) - {}" using d D(1) ns(2) by (auto simp: live_fmdom)
  have "count ?E (HRef d) \<le> size (held (view s) {})"
    using h count_le_size [of "held (view s) {}" "HRef d"] by simp
  with size D(2) [OF d] show n: "refs (cell_at s d) \<noteq> RC_IMMORTAL" by (auto simp: trial_start_def)
  then have "count ?E (HRef d) = count (held (view s) {} + R) (HRef d)"
    using counts_okD(6) [OF c l] D(2) [OF d] by (simp add: trial_start_def)
  then have z: "count (held (view s) (set ns)) (HRef d) = 0" "count R (HRef d) = 0"
    "count (mset (concat (map (\<lambda>a. symbol_slots (load (cell_at s a))) ns))) (HRef d) = 0" using h by simp_all
  show "HRef d \<notin># held (view s) D + R"
  proof
    assume "HRef d \<in># held (view s) D + R"
    then obtain b where b: "b \<in> nodes (view s) - D" "HRef d \<in> set (holds s b)"
      using z(2) held_mem [OF counts_okD(1) [OF c]] by (auto simp: count_eq_zero_iff)
    show False
    proof (cases "b \<in> set ns")
      case True
      have "HRef d \<notin> set (symbol_slots (load (cell_at s b)))" using z(3) True by (auto simp: count_eq_zero_iff)
      with b True closed d show False by (auto simp: holds_def)
    next
      case False
      with b have "HRef d \<in># held (view s) (set ns)" using held_mem [OF counts_okD(1) [OF c]] by auto
      with z(1) show False by (simp add: count_eq_zero_iff)
    qed
  qed
qed

subsection \<open>The collection\<close>

lemma dismantle_ok:
  assumes ok: "rc_ok s R [] {}" and ns: "distinct ns" "\<forall>a\<in>set ns. live s a"
    and D: "D = {a \<in> set ns. \<not> marked (cell_at s a)}" and vis: "\<And>a. visited (cell_at s a) \<longleftrightarrow> a \<in> set ns"
    and alone: "\<And>d. d \<in> D \<Longrightarrow> refs (cell_at s d) \<noteq> RC_IMMORTAL \<and> HRef d \<notin># held (view s) D + R"
    and cl: "fold classify ns ([], s) = (dead, t)"
  shows "rc_ok (fold raw_free dead (fold release_dead dead t)) R [] {} \<and> settles s (fold raw_free dead (fold release_dead dead t)) \<and>
    (\<forall>d\<in>D. \<not> live (fold raw_free dead (fold release_dead dead t)) d)"
proof -
  have t: "rc_ok t R [] {}" "unlinked s t (set ns)" "dead = rev (filter (\<lambda>a. \<not> marked (cell_at s a)) ns)"
    using classify_all [OF ok ns(2), of "[]"] cl by simp_all
  have dD: "set dead = D" "distinct dead" using t(3) D ns(1) by auto
  have v: "view t = view s" "settles s t" using t(2) by (simp_all add: unlinked_def)
  note c = rc_okD(6) [OF t(1)]
  have Dn: "D \<subseteq> nodes (view t)" using D ns(2) v(1) by (auto simp: live_fmdom)
  have dm: "dismantling t D" using t(2) vis by (auto simp: dismantling_def unlinked_def D)
  have refs: "refs (cell_at t b) = refs (cell_at s b)" for b using arg_cong [OF v(1), of "\<lambda>g. cnt g b"] by simp
  have null: "set (symbol_slots (load (cell_at t d))) \<subseteq> {HNull}" if "d \<in> D" for d
    by (rule symbols_okD [OF rc_okD(5) [OF t(1)]]) (use alone [OF that] refs in simp)
  let ?S = "filter (leads_out D) (concat (map (\<lambda>a. symbol_slots (load (cell_at t a))) dead))"
  let ?E = "filter (leads_out D) (concat (map (edges t) dead))"
  have "(\<Sum>d\<in>D. mset (holds t d)) = mset (concat (map (edges t) dead)) + mset (concat (map (\<lambda>a. symbol_slots (load (cell_at t a))) dead))"
    by (simp add: mset_concat_map [OF dD(2)] dD(1) holds_def sum.distrib)
  then have X: "filter_mset (leads_out D) (\<Sum>d\<in>D. mset (out (view t) d)) + R = mset ?S + (mset ?E + R)"
    by (simp add: ac_simps)
  have "counts_ok (view t) (mset ?S + (mset ?E + R)) [] D"
    unfolding X [symmetric] by (rule counts_ok_dismantle [OF c Dn]) (use alone v(1) in auto)
  moreover have "set ?S \<subseteq> {HNull}" using null dD(1) by auto
  ultimately have "counts_ok (view t) (mset ?E + R) [] D" using counts_ok_nulls by blast
  with t(1) have "rc_ok t (mset ?E + R) [] D" by (simp add: rc_ok_def)
  from release_all_ok [OF this dm] dD(1) have u: "rc_ok (fold release_dead dead t) R [] D" "shrinks t (fold release_dead dead t)"
    by simp_all
  let ?u = "fold release_dead dead t"
  have src: "\<not> is_source ?u d" if d: "d \<in> D" for d
  proof -
    have "live ?u d" using rc_ok_dead_live [OF u(1)] d by blast
    from shrinks_cell(2) [OF u(2) this] have "is_source ?u d = is_source t d" by (simp add: is_source_def)
    moreover have "\<not> is_source t d" using t(2) d unfolding unlinked_def D by blast
    ultimately show ?thesis by simp
  qed
  have "settles s ?u" by (rule settles_trans [OF v(2) settles_shrinks [OF u(2)]])
  moreover have ud: "rc_ok ?u R [] (set dead)" using u(1) dD(1) by simp
  ultimately have "settles s (fold raw_free dead ?u)"
    by (rule settles_free_all [OF _ _ dD(2)]) (use src alone dD(1) in auto)
  moreover have "rc_ok (fold raw_free dead ?u) R [] (set dead - set dead)" "\<forall>d\<in>D. \<not> live (fold raw_free dead ?u) d"
    using free_all_ok [OF ud dD(2) order_refl] src dD(1) by blast+
  ultimately show ?thesis by simp
qed

text \<open>The walks, put together: either one of them runs out of memory and only walk state has
  changed, or the unmarked cells are isolated.\<close>

definition walk_start :: "mem \<Rightarrow> walk" where
  "walk_start s = \<lparr>nodes_found = [], found = False, failed = False, walk_mem = s\<rparr>"

definition discovery :: "ctxid \<Rightarrow> mem \<Rightarrow> walk" where
  "discovery c s = discover_loop c 0 (discover_sources c (sources (ctxs s c)) (walk_start s))"

definition subtracted :: "ctxid \<Rightarrow> mem \<Rightarrow> mem" where
  "subtracted c s = fold subtract_edges (nodes_found (discovery c s)) (walk_mem (discovery c s))"

definition marking_of :: "ctxid \<Rightarrow> mem \<Rightarrow> marking" where
  "marking_of c s = (let w = discovery c s
     in mark_roots c (length (nodes_found w)) (nodes_found w)
          \<lparr>stack = [], mark_failed = False, mark_mem = subtracted c s\<rparr>)"

lemma discovery_ok: "visited_clear s \<Longrightarrow> discovered s (discovery c s)"
  unfolding discovery_def
  by (intro discover_loop_ok discover_sources_ok) (simp add: discovered_def visited_clear_def walk_start_def)

lemma subtracted_ok:
  fixes s :: mem and c :: ctxid
  defines "ns \<equiv> nodes_found (discovery c s)"
  assumes ok: "rc_ok s R [] {}" and clear: "visited_clear s" and size: "size (held (view s) {}) < SIZE_MAX"
    and nf: "\<not> failed (discovery c s)"
  shows "distinct ns" "\<forall>a\<in>set ns. live s a" "walk_only s (subtracted c s)" "in_walk (set ns) (subtracted c s)"
    and "x \<in> set ns \<Longrightarrow> trial (cell_at (subtracted c s) x) + count (mset (concat (map (edges s) ns))) (HRef x) = trial_start (cell_at s x)"
    and "x \<in> set ns \<Longrightarrow> \<not> marked (cell_at (subtracted c s) x)"
proof -
  let ?w = "discovery c s" and ?E = "concat (map (edges s) ns)"
  have disc: "discovered s ?w" by (rule discovery_ok [OF clear])
  then have wo: "walk_only s (walk_mem ?w)" and ns: "distinct ns" "\<forall>a\<in>set ns. live s a"
    and iw: "in_walk (set ns) (walk_mem ?w)"
    and cell: "\<And>a. a \<in> set ns \<Longrightarrow> cell_at (walk_mem ?w) a = start_trial (cell_at s a)"
    using nf by (auto simp: discovered_def in_walk_def start_trial_def ns_def)
  have tr: "trial (cell_at (walk_mem ?w) x) = trial_start (cell_at s x)" if "x \<in> set ns" for x
    using cell [OF that] by (simp add: start_trial_def trial_start_def)
  have le: "count (mset ?E) (HRef x) \<le> trial (cell_at (walk_mem ?w) x)" if "x \<in> set ns" for x
    using edges_bounded [OF ok size ns, of x] ns(2) that tr [OF that] by simp
  have te: "subtracted c s = fold gc_subtract_edge ?E (walk_mem ?w)"
    unfolding subtracted_def ns_def by (rule subtract_all [OF walk_onlyD(8) wo iw [unfolded ns_def] le [unfolded ns_def]])
  note f = subtract_fold_ok [OF iw le, folded te]
  show "distinct ns" "\<forall>a\<in>set ns. live s a" by (rule ns)+
  show "walk_only s (subtracted c s)" "in_walk (set ns) (subtracted c s)" using f walk_only_trans [OF wo] by blast+
  show "x \<in> set ns \<Longrightarrow> trial (cell_at (subtracted c s) x) + count (mset ?E) (HRef x) = trial_start (cell_at s x)" using f tr by simp
  show "x \<in> set ns \<Longrightarrow> \<not> marked (cell_at (subtracted c s) x)" using f cell by (simp add: start_trial_def)
qed

lemma marking_of_ok:
  fixes s :: mem and c :: ctxid
  defines "w \<equiv> discovery c s" and "m \<equiv> marking_of c s"
  assumes ok: "rc_ok s R [] {}" and clear: "visited_clear s" and size: "size (held (view s) {}) < SIZE_MAX" and nf: "\<not> failed w"
  shows "walk_only s (mark_mem m)" "in_walk (set (nodes_found w)) (mark_mem m)"
    and "\<not> mark_failed m \<Longrightarrow> d \<in> set (nodes_found w) \<Longrightarrow> \<not> marked (cell_at (mark_mem m) d) \<Longrightarrow>
      refs (cell_at s d) \<noteq> RC_IMMORTAL \<and>
      HRef d \<notin># held (view s) {a \<in> set (nodes_found w). \<not> marked (cell_at (mark_mem m) a)} + R"
proof -
  let ?ns = "nodes_found w" and ?G = "set (nodes_found w)" and ?E = "concat (map (edges s) (nodes_found w))"
  define t where "t = subtracted c s"
  note T = subtracted_ok [OF ok clear size nf [unfolded w_def], folded w_def t_def]
  note ns = T(1,2) and st = T(3)
  let ?m0 = "\<lparr>stack = [], mark_failed = False, mark_mem = t\<rparr>"
  have m: "m = mark_roots c (length ?ns) ?ns ?m0" unfolding m_def marking_of_def w_def [symmetric] t_def by (simp add: Let_def)
  have m0: "marking_ok t ?G ?m0" "mark_closed t ?G ?m0" "stack ?m0 = []"
    using T(4,6) by (auto simp: marking_ok_def mark_closed_def)
  have M: "marking_ok t ?G m" unfolding m by (rule mark_roots_walk) (use m0 in simp_all)
  then show wm: "walk_only s (mark_mem m)" and "in_walk ?G (mark_mem m)"
    using walk_only_trans [OF st] by (simp_all add: marking_ok_def)
  assume ok_m: "\<not> mark_failed m" and d: "d \<in> ?G" "\<not> marked (cell_at (mark_mem m) d)"
  note R = mark_roots_ok [OF m0 order_refl, of c "length ?ns", folded m, OF ok_m]
  note R1 = R [THEN conjunct2, THEN conjunct1] and R2 = R [THEN conjunct2, THEN conjunct2, THEN conjunct1]
    and R3 = R [THEN conjunct2, THEN conjunct2, THEN conjunct2, THEN conjunct2]
  let ?D = "{a \<in> ?G. \<not> marked (cell_at (mark_mem m) a)}"
  have tz: "trial_start (cell_at s x) = count (mset ?E) (HRef x)" if x: "x \<in> ?D" for x
  proof -
    have "trial (cell_at t x) = 0" using bspec [OF R3, of x] x by simp
    with T(5) [of x] x show ?thesis by simp
  qed
  have cl: "HRef x \<notin> set (edges s a)" if a: "a \<in> ?G - ?D" and x: "x \<in> ?D" for a x
  proof
    assume "HRef x \<in> set (edges s a)"
    then have "HRef x \<in> set (edges t a)" using walk_onlyD(8) [OF st] by simp
    moreover have "marked (cell_at (mark_mem m) a)" "a \<in> ?G" "x \<in> ?G" using a x by simp_all
    moreover have "a \<notin> set (stack m)" by (simp add: R2)
    ultimately have "marked (cell_at (mark_mem m) x)" using R1 [unfolded mark_closed_def, rule_format, OF ok_m] by fast
    with x show False by simp
  qed
  show "refs (cell_at s d) \<noteq> RC_IMMORTAL \<and> HRef d \<notin># held (view s) ?D + R"
  proof (rule conjI)
    have dD: "d \<in> ?D" and sub: "?D \<subseteq> ?G" using d by auto
    show "refs (cell_at s d) \<noteq> RC_IMMORTAL" by (rule trial_isolates(1) [OF ok size ns sub tz cl dD])
    show "HRef d \<notin># held (view s) ?D + R" by (rule trial_isolates(2) [OF ok size ns sub tz cl dD])
  qed
qed

lemma collect_from_sources_cases:
  fixes s :: mem and c :: ctxid
  defines "w \<equiv> discovery c s" and "m \<equiv> marking_of c s"
  defines "dead \<equiv> fst (fold classify (nodes_found w) ([], mark_mem m))"
    and "t \<equiv> snd (fold classify (nodes_found w) ([], mark_mem m))"
  defines "u \<equiv> fold raw_free dead (fold release_dead dead t)"
  shows "failed w \<Longrightarrow> collect_from_sources c s = clear_visited (nodes_found w) (walk_mem w)"
    and "\<not> failed w \<Longrightarrow> mark_failed m \<Longrightarrow> collect_from_sources c s = clear_visited (nodes_found w) (mark_mem m)"
    and "\<not> failed w \<Longrightarrow> \<not> mark_failed m \<Longrightarrow> collect_from_sources c s =
      (let v = upd_stats c (\<lambda>x. x\<lparr>cycle_objects_freed := cycle_objects_freed x +
                 (total_frees x - total_frees (stats (ctxs (mark_mem m) c)))\<rparr>) u
       in fold (unmark_source c) (take 64 (sources (ctxs v c))) v)"
  unfolding collect_from_sources_def walk_start_def [symmetric] discovery_def [symmetric] w_def [symmetric]
    u_def t_def dead_def m_def marking_of_def subtracted_def
  by (simp_all add: Let_def case_prod_beta)

lemma rc_ok_failed_walk:
  assumes "rc_ok s R [] {}" "walk_only s t" "\<forall>a\<in>set as. live s a"
  shows "rc_ok (clear_visited as t) R [] {} \<and> settles s (clear_visited as t)"
proof -
  have "walk_only s (clear_visited as t)"
    by (rule walk_only_trans [OF assms(2) walk_only_clear]) (use assms(3) walk_onlyD(2) [OF assms(2)] in simp)
  with rc_ok_walk_only [OF assms(1)] settles_walk_only show ?thesis by blast
qed

lemma collect_from_sources_ok:
  assumes ok: "rc_ok s R [] {}" and clear: "visited_clear s" and size: "size (held (view s) {}) < SIZE_MAX"
  shows "rc_ok (collect_from_sources c s) R [] {} \<and> settles s (collect_from_sources c s) \<and>
    (\<not> failed (discovery c s) \<longrightarrow> \<not> mark_failed (marking_of c s) \<longrightarrow>
      (\<forall>d\<in>set (nodes_found (discovery c s)). \<not> marked (cell_at (mark_mem (marking_of c s)) d) \<longrightarrow> \<not> live (collect_from_sources c s) d))"
proof -
  define w where "w = discovery c s"
  define m where "m = marking_of c s"
  have disc: "discovered s w" unfolding w_def by (rule discovery_ok [OF clear])
  then have w: "walk_only s (walk_mem w)" "distinct (nodes_found w)" "\<forall>a\<in>set (nodes_found w). live s a"
    by (simp_all add: discovered_def)
  consider "failed w" | "\<not> failed w" "mark_failed m" | "\<not> failed w" "\<not> mark_failed m" by blast
  then show ?thesis
  proof cases
    case 1
    then show ?thesis
      using collect_from_sources_cases(1) [of c s, folded w_def] rc_ok_failed_walk [OF ok w(1,3)]
      by (simp add: w_def [symmetric])
  next
    case 2
    have "walk_only s (mark_mem m)" by (rule marking_of_ok(1) [OF ok clear size, of c, folded w_def m_def, OF 2(1)])
    then show ?thesis
      using collect_from_sources_cases(2) [of c s, folded w_def m_def, OF 2] rc_ok_failed_walk [OF ok _ w(3)] 2
      by (simp add: w_def [symmetric] m_def [symmetric])
  next
    case 3
    let ?M = "mark_mem m" and ?ns = "nodes_found w"
    let ?D = "{a \<in> set ?ns. \<not> marked (cell_at ?M a)}"
    note mo = marking_of_ok [OF ok clear size, of c, folded w_def m_def, OF 3(1)]
    have wo: "walk_only s ?M" and iw: "in_walk (set ?ns) ?M" by (rule mo(1), rule mo(2))
    have refs: "refs (cell_at ?M d) = refs (cell_at s d)" for d by (rule walk_onlyD(6) [OF wo])
    obtain dead t where cl: "fold classify ?ns ([], ?M) = (dead, t)" by (rule prod.exhaust)
    have k: "rc_ok (fold raw_free dead (fold release_dead dead t)) R [] {} \<and> settles ?M (fold raw_free dead (fold release_dead dead t)) \<and>
      (\<forall>d\<in>?D. \<not> live (fold raw_free dead (fold release_dead dead t)) d)"
    proof (rule dismantle_ok [OF rc_ok_walk_only [OF ok wo] w(2) _ refl _ _ cl])
      show "\<forall>a\<in>set ?ns. live ?M a" using w(3) walk_onlyD(2) [OF wo] by simp
      show "visited (cell_at ?M a) \<longleftrightarrow> a \<in> set ?ns" for a using iw by (simp add: in_walk_def)
      show "refs (cell_at ?M d) \<noteq> RC_IMMORTAL \<and> HRef d \<notin># held (view ?M) ?D + R" if "d \<in> ?D" for d
        unfolding refs view_walk_only [OF wo] by (rule mo(3) [OF 3(2)]) (use that in simp_all)
    qed
    define u where "u = fold raw_free dead (fold release_dead dead t)"
    define v where "v = upd_stats c (\<lambda>x. x\<lparr>cycle_objects_freed := cycle_objects_freed x +
      (total_frees x - total_frees (stats (ctxs ?M c)))\<rparr>) u"
    have uv: "same_heap u v" unfolding v_def upd_stats_def by (rule same_heap_upd_ctx) simp
    note k' = k [folded u_def]
    have v: "rc_ok v R [] {}" "settles s v"
      by (rule rc_ok_same_heap [OF conjunct1 [OF k'] uv],
          rule settles_trans [OF settles_walk_only [OF wo] settles_trans [OF conjunct1 [OF conjunct2 [OF k']] settles_same_heap [OF uv]]])
    have e: "collect_from_sources c s = fold (unmark_source c) (take 64 (sources (ctxs v c))) v"
      using collect_from_sources_cases(3) [of c s, folded w_def m_def, OF 3] cl by (simp add: v_def u_def Let_def)
    have wf: "distinct (sources (ctxs v c))" "set (sources (ctxs v c)) = {a. is_source v a \<and> rc_value_context v a = c}"
      using rc_okD(3) [OF v(1)] by (simp_all add: sources_wf_def)
    note d = distinct_take [OF wf(1), of 64]
    have "\<forall>a\<in>set (take 64 (sources (ctxs v c))). is_source v a \<and> rc_value_context v a = c"
      using set_take_subset [of 64 "sources (ctxs v c)"] unfolding wf(2) by blast
    note un = unmark_all_ok [OF v(1) d this]
    have gone: "\<not> live (collect_from_sources c s) d" if d: "d \<in> ?D" for d
    proof -
      have "\<not> live u d" using k' d by blast
      then have "\<not> live v d" using uv by (simp add: same_heap_def live_fmdom)
      then show ?thesis using conjunct2 [OF un] unfolding e settles_def by blast
    qed
    show ?thesis unfolding w_def [symmetric] m_def [symmetric]
    proof (intro conjI impI ballI)
      show "rc_ok (collect_from_sources c s) R [] {}" "settles s (collect_from_sources c s)"
        unfolding e by (rule conjunct1 [OF un], rule settles_trans [OF v(2) conjunct2 [OF un]])
      fix d assume "d \<in> set ?ns" "\<not> marked (cell_at ?M d)"
      then show "\<not> live (collect_from_sources c s) d" by (intro gone) simp
    qed
  qed
qed

lemma same_heap_then: "rc_ok s R [] {} \<and> settles r s \<Longrightarrow> same_heap s t \<Longrightarrow> rc_ok t R [] {} \<and> settles r t"
  using rc_ok_same_heap settles_trans settles_same_heap by blast

lemma rc_collect_ok:
  assumes ok: "heap_ok s R" and clear: "visited_clear s" and size: "size (held (view s) {}) < SIZE_MAX"
  shows "heap_ok (rc_collect c s) R \<and> settles s (rc_collect c s)"
proof (cases "c = 0 \<or> acyclic (ctxs s c) \<or> collecting (ctxs s c)")
  case True
  with ok show ?thesis by (simp add: rc_collect_def)
next
  case False
  define t where "t = upd_ctx c (\<lambda>x. x\<lparr>collecting := True, since_collection := 0,
    stats := (stats x)\<lparr>collections := collections (stats x) + 1\<rparr>\<rparr>) s"
  define u where "u = (if cycle_sources (ctxs t c) = 0
     then upd_stats c (\<lambda>x. x\<lparr>acyclic_collections := acyclic_collections x + 1\<rparr>) t else collect_from_sources c t)"
  have st: "same_heap s t" unfolding t_def by (rule same_heap_upd_ctx) simp
  have t: "rc_ok t R [] {} \<and> settles s t" by (rule same_heap_then [OF _ st]) (use ok in \<open>simp add: heap_ok_def\<close>)
  have vt: "view t = view s" unfolding t_def by (rule view_upd_ctx) simp
  have tc: "visited_clear t" using clear by (simp add: visited_clear_def t_def)
  have u: "rc_ok u R [] {} \<and> settles s u"
  proof (cases "cycle_sources (ctxs t c) = 0")
    case True
    have "same_heap t (upd_stats c (\<lambda>x. x\<lparr>acyclic_collections := acyclic_collections x + 1\<rparr>) t)"
      unfolding upd_stats_def by (rule same_heap_upd_ctx) simp
    with same_heap_then [OF t] True show ?thesis by (simp add: u_def)
  next
    case False
    with collect_from_sources_ok [OF conjunct1 [OF t] tc, of c] size vt settles_trans [OF conjunct2 [OF t]]
    show ?thesis by (simp add: u_def)
  qed
  have "same_heap u (upd_ctx c (\<lambda>x. x\<lparr>collecting := False\<rparr>) u)" by (rule same_heap_upd_ctx) simp
  moreover have "same_heap u (upd_ctx c (\<lambda>x. x\<lparr>collecting := False\<rparr>)
      (upd_ctx c (\<lambda>x. x\<lparr>collection_interval := collection_budget (live_objects (stats x)) (graph_slots x)\<rparr>) u))"
    by (rule same_heap_trans [OF same_heap_upd_ctx same_heap_upd_ctx]) simp_all
  moreover have "rc_collect c s = upd_ctx c (\<lambda>x. x\<lparr>collecting := False\<rparr>) (if adaptive_collection (ctxs u c)
      then upd_ctx c (\<lambda>x. x\<lparr>collection_interval := collection_budget (live_objects (stats x)) (graph_slots x)\<rparr>) u else u)"
    using False unfolding rc_collect_def t_def u_def by (simp add: Let_def)
  ultimately have "rc_ok (rc_collect c s) R [] {} \<and> settles s (rc_collect c s)"
    using same_heap_then [OF u] by simp
  then show ?thesis by (simp add: heap_ok_def)
qed

lemma rc_safepoint_ok:
  assumes "heap_ok s R" "visited_clear s" "size (held (view s) {}) < SIZE_MAX"
  shows "heap_ok (rc_safepoint c s) R \<and> settles s (rc_safepoint c s)"
  using rc_collect_ok [OF assms, of c] assms(1) by (simp add: rc_safepoint_def)

lemma collected_owned:
  assumes "heap_ok s' R" "settles s s'" "a \<in> owned (view s) R"
  shows "live s' a \<and> holds s' a = holds s a \<and>
    with_cycle_source False (load (cell_at s' a)) = with_cycle_source False (load (cell_at s a))"
proof -
  have "live s' a" by (rule settles_owned [OF assms(2) _ assms(3)]) (use assms(1) in \<open>simp add: heap_ok_def rc_ok_def\<close>)
  with assms(2) show ?thesis unfolding settles_def by blast
qed

end
