(* ===== verification/Garbage_Laws.thy ===== *)
theory Garbage_Laws
  imports Dismantle
begin

text \<open>
  The cycle collector is complete: when no walk ran out of memory, every cell left alive is owned.
  The argument needs two facts the mutators maintain, stated as \<open>sources_cover\<close>: every cycle goes
  through a vector registered as a source, and a cell that holds a cell from which a vector can be
  reached says so itself.
\<close>

subsection \<open>Discovery follows every edge\<close>

definition covers :: "mem \<Rightarrow> nat \<Rightarrow> walk \<Rightarrow> bool" where
  \<comment> \<open>the edges of the first \<open>i\<close> cells have been followed\<close>
  "covers s i w \<longleftrightarrow> (\<not> failed w \<longrightarrow> i \<le> length (nodes_found w) \<and> (\<forall>j<i. \<forall>b. HRef b \<in> set (edges s (nodes_found w ! j)) \<longrightarrow>
     reaches_vector (cell_at s b) \<longrightarrow> b \<in> set (nodes_found w)))"

definition walk_extends :: "walk \<Rightarrow> walk \<Rightarrow> bool" where
  "walk_extends w w' \<longleftrightarrow> (failed w \<longrightarrow> failed w') \<and> (\<exists>xs. nodes_found w' = nodes_found w @ xs)"

lemma walk_extends_refl [simp]: "walk_extends w w"
  by (simp add: walk_extends_def)

lemma walk_extends_trans: "walk_extends u v \<Longrightarrow> walk_extends v w \<Longrightarrow> walk_extends u w"
  unfolding walk_extends_def by (metis append.assoc)

lemma walk_extends_edge: "walk_extends w (gc_discover_edge c v w)"
  by (cases v) (simp_all add: gc_discover_edge_def walk_extends_def Let_def case_prod_beta)

lemma discover_edge_found:
  assumes "discovered s w" "\<not> failed (gc_discover_edge c (HRef a) w)" "reaches_vector (cell_at s a)"
  shows "a \<in> set (nodes_found (gc_discover_edge c (HRef a) w))"
proof -
  have nf: "\<not> failed w" using walk_extends_edge [of w c "HRef a"] assms(2) by (auto simp: walk_extends_def)
  have "walk_only s (walk_mem w)" using assms(1) by (simp add: discovered_def)
  then have rv: "reaches_vector (cell_at (walk_mem w) a)" using assms(3) walk_onlyD(5) by simp
  have vis: "visited (cell_at (walk_mem w) a) \<longleftrightarrow> a \<in> set (nodes_found w)" using assms(1) nf by (simp add: discovered_def)
  show ?thesis
  proof (cases "visited (cell_at (walk_mem w) a)")
    case True
    with vis walk_extends_edge [of w c "HRef a"] show ?thesis by (auto simp: walk_extends_def)
  next
    case False
    with rv assms(2) show ?thesis by (auto simp: gc_discover_edge_def Let_def case_prod_beta split: if_splits)
  qed
qed

lemma discover_fold_found:
  assumes "discovered s w"
  shows "walk_extends w (fold (gc_discover_edge c) vs w) \<and> discovered s (fold (gc_discover_edge c) vs w) \<and>
    (\<not> failed (fold (gc_discover_edge c) vs w) \<longrightarrow>
      (\<forall>a. HRef a \<in> set vs \<longrightarrow> reaches_vector (cell_at s a) \<longrightarrow> a \<in> set (nodes_found (fold (gc_discover_edge c) vs w))))"
  using assms
proof (induction vs arbitrary: w)
  case (Cons v vs)
  let ?u = "gc_discover_edge c v w" and ?r = "fold (gc_discover_edge c) vs (gc_discover_edge c v w)"
  note I = Cons.IH [OF discover_edge_ok [OF Cons.prems], of c v]
  have nf: "\<not> failed ?u" if "\<not> failed ?r" using I that by (auto simp: walk_extends_def)
  have "a \<in> set (nodes_found ?r)" if "\<not> failed ?r" "v = HRef a" "reaches_vector (cell_at s a)" for a
  proof -
    have "a \<in> set (nodes_found ?u)" using discover_edge_found [OF Cons.prems, of c a] nf that by simp
    then show ?thesis using I by (auto simp: walk_extends_def)
  qed
  with I walk_extends_trans [OF walk_extends_edge [of w c v], of ?r] show ?case by auto
qed simp

lemma discover_edges_found:
  assumes "discovered s w"
  shows "walk_extends w (discover_edges c a w)"
    and "\<not> failed (discover_edges c a w) \<Longrightarrow> HRef b \<in> set (edges s a) \<Longrightarrow> reaches_vector (cell_at s b) \<Longrightarrow>
      b \<in> set (nodes_found (discover_edges c a w))"
proof -
  have "edges (walk_mem w) a = edges s a" using assms walk_onlyD(8) by (simp add: discovered_def)
  with discover_fold_found [OF assms, of c "edges s a"] show "walk_extends w (discover_edges c a w)"
    and "\<not> failed (discover_edges c a w) \<Longrightarrow> HRef b \<in> set (edges s a) \<Longrightarrow> reaches_vector (cell_at s b) \<Longrightarrow>
      b \<in> set (nodes_found (discover_edges c a w))"
    unfolding discover_edges_def by auto
qed

lemma discover_sources_found:
  "discovered s w \<Longrightarrow> walk_extends w (discover_sources c as w) \<and> (\<not> failed (discover_sources c as w) \<longrightarrow>
    (\<forall>a\<in>set as. reaches_vector (cell_at s a) \<longrightarrow> a \<in> set (nodes_found (discover_sources c as w))))"
proof (induction as arbitrary: w)
  case (Cons a as)
  let ?u = "gc_discover_edge c (HRef a) w"
  note I = Cons.IH [OF discover_edge_ok [OF Cons.prems], of c "HRef a"]
  show ?case
  proof (cases "failed w")
    case False
    have "a \<in> set (nodes_found (discover_sources c as ?u))"
      if "\<not> failed (discover_sources c as ?u)" "reaches_vector (cell_at s a)"
      using discover_edge_found [OF Cons.prems, of c a] that I by (auto simp: walk_extends_def)
    with I False walk_extends_trans [OF walk_extends_edge [of w c "HRef a"]] show ?thesis by auto
  qed simp
qed simp

lemma covers_extends:
  assumes "covers s i w" "walk_extends w w'"
  shows "covers s i w'"
  unfolding covers_def
proof (intro impI conjI allI)
  assume nf: "\<not> failed w'"
  obtain xs where xs: "nodes_found w' = nodes_found w @ xs" and nw: "\<not> failed w" using assms(2) nf by (auto simp: walk_extends_def)
  with assms(1) show "i \<le> length (nodes_found w')" by (simp add: covers_def)
  fix j b assume "j < i" "HRef b \<in> set (edges s (nodes_found w' ! j))" "reaches_vector (cell_at s b)"
  with assms(1) xs nw show "b \<in> set (nodes_found w')" by (auto simp: covers_def nth_append)
qed

lemma discover_loop_found:
  "discovered s w \<Longrightarrow> covers s i w \<Longrightarrow> walk_extends w (discover_loop c i w) \<and>
    (\<not> failed (discover_loop c i w) \<longrightarrow> covers s (length (nodes_found (discover_loop c i w))) (discover_loop c i w))"
proof (induction c i w rule: discover_loop.induct)
  case (1 c i w)
  show ?case
  proof (cases "i < length (nodes_found w) \<and> \<not> failed w")
    case True
    let ?u = "discover_edges c (nodes_found w ! i) w"
    note e = discover_edges_found [OF "1.prems"(1), of c "nodes_found w ! i"]
    have cu: "covers s (i + 1) ?u"
      unfolding covers_def
    proof (intro impI conjI allI)
      assume nf: "\<not> failed ?u"
      obtain xs where xs: "nodes_found ?u = nodes_found w @ xs" using e(1) by (auto simp: walk_extends_def)
      with True show "i + 1 \<le> length (nodes_found ?u)" by simp
      fix j b assume j: "j < i + 1" "HRef b \<in> set (edges s (nodes_found ?u ! j))" "reaches_vector (cell_at s b)"
      show "b \<in> set (nodes_found ?u)"
      proof (cases "j = i")
        case True
        with e(2) [OF nf _ j(3)] j(2) xs \<open>i < length (nodes_found w) \<and> \<not> failed w\<close> show ?thesis by (simp add: nth_append)
      next
        case False
        then have "j < i" using j(1) by simp
        with covers_extends [OF "1.prems"(2) e(1)] nf j(2,3) show ?thesis unfolding covers_def by blast
      qed
    qed
    have du: "discovered s ?u" by (rule discover_edges_ok [OF "1.prems"(1)])
    note I = "1.IH" [OF True du cu]
    have "discover_loop c i w = discover_loop c (i + 1) ?u" using True by (subst discover_loop.simps) simp
    with I walk_extends_trans [OF e(1)] show ?thesis by simp
  next
    case False
    then have "discover_loop c i w = w" by (subst discover_loop.simps) (simp only: if_False)
    moreover have "i = length (nodes_found w)" if "\<not> failed w" using "1.prems"(2) that False by (simp add: covers_def)
    ultimately show ?thesis using "1.prems"(2) by auto
  qed
qed

lemma discovery_found:
  assumes "visited_clear s" "\<not> failed (discovery c s)"
  shows "a \<in> set (sources (ctxs s c)) \<Longrightarrow> reaches_vector (cell_at s a) \<Longrightarrow> a \<in> set (nodes_found (discovery c s))"
    and "a \<in> set (nodes_found (discovery c s)) \<Longrightarrow> HRef b \<in> set (edges s a) \<Longrightarrow> reaches_vector (cell_at s b) \<Longrightarrow>
      b \<in> set (nodes_found (discovery c s))"
proof -
  let ?w = "discover_sources c (sources (ctxs s c)) (walk_start s)"
  have d: "discovered s (walk_start s)" using assms(1) by (simp add: discovered_def visited_clear_def walk_start_def)
  note dw = discover_sources_ok [OF d, of c "sources (ctxs s c)"]
  have "covers s 0 ?w" by (simp add: covers_def)
  note L = discover_loop_found [OF dw this, of c, folded discovery_def]
  have nf: "\<not> failed ?w" using L assms(2) by (auto simp: walk_extends_def)
  show "a \<in> set (nodes_found (discovery c s))" if "a \<in> set (sources (ctxs s c))" "reaches_vector (cell_at s a)"
  proof -
    have "a \<in> set (nodes_found ?w)" using discover_sources_found [OF d, of c "sources (ctxs s c)"] nf that by blast
    with L show ?thesis by (auto simp: walk_extends_def)
  qed
  show "b \<in> set (nodes_found (discovery c s))"
    if "a \<in> set (nodes_found (discovery c s))" "HRef b \<in> set (edges s a)" "reaches_vector (cell_at s b)"
    using L assms(2) that by (auto simp: covers_def in_set_conv_nth)
qed

subsection \<open>Marks come from the roots\<close>

definition marks_in :: "addr set \<Rightarrow> marking \<Rightarrow> addr set \<Rightarrow> bool" where
  "marks_in G m P \<longleftrightarrow> (\<forall>a\<in>G. marked (cell_at (mark_mem m) a) \<longrightarrow> a \<in> P) \<and> set (stack m) \<subseteq> P"

lemma mark_push_in:
  assumes "marking_ok s G m" "a \<in> G" "marks_in G m P" "a \<in> P"
  shows "marks_in G (snd (mark_and_push c n a m)) P"
proof -
  have "reaches_vector (cell_at (mark_mem m) a)" using assms(1,2) by (simp add: marking_ok_def in_walk_def)
  then have "live (mark_mem m) a" by (rule reaches_vector_live)
  with assms(3,4) show ?thesis
    by (auto simp: mark_and_push_def Let_def case_prod_beta marks_in_def cell_at_upd_cell)
qed

lemma mark_edge_in:
  assumes "marking_ok s G m" "marks_in G m P" "\<And>a. v = HRef a \<Longrightarrow> a \<in> P"
  shows "marks_in G (gc_mark_edge c n v m) P"
proof (cases v)
  case (HRef a)
  have "a \<in> G" if "visited (cell_at (mark_mem m) a)" using assms(1) that by (simp add: marking_ok_def in_walk_def)
  then show ?thesis using mark_push_in [OF assms(1) _ assms(2), of a c n] assms(2,3) HRef by (simp add: gc_mark_edge_def)
qed (use assms(2) in \<open>simp_all add: gc_mark_edge_def\<close>)

lemma mark_fold_in:
  "marking_ok s G m \<Longrightarrow> marks_in G m P \<Longrightarrow> (\<And>a. HRef a \<in> set vs \<Longrightarrow> a \<in> P) \<Longrightarrow>
   marks_in G (fold (gc_mark_edge c n) vs m) P"
proof (induction vs arbitrary: m)
  case (Cons v vs)
  have "marks_in G (gc_mark_edge c n v m) P" by (rule mark_edge_in [OF Cons.prems(1,2)]) (use Cons.prems(3) in simp)
  from Cons.IH [OF _ this] mark_edge_ok [OF Cons.prems(1), of c n v] Cons.prems(3) show ?case by simp
qed simp

lemma mark_drain_in:
  assumes "marking_ok s G m" "marks_in G m P" "\<And>a b. a \<in> P \<Longrightarrow> HRef b \<in> set (edges s a) \<Longrightarrow> b \<in> P"
  shows "marks_in G (mark_drain c n m) P \<and> marking_ok s G (mark_drain c n m)"
  using assms
proof (induction c n m rule: mark_drain.induct)
  case (1 c n m)
  show ?case
  proof (cases "mark_failed m \<or> stack m = []")
    case True
    then have "mark_drain c n m = m" by (auto simp: mark_drain.simps [of c n m])
    with "1.prems" show ?thesis by auto
  next
    case False
    then obtain a as where st: "\<not> mark_failed m" "stack m = a # as" by (cases "stack m") auto
    let ?m0 = "m\<lparr>stack := as\<rparr>"
    let ?u = "mark_edges c n a ?m0"
    have step: "mark_drain c n m = mark_drain c n ?u" using st by (simp add: mark_drain.simps [of c n m])
    have m0: "marking_ok s G ?m0" "marks_in G ?m0 P" "a \<in> P" using "1.prems"(1,2) st(2) by (simp_all add: marking_ok_def marks_in_def)
    have es: "edges (mark_mem m) a = edges s a" using "1.prems"(1) walk_onlyD(8) by (simp add: marking_ok_def)
    have f: "marking_ok s G ?u" using mark_fold_ok [OF m0(1), of c n "edges s a"] by (simp add: mark_edges_def es)
    have "marks_in G ?u P" using mark_fold_in [OF m0(1,2), of "edges s a" c n] "1.prems"(3) [OF m0(3)] by (simp add: mark_edges_def es)
    from "1.IH" [OF st(1,2) f this "1.prems"(3)] show ?thesis unfolding step .
  qed
qed

lemma mark_roots_in:
  "marking_ok s G m \<Longrightarrow> marks_in G m P \<Longrightarrow> (\<And>a b. a \<in> P \<Longrightarrow> HRef b \<in> set (edges s a) \<Longrightarrow> b \<in> P) \<Longrightarrow>
   set as \<subseteq> G \<Longrightarrow> (\<And>a. a \<in> set as \<Longrightarrow> trial (cell_at s a) \<noteq> 0 \<Longrightarrow> a \<in> P) \<Longrightarrow> marks_in G (mark_roots c n as m) P"
proof (induction as arbitrary: m)
  case (Cons a as)
  obtain okay m1 where p: "(if trial (cell_at (mark_mem m) a) \<noteq> 0 \<and> \<not> marked (cell_at (mark_mem m) a)
      then mark_and_push c n a m else (True, m)) = (okay, m1)" by fastforce
  have a: "a \<in> G" "set as \<subseteq> G" using Cons.prems(4) by simp_all
  have tr: "trial (cell_at (mark_mem m) a) = trial (cell_at s a)" using Cons.prems(1) by (simp add: marking_ok_def)
  have "marks_in G m1 P"
  proof (cases "trial (cell_at (mark_mem m) a) \<noteq> 0 \<and> \<not> marked (cell_at (mark_mem m) a)")
    case True
    with p have e: "m1 = snd (mark_and_push c n a m)" by simp
    show ?thesis unfolding e
      by (rule mark_push_in [OF Cons.prems(1) a(1) Cons.prems(2) Cons.prems(5)]) (use True tr in simp_all)
  next
    case False
    with p Cons.prems(2) show ?thesis by auto
  qed
  note K = mark_root_ok(1) [OF Cons.prems(1) a(1) p] and this
  note D = mark_drain_in [OF this Cons.prems(3), where c = c and n = n]
  have "marks_in G (mark_roots c n as (mark_drain c n m1)) P"
    using Cons.IH [of "mark_drain c n m1"] D Cons.prems(3,5) a(2) by simp
  with \<open>marks_in G m1 P\<close> show ?case unfolding mark_roots_step [OF p] by simp
qed simp

subsection \<open>Garbage\<close>

definition sources_cover :: "mem \<Rightarrow> ctxid \<Rightarrow> bool" where
  \<comment> \<open>all cycles of the heap go through the registered vectors of the context\<close>
  "sources_cover s c \<longleftrightarrow>
     (\<forall>a. is_source s a \<longrightarrow> a \<in> set (sources (ctxs s c)) \<and> reaches_vector (cell_at s a)) \<and>
     (\<forall>a b. HRef b \<in> set (edges s a) \<longrightarrow> reaches_vector (cell_at s b) \<longrightarrow> reaches_vector (cell_at s a)) \<and>
     Transitive_Closure.acyclic {(a, b). (a, b) \<in> g_edge (view s) \<and> \<not> is_source s a \<and> \<not> is_source s b}"

text \<open>A finite set in which every cell has a holder contains a cycle.\<close>

lemma no_bottom:
  assumes "finite N" "Transitive_Closure.acyclic r" "\<And>a. a \<in> N \<Longrightarrow> \<exists>b\<in>N. (b, a) \<in> r"
  shows "N = {}"
proof (rule ccontr)
  assume ne: "N \<noteq> {}"
  have "finite (r \<inter> N \<times> N)" using assms(1) by simp
  moreover have "Transitive_Closure.acyclic (r \<inter> N \<times> N)" by (rule acyclic_subset [OF assms(2)]) simp
  ultimately have "wf (r \<inter> N \<times> N)" by (rule finite_acyclic_wf)
  then obtain a where "a \<in> N" "\<And>b. (b, a) \<in> r \<inter> N \<times> N \<Longrightarrow> b \<notin> N" using ne by (metis wfE_min ex_in_conv)
  with assms(3) show False by blast
qed

lemma edge_holds: "v \<in> set (edges s a) \<Longrightarrow> v \<in> set (holds s a)"
  by (simp add: holds_def)

lemma slot_of_owned:
  assumes "rc_ok s R W D" "HRef x \<in> set (symbol_slots (load (cell_at s b)))"
  shows "b \<in> owned (view s) R"
proof -
  have imm: "refs (cell_at s b) = RC_IMMORTAL" using symbols_okD [OF rc_okD(5) [OF assms(1)], of b] assms(2) by auto
  have "live s b"
  proof (rule ccontr)
    assume "\<not> live s b"
    then have "cell_at s b = free_cell" by (rule cell_at_dead)
    with imm show False by (simp add: free_cell_def)
  qed
  with imm show ?thesis by (intro owned.immortal) (simp_all add: live_fmdom)
qed

lemma unowned_holder:
  assumes ok: "rc_ok s R [] {}" and x: "live s x" "x \<notin> owned (view s) R"
  obtains b where "live s b" "b \<notin> owned (view s) R" "HRef x \<in> set (edges s b)"
proof -
  have "refs (cell_at s x) \<noteq> RC_IMMORTAL" "HRef x \<notin># R"
    using x owned.immortal [of x "view s" R] owned.root [of x R "view s"] by (auto simp: live_fmdom)
  then obtain b where b: "b \<in> nodes (view s)" "HRef x \<in> set (holds s b)"
    using holder [OF rc_okD(6) [OF ok], of x] x(1) by (auto simp: live_fmdom)
  have nb: "b \<notin> owned (view s) R" using owned.edge [of b "view s" R x] b(2) x(2) by auto
  then have "HRef x \<in> set (edges s b)" using b(2) slot_of_owned [OF ok, of x b] by (auto simp: holds_def)
  with b(1) nb that show thesis by (simp add: live_fmdom)
qed

text \<open>What the walk does not reach and nobody owns cannot hold anything the walk reaches.\<close>

lemma walk_reaches_garbage:
  assumes ok: "rc_ok s R [] {}" and cov: "sources_cover s c" and clear: "visited_clear s" and nf: "\<not> failed (discovery c s)"
    and a: "live s a" "a \<notin> owned (view s) R" "reaches_vector (cell_at s a)"
  shows "a \<in> set (nodes_found (discovery c s))"
proof (rule ccontr)
  let ?G = "set (nodes_found (discovery c s))"
  let ?N = "{x. live s x \<and> x \<notin> owned (view s) R \<and> reaches_vector (cell_at s x) \<and> x \<notin> ?G}"
  note F = discovery_found [OF clear nf]
  note C = cov [unfolded sources_cover_def]
  assume "a \<notin> ?G"
  with a have aN: "a \<in> ?N" by simp
  have src: "\<not> is_source s x" if "x \<in> ?N" for x using that F(1) C by blast
  have "?N \<subseteq> fmdom' (cells s)" by (auto simp: live_fmdom)
  then have fin: "finite ?N" by (rule finite_subset) simp
  have "\<exists>b\<in>?N. (b, x) \<in> {(a, b). (a, b) \<in> g_edge (view s) \<and> \<not> is_source s a \<and> \<not> is_source s b}" if x: "x \<in> ?N" for x
  proof -
    from x have x': "live s x" "x \<notin> owned (view s) R" by simp_all
    obtain b where b: "live s b" "b \<notin> owned (view s) R" "HRef x \<in> set (edges s b)"
      by (rule unowned_holder [OF ok x'])
    have "b \<in> ?N" using b x F(2) [of b x] C by blast
    moreover have "(b, x) \<in> g_edge (view s)" using b by (simp add: g_edge_def live_fmdom edge_holds)
    ultimately show ?thesis using src x by blast
  qed
  from no_bottom [OF fin conjunct2 [OF conjunct2 [OF C]] this] have "?N = {}" .
  with aN show False by blast
qed

lemma root_owned:
  assumes ok: "rc_ok s R [] {}" and cov: "sources_cover s c" and clear: "visited_clear s" and nf: "\<not> failed (discovery c s)"
  defines "ns \<equiv> nodes_found (discovery c s)"
  assumes r: "r \<in> set ns" and tr: "trial_start (cell_at s r) > count (mset (concat (map (edges s) ns))) (HRef r)"
  shows "r \<in> owned (view s) R"
proof (rule ccontr)
  assume no: "r \<notin> owned (view s) R"
  have disc: "discovered s (discovery c s)" by (rule discovery_ok [OF clear])
  then have ns: "distinct ns" "\<forall>a\<in>set ns. live s a" "reaches_vector (cell_at s r)"
    using nf r by (auto simp: discovered_def ns_def)
  note cc = rc_okD(6) [OF ok]
  have l: "r \<in> nodes (view s) - {}" using ns(2) r by (simp add: live_fmdom)
  have n: "refs (cell_at s r) \<noteq> RC_IMMORTAL" using owned.immortal [of r "view s" R] l no by auto
  then have "refs (cell_at s r) = count (held (view s) {} + R) (HRef r)" using counts_okD(6) [OF cc l] by simp
  moreover have "count R (HRef r) = 0" using owned.root [of r R "view s"] no by (auto simp: count_eq_zero_iff)
  moreover have "count (mset (concat (map (\<lambda>a. symbol_slots (load (cell_at s a))) ns))) (HRef r) = 0"
  proof -
    have "HRef r \<notin> set (symbol_slots (load (cell_at s a)))" for a
    proof
      assume "HRef r \<in> set (symbol_slots (load (cell_at s a)))"
      then have "a \<in> owned (view s) R" "HRef r \<in> set (out (view s) a)" using slot_of_owned [OF ok] by (auto simp: holds_def)
      from owned.edge [OF this] no show False by simp
    qed
    then show ?thesis by (simp add: count_eq_zero_iff)
  qed
  ultimately have "count (held (view s) (set ns)) (HRef r) > 0"
    using held_split [OF counts_okD(1) [OF cc] ns(1,2)] tr n by (simp add: trial_start_def)
  then obtain b where b: "live s b" "b \<notin> set ns" "HRef r \<in> set (holds s b)"
    using held_mem [OF counts_okD(1) [OF cc]] by (auto simp: live_fmdom)
  have nb: "b \<notin> owned (view s) R" using owned.edge [of b "view s" R r] b(3) no by auto
  then have "HRef r \<in> set (edges s b)" using b(3) slot_of_owned [OF ok, of r b] by (auto simp: holds_def)
  then have "reaches_vector (cell_at s b)" using cov ns(3) unfolding sources_cover_def by blast
  from walk_reaches_garbage [OF ok cov clear nf b(1) nb this] b(2) show False by (simp add: ns_def)
qed

subsection \<open>Nothing else survives\<close>

lemma settles_owned_mono:
  assumes s: "settles s s'" and ok: "counts_ok (view s') R [] {}" and x: "x \<in> owned (view s) R"
  shows "x \<in> owned (view s') R"
  using x
proof induction
  case (root x)
  then show ?case by (rule owned.root)
next
  case (immortal x)
  with s show ?case by (intro owned.immortal) (simp_all add: settles_def live_fmdom)
next
  case (edge b x)
  have "holds s' b = holds s b" using s settles_owned [OF s ok edge.hyps(1)] by (simp add: settles_def)
  with edge show ?case by (intro owned.edge [OF edge.IH]) simp
qed

lemma marked_owned:
  assumes ok: "rc_ok s R [] {}" and cov: "sources_cover s c" and clear: "visited_clear s"
    and size: "size (held (view s) {}) < SIZE_MAX" and nf: "\<not> failed (discovery c s)"
    and a: "a \<in> set (nodes_found (discovery c s))" "marked (cell_at (mark_mem (marking_of c s)) a)"
  shows "a \<in> owned (view s) R"
proof -
  let ?ns = "nodes_found (discovery c s)"
  let ?G = "set ?ns"
  define t where "t = subtracted c s"
  note T = subtracted_ok [OF ok clear size nf, folded t_def]
  let ?m0 = "\<lparr>stack = [], mark_failed = False, mark_mem = t\<rparr>"
  have m: "marking_of c s = mark_roots c (length ?ns) ?ns ?m0" unfolding marking_of_def t_def by (simp add: Let_def)
  have m0: "marking_ok t ?G ?m0" "marks_in ?G ?m0 (owned (view s) R)"
    using T(4,6) by (auto simp: marking_ok_def marks_in_def)
  have es: "edges t b = edges s b" for b using walk_onlyD(8) [OF T(3)] .
  have cl: "y \<in> owned (view s) R" if "x \<in> owned (view s) R" "HRef y \<in> set (edges t x)" for x y
    by (rule owned.edge [OF that(1)]) (use that(2) in \<open>simp add: es edge_holds\<close>)
  have tr: "r \<in> owned (view s) R" if "r \<in> ?G" "trial (cell_at t r) \<noteq> 0" for r
    by (rule root_owned [OF ok cov clear nf that(1)]) (use T(5) [OF that(1)] that(2) in simp)
  have "marks_in ?G (marking_of c s) (owned (view s) R)"
    unfolding m by (rule mark_roots_in [OF m0 cl order_refl tr])
  with a show ?thesis by (simp add: marks_in_def)
qed

lemma collect_from_sources_complete:
  assumes ok: "rc_ok s R [] {}" and cov: "sources_cover s c" and clear: "visited_clear s"
    and size: "size (held (view s) {}) < SIZE_MAX"
    and nf: "\<not> failed (discovery c s)" "\<not> mark_failed (marking_of c s)" and a: "live (collect_from_sources c s) a"
  shows "a \<in> owned (view (collect_from_sources c s)) R"
proof (rule ccontr)
  define u where "u = collect_from_sources c s"
  note K = collect_from_sources_ok [OF ok clear size, of c, folded u_def]
  have u: "rc_ok u R [] {}" "settles s u" using K by blast+
  assume "a \<notin> owned (view (collect_from_sources c s)) R"
  with a have aN: "a \<in> {x. live u x \<and> x \<notin> owned (view u) R}" (is "a \<in> ?N") by (simp add: u_def)
  have "?N \<subseteq> fmdom' (cells u)" by (auto simp: live_fmdom)
  then have fin: "finite ?N" by (rule finite_subset) simp
  have src: "\<not> is_source s x" if x: "x \<in> ?N" for x
  proof
    assume "is_source s x"
    then have g: "x \<in> set (nodes_found (discovery c s))" using discovery_found(1) [OF clear nf(1)] cov by (simp add: sources_cover_def)
    show False
    proof (cases "marked (cell_at (mark_mem (marking_of c s)) x)")
      case True
      from settles_owned_mono [OF u(2) rc_okD(6) [OF u(1)] marked_owned [OF ok cov clear size nf(1) g True]] x show False by simp
    next
      case False
      with K nf g x show False by simp
    qed
  qed
  have "\<exists>b\<in>?N. (b, x) \<in> {(a, b). (a, b) \<in> g_edge (view s) \<and> \<not> is_source s a \<and> \<not> is_source s b}" if x: "x \<in> ?N" for x
  proof -
    from x have x': "live u x" "x \<notin> owned (view u) R" by simp_all
    obtain b where b: "live u b" "b \<notin> owned (view u) R" "HRef x \<in> set (edges u b)"
      by (rule unowned_holder [OF u(1) x'])
    have "live s b" "holds u b = holds s b" using u(2) b(1) unfolding settles_def by blast+
    with edge_holds [OF b(3)] have "(b, x) \<in> g_edge (view s)" by (simp add: g_edge_def live_fmdom)
    with b src [of b] src [OF x] show ?thesis by blast
  qed
  from no_bottom [OF fin _ this] cov have "?N = {}" unfolding sources_cover_def by blast
  with aN show False by blast
qed

text \<open>The whole of \<open>rc_collect\<close>: the flags it sets first, and the collection.\<close>

definition collection_started :: "ctxid \<Rightarrow> mem \<Rightarrow> mem" where
  "collection_started c s = upd_ctx c (\<lambda>x. x\<lparr>collecting := True, since_collection := 0,
     stats := (stats x)\<lparr>collections := collections (stats x) + 1\<rparr>\<rparr>) s"

definition can_collect :: "ctxid \<Rightarrow> mem \<Rightarrow> bool" where
  \<comment> \<open>the context allows cycles, is not already collecting, and the scratch array can be grown\<close>
  "can_collect c s \<longleftrightarrow> c \<noteq> 0 \<and> \<not> acyclic (ctxs s c) \<and> \<not> collecting (ctxs s c) \<and>
     \<not> failed (discovery c (collection_started c s)) \<and> \<not> mark_failed (marking_of c (collection_started c s))"

lemma owned_same_heap: "same_heap s t \<Longrightarrow> view t = view s"
  by (rule view_cong) (auto simp: same_heap_def rc_value_context_def intro!: plan_of_cong)

lemma rc_collect_complete:
  assumes ok: "heap_ok s R" and clear: "visited_clear s" and size: "size (held (view s) {}) < SIZE_MAX"
    and cov: "sources_cover s c" and can: "can_collect c s"
  shows "live (rc_collect c s) a \<longleftrightarrow> a \<in> owned (view (rc_collect c s)) R"
proof
  have ok': "counts_ok (view (rc_collect c s)) R [] {}"
    using rc_collect_ok [OF ok clear size, of c] by (simp add: heap_ok_def rc_ok_def)
  show "live (rc_collect c s) a" if "a \<in> owned (view (rc_collect c s)) R"
    using owned_live [OF ok' that] by (simp add: live_fmdom)
  define t where "t = collection_started c s"
  define u where "u = (if cycle_sources (ctxs t c) = 0
     then upd_stats c (\<lambda>x. x\<lparr>acyclic_collections := acyclic_collections x + 1\<rparr>) t else collect_from_sources c t)"
  have st: "same_heap s t" unfolding t_def collection_started_def by (rule same_heap_upd_ctx) simp
  have t: "rc_ok t R [] {}" by (rule rc_ok_same_heap [OF ok [unfolded heap_ok_def] st])
  have vt: "view t = view s" by (rule owned_same_heap [OF st])
  have tc: "visited_clear t" using clear by (simp add: visited_clear_def t_def collection_started_def)
  have "edges t = edges s" using st same_heap_context [OF st]
    by (intro ext edges_cong plan_of_cong) (simp_all add: same_heap_def)
  moreover have "is_source t = is_source s" using st by (intro ext) (simp add: is_source_def same_heap_def)
  moreover have "reaches_vector (cell_at t b) = reaches_vector (cell_at s b)" for b by (simp add: t_def collection_started_def)
  moreover have "sources (ctxs t c) = sources (ctxs s c)" using st by (simp add: same_heap_def)
  ultimately have ct: "sources_cover t c" using cov vt by (simp add: sources_cover_def)
  have "live u b \<Longrightarrow> b \<in> owned (view u) R" for b
  proof (cases "cycle_sources (ctxs t c) = 0")
    case True
    then have "sources (ctxs t c) = []" using rc_okD(3) [OF t] by (simp add: sources_wf_def)
    then have "\<not> is_source t b" for b using ct by (simp add: sources_cover_def)
    then have "Transitive_Closure.acyclic (g_edge (view t))" using ct by (simp add: sources_cover_def)
    from acyclic_all_owned [OF rc_okD(6) [OF t] this] True
    show "b \<in> owned (view u) R" if "live u b" using that by (simp add: u_def live_fmdom)
  next
    case False
    with collect_from_sources_complete [OF t ct tc, of b] size vt can
    show "b \<in> owned (view u) R" if "live u b" using that by (simp add: u_def can_collect_def t_def)
  qed
  moreover have "same_heap u (rc_collect c s)"
  proof -
    have "rc_collect c s = upd_ctx c (\<lambda>x. x\<lparr>collecting := False\<rparr>) (if adaptive_collection (ctxs u c)
      then upd_ctx c (\<lambda>x. x\<lparr>collection_interval := collection_budget (live_objects (stats x)) (graph_slots x)\<rparr>) u else u)"
      using can unfolding rc_collect_def can_collect_def t_def u_def collection_started_def by (simp add: Let_def)
    moreover have "same_heap u (upd_ctx c (\<lambda>x. x\<lparr>collecting := False\<rparr>) u)" by (rule same_heap_upd_ctx) simp
    moreover have "same_heap u (upd_ctx c (\<lambda>x. x\<lparr>collecting := False\<rparr>)
        (upd_ctx c (\<lambda>x. x\<lparr>collection_interval := collection_budget (live_objects (stats x)) (graph_slots x)\<rparr>) u))"
      by (rule same_heap_trans [OF same_heap_upd_ctx same_heap_upd_ctx]) simp_all
    ultimately show ?thesis by simp
  qed
  ultimately show "a \<in> owned (view (rc_collect c s)) R" if "live (rc_collect c s) a"
    using that owned_same_heap [of u "rc_collect c s"] by (simp add: same_heap_def live_fmdom)
qed

end
