(* ===== verification/Examples.thy ===== *)
theory Examples
  imports Contexts Vector_Laws Garbage_Laws
begin

text \<open>
  Concrete memories on which the properties of the root theory are instantiated: one context with a
  pair or a vector in it, and a vector that holds itself, with an owner and without.
\<close>

subsection \<open>A pair and a vector\<close>

text \<open>One context, and in it one pair of nil and 7 or one vector of two nils, owned by the caller;
  the same vector in an acyclic context. The witnesses below start from these states.\<close>

definition start :: mem where
  "start = snd (rc_context_new None None (empty_mem []))"

definition one_pair :: mem where
  "one_pair = snd (rc_cons_owned 1 HNil (HImm 15) start)"

definition strict_start :: mem where
  "strict_start = snd (rc_context_new_with_policy RC_ACYCLIC_ONLY None None (empty_mem []))"

definition one_vector :: mem where
  "one_vector = snd (rc_vector 1 2 strict_start)"

lemma heap_ok_start: "heap_ok start {#}" "next_ctx start = 2"
proof -
  obtain c where e: "rc_context_new_with_policy RC_CYCLES_ALLOWED None None (empty_mem []) = (c, start)"
    by (simp add: start_def rc_context_new_def) (metis prod.collapse)
  from rc_context_new_ok(1) [OF heap_ok_empty _ e] show "heap_ok start {#}" by (simp add: next_ctx_empty)
  show "next_ctx start = 2"
    by (simp add: start_def rc_context_new_def rc_context_new_with_policy_def library_call_def empty_mem_def Let_def)
qed

lemma heap_ok_strict_start: "heap_ok strict_start {#}" "next_ctx strict_start = 2"
proof -
  obtain c where e: "rc_context_new_with_policy RC_ACYCLIC_ONLY None None (empty_mem []) = (c, strict_start)"
    by (simp add: strict_start_def) (metis prod.collapse)
  from rc_context_new_ok(1) [OF heap_ok_empty _ e] show "heap_ok strict_start {#}" by (simp add: next_ctx_empty)
  show "next_ctx strict_start = 2"
    by (simp add: strict_start_def rc_context_new_with_policy_def library_call_def empty_mem_def Let_def)
qed

lemmas evaluate = start_def strict_start_def rc_context_new_def rc_context_new_with_policy_def library_call_def
  empty_mem_def rc_cons_owned_def allocate_def take_cell_def zero_ctx_def new_cell_def page_full_def
  fresh_page_def bump_cell_def Let_def upd_ctx_def upd_stats_def SIZE_MAX_def RC_VALUE_BYTES_def
  cell_class_def cell_bytes_def RC_PAGE_BYTES_def PAGE_FIRST_def RC_PAIR_CELL_def PTR_BYTES_def

lemma one_pair_value: "rc_cons_owned 1 HNil (HImm 15) start = (HRef 65664, one_pair)"
proof -
  have "fst (rc_cons_owned 1 HNil (HImm 15) start) = HRef 65664" by (simp add: evaluate)
  then show ?thesis by (metis one_pair_def prod.collapse)
qed

lemma heap_ok_one_pair: "heap_ok one_pair {#HRef 65664#}"
proof -
  have "moves start {#HNil, HImm 15#} one_pair {#HRef 65664#}"
    by (rule moves_rc_cons_owned [OF _ one_pair_value]) (simp add: heap_ok_start)
  from movesD(1) [OF this, of "{#}"] heap_ok_start(1) show ?thesis by simp
qed

lemma one_pair_cells: "load (cell_at one_pair 65664) = VPair HNil (HImm 15)" "next_ctx one_pair = 2"
  "rc_value_context one_pair 65664 = 1" "refs (cell_at one_pair 65664) = 1" "\<not> has_plan (cell_at one_pair 65664)"
  "fmdom' (cells one_pair) = {65664}"
  by (simp_all add: one_pair_def evaluate init_cell_def pair_of_def new_header_def upd_cell_def cell_at_def rc_value_context_def)

lemma one_vector_value: "rc_vector 1 2 strict_start = (HRef 65664, one_vector)"
proof -
  have "fst (rc_vector 1 2 strict_start) = HRef 65664" by (simp add: evaluate rc_vector_def)
  then show ?thesis by (metis one_vector_def prod.collapse)
qed

lemma heap_ok_one_vector: "heap_ok one_vector {#HRef 65664#}"
proof -
  have "moves strict_start {#} one_vector {#HRef 65664#}"
    by (rule moves_rc_vector [OF _ one_vector_value]) (simp add: heap_ok_strict_start)
  from movesD(1) [OF this, of "{#}"] heap_ok_strict_start(1) show ?thesis by simp
qed

lemma replicate_two: "replicate 2 x = [x, x]"
  by (simp add: numeral_2_eq_2)

lemma one_vector_cells: "fmdom' (cells one_vector) = {65664}" "load (cell_at one_vector 65664) = VVector [HNil, HNil] False"
  "acyclic (ctxs one_vector 1)" "\<not> visited (cell_at one_vector 65664)"
  by (simp_all add: one_vector_def evaluate rc_vector_def init_cell_def new_header_def upd_cell_def cell_at_def replicate_two)

subsection \<open>A vector that holds itself\<close>

text \<open>\<open>ring\<close>: the caller owns a vector whose first slot is the vector. \<open>lost_ring\<close>: the caller has
  released it; only a collection can free it.\<close>

definition slots :: mem where "slots = snd (rc_vector 1 2 start)"

lemma slots_cells: "fmdom' (cells slots) = {65664}" "load (cell_at slots 65664) = VVector [HNil, HNil] False"
  "\<not> acyclic (ctxs slots 1)" "\<not> visited (cell_at slots 65664)" "refs (cell_at slots 65664) = 1" "reaches_vector (cell_at slots 65664)"
  "rc_value_context slots 65664 = 1" "outcomes slots = []" "walk_capacity (ctxs slots 1) = 0"
  by (simp_all add: slots_def evaluate rc_vector_def init_cell_def new_header_def upd_cell_def cell_at_def replicate_two rc_value_context_def)

definition ring :: mem where "ring = snd (rc_vector_set 1 (HRef 65664) 0 (HRef 65664) slots)"

lemma slots_live: "live slots a \<longleftrightarrow> a = 65664" by (simp add: live_fmdom slots_cells)

lemma search_ring: "would_create_cycle 1 65664 (HRef 65664) n slots = (True, slots)"
  by (simp add: would_create_cycle_def reaches_def cycle_search_edge_def slots_cells search_loop_stop Let_def clear_visited_def)

lemma slots_sources: "sources (ctxs slots 1) = []" "cycle_sources (ctxs slots 1) = 0"
  by (simp_all add: slots_def evaluate rc_vector_def init_cell_def new_header_def upd_cell_def)

lemma ring_eq: "ring = rc_release HNil (upd_cell 65664 (\<lambda>x. x\<lparr>load := with_item 0 (HRef 65664) (load x)\<rparr>) (rc_retain (HRef 65664) (source_link 1 65664 slots)))"
  by (simp add: ring_def rc_vector_set_def search_ring slots_cells store_item_def Let_def slots_live source_link_def cell_at_upd_cell del: One_nat_def)

lemma ring_cells: "fmdom' (cells ring) = {65664}" "load (cell_at ring 65664) = VVector [HRef 65664, HNil] True"
  "\<not> visited (cell_at ring 65664)" "sources (ctxs ring 1) = [65664]" "reaches_vector (cell_at ring 65664)"
  "\<not> acyclic (ctxs ring 1)" "outcomes ring = []" 
  by (simp_all add: ring_eq rc_release_def cell_at_upd_cell slots_live slots_cells source_link_def slots_sources ctxs_upd_ctx del: One_nat_def)

lemma ring_refs: "refs (cell_at ring 65664) = 2" "gc_capacity (ctxs ring 1) = 0" "\<not> collecting (ctxs ring 1)"
proof -
  have "gc_capacity (ctxs slots 1) = 0" "\<not> collecting (ctxs slots 1)"
    by (simp_all add: slots_def evaluate rc_vector_def init_cell_def new_header_def upd_cell_def)
  then show "refs (cell_at ring 65664) = 2" "gc_capacity (ctxs ring 1) = 0" "\<not> collecting (ctxs ring 1)"
    by (simp_all add: ring_eq rc_release_def cell_at_upd_cell slots_live slots_cells source_link_def ctxs_upd_ctx RC_IMMORTAL_def del: One_nat_def)
qed

definition lost_ring :: mem where "lost_ring = rc_release (HRef 65664) ring"

lemma ring_live: "live ring a \<longleftrightarrow> a = 65664" by (simp add: live_fmdom ring_cells)

lemma lost_ring_eq: "lost_ring = upd_cell 65664 (\<lambda>x. x\<lparr>refs := 1\<rparr>) ring"
  by (simp add: lost_ring_def rc_release_def ring_refs RC_IMMORTAL_def)

lemma lost_ring_cells: "fmdom' (cells lost_ring) = {65664}" "load (cell_at lost_ring 65664) = VVector [HRef 65664, HNil] True"
  "\<not> visited (cell_at lost_ring 65664)" "sources (ctxs lost_ring 1) = [65664]" "reaches_vector (cell_at lost_ring 65664)"
  "\<not> acyclic (ctxs lost_ring 1)" "outcomes lost_ring = []" "gc_capacity (ctxs lost_ring 1) = 0" "\<not> collecting (ctxs lost_ring 1)"
  "refs (cell_at lost_ring 65664) = 1"
  by (simp_all add: lost_ring_eq cell_at_upd_cell ring_live ring_cells ring_refs del: One_nat_def)

lemma lost_ring_live: "live lost_ring a \<longleftrightarrow> a = 65664" by (simp add: live_fmdom lost_ring_cells)

lemma visited_clear_lost_ring: "visited_clear lost_ring"
  unfolding visited_clear_def
proof
  fix a show "\<not> visited (cell_at lost_ring a)"
    using lost_ring_cells(3) lost_ring_live cell_at_dead [of lost_ring a] by (cases "a = 65664") (auto simp: free_cell_def)
qed

lemma lost_ring_edges: "edges lost_ring a = (if a = 65664 then [HRef 65664, HNil] else [])"
  using edges_dead [of lost_ring a] lost_ring_live by (auto simp: edges_def lost_ring_cells plan_edge_def)

lemma lost_ring_holds: "holds lost_ring a = (if a = 65664 then [HRef 65664, HNil] else [])"
  using cell_at_dead [of lost_ring a] lost_ring_live [of a] by (cases "a = 65664") (simp_all add: holds_def lost_ring_edges lost_ring_cells free_cell_def)

lemma lost_ring_size: "size (held (view lost_ring) {}) < SIZE_MAX"
  by (simp add: held_def lost_ring_cells lost_ring_holds SIZE_MAX_def)

lemma lost_ring_source: "is_source lost_ring a \<longleftrightarrow> a = 65664"
  using cell_at_dead [of lost_ring a] lost_ring_live by (cases "a = 65664") (auto simp: is_source_def lost_ring_cells free_cell_def)

lemma lost_ring_covered: "sources_cover lost_ring 1"
proof -
  have no_edge: "{(a, b). (a, b) \<in> g_edge (view lost_ring) \<and> \<not> is_source lost_ring a \<and> \<not> is_source lost_ring b} = {}"
    (is "?A = {}") by (auto simp: g_edge_def lost_ring_source lost_ring_holds split: if_splits)
  have ac: "Transitive_Closure.acyclic {(a, b). (a, b) \<in> g_edge (view lost_ring) \<and> \<not> is_source lost_ring a \<and> \<not> is_source lost_ring b}"
    unfolding no_edge by (simp add: wf_acyclic)
  show ?thesis unfolding sources_cover_def
    by (intro conjI ac) (simp_all add: lost_ring_source lost_ring_edges lost_ring_cells del: One_nat_def split: if_splits)
qed

lemma lost_ring_discovery: "discovery 1 (collection_started 1 lost_ring) =
   \<lparr>nodes_found = [65664], found = False, failed = False,
    walk_mem = upd_ctx 1 (\<lambda>x. x\<lparr>gc_capacity := 1024\<rparr>) (upd_cell 65664 start_trial (collection_started 1 lost_ring))\<rparr>"
proof -
  let ?s = "collection_started 1 lost_ring"
  have c: "cell_at ?s a = cell_at lost_ring a" "live ?s a = live lost_ring a" "sources (ctxs ?s 1) = [65664]"
     "gc_capacity (ctxs ?s 1) = 0" "outcomes ?s = []" for a
    using lost_ring_cells by (simp_all add: collection_started_def ctxs_upd_ctx del: One_nat_def)
  show ?thesis
    by (simp add: discovery_def c walk_start_def gc_discover_edge_def lost_ring_cells gc_push_def Let_def SIZE_MAX_def PTR_BYTES_def library_call_def
      discover_loop.simps discover_edges_def edges_def cell_at_upd_cell lost_ring_live start_trial_def
       del: One_nat_def)
qed

lemma lost_ring_can_collect: "can_collect 1 lost_ring"
proof -
  let ?s = "collection_started 1 lost_ring"
  have c: "cell_at ?s a = cell_at lost_ring a" "live ?s a = live lost_ring a" for a by (simp_all add: collection_started_def)
  let ?w = "upd_ctx 1 (\<lambda>x. x\<lparr>gc_capacity := 1024\<rparr>) (upd_cell 65664 start_trial ?s)"
  have w: "cell_at ?w 65664 = start_trial (cell_at lost_ring 65664)" "live ?w 65664" by (simp_all add: cell_at_upd_cell c lost_ring_live del: One_nat_def)
  have e: "edges ?w 65664 = [HRef 65664, HNil]" by (simp add: edges_def cell_at_upd_cell c lost_ring_live start_trial_def lost_ring_cells del: One_nat_def)
  have t: "cell_at (subtracted 1 ?s) 65664 = (start_trial (cell_at lost_ring 65664))\<lparr>trial := 0\<rparr>"
    unfolding subtracted_def lost_ring_discovery
    using w by (simp add: subtract_edges_def e gc_subtract_edge_def start_trial_def lost_ring_cells cell_at_upd_cell RC_IMMORTAL_def del: One_nat_def)
  have "\<not> mark_failed (marking_of 1 ?s)"
    unfolding marking_of_def lost_ring_discovery by (simp add: t mark_drain.simps del: One_nat_def)
  then show ?thesis by (simp add: can_collect_def lost_ring_discovery lost_ring_cells del: One_nat_def)
qed

lemma slots_value: "rc_vector 1 2 start = (HRef 65664, slots)"
proof -
  have "fst (rc_vector 1 2 start) = HRef 65664" by (simp add: evaluate rc_vector_def)
  then show ?thesis by (metis slots_def prod.collapse)
qed

lemma heap_ok_slots: "heap_ok slots {#HRef 65664#}"
proof -
  have "moves start {#} slots {#HRef 65664#}"
    by (rule moves_rc_vector [OF _ slots_value]) (simp add: heap_ok_start)
  from movesD(1) [OF this, of "{#}"] heap_ok_start(1) show ?thesis by simp
qed

lemma heap_ok_ring: "heap_ok ring {#HRef 65664#}"
  unfolding ring_def
  by (rule heap_ok_rc_vector_set [OF heap_ok_slots _ prod.collapse [symmetric]]) (simp add: valid_def slots_live)

lemma heap_ok_lost_ring: "heap_ok lost_ring {#}"
  unfolding lost_ring_def by (rule heap_ok_release) (rule heap_ok_ring)

lemma visited_clear_ring: "visited_clear ring"
  unfolding visited_clear_def
proof
  fix a show "\<not> visited (cell_at ring a)"
    using ring_cells(3) ring_live cell_at_dead [of ring a] by (cases "a = 65664") (auto simp: free_cell_def)
qed

lemma ring_size: "size (held (view ring) {}) < SIZE_MAX"
proof -
  have "holds ring 65664 = [HRef 65664, HNil]" by (simp add: holds_def edges_def ring_cells)
  then show ?thesis by (simp add: held_def ring_cells SIZE_MAX_def)
qed

end
