(* ===== verification/Equality.thy ===== *)
theory Equality
  imports Vectors Scalars
begin

text \<open>
  Structural equality (\<open>src/rc/rc.c\<close>): \<open>scalar_equal\<close>, the work list of \<open>graph_equal\<close> with its set
  of visited pairs, and \<open>rc_equal\<close>, which walks vector-free pairs with a bounded stack first. The
  set of pairs holds the pairs themselves where C stores their index in the work list.
\<close>

type_synonym equal_pair = "handle \<times> handle"

definition scalar_equal :: "mem \<Rightarrow> handle \<Rightarrow> handle \<Rightarrow> bool" where
  "scalar_equal s a b =
     (if a = b then True
      else if a = HNull \<or> b = HNull then False
      else if is_immediate a \<and> is_immediate b then False
      else if rc_type s a \<noteq> rc_type s b then False
      else if rc_type s a = RC_NUMBER
      then let exact_a = rc_number_is_exact_integer s a; exact_b = rc_number_is_exact_integer s b
           in if exact_a \<and> exact_b then rc_integer_value s a = rc_integer_value s b
              else if exact_a \<or> exact_b
              then let i = (if exact_a then a else b); d = (if exact_a then b else a); n = real_value (load_of s d)
                   in isfinite n \<and> int64_range n \<and> is_integral n \<and> dbl_to_int n = rc_integer_value s i
              else dbl_eq (real_value (load_of s a)) (real_value (load_of s b))
      else if rc_type s a = RC_SYMBOL
      then \<not> (handle_ctx s a = handle_ctx s b \<or> hash (load_of s a) \<noteq> hash (load_of s b)) \<and>
           data (load_of s a) = data (load_of s b)
      else rc_type s a = RC_STRING \<and> data (load_of s a) = data (load_of s b))"

definition structural :: "mem \<Rightarrow> handle \<Rightarrow> bool" where
  "structural s a \<longleftrightarrow> is_heap a \<and> (rc_type s a = RC_PAIR \<or> rc_type s a = RC_VECTOR)"

definition equal_hash :: "equal_pair \<Rightarrow> u64" where
  "equal_hash p =
     (let word = (\<lambda>v. case v of HRef a \<Rightarrow> (word_of_nat a :: u64) | HImm w \<Rightarrow> w | _ \<Rightarrow> 0);
          a = drop_bit 3 (word (fst p)); b = drop_bit 3 (word (snd p));
          a = a XOR drop_bit 17 a; b = b XOR drop_bit 13 b
      in (a * 0x9e3779b97f4a7c15) XOR (b * 0xbf58476d1ce4e5b9))"

definition equal_home :: "equal_pair \<Rightarrow> nat \<Rightarrow> nat" where
  "equal_home p n = wrap n (unat (equal_hash p))"

record comparison =
  pairs :: "equal_pair list"
  seen :: "equal_pair option list option"  \<comment> \<open>the hash set, once allocated\<close>
  equal_capacity :: nat
  equal_so_far :: bool
  equal_mem :: mem

definition known_pair :: "equal_pair \<Rightarrow> comparison \<Rightarrow> bool" where
  "known_pair p x =
     (case seen x of
        None \<Rightarrow> p \<in> set (pairs x)
      | Some t \<Rightarrow> (case probe (length t) ((=) p) t (equal_home p (length t)) of
                     Some j \<Rightarrow> t ! j \<noteq> None | None \<Rightarrow> False))"

definition grow_comparison :: "ctxid \<Rightarrow> comparison \<Rightarrow> comparison" where
  \<comment> \<open>double the work list and rebuild the set; the array holds 16-byte pairs\<close>
  "grow_comparison c x =
     (if equal_capacity x > SIZE_MAX div 4 div 8 \<or> equal_capacity x > SIZE_MAX div 2 div 16
      then x\<lparr>equal_so_far := False, equal_mem := rc_error c ''comparison size overflow'' (equal_mem x)\<rparr>
      else let (ok1, s) = library_call (equal_mem x); (ok2, s) = library_call s; next = equal_capacity x * 2
           in if \<not> ok1 \<or> \<not> ok2
              then x\<lparr>equal_so_far := False, equal_mem := rc_error c ''out of memory comparing values'' s\<rparr>
              else x\<lparr>equal_mem := s, equal_capacity := next,
                     seen := Some (fold (put_first_free equal_home) (pairs x) (replicate (next * 2) None))\<rparr>)"

definition add_pair :: "equal_pair \<Rightarrow> comparison \<Rightarrow> comparison" where
  "add_pair p x = x\<lparr>pairs := pairs x @ [p], seen := map_option (put_first_free equal_home p) (seen x)\<rparr>"

definition compare_child :: "ctxid \<Rightarrow> equal_pair \<Rightarrow> comparison \<Rightarrow> comparison" where
  \<comment> \<open>one iteration of the inner loop; a mismatch or an error ends it\<close>
  "compare_child c p x =
     (let s = equal_mem x; (l, r) = p
      in if \<not> equal_so_far x \<or> l = r then x
         else if \<not> structural s l \<or> \<not> structural s r \<or> rc_type s l \<noteq> rc_type s r
         then (if scalar_equal s l r then x else x\<lparr>equal_so_far := False\<rparr>)
         else if known_pair p x then x
         else let x = (if length (pairs x) = equal_capacity x then grow_comparison c x else x)
              in if equal_so_far x then add_pair p x else x)"

definition child_pairs :: "mem \<Rightarrow> handle \<Rightarrow> handle \<Rightarrow> equal_pair list" where
  "child_pairs s a b =
     (case (load_of s a, load_of s b) of
        (VPair h t, VPair k u) \<Rightarrow> [(h, k), (t, u)]
      | (VVector xs _, VVector ys _) \<Rightarrow> zip xs ys
      | _ \<Rightarrow> [])"

definition compare_pair :: "ctxid \<Rightarrow> equal_pair \<Rightarrow> comparison \<Rightarrow> comparison" where
  \<comment> \<open>one iteration of the outer loop\<close>
  "compare_pair c p x =
     (let s = equal_mem x; (a, b) = p
      in if rc_type s a = RC_VECTOR \<and> length (items (load_of s a)) \<noteq> length (items (load_of s b))
         then x\<lparr>equal_so_far := False\<rparr>
         else fold (compare_child c) (child_pairs s a b) x)"

partial_function (option) compare_loop :: "ctxid \<Rightarrow> nat \<Rightarrow> comparison \<Rightarrow> comparison option" where
  "compare_loop c cursor x =
     (if cursor < length (pairs x) \<and> equal_so_far x
      then compare_loop c (cursor + 1) (compare_pair c (pairs x ! cursor) x)
      else Some x)"

definition graph_equal :: "handle \<Rightarrow> handle \<Rightarrow> mem \<Rightarrow> (bool \<times> mem) option" where
  "graph_equal left right s =
     map_option (\<lambda>x. (equal_so_far x, equal_mem x))
       (compare_loop (handle_ctx s left) 0
         \<lparr>pairs = [(left, right)], seen = None, equal_capacity = 32, equal_so_far = True, equal_mem = s\<rparr>)"

datatype verdict = Verdict bool | Graph | Compare handle handle "equal_pair list" nat

definition next_pending :: "equal_pair list \<Rightarrow> nat \<Rightarrow> verdict" where
  "next_pending ps n = (case ps of [] \<Rightarrow> Verdict True | (a, b) # qs \<Rightarrow> Compare a b qs n)"

definition equal_step :: "mem \<Rightarrow> handle \<Rightarrow> handle \<Rightarrow> equal_pair list \<Rightarrow> nat \<Rightarrow> verdict" where
  \<comment> \<open>one iteration of the loop of \<open>rc_equal\<close>: \<open>ps\<close> is the pending stack, \<open>n\<close> the branch count\<close>
  "equal_step s a b ps n =
     (if a = b then next_pending ps n
      else if \<not> structural s a \<or> \<not> structural s b \<or> rc_type s a \<noteq> rc_type s b
      then (if scalar_equal s a b then next_pending ps n else Verdict False)
      else if rc_type s a \<noteq> RC_PAIR \<or> may_reach_vector s a \<or> may_reach_vector s b then Graph
      else let h = head (load_of s a); k = head (load_of s b); t = tail (load_of s a); u = tail (load_of s b)
           in if h = k then Compare t u ps n
              else if structural s h \<and> structural s k \<and> rc_type s h = rc_type s k
              then if h = t \<and> k = u then Compare h k ps n
                   else if length ps = 32 then Graph
                   else if n + 1 = 256 then Graph
                   else Compare h k ((t, u) # ps) (n + 1)
              else if scalar_equal s h k then Compare t u ps n else Verdict False)"

partial_function (option) equal_loop :: "mem \<Rightarrow> handle \<Rightarrow> handle \<Rightarrow> equal_pair list \<Rightarrow> nat \<Rightarrow> bool option option" where
  \<comment> \<open>\<open>Some None\<close> asks for the graph comparison\<close>
  "equal_loop s a b ps n =
     (case equal_step s a b ps n of
        Verdict r \<Rightarrow> Some (Some r)
      | Graph \<Rightarrow> Some None
      | Compare x y qs m \<Rightarrow> equal_loop s x y qs m)"

definition rc_equal :: "handle \<Rightarrow> handle \<Rightarrow> mem \<Rightarrow> (bool \<times> mem) option" where
  "rc_equal left right s =
     (if left = right then Some (True, s)
      else if left = HNull \<or> right = HNull then Some (False, s)
      else if rc_type s left \<noteq> RC_PAIR \<and> rc_type s left \<noteq> RC_VECTOR then Some (scalar_equal s left right, s)
      else if rc_type s left \<noteq> rc_type s right then Some (False, s)
      else Option.bind (equal_loop s left right [] 0)
             (\<lambda>r. case r of Some b \<Rightarrow> Some (b, s) | None \<Rightarrow> graph_equal left right s))"

end
