(* ===== verification/Envs.thy ===== *)
theory Envs
  imports Scalars
begin

text \<open>
  Evaluator frames and the context's small caches (\<open>src/rc/rc.c\<close>): \<open>rc_env_frame\<close> and
  \<open>rc_env_lookup\<close> with the coarse key classes, \<open>rc_builtin_cache_set\<close> and the checks of
  canonical builtins, the dependency certificates of guarded Prolog bodies and of the native
  hash, the evaluator's plan setter and promotion.
\<close>

subsection \<open>Environment frames\<close>

definition env_key_class :: "mem \<Rightarrow> handle \<Rightarrow> nat" where
  \<comment> \<open>from the first byte of the name, which is the terminator for the empty name\<close>
  "env_key_class s key =
     (let first = (case data (load_of s key) of [] \<Rightarrow> 0 | x # _ \<Rightarrow> (of_char x :: nat))
      in if 65 \<le> first \<and> first \<le> 90 then 1 else if 97 \<le> first \<and> first \<le> 122 then 2 else 4)"

definition env_storage_bytes :: "ctxid \<Rightarrow> nat \<Rightarrow> mem \<Rightarrow> nat option \<times> mem" where
  "env_storage_bytes c n s =
     (if n > SIZE_MAX div 2 div PTR_BYTES then (None, rc_error c ''evaluator frame size overflow'' s)
      else (Some (if n > 1 then 2 * n * PTR_BYTES else 0), s))"

definition frame_of :: "mem \<Rightarrow> handle \<Rightarrow> handle list \<Rightarrow> handle list \<Rightarrow> cell \<Rightarrow> cell" where
  \<comment> \<open>the fields of the new frame, with the class msk and the vector flag its loop gathers\<close>
  "frame_of s par ks vs x =
     x\<lparr>load := VEnv par ks vs
         (fold (\<lambda>k m. m OR env_key_class s k) ks (if rc_is_nil par then 0 else key_classes (load_of s par))),
       reaches_vector := may_reach_vector s par \<or> (\<exists>v\<in>set vs. may_reach_vector s v)\<rparr>"

definition env_frame_construct :: "ctxid \<Rightarrow> handle \<Rightarrow> handle list \<Rightarrow> handle list \<Rightarrow> nat \<Rightarrow> mem \<Rightarrow> handle \<times> mem" where
  "env_frame_construct c par ks vs bytes s =
     (if vs = [] then (par, rc_retain par s)
      else let (ok, s) = (if bytes \<noteq> 0 then library_call s else (True, s))
           in if \<not> ok then rc_fail c ''out of memory constructing evaluator frame'' s
              else case allocate c RC_ENV bytes s of
                     (HRef a, s) \<Rightarrow>
                       let s = fold rc_retain (par # vs) s;
                           s = upd_cell a (frame_of s par ks vs) s
                       in (HRef a, upd_ctx c (\<lambda>x. x\<lparr>graph_slots := graph_slots x + 1 + length vs\<rparr>) s)
                   | (v, s) \<Rightarrow> (HNull, s))"

definition rc_env_frame :: "ctxid \<Rightarrow> handle \<Rightarrow> nat \<Rightarrow> handle list option \<Rightarrow> handle list option \<Rightarrow> mem \<Rightarrow> handle \<times> mem" where
  "rc_env_frame c par n ks vs s =
     (if c = 0 \<or> \<not> belongs s c par \<or> (\<not> rc_is_nil par \<and> rc_type s par \<noteq> RC_ENV) \<or> (n \<noteq> 0 \<and> (ks = None \<or> vs = None))
      then rc_fail c ''invalid evaluator frame'' s
      else let (bytes, s) = env_storage_bytes c n s;
               ks = take n (case ks of Some xs \<Rightarrow> xs | None \<Rightarrow> []); vs = take n (case vs of Some xs \<Rightarrow> xs | None \<Rightarrow> [])
           in case bytes of
                None \<Rightarrow> (HNull, s)
              | Some bytes \<Rightarrow>
                  if \<exists>(k, v)\<in>set (zip ks vs). \<not> belongs s c k \<or> rc_type s k \<noteq> RC_SYMBOL \<or> \<not> belongs s c v
                  then rc_fail c ''invalid evaluator frame binding/context'' s
                  else env_frame_construct c par ks vs bytes s)"

definition frame_binding :: "handle list \<Rightarrow> handle list \<Rightarrow> handle \<Rightarrow> handle option" where
  \<comment> \<open>the newest binding of one frame: its loop runs from the last key down\<close>
  "frame_binding ks vs key = map_of (rev (zip ks vs)) key"

text \<open>The chain of parents ends because frames are immutable and older than their children; the
  search takes the number of live cells as its bound.\<close>

fun env_search :: "mem \<Rightarrow> nat \<Rightarrow> handle \<Rightarrow> handle \<Rightarrow> handle option" where
  "env_search s 0 frame key = None"
| "env_search s (Suc n) frame key =
     (if rc_type s frame = RC_ENV
      then case frame_binding (env_keys (load_of s frame)) (env_values (load_of s frame)) key of
             Some v \<Rightarrow> Some v
           | None \<Rightarrow> env_search s n (parent (load_of s frame)) key
      else Some HNull)"

definition cell_count :: "mem \<Rightarrow> nat" where
  "cell_count s = card (fmdom' (cells s))"

definition rc_env_lookup :: "mem \<Rightarrow> handle \<Rightarrow> handle \<Rightarrow> handle option" where
  "rc_env_lookup s env key =
     (if rc_type s key \<noteq> RC_SYMBOL \<or> rc_type s env \<noteq> RC_ENV then Some HNull
      else if key_classes (load_of s env) AND env_key_class s key = 0 then Some HNull
      else env_search s (cell_count s + 1) env key)"

subsection \<open>Canonical builtins\<close>

definition rc_builtin_cache_set :: "ctxid \<Rightarrow> nat \<Rightarrow> handle \<Rightarrow> mem \<Rightarrow> mem" where
  "rc_builtin_cache_set c slot fn s =
     (if c = 0 \<or> slot \<ge> RC_BUILTIN_COUNT \<or> \<not> belongs s c fn \<or> rc_type s fn \<noteq> RC_CLOSURE then s\<lparr>fault := True\<rparr>
      else case fn of
             HRef a \<Rightarrow>
               let old = builtin_roots (ctxs s c) ! slot;
                   s = rc_retain fn s;
                   s = upd_ctx c (\<lambda>x. x\<lparr>builtin_roots := (builtin_roots x)[slot := fn]\<rparr>) s;
                   s = upd_cell a (\<lambda>x. x\<lparr>builtin_slot := slot + 1\<rparr>) s
               in rc_release old s
           | _ \<Rightarrow> s)"

definition rc_builtin_identity_matches :: "mem \<Rightarrow> ctxid \<Rightarrow> nat \<Rightarrow> handle \<Rightarrow> bool" where
  "rc_builtin_identity_matches s c slot fn \<longleftrightarrow>
     c \<noteq> 0 \<and> slot < RC_BUILTIN_COUNT \<and> fn \<noteq> HNull \<and> builtin_roots (ctxs s c) ! slot = fn"

definition builtin_argc :: "nat \<Rightarrow> nat" where
  "builtin_argc slot = (if slot \<ge> RC_BUILTIN_EQ then 2 else 1)"

definition rc_builtin_call_matches :: "mem \<Rightarrow> ctxid \<Rightarrow> nat \<Rightarrow> handle \<Rightarrow> handle list \<Rightarrow> bool" where
  "rc_builtin_call_matches s c slot fn args \<longleftrightarrow>
     c \<noteq> 0 \<and> slot < RC_BUILTIN_COUNT \<and> fn \<noteq> HNull \<and> builtin_roots (ctxs s c) ! slot = fn \<and>
     length args = builtin_argc slot \<and> (\<forall>v\<in>set args. belongs s c v)"

definition rc_builtin_call_slot :: "mem \<Rightarrow> ctxid \<Rightarrow> handle \<Rightarrow> handle list \<Rightarrow> int" where
  "rc_builtin_call_slot s c fn args =
     (case fn of
        HRef a \<Rightarrow>
          if c = 0 \<or> builtin_slot (cell_at s a) = 0 then - 1
          else if rc_type s fn \<noteq> RC_CLOSURE \<or> rc_value_context s a \<noteq> c then - 1
          else let slot = builtin_slot (cell_at s a) - 1
               in if slot \<ge> RC_BUILTIN_COUNT \<or> builtin_roots (ctxs s c) ! slot \<noteq> fn \<or>
                     length args \<noteq> builtin_argc slot \<or> (\<exists>v\<in>set args. \<not> belongs s c v)
                  then - 1 else int slot
      | _ \<Rightarrow> - 1)"

subsection \<open>Dependency certificates\<close>

definition rc_prolog_guard_get :: "mem \<Rightarrow> ctxid \<Rightarrow> handle list \<Rightarrow> nat option" where
  "rc_prolog_guard_get s c ks =
     (let x = ctxs s c
      in if function_generation x = SIZE_MAX \<or> function_generation x \<noteq> prolog_guard_generation x \<or>
            prolog_guard_keys x ! 0 \<noteq> ks ! 0 \<or> prolog_guard_keys x ! 1 \<noteq> ks ! 1 \<or> prolog_guard_keys x ! 2 \<noteq> ks ! 2
         then None else Some (prolog_guard_mask x))"

definition rc_prolog_guard_set :: "ctxid \<Rightarrow> handle list \<Rightarrow> nat \<Rightarrow> mem \<Rightarrow> mem" where
  "rc_prolog_guard_set c ks msk =
     upd_ctx c (\<lambda>x. x\<lparr>prolog_guard_generation := function_generation x, prolog_guard_mask := msk,
       prolog_guard_keys := take 3 ks\<rparr>)"

definition rc_native_hash_certified :: "mem \<Rightarrow> ctxid \<Rightarrow> bool" where
  "rc_native_hash_certified s c \<longleftrightarrow>
     function_generation (ctxs s c) < SIZE_MAX \<and>
     native_hash_generation (ctxs s c) = function_generation (ctxs s c) + 1"

definition rc_native_hash_certify :: "ctxid \<Rightarrow> mem \<Rightarrow> mem" where
  "rc_native_hash_certify c =
     upd_ctx c (\<lambda>x. x\<lparr>native_hash_generation :=
       (if function_generation x < SIZE_MAX then function_generation x + 1 else 0)\<rparr>)"

definition rc_function_slot_borrowed :: "mem \<Rightarrow> ctxid \<Rightarrow> handle \<Rightarrow> handle" where
  "rc_function_slot_borrowed s c symbol =
     (if belongs s c symbol \<and> rc_type s symbol = RC_SYMBOL then function_slot (load_of s symbol) else HNull)"

subsection \<open>Evaluator plans\<close>

definition rc_eval_plan_environment :: "mem \<Rightarrow> handle \<Rightarrow> bool" where
  "rc_eval_plan_environment s env \<longleftrightarrow>
     rc_is_nil env \<or> (rc_type s env = RC_ENV \<and> key_classes (load_of s env) AND 2 = 0)"

definition with_capture :: "nat \<Rightarrow> handle \<Rightarrow> payload \<Rightarrow> payload" where
  "with_capture i v p = (case p of VClosure n w a cs bs \<Rightarrow> VClosure n w a (cs[i := v]) bs | _ \<Rightarrow> p)"

definition with_native :: "native_id \<Rightarrow> payload \<Rightarrow> payload" where
  "with_native n p = (case p of VClosure _ w a cs bs \<Rightarrow> VClosure n w a cs bs | _ \<Rightarrow> p)"

definition rc_eval_plan_promote :: "addr \<Rightarrow> native_id \<Rightarrow> handle \<Rightarrow> mem \<Rightarrow> mem" where
  "rc_eval_plan_promote self prepared plan s =
     (let old = captures (load (cell_at s self)) ! 0;
          s = rc_retain plan s;
          s = upd_cell self (\<lambda>x. x\<lparr>load := with_native prepared (with_capture 0 plan (load x))\<rparr>) s
      in rc_release old s)"

definition rc_eval_plan_set :: "addr \<Rightarrow> handle \<Rightarrow> mem \<Rightarrow> mem" where
  "rc_eval_plan_set a plan s =
     (let (ok, s) = plan_insert a s
      in case plan_entry s a of
           None \<Rightarrow> s
         | Some (i, e) \<Rightarrow>
             if \<not> ok then s
             else let old = plan_value e;
                      s = rc_retain plan s;
                      s = upd_ctx (rc_value_context s a)
                            (\<lambda>x. x\<lparr>plans := (plans x)[i := Some (e\<lparr>plan_value := plan\<rparr>)],
                               graph_slots := graph_slots x + (if plan \<noteq> HNull then 1 else 0) - (if old \<noteq> HNull then 1 else 0)\<rparr>) s
                  in rc_release old s)"

end
