(* ===== verification/Closures.thy ===== *)
theory Closures
  imports Envs
begin

text \<open>
  Closures (\<open>src/rc/rc.c\<close>): the constructors, the shared immortal closures of
  \<open>rc_closure_static\<close>, partial application, tail requests with their completion guards,
  streams, and the symbol bindings. Arrays of arguments that a function consumes are lists; the
  C slots are all NULL afterwards.
\<close>

subsection \<open>Constructors\<close>

definition bit_set :: "nat \<Rightarrow> nat \<Rightarrow> bool" where
  \<comment> \<open>bit \<open>i\<close> of a \<open>uint32_t\<close> msk\<close>
  "bit_set msk i \<longleftrightarrow> i < 32 \<and> odd (msk div 2 ^ i)"

definition masked :: "nat \<Rightarrow> handle list \<Rightarrow> handle list" where
  \<comment> \<open>the handles whose bit is set, in order\<close>
  "masked msk vs = map snd (filter (\<lambda>(i, v). bit_set msk i) (enumerate 0 vs))"

definition unmasked :: "nat \<Rightarrow> handle list \<Rightarrow> handle list" where
  "unmasked msk vs = map snd (filter (\<lambda>(i, v). \<not> bit_set msk i) (enumerate 0 vs))"

definition moved_release :: "handle list \<Rightarrow> nat \<Rightarrow> mem \<Rightarrow> mem" where
  "moved_release vs moved = fold rc_release (masked moved vs)"

definition closure_cell :: "mem \<Rightarrow> native_id \<Rightarrow> native_id \<Rightarrow> nat \<Rightarrow> handle list \<Rightarrow> cell \<Rightarrow> cell" where
  "closure_cell s nv own n cs x =
     x\<lparr>load := VClosure nv own n cs [], reaches_vector := reaches_vector x \<or> (\<exists>v\<in>set cs. may_reach_vector s v)\<rparr>"

definition closure_create_moved ::
  "ctxid \<Rightarrow> nat \<Rightarrow> native_id \<Rightarrow> native_id \<Rightarrow> handle list \<Rightarrow> nat \<Rightarrow> mem \<Rightarrow> handle \<times> mem" where
  "closure_create_moved c n nv own cs moved s =
     (if (nv = 0 \<and> own = 0) \<or> length cs > SIZE_MAX div PTR_BYTES
      then rc_fail c ''invalid closure'' (moved_release cs moved s)
      else if \<exists>v\<in>set cs. \<not> belongs s c v
      then rc_fail c ''invalid closure capture/context'' (moved_release cs moved s)
      else let (ok, s) = (if cs \<noteq> [] then library_call s else (True, s))
           in if \<not> ok then rc_fail c ''out of memory'' (moved_release cs moved s)
              else case allocate c RC_CLOSURE (length cs * PTR_BYTES) s of
                     (HRef a, s) \<Rightarrow>
                       let s = fold rc_retain (unmasked moved cs) s
                       in (HRef a, upd_cell a (closure_cell s nv own n cs) s)
                   | (v, s) \<Rightarrow> (HNull, moved_release cs moved s))"

definition closure_create :: "ctxid \<Rightarrow> nat \<Rightarrow> native_id \<Rightarrow> native_id \<Rightarrow> handle list \<Rightarrow> mem \<Rightarrow> handle \<times> mem" where
  "closure_create c n nv own cs = closure_create_moved c n nv own cs 0"

definition rc_closure_moved :: "ctxid \<Rightarrow> nat \<Rightarrow> native_id \<Rightarrow> handle list \<Rightarrow> nat \<Rightarrow> mem \<Rightarrow> handle \<times> mem" where
  "rc_closure_moved c n own cs moved = closure_create_moved c n 0 own cs moved"

definition rc_closure :: "ctxid \<Rightarrow> nat \<Rightarrow> native_id \<Rightarrow> handle list \<Rightarrow> mem \<Rightarrow> handle \<times> mem" where
  "rc_closure c n nv cs = closure_create c n nv 0 cs"

definition rc_closure_owned :: "ctxid \<Rightarrow> nat \<Rightarrow> native_id \<Rightarrow> handle list \<Rightarrow> mem \<Rightarrow> handle \<times> mem" where
  "rc_closure_owned c n own cs = closure_create c n 0 own cs"

definition certify_second :: "handle \<times> mem \<Rightarrow> handle \<times> mem" where
  \<comment> \<open>\<open>if (v) v->returns_second = true\<close>\<close>
  "certify_second r = (case r of (HRef a, s) \<Rightarrow> (HRef a, upd_cell a (\<lambda>x. x\<lparr>returns_second := True\<rparr>) s) | (v, s) \<Rightarrow> (v, s))"

definition rc_closure_return_second :: "ctxid \<Rightarrow> native_id \<Rightarrow> handle list \<Rightarrow> mem \<Rightarrow> handle \<times> mem" where
  "rc_closure_return_second c nv cs s = certify_second (closure_create c 2 nv 0 cs s)"

definition rc_closure_return_second_owned :: "ctxid \<Rightarrow> native_id \<Rightarrow> handle list \<Rightarrow> mem \<Rightarrow> handle \<times> mem" where
  "rc_closure_return_second_owned c own cs s = certify_second (closure_create c 2 0 own cs s)"

subsection \<open>Shared immortal closures\<close>

definition handle_word :: "handle \<Rightarrow> u64" where
  \<comment> \<open>the pointer bits; nil is a static object whose address the model fixes below the first page\<close>
  "handle_word v = (case v of HNull \<Rightarrow> 0 | HNil \<Rightarrow> 64 | HImm w \<Rightarrow> w | HRef a \<Rightarrow> word_of_nat a)"

definition static_closure_hash :: "mem \<Rightarrow> addr \<Rightarrow> nat" where
  "static_closure_hash s a =
     (case load (cell_at s a) of
        VClosure nv own n cs bs \<Rightarrow>
          let h = (word_of_nat nv :: u64) * 0x9e3779b97f4a7c15;
              h = h XOR (word_of_nat own * 0xbf58476d1ce4e5b9);
              h = h XOR ((push_bit 1 (word_of_nat n) OR (if returns_second (cell_at s a) then 1 else 0)) * 0x94d049bb133111eb);
              h = fold (\<lambda>v h. (h XOR handle_word v) * 0x100000001b3) cs h
          in unat (h XOR drop_bit 29 h)
      | _ \<Rightarrow> 0)"

definition static_closure_same :: "mem \<Rightarrow> addr \<Rightarrow> addr \<Rightarrow> bool" where
  "static_closure_same s a b =
     (case (load (cell_at s a), load (cell_at s b)) of
        (VClosure n w1 ar cs _, VClosure n2 w2 ar2 cs2 _) \<Rightarrow>
          n = n2 \<and> w1 = w2 \<and> ar = ar2 \<and> returns_second (cell_at s a) = returns_second (cell_at s b) \<and> cs = cs2
      | _ \<Rightarrow> False)"

definition static_home :: "mem \<Rightarrow> addr \<Rightarrow> nat \<Rightarrow> nat" where
  "static_home s v capacity = wrap capacity (static_closure_hash s v)"

definition grow_static_closures :: "ctxid \<Rightarrow> mem \<Rightarrow> bool \<times> mem" where
  "grow_static_closures c s =
     (let old = length (static_closures (ctxs s c));
          capacity = (if old \<noteq> 0 then old * 2 mod 2 ^ 64 else 256)
      in if capacity < old \<or> capacity > SIZE_MAX div PTR_BYTES then (False, s)
         else let (ok, s) = library_call s
              in if \<not> ok then (False, s)
                 else (True, upd_ctx c (\<lambda>x. x\<lparr>static_closures := rehash (static_home s) (static_closures x) (replicate capacity None)\<rparr>) s))"

definition static_slot :: "mem \<Rightarrow> ctxid \<Rightarrow> addr \<Rightarrow> nat option" where
  \<comment> \<open>the probe for an equal closure or a free slot\<close>
  "static_slot s c a =
     (let t = static_closures (ctxs s c)
      in probe (length t) (\<lambda>b. static_closure_same s b a) t (static_home s a (length t)))"

definition rc_closure_static :: "handle \<Rightarrow> mem \<Rightarrow> handle \<times> mem" where
  "rc_closure_static v s =
     (case v of
        HRef a \<Rightarrow>
          if \<not> is_counted s v \<or> rc_type s v \<noteq> RC_CLOSURE \<or> bound (load (cell_at s a)) \<noteq> [] then (v, s)
          else if \<exists>x\<in>set (captures (load (cell_at s a))). is_counted s x then (v, s)
          else let c = rc_value_context s a; x = ctxs s c;
                   (ok, s) = (if static_count x \<ge> length (static_closures x) div 2 then grow_static_closures c s else (True, s))
               in if \<not> ok then (v, s)
                  else case static_slot s c a of
                         None \<Rightarrow> (v, s)
                       | Some j \<Rightarrow>
                           (case static_closures (ctxs s c) ! j of
                              Some b \<Rightarrow> (HRef b, rc_release v s)
                            | None \<Rightarrow> (v, upd_cell a (\<lambda>x. x\<lparr>refs := RC_IMMORTAL\<rparr>)
                                (upd_ctx c (\<lambda>x. x\<lparr>static_closures := (static_closures x)[j := Some a],
                                   static_count := static_count x + 1\<rparr>) s)))
      | _ \<Rightarrow> (v, s))"

subsection \<open>Inspection\<close>

definition rc_closure_returns_second :: "mem \<Rightarrow> ctxid \<Rightarrow> handle \<Rightarrow> bool" where
  "rc_closure_returns_second s c v \<longleftrightarrow>
     belongs s c v \<and> rc_type s v = RC_CLOSURE \<and>
     (case v of HRef a \<Rightarrow> returns_second (cell_at s a) | _ \<Rightarrow> False) \<and>
     arity (load_of s v) = 2 \<and> bound (load_of s v) = []"

definition rc_call_values_belong :: "mem \<Rightarrow> ctxid \<Rightarrow> handle \<Rightarrow> handle list \<Rightarrow> bool" where
  "rc_call_values_belong s c fn args \<longleftrightarrow> c \<noteq> 0 \<and> belongs s c fn \<and> (\<forall>v\<in>set args. belongs s c v)"

definition rc_closure_is_native :: "mem \<Rightarrow> handle \<Rightarrow> native_id \<Rightarrow> bool" where
  "rc_closure_is_native s v nv \<longleftrightarrow>
     v \<noteq> HNull \<and> rc_type s v = RC_CLOSURE \<and> native (load_of s v) = nv \<and> owned_native (load_of s v) = 0"

definition rc_native_call_capture :: "mem \<Rightarrow> ctxid \<Rightarrow> handle \<Rightarrow> handle list \<Rightarrow> native_id \<Rightarrow> handle" where
  "rc_native_call_capture s c fn args nv =
     (if c = 0 \<or> \<not> belongs s c fn \<or> rc_type s fn \<noteq> RC_CLOSURE \<or> native (load_of s fn) \<noteq> nv \<or>
         owned_native (load_of s fn) \<noteq> 0 \<or> bound (load_of s fn) \<noteq> [] \<or> arity (load_of s fn) \<noteq> length args \<or>
         captures (load_of s fn) = []
      then HNull
      else if \<exists>v\<in>set args. \<not> belongs s c v then HNull
      else captures (load_of s fn) ! 0)"

definition rc_closure_is_owned_native :: "mem \<Rightarrow> handle \<Rightarrow> native_id \<Rightarrow> bool" where
  "rc_closure_is_owned_native s v own \<longleftrightarrow> v \<noteq> HNull \<and> rc_type s v = RC_CLOSURE \<and> owned_native (load_of s v) = own"

definition rc_compiled_call_matches :: "mem \<Rightarrow> handle \<Rightarrow> native_id \<Rightarrow> nat \<Rightarrow> bool" where
  "rc_compiled_call_matches s v own n \<longleftrightarrow>
     v \<noteq> HNull \<and> rc_type s v = RC_CLOSURE \<and> owned_native (load_of s v) = own \<and> native (load_of s v) = 0 \<and>
     arity (load_of s v) = n \<and> bound (load_of s v) = [] \<and> captures (load_of s v) = []"

definition rc_capture :: "mem \<Rightarrow> handle \<Rightarrow> nat \<Rightarrow> handle" where
  "rc_capture s v i =
     (if v \<noteq> HNull \<and> rc_type s v = RC_CLOSURE \<and> i < length (captures (load_of s v)) then captures (load_of s v) ! i else HNull)"

definition rc_eval_captures :: "ctxid \<Rightarrow> handle \<Rightarrow> native_id \<Rightarrow> nat \<Rightarrow> mem \<Rightarrow> handle list option \<times> mem" where
  "rc_eval_captures c self callback n s =
     (if c = 0 \<or> \<not> belongs s c self \<or> rc_type s self \<noteq> RC_CLOSURE \<or> native (load_of s self) \<noteq> callback \<or>
         owned_native (load_of s self) \<noteq> 0 \<or> arity (load_of s self) \<noteq> n \<or> n > SIZE_MAX - 2 \<or>
         length (captures (load_of s self)) \<noteq> n + 2
      then (None, rc_error c ''eval-kl: invalid interpreted closure captures'' s)
      else (Some (captures (load_of s self)), s))"

definition rc_eval_env_frame :: "ctxid \<Rightarrow> handle \<Rightarrow> native_id \<Rightarrow> nat \<Rightarrow> handle list \<Rightarrow> mem \<Rightarrow> handle \<times> handle \<times> mem" where
  \<comment> \<open>returns the frame, \<open>*body\<close> and the memory\<close>
  "rc_eval_env_frame c self callback n args s =
     (case rc_eval_captures c self callback n s of
        (None, s) \<Rightarrow> (HNull, HNull, s)
      | (Some cs, s) \<Rightarrow>
          (case env_storage_bytes c n s of
             (None, s) \<Rightarrow> (HNull, HNull, s)
           | (Some bytes, s) \<Rightarrow>
               let (env, s) = env_frame_construct c (cs ! 1) (drop 2 cs) args bytes s
               in (env, if env \<noteq> HNull then cs ! 0 else HNull, s)))"

definition rc_compiled_literal_slots :: "mem \<Rightarrow> handle \<Rightarrow> nat \<Rightarrow> nat \<Rightarrow> handle list option" where
  "rc_compiled_literal_slots s self capture first =
     (let v = rc_capture s self capture
      in if rc_type s v \<noteq> RC_VECTOR \<or> first > length (items (load_of s v)) then None
         else Some (drop first (items (load_of s v))))"

definition rc_arity :: "mem \<Rightarrow> handle \<Rightarrow> nat" where
  "rc_arity s v =
     (if v \<noteq> HNull \<and> rc_type s v = RC_CLOSURE then arity (load_of s v) - length (bound (load_of s v)) else 0)"

subsection \<open>Partial application\<close>

definition bind_arguments :: "mem \<Rightarrow> handle list \<Rightarrow> cell \<Rightarrow> cell" where
  \<comment> \<open>the bound arguments of the new closure\<close>
  "bind_arguments s bs x =
     x\<lparr>load := VClosure (native (load x)) (owned_native (load x)) (arity (load x)) (captures (load x)) bs,
       reaches_vector := reaches_vector x \<or> (\<exists>v\<in>set bs. may_reach_vector s v)\<rparr>"

definition partial :: "ctxid \<Rightarrow> handle \<Rightarrow> handle list \<Rightarrow> mem \<Rightarrow> handle \<times> mem" where
  "partial c fn args s =
     (let f = load_of s fn; bs = bound f @ args; n = length bs
      in if n > SIZE_MAX div PTR_BYTES then rc_fail c ''partial application size overflow'' s
         else let (ok, s) = (if n \<noteq> 0 then library_call s else (True, s))
              in if \<not> ok then rc_fail c ''out of memory'' s
                 else case closure_create c (arity f) (native f) (owned_native f) (captures f) s of
                        (HRef a, s) \<Rightarrow>
                          let s = fold rc_retain bs s;
                              s = upd_cell a (bind_arguments s bs) s
                          in (HRef a, upd_ctx c (\<lambda>x. x\<lparr>stats := (stats x)\<lparr>live_bytes := live_bytes (stats x) + n * PTR_BYTES\<rparr>,
                                graph_slots := graph_slots x + n\<rparr>) s)
                      | (v, s) \<Rightarrow> (HNull, s))"

subsection \<open>Tail requests\<close>

definition tail_extra :: "nat \<Rightarrow> nat" where
  \<comment> \<open>three arguments fit in the cell\<close>
  "tail_extra n = (if n > 3 then n * PTR_BYTES else 0)"

definition tail_cell :: "mem \<Rightarrow> handle \<Rightarrow> handle list \<Rightarrow> cell \<Rightarrow> cell" where
  "tail_cell s fn args x =
     x\<lparr>load := VTail fn args 0, reaches_vector := may_reach_vector s fn \<or> (\<exists>v\<in>set args. may_reach_vector s v)\<rparr>"

definition rc_tailcall :: "ctxid \<Rightarrow> handle \<Rightarrow> handle list \<Rightarrow> mem \<Rightarrow> handle \<times> mem" where
  "rc_tailcall c fn args s =
     (if \<not> belongs s c fn \<or> length args > SIZE_MAX div PTR_BYTES then rc_fail c ''invalid application'' s
      else if \<exists>v\<in>set args. \<not> belongs s c v then rc_fail c ''invalid argument/context'' s
      else let (ok, s) = (if length args > 3 then library_call s else (True, s))
           in if \<not> ok then rc_fail c ''out of memory'' s
              else case allocate c RC_TAIL (tail_extra (length args)) s of
                     (HRef a, s) \<Rightarrow>
                       let s = fold rc_retain (fn # args) s;
                           s = upd_cell a (tail_cell s fn args) s
                       in (HRef a, upd_ctx c (\<lambda>x. x\<lparr>graph_slots := graph_slots x + length args\<rparr>) s)
                   | (v, s) \<Rightarrow> (HNull, s))"

definition consume_arguments :: "handle list \<Rightarrow> mem \<Rightarrow> mem" where
  "consume_arguments args = fold rc_release args"

definition rc_tailcall_owned_args :: "ctxid \<Rightarrow> handle \<Rightarrow> handle list \<Rightarrow> mem \<Rightarrow> handle \<times> mem" where
  "rc_tailcall_owned_args c fn args s =
     (if \<not> belongs s c fn \<or> length args > SIZE_MAX div PTR_BYTES
      then rc_fail c ''invalid owned application'' (consume_arguments args s)
      else if \<exists>v\<in>set args. \<not> belongs s c v
      then rc_fail c ''invalid owned argument/context'' (consume_arguments args s)
      else let (ok, s) = (if length args > 3 then library_call s else (True, s))
           in if \<not> ok then rc_fail c ''out of memory'' (consume_arguments args s)
              else case allocate c RC_TAIL (tail_extra (length args)) s of
                     (HRef a, s) \<Rightarrow>
                       let s = rc_retain fn s;
                           s = upd_cell a (tail_cell s fn args) s
                       in (HRef a, upd_ctx c (\<lambda>x. x\<lparr>graph_slots := graph_slots x + length args\<rparr>) s)
                   | (v, s) \<Rightarrow> (HNull, consume_arguments args s))"

definition GUARD_BOOLEAN :: nat where "GUARD_BOOLEAN = 1"
definition GUARD_CONTEXT :: nat where "GUARD_CONTEXT = 2"

definition compose_guards :: "nat \<Rightarrow> nat \<Rightarrow> nat" where
  "compose_guards first after = (if first = 0 then after else if first = GUARD_CONTEXT then first OR after else first)"

definition guard_message :: "string \<Rightarrow> nat \<Rightarrow> string" where
  "guard_message boolean guard = (if guard = GUARD_BOOLEAN then boolean else ''invalid owned argument/context'')"

definition set_guards :: "addr \<Rightarrow> nat \<Rightarrow> mem \<Rightarrow> mem" where
  "set_guards a g = upd_cell a (\<lambda>x. x\<lparr>load := VTail (tail_function (load x)) (argv (load x)) g\<rparr>)"

definition require_guard :: "ctxid \<Rightarrow> handle \<Rightarrow> nat \<Rightarrow> mem \<Rightarrow> handle \<times> mem" where
  "require_guard c v guard s =
     (if v = HNull
      then (HNull, if rc_has_error s c then s else rc_error c (guard_message ''missing boolean result'' guard) s)
      else if belongs s c v \<and> rc_type s v = RC_TAIL
      then case v of
             HRef a \<Rightarrow>
               let before = guards (load (cell_at s a)); after = compose_guards before guard
               in if refs (cell_at s a) > 1 \<and> after \<noteq> before
                  then case rc_tailcall c (tail_function (load (cell_at s a))) (argv (load (cell_at s a))) s of
                         (HRef b, s) \<Rightarrow> (HRef b, set_guards b after (rc_release v s))
                       | (w, s) \<Rightarrow> (HNull, rc_release v s)
                  else (v, set_guards a after s)
           | _ \<Rightarrow> (v, s)
      else if belongs s c v \<and> (guard = GUARD_CONTEXT \<or> rc_is_boolean s v) then (v, s)
      else rc_fail c (guard_message ''boolean expected'' guard) (rc_release v s))"

definition rc_require_boolean :: "ctxid \<Rightarrow> handle \<Rightarrow> mem \<Rightarrow> handle \<times> mem" where
  "rc_require_boolean c v = require_guard c v GUARD_BOOLEAN"

definition rc_eval_require_argument_context :: "ctxid \<Rightarrow> handle \<Rightarrow> mem \<Rightarrow> handle \<times> mem" where
  "rc_eval_require_argument_context c v = require_guard c v GUARD_CONTEXT"

end
