(* ===== verification/Apply.thy ===== *)
theory Apply
  imports Closures Collector
begin

text \<open>
  Bindings, streams and application (\<open>src/rc/rc.c\<close>): symbol slots with retirement of replaced
  functions, \<open>apply_request\<close> with its stack of pending guards and excess arguments,
  \<open>apply_small\<close>, \<open>rc_apply\<close>, \<open>rc_apply_owned_args\<close>, \<open>rc_apply_rooted_owned_args\<close>, \<open>rc_call_mixed\<close>.

  The native callbacks are a parameter: a callback takes the context, the closure, its argument
  slots and the memory, and None means that it does not return. An owned callback also gives
  the final contents of its slots. The loop of \<open>apply_request\<close> may run forever, so it is a
  partial function: None when it, or a callback, does not return.
\<close>

subsection \<open>Callbacks\<close>

record callbacks =
  borrowed_call :: "native_id \<Rightarrow> ctxid \<Rightarrow> handle \<Rightarrow> handle list \<Rightarrow> mem \<Rightarrow> (handle \<times> mem) option"
  owned_call :: "native_id \<Rightarrow> ctxid \<Rightarrow> handle \<Rightarrow> handle list \<Rightarrow> mem \<Rightarrow> (handle \<times> handle list \<times> mem) option"

subsection \<open>Streams\<close>

definition rc_stream_with_direction :: "ctxid \<Rightarrow> nat option \<Rightarrow> bool \<Rightarrow> bool \<Rightarrow> mem \<Rightarrow> handle \<times> mem" where
  "rc_stream_with_direction c file close inp s =
     (case file of
        None \<Rightarrow> rc_fail c ''invalid stream'' s
      | Some f \<Rightarrow>
          (case allocate c RC_STREAM 0 s of
             (HRef a, s) \<Rightarrow> (HRef a, upd_cell a (\<lambda>x. x\<lparr>load := VStream (Some f) close inp\<rparr>) s)
           | (v, s) \<Rightarrow> (v, s)))"

definition STDIN :: nat where "STDIN = 0"

definition rc_stream :: "ctxid \<Rightarrow> nat option \<Rightarrow> bool \<Rightarrow> mem \<Rightarrow> handle \<times> mem" where
  "rc_stream c file close = rc_stream_with_direction c file close (file = Some STDIN)"

definition rc_stream_file :: "mem \<Rightarrow> handle \<Rightarrow> nat option" where
  "rc_stream_file s v = (if v \<noteq> HNull \<and> rc_type s v = RC_STREAM then stream_file (load_of s v) else None)"

definition rc_stream_is_input :: "mem \<Rightarrow> handle \<Rightarrow> bool" where
  "rc_stream_is_input s v \<longleftrightarrow> v \<noteq> HNull \<and> rc_type s v = RC_STREAM \<and> input (load_of s v)"

definition rc_stream_close :: "ctxid \<Rightarrow> handle \<Rightarrow> mem \<Rightarrow> bool \<times> mem" where
  "rc_stream_close c v s =
     (case v of
        HRef a \<Rightarrow>
          if \<not> belongs s c v \<or> rc_type s v \<noteq> RC_STREAM \<or> stream_file (load (cell_at s a)) = None
          then (False, rc_error c ''close expects an open stream'' s)
          else let file = the (stream_file (load (cell_at s a))); close = close_on_release (load (cell_at s a));
                   s = upd_cell a (\<lambda>x. x\<lparr>load := VStream None (close_on_release (load x)) (input (load x))\<rparr>) s
               in if close
                  then let (ok, s) = library_call (s\<lparr>closed_files := file # closed_files s\<rparr>)
                       in if ok then (True, s) else (False, rc_error c ''stream close failed'' s)
                  else (True, s)
      | _ \<Rightarrow> (False, rc_error c ''close expects an open stream'' s))"

subsection \<open>Symbol slots\<close>

definition symbol_slot :: "bool \<Rightarrow> payload \<Rightarrow> handle" where
  "symbol_slot function p = (if function then function_slot p else global_slot p)"

definition with_symbol_slot :: "bool \<Rightarrow> handle \<Rightarrow> payload \<Rightarrow> payload" where
  "with_symbol_slot function v p =
     (case p of VSymbol d h g f \<Rightarrow> if function then VSymbol d h g v else VSymbol d h v f | _ \<Rightarrow> p)"

definition retire_function :: "ctxid \<Rightarrow> handle \<Rightarrow> mem \<Rightarrow> mem" where
  \<comment> \<open>keep a replaced binding until the outermost call returns\<close>
  "retire_function c old s =
     (let x = ctxs s c; push = upd_ctx c (\<lambda>x. x\<lparr>retired_functions := retired_functions x @ [old]\<rparr>)
      in if length (retired_functions x) = retired_capacity x
         then let capacity = (if retired_capacity x \<noteq> 0 then retired_capacity x * 2 else 64);
                  (ok, s) = library_call s
              in if ok then push (upd_ctx c (\<lambda>x. x\<lparr>retired_capacity := capacity\<rparr>) s)
                 else case old of HRef a \<Rightarrow> upd_cell a (\<lambda>x. x\<lparr>refs := RC_IMMORTAL\<rparr>) s | _ \<Rightarrow> s
         else push s)"

definition set_symbol_slot :: "ctxid \<Rightarrow> handle \<Rightarrow> handle \<Rightarrow> bool \<Rightarrow> mem \<Rightarrow> bool \<times> mem" where
  "set_symbol_slot c symbol v function s =
     (case symbol of
        HRef a \<Rightarrow>
          if \<not> belongs s c symbol \<or> rc_type s symbol \<noteq> RC_SYMBOL \<or> \<not> belongs s c v
          then (False, rc_error c ''invalid binding/context'' s)
          else let s = (if function \<and> function_generation (ctxs s c) < SIZE_MAX
                        then upd_ctx c (\<lambda>x. x\<lparr>function_generation := function_generation x + 1\<rparr>) s else s);
                   old = symbol_slot function (load (cell_at s a));
                   s = upd_cell a (\<lambda>x. x\<lparr>load := with_symbol_slot function v (load x)\<rparr>) (rc_retain v s)
               in if function \<and> call_depth (ctxs s c) \<noteq> 0 \<and> is_counted s old \<and> old \<noteq> v
                  then (True, retire_function c old s)
                  else (True, rc_release old s)
      | _ \<Rightarrow> (False, rc_error c ''invalid binding/context'' s))"

definition rc_global_get :: "ctxid \<Rightarrow> handle \<Rightarrow> mem \<Rightarrow> handle \<times> mem" where
  "rc_global_get c symbol s =
     (if \<not> belongs s c symbol \<or> rc_type s symbol \<noteq> RC_SYMBOL then rc_fail c ''value expects a symbol'' s
      else let v = global_slot (load_of s symbol)
           in if v \<noteq> HNull then (v, rc_retain v s)
              else rc_fail c (''variable '' @ the (rc_text s symbol) @ '' has no value'') s)"

definition rc_global_set :: "ctxid \<Rightarrow> handle \<Rightarrow> handle \<Rightarrow> mem \<Rightarrow> bool \<times> mem" where
  "rc_global_set c symbol v s = (if c = 0 then (False, s) else set_symbol_slot c symbol v False s)"

definition rc_function_lookup :: "ctxid \<Rightarrow> handle \<Rightarrow> mem \<Rightarrow> handle \<times> mem" where
  "rc_function_lookup c symbol s =
     (if \<not> belongs s c symbol \<or> rc_type s symbol \<noteq> RC_SYMBOL then (HNull, s)
      else let v = function_slot (load_of s symbol) in (v, rc_retain v s))"

definition undefined_function :: "mem \<Rightarrow> handle \<Rightarrow> string" where
  "undefined_function s symbol =
     ''undefined function '' @ (case rc_text s symbol of Some t \<Rightarrow> t | None \<Rightarrow> ''<non-symbol>'')"

definition rc_function_get :: "ctxid \<Rightarrow> handle \<Rightarrow> mem \<Rightarrow> handle \<times> mem" where
  "rc_function_get c symbol s =
     (let (v, s) = rc_function_lookup c symbol s
      in if v \<noteq> HNull then (v, s) else rc_fail c (undefined_function s symbol) s)"

definition rc_function_get_borrowed :: "ctxid \<Rightarrow> handle \<Rightarrow> mem \<Rightarrow> handle \<times> mem" where
  "rc_function_get_borrowed c symbol s =
     (let v = (if belongs s c symbol \<and> rc_type s symbol = RC_SYMBOL then function_slot (load_of s symbol) else HNull)
      in if v \<noteq> HNull then (v, s) else rc_fail c (undefined_function s symbol) s)"

definition rc_function_set :: "ctxid \<Rightarrow> handle \<Rightarrow> handle \<Rightarrow> mem \<Rightarrow> bool \<times> mem" where
  "rc_function_set c symbol fn s =
     (if fn = HNull \<or> rc_type s fn \<noteq> RC_CLOSURE then (False, rc_error c ''function binding expects a closure'' s)
      else if c = 0 then (False, s) else set_symbol_slot c symbol fn True s)"

subsection \<open>Entering and leaving the runtime\<close>

definition rc_call_enter :: "ctxid \<Rightarrow> mem \<Rightarrow> mem" where
  "rc_call_enter c = upd_ctx c (\<lambda>x. x\<lparr>call_depth := call_depth x + 1\<rparr>)"

definition rc_call_leave :: "ctxid \<Rightarrow> mem \<Rightarrow> mem" where
  "rc_call_leave c s =
     (let s = upd_ctx c (\<lambda>x. x\<lparr>call_depth := call_depth x - 1\<rparr>) s
      in if call_depth (ctxs s c) \<noteq> 0 \<or> retired_functions (ctxs s c) = [] then s
         else let old = retired_functions (ctxs s c)
              in fold rc_release old (upd_ctx c (\<lambda>x. x\<lparr>retired_functions := []\<rparr>) s))"

subsection \<open>Requests\<close>

datatype pending = PGuard nat | PArgs handle

type_synonym pendings = "pending list"

definition fail_request :: "handle \<Rightarrow> handle \<Rightarrow> pendings \<Rightarrow> mem \<Rightarrow> mem" where
  \<comment> \<open>the exit at \<open>fail:\<close>\<close>
  "fail_request request result ps s =
     fold rc_release (map (\<lambda>p. case p of PArgs v \<Rightarrow> v | PGuard _ \<Rightarrow> HNull) ps) (rc_release result (rc_release request s))"

definition note_guards :: "ctxid \<Rightarrow> nat \<Rightarrow> pendings \<Rightarrow> mem \<Rightarrow> pendings option \<times> mem" where
  \<comment> \<open>merge the request's guards with an adjacent pending guard, or push them\<close>
  "note_guards c g ps s =
     (if g = 0 then (Some ps, s)
      else case ps of
             PGuard h # qs \<Rightarrow> (Some (PGuard (compose_guards g h) # qs), s)
           | _ \<Rightarrow> let (ok, s) = library_call s
                  in if ok then (Some (PGuard g # ps), s) else (None, rc_error c ''out of memory'' s))"

definition resolve_target :: "ctxid \<Rightarrow> handle \<Rightarrow> mem \<Rightarrow> (handle \<times> handle) option \<times> mem" where
  \<comment> \<open>the target and the owner that keeps it alive (NULL when the request does)\<close>
  "resolve_target c target s =
     (if rc_type s target = RC_SYMBOL
      then let (v, s) = rc_function_get c target s in if v = HNull then (None, s) else (Some (v, v), s)
      else (Some (target, HNull), s))"

definition take_request_args :: "addr \<Rightarrow> nat \<Rightarrow> mem \<Rightarrow> handle list \<times> mem" where
  \<comment> \<open>move the first arguments out of a request with one owner, leaving nil; share them otherwise\<close>
  "take_request_args r n s =
     (let xs = take n (argv (load (cell_at s r)))
      in if refs (cell_at s r) = 1
         then (xs, upd_cell r (\<lambda>x. x\<lparr>load := VTail (tail_function (load x))
                 (replicate n HNil @ drop n (argv (load x))) (guards (load x))\<rparr>) s)
         else (xs, fold rc_retain xs s))"

definition call_closure :: "callbacks \<Rightarrow> ctxid \<Rightarrow> handle \<Rightarrow> addr \<Rightarrow> nat \<Rightarrow> mem \<Rightarrow> (handle \<times> mem) option" where
  \<comment> \<open>enter the callback of an exactly applied closure with the request's first \<open>needed\<close> arguments\<close>
  "call_closure cb c target r needed s =
     (let f = load_of s target; n = arity f; args = take n (argv (load (cell_at s r)))
      in if n > SIZE_MAX div PTR_BYTES then Some (HNull, rc_error c ''call size overflow'' s)
         else if owned_native f = 0 \<and> bound f = []
         then borrowed_call cb (native f) c target args s
         else let (ok, s) = (if n \<le> 8 then (True, s) else library_call s)
              in if \<not> ok then Some (HNull, rc_error c ''out of memory'' s)
                 else if owned_native f \<noteq> 0
                 then let s = fold rc_retain (bound f) s;
                          (xs, s) = take_request_args r needed s
                      in (case owned_call cb (owned_native f) c target (bound f @ xs) s of
                            None \<Rightarrow> None
                          | Some (v, slots, s) \<Rightarrow> Some (v, consume_arguments slots s))
                 else borrowed_call cb (native f) c target (bound f @ take needed (argv (load (cell_at s r)))) s)"

definition run_guards :: "ctxid \<Rightarrow> nat \<Rightarrow> handle \<Rightarrow> mem \<Rightarrow> handle \<times> mem" where
  "run_guards c g v s =
     (let (v, s) = (if g AND GUARD_CONTEXT \<noteq> 0 then rc_eval_require_argument_context c v s else (v, s))
      in if v \<noteq> HNull \<and> g AND GUARD_BOOLEAN \<noteq> 0 then rc_require_boolean c v s else (v, s))"

fun pop_guards :: "ctxid \<Rightarrow> handle \<Rightarrow> pendings \<Rightarrow> mem \<Rightarrow> handle \<times> pendings \<times> mem" where
  \<comment> \<open>run the pending guards above the next pending arguments\<close>
  "pop_guards c v (PGuard g # ps) s =
     (let (v, s) = run_guards c g v s in if v = HNull then (HNull, ps, s) else pop_guards c v ps s)"
| "pop_guards c v ps s = (v, ps, s)"

datatype step = Done handle mem | Again handle pendings mem

definition refill_request :: "handle \<Rightarrow> handle \<Rightarrow> mem \<Rightarrow> mem" where
  \<comment> \<open>the dummy function edge of the excess arguments takes the owned result\<close>
  "refill_request request v s =
     (case request of
        HRef r \<Rightarrow> upd_cell r (\<lambda>x. x\<lparr>load := VTail v (argv (load x)) (guards (load x)),
                     reaches_vector := reaches_vector x \<or> may_reach_vector s v\<rparr>) s
      | _ \<Rightarrow> s)"

definition after_call :: "ctxid \<Rightarrow> handle \<Rightarrow> pendings \<Rightarrow> mem \<Rightarrow> step" where
  \<comment> \<open>from \<open>if (!result) goto fail\<close> to the end of the loop body; the request is already released\<close>
  "after_call c v ps s =
     (if v = HNull then Done HNull (fail_request HNull HNull ps s)
      else if rc_has_error s c then Done HNull (fail_request HNull HNull ps (rc_release v s))
      else let s = rc_safepoint c s
           in if rc_type s v = RC_TAIL then Again v ps s
              else let (v, ps, s) = pop_guards c v ps s
                   in if v = HNull then Done HNull (fail_request HNull HNull ps s)
                      else case ps of
                             PArgs request # qs \<Rightarrow> Again request qs (refill_request request v s)
                           | _ \<Rightarrow> Done v s)"

definition push_excess :: "ctxid \<Rightarrow> addr \<Rightarrow> nat \<Rightarrow> pendings \<Rightarrow> mem \<Rightarrow> pendings option \<times> mem" where
  \<comment> \<open>arguments beyond the arity wait in a request of their own\<close>
  "push_excess c r needed ps s =
     (let xs = argv (load (cell_at s r))
      in if length xs > needed
         then let (ok, s) = library_call s
              in if \<not> ok then (None, rc_error c ''out of memory'' s)
                 else let (v, s) = rc_tailcall c HNil (drop needed xs) s
                      in if v = HNull then (None, s) else (Some (PArgs v # ps), s)
         else (Some ps, s))"

definition request_step ::
  "callbacks \<Rightarrow> ctxid \<Rightarrow> handle \<Rightarrow> pendings \<Rightarrow> mem \<Rightarrow> step option" where
  \<comment> \<open>one iteration of the loop of \<open>apply_request\<close>\<close>
  "request_step cb c request ps s =
     (case request of
        HRef r \<Rightarrow>
          (case note_guards c (guards (load (cell_at s r))) ps s of
             (None, s) \<Rightarrow> Some (Done HNull (fail_request request HNull ps s))
           | (Some ps, s) \<Rightarrow>
               (case resolve_target c (tail_function (load (cell_at s r))) s of
                  (None, s) \<Rightarrow> Some (Done HNull (fail_request request HNull ps s))
                | (Some (target, resolved), s) \<Rightarrow>
                    if rc_type s target \<noteq> RC_CLOSURE
                    then Some (Done HNull (fail_request request HNull ps
                           (rc_release resolved (rc_error c ''attempt to apply a non-function'' s))))
                    else let needed = rc_arity s target; xs = argv (load (cell_at s r))
                         in if length xs < needed
                            then let (v, s) = partial c target xs s
                                 in Some (after_call c v ps (rc_release request (rc_release resolved s)))
                            else (case push_excess c r needed ps s of
                                    (None, s) \<Rightarrow> Some (Done HNull (fail_request request HNull ps (rc_release resolved s)))
                                  | (Some ps, s) \<Rightarrow>
                                      map_option (\<lambda>(v, s). after_call c v ps (rc_release request (rc_release resolved s)))
                                        (call_closure cb c target r needed s))))
      | _ \<Rightarrow> Some (Done HNull (fail_request HNull HNull ps s)))"

partial_function (option) request_loop ::
  "callbacks \<Rightarrow> ctxid \<Rightarrow> handle \<Rightarrow> pendings \<Rightarrow> mem \<Rightarrow> (handle \<times> mem) option" where
  "request_loop cb c request ps s =
     Option.bind (request_step cb c request ps s)
       (\<lambda>x. case x of Done v s \<Rightarrow> Some (v, s) | Again request ps s \<Rightarrow> request_loop cb c request ps s)"

definition apply_request ::
  "callbacks \<Rightarrow> ctxid \<Rightarrow> handle \<Rightarrow> mem \<Rightarrow> (handle \<times> mem) option" where
  "apply_request cb c request s = request_loop cb c request [] s"

subsection \<open>Calls\<close>

definition finish_call :: "callbacks \<Rightarrow> ctxid \<Rightarrow> handle \<Rightarrow> mem \<Rightarrow> (handle \<times> mem) option" where
  \<comment> \<open>the common end of direct calls, after the arguments are consumed\<close>
  "finish_call cb c v s =
     (if v = HNull then Some (HNull, s)
      else if rc_has_error s c then Some (HNull, rc_release v s)
      else let s = rc_safepoint c s
           in if rc_type s v = RC_TAIL then apply_request cb c v s else Some (v, s))"

definition rc_compiled_call_complete :: "callbacks \<Rightarrow> ctxid \<Rightarrow> handle \<Rightarrow> handle list \<Rightarrow> mem \<Rightarrow> (handle \<times> mem) option" where
  "rc_compiled_call_complete cb c v args s = finish_call cb c v (consume_arguments args s)"

definition small_target :: "mem \<Rightarrow> ctxid \<Rightarrow> handle \<Rightarrow> handle list \<Rightarrow> handle option" where
  \<comment> \<open>the closure of an exact small call, None when the general path must be taken\<close>
  "small_target s c fn args =
     (if length args > 8 \<or> \<not> belongs s c fn \<or> (\<exists>v\<in>set args. \<not> belongs s c v) then None
      else let target = (if rc_type s fn = RC_SYMBOL then function_slot (load_of s fn) else fn)
           in if target = HNull \<or> rc_type s target \<noteq> RC_CLOSURE \<or> bound (load_of s target) \<noteq> [] \<or>
                 length args \<noteq> arity (load_of s target)
              then None else Some target)"

definition enter_closure :: "callbacks \<Rightarrow> ctxid \<Rightarrow> handle \<Rightarrow> handle list \<Rightarrow> mem \<Rightarrow> (handle \<times> handle list \<times> mem) option" where
  \<comment> \<open>call the closure's callback on these slots; a borrowed callback leaves them alone\<close>
  "enter_closure cb c target args s =
     (if owned_native (load_of s target) \<noteq> 0
      then owned_call cb (owned_native (load_of s target)) c target args s
      else map_option (\<lambda>(v, s). (v, args, s)) (borrowed_call cb (native (load_of s target)) c target args s))"

definition apply_small :: "callbacks \<Rightarrow> ctxid \<Rightarrow> handle \<Rightarrow> handle list \<Rightarrow> bool \<Rightarrow> mem \<Rightarrow> (bool \<times> handle \<times> mem) option" where
  \<comment> \<open>\<open>owned_slots\<close>: the slots are the caller's own references; the first result is \<open>*handled\<close>\<close>
  "apply_small cb c fn args owned_slots s =
     (case small_target s c fn args of
        None \<Rightarrow> Some (False, HNull, s)
      | Some target \<Rightarrow>
          let s = rc_retain target s;
              s = (if owned_slots then s else fold rc_retain args s)
          in Option.bind (enter_closure cb c target args s)
               (\<lambda>(v, slots, s). map_option (\<lambda>(v, s). (True, v, s))
                  (finish_call cb c v (rc_release target (consume_arguments slots s)))))"

definition rc_apply :: "callbacks \<Rightarrow> ctxid \<Rightarrow> handle \<Rightarrow> handle list \<Rightarrow> mem \<Rightarrow> (handle \<times> mem) option" where
  "rc_apply cb c fn args s =
     (let s = (if c \<noteq> 0 then rc_call_enter c s else s)
      in Option.bind (apply_small cb c fn args False s)
           (\<lambda>(handled, v, s).
              Option.bind (if handled then Some (v, s) else let (r, s) = rc_tailcall c fn args s in apply_request cb c r s)
                (\<lambda>(v, s). Some (v, if c \<noteq> 0 then rc_call_leave c s else s))))"

definition rc_apply_owned_args :: "callbacks \<Rightarrow> ctxid \<Rightarrow> handle \<Rightarrow> handle list \<Rightarrow> mem \<Rightarrow> (handle \<times> mem) option" where
  "rc_apply_owned_args cb c fn args s =
     (let s = (if c \<noteq> 0 then rc_call_enter c s else s)
      in Option.bind (apply_small cb c fn args True s)
           (\<lambda>(handled, v, s).
              Option.bind (if handled then Some (v, s) else let (r, s) = rc_tailcall_owned_args c fn args s in apply_request cb c r s)
                (\<lambda>(v, s). Some (v, if c \<noteq> 0 then rc_call_leave c s else s))))"

definition exact_closure :: "mem \<Rightarrow> ctxid \<Rightarrow> handle \<Rightarrow> handle list \<Rightarrow> bool" where
  \<comment> \<open>the guard of the private call entries\<close>
  "exact_closure s c fn args \<longleftrightarrow>
     rc_call_values_belong s c fn args \<and> rc_type s fn = RC_CLOSURE \<and> bound (load_of s fn) = [] \<and>
     arity (load_of s fn) = length args"

definition rc_apply_rooted_owned_args :: "callbacks \<Rightarrow> ctxid \<Rightarrow> handle \<Rightarrow> handle list \<Rightarrow> mem \<Rightarrow> (handle \<times> mem) option" where
  "rc_apply_rooted_owned_args cb c fn args s =
     (if \<not> exact_closure s c fn args then rc_apply_owned_args cb c fn args s
      else Option.bind (enter_closure cb c fn args (rc_call_enter c s))
             (\<lambda>(v, slots, s). map_option (\<lambda>(v, s). (v, rc_call_leave c s)) (rc_compiled_call_complete cb c v slots s)))"

definition rc_args_retain :: "handle list \<Rightarrow> nat \<Rightarrow> mem \<Rightarrow> mem" where
  "rc_args_retain args msk = fold rc_retain (masked msk args)"

definition args_forget :: "handle list \<Rightarrow> nat \<Rightarrow> handle list" where
  "args_forget args msk = map (\<lambda>(i, v). if bit_set msk i then HNull else v) (enumerate 0 args)"

definition rc_call_mixed :: "callbacks \<Rightarrow> ctxid \<Rightarrow> handle \<Rightarrow> handle list \<Rightarrow> nat \<Rightarrow> mem \<Rightarrow> (handle \<times> mem) option" where
  "rc_call_mixed cb c fn args borrowed s =
     (if \<not> exact_closure s c fn args then rc_apply_owned_args cb c fn args (rc_args_retain args borrowed s)
      else if owned_native (load_of s fn) \<noteq> 0
      then Option.bind (owned_call cb (owned_native (load_of s fn)) c fn args (rc_args_retain args borrowed s))
             (\<lambda>(v, slots, s). rc_compiled_call_complete cb c v slots s)
      else Option.bind (borrowed_call cb (native (load_of s fn)) c fn args s)
             (\<lambda>(v, s). rc_compiled_call_complete cb c v (args_forget args borrowed) s))"

end
