(* ===== verification/Reader.thy ===== *)
theory Reader
  imports Scalars Pairs
begin

text \<open>
  The KLambda reader (\<open>src/rc/read.c\<close>). The source pointer is the string that is left to read; a
  C string ends at its first zero byte. Nested lists recurse through \<open>read_form\<close> and
  \<open>read_items\<close>; the fuel bounds the calls, and \<open>None\<close> would mean that it ran out. Every call but
  the last consumes a character, so one more than the length of the input is enough.

  \<open>strtod\<close> and \<open>strtoll\<close> are the C library's, used on decimal tokens only: the nearest double
  with the range error when it overflows or a nonzero value becomes zero, and the integer when
  the whole token is one that fits in 64 bits.
\<close>

subsection \<open>Characters\<close>

definition c_isspace :: "char \<Rightarrow> bool" where
  "c_isspace x \<longleftrightarrow> x \<in> {CHR 0x20, CHR 0x09, CHR 0x0A, CHR 0x0B, CHR 0x0C, CHR 0x0D}"

definition c_isdigit :: "char \<Rightarrow> bool" where
  "c_isdigit x \<longleftrightarrow> (48::nat) \<le> of_char x \<and> of_char x \<le> (57::nat)"

definition digit_value :: "char \<Rightarrow> nat" where
  "digit_value x = of_char x - 48"

definition skip_space :: "string \<Rightarrow> string" where
  \<comment> \<open>\<open>whitespace\<close>\<close>
  "skip_space = dropWhile c_isspace"

definition is_sign :: "char \<Rightarrow> bool" where
  "is_sign x \<longleftrightarrow> x = CHR ''+'' \<or> x = CHR ''-''"

definition skip_sign :: "string \<Rightarrow> string" where
  "skip_sign p = (case p of x # r \<Rightarrow> if is_sign x then r else p | [] \<Rightarrow> [])"

definition decimal_token :: "string \<Rightarrow> bool" where
  "decimal_token p =
     (let p = skip_sign p;
          whole = takeWhile c_isdigit p; p = dropWhile c_isdigit p;
          (fraction, p) = (case p of
              x # r \<Rightarrow> if x = CHR ''.'' then (takeWhile c_isdigit r, dropWhile c_isdigit r) else ([], p)
            | [] \<Rightarrow> ([], p))
      in if whole = [] \<and> fraction = [] then False
         else case p of
                x # r \<Rightarrow>
                  if x = CHR ''e'' \<or> x = CHR ''E''
                  then let r = skip_sign r
                       in (case r of d # _ \<Rightarrow> c_isdigit d | [] \<Rightarrow> False) \<and> dropWhile c_isdigit r = []
                  else False
              | [] \<Rightarrow> True)"

definition hex_digit :: "char \<Rightarrow> nat option" where
  "hex_digit x =
     (let c = (of_char x :: nat)
      in if 48 \<le> c \<and> c \<le> 57 then Some (c - 48)
         else if 97 \<le> c \<and> c \<le> 102 then Some (c - 97 + 10)
         else if 65 \<le> c \<and> c \<le> 70 then Some (c - 65 + 10)
         else None)"

subsection \<open>The number functions of the C library\<close>

definition digits_value :: "string \<Rightarrow> nat" where
  "digits_value ds = fold (\<lambda>d n. 10 * n + digit_value d) ds 0"

definition is_negative :: "string \<Rightarrow> bool" where
  "is_negative p = (case p of x # _ \<Rightarrow> x = CHR ''-'' | [] \<Rightarrow> False)"

definition decimal_parts :: "string \<Rightarrow> nat \<times> int" where
  \<comment> \<open>mantissa and power of ten of a decimal token, without its sign\<close>
  "decimal_parts p =
     (let p = skip_sign p;
          whole = takeWhile c_isdigit p; p = dropWhile c_isdigit p;
          (fraction, p) = (case p of
              x # r \<Rightarrow> if x = CHR ''.'' then (takeWhile c_isdigit r, dropWhile c_isdigit r) else ([], p)
            | [] \<Rightarrow> ([], p));
          e = (case p of
                 x # r \<Rightarrow> (if is_negative r then - 1 else 1) * int (digits_value (takeWhile c_isdigit (skip_sign r)))
               | [] \<Rightarrow> 0)
      in (digits_value (whole @ fraction), e - int (length fraction)))"

definition strtod :: "string \<Rightarrow> dbl" where
  "strtod p = (let (m, e) = decimal_parts p in round_ratio (is_negative p) (m * 10 ^ nat e) (10 ^ nat (- e)))"

definition strtod_range_error :: "string \<Rightarrow> bool" where
  "strtod_range_error p \<longleftrightarrow> fst (decimal_parts p) \<noteq> 0 \<and> (\<not> isfinite (strtod p) \<or> dbl_eq (strtod p) (Fin False 0 0))"

definition strtoll :: "string \<Rightarrow> int option" where
  \<comment> \<open>the value when the whole token is an integer and no range error is reported\<close>
  "strtoll p =
     (let ds = skip_sign p; n = (if is_negative p then - int (digits_value ds) else int (digits_value ds))
      in if ds \<noteq> [] \<and> list_all c_isdigit ds \<and> - (2 ^ 63) \<le> n \<and> n < 2 ^ 63 then Some n else None)"

subsection \<open>Escaped strings\<close>

fun scan_string :: "string \<Rightarrow> (string \<times> string) option" where
  \<comment> \<open>the raw bytes up to the closing quote, and what follows it\<close>
  "scan_string [] = None"
| "scan_string (x # r) =
     (if x = CHR 0x22 then Some ([], r)
      else if x = CHR 0x5C
      then case r of [] \<Rightarrow> None | y # q \<Rightarrow> map_option (\<lambda>(b, t). (x # y # b, t)) (scan_string q)
      else map_option (\<lambda>(b, t). (x # b, t)) (scan_string r))"

definition simple_escape :: "char \<Rightarrow> char option" where
  "simple_escape x =
     (if x = CHR ''n'' then Some (CHR 0x0A) else if x = CHR ''r'' then Some (CHR 0x0D)
      else if x = CHR ''t'' then Some (CHR 0x09) else if x = CHR ''b'' then Some (CHR 0x08)
      else if x = CHR ''f'' then Some (CHR 0x0C)
      else if x = CHR 0x5C \<or> x = CHR 0x22 then Some x else None)"

fun decode_escapes :: "string \<Rightarrow> string option" where
  "decode_escapes [] = Some []"
| "decode_escapes (x # r) =
     (if x \<noteq> CHR 0x5C then map_option ((#) x) (decode_escapes r)
      else case r of
             [] \<Rightarrow> None
           | y # q \<Rightarrow>
               if y = CHR ''x''
               then (case q of
                       h # l # t \<Rightarrow>
                         (case (hex_digit h, hex_digit l) of
                            (Some a, Some b) \<Rightarrow> map_option ((#) (char_of (a * 16 + b))) (decode_escapes t)
                          | _ \<Rightarrow> None)
                     | _ \<Rightarrow> None)
               else case simple_escape y of
                      Some z \<Rightarrow> map_option ((#) z) (decode_escapes q)
                    | None \<Rightarrow> None)"

definition escaped_string :: "ctxid \<Rightarrow> string \<Rightarrow> mem \<Rightarrow> handle \<times> string \<times> mem" where
  \<comment> \<open>the input after the opening quote; on an unclosed string the pointer stays there\<close>
  "escaped_string c p s =
     (case scan_string p of
        None \<Rightarrow> (HNull, p, rc_error c ''KLambda escaped reader: unclosed string'' s)
      | Some (raw, rest) \<Rightarrow>
          let (ok, s) = library_call s
          in if \<not> ok then (HNull, p, rc_error c ''KLambda escaped reader: out of memory'' s)
             else case decode_escapes raw of
                    Some bytes \<Rightarrow> let (v, s) = rc_string_n c (Some bytes) s in (v, rest, s)
                  | None \<Rightarrow> (HNull, rest, rc_error c ''KLambda escaped reader: invalid byte escape'' s))"

subsection \<open>Forms\<close>

fun build_list :: "ctxid \<Rightarrow> handle list \<Rightarrow> handle \<Rightarrow> mem \<Rightarrow> handle \<times> mem" where
  \<comment> \<open>cons the items, the last first, consuming them\<close>
  "build_list c [] result s = (result, s)"
| "build_list c (x # xs) result s =
     (let (v, s) = rc_cons c x result s; s = rc_release result (rc_release x s)
      in if v = HNull then (HNull, fold rc_release xs s) else build_list c xs v s)"

definition delimiter :: "char \<Rightarrow> bool" where
  "delimiter x \<longleftrightarrow> c_isspace x \<or> x = CHR ''('' \<or> x = CHR '')'' \<or> x = CHR 0x22"

definition read_token :: "ctxid \<Rightarrow> string \<Rightarrow> mem \<Rightarrow> handle \<times> string \<times> mem" where
  \<comment> \<open>a number or a symbol\<close>
  "read_token c p s =
     (let token = takeWhile (\<lambda>x. \<not> delimiter x) p; rest = dropWhile (\<lambda>x. \<not> delimiter x) p;
          (ok, s) = library_call s
      in if \<not> ok then (HNull, rest, rc_error c ''KLambda reader: out of memory'' s)
         else let (v, s) =
                (if decimal_token token \<and> strtod_range_error token
                 then rc_fail c (''KLambda reader: number out of range: '' @ token) s
                 else if decimal_token token
                 then (case strtoll token of Some n \<Rightarrow> rc_integer c n s | None \<Rightarrow> rc_number c (strtod token) s)
                 else rc_symbol c (Some token) s)
              in (v, rest, s))"

definition read_string :: "ctxid \<Rightarrow> string \<Rightarrow> mem \<Rightarrow> handle \<times> string \<times> mem" where
  \<comment> \<open>an unescaped string, after the opening quote\<close>
  "read_string c p s =
     (let text = takeWhile (\<lambda>x. x \<noteq> CHR 0x22) p
      in case dropWhile (\<lambda>x. x \<noteq> CHR 0x22) p of
           [] \<Rightarrow> (HNull, [], rc_error c ''KLambda reader: unclosed string'' s)
         | _ # rest \<Rightarrow> let (v, s) = rc_string_n c (Some text) s in (v, rest, s))"

definition read_escaped_symbol :: "ctxid \<Rightarrow> string \<Rightarrow> mem \<Rightarrow> handle \<times> string \<times> mem" where
  "read_escaped_symbol c p s =
     (let (text, p, s) = escaped_string c p s
      in if text = HNull then (HNull, p, s)
         else let (v, s) =
                (if CHR 0x00 \<in> set (data (load_of s text))
                 then rc_fail c ''KLambda escaped reader: symbol contains zero byte'' s
                 else rc_symbol c (rc_text s text) s)
              in (v, p, rc_release text s))"

definition sym_prefix :: string where
  "sym_prefix = ''#sym'' @ [CHR 0x22]"

definition push_item :: "ctxid \<Rightarrow> handle \<Rightarrow> nat \<Rightarrow> nat \<Rightarrow> mem \<Rightarrow> nat option \<times> mem" where
  \<comment> \<open>the capacity with room for one more item, None after an error\<close>
  "push_item c item n cap s =
     (if n = cap
      then if cap > SIZE_MAX div 2 div PTR_BYTES then (None, rc_error c ''KLambda reader: list too large'' (rc_release item s))
           else let (ok, s) = library_call s
                in if ok then (Some (if cap \<noteq> 0 then cap * 2 else 16), s)
                   else (None, rc_error c ''KLambda reader: out of memory'' (rc_release item s))
      else (Some cap, s))"

fun read_form :: "nat \<Rightarrow> ctxid \<Rightarrow> string \<Rightarrow> nat \<Rightarrow> bool \<Rightarrow> mem \<Rightarrow> (handle \<times> string \<times> mem) option"
  and read_items :: "nat \<Rightarrow> ctxid \<Rightarrow> string \<Rightarrow> nat \<Rightarrow> bool \<Rightarrow> handle list \<Rightarrow> nat \<Rightarrow> mem \<Rightarrow> (bool \<times> handle list \<times> string \<times> mem) option" where
  "read_form 0 c p depth escaped s = None"
| "read_form (Suc k) c p depth escaped s =
     (case skip_space p of
        [] \<Rightarrow> Some (HNull, [], s)
      | x # r \<Rightarrow>
          if depth > 2048 then Some (HNull, x # r, rc_error c ''KLambda reader: nesting exceeds 2048'' s)
          else if x = CHR '')'' then Some (HNull, x # r, rc_error c (''KLambda reader: unexpected '' @ [CHR 0x27, CHR '')'', CHR 0x27]) s)
          else if x = CHR ''(''
          then (case read_items k c r depth escaped [] 0 s of
                  None \<Rightarrow> None
                | Some (closed, its, p, s) \<Rightarrow>
                    if closed then let (v, s) = build_list c its HNil s in Some (v, p, s)
                    else Some (HNull, p, fold rc_release its s))
          else if escaped \<and> take 5 (x # r) = sym_prefix then Some (read_escaped_symbol c (drop 5 (x # r)) s)
          else if x = CHR 0x22
          then Some (if escaped then escaped_string c r s else read_string c r s)
          else Some (read_token c (x # r) s))"
| "read_items 0 c p depth escaped its cap s = None"
| "read_items (Suc k) c p depth escaped its cap s =
     (case skip_space p of
        [] \<Rightarrow> Some (False, its, [], rc_error c ''KLambda reader: unclosed list'' s)
      | x # r \<Rightarrow>
          if x = CHR '')'' then Some (True, its, r, s)
          else case read_form k c (x # r) (depth + 1) escaped s of
                 None \<Rightarrow> None
               | Some (item, p, s) \<Rightarrow>
                   if item = HNull then Some (False, its, p, s)
                   else case push_item c item (length its) cap s of
                          (None, s) \<Rightarrow> Some (False, its, p, s)
                        | (Some cap, s) \<Rightarrow> read_items k c p depth escaped (item # its) cap s)"

definition reader_fuel :: "string \<Rightarrow> nat" where
  "reader_fuel p = 2 * length p + 2"

definition rc_read :: "ctxid \<Rightarrow> string option \<Rightarrow> mem \<Rightarrow> (handle \<times> string \<times> mem) option" where
  "rc_read c source s =
     (case source of
        None \<Rightarrow> Some (HNull, [], rc_error c ''KLambda reader: null source'' s)
      | Some p \<Rightarrow> read_form (reader_fuel (c_string p)) c (c_string p) 0 False s)"

definition rc_read_escaped :: "ctxid \<Rightarrow> string option \<Rightarrow> mem \<Rightarrow> (handle \<times> string \<times> mem) option" where
  "rc_read_escaped c source s =
     (case source of
        None \<Rightarrow> Some (HNull, [], rc_error c ''KLambda escaped reader: null source'' s)
      | Some p \<Rightarrow> read_form (reader_fuel (c_string p)) c (c_string p) 0 True s)"

end
