(* ===== verification/Printing.thy ===== *)
theory Printing
  imports Equality Apply Reader
begin

text \<open>
  Text of atoms (\<open>src/rc/primitives.c\<close>): \<open>atom_string\<close>, \<open>print_value\<close>, \<open>rc_print\<close>, over the two
  conversions of \<open>snprintf\<close> they use, \<open>PRId64\<close> and \<open>%.15g\<close>, and \<open>%p\<close>.
\<close>

subsection \<open>Conversions of printf\<close>

fun digits_of :: "nat \<Rightarrow> string" where
  "digits_of n = (if n < 10 then [char_of (48 + n)] else digits_of (n div 10) @ [char_of (48 + n mod 10)])"

declare digits_of.simps [simp del]

definition show_int :: "int \<Rightarrow> string" where
  \<comment> \<open>\<open>PRId64\<close>\<close>
  "show_int n = (if n < 0 then CHR ''-'' # digits_of (nat (- n)) else digits_of (nat n))"

fun hex_of :: "nat \<Rightarrow> string" where
  "hex_of n =
     (let d = n mod 16; x = (if d < 10 then char_of (48 + d) else char_of (87 + d))
      in if n < 16 then [x] else hex_of (n div 16) @ [x])"

declare hex_of.simps [simp del]

definition show_pointer :: "addr \<Rightarrow> string" where
  \<comment> \<open>\<open>%p\<close>\<close>
  "show_pointer a = ''0x'' @ hex_of a"

definition round_half_even :: "nat \<Rightarrow> nat \<Rightarrow> nat" where
  "round_half_even n d = (let q = n div d; r = n mod d in if d < 2 * r \<or> (2 * r = d \<and> odd q) then q + 1 else q)"

text \<open>The decimal exponent \<open>x\<close> with \<open>10^x \<le> n/d < 10^(x+1)\<close>, from the lengths of the numerals.\<close>

definition decimal_exponent :: "nat \<Rightarrow> nat \<Rightarrow> int" where
  "decimal_exponent n d =
     (let k = int (length (digits_of n)) - int (length (digits_of d))
      in if d * 10 ^ nat k \<le> n * 10 ^ nat (- k) then k else k - 1)"

definition strip_zeros :: "string \<Rightarrow> string" where
  "strip_zeros ds = rev (dropWhile (\<lambda>x. x = CHR ''0'') (rev ds))"

definition point :: "string \<Rightarrow> string" where
  \<comment> \<open>the fraction with its point, nothing when it is empty\<close>
  "point ds = (if ds = [] then [] else CHR ''.'' # ds)"

definition show_exponent :: "int \<Rightarrow> string" where
  "show_exponent x =
     (let ds = digits_of (nat \<bar>x\<bar>)
      in CHR ''e'' # (if x < 0 then CHR ''-'' else CHR ''+'') # (if length ds < 2 then CHR ''0'' # ds else ds))"

definition show_g15 :: "dbl \<Rightarrow> string" where
  \<comment> \<open>\<open>%.*g\<close> with \<open>DBL_DIG = 15\<close>\<close>
  "show_g15 v =
     (case v of
        NaN \<Rightarrow> ''nan''
      | Inf s \<Rightarrow> (if s then ''-inf'' else ''inf'')
      | Fin s m e \<Rightarrow>
          let sign = (if s then ''-'' else [])
          in if m = 0 then sign @ ''0''
             else let n = m * 2 ^ nat e; d = 2 ^ nat (- e);
                      x = decimal_exponent n d;
                      q = round_half_even (n * 10 ^ nat (14 - x)) (d * 10 ^ nat (x - 14));
                      (q, x) = (if q = 10 ^ 15 then (10 ^ 14, x + 1) else (q, x));
                      ds = digits_of q
                  in if x < -4 \<or> 15 \<le> x
                     then sign @ take 1 ds @ point (strip_zeros (drop 1 ds)) @ show_exponent x
                     else if 0 \<le> x
                     then sign @ take (nat x + 1) ds @ point (strip_zeros (drop (nat x + 1) ds))
                     else sign @ ''0'' @ point (replicate (nat (- x) - 1) (CHR ''0'') @ strip_zeros ds))"

definition show_double :: "dbl \<Rightarrow> string" where
  \<comment> \<open>an integral double prints with \<open>.0\<close>\<close>
  "show_double v =
     (let buf = show_g15 v
      in if CHR ''.'' \<notin> set buf \<and> CHR ''e'' \<notin> set buf \<and> isfinite v then buf @ ''.0'' else buf)"

definition show_number :: "mem \<Rightarrow> handle \<Rightarrow> string" where
  "show_number s v =
     (if rc_number_is_exact_integer s v then show_int (rc_integer_value s v) else show_double (rc_number_value s v))"

fun handle_addr :: "handle \<Rightarrow> addr" where
  "handle_addr (HRef a) = a"
| "handle_addr _ = 0"

definition quoted :: "string \<Rightarrow> string" where
  "quoted t = [CHR 0x22] @ t @ [CHR 0x22]"

definition atom_string :: "ctxid \<Rightarrow> handle \<Rightarrow> mem \<Rightarrow> handle \<times> mem" where
  "atom_string c v s =
     (case rc_type s v of
        RC_SYMBOL \<Rightarrow> rc_string_n c (rc_text s v) s
      | RC_STRING \<Rightarrow>
          if rc_text_length s v > SIZE_MAX - 3 then rc_fail c ''String too large'' s
          else let (ok, s) = library_call s
               in if \<not> ok then rc_fail c ''Out of memory'' s
                  else rc_string_n c (Some (quoted (data (load_of s v)))) s
      | RC_NUMBER \<Rightarrow> rc_string c (Some (show_number s v)) s
      | RC_CLOSURE \<Rightarrow> rc_string c (Some (''#<Function {'' @ show_pointer (handle_addr v) @ ''}>'')) s
      | RC_STREAM \<Rightarrow> rc_string c (Some (''#<Stream {'' @ show_pointer (handle_addr v) @ ''}>'')) s
      | _ \<Rightarrow> rc_fail c ''Parameter is not an atom, closure, or stream'' s)"

subsection \<open>Printing\<close>

text \<open>The text that \<open>print_value\<close> writes when no write fails. The fuel bounds the printer's calls
  and the cells of a spine; the printer itself stops at depth 256 and after 100,001 elements.\<close>

definition list_limit :: nat where "list_limit = 100000"

fun print_value :: "nat \<Rightarrow> mem \<Rightarrow> handle \<Rightarrow> nat \<Rightarrow> string option"
  and print_spine :: "nat \<Rightarrow> mem \<Rightarrow> handle \<Rightarrow> nat \<Rightarrow> nat \<Rightarrow> string option" where
  "print_value 0 s v depth = None"
| "print_value (Suc k) s v depth =
     (if depth > 256 then Some ''#<depth-limit>''
      else case rc_type s v of
             RC_NIL \<Rightarrow> Some ''()''
           | RC_SYMBOL \<Rightarrow> Some (data (load_of s v))
           | RC_STRING \<Rightarrow> Some (quoted (data (load_of s v)))
           | RC_NUMBER \<Rightarrow> Some (show_number s v)
           | RC_PAIR \<Rightarrow> map_option ((@) ''('') (print_spine k s v depth 0)
           | RC_VECTOR \<Rightarrow> Some (''#<Absvector '' @ digits_of (rc_vector_length s v) @ ''>'')
           | RC_CLOSURE \<Rightarrow> Some (''#<Function {'' @ show_pointer (handle_addr v) @ ''}>'')
           | RC_STREAM \<Rightarrow> Some (''#<Stream {'' @ show_pointer (handle_addr v) @ ''} '' @
               (if rc_stream_is_input s v then ''in'' else ''out'') @ ''>'')
           | RC_TAIL \<Rightarrow> Some ''#<tail-call>''
           | RC_ENV \<Rightarrow> Some ''#<internal-environment>''
           | RC_FREE_CELL \<Rightarrow> Some [])"
| "print_spine 0 s p depth n = None"
| "print_spine (Suc k) s p depth n =
     (if rc_type s p = RC_PAIR
      then let sep = (if n \<noteq> 0 then '' '' else [])
           in if n + 1 > list_limit then Some (sep @ ''...)'')
              else case print_value k s (rc_head_borrowed s p) (depth + 1) of
                     None \<Rightarrow> None
                   | Some x \<Rightarrow> map_option (\<lambda>y. sep @ x @ y) (print_spine k s (rc_tail_borrowed s p) depth (n + 1))
      else if rc_is_nil p then Some '')''
      else map_option (\<lambda>x. '' | '' @ x @ '')'') (print_value k s p (depth + 1)))"

definition write_bytes :: "nat \<Rightarrow> string \<Rightarrow> mem \<Rightarrow> mem" where
  \<comment> \<open>append to the file; a file opened by name shows the bytes on disk\<close>
  "write_bytes f bs s =
     s\<lparr>file_output := (file_output s)(f := file_output s f @ bs),
       disk := (case file_path s f of
           Some p \<Rightarrow> (disk s)(p \<mapsto> (case disk s p of Some d \<Rightarrow> d | None \<Rightarrow> []) @ bs) | None \<Rightarrow> disk s)\<rparr>"

definition rc_print :: "nat \<Rightarrow> nat \<Rightarrow> handle \<Rightarrow> mem \<Rightarrow> (bool \<times> mem) option" where
  \<comment> \<open>a failed write stops the printer: the result is then False\<close>
  "rc_print fuel f v s =
     (if v = HNull then Some (False, s)
      else case print_value fuel s v 0 of
             None \<Rightarrow> None
           | Some text \<Rightarrow> let (ok, s) = library_call s in Some (if ok then (True, write_bytes f text s) else (False, s)))"

end
