(* ===== verification/Primitives.thy ===== *)
theory Primitives
  imports Printing
begin

text \<open>
  The KLambda primitives (\<open>src/rc/primitives.c\<close>): the opcodes and their table, \<open>primitive_op\<close>,
  arithmetic with overflow checks, the kernel's symbol classification, files, and the native
  port of the kernel's \<open>hash\<close>. Input and output go through the contents of open files in the
  memory record; whether a file operation fails is a library outcome. A primitive returns None
  when it does not return: \<open>exit\<close>, or a callback it applies.
\<close>

subsection \<open>Opcodes\<close>

datatype Op =
    P_INTERN | P_POS | P_TLSTR | P_CN | P_STR | P_STRING | P_NSTR | P_STRN
  | P_SET | P_VALUE | P_ERROR | P_ERRSTR | P_CONS | P_HD | P_TL | P_CONSP | P_EQ
  | P_TYPE | P_VECTOR | P_VSET | P_VGET | P_VECTORP | P_WRITE | P_READ | P_OPEN
  | P_CLOSE | P_TIME | P_ADD | P_SUB | P_MUL | P_DIV | P_GT | P_LT | P_GE | P_LE
  | P_NUMBER | P_SYMBOL | P_BOOLEAN | P_INTEGER | P_VARIABLE | P_NOT | P_VALUEOR
  | P_VGETOR | P_WRITESTR | P_PR | P_FUNCTION | P_EXIT
  | P_GC | P_READCHARS | P_DO | P_CHARSTREAM | P_READUNIT

definition all_ops :: "Op list" where
  "all_ops =
     [P_INTERN, P_POS, P_TLSTR, P_CN, P_STR, P_STRING, P_NSTR, P_STRN,
      P_SET, P_VALUE, P_ERROR, P_ERRSTR, P_CONS, P_HD, P_TL, P_CONSP, P_EQ,
      P_TYPE, P_VECTOR, P_VSET, P_VGET, P_VECTORP, P_WRITE, P_READ, P_OPEN,
      P_CLOSE, P_TIME, P_ADD, P_SUB, P_MUL, P_DIV, P_GT, P_LT, P_GE, P_LE,
      P_NUMBER, P_SYMBOL, P_BOOLEAN, P_INTEGER, P_VARIABLE, P_NOT, P_VALUEOR,
      P_VGETOR, P_WRITESTR, P_PR, P_FUNCTION, P_EXIT,
      P_GC, P_READCHARS, P_DO, P_CHARSTREAM, P_READUNIT]"

fun index_of :: "Op \<Rightarrow> Op list \<Rightarrow> nat" where
  "index_of x [] = 0"
| "index_of x (y # ys) = (if x = y then 0 else index_of x ys + 1)"

definition op_code :: "Op \<Rightarrow> int" where
  \<comment> \<open>the enumeration constant's value\<close>
  "op_code x = int (index_of x all_ops)"

definition op_of_code :: "int \<Rightarrow> Op option" where
  "op_of_code n = (if 0 \<le> n \<and> n < int (length all_ops) then Some (all_ops ! nat n) else None)"

definition core :: "(string \<times> nat \<times> Op) list" where
  "core =
     [(''intern'', 1, P_INTERN), (''pos'', 2, P_POS), (''tlstr'', 1, P_TLSTR),
      (''cn'', 2, P_CN), (''str'', 1, P_STR), (''string?'', 1, P_STRING),
      (''n->string'', 1, P_NSTR), (''string->n'', 1, P_STRN),
      (''set'', 2, P_SET), (''value'', 1, P_VALUE), (''simple-error'', 1, P_ERROR),
      (''error-to-string'', 1, P_ERRSTR), (''cons'', 2, P_CONS), (''hd'', 1, P_HD),
      (''tl'', 1, P_TL), (''cons?'', 1, P_CONSP), (''='', 2, P_EQ), (''type'', 2, P_TYPE),
      (''absvector'', 1, P_VECTOR), (''address->'', 3, P_VSET), (''<-address'', 2, P_VGET),
      (''absvector?'', 1, P_VECTORP), (''write-byte'', 2, P_WRITE), (''read-byte'', 1, P_READ),
      (''open'', 2, P_OPEN), (''close'', 1, P_CLOSE), (''get-time'', 1, P_TIME),
      (''+'', 2, P_ADD), (''-'', 2, P_SUB), (''*'', 2, P_MUL), (''/'', 2, P_DIV),
      (''>'', 2, P_GT), (''<'', 2, P_LT), (''>='', 2, P_GE), (''<='', 2, P_LE),
      (''number?'', 1, P_NUMBER), (''function'', 1, P_FUNCTION), (''exit'', 1, P_EXIT),
      (''shen.gc'', 0, P_GC), (''do'', 2, P_DO),
      (''char-stream?'', 1, P_CHARSTREAM), (''read-unit-string'', 1, P_READUNIT),
      (''write-string'', 2, P_WRITESTR)]"

definition overwrites :: "(string \<times> nat \<times> Op) list" where
  "overwrites =
     [(''symbol?'', 1, P_SYMBOL), (''boolean?'', 1, P_BOOLEAN), (''integer?'', 1, P_INTEGER),
      (''variable?'', 1, P_VARIABLE), (''not'', 1, P_NOT), (''value/or'', 2, P_VALUEOR),
      (''<-address/or'', 3, P_VGETOR),
      (''pr'', 2, P_PR), (''read-file-as-charlist'', 1, P_READCHARS)]"

subsection \<open>Helpers\<close>

definition symbol_is :: "mem \<Rightarrow> handle \<Rightarrow> string \<Rightarrow> bool" where
  "symbol_is s v name \<longleftrightarrow> rc_type s v = RC_SYMBOL \<and> data (load_of s v) = name"

definition truth :: "ctxid \<Rightarrow> bool \<Rightarrow> mem \<Rightarrow> handle \<times> mem" where
  "truth c b s = (if b then rc_true c s else rc_false c s)"

definition integer_arg :: "mem \<Rightarrow> handle \<Rightarrow> int option" where
  "integer_arg s v =
     (if rc_type s v \<noteq> RC_NUMBER \<or> \<not> rc_number_is_exact_integer s v then None else Some (rc_integer_value s v))"

definition global :: "ctxid \<Rightarrow> string \<Rightarrow> mem \<Rightarrow> handle \<times> mem" where
  "global c name s =
     (let (sym, s) = rc_symbol c (Some name) s
      in if sym = HNull then (HNull, s)
         else let (v, s) = rc_global_get c sym s in (v, rc_release sym s))"

definition put_global :: "ctxid \<Rightarrow> string \<Rightarrow> handle \<times> mem \<Rightarrow> bool \<times> mem" where
  "put_global c name r =
     (let (v, s) = r
      in if v = HNull then (False, s)
         else let (sym, s) = rc_symbol c (Some name) s;
                  (ok, s) = (if sym \<noteq> HNull then rc_global_set c sym v s else (False, s))
              in (ok, rc_release v (rc_release sym s)))"

subsection \<open>Arithmetic\<close>

definition int64 :: "int \<Rightarrow> bool" where
  "int64 n \<longleftrightarrow> - (2 ^ 63) \<le> n \<and> n < 2 ^ 63"

definition checked :: "ctxid \<Rightarrow> int \<Rightarrow> mem \<Rightarrow> handle \<times> mem" where
  \<comment> \<open>the result of a \<open>__builtin_*_overflow\<close>\<close>
  "checked c k s = (if int64 k then rc_integer c k s else rc_fail c ''Integer overflow'' s)"

definition numeric :: "ctxid \<Rightarrow> Op \<Rightarrow> handle \<Rightarrow> handle \<Rightarrow> mem \<Rightarrow> handle \<times> mem" where
  "numeric c opc a b s =
     (if rc_type s a \<noteq> RC_NUMBER \<or> rc_type s b \<noteq> RC_NUMBER then rc_fail c ''Arithmetic requires numbers'' s
      else let ints = rc_number_is_exact_integer s a \<and> rc_number_is_exact_integer s b;
               i = rc_integer_value s a; j = rc_integer_value s b; x = rc_number_value s a; y = rc_number_value s b
           in case opc of
                P_GT \<Rightarrow> truth c (if ints then i > j else dbl_lt y x) s
              | P_LT \<Rightarrow> truth c (if ints then i < j else dbl_lt x y) s
              | P_GE \<Rightarrow> truth c (if ints then i \<ge> j else dbl_le y x) s
              | P_LE \<Rightarrow> truth c (if ints then i \<le> j else dbl_le x y) s
              | P_ADD \<Rightarrow> if ints then checked c (i + j) s else rc_number c (dbl_add x y) s
              | P_SUB \<Rightarrow> if ints then checked c (i - j) s else rc_number c (dbl_sub x y) s
              | P_MUL \<Rightarrow> if ints then checked c (i * j) s else rc_number c (dbl_mul x y) s
              | P_DIV \<Rightarrow>
                  if (if ints then j = 0 else dbl_eq y (Fin False 0 0)) then rc_fail c ''Division by zero'' s
                  else if ints \<and> i = - (2 ^ 63) \<and> j = - 1 then rc_fail c ''Integer overflow'' s
                  else if ints \<and> i mod j = 0 then rc_integer c (i div j) s
                  else if ints then rc_number c (dbl_div (dbl_of_int i) (dbl_of_int j)) s
                  else rc_number c (dbl_div x y) s
              | _ \<Rightarrow> rc_fail c ''Unknown arithmetic operation'' s)"

subsection \<open>Symbol classes of the kernel\<close>

definition kernel_upper :: "char \<Rightarrow> bool" where
  "kernel_upper x \<longleftrightarrow> (65::nat) \<le> of_char x \<and> of_char x \<le> (90::nat)"

definition misc_chars :: string where
  "misc_chars = ''=-*/+_?$!@~.><&%#'' @ [CHR 0x27, CHR 0x60]"

definition kernel_alpha :: "char \<Rightarrow> bool" where
  "kernel_alpha x \<longleftrightarrow> ((97::nat) \<le> of_char x \<and> of_char x \<le> (122::nat)) \<or> kernel_upper x \<or> x \<in> set misc_chars"

definition kernel_alphanums :: "string \<Rightarrow> bool" where
  "kernel_alphanums t \<longleftrightarrow> list_all (\<lambda>x. kernel_alpha x \<or> c_isdigit x) t"

definition kernel_symbol :: "mem \<Rightarrow> handle \<Rightarrow> bool" where
  "kernel_symbol s v \<longleftrightarrow>
     rc_type s v = RC_SYMBOL \<and> \<not> rc_is_boolean s v \<and>
     (case data (load_of s v) of
        [] \<Rightarrow> False
      | x # r \<Rightarrow> (r = [] \<and> x \<in> set ''{}:;,'') \<or> (kernel_alpha x \<and> kernel_alphanums r))"

definition kernel_variable :: "mem \<Rightarrow> handle \<Rightarrow> bool" where
  "kernel_variable s v \<longleftrightarrow>
     rc_type s v = RC_SYMBOL \<and> \<not> rc_is_boolean s v \<and>
     (case data (load_of s v) of [] \<Rightarrow> False | x # r \<Rightarrow> kernel_upper x \<and> kernel_alphanums r)"

subsection \<open>Files\<close>

definition open_stream :: "mem \<Rightarrow> handle \<Rightarrow> bool \<Rightarrow> bool" where
  \<comment> \<open>an open stream of the given direction\<close>
  "open_stream s v inp \<longleftrightarrow> rc_type s v = RC_STREAM \<and> rc_stream_file s v \<noteq> None \<and> rc_stream_is_input s v = inp"

definition fgetc :: "nat \<Rightarrow> mem \<Rightarrow> char option option \<times> mem" where
  \<comment> \<open>None is an error, \<open>Some None\<close> the end of the file\<close>
  "fgetc f s =
     (let (ok, s) = library_call s
      in if \<not> ok then (None, s)
         else case file_input s f of
                [] \<Rightarrow> (Some None, s)
              | x # r \<Rightarrow> (Some (Some x), s\<lparr>file_input := (file_input s)(f := r)\<rparr>))"

definition fopen :: "string \<Rightarrow> bool \<Rightarrow> mem \<Rightarrow> nat option \<times> mem" where
  \<comment> \<open>mode \<open>rb\<close> or \<open>wb\<close>\<close>
  "fopen path inp s =
     (let (ok, s) = library_call s; f = next_file s
      in if \<not> ok \<or> (inp \<and> disk s path = None) then (None, s)
         else (Some f, if inp
           then s\<lparr>next_file := f + 1, file_input := (file_input s)(f := the (disk s path))\<rparr>
           else s\<lparr>next_file := f + 1, file_output := (file_output s)(f := []),
                  file_path := (file_path s)(f := Some path), disk := (disk s)(path \<mapsto> [])\<rparr>))"

definition open_file :: "ctxid \<Rightarrow> handle \<Rightarrow> handle \<Rightarrow> mem \<Rightarrow> handle \<times> mem" where
  "open_file c path direction s =
     (if rc_type s path \<noteq> RC_STRING \<or> (\<not> symbol_is s direction ''in'' \<and> \<not> symbol_is s direction ''out'')
      then rc_fail c ''open requires string path and in or out direction'' s
      else if CHR 0x00 \<in> set (data (load_of s path)) then rc_fail c ''File path contains zero byte'' s
      else let (home, s) = global c ''*home-directory*'' s
           in if home = HNull then (HNull, s)
              else if rc_type s home \<noteq> RC_STRING then rc_fail c ''*home-directory* must be string'' (rc_release home s)
              else let a = data (load_of s home); b = data (load_of s path)
                   in if length a > SIZE_MAX - length b - 1 then rc_fail c ''File path too large'' (rc_release home s)
                      else let (ok, s) = library_call s
                           in if \<not> ok then rc_fail c ''Out of memory'' (rc_release home s)
                              else let s = rc_release home s; inp = symbol_is s direction ''in'';
                                       name = c_string (a @ b); (f, s) = fopen name inp s
                                   in case f of
                                        None \<Rightarrow> rc_fail c (''Cannot open '' @ name @ '': '' @ errno_text s) s
                                      | Some f \<Rightarrow>
                                          let (v, s) = rc_stream_with_direction c (Some f) True inp s
                                          in (v, if v = HNull then s\<lparr>closed_files := f # closed_files s\<rparr> else s))"

definition write_string :: "ctxid \<Rightarrow> handle \<Rightarrow> handle \<Rightarrow> mem \<Rightarrow> handle \<times> mem" where
  "write_string c text stream s =
     (if rc_type s text \<noteq> RC_STRING \<or> \<not> open_stream s stream False
      then rc_fail c ''write-string requires string and open stream'' s
      else let (ok, s) = library_call s
           in if \<not> ok then rc_fail c ''Failed to write stream'' s
              else (text, rc_retain text (write_bytes (the (rc_stream_file s stream)) (data (load_of s text)) s)))"

datatype read_result = ReadList handle | ReadNoMemory | ReadError

fun read_bytes :: "nat \<Rightarrow> ctxid \<Rightarrow> nat \<Rightarrow> handle \<Rightarrow> mem \<Rightarrow> read_result \<times> mem" where
  \<comment> \<open>the byte loop of \<open>read-file-as-charlist\<close>; the fuel is more than the bytes left\<close>
  "read_bytes 0 c f acc s = (ReadError, s)"
| "read_bytes (Suc k) c f acc s =
     (case fgetc f s of
        (Some (Some x), s) \<Rightarrow>
          let (item, s) = rc_integer c (of_char x) s
          in if item = HNull then (ReadNoMemory, rc_release acc s)
             else let (v, s) = rc_cons c item acc s; s = rc_release acc (rc_release item s)
                  in if v = HNull then (ReadNoMemory, s) else read_bytes k c f v s
      | (Some None, s) \<Rightarrow> (ReadList acc, s)
      | (None, s) \<Rightarrow> (ReadError, rc_release acc s))"

fun reverse_spine :: "nat \<Rightarrow> ctxid \<Rightarrow> handle \<Rightarrow> handle \<Rightarrow> mem \<Rightarrow> handle \<times> mem" where
  \<comment> \<open>the second loop: rebuild the list in order; the fuel is its length\<close>
  "reverse_spine 0 c p res s = (res, s)"
| "reverse_spine (Suc k) c p res s =
     (if rc_type s p = RC_PAIR
      then let (v, s) = rc_cons c (rc_head_borrowed s p) res s; s = rc_release res s
           in if v = HNull then (HNull, s) else reverse_spine k c (rc_tail_borrowed s p) v s
      else (res, s))"

definition read_charlist :: "ctxid \<Rightarrow> handle \<Rightarrow> mem \<Rightarrow> handle \<times> mem" where
  "read_charlist c path s =
     (let (dir, s) = rc_symbol c (Some ''in'') s
      in if dir = HNull then (HNull, s)
         else let (stream, s) = open_file c path dir s; s = rc_release dir s
              in case rc_stream_file s stream of
                   None \<Rightarrow> (HNull, s)
                 | Some f \<Rightarrow>
                     let n = length (file_input s f)
                     in case read_bytes (n + 1) c f HNil s of
                          (ReadList l, s) \<Rightarrow>
                            let (res, s) = reverse_spine n c l HNil (rc_release stream s)
                            in (res, rc_release l s)
                        | (ReadNoMemory, s) \<Rightarrow> (HNull, rc_release stream s)
                        | (ReadError, s) \<Rightarrow> rc_fail c ''Failed to read file'' (rc_release stream s))"

subsection \<open>The dispatcher\<close>

definition argument :: "handle list \<Rightarrow> nat \<Rightarrow> handle" where
  "argument v i = (if i < length v then v ! i else HNull)"

definition byte_arg :: "mem \<Rightarrow> handle \<Rightarrow> nat option" where
  \<comment> \<open>an exact integer from 0 to 255\<close>
  "byte_arg s v = (case integer_arg s v of Some i \<Rightarrow> if 0 \<le> i \<and> i \<le> 255 then Some (nat i) else None | None \<Rightarrow> None)"

definition index_arg :: "mem \<Rightarrow> handle \<Rightarrow> nat \<Rightarrow> nat option" where
  \<comment> \<open>an exact integer that is a position below the bound\<close>
  "index_arg s v n = (case integer_arg s v of Some i \<Rightarrow> if 0 \<le> i \<and> i < int n then Some (nat i) else None | None \<Rightarrow> None)"

definition text_op :: "ctxid \<Rightarrow> Op \<Rightarrow> handle \<Rightarrow> handle \<Rightarrow> mem \<Rightarrow> handle \<times> mem" where
  \<comment> \<open>the cases on strings and symbols\<close>
  "text_op c opc a b s =
     (let t = data (load_of s a)
      in case opc of
           P_INTERN \<Rightarrow>
             if rc_type s a \<noteq> RC_STRING then rc_fail c ''intern requires string'' s
             else if CHR 0x00 \<in> set t then rc_fail c ''Symbol name contains zero byte'' s
             else rc_symbol c (Some t) s
         | P_POS \<Rightarrow>
             if rc_type s a \<noteq> RC_STRING then rc_fail c ''String position out of range'' s
             else (case index_arg s b (length t) of
                     None \<Rightarrow> rc_fail c ''String position out of range'' s
                   | Some i \<Rightarrow> rc_string_n c (Some [t ! i]) s)
         | P_TLSTR \<Rightarrow>
             if rc_type s a \<noteq> RC_STRING \<or> t = [] then rc_fail c ''tlstr requires nonempty string'' s
             else rc_string_n c (Some (drop 1 t)) s
         | P_CN \<Rightarrow>
             if rc_type s a \<noteq> RC_STRING \<or> rc_type s b \<noteq> RC_STRING then rc_fail c ''cn requires strings'' s
             else let u = data (load_of s b)
                  in if length t > SIZE_MAX - length u - 1 then rc_fail c ''String too large'' s
                     else let (ok, s) = library_call s
                          in if \<not> ok then rc_fail c ''Out of memory'' s else rc_string_n c (Some (t @ u)) s
         | P_STR \<Rightarrow> atom_string c a s
         | P_NSTR \<Rightarrow>
             (case byte_arg s a of
                None \<Rightarrow> rc_fail c ''Byte must be integer 0..255'' s
              | Some i \<Rightarrow> rc_string_n c (Some [char_of i]) s)
         | P_STRN \<Rightarrow>
             (case t of
                x # _ \<Rightarrow> if rc_type s a \<noteq> RC_STRING then rc_fail c ''string->n requires nonempty string'' s
                         else rc_integer c (of_char x) s
              | [] \<Rightarrow> rc_fail c ''string->n requires nonempty string'' s)
         | P_ERROR \<Rightarrow>
             if rc_type s a \<noteq> RC_STRING then rc_fail c ''simple-error requires string'' s else rc_fail c (c_string t) s
         | P_ERRSTR \<Rightarrow>
             if rc_type s a \<noteq> RC_STRING then rc_fail c ''error-to-string requires error string'' s else (a, rc_retain a s)
         | _ \<Rightarrow> (HNull, s))"

definition predicate_op :: "ctxid \<Rightarrow> Op \<Rightarrow> handle \<Rightarrow> mem \<Rightarrow> handle \<times> mem" where
  \<comment> \<open>the unary predicates\<close>
  "predicate_op c opc a s =
     (case opc of
        P_STRING \<Rightarrow> truth c (rc_type s a = RC_STRING) s
      | P_CONSP \<Rightarrow> truth c (rc_type s a = RC_PAIR) s
      | P_VECTORP \<Rightarrow> truth c (rc_type s a = RC_VECTOR) s
      | P_NUMBER \<Rightarrow> truth c (rc_type s a = RC_NUMBER) s
      | P_SYMBOL \<Rightarrow> truth c (kernel_symbol s a) s
      | P_BOOLEAN \<Rightarrow> truth c (rc_is_boolean s a) s
      | P_INTEGER \<Rightarrow> truth c (rc_type s a = RC_NUMBER \<and>
          (rc_number_is_exact_integer s a \<or> (isfinite (rc_number_value s a) \<and> is_integral (rc_number_value s a)))) s
      | P_VARIABLE \<Rightarrow> truth c (kernel_variable s a) s
      | P_NOT \<Rightarrow> if \<not> rc_is_boolean s a then rc_fail c ''condition is not a boolean'' s else truth c (\<not> rc_is_true s a) s
      | _ \<Rightarrow> (HNull, s))"

definition stream_op :: "ctxid \<Rightarrow> handle \<Rightarrow> Op \<Rightarrow> handle \<Rightarrow> handle \<Rightarrow> mem \<Rightarrow> handle \<times> mem" where
  \<comment> \<open>input, output and time\<close>
  "stream_op c self opc a b s =
     (case opc of
        P_WRITE \<Rightarrow>
          (case byte_arg s a of
             None \<Rightarrow> rc_fail c ''write-byte requires byte and open stream'' s
           | Some i \<Rightarrow>
               if \<not> open_stream s b False then rc_fail c ''write-byte requires byte and open stream'' s
               else let (ok, s) = library_call s
                    in if \<not> ok then rc_fail c ''Failed to write byte'' s
                       else (a, rc_retain a (write_bytes (the (rc_stream_file s b)) [char_of i] s)))
      | P_READ \<Rightarrow>
          if \<not> open_stream s a True then rc_fail c ''read-byte requires open stream'' s
          else (case fgetc (the (rc_stream_file s a)) s of
                  (None, s) \<Rightarrow> rc_fail c ''Failed to read byte'' s
                | (Some None, s) \<Rightarrow> rc_integer c (- 1) s
                | (Some (Some x), s) \<Rightarrow> rc_integer c (of_char x) s)
      | P_CHARSTREAM \<Rightarrow> if rc_type s a \<noteq> RC_STREAM then rc_fail c ''char-stream? expects a stream'' s else rc_false c s
      | P_READUNIT \<Rightarrow>
          if \<not> open_stream s a True then rc_fail c ''read-unit-string requires open input stream'' s
          else (case fgetc (the (rc_stream_file s a)) s of
                  (None, s) \<Rightarrow> rc_fail c ''Failed to read unit string'' s
                | (Some None, s) \<Rightarrow> rc_fail c ''read-unit-string: end of stream'' s
                | (Some (Some x), s) \<Rightarrow> rc_string_n c (Some [x]) s)
      | P_OPEN \<Rightarrow> open_file c a b s
      | P_CLOSE \<Rightarrow> (let (ok, s) = rc_stream_close c a s in (if ok then HNil else HNull, s))
      | P_TIME \<Rightarrow>
          if symbol_is s a ''unix'' then rc_integer c (unix_time s) s
          else if symbol_is s a ''run'' then rc_number c (dbl_sub (cpu_time s) (rc_number_value s (rc_capture s self 1))) s
          else rc_fail c ''get-time requires unix or run'' s
      | P_WRITESTR \<Rightarrow> write_string c a b s
      | P_PR \<Rightarrow>
          (let (hush, s) = global c ''*hush*'' s;
               s = (if hush = HNull then rc_clear_error c s else s);
               quiet = hush \<noteq> HNull \<and> rc_is_true s hush \<and> rc_stream_file s b = Some 1;
               s = rc_release hush s
           in if quiet then (a, rc_retain a s) else write_string c a b s)
      | P_READCHARS \<Rightarrow> read_charlist c a s
      | _ \<Rightarrow> (HNull, s))"

definition vector_op :: "callbacks \<Rightarrow> ctxid \<Rightarrow> Op \<Rightarrow> handle list \<Rightarrow> mem \<Rightarrow> (handle \<times> mem) option" where
  \<comment> \<open>\<open>address->\<close>, \<open><-address\<close> and \<open><-address/or\<close>\<close>
  "vector_op cb c opc v s =
     (let a = argument v 0; b = argument v 1
      in case (if rc_type s a = RC_VECTOR then index_arg s b (rc_vector_length s a) else None) of
           None \<Rightarrow> if opc = P_VGETOR then rc_apply cb c (argument v 2) [] s
                   else Some (rc_fail c ''Vector index out of bounds'' s)
         | Some i \<Rightarrow>
             if opc = P_VSET
             then let (ok, s) = rc_vector_set c a i (argument v 2) s
                  in Some (if ok then (a, rc_retain a s) else (HNull, s))
             else Some (rc_vector_get c a i s))"

definition primitive_op :: "callbacks \<Rightarrow> ctxid \<Rightarrow> handle \<Rightarrow> Op \<Rightarrow> handle list \<Rightarrow> mem \<Rightarrow> (handle \<times> mem) option" where
  "primitive_op cb c self opc v s =
     (let a = argument v 0; b = argument v 1
      in if opc \<in> {P_ADD, P_SUB, P_MUL, P_DIV, P_GT, P_LT, P_GE, P_LE} then Some (numeric c opc a b s)
         else if opc \<in> {P_INTERN, P_POS, P_TLSTR, P_CN, P_STR, P_NSTR, P_STRN, P_ERROR, P_ERRSTR}
         then Some (text_op c opc a b s)
         else if opc \<in> {P_STRING, P_CONSP, P_VECTORP, P_NUMBER, P_SYMBOL, P_BOOLEAN, P_INTEGER, P_VARIABLE, P_NOT}
         then Some (predicate_op c opc a s)
         else if opc \<in> {P_WRITE, P_READ, P_CHARSTREAM, P_READUNIT, P_OPEN, P_CLOSE, P_TIME, P_WRITESTR, P_PR, P_READCHARS}
         then Some (stream_op c self opc a b s)
         else if opc \<in> {P_VSET, P_VGET, P_VGETOR} then vector_op cb c opc v s
         else case opc of
                P_SET \<Rightarrow> let (ok, s) = rc_global_set c a b s in Some (if ok then (b, rc_retain b s) else (HNull, s))
              | P_VALUE \<Rightarrow> Some (rc_global_get c a s)
              | P_CONS \<Rightarrow> Some (rc_cons c a b s)
              | P_HD \<Rightarrow> Some (rc_head c a s)
              | P_TL \<Rightarrow> Some (rc_tail c a s)
              | P_EQ \<Rightarrow> map_option (\<lambda>(e, s). if rc_has_error s c then (HNull, s) else truth c e s) (rc_equal a b s)
              | P_TYPE \<Rightarrow> Some (a, rc_retain a s)
              | P_DO \<Rightarrow> Some (b, rc_retain b s)
              | P_VECTOR \<Rightarrow>
                  (case integer_arg s a of
                     Some i \<Rightarrow> if i < 0 then Some (rc_fail c ''Vector size must be nonnegative integer'' s)
                               else Some (rc_vector c (nat i) s)
                   | None \<Rightarrow> Some (rc_fail c ''Vector size must be nonnegative integer'' s))
              | P_VALUEOR \<Rightarrow>
                  (let (r, s) = (if rc_type s a = RC_SYMBOL then rc_global_get c a s else (HNull, s))
                   in if r \<noteq> HNull then Some (r, s) else rc_apply cb c b [] (rc_clear_error c s))
              | P_FUNCTION \<Rightarrow> Some (rc_function_get c a s)
              | P_EXIT \<Rightarrow>
                  (case integer_arg s a of
                     Some i \<Rightarrow> if i < - (2 ^ 31) \<or> i > 2 ^ 31 - 1 then Some (rc_fail c ''exit requires integer status'' s) else None
                   | None \<Rightarrow> Some (rc_fail c ''exit requires integer status'' s))
              | P_GC \<Rightarrow> Some (HNil, rc_collect c s)
              | _ \<Rightarrow> Some (rc_fail c ''Unknown primitive'' s))"

definition primitive :: "callbacks \<Rightarrow> ctxid \<Rightarrow> handle \<Rightarrow> handle list \<Rightarrow> mem \<Rightarrow> (handle \<times> mem) option" where
  \<comment> \<open>the callback of every primitive: the opcode is its first capture\<close>
  "primitive cb c self v s =
     (case op_of_code (rc_integer_value s (rc_capture s self 0)) of
        Some opc \<Rightarrow> primitive_op cb c self opc v s
      | None \<Rightarrow> Some (rc_fail c ''Unknown primitive'' s))"

end
