(* ===== verification/Builtins.thy ===== *)
theory Builtins
  imports Primitives
begin

text \<open>
  Calls of canonical builtins (\<open>src/rc/primitives.c\<close>): the checked slow path, the leaf entry
  points with owned and borrowed arguments, the projections that take from a unique pair, the
  condition entry points of compiled code, the intrinsics for the pinned kernel bodies of
  \<open>shen.pvar?\<close>, \<open>shen.lazyderef\<close> and \<open>assoc\<close>, the cons and tl calls with a reuse token,
  the installers and the native hash. The leaf functions that C writes with one macro each are
  one definition here, over the canonical slot.
\<close>

subsection \<open>Native functions of the runtime\<close>

text \<open>The addresses of the C callbacks that the runtime itself compares closures against.\<close>

definition NATIVE_PRIMITIVE :: native_id where "NATIVE_PRIMITIVE = 1"
definition NATIVE_HASHKEY :: native_id where "NATIVE_HASHKEY = 2"
definition NATIVE_HASH :: native_id where "NATIVE_HASH = 3"

subsection \<open>The slow path\<close>

definition rc_primitive_is_do :: "mem \<Rightarrow> handle \<Rightarrow> bool" where
  "rc_primitive_is_do s fn \<longleftrightarrow>
     rc_closure_is_native s fn NATIVE_PRIMITIVE \<and> rc_arity s fn = 2 \<and>
     rc_capture s fn 0 \<noteq> HNull \<and> rc_integer_value s (rc_capture s fn 0) = op_code P_DO"

definition primitive_code :: "mem \<Rightarrow> ctxid \<Rightarrow> handle \<Rightarrow> handle list \<Rightarrow> Op option" where
  \<comment> \<open>the opcode when the call is an exact call of a primitive\<close>
  "primitive_code s c fn args =
     (let code = rc_native_call_capture s c fn args NATIVE_PRIMITIVE
      in if code = HNull then None else op_of_code (rc_integer_value s code))"

definition unary_ops :: "Op set" where
  "unary_ops = {P_HD, P_TL, P_CONSP, P_NUMBER, P_STRING, P_SYMBOL, P_BOOLEAN, P_INTEGER, P_VARIABLE, P_VECTORP, P_NOT}"

definition binary_ops :: "Op set" where
  "binary_ops = {P_EQ, P_ADD, P_SUB, P_MUL, P_DIV, P_GT, P_LT, P_GE, P_LE}"

definition expected_argc :: "Op \<Rightarrow> nat" where
  "expected_argc opc = (if opc \<in> unary_ops then 1 else if opc \<in> binary_ops \<or> opc = P_DO \<or> opc = P_CONS then 2 else 0)"

definition leaf_finish :: "ctxid \<Rightarrow> handle \<Rightarrow> mem \<Rightarrow> handle \<times> mem" where
  "leaf_finish c v s =
     (if v = HNull then (HNull, s)
      else if rc_has_error s c then (HNull, rc_release v s)
      else (v, rc_safepoint c s))"

definition slow_result :: "callbacks \<Rightarrow> ctxid \<Rightarrow> handle \<Rightarrow> Op \<Rightarrow> handle list \<Rightarrow> mem \<Rightarrow> (handle \<times> handle list \<times> mem) option" where
  \<comment> \<open>the result of the primitive and what is left in the argument slots\<close>
  "slow_result cb c fn opc args s =
     (if opc = P_CONS then let (v, s) = rc_cons_owned c (args ! 0) (args ! 1) s in Some (v, [HNull, HNull], s)
      else if opc = P_DO \<and> rc_type s (args ! 1) \<noteq> RC_TAIL then Some (args ! 1, [args ! 0, HNull], s)
      else map_option (\<lambda>(v, s). (v, args, s)) (primitive_op cb c fn opc args s))"

definition primitive_call_owned_slow ::
  "callbacks \<Rightarrow> ctxid \<Rightarrow> handle \<Rightarrow> handle list \<Rightarrow> bool \<Rightarrow> mem \<Rightarrow> (handle \<times> mem) option" where
  "primitive_call_owned_slow cb c fn args tail_position s =
     (let general = (if tail_position then Some (rc_tailcall_owned_args c fn args s) else rc_apply_owned_args cb c fn args s)
      in case primitive_code s c fn args of
           None \<Rightarrow> general
         | Some opc \<Rightarrow>
             if expected_argc opc = 0 \<or> length args \<noteq> expected_argc opc then general
             else Option.bind (slow_result cb c fn opc args s)
                    (\<lambda>(v, slots, s).
                       if \<not> tail_position \<and> opc \<in> {P_HD, P_TL, P_DO} \<and> rc_type s v = RC_TAIL
                       then rc_apply_owned_args cb c fn slots (rc_release v s)
                       else Some (leaf_finish c v (consume_arguments slots s))))"

subsection \<open>Canonical leaves\<close>

definition builtin_ops :: "Op list" where
  \<comment> \<open>the opcode of each \<open>RcBuiltinSlot\<close>\<close>
  "builtin_ops = [P_HD, P_TL, P_CONSP, P_NUMBER, P_STRING, P_EQ, P_ADD, P_SUB, P_MUL, P_DIV, P_GT, P_LT, P_GE, P_LE, P_CONS]"

definition leaf_value :: "ctxid \<Rightarrow> nat \<Rightarrow> handle list \<Rightarrow> mem \<Rightarrow> (handle \<times> mem) option" where
  \<comment> \<open>the expression of the leaf macros for a slot, but for cons\<close>
  "leaf_value c slot args s =
     (if slot = 0 then Some (rc_head c (args ! 0) s)
      else if slot = 1 then Some (rc_tail c (args ! 0) s)
      else if slot = 2 then Some (truth c (rc_type s (args ! 0) = RC_PAIR) s)
      else if slot = 3 then Some (truth c (rc_type s (args ! 0) = RC_NUMBER) s)
      else if slot = 4 then Some (truth c (rc_type s (args ! 0) = RC_STRING) s)
      else if slot = 5 then map_option (\<lambda>(e, s). truth c e s) (rc_equal (args ! 0) (args ! 1) s)
      else Some (numeric c (builtin_ops ! slot) (args ! 0) (args ! 1) s))"

definition leaf_validated :: "callbacks \<Rightarrow> ctxid \<Rightarrow> nat \<Rightarrow> handle \<Rightarrow> handle list \<Rightarrow> bool \<Rightarrow> mem \<Rightarrow> (handle \<times> mem) option" where
  \<comment> \<open>the \<open>_validated\<close> bodies\<close>
  "leaf_validated cb c slot fn args tail_position s =
     (if slot = 14 then let (v, s) = rc_cons_owned c (args ! 0) (args ! 1) s in Some (leaf_finish c v s)
      else Option.bind (leaf_value c slot args s)
             (\<lambda>(v, s). if slot < 2 \<and> \<not> tail_position \<and> rc_type s v = RC_TAIL
                       then rc_apply_owned_args cb c fn args (rc_release v s)
                       else Some (leaf_finish c v (consume_arguments args s))))"

definition leaf_owned :: "callbacks \<Rightarrow> ctxid \<Rightarrow> nat \<Rightarrow> handle \<Rightarrow> handle list \<Rightarrow> bool \<Rightarrow> mem \<Rightarrow> (handle \<times> mem) option" where
  \<comment> \<open>\<open>rc_primitive_*_owned\<close>\<close>
  "leaf_owned cb c slot fn args tail_position s =
     (if \<not> rc_builtin_call_matches s c slot fn args then primitive_call_owned_slow cb c fn args tail_position s
      else leaf_validated cb c slot fn args tail_position s)"

definition leaf_borrowed_slow :: "callbacks \<Rightarrow> ctxid \<Rightarrow> handle \<Rightarrow> handle list \<Rightarrow> bool \<Rightarrow> mem \<Rightarrow> (handle \<times> mem) option" where
  "leaf_borrowed_slow cb c fn args tail_position s =
     (if tail_position then Some (rc_tailcall c fn args s) else rc_apply cb c fn args s)"

definition leaf_borrowed :: "callbacks \<Rightarrow> ctxid \<Rightarrow> nat \<Rightarrow> handle \<Rightarrow> handle list \<Rightarrow> bool \<Rightarrow> mem \<Rightarrow> (handle \<times> mem) option" where
  \<comment> \<open>\<open>rc_primitive_*_borrowed\<close>\<close>
  "leaf_borrowed cb c slot fn args tail_position s =
     (if \<not> rc_builtin_call_matches s c slot fn args then leaf_borrowed_slow cb c fn args tail_position s
      else Option.bind (leaf_value c slot args s)
             (\<lambda>(v, s). if slot < 2 \<and> \<not> tail_position \<and> rc_type s v = RC_TAIL
                       then rc_apply cb c fn args (rc_release v s)
                       else Some (leaf_finish c v s)))"

definition leaf_take :: "callbacks \<Rightarrow> ctxid \<Rightarrow> bool \<Rightarrow> handle \<Rightarrow> handle \<Rightarrow> bool \<Rightarrow> handle \<Rightarrow> mem \<Rightarrow> (handle \<times> mem) option" where
  \<comment> \<open>\<open>rc_primitive_hd_take\<close> and \<open>rc_primitive_tl_take\<close>\<close>
  "leaf_take cb c is_head fn p tail_position sibling s =
     (let slot = (if is_head then 0 else 1); other = (if is_head then 1 else 0);
          (v, s) = (if rc_builtin_call_matches s c slot fn [p] \<and> \<not> rc_has_error s c \<and>
                       rc_builtin_identity_matches s c other (rc_function_slot_borrowed s c sibling)
                    then rc_pair_take_unique c p is_head s else (HNull, s))
      in if v \<noteq> HNull then Some (leaf_finish c v s) else leaf_borrowed cb c slot fn [p] tail_position s)"

definition leaf_last :: "callbacks \<Rightarrow> ctxid \<Rightarrow> bool \<Rightarrow> handle \<Rightarrow> handle \<Rightarrow> bool \<Rightarrow> mem \<Rightarrow> (handle \<times> handle \<times> mem) option" where
  \<comment> \<open>\<open>rc_primitive_hd_last\<close> and \<open>rc_primitive_tl_last\<close>; the second result is \<open>args[0]\<close>\<close>
  "leaf_last cb c is_head fn p tail_position s =
     (let slot = (if is_head then 0 else 1);
          (v, p, s) = (if rc_builtin_call_matches s c slot fn [p] \<and> \<not> rc_has_error s c
                       then rc_pair_take_last c p is_head s else (HNull, p, s))
      in if v \<noteq> HNull then let (v, s) = leaf_finish c v s in Some (v, p, s)
         else map_option (\<lambda>(v, s). (v, p, s)) (leaf_borrowed cb c slot fn [p] tail_position s))"

definition rc_primitive_call_borrowed ::
  "callbacks \<Rightarrow> ctxid \<Rightarrow> handle \<Rightarrow> handle list \<Rightarrow> bool \<Rightarrow> mem \<Rightarrow> (handle \<times> mem) option" where
  "rc_primitive_call_borrowed cb c fn args tail_position s =
     (case primitive_code s c fn args of
        None \<Rightarrow> leaf_borrowed_slow cb c fn args tail_position s
      | Some opc \<Rightarrow>
          if (opc \<in> unary_ops \<and> length args = 1) \<or> (opc \<in> binary_ops \<and> length args = 2)
          then Option.bind (primitive_op cb c fn opc args s)
                 (\<lambda>(v, s). if \<not> tail_position \<and> (opc = P_HD \<or> opc = P_TL) \<and> rc_type s v = RC_TAIL
                           then rc_apply cb c fn args (rc_release v s)
                           else Some (leaf_finish c v s))
          else leaf_borrowed_slow cb c fn args tail_position s)"

definition rc_primitive_call_owned ::
  "callbacks \<Rightarrow> ctxid \<Rightarrow> handle \<Rightarrow> handle list \<Rightarrow> bool \<Rightarrow> mem \<Rightarrow> (handle \<times> mem) option" where
  "rc_primitive_call_owned cb c fn args tail_position s =
     (let slot = rc_builtin_call_slot s c fn args
      in if slot \<ge> 0 then leaf_validated cb c (nat slot) fn args tail_position s
         else primitive_call_owned_slow cb c fn args tail_position s)"

definition rc_primitive_call_rooted_owned ::
  "callbacks \<Rightarrow> ctxid \<Rightarrow> handle \<Rightarrow> handle list \<Rightarrow> bool \<Rightarrow> mem \<Rightarrow> (handle \<times> mem) option" where
  "rc_primitive_call_rooted_owned cb c fn args tail_position s =
     (if \<not> tail_position \<and> \<not> rc_closure_is_native s fn NATIVE_PRIMITIVE
      then rc_apply_rooted_owned_args cb c fn args s
      else rc_primitive_call_owned cb c fn args tail_position s)"

subsection \<open>Conditions of compiled code\<close>

definition condition_value :: "handle \<Rightarrow> mem \<Rightarrow> int \<times> mem" where
  \<comment> \<open>0 or 1, -1 for an error, -2 for a value that is not a boolean\<close>
  "condition_value v s =
     (if v = HNull then (- 1, s)
      else if \<not> rc_is_boolean s v then (- 2, rc_release v s)
      else (if rc_is_true s v then 1 else 0, rc_release v s))"

definition condition_slow :: "callbacks \<Rightarrow> ctxid \<Rightarrow> handle \<Rightarrow> handle list \<Rightarrow> mem \<Rightarrow> (int \<times> mem) option" where
  "condition_slow cb c fn args s =
     map_option (\<lambda>(v, s). condition_value v s) (rc_primitive_call_owned cb c fn args False s)"

definition condition_slow_borrowed :: "callbacks \<Rightarrow> ctxid \<Rightarrow> handle \<Rightarrow> handle list \<Rightarrow> mem \<Rightarrow> (int \<times> mem) option" where
  "condition_slow_borrowed cb c fn args s =
     map_option (\<lambda>(v, s). condition_value v s) (rc_apply cb c fn args s)"

definition condition_finish_borrowed :: "ctxid \<Rightarrow> int \<Rightarrow> mem \<Rightarrow> int \<times> mem" where
  "condition_finish_borrowed c result s = (if rc_has_error s c then (- 1, s) else (result, rc_safepoint c s))"

definition condition_finish :: "ctxid \<Rightarrow> int \<Rightarrow> handle list \<Rightarrow> mem \<Rightarrow> int \<times> mem" where
  "condition_finish c result args s = condition_finish_borrowed c result (consume_arguments args s)"

definition numeric_condition :: "ctxid \<Rightarrow> nat \<Rightarrow> handle list \<Rightarrow> mem \<Rightarrow> int \<times> mem" where
  \<comment> \<open>\<open>condition_*_value\<close> of the slots of >, <, >= and <=\<close>
  "numeric_condition c slot args s =
     (let a = args ! 0; b = args ! 1; i = rc_integer_value s a; j = rc_integer_value s b;
          x = rc_number_value s a; y = rc_number_value s b
      in if rc_type s a \<noteq> RC_NUMBER \<or> rc_type s b \<noteq> RC_NUMBER then (- 1, rc_error c ''Arithmetic requires numbers'' s)
         else (of_bool (if rc_number_is_exact_integer s a \<and> rc_number_is_exact_integer s b
                 then (if slot = 10 then i > j else if slot = 11 then i < j else if slot = 12 then i \<ge> j else i \<le> j)
                 else (if slot = 10 then dbl_lt y x else if slot = 11 then dbl_lt x y
                       else if slot = 12 then dbl_le y x else dbl_le x y)), s))"

definition condition_test :: "ctxid \<Rightarrow> nat \<Rightarrow> handle list \<Rightarrow> mem \<Rightarrow> (int \<times> mem) option" where
  "condition_test c slot args s =
     (if slot = 2 then Some (of_bool (rc_type s (args ! 0) = RC_PAIR), s)
      else if slot = 3 then Some (of_bool (rc_type s (args ! 0) = RC_NUMBER), s)
      else if slot = 4 then Some (of_bool (rc_type s (args ! 0) = RC_STRING), s)
      else if slot = 5 then map_option (\<lambda>(e, s). (of_bool e, s)) (rc_equal (args ! 0) (args ! 1) s)
      else Some (numeric_condition c slot args s))"

definition rc_condition_owned :: "callbacks \<Rightarrow> ctxid \<Rightarrow> nat \<Rightarrow> handle \<Rightarrow> handle list \<Rightarrow> mem \<Rightarrow> (int \<times> mem) option" where
  "rc_condition_owned cb c slot fn args s =
     (if \<not> rc_builtin_call_matches s c slot fn args then condition_slow cb c fn args s
      else map_option (\<lambda>(r, s). condition_finish c r args s) (condition_test c slot args s))"

definition rc_condition_borrowed :: "callbacks \<Rightarrow> ctxid \<Rightarrow> nat \<Rightarrow> handle \<Rightarrow> handle list \<Rightarrow> mem \<Rightarrow> (int \<times> mem) option" where
  "rc_condition_borrowed cb c slot fn args s =
     (if \<not> rc_builtin_call_matches s c slot fn args then condition_slow_borrowed cb c fn args s
      else map_option (\<lambda>(r, s). condition_finish_borrowed c r s) (condition_test c slot args s))"

end
