(* ===== verification/Intrinsics.thy ===== *)
theory Intrinsics
  imports Builtins
begin

text \<open>
  Intrinsics and installers (\<open>src/rc/primitives.c\<close>): the guarded native bodies of
  \<open>shen.pvar?\<close>, \<open>shen.lazyderef\<close> and \<open>assoc\<close>, calls with a reuse token, the installation of
  the primitives, the numeric hash wrapper and the native hash. An intrinsic that does not
  handle its call leaves the memory and the arguments as they are.
\<close>

subsection \<open>Dependency guards\<close>

definition primitive_dependency :: "mem \<Rightarrow> ctxid \<Rightarrow> handle \<Rightarrow> Op \<Rightarrow> nat \<Rightarrow> bool" where
  "primitive_dependency s c symbol opc n \<longleftrightarrow>
     (let code = rc_native_call_capture s c (rc_function_slot_borrowed s c symbol) (replicate n HNil) NATIVE_PRIMITIVE
      in code \<noteq> HNull \<and> rc_number_is_exact_integer s code \<and> rc_integer_value s code = op_code opc)"

definition prolog_dependencies :: "ctxid \<Rightarrow> handle list \<Rightarrow> mem \<Rightarrow> nat \<times> mem" where
  "prolog_dependencies c ks s =
     (case rc_prolog_guard_get s c ks of
        Some m \<Rightarrow> (m, s)
      | None \<Rightarrow>
          let m = (if primitive_dependency s c (ks ! 0) P_VECTORP 1 then 1 else 0) OR
                  (if primitive_dependency s c (ks ! 1) P_VGET 2 then 2 else 0) OR
                  (if rc_builtin_identity_matches s c RC_BUILTIN_EQ (rc_function_slot_borrowed s c (ks ! 2)) then 4 else 0)
          in (m, rc_prolog_guard_set c ks m s))"

definition pvar_value :: "mem \<Rightarrow> handle \<Rightarrow> handle \<Rightarrow> bool" where
  "pvar_value s v marker \<longleftrightarrow> rc_type s v = RC_VECTOR \<and> rc_vector_length s v > 0 \<and> rc_vector_slot_borrowed s v 0 = marker"

definition rc_pvar_try_owned :: "ctxid \<Rightarrow> handle \<Rightarrow> handle \<Rightarrow> handle list \<Rightarrow> mem \<Rightarrow> bool \<times> handle \<times> mem" where
  \<comment> \<open>the first result is \<open>*handled\<close>\<close>
  "rc_pvar_try_owned c self a deps s =
     (if rc_has_error s c \<or> \<not> rc_call_values_belong s c self [a] \<or> rc_arity s self \<noteq> 1 then (False, HNull, s)
      else let (m, s) = prolog_dependencies c deps s
           in if m AND 1 = 0 then (False, HNull, s)
              else if rc_type s a = RC_VECTOR \<and> (m AND 2 = 0 \<or> m AND 4 = 0) then (False, HNull, s)
              else let result = rc_type s a = RC_VECTOR \<and> rc_vector_length s a \<noteq> 0 \<and> pvar_value s a (deps ! 3);
                       (v, s) = truth c result s; s = rc_release a s; (v, s) = leaf_finish c v s
                   in (True, v, s))"

fun deref_walk :: "nat \<Rightarrow> mem \<Rightarrow> handle \<Rightarrow> handle \<Rightarrow> handle \<Rightarrow> handle \<Rightarrow> handle option" where
  \<comment> \<open>follow bound variables; None gives up, after \<open>k\<close> steps at the latest\<close>
  "deref_walk k s cursor store marker unbound =
     (if \<not> pvar_value s cursor marker then Some cursor
      else case k of
             0 \<Rightarrow> None
           | Suc k \<Rightarrow>
               if rc_vector_length s cursor < 2 \<or> rc_type s store \<noteq> RC_VECTOR then None
               else case index_arg s (rc_vector_slot_borrowed s cursor 1) (rc_vector_length s store) of
                      None \<Rightarrow> None
                    | Some n \<Rightarrow>
                        let next = rc_vector_slot_borrowed s store n
                        in if next = unbound then Some cursor else deref_walk k s next store marker unbound)"

definition rc_lazyderef_try_owned ::
  "ctxid \<Rightarrow> handle \<Rightarrow> handle \<Rightarrow> handle \<Rightarrow> handle list \<Rightarrow> (handle \<Rightarrow> bool) \<Rightarrow> mem \<Rightarrow> bool \<times> handle \<times> mem" where
  \<comment> \<open>\<open>certified_pvar\<close> is the compiler's predicate on the current binding of \<open>shen.pvar?\<close>\<close>
  "rc_lazyderef_try_owned c self value store deps certified_pvar s =
     (if rc_has_error s c \<or> \<not> rc_call_values_belong s c self [value, store] \<or> rc_arity s self \<noteq> 2 \<or>
         rc_function_slot_borrowed s c (deps ! 0) \<noteq> self \<or> \<not> certified_pvar (rc_function_slot_borrowed s c (deps ! 1))
      then (False, HNull, s)
      else let (m, s) = prolog_dependencies c (drop 2 deps) s
           in if m \<noteq> 7 then (False, HNull, s)
              else case deref_walk 4096 s value store (deps ! 5) (deps ! 6) of
                     None \<Rightarrow> (False, HNull, s)
                   | Some cursor \<Rightarrow>
                       let s = (if cursor = value then s else rc_release value (rc_retain cursor s));
                           s = rc_release store s; (v, s) = leaf_finish c cursor s
                       in (True, v, s))"

datatype assoc_result = AssocGiveUp | AssocFound handle | AssocError

fun assoc_walk :: "nat \<Rightarrow> ctxid \<Rightarrow> handle \<Rightarrow> handle \<Rightarrow> mem \<Rightarrow> (assoc_result \<times> mem) option" where
  \<comment> \<open>the bounded search of an association list; the entry found is not yet retained\<close>
  "assoc_walk 0 c key cursor s = Some (AssocGiveUp, s)"
| "assoc_walk (Suc k) c key cursor s =
     (if rc_is_nil cursor then Some (AssocFound HNil, s)
      else if rc_type s cursor \<noteq> RC_PAIR then Some (AssocGiveUp, s)
      else let entry = rc_head_borrowed s cursor; rest = rc_tail_borrowed s cursor
           in if rc_type s entry = RC_PAIR
              then Option.bind (rc_equal key (rc_head_borrowed s entry) s)
                     (\<lambda>(e, s). if rc_has_error s c then Some (AssocError, s)
                               else if e then Some (AssocFound entry, s)
                               else assoc_walk k c key rest s)
              else assoc_walk k c key rest s)"

definition assoc_dependencies :: "mem \<Rightarrow> ctxid \<Rightarrow> handle \<Rightarrow> handle list \<Rightarrow> bool" where
  "assoc_dependencies s c self deps \<longleftrightarrow>
     rc_function_slot_borrowed s c (deps ! 0) = self \<and>
     (\<forall>(i, slot)\<in>set [(1, 5), (2, 2), (3, 0), (4, 1)].
        rc_builtin_identity_matches s c slot (rc_function_slot_borrowed s c (deps ! i)))"

definition rc_assoc_try_owned :: "ctxid \<Rightarrow> handle \<Rightarrow> handle \<Rightarrow> handle \<Rightarrow> handle list \<Rightarrow> mem \<Rightarrow> (bool \<times> handle \<times> mem) option" where
  \<comment> \<open>the lookups of the dependencies retain and release each binding, which changes nothing\<close>
  "rc_assoc_try_owned c self key lst deps s =
     (if rc_is_nil lst \<or> \<not> rc_call_values_belong s c self [key, lst] \<or> rc_arity s self \<noteq> 2 \<or>
         \<not> assoc_dependencies s c self deps
      then Some (False, HNull, s)
      else map_option (\<lambda>(r, s).
             case r of
               AssocGiveUp \<Rightarrow> (False, HNull, s)
             | AssocFound v \<Rightarrow> (True, v, rc_release lst (rc_release key (rc_retain v s)))
             | AssocError \<Rightarrow> (True, HNull, rc_release lst (rc_release key s)))
           (assoc_walk 4096 c key lst s))"

subsection \<open>Reuse tokens\<close>

definition is_primitive_closure :: "mem \<Rightarrow> handle \<Rightarrow> Op \<Rightarrow> nat \<Rightarrow> bool" where
  \<comment> \<open>an original primitive closure of the opcode, canonical or not\<close>
  "is_primitive_closure s fn opc n \<longleftrightarrow>
     rc_closure_is_native s fn NATIVE_PRIMITIVE \<and> rc_arity s fn = n \<and>
     rc_capture s fn 0 \<noteq> HNull \<and> rc_integer_value s (rc_capture s fn 0) = op_code opc"

definition rc_cons_call_reuse ::
  "callbacks \<Rightarrow> ctxid \<Rightarrow> handle \<Rightarrow> handle \<Rightarrow> handle \<Rightarrow> handle \<Rightarrow> bool \<Rightarrow> mem \<Rightarrow> (handle \<times> mem) option" where
  "rc_cons_call_reuse cb c fn candidate h t tail_position s =
     (if rc_builtin_identity_matches s c 14 fn \<or> is_primitive_closure s fn P_CONS 2
      then Some (rc_cons_reuse c candidate h t s)
      else map_option (\<lambda>(v, s). (v, rc_release candidate s)) (leaf_borrowed_slow cb c fn [h, t] tail_position s))"

definition rc_cons_call_reuse_owned ::
  "callbacks \<Rightarrow> ctxid \<Rightarrow> handle \<Rightarrow> handle \<Rightarrow> handle \<Rightarrow> handle \<Rightarrow> bool \<Rightarrow> mem \<Rightarrow> (handle \<times> mem) option" where
  "rc_cons_call_reuse_owned cb c fn h t candidate tail_position s =
     (if (rc_builtin_identity_matches s c 14 fn \<or> is_primitive_closure s fn P_CONS 2) \<and> \<not> rc_has_error s c
      then let (v, s) = rc_cons_reuse_owned c candidate h t s in Some (leaf_finish c v s)
      else rc_primitive_call_owned cb c fn [h, t] tail_position (rc_release candidate s))"

definition rc_tail_call_reuse :: "callbacks \<Rightarrow> ctxid \<Rightarrow> handle \<Rightarrow> handle \<Rightarrow> bool \<Rightarrow> mem \<Rightarrow> (handle \<times> handle \<times> mem) option" where
  \<comment> \<open>\<open>has_out\<close>: whether the output slot is given; the second result is its contents\<close>
  "rc_tail_call_reuse cb c fn candidate has_out s =
     (if \<not> has_out then Some (HNull, HNull, rc_error c ''Missing reuse token slot'' (rc_release candidate s))
      else if rc_builtin_identity_matches s c 1 fn \<or> is_primitive_closure s fn P_TL 1
      then Some (rc_pair_take_tail_reuse c candidate True s)
      else map_option (\<lambda>(v, s). if v \<noteq> HNull then (v, candidate, s) else (v, HNull, rc_release candidate s))
             (rc_apply cb c fn [candidate] s))"

subsection \<open>Installation\<close>

definition cached_slot :: "Op \<Rightarrow> nat option" where
  \<comment> \<open>the slot that the switch of \<open>install\<close> fills for an opcode\<close>
  "cached_slot opc =
     (if opc \<in> set builtin_ops then Some (index_of opc builtin_ops) else None)"

definition install_one :: "ctxid \<Rightarrow> string \<times> nat \<times> Op \<Rightarrow> mem \<Rightarrow> bool \<times> mem" where
  "install_one c p s =
     (let (name, n, opc) = p; (code, s) = rc_integer c (op_code opc) s
      in if code = HNull then (False, s)
         else let (started, s) = (if opc = P_TIME then rc_number c (cpu_time s) s else (HNull, s))
              in if opc = P_TIME \<and> started = HNull then (False, rc_release code s)
                 else let (f, s) = (if opc = P_DO then rc_closure_return_second c NATIVE_PRIMITIVE [code] s
                            else rc_closure c n NATIVE_PRIMITIVE (if started \<noteq> HNull then [code, started] else [code]) s);
                          (f, s) = rc_closure_static f s;
                          s = rc_release started (rc_release code s)
                      in if f = HNull then (False, s)
                         else let (sym, s) = rc_symbol c (Some name) s;
                                  (ok, s) = (if sym \<noteq> HNull then rc_function_set c sym f s else (False, s));
                                  s = (case (ok, cached_slot opc) of
                                         (True, Some slot) \<Rightarrow> rc_builtin_cache_set c slot f s | _ \<Rightarrow> s)
                              in (ok, rc_release f (rc_release sym s)))"

fun install :: "ctxid \<Rightarrow> (string \<times> nat \<times> Op) list \<Rightarrow> mem \<Rightarrow> bool \<times> mem" where
  "install c [] s = (True, s)"
| "install c (p # ps) s = (let (ok, s) = install_one c p s in if ok then install c ps s else (False, s))"

definition rc_install_overwrites :: "ctxid \<Rightarrow> mem \<Rightarrow> bool \<times> mem" where
  "rc_install_overwrites c = install c overwrites"

fun put_globals :: "ctxid \<Rightarrow> (string \<times> (mem \<Rightarrow> handle \<times> mem)) list \<Rightarrow> mem \<Rightarrow> bool \<times> mem" where
  \<comment> \<open>the chain of \<open>put_global\<close> calls, up to the first that fails\<close>
  "put_globals c [] s = (True, s)"
| "put_globals c ((name, mk) # ps) s = (let (ok, s) = put_global c name (mk s) in if ok then put_globals c ps s else (False, s))"

definition rc_install_primitives :: "ctxid \<Rightarrow> string option \<Rightarrow> mem \<Rightarrow> bool \<times> mem" where
  \<comment> \<open>\<open>sysname\<close>: what \<open>uname\<close> reports, None when it fails\<close>
  "rc_install_primitives c sysname s =
     (case sysname of
        None \<Rightarrow> (False, rc_error c (''Cannot determine host OS: '' @ errno_text s) s)
      | Some os \<Rightarrow>
          let (ok, s) = install c core s; (ok, s) = (if ok then rc_install_overwrites c s else (False, s))
          in if \<not> ok then (False, s)
             else put_globals c
               [(''*os*'', rc_string c (Some os)), (''*language*'', rc_symbol c (Some ''C'')),
                (''*implementation*'', rc_symbol c (Some ''C'')),
                (''*home-directory*'', rc_string c (Some [])),
                (''*release*'', rc_number c (round_ratio False 1 10)),
                (''*port*'', rc_string c (Some ''Shen/C RC'')),
                (''*porters*'', rc_string c (Some ''Tatsuya Tsuda; RC backend contributors'')),
                (''*stinput*'', rc_stream c (Some STDIN) False), (''*stoutput*'', rc_stream c (Some 1) False),
                (''*sterror*'', rc_stream c (Some 2) False), (''*hush*'', rc_false c),
                (''*argv*'', \<lambda>s. (HNil, s))] s)"

subsection \<open>Hash wrappers\<close>

definition hashkey_deps :: "string list" where
  "hashkey_deps = [''number?'', ''explode'', ''shen.app'', ''str'', ''map'', ''string->n'', ''shen.prodbutzero'']"

fun lookup_names :: "ctxid \<Rightarrow> string list \<Rightarrow> mem \<Rightarrow> handle list \<times> mem" where
  \<comment> \<open>the current function of each name, owned; NULL where there is none\<close>
  "lookup_names c [] s = ([], s)"
| "lookup_names c (n # ns) s =
     (let (sym, s) = rc_symbol c (Some n) s;
          (f, s) = (if sym \<noteq> HNull then rc_function_lookup c sym s else (HNull, s));
          (fs, s) = lookup_names c ns (rc_release sym s)
      in (f # fs, s))"

fun bindings_unchanged :: "ctxid \<Rightarrow> handle \<Rightarrow> nat \<Rightarrow> string list \<Rightarrow> mem \<Rightarrow> bool \<times> mem" where
  \<comment> \<open>whether every name is still bound to the capture at its index\<close>
  "bindings_unchanged c self i [] s = (True, s)"
| "bindings_unchanged c self i (n # ns) s =
     (let (sym, s) = rc_symbol c (Some n) s;
          (f, s) = (if sym \<noteq> HNull then rc_function_lookup c sym s else (HNull, s));
          same = f \<noteq> HNull \<and> f = rc_capture s self i;
          (rest, s) = bindings_unchanged c self (i + 1) ns (rc_release sym (rc_release f s))
      in (same \<and> rest, s))"

definition integral_double :: "dbl \<Rightarrow> bool" where
  "integral_double n \<longleftrightarrow> isfinite n \<and> int64_range n \<and> is_integral n"

definition numeric_hashkey_wrapper :: "callbacks \<Rightarrow> ctxid \<Rightarrow> handle \<Rightarrow> handle list \<Rightarrow> mem \<Rightarrow> (handle \<times> mem) option" where
  "numeric_hashkey_wrapper cb c self args s =
     (let target = rc_capture s self 0; key = args ! 0; n = rc_number_value s key
      in if length args \<noteq> 1 then Some (rc_fail c ''shen.hashkey expects one argument'' s)
         else if rc_type s key \<noteq> RC_NUMBER \<or> rc_number_is_exact_integer s key \<or> \<not> integral_double n
         then rc_apply cb c target args s
         else let (same, s) = bindings_unchanged c self 1 hashkey_deps s
              in if same \<and> rc_builtin_identity_matches s c 3 (rc_capture s self 1)
                 then let (i, s) = rc_integer c (dbl_to_int n) s
                      in if i = HNull then Some (HNull, s)
                         else map_option (\<lambda>(v, s). (v, rc_release i s)) (rc_apply cb c target [i] s)
                 else rc_apply cb c target args s)"

definition install_numeric_hash :: "(mem \<Rightarrow> handle \<Rightarrow> bool) \<Rightarrow> ctxid \<Rightarrow> mem \<Rightarrow> bool \<times> mem" where
  \<comment> \<open>the common body of the two installers; \<open>expected\<close> recognises the kernel's closure\<close>
  "install_numeric_hash expected c s =
     (let (name, s) = rc_symbol c (Some ''shen.hashkey'') s;
          (original, s) = (if name \<noteq> HNull then rc_function_lookup c name s else (HNull, s))
      in if original = HNull \<or> \<not> expected s original
         then let s = rc_release name (rc_release original s) in (\<not> rc_has_error s c, s)
         else let (fs, s) = lookup_names c hashkey_deps s; match = HNull \<notin> set fs;
                  (wrapper, s) = (if match then let (f, s) = rc_closure c 1 NATIVE_HASHKEY (original # fs) s in rc_closure_static f s
                                  else (HNull, s));
                  (ok, s) = (if wrapper \<noteq> HNull then rc_function_set c name wrapper s else (False, s));
                  s = rc_release name (rc_release original (rc_release wrapper (fold rc_release fs s)))
              in ((\<not> match \<or> ok) \<and> \<not> rc_has_error s c, s))"

definition rc_install_numeric_hash_owned :: "ctxid \<Rightarrow> native_id \<Rightarrow> mem \<Rightarrow> bool \<times> mem" where
  "rc_install_numeric_hash_owned c expected = install_numeric_hash (\<lambda>s v. rc_closure_is_owned_native s v expected) c"

definition rc_install_numeric_hash_borrowed :: "ctxid \<Rightarrow> native_id \<Rightarrow> mem \<Rightarrow> bool \<times> mem" where
  "rc_install_numeric_hash_borrowed c expected = install_numeric_hash (\<lambda>s v. rc_closure_is_native s v expected) c"

subsection \<open>The native hash\<close>

definition native_hash_deps :: "string list" where
  "native_hash_deps =
     [''shen.mod'', ''shen.modh'', ''shen.multiples'', ''shen.hashkey'', ''shen.prodbutzero'',
      ''map'', ''shen.map-h'', ''reverse'', ''shen.reverse-help'', ''string->n'', ''explode'',
      ''shen.explode-h'', ''shen.app'', ''shen.arg->str'', ''fail'', ''shen.list?'', ''empty?'',
      ''shen.str->str'', ''shen.atom->str'', ''shen.+string?'', ''hdstr'', ''pos'', ''tlstr'', ''str'', ''cn'',
      ''cons?'', ''string?'', ''absvector?'', ''number?'', ''cons'', ''hd'', ''tl'', ''='', ''+'', ''-'', ''*'', ''>'']"

definition native_hash_deps_unchanged :: "ctxid \<Rightarrow> handle \<Rightarrow> mem \<Rightarrow> bool \<times> mem" where
  "native_hash_deps_unchanged c self s =
     (if rc_native_hash_certified s c then (True, s)
      else let n = length native_hash_deps
           in if \<exists>i<n. rc_function_slot_borrowed s c (rc_capture s self (1 + i)) \<noteq> rc_capture s self (1 + n + i)
              then (False, s) else (True, rc_native_hash_certify c s))"

definition hash_byte :: "char \<Rightarrow> int \<Rightarrow> int" where
  \<comment> \<open>one step of \<open>shen.prodbutzero\<close>\<close>
  "hash_byte x h = (if x = CHR 0x00 then h else if h > 10000000000 then h + of_char x else h * of_char x)"

definition hash_bytes :: "string \<Rightarrow> int" where
  "hash_bytes bs = fold hash_byte bs 1"

definition hash_text :: "mem \<Rightarrow> handle \<Rightarrow> string option" where
  \<comment> \<open>the bytes that are hashed, None for keys left to the kernel\<close>
  "hash_text s key =
     (case rc_type s key of
        RC_SYMBOL \<Rightarrow> Some (if symbol_is s key ''shen.fail!'' then ''...'' else data (load_of s key))
      | RC_STRING \<Rightarrow> Some (data (load_of s key))
      | RC_NUMBER \<Rightarrow> if rc_number_is_exact_integer s key then Some (show_int (rc_integer_value s key)) else None
      | _ \<Rightarrow> None)"

definition native_hash :: "callbacks \<Rightarrow> ctxid \<Rightarrow> handle \<Rightarrow> handle list \<Rightarrow> mem \<Rightarrow> (handle \<times> mem) option" where
  "native_hash cb c self args s =
     (let original = rc_capture s self 0
      in if length args \<noteq> 2 then rc_apply cb c original args s
         else case integer_arg s (args ! 1) of
                None \<Rightarrow> rc_apply cb c original args s
              | Some m \<Rightarrow>
                  if m \<le> 0 then rc_apply cb c original args s
                  else let (same, s) = native_hash_deps_unchanged c self s
                       in if \<not> same then rc_apply cb c original args s
                          else case hash_text s (args ! 0) of
                                 None \<Rightarrow> rc_apply cb c original args s
                               | Some bs \<Rightarrow> let r = hash_bytes bs mod m in Some (rc_integer c (if r \<noteq> 0 then r else 1) s))"

fun hash_captures :: "ctxid \<Rightarrow> string list \<Rightarrow> mem \<Rightarrow> handle list \<times> handle list \<times> mem" where
  \<comment> \<open>the dependency symbols and their current functions\<close>
  "hash_captures c [] s = ([], [], s)"
| "hash_captures c (n # ns) s =
     (let (sym, s) = rc_symbol c (Some n) s;
          (f, s) = (if sym \<noteq> HNull then rc_function_lookup c sym s else (HNull, s));
          (syms, fs, s) = hash_captures c ns s
      in (sym # syms, f # fs, s))"

definition rc_install_native_hash :: "ctxid \<Rightarrow> mem \<Rightarrow> bool \<times> mem" where
  "rc_install_native_hash c s =
     (let (name, s) = rc_symbol c (Some ''hash'') s;
          (original, s) = (if name \<noteq> HNull then rc_function_lookup c name s else (HNull, s))
      in if original = HNull then (True, rc_clear_error c (rc_release name s))
         else let (syms, fs, s) = hash_captures c native_hash_deps s; ok = HNull \<notin> set (syms @ fs);
                  (wrapper, s) = (if ok then let (f, s) = rc_closure c 2 NATIVE_HASH (original # syms @ fs) s in rc_closure_static f s
                                  else (HNull, s));
                  (ok, s) = (if wrapper \<noteq> HNull then rc_function_set c name wrapper s else (False, s));
                  s = rc_release name (rc_release wrapper (fold rc_release (original # syms @ fs) s))
              in if \<not> ok \<and> rc_has_error s c then (False, s) else (True, rc_clear_error c s))"

end
