(* ===== verification/Plans.thy ===== *)
theory Plans
  imports Intrinsics
begin

text \<open>
  Forms and evaluation plans of the interpreter (\<open>src/rc/eval.c\<close>, \<open>src/rc/eval_plan.h\<close>): the
  classification of special forms, the list helpers, the compiler from an expression to a plan,
  the byte layout of a plan and its preparation. A plan is a closure whose first capture is a
  string holding the header, the nodes and the auxiliary indices as C stores them
  (little-endian), followed by the parameter names and the literals.
\<close>

definition NATIVE_DYNAMIC :: native_id where "NATIVE_DYNAMIC = 4"
definition NATIVE_PREPARED :: native_id where "NATIVE_PREPARED = 5"
definition NATIVE_PLAN :: native_id where "NATIVE_PLAN = 6"
definition NATIVE_EVAL :: native_id where "NATIVE_EVAL = 7"

subsection \<open>Forms\<close>

datatype Form = F_CALL | F_IF | F_LET | F_COND | F_AND | F_OR | F_LAMBDA | F_FREEZE | F_DEFUN
  | F_TRAP | F_TYPE | F_QUOTE

definition form_names :: "(string \<times> Form) list" where
  "form_names =
     [(''if'', F_IF), (''let'', F_LET), (''lambda'', F_LAMBDA), (''cond'', F_COND), (''c-quote'', F_QUOTE),
      (''and'', F_AND), (''or'', F_OR), (''freeze'', F_FREEZE), (''defun'', F_DEFUN),
      (''trap-error'', F_TRAP), (''type'', F_TYPE), (''quote'', F_QUOTE)]"

definition form_of :: "mem \<Rightarrow> handle \<Rightarrow> Form" where
  "form_of s h =
     (if rc_type s h \<noteq> RC_SYMBOL then F_CALL
      else case map_of form_names (data (load_of s h)) of Some f \<Rightarrow> f | None \<Rightarrow> F_CALL)"

definition atomic_value :: "ctxid \<Rightarrow> handle \<Rightarrow> handle \<Rightarrow> mem \<Rightarrow> (handle \<times> mem) option" where
  "atomic_value c e env s =
     (if e = HNull then Some (rc_fail c ''eval-kl: null expression'' s)
      else if rc_type s e = RC_SYMBOL
      then map_option (\<lambda>v. let r = (if v \<noteq> HNull then v else e) in (r, rc_retain r s)) (rc_env_lookup s env e)
      else Some (e, rc_retain e s))"

definition extend_env :: "ctxid \<Rightarrow> handle \<Rightarrow> handle \<Rightarrow> handle \<Rightarrow> mem \<Rightarrow> handle \<times> mem" where
  "extend_env c env name v = rc_env_frame c env 1 (Some [name]) (Some [v])"

definition list_length :: "ctxid \<Rightarrow> handle \<Rightarrow> mem \<Rightarrow> nat option \<times> mem" where
  "list_length c lst s =
     (case rc_list_length_cached s lst of
        (RC_LIST_LENGTH_OK, n) \<Rightarrow> (Some n, s)
      | (status, _) \<Rightarrow>
          (None, rc_error c (if status = RC_LIST_LENGTH_IMPROPER then ''eval-kl: improper expression list''
                             else ''eval-kl: expression list length overflow'') s))"

definition nth_tail :: "mem \<Rightarrow> handle \<Rightarrow> nat \<Rightarrow> handle" where
  \<comment> \<open>\<open>while (n--) list = rc_tail_borrowed(list)\<close>\<close>
  "nth_tail s lst n = (rc_tail_borrowed s ^^ n) lst"

definition nth_item :: "mem \<Rightarrow> handle \<Rightarrow> nat \<Rightarrow> handle" where
  \<comment> \<open>\<open>nth\<close> of the source\<close>
  "nth_item s lst n = rc_head_borrowed s (nth_tail s lst n)"

definition spine :: "mem \<Rightarrow> handle \<Rightarrow> nat \<Rightarrow> handle list" where
  \<comment> \<open>the first \<open>n\<close> items of a list, as the loops over \<open>rc_tail_borrowed\<close> meet them\<close>
  "spine s lst n = map (nth_item s lst) [0..<n]"

definition count_is :: "ctxid \<Rightarrow> nat \<Rightarrow> nat \<Rightarrow> string \<Rightarrow> mem \<Rightarrow> bool \<times> mem" where
  "count_is c n expected form s =
     (if n = expected then (True, s)
      else (False, rc_error c (''eval-kl: '' @ form @ '' expects '' @ digits_of expected @ '' arguments, received '' @ digits_of n) s))"

fun check_parameters :: "ctxid \<Rightarrow> handle list \<Rightarrow> mem \<Rightarrow> bool \<times> mem" where
  \<comment> \<open>the loop of \<open>parameters\<close>\<close>
  "check_parameters c [] s = (True, s)"
| "check_parameters c (p # ps) s =
     (if rc_type s p \<noteq> RC_SYMBOL then (False, rc_error c ''eval-kl: parameter must be a symbol'' s)
      else if p \<in> set ps then (False, rc_error c (''eval-kl: duplicate parameter '' @ data (load_of s p)) s)
      else check_parameters c ps s)"

definition parameters :: "ctxid \<Rightarrow> handle \<Rightarrow> mem \<Rightarrow> nat option \<times> mem" where
  "parameters c params s =
     (case list_length c params s of
        (None, s) \<Rightarrow> (None, s)
      | (Some n, s) \<Rightarrow> let (ok, s) = check_parameters c (spine s params n) s in (if ok then Some n else None, s))"

subsection \<open>Plans\<close>

text \<open>The constructors of \<open>PlanOp\<close> carry \<open>PL\<close> for \<open>P\<close>, which the opcodes of the primitives use.\<close>

datatype PlanOp = PL_CONST | PL_LOCAL | PL_NONLOCAL | PL_CALL | PL_CALL_EXPR | PL_IF | PL_LET | PL_COND
  | PL_AND | PL_OR | PL_TYPE | PL_FALLBACK

definition plan_ops :: "PlanOp list" where
  "plan_ops = [PL_CONST, PL_LOCAL, PL_NONLOCAL, PL_CALL, PL_CALL_EXPR, PL_IF, PL_LET, PL_COND, PL_AND, PL_OR, PL_TYPE, PL_FALLBACK]"

record PlanNode =
  node_op :: PlanOp
  node_a :: nat
  node_b :: nat
  node_c :: nat
  node_n :: nat

record PlanHeader =
  header_nodes :: nat
  header_params :: nat
  header_literals :: nat
  header_aux :: nat
  header_root :: nat

record PlanBuild =
  nodes :: "PlanNode list"
  aux :: "nat list"
  literals :: "handle list"
  failed :: bool

type_synonym scope = "(handle \<times> nat) list"  \<comment> \<open>\<open>PlanBinding\<close> chain, innermost first\<close>

definition PLAN_LIMIT :: nat where "PLAN_LIMIT = 4096"
definition PLAN_DEPTH :: nat where "PLAN_DEPTH = 128"

definition u16 :: "nat \<Rightarrow> nat" where
  \<comment> \<open>conversion to \<open>uint16_t\<close>, the type of a node's fields\<close>
  "u16 n = n mod 65536"

definition plan_literal :: "handle \<Rightarrow> PlanBuild \<Rightarrow> nat \<times> PlanBuild" where
  "plan_literal v b =
     (case List.find (\<lambda>i. literals b ! i = v) [0..<length (literals b)] of
        Some i \<Rightarrow> (i, b)
      | None \<Rightarrow> if length (literals b) = PLAN_LIMIT then (0, b\<lparr>failed := True\<rparr>)
                else (length (literals b), b\<lparr>literals := literals b @ [v]\<rparr>))"

definition plan_local :: "handle list \<Rightarrow> handle \<Rightarrow> scope \<Rightarrow> nat \<Rightarrow> (nat \<times> nat) option" where
  \<comment> \<open>how many let frames up, and the parameter slot past the last one\<close>
  "plan_local params name sc depth =
     (case map_of sc name of
        Some d \<Rightarrow> Some (depth - d, 0)
      | None \<Rightarrow> map_option (Pair depth) (List.find (\<lambda>i. params ! i = name) [0..<length params]))"

definition set_node :: "nat \<Rightarrow> (PlanNode \<Rightarrow> PlanNode) \<Rightarrow> PlanBuild \<Rightarrow> PlanBuild" where
  "set_node pc f b = b\<lparr>nodes := (nodes b)[pc := f (nodes b ! pc)]\<rparr>"

definition new_node :: PlanNode where
  "new_node = \<lparr>node_op = PL_CONST, node_a = 0, node_b = 0, node_c = 0, node_n = 0\<rparr>"

type_synonym compiler = "handle \<Rightarrow> scope \<Rightarrow> nat \<Rightarrow> PlanBuild \<Rightarrow> nat \<times> PlanBuild"

fun compile_into :: "compiler \<Rightarrow> scope \<Rightarrow> nat \<Rightarrow> nat \<Rightarrow> handle list \<Rightarrow> PlanBuild \<Rightarrow> PlanBuild" where
  \<comment> \<open>compile each expression into the reserved auxiliary entries from an index on\<close>
  "compile_into rec sc depth i [] b = b"
| "compile_into rec sc depth i (e # es) b =
     (let (j, b) = rec e sc depth b in compile_into rec sc depth (i + 1) es (b\<lparr>aux := (aux b)[i := j]\<rparr>))"

definition plan_atom :: "mem \<Rightarrow> handle list \<Rightarrow> handle \<Rightarrow> scope \<Rightarrow> nat \<Rightarrow> nat \<Rightarrow> PlanBuild \<Rightarrow> PlanBuild" where
  "plan_atom s params e sc depth pc b =
     (if rc_type s e = RC_SYMBOL
      then case plan_local params e sc depth of
             Some (up, slot) \<Rightarrow> set_node pc (\<lambda>n. n\<lparr>node_op := PL_LOCAL, node_a := up, node_b := slot\<rparr>) b
           | None \<Rightarrow> let (i, b) = plan_literal e b in set_node pc (\<lambda>n. n\<lparr>node_op := PL_NONLOCAL, node_a := i\<rparr>) b
      else let (i, b) = plan_literal e b in set_node pc (\<lambda>n. n\<lparr>node_a := i\<rparr>) b)"

definition plan_fallback :: "handle \<Rightarrow> nat \<Rightarrow> PlanBuild \<Rightarrow> PlanBuild" where
  "plan_fallback e pc b =
     (let (i, b) = plan_literal e b in set_node pc (\<lambda>n. n\<lparr>node_op := PL_FALLBACK, node_a := i\<rparr>) b)"

definition pair_clauses :: "mem \<Rightarrow> handle list \<Rightarrow> bool" where
  \<comment> \<open>every clause of a cond is a list of two items\<close>
  "pair_clauses s cls \<longleftrightarrow> (\<forall>x\<in>set cls. rc_list_length_cached s x = (RC_LIST_LENGTH_OK, 2))"

definition plan_form :: "mem \<Rightarrow> compiler \<Rightarrow> handle list \<Rightarrow> handle \<Rightarrow> scope \<Rightarrow> nat \<Rightarrow> nat \<Rightarrow> PlanBuild \<Rightarrow> PlanBuild" where
  \<comment> \<open>a pair expression into the node \<open>pc\<close>, which is already allocated; the room left in \<open>aux\<close> is
    computed in \<open>size_t\<close>, and its entries are reserved by counting only\<close>
  "plan_form s rec params e sc depth pc b =
     (let h = rc_head_borrowed s e; args = rc_tail_borrowed s e; (status, n) = rc_list_length_cached s args;
          arg = nth_item s args
      in if status \<noteq> RC_LIST_LENGTH_OK \<or> n > PLAN_LIMIT then plan_fallback e pc b
         else let form = (if rc_type s h = RC_SYMBOL \<and> plan_local params h sc depth \<noteq> None then F_CALL else form_of s h)
              in case form of
                   F_IF \<Rightarrow>
                     if n \<noteq> 3 then plan_fallback e pc b
                     else let b = set_node pc (\<lambda>x. x\<lparr>node_op := PL_IF\<rparr>) b;
                              (i, b) = rec (arg 0) sc depth b; b = set_node pc (\<lambda>x. x\<lparr>node_a := i\<rparr>) b;
                              (j, b) = rec (arg 1) sc depth b; b = set_node pc (\<lambda>x. x\<lparr>node_b := j\<rparr>) b;
                              (k, b) = rec (arg 2) sc depth b
                          in set_node pc (\<lambda>x. x\<lparr>node_c := k\<rparr>) b
                 | F_LET \<Rightarrow>
                     if n \<noteq> 3 \<or> rc_type s (arg 0) \<noteq> RC_SYMBOL then plan_fallback e pc b
                     else let b = set_node pc (\<lambda>x. x\<lparr>node_op := PL_LET\<rparr>) b;
                              (i, b) = plan_literal (arg 0) b; b = set_node pc (\<lambda>x. x\<lparr>node_a := i\<rparr>) b;
                              (j, b) = rec (arg 1) sc depth b; b = set_node pc (\<lambda>x. x\<lparr>node_b := j\<rparr>) b;
                              (k, b) = rec (arg 2) ((arg 0, depth + 1) # sc) (depth + 1) b
                          in set_node pc (\<lambda>x. x\<lparr>node_c := k\<rparr>) b
                 | F_COND \<Rightarrow>
                     if n > sub64 PLAN_LIMIT (length (aux b)) div 2 \<or> \<not> pair_clauses s (spine s args n)
                     then plan_fallback e pc b
                     else let start = u16 (length (aux b));
                              b = set_node pc (\<lambda>x. x\<lparr>node_op := PL_COND, node_a := start, node_n := n\<rparr>) b;
                              b = b\<lparr>aux := aux b @ replicate (2 * n) 0\<rparr>
                          in compile_into rec sc depth start
                               (concat (map (\<lambda>x. [nth_item s x 0, nth_item s x 1]) (spine s args n))) b
                 | F_AND \<Rightarrow>
                     if n \<noteq> 2 then plan_fallback e pc b
                     else let b = set_node pc (\<lambda>x. x\<lparr>node_op := PL_AND\<rparr>) b;
                              (i, b) = rec (arg 0) sc depth b; b = set_node pc (\<lambda>x. x\<lparr>node_a := i\<rparr>) b;
                              (j, b) = rec (arg 1) sc depth b
                          in set_node pc (\<lambda>x. x\<lparr>node_b := j\<rparr>) b
                 | F_OR \<Rightarrow>
                     if n \<noteq> 2 then plan_fallback e pc b
                     else let b = set_node pc (\<lambda>x. x\<lparr>node_op := PL_OR\<rparr>) b;
                              (i, b) = rec (arg 0) sc depth b; b = set_node pc (\<lambda>x. x\<lparr>node_a := i\<rparr>) b;
                              (j, b) = rec (arg 1) sc depth b
                          in set_node pc (\<lambda>x. x\<lparr>node_b := j\<rparr>) b
                 | F_TYPE \<Rightarrow>
                     if n \<noteq> 2 then plan_fallback e pc b
                     else let b = set_node pc (\<lambda>x. x\<lparr>node_op := PL_TYPE\<rparr>) b;
                              (i, b) = rec (arg 0) sc depth b
                          in set_node pc (\<lambda>x. x\<lparr>node_a := i\<rparr>) b
                 | F_QUOTE \<Rightarrow>
                     if n \<noteq> 1 then plan_fallback e pc b
                     else let (i, b) = plan_literal (arg 0) b in set_node pc (\<lambda>x. x\<lparr>node_a := i\<rparr>) b
                 | F_CALL \<Rightarrow>
                     if n > sub64 PLAN_LIMIT (length (aux b)) then plan_fallback e pc b
                     else let b = set_node pc (\<lambda>x. x\<lparr>node_op := (if rc_type s h = RC_SYMBOL then PL_CALL else PL_CALL_EXPR)\<rparr>) b;
                              (i, b) = rec h sc depth b; start = u16 (length (aux b));
                              b = set_node pc (\<lambda>x. x\<lparr>node_a := i, node_b := start, node_n := n\<rparr>) b;
                              b = b\<lparr>aux := aux b @ replicate n 0\<rparr>
                          in compile_into rec sc depth start (spine s args n) b
                 | _ \<Rightarrow> plan_fallback e pc b)"

text \<open>The recursion counter of the source runs up to \<open>PLAN_DEPTH\<close>; here what is left of it runs down.\<close>

primrec plan_compile :: "nat \<Rightarrow> mem \<Rightarrow> handle list \<Rightarrow> compiler" where
  "plan_compile 0 s params = (\<lambda>e sc depth b. (0, b\<lparr>failed := True\<rparr>))"
| "plan_compile (Suc left) s params = (\<lambda>e sc depth b.
     if failed b \<or> length (nodes b) = PLAN_LIMIT then (0, b\<lparr>failed := True\<rparr>)
     else let pc = length (nodes b); b = b\<lparr>nodes := nodes b @ [new_node]\<rparr>
          in (pc, if rc_type s e \<noteq> RC_PAIR then plan_atom s params e sc depth pc b
                  else plan_form s (plan_compile left s params) params e sc depth pc b))"

subsection \<open>The stored form\<close>

definition le16 :: "nat \<Rightarrow> string" where
  \<comment> \<open>a \<open>uint16_t\<close> in memory\<close>
  "le16 n = [char_of n, char_of (n div 256)]"

definition le32 :: "nat \<Rightarrow> string" where
  "le32 n = [char_of n, char_of (n div 256), char_of (n div 65536), char_of (n div 16777216)]"

definition byte_at :: "string \<Rightarrow> nat \<Rightarrow> nat" where
  "byte_at bs i = of_char (bs ! i)"

definition get16 :: "string \<Rightarrow> nat \<Rightarrow> nat" where
  "get16 bs i = byte_at bs i + 256 * byte_at bs (i + 1)"

definition get32 :: "string \<Rightarrow> nat \<Rightarrow> nat" where
  "get32 bs i = byte_at bs i + 256 * byte_at bs (i + 1) + 65536 * byte_at bs (i + 2) + 16777216 * byte_at bs (i + 3)"

fun plan_op_index :: "PlanOp \<Rightarrow> PlanOp list \<Rightarrow> nat" where
  "plan_op_index x [] = 0"
| "plan_op_index x (y # ys) = (if x = y then 0 else Suc (plan_op_index x ys))"

definition encode_header :: "PlanHeader \<Rightarrow> string" where
  "encode_header h =
     le32 (header_nodes h) @ le32 (header_params h) @ le32 (header_literals h) @ le32 (header_aux h) @ le32 (header_root h)"

definition encode_node :: "PlanNode \<Rightarrow> string" where
  "encode_node x =
     le16 (plan_op_index (node_op x) plan_ops) @ le16 (node_a x) @ le16 (node_b x) @ le16 (node_c x) @ le16 (node_n x)"

definition encode_plan :: "PlanHeader \<Rightarrow> PlanBuild \<Rightarrow> string" where
  \<comment> \<open>the three \<open>memcpy\<close> of \<open>plan_prepare\<close>\<close>
  "encode_plan h b = encode_header h @ concat (map encode_node (nodes b)) @ concat (map le16 (aux b))"

definition plan_header :: "mem \<Rightarrow> handle \<Rightarrow> PlanHeader" where
  "plan_header s plan =
     (let bs = data (load_of s (rc_capture s plan 0))
      in \<lparr>header_nodes = get32 bs 0, header_params = get32 bs 4, header_literals = get32 bs 8,
          header_aux = get32 bs 12, header_root = get32 bs 16\<rparr>)"

definition node_at :: "string \<Rightarrow> nat \<Rightarrow> PlanNode" where
  \<comment> \<open>\<open>nodes[pc]\<close>, past the header of 20 bytes\<close>
  "node_at bs pc =
     (let i = 20 + 10 * pc
      in \<lparr>node_op = plan_ops ! get16 bs i, node_a = get16 bs (i + 2), node_b = get16 bs (i + 4),
          node_c = get16 bs (i + 6), node_n = get16 bs (i + 8)\<rparr>)"

definition aux_at :: "string \<Rightarrow> nat \<Rightarrow> nat \<Rightarrow> nat" where
  \<comment> \<open>\<open>aux[i]\<close>, past the nodes\<close>
  "aux_at bs nn i = get16 bs (20 + 10 * nn + 2 * i)"

subsection \<open>Preparation\<close>

definition plan_start :: PlanBuild where
  "plan_start = \<lparr>nodes = [], aux = [], literals = [], failed = False\<rparr>"

definition plan_matches :: "mem \<Rightarrow> handle \<Rightarrow> handle list \<Rightarrow> bool" where
  \<comment> \<open>a cached plan for the same parameter names\<close>
  "plan_matches s old params \<longleftrightarrow>
     old \<noteq> HNull \<and> rc_closure_is_native s old NATIVE_PLAN \<and> header_params (plan_header s old) = length params \<and>
     (\<forall>i<length params. rc_capture s old (i + 1) = params ! i)"

fun library_calls :: "nat \<Rightarrow> mem \<Rightarrow> bool \<times> mem" where
  \<comment> \<open>several allocations in a row, whether all of them succeed\<close>
  "library_calls 0 s = (True, s)"
| "library_calls (Suc n) s = (let (ok, s) = library_call s; (rest, s) = library_calls n s in (ok \<and> rest, s))"

definition store_plan :: "ctxid \<Rightarrow> addr \<Rightarrow> handle list \<Rightarrow> nat \<Rightarrow> PlanBuild \<Rightarrow> mem \<Rightarrow> handle \<times> mem" where
  \<comment> \<open>from the buffers to the published closure\<close>
  "store_plan c body params root b s =
     (let (ok, s) = library_calls 2 s;
          h = \<lparr>header_nodes = length (nodes b), header_params = length params,
               header_literals = length (literals b), header_aux = length (aux b), header_root = root\<rparr>
      in if \<not> ok then (HNull, s)
         else let (code, s) = rc_string_n c (Some (encode_plan h b)) s
              in if code = HNull then (HNull, s)
                 else let (plan, s) = rc_closure c 0 NATIVE_PLAN (code # params @ literals b) s;
                          s = (if plan \<noteq> HNull then rc_eval_plan_set body plan s else s)
                      in (plan, rc_release code s))"

definition plan_prepare :: "ctxid \<Rightarrow> handle \<Rightarrow> handle \<Rightarrow> handle list \<Rightarrow> bool \<Rightarrow> mem \<Rightarrow> handle \<times> mem" where
  "plan_prepare c body env params executing s =
     (case body of
        HRef a \<Rightarrow>
          if rc_type s body \<noteq> RC_PAIR \<or> length params > PLAN_LIMIT \<or> \<not> rc_eval_plan_environment s env then (HNull, s)
          else let old = rc_eval_plan_get s body
               in if plan_matches s old params then (old, rc_retain old s)
                  else let (hot, s) = (if executing then rc_eval_plan_heat a s else (False, s))
                       in if \<not> hot then (HNull, s)
                          else if form_of s (rc_head_borrowed s body) \<in> {F_LAMBDA, F_FREEZE, F_DEFUN, F_TRAP} then (HNull, s)
                          else let (ok, s) = library_calls 3 s
                               in if \<not> ok then (HNull, s)
                                  else let (root, b) = plan_compile PLAN_DEPTH s params body [] 0 plan_start
                                       in if failed b \<or> node_op (nodes b ! root) = PL_FALLBACK then (HNull, s)
                                          else store_plan c a params root b s
      | _ \<Rightarrow> (HNull, s))"

definition plan_marker :: "ctxid \<Rightarrow> mem \<Rightarrow> handle \<times> mem" where
  "plan_marker c = rc_fail c ''eval-kl: private evaluation plan is not callable''"

end
