(* ===== verification/Evaluator.thy ===== *)
theory Evaluator
  imports Plans
begin

text \<open>
  The evaluator (\<open>src/rc/eval.c\<close>). What the host supplies is a record: the frame addresses that
  \<open>rc_stack_check\<close> compares, the hooks of an attached native tier, the native compiler and the
  bodies of compiled code. \<open>evaluate\<close> recurses on fuel: every recursive call and every turn of
  its loop moves to an immediate part of the expression, so a fuel of the depth of the
  expression is enough for the evaluator itself; the callbacks it enters have their own.
\<close>

subsection \<open>The host\<close>

record tier_hooks =
  hook_defun :: "ctxid \<Rightarrow> handle \<Rightarrow> handle \<Rightarrow> handle \<Rightarrow> handle \<Rightarrow> mem \<Rightarrow> mem"
  hook_call :: "ctxid \<Rightarrow> handle \<Rightarrow> mem \<Rightarrow> mem"
  hook_safepoint :: "ctxid \<Rightarrow> mem \<Rightarrow> mem"

record host =
  frame_address :: "nat \<Rightarrow> nat"  \<comment> \<open>the stack address of a callback with so much fuel left\<close>
  tier :: "tier_hooks option"
  native_eval :: "callbacks \<Rightarrow> ctxid \<Rightarrow> handle \<Rightarrow> mem \<Rightarrow> (handle \<times> mem) option"
  compiled_borrowed :: "callbacks \<Rightarrow> native_id \<Rightarrow> ctxid \<Rightarrow> handle \<Rightarrow> handle list \<Rightarrow> mem \<Rightarrow> (handle \<times> mem) option"
  compiled_owned :: "callbacks \<Rightarrow> native_id \<Rightarrow> ctxid \<Rightarrow> handle \<Rightarrow> handle list \<Rightarrow> mem \<Rightarrow> (handle \<times> handle list \<times> mem) option"

definition tier_call :: "host \<Rightarrow> ctxid \<Rightarrow> handle \<Rightarrow> mem \<Rightarrow> mem" where
  "tier_call h c self s = (case tier h of None \<Rightarrow> s | Some t \<Rightarrow> hook_call t c self s)"

type_synonym evaluator = "handle \<Rightarrow> handle \<Rightarrow> bool \<Rightarrow> mem \<Rightarrow> (handle \<times> mem) option"

subsection \<open>Functions and applications\<close>

definition make_function :: "ctxid \<Rightarrow> handle \<Rightarrow> handle \<Rightarrow> handle \<Rightarrow> mem \<Rightarrow> handle \<times> mem" where
  "make_function c params body env s =
     (case parameters c params s of
        (None, s) \<Rightarrow> (HNull, s)
      | (Some n, s) \<Rightarrow>
          if n > SIZE_MAX div PTR_BYTES - 2 then rc_fail c ''eval-kl: parameter capture size overflow'' s
          else let (ok, s) = (if n \<le> 8 then (True, s) else library_call s)
               in if \<not> ok then rc_fail c ''eval-kl: out of memory constructing parameter captures'' s
                  else let names = spine s params n; second = (n = 2 \<and> body = names ! 1);
                           (plan, s) = (if second then (HNull, s) else plan_prepare c body env names False s);
                           caps = (if plan \<noteq> HNull then plan else body) # env # names;
                           (f, s) = (if rc_has_error s c then (HNull, s)
                                     else if second then rc_closure_return_second c NATIVE_DYNAMIC caps s
                                     else rc_closure c n (if plan \<noteq> HNull then NATIVE_PREPARED else NATIVE_DYNAMIC) caps s)
                       in (f, rc_release plan s))"

definition argument_value :: "evaluator \<Rightarrow> ctxid \<Rightarrow> handle \<Rightarrow> handle \<Rightarrow> bool \<Rightarrow> mem \<Rightarrow> (handle \<times> mem) option" where
  \<comment> \<open>\<open>rc_type(e)==RC_PAIR ? evaluate(...) : atomic_value(...)\<close>\<close>
  "argument_value ev c e env tail_position s =
     (if rc_type s e = RC_PAIR then ev e env tail_position s else atomic_value c e env s)"

fun eval_arguments :: "(handle \<Rightarrow> mem \<Rightarrow> (handle \<times> mem) option) \<Rightarrow> handle list \<Rightarrow> mem \<Rightarrow> (bool \<times> handle list \<times> mem) option" where
  \<comment> \<open>the owned values from left to right, up to the first that fails\<close>
  "eval_arguments val [] s = Some (True, [], s)"
| "eval_arguments val (e # es) s =
     Option.bind (val e s)
       (\<lambda>(v, s). if v = HNull then Some (False, [], s)
                 else map_option (\<lambda>(ok, vs, s). (ok, v # vs, s)) (eval_arguments val es s))"

definition resolve_function :: "ctxid \<Rightarrow> handle \<Rightarrow> mem \<Rightarrow> handle \<times> mem" where
  \<comment> \<open>an owned value in function position: a symbol stands for its current definition\<close>
  "resolve_function c f s =
     (if f \<noteq> HNull \<and> rc_type s f = RC_SYMBOL then let (g, s) = rc_function_get c f s in (g, rc_release f s) else (f, s))"

definition apply_values ::
  "callbacks \<Rightarrow> ctxid \<Rightarrow> handle \<Rightarrow> bool \<Rightarrow> (bool \<times> handle list \<times> mem) option \<Rightarrow> (handle \<times> mem) option" where
  \<comment> \<open>call with the gathered arguments; the primitive consumes them, a failure releases them\<close>
  "apply_values cb c f tail_position gathered =
     Option.bind gathered
       (\<lambda>(ok, vs, s). if ok then map_option (\<lambda>(v, s). (v, rc_release f s)) (rc_primitive_call_rooted_owned cb c f vs tail_position s)
                      else Some (HNull, rc_release f (consume_arguments vs s)))"

definition second_argument ::
  "callbacks \<Rightarrow> (handle \<Rightarrow> bool \<Rightarrow> mem \<Rightarrow> (handle \<times> mem) option) \<Rightarrow> ctxid \<Rightarrow> handle \<Rightarrow> handle \<Rightarrow> handle \<Rightarrow> mem \<Rightarrow> (handle \<times> mem) option" where
  \<comment> \<open>a tail call of a function that returns its second argument\<close>
  "second_argument cb val c f left right s =
     Option.bind (val left False s)
       (\<lambda>(ignored, s).
          if ignored = HNull then Some (HNull, rc_release f s)
          else let valid = rc_call_values_belong s c f [ignored]
               in Option.bind (val right valid s)
                    (\<lambda>(v, s).
                       if v \<noteq> HNull \<and> \<not> valid
                       then map_option (\<lambda>(v, s). (v, rc_release f s)) (rc_primitive_call_rooted_owned cb c f [ignored, v] True s)
                       else let s = rc_release f (rc_release ignored s)
                            in if v = HNull then Some (HNull, s)
                               else if rc_has_error s c then Some (HNull, rc_release v s)
                               else let (v, s) = rc_eval_require_argument_context c v s
                                    in if v = HNull then Some (HNull, s) else Some (v, rc_safepoint c s)))"

definition application_head :: "evaluator \<Rightarrow> ctxid \<Rightarrow> handle \<Rightarrow> handle \<Rightarrow> handle \<Rightarrow> mem \<Rightarrow> (handle \<times> mem) option" where
  "application_head ev c h env lexical s =
     (if lexical \<noteq> HNull then Some (lexical, rc_retain lexical s)
      else if rc_type s h = RC_SYMBOL then Some (rc_function_get c h s)
      else ev h env False s)"

definition application ::
  "callbacks \<Rightarrow> evaluator \<Rightarrow> ctxid \<Rightarrow> handle \<Rightarrow> handle \<Rightarrow> nat \<Rightarrow> bool \<Rightarrow> handle \<Rightarrow> mem \<Rightarrow> (handle \<times> mem) option" where
  "application cb ev c e env n tail_position lexical s =
     Option.bind (application_head ev c (rc_head_borrowed s e) env lexical s)
       (\<lambda>(f, s).
          let (f, s) = resolve_function c f s; args = rc_tail_borrowed s e
          in if f = HNull then Some (HNull, s)
             else if tail_position \<and> n = 2 \<and> rc_closure_returns_second s c f
             then second_argument cb (\<lambda>x. argument_value ev c x env) c f (nth_item s args 0) (nth_item s args 1) s
             else let (ok, s) = (if n \<le> 8 then (True, s) else library_call s)
                  in if \<not> ok then Some (rc_fail c ''eval-kl: out of memory'' (rc_release f s))
                     else apply_values cb c f tail_position
                            (eval_arguments (\<lambda>x. argument_value ev c x env False) (spine s args n) s))"

subsection \<open>Special forms\<close>

text \<open>A turn of the loop ends with a result (NULL after an error) or goes on with a part of the
  expression in an environment; the flag tells whether that environment is a new local owner.\<close>

datatype turn = Finish handle mem | Next handle handle bool mem

definition fail_turn :: "ctxid \<Rightarrow> string \<Rightarrow> mem \<Rightarrow> turn" where
  "fail_turn c msg s = Finish HNull (rc_error c msg s)"

definition finish_with :: "handle \<times> mem \<Rightarrow> turn" where
  "finish_with r = Finish (fst r) (snd r)"

definition counted_form :: "ctxid \<Rightarrow> nat \<Rightarrow> nat \<Rightarrow> string \<Rightarrow> mem \<Rightarrow> (mem \<Rightarrow> turn option) \<Rightarrow> turn option" where
  \<comment> \<open>\<open>if (!count_is(...)) break;\<close> before the rest of the form\<close>
  "counted_form c n expected form s k =
     (let (ok, s) = count_is c n expected form s in if ok then k s else Some (Finish HNull s))"

definition with_test :: "ctxid \<Rightarrow> string \<Rightarrow> (handle \<times> mem) option \<Rightarrow> (bool \<Rightarrow> mem \<Rightarrow> turn option) \<Rightarrow> turn option" where
  \<comment> \<open>a condition: its value must be a boolean and is released\<close>
  "with_test c msg r k =
     Option.bind r
       (\<lambda>(t, s). if t = HNull then Some (Finish HNull s)
                 else let yes = rc_is_true s t; valid = rc_is_boolean s t; s = rc_release t s
                      in if \<not> valid then Some (fail_turn c msg s) else k yes s)"

definition eval_if :: "evaluator \<Rightarrow> ctxid \<Rightarrow> handle \<Rightarrow> handle \<Rightarrow> mem \<Rightarrow> turn option" where
  "eval_if ev c args env s =
     with_test c ''eval-kl: if test must be boolean'' (ev (nth_item s args 0) env False s)
       (\<lambda>yes s. Some (Next (nth_item s args (if yes then 1 else 2)) env False s))"

definition eval_let :: "evaluator \<Rightarrow> ctxid \<Rightarrow> handle \<Rightarrow> handle \<Rightarrow> mem \<Rightarrow> turn option" where
  "eval_let ev c args env s =
     (let name = nth_item s args 0
      in if rc_type s name \<noteq> RC_SYMBOL then Some (fail_turn c ''eval-kl: let binder must be a symbol'' s)
         else Option.bind (ev (nth_item s args 1) env False s)
                (\<lambda>(v, s). if v = HNull then Some (Finish HNull s)
                          else let (env2, s) = extend_env c env name v s; s = rc_release v s
                               in if env2 = HNull then Some (Finish HNull s)
                                  else Some (Next (nth_item s args 2) env2 True s)))"

fun eval_clauses :: "evaluator \<Rightarrow> ctxid \<Rightarrow> handle \<Rightarrow> handle list \<Rightarrow> mem \<Rightarrow> (handle \<times> mem) option" where
  \<comment> \<open>the branch of the first true clause, NULL when there is none or after an error\<close>
  "eval_clauses ev c env [] s = Some (HNull, s)"
| "eval_clauses ev c env (x # xs) s =
     (case list_length c x s of
        (None, s) \<Rightarrow> Some (HNull, s)
      | (Some n, s) \<Rightarrow>
          let (ok, s) = count_is c n 2 ''cond clause'' s
          in if \<not> ok then Some (HNull, s)
             else Option.bind (ev (nth_item s x 0) env False s)
                    (\<lambda>(t, s). if t = HNull then Some (HNull, s)
                              else let yes = rc_is_true s t; valid = rc_is_boolean s t; s = rc_release t s
                                   in if \<not> valid then Some (rc_fail c ''eval-kl: cond test must be boolean'' s)
                                      else if yes then Some (nth_item s x 1, s)
                                      else eval_clauses ev c env xs s))"

definition eval_cond :: "evaluator \<Rightarrow> ctxid \<Rightarrow> handle \<Rightarrow> nat \<Rightarrow> handle \<Rightarrow> mem \<Rightarrow> turn option" where
  "eval_cond ev c args n env s =
     map_option (\<lambda>(next, s). if next \<noteq> HNull then Next next env False s
                             else if rc_has_error s c then Finish HNull s
                             else fail_turn c ''eval-kl: no true cond case'' s)
       (eval_clauses ev c env (spine s args n) s)"

definition eval_junction :: "evaluator \<Rightarrow> ctxid \<Rightarrow> bool \<Rightarrow> handle \<Rightarrow> handle \<Rightarrow> bool \<Rightarrow> mem \<Rightarrow> turn option" where
  \<comment> \<open>\<open>and\<close> and \<open>or\<close>\<close>
  "eval_junction ev c is_and args env tail_position s =
     Option.bind (ev (nth_item s args 0) env False s)
       (\<lambda>(v, s). if v = HNull then Some (Finish HNull s)
                 else if \<not> rc_is_boolean s v
                 then Some (fail_turn c ''eval-kl: boolean arguments required'' (rc_release v s))
                 else if rc_is_true s v \<noteq> is_and then Some (Finish v s)
                 else map_option (\<lambda>(w, s). finish_with (rc_require_boolean c w s))
                        (ev (nth_item s args 1) env tail_position (rc_release v s)))"

definition eval_lambda :: "ctxid \<Rightarrow> handle \<Rightarrow> handle \<Rightarrow> mem \<Rightarrow> turn" where
  "eval_lambda c args env s =
     (if rc_type s (nth_item s args 0) \<noteq> RC_SYMBOL then fail_turn c ''eval-kl: lambda binder must be a symbol'' s
      else let (params, s) = rc_cons c (nth_item s args 0) rc_nil s
           in if params = HNull then Finish HNull s
              else let (f, s) = make_function c params (nth_item s args 1) env s in Finish f (rc_release params s))"

definition eval_freeze :: "ctxid \<Rightarrow> handle \<Rightarrow> handle \<Rightarrow> mem \<Rightarrow> turn" where
  "eval_freeze c args env s =
     (let (f, s) = make_function c rc_nil (nth_item s args 0) env s in Finish f (rc_release rc_nil s))"

definition eval_defun :: "host \<Rightarrow> ctxid \<Rightarrow> handle \<Rightarrow> handle \<Rightarrow> mem \<Rightarrow> turn" where
  "eval_defun h c e args s =
     (let name = nth_item s args 0
      in if rc_type s name \<noteq> RC_SYMBOL then fail_turn c ''eval-kl: defun name must be a symbol'' s
         else let (f, s) = make_function c (nth_item s args 1) (nth_item s args 2) rc_nil s
              in if f = HNull then Finish HNull s
                 else let old = rc_function_slot_borrowed s c name; (ok, s) = rc_function_set c name f s
                      in if \<not> ok then Finish HNull (rc_release f s)
                         else let s = (case tier h of None \<Rightarrow> s | Some t \<Rightarrow> hook_defun t c name e f old s)
                              in Finish name (rc_release f (rc_retain name s)))"

definition eval_trap :: "callbacks \<Rightarrow> evaluator \<Rightarrow> ctxid \<Rightarrow> handle \<Rightarrow> handle \<Rightarrow> bool \<Rightarrow> mem \<Rightarrow> turn option" where
  "eval_trap cb ev c args env tail_position s =
     Option.bind (ev (nth_item s args 0) env False s)
       (\<lambda>(v, s). if v \<noteq> HNull then Some (Finish v s)
                 else let (err, s) = rc_string c (Some (rc_error_message s c)) s
                      in if err = HNull then Some (Finish HNull s)
                         else Option.bind (ev (nth_item s args 1) env False (rc_clear_error c s))
                                (\<lambda>(f, s). if f = HNull then Some (Finish HNull (rc_release err s))
                                          else map_option (\<lambda>(w, s). Finish w (rc_release err (rc_release f s)))
                                                 (if tail_position then Some (rc_tailcall c f [err] s) else rc_apply cb c f [err] s)))"

definition special_form ::
  "host \<Rightarrow> callbacks \<Rightarrow> evaluator \<Rightarrow> ctxid \<Rightarrow> handle \<Rightarrow> handle \<Rightarrow> nat \<Rightarrow> handle \<Rightarrow> bool \<Rightarrow> mem \<Rightarrow> turn option" where
  "special_form h cb ev c e args n env tail_position s =
     (case form_of s (rc_head_borrowed s e) of
        F_IF \<Rightarrow> counted_form c n 3 ''if'' s (eval_if ev c args env)
      | F_LET \<Rightarrow> counted_form c n 3 ''let'' s (eval_let ev c args env)
      | F_COND \<Rightarrow> eval_cond ev c args n env s
      | F_AND \<Rightarrow> counted_form c n 2 ''and'' s (eval_junction ev c True args env tail_position)
      | F_OR \<Rightarrow> counted_form c n 2 ''or'' s (eval_junction ev c False args env tail_position)
      | F_LAMBDA \<Rightarrow> counted_form c n 2 ''lambda'' s (\<lambda>s. Some (eval_lambda c args env s))
      | F_FREEZE \<Rightarrow> counted_form c n 1 ''freeze'' s (\<lambda>s. Some (eval_freeze c args env s))
      | F_DEFUN \<Rightarrow> counted_form c n 3 ''defun'' s (\<lambda>s. Some (eval_defun h c e args s))
      | F_TRAP \<Rightarrow> counted_form c n 2 ''trap-error'' s (eval_trap cb ev c args env tail_position)
      | F_TYPE \<Rightarrow> counted_form c n 2 ''type'' s (\<lambda>s. Some (Next (nth_item s args 0) env False s))
      | F_QUOTE \<Rightarrow>
          counted_form c n 1 (data (load_of s (rc_head_borrowed s e))) s
            (\<lambda>s. Some (Finish (nth_item s args 0) (rc_retain (nth_item s args 0) s)))
      | F_CALL \<Rightarrow> map_option finish_with (application cb ev c e env n tail_position HNull s))"

definition eval_turn ::
  "host \<Rightarrow> callbacks \<Rightarrow> evaluator \<Rightarrow> ctxid \<Rightarrow> handle \<Rightarrow> handle \<Rightarrow> bool \<Rightarrow> mem \<Rightarrow> turn option" where
  \<comment> \<open>one turn of the loop of \<open>evaluate\<close>\<close>
  "eval_turn h cb ev c e env tail_position s =
     (if rc_type s e \<noteq> RC_PAIR then map_option finish_with (atomic_value c e env s)
      else let hd_form = rc_head_borrowed s e; args = rc_tail_borrowed s e
           in case list_length c args s of
                (None, s) \<Rightarrow> Some (Finish HNull s)
              | (Some n, s) \<Rightarrow>
                  Option.bind (if rc_type s hd_form = RC_SYMBOL then rc_env_lookup s env hd_form else Some HNull)
                    (\<lambda>lexical.
                       if lexical \<noteq> HNull then map_option finish_with (application cb ev c e env n tail_position lexical s)
                       else special_form h cb ev c e args n env tail_position s))"

definition evaluate_entry :: "ctxid \<Rightarrow> evaluator \<Rightarrow> evaluator" where
  \<comment> \<open>the checks of \<open>evaluate\<close> before its loop\<close>
  "evaluate_entry c loop e env tail_position s =
     (let (ok, s) = rc_interpreter_enter c s
      in if \<not> ok then Some (HNull, s)
         else if e = HNull then Some (rc_fail c ''eval-kl: null expression'' s)
         else if rc_type s e \<noteq> RC_PAIR then atomic_value c e env s
         else loop e env tail_position s)"

primrec eval_loop :: "nat \<Rightarrow> host \<Rightarrow> callbacks \<Rightarrow> ctxid \<Rightarrow> bool \<Rightarrow> evaluator" where
  \<comment> \<open>\<open>owned\<close>: the environment is a local owner, released when the loop leaves it\<close>
  "eval_loop 0 h cb c own e env tail_position s = None"
| "eval_loop (Suc k) h cb c own e env tail_position s =
     Option.bind (eval_turn h cb (evaluate_entry c (eval_loop k h cb c False)) c e env tail_position s)
       (\<lambda>x. case x of
              Finish v s \<Rightarrow> Some (v, if own then rc_release env s else s)
            | Next e2 env2 fresh s \<Rightarrow>
                if fresh then eval_loop k h cb c True e2 env2 tail_position (if own then rc_release env s else s)
                else eval_loop k h cb c own e2 env2 tail_position s)"

definition evaluate :: "nat \<Rightarrow> host \<Rightarrow> callbacks \<Rightarrow> ctxid \<Rightarrow> evaluator" where
  "evaluate k h cb c = evaluate_entry c (eval_loop k h cb c False)"

end
