(* ===== verification/Runtime.thy ===== *)
theory Runtime
  imports Evaluator
begin

text \<open>
  Prepared bodies, the evaluator's entry points and the runtime as a whole
  (\<open>src/rc/eval_plan.h\<close>, \<open>src/rc/eval.c\<close>). The chain of \<open>PlanEnvironment\<close> structs on the C stack
  is a list of local bindings, innermost first; a frame that is materialised stays with its
  binding, as it does in C, so the list is part of the state. \<open>runtime\<close> ties the knot: callbacks
  with fuel \<open>n + 1\<close> run the evaluator over callbacks with fuel \<open>n\<close>.
\<close>

subsection \<open>Prepared bodies\<close>

record local_binding =
  local_name :: handle
  local_value :: handle
  local_frame :: handle  \<comment> \<open>\<open>materialized\<close>, NULL until it is needed\<close>

record plan_run =
  run_plan :: handle
  run_parent :: handle
  run_params :: "handle list"
  run_argv :: "handle list"
  run_code :: string
  run_header :: PlanHeader

definition literal_base :: "plan_run \<Rightarrow> nat" where
  "literal_base r = 1 + header_params (run_header r)"

definition run_node :: "plan_run \<Rightarrow> nat \<Rightarrow> PlanNode" where
  "run_node r pc = node_at (run_code r) pc"

definition run_aux :: "plan_run \<Rightarrow> nat \<Rightarrow> nat" where
  "run_aux r i = aux_at (run_code r) (header_nodes (run_header r)) i"

definition run_literal :: "mem \<Rightarrow> plan_run \<Rightarrow> PlanNode \<Rightarrow> handle" where
  "run_literal s r x = rc_capture s (run_plan r) (literal_base r + node_a x)"

text \<open>The locals of a run: the frame of the parameters once it is materialised, and the bindings.\<close>

type_synonym locals = "handle \<times> local_binding list"

fun plan_environment :: "ctxid \<Rightarrow> plan_run \<Rightarrow> locals \<Rightarrow> mem \<Rightarrow> handle \<times> locals \<times> mem" where
  "plan_environment c r (base, []) s =
     (if base \<noteq> HNull then (base, (base, []), s)
      else let (f, s) = rc_env_frame c (run_parent r) (length (run_argv r)) (Some (run_params r)) (Some (run_argv r)) s
           in (f, (f, []), s))"
| "plan_environment c r (base, x # xs) s =
     (if local_frame x \<noteq> HNull then (local_frame x, (base, x # xs), s)
      else let (par, (base, xs), s) = plan_environment c r (base, xs) s;
               (f, s) = (if par \<noteq> HNull then extend_env c par (local_name x) (local_value x) s else (HNull, s))
           in (f, (base, x\<lparr>local_frame := f\<rparr> # xs), s))"

definition plan_node_value :: "mem \<Rightarrow> plan_run \<Rightarrow> PlanNode \<Rightarrow> local_binding list \<Rightarrow> handle option" where
  \<comment> \<open>\<open>plan_value\<close>\<close>
  "plan_node_value s r x env =
     (if node_op x = PL_LOCAL
      then Some (case drop (node_a x) env of y # _ \<Rightarrow> local_value y | [] \<Rightarrow> run_argv r ! node_b x)
      else let v = run_literal s r x
           in if node_op x = PL_NONLOCAL
              then map_option (\<lambda>w. if w \<noteq> HNull then w else v) (rc_env_lookup s (run_parent r) v)
              else Some v)"

definition immediate_node :: "PlanNode \<Rightarrow> bool" where
  \<comment> \<open>\<open>node->op<=P_NONLOCAL\<close>\<close>
  "immediate_node x \<longleftrightarrow> node_op x \<in> {PL_CONST, PL_LOCAL, PL_NONLOCAL}"

type_synonym planner = "nat \<Rightarrow> locals \<Rightarrow> bool \<Rightarrow> mem \<Rightarrow> (handle \<times> locals \<times> mem) option"

definition retained_value :: "plan_run \<Rightarrow> PlanNode \<Rightarrow> locals \<Rightarrow> mem \<Rightarrow> (handle \<times> locals \<times> mem) option" where
  "retained_value r x env s = map_option (\<lambda>v. (v, env, rc_retain v s)) (plan_node_value s r x (snd env))"

definition plan_argument :: "planner \<Rightarrow> plan_run \<Rightarrow> planner" where
  "plan_argument ev r pc env tail_position s =
     (if immediate_node (run_node r pc) then retained_value r (run_node r pc) env s else ev pc env tail_position s)"

fun plan_arguments :: "planner \<Rightarrow> nat list \<Rightarrow> locals \<Rightarrow> mem \<Rightarrow> (bool \<times> handle list \<times> locals \<times> mem) option" where
  "plan_arguments arg [] env s = Some (True, [], env, s)"
| "plan_arguments arg (pc # pcs) env s =
     Option.bind (arg pc env False s)
       (\<lambda>(v, env, s). if v = HNull then Some (False, [], env, s)
                      else map_option (\<lambda>(ok, vs, env, s). (ok, v # vs, env, s)) (plan_arguments arg pcs env s))"

definition plan_function :: "planner \<Rightarrow> ctxid \<Rightarrow> plan_run \<Rightarrow> PlanNode \<Rightarrow> locals \<Rightarrow> mem \<Rightarrow> (handle \<times> locals \<times> mem) option" where
  "plan_function arg c r x env s =
     (if node_op x = PL_CALL
      then map_option (\<lambda>v. let (f, s) = (if rc_type s v = RC_SYMBOL then rc_function_get c v s else (v, rc_retain v s))
                           in (f, env, s))
             (plan_node_value s r (run_node r (node_a x)) (snd env))
      else map_option (\<lambda>(v, env, s). let (f, s) = resolve_function c v s in (f, env, s))
             (arg (node_a x) env False s))"

definition plan_second ::
  "callbacks \<Rightarrow> planner \<Rightarrow> ctxid \<Rightarrow> handle \<Rightarrow> nat \<Rightarrow> nat \<Rightarrow> locals \<Rightarrow> mem \<Rightarrow> (handle \<times> locals \<times> mem) option" where
  "plan_second cb arg c f left right env s =
     Option.bind (arg left env False s)
       (\<lambda>(ignored, env, s).
          if ignored = HNull then Some (HNull, env, rc_release f s)
          else let valid = rc_call_values_belong s c f [ignored]
               in Option.bind (arg right env valid s)
                    (\<lambda>(v, env, s).
                       if v \<noteq> HNull \<and> \<not> valid
                       then map_option (\<lambda>(v, s). (v, env, rc_release f s)) (rc_primitive_call_rooted_owned cb c f [ignored, v] True s)
                       else let s = rc_release f (rc_release ignored s)
                            in if v = HNull then Some (HNull, env, s)
                               else if rc_has_error s c then Some (HNull, env, rc_release v s)
                               else let (v, s) = rc_eval_require_argument_context c v s
                                    in Some (v, env, if v \<noteq> HNull then rc_safepoint c s else s)))"

definition plan_application ::
  "callbacks \<Rightarrow> planner \<Rightarrow> ctxid \<Rightarrow> plan_run \<Rightarrow> PlanNode \<Rightarrow> locals \<Rightarrow> bool \<Rightarrow> mem \<Rightarrow> (handle \<times> locals \<times> mem) option" where
  "plan_application cb arg c r x env tail_position s =
     Option.bind (plan_function arg c r x env s)
       (\<lambda>(f, env, s).
          let n = node_n x; args = map (\<lambda>i. run_aux r (node_b x + i)) [0..<n]
          in if f = HNull then Some (HNull, env, s)
             else if tail_position \<and> n = 2 \<and> rc_closure_returns_second s c f
             then plan_second cb arg c f (args ! 0) (args ! 1) env s
             else let (ok, s) = (if n \<le> 8 then (True, s) else library_call s)
                  in if \<not> ok then let (v, s) = rc_fail c ''eval-kl: out of memory'' (rc_release f s) in Some (v, env, s)
                     else Option.bind (plan_arguments arg args env s)
                            (\<lambda>(ok, vs, env, s).
                               map_option (\<lambda>(v, s). (v, env, s))
                                 (apply_values cb c f tail_position (Some (ok, vs, s)))))"

datatype plan_turn = PFinish handle locals mem | PNext nat locals mem

definition plan_test :: "ctxid \<Rightarrow> string \<Rightarrow> (handle \<times> locals \<times> mem) option \<Rightarrow> (bool \<Rightarrow> locals \<Rightarrow> mem \<Rightarrow> plan_turn option) \<Rightarrow> plan_turn option" where
  "plan_test c msg r k =
     Option.bind r
       (\<lambda>(t, env, s). if t = HNull then Some (PFinish HNull env s)
                      else let yes = rc_is_true s t; valid = rc_is_boolean s t; s = rc_release t s
                           in if \<not> valid then Some (PFinish HNull env (rc_error c msg s)) else k yes env s)"

fun plan_clauses :: "planner \<Rightarrow> ctxid \<Rightarrow> plan_run \<Rightarrow> nat list \<Rightarrow> locals \<Rightarrow> mem \<Rightarrow> plan_turn option" where
  \<comment> \<open>over the auxiliary indices of the tests; the branch follows each\<close>
  "plan_clauses arg c r [] env s = Some (PFinish HNull env (rc_error c ''eval-kl: no true cond case'' s))"
| "plan_clauses arg c r (i # is') env s =
     plan_test c ''eval-kl: cond test must be boolean'' (arg (run_aux r i) env False s)
       (\<lambda>yes env s. if yes then Some (PNext (run_aux r (i + 1)) env s) else plan_clauses arg c r is' env s)"

definition plan_let :: "planner \<Rightarrow> plan_run \<Rightarrow> PlanNode \<Rightarrow> locals \<Rightarrow> bool \<Rightarrow> mem \<Rightarrow> plan_turn option" where
  "plan_let arg r x env tail_position s =
     Option.bind (arg (node_b x) env False s)
       (\<lambda>(v, env, s).
          if v = HNull then Some (PFinish HNull env s)
          else let next = \<lparr>local_name = run_literal s r x, local_value = v, local_frame = HNull\<rparr>
               in map_option (\<lambda>(w, (base, bs), s).
                      PFinish w (base, List.tl bs) (rc_release v (rc_release (local_frame (List.hd bs)) s)))
                    (arg (node_c x) (fst env, next # snd env) tail_position s))"

definition plan_junction :: "planner \<Rightarrow> ctxid \<Rightarrow> bool \<Rightarrow> PlanNode \<Rightarrow> locals \<Rightarrow> bool \<Rightarrow> mem \<Rightarrow> plan_turn option" where
  "plan_junction arg c is_and x env tail_position s =
     Option.bind (arg (node_a x) env False s)
       (\<lambda>(v, env, s).
          if v = HNull then Some (PFinish HNull env s)
          else if \<not> rc_is_boolean s v
          then Some (PFinish HNull env (rc_error c ''eval-kl: boolean arguments required'' (rc_release v s)))
          else if rc_is_true s v \<noteq> is_and then Some (PFinish v env s)
          else map_option (\<lambda>(w, env, s). let (w, s) = rc_require_boolean c w s in PFinish w env s)
                 (arg (node_b x) env tail_position (rc_release v s)))"

definition plan_fallback_eval :: "evaluator \<Rightarrow> ctxid \<Rightarrow> plan_run \<Rightarrow> PlanNode \<Rightarrow> locals \<Rightarrow> bool \<Rightarrow> mem \<Rightarrow> plan_turn option" where
  "plan_fallback_eval ev c r x env tail_position s =
     (let (frame, env, s) = plan_environment c r env s
      in if frame = HNull then Some (PFinish HNull env s)
         else map_option (\<lambda>(v, s). PFinish v env s) (ev (run_literal s r x) frame tail_position s))"

definition plan_step ::
  "callbacks \<Rightarrow> evaluator \<Rightarrow> planner \<Rightarrow> ctxid \<Rightarrow> plan_run \<Rightarrow> nat \<Rightarrow> locals \<Rightarrow> bool \<Rightarrow> mem \<Rightarrow> plan_turn option" where
  \<comment> \<open>one turn of the loop of \<open>plan_evaluate\<close>\<close>
  "plan_step cb ev pev c r pc env tail_position s =
     (let x = run_node r pc; arg = plan_argument pev r; finish = (\<lambda>(v, env, s). PFinish v env s)
      in case node_op x of
           PL_CALL \<Rightarrow> map_option finish (plan_application cb arg c r x env tail_position s)
         | PL_CALL_EXPR \<Rightarrow> map_option finish (plan_application cb arg c r x env tail_position s)
         | PL_IF \<Rightarrow>
             plan_test c ''eval-kl: if test must be boolean'' (arg (node_a x) env False s)
               (\<lambda>yes env s. Some (PNext (if yes then node_b x else node_c x) env s))
         | PL_LET \<Rightarrow> plan_let arg r x env tail_position s
         | PL_COND \<Rightarrow> plan_clauses arg c r (map (\<lambda>i. node_a x + 2 * i) [0..<node_n x]) env s
         | PL_AND \<Rightarrow> plan_junction arg c True x env tail_position s
         | PL_OR \<Rightarrow> plan_junction arg c False x env tail_position s
         | PL_TYPE \<Rightarrow> Some (PNext (node_a x) env s)
         | PL_FALLBACK \<Rightarrow> plan_fallback_eval ev c r x env tail_position s
         | _ \<Rightarrow> map_option finish (retained_value r x env s))"

primrec plan_evaluate :: "nat \<Rightarrow> callbacks \<Rightarrow> evaluator \<Rightarrow> ctxid \<Rightarrow> plan_run \<Rightarrow> planner" where
  "plan_evaluate 0 cb ev c r pc env tail_position s = None"
| "plan_evaluate (Suc k) cb ev c r pc env tail_position s =
     Option.bind (plan_step cb ev (plan_evaluate k cb ev c r) c r pc env tail_position s)
       (\<lambda>x. case x of PFinish v env s \<Rightarrow> Some (v, env, s)
                    | PNext pc env s \<Rightarrow> plan_evaluate k cb ev c r pc env tail_position s)"

subsection \<open>Interpreted callbacks\<close>

definition enter_interpreter :: "host \<Rightarrow> nat \<Rightarrow> ctxid \<Rightarrow> mem \<Rightarrow> bool \<times> mem" where
  \<comment> \<open>\<open>rc_interpreter_enter(ctx) && rc_stack_check(ctx)\<close>\<close>
  "enter_interpreter h n c s =
     (let (ok, s) = rc_interpreter_enter c s in if ok then rc_stack_check c (frame_address h n) s else (False, s))"

definition prepared_call ::
  "host \<Rightarrow> callbacks \<Rightarrow> nat \<Rightarrow> ctxid \<Rightarrow> handle \<Rightarrow> handle list \<Rightarrow> mem \<Rightarrow> (handle \<times> mem) option" where
  "prepared_call h cb n c self args s =
     (let (ok, s) = enter_interpreter h n c s
      in if \<not> ok then Some (HNull, s)
         else case rc_eval_captures c self NATIVE_PREPARED (length args) s of
                (None, s) \<Rightarrow> Some (HNull, s)
              | (Some caps, s) \<Rightarrow>
                  let s = tier_call h c self s; plan = caps ! 0; hdr = plan_header s plan;
                      r = \<lparr>run_plan = plan, run_parent = caps ! 1, run_params = drop 2 caps, run_argv = args,
                           run_code = data (load_of s (rc_capture s plan 0)), run_header = hdr\<rparr>
                  in map_option (\<lambda>(v, env, s). (v, rc_release (fst env) s))
                       (plan_evaluate n cb (evaluate n h cb c) c r (header_root hdr) (HNull, []) True s))"

definition dynamic_call ::
  "host \<Rightarrow> callbacks \<Rightarrow> nat \<Rightarrow> ctxid \<Rightarrow> handle \<Rightarrow> handle list \<Rightarrow> mem \<Rightarrow> (handle \<times> mem) option" where
  "dynamic_call h cb n c self args s =
     (let (ok, s) = enter_interpreter h n c s
      in if \<not> ok then Some (HNull, s)
         else case rc_eval_captures c self NATIVE_DYNAMIC (length args) s of
                (None, s) \<Rightarrow> Some (HNull, s)
              | (Some caps, s) \<Rightarrow>
                  (case plan_prepare c (caps ! 0) (caps ! 1) (drop 2 caps) True s of
                     (plan, s) \<Rightarrow>
                       if plan \<noteq> HNull
                       then prepared_call h cb n c self args
                              (rc_release plan (rc_eval_plan_promote (case self of HRef a \<Rightarrow> a | _ \<Rightarrow> 0) NATIVE_PREPARED plan s))
                       else if rc_has_error s c then Some (HNull, s)
                       else let s = tier_call h c self s;
                                (env, body, s) = rc_eval_env_frame c self NATIVE_DYNAMIC (length args) args s
                            in if env = HNull then Some (HNull, s)
                               else map_option (\<lambda>(v, s). (v, rc_release env (rc_release body s)))
                                      (evaluate n h cb c body env True (rc_retain body s))))"

subsection \<open>Entry points\<close>

definition eval_entry :: "host \<Rightarrow> callbacks \<Rightarrow> nat \<Rightarrow> ctxid \<Rightarrow> handle \<Rightarrow> mem \<Rightarrow> (handle \<times> mem) option" where
  \<comment> \<open>without \<open>SHEN_RC_NATIVE_TRACE\<close>, which only prints the form\<close>
  "eval_entry h cb n c e s =
     (if \<not> rc_call_values_belong s c e [] then Some (rc_fail c ''eval-kl: invalid expression/context'' s)
      else if execution_mode (ctxs s c) = 0 then native_eval h cb c e s
      else if execution_mode (ctxs s c) \<noteq> 1 then Some (rc_fail c ''unknown SHEN_RC_EXECUTION backend'' s)
      else if rc_type s e \<noteq> RC_PAIR then evaluate n h cb c e rc_nil False s
      else map_option (\<lambda>(v, s). (v, rc_release e s)) (evaluate n h cb c e rc_nil False (rc_retain e s)))"

definition rc_eval :: "host \<Rightarrow> callbacks \<Rightarrow> nat \<Rightarrow> ctxid \<Rightarrow> handle \<Rightarrow> mem \<Rightarrow> (handle \<times> mem) option" where
  "rc_eval h cb n c e s =
     (if c = 0 then eval_entry h cb n c e s
      else map_option (\<lambda>(v, s). (v, rc_call_leave c s)) (eval_entry h cb n c e (rc_call_enter c s)))"

definition rc_interpret_fallback :: "host \<Rightarrow> callbacks \<Rightarrow> nat \<Rightarrow> ctxid \<Rightarrow> handle \<Rightarrow> handle \<Rightarrow> mem \<Rightarrow> (handle \<times> mem) option" where
  "rc_interpret_fallback h cb n c e params s =
     (if params \<noteq> HNull then Some (make_function c params e rc_nil s)
      else evaluate n h cb c e rc_nil False s)"

definition eval_native :: "host \<Rightarrow> callbacks \<Rightarrow> nat \<Rightarrow> ctxid \<Rightarrow> handle list \<Rightarrow> mem \<Rightarrow> (handle \<times> mem) option" where
  "eval_native h cb n c args s =
     (let s = (case tier h of None \<Rightarrow> s | Some t \<Rightarrow> if rc_has_error s c then s else hook_safepoint t c s)
      in rc_eval h cb n c (args ! 0) s)"

definition rc_install_eval :: "ctxid \<Rightarrow> mem \<Rightarrow> bool \<times> mem" where
  "rc_install_eval c s =
     (let (name, s) = rc_symbol c (Some ''eval-kl'') s;
          (f, s) = rc_closure c 1 NATIVE_EVAL [] s; (f, s) = rc_closure_static f s;
          (ok, s) = (if name \<noteq> HNull \<and> f \<noteq> HNull then rc_function_set c name f s else (False, s))
      in (ok, rc_release f (rc_release name s)))"

subsection \<open>The runtime\<close>

definition borrowed_entry ::
  "host \<Rightarrow> callbacks \<Rightarrow> nat \<Rightarrow> native_id \<Rightarrow> ctxid \<Rightarrow> handle \<Rightarrow> handle list \<Rightarrow> mem \<Rightarrow> (handle \<times> mem) option" where
  \<comment> \<open>the C function behind a callback address; the others are compiled code\<close>
  "borrowed_entry h cb n nv c self args s =
     (if nv = NATIVE_PRIMITIVE then primitive cb c self args s
      else if nv = NATIVE_HASHKEY then numeric_hashkey_wrapper cb c self args s
      else if nv = NATIVE_HASH then native_hash cb c self args s
      else if nv = NATIVE_DYNAMIC then dynamic_call h cb n c self args s
      else if nv = NATIVE_PREPARED then prepared_call h cb n c self args s
      else if nv = NATIVE_PLAN then Some (plan_marker c s)
      else if nv = NATIVE_EVAL then eval_native h cb n c args s
      else compiled_borrowed h cb nv c self args s)"

primrec runtime :: "host \<Rightarrow> nat \<Rightarrow> callbacks" where
  "runtime h 0 = \<lparr>borrowed_call = (\<lambda>nv c self args s. None), owned_call = (\<lambda>nv c self args s. None)\<rparr>"
| "runtime h (Suc n) =
     \<lparr>borrowed_call = borrowed_entry h (runtime h n) n, owned_call = compiled_owned h (runtime h n)\<rparr>"

definition eval_program :: "host \<Rightarrow> nat \<Rightarrow> ctxid \<Rightarrow> handle \<Rightarrow> mem \<Rightarrow> (handle \<times> mem) option" where
  \<comment> \<open>\<open>rc_eval\<close> with all its callbacks\<close>
  "eval_program h n c e s = rc_eval h (runtime h n) n c e s"

end
