(* ===== verification/Fast.thy ===== *)
theory Fast
  imports Builtins
begin

text \<open>
  The inline fast paths of generated code (\<open>src/rc/rc_layout.h\<close>). Each tests the canonical tag
  and the layout of its operands itself and enters the checked path of the runtime otherwise.
  What a fast path leaves in the argument array is not part of its result: where the C code
  clears a slot it has consumed the value.
\<close>

subsection \<open>Tests\<close>

definition rc_value_context_or_nil :: "mem \<Rightarrow> ctxid \<Rightarrow> handle \<Rightarrow> bool" where
  "rc_value_context_or_nil s c v \<longleftrightarrow>
     rc_type s v = RC_NIL \<or> (case v of HRef a \<Rightarrow> rc_value_context s a = c | _ \<Rightarrow> False)"

definition rc_fast_immediate :: "handle \<Rightarrow> bool" where
  "rc_fast_immediate v \<longleftrightarrow> is_immediate v"

definition rc_fast_counted :: "mem \<Rightarrow> handle \<Rightarrow> bool" where
  \<comment> \<open>the static nil carries the sentinel too\<close>
  "rc_fast_counted s v \<longleftrightarrow> (case v of HRef a \<Rightarrow> refs (cell_at s a) \<noteq> RC_IMMORTAL | _ \<Rightarrow> False)"

definition rc_fast_retain :: "handle \<Rightarrow> mem \<Rightarrow> handle \<times> mem" where
  "rc_fast_retain v s =
     (if rc_fast_counted s v
      then case v of HRef a \<Rightarrow> (v, upd_cell a (\<lambda>x. x\<lparr>refs := refs x + 1\<rparr>) s) | _ \<Rightarrow> (v, s)
      else (v, s))"

definition rc_fast_release :: "handle \<Rightarrow> mem \<Rightarrow> mem" where
  "rc_fast_release v s =
     (if \<not> rc_fast_counted s v then s
      else case v of
             HRef a \<Rightarrow> if refs (cell_at s a) > 1 then upd_cell a (\<lambda>x. x\<lparr>refs := refs x - 1\<rparr>) s else rc_release v s
           | _ \<Rightarrow> s)"

definition rc_fast_is :: "mem \<Rightarrow> ctxid \<Rightarrow> handle \<Rightarrow> RcType \<Rightarrow> bool" where
  "rc_fast_is s c v t \<longleftrightarrow>
     (case v of HRef a \<Rightarrow> rc_type s v = t \<and> rc_type s v \<noteq> RC_NIL \<and> rc_value_context s a = c | _ \<Rightarrow> False)"

definition rc_fast_builtin :: "mem \<Rightarrow> ctxid \<Rightarrow> handle \<Rightarrow> nat \<Rightarrow> bool" where
  "rc_fast_builtin s c fn slot \<longleftrightarrow>
     rc_fast_is s c fn RC_CLOSURE \<and> (case fn of HRef a \<Rightarrow> builtin_slot (cell_at s a) = slot + 1 | _ \<Rightarrow> False)"

definition rc_fast_ok :: "mem \<Rightarrow> ctxid \<Rightarrow> bool" where
  "rc_fast_ok s c \<longleftrightarrow> \<not> error_active (ctxs s c)"

definition rc_fast_safepoint :: "ctxid \<Rightarrow> mem \<Rightarrow> mem" where
  "rc_fast_safepoint c s =
     (let x = ctxs s c
      in if \<not> acyclic x \<and> collection_interval x \<noteq> 0 \<and> since_collection x \<ge> collection_interval x
         then rc_safepoint c s else s)"

definition rc_fast_function_get :: "ctxid \<Rightarrow> handle \<Rightarrow> mem \<Rightarrow> handle \<times> mem" where
  "rc_fast_function_get c symbol s =
     (if rc_fast_is s c symbol RC_SYMBOL \<and> function_slot (load_of s symbol) \<noteq> HNull
      then rc_fast_retain (function_slot (load_of s symbol)) s
      else rc_function_get c symbol s)"

definition rc_fast_function_get_borrowed :: "ctxid \<Rightarrow> handle \<Rightarrow> mem \<Rightarrow> handle \<times> mem" where
  "rc_fast_function_get_borrowed c symbol s =
     (if rc_fast_is s c symbol RC_SYMBOL \<and> function_slot (load_of s symbol) \<noteq> HNull
      then (function_slot (load_of s symbol), s)
      else rc_function_get_borrowed c symbol s)"

subsection \<open>Projections\<close>

definition not_request :: "mem \<Rightarrow> handle \<Rightarrow> bool" where
  \<comment> \<open>\<open>rc_fast_immediate(h) || !h || h->type != RC_TAIL\<close>\<close>
  "not_request s v \<longleftrightarrow> rc_type s v \<noteq> RC_TAIL"

definition fast_projection :: "mem \<Rightarrow> ctxid \<Rightarrow> handle \<Rightarrow> handle \<Rightarrow> bool \<Rightarrow> bool" where
  \<comment> \<open>the common guard: the canonical hd (or tl), a pair of this context and no error pending\<close>
  "fast_projection s c fn p is_head \<longleftrightarrow>
     rc_fast_builtin s c fn (if is_head then 0 else 1) \<and> rc_fast_is s c p RC_PAIR \<and> rc_fast_ok s c"

definition field_of :: "mem \<Rightarrow> handle \<Rightarrow> bool \<Rightarrow> handle" where
  "field_of s p is_head = (case p of HRef a \<Rightarrow> pair_field s a is_head | _ \<Rightarrow> HNull)"

definition rc_fast_hd_owned :: "callbacks \<Rightarrow> ctxid \<Rightarrow> handle \<Rightarrow> handle \<Rightarrow> bool \<Rightarrow> mem \<Rightarrow> (handle \<times> mem) option" where
  "rc_fast_hd_owned cb c fn p tail_position s =
     (let v = field_of s p True
      in if fast_projection s c fn p True \<and> not_request s v
         then let (v, s) = rc_fast_retain v s in Some (v, rc_fast_release p s)
         else leaf_owned cb c 0 fn [p] tail_position s)"

definition rc_fast_tl_owned :: "callbacks \<Rightarrow> ctxid \<Rightarrow> handle \<Rightarrow> handle \<Rightarrow> bool \<Rightarrow> mem \<Rightarrow> (handle \<times> mem) option" where
  "rc_fast_tl_owned cb c fn p tail_position s =
     (let v = field_of s p False
      in if fast_projection s c fn p False \<and> not_request s v
         then let (v, s) = rc_fast_retain v s in Some (v, rc_fast_release p s)
         else leaf_owned cb c 1 fn [p] tail_position s)"

definition rc_fast_hd_borrowed :: "callbacks \<Rightarrow> ctxid \<Rightarrow> handle \<Rightarrow> handle \<Rightarrow> bool \<Rightarrow> mem \<Rightarrow> (handle \<times> mem) option" where
  "rc_fast_hd_borrowed cb c fn p tail_position s =
     (let v = field_of s p True
      in if fast_projection s c fn p True \<and> not_request s v then Some (rc_fast_retain v s)
         else leaf_borrowed cb c 0 fn [p] tail_position s)"

definition rc_fast_tl_borrowed :: "callbacks \<Rightarrow> ctxid \<Rightarrow> handle \<Rightarrow> handle \<Rightarrow> bool \<Rightarrow> mem \<Rightarrow> (handle \<times> mem) option" where
  "rc_fast_tl_borrowed cb c fn p tail_position s =
     (let v = field_of s p False
      in if fast_projection s c fn p False \<and> not_request s v then Some (rc_fast_retain v s)
         else leaf_borrowed cb c 1 fn [p] tail_position s)"

definition unique_unplanned :: "mem \<Rightarrow> handle \<Rightarrow> bool" where
  "unique_unplanned s p \<longleftrightarrow> (case p of HRef a \<Rightarrow> refs (cell_at s a) = 1 \<and> \<not> has_plan (cell_at s a) | _ \<Rightarrow> False)"

definition set_field :: "handle \<Rightarrow> bool \<Rightarrow> handle \<Rightarrow> mem \<Rightarrow> mem" where
  "set_field p is_head v s =
     (case p of HRef a \<Rightarrow> upd_cell a (\<lambda>x. x\<lparr>load := with_pair_field is_head v (load x)\<rparr>) s | _ \<Rightarrow> s)"

definition rc_fast_take ::
  "callbacks \<Rightarrow> ctxid \<Rightarrow> handle \<Rightarrow> handle \<Rightarrow> bool \<Rightarrow> handle \<Rightarrow> bool \<Rightarrow> mem \<Rightarrow> (handle \<times> mem) option" where
  "rc_fast_take cb c fn p tail_position sibling is_head s =
     (let v = field_of s p is_head
      in if fast_projection s c fn p is_head \<and> rc_fast_is s c sibling RC_SYMBOL \<and>
            rc_fast_builtin s c (function_slot (load_of s sibling)) (if is_head then 1 else 0) \<and> not_request s v
         then if unique_unplanned s p \<and> v \<noteq> HNull then Some (v, set_field p is_head rc_nil s)
              else Some (rc_fast_retain v s)
         else leaf_take cb c is_head fn p tail_position sibling s)"

definition clear_pair :: "handle \<Rightarrow> mem \<Rightarrow> mem" where
  "clear_pair p s =
     (case p of HRef a \<Rightarrow> upd_cell a (\<lambda>x. x\<lparr>load := VPair rc_nil rc_nil, reaches_vector := False\<rparr>) s | _ \<Rightarrow> s)"

definition rc_fast_last :: "callbacks \<Rightarrow> ctxid \<Rightarrow> handle \<Rightarrow> handle \<Rightarrow> bool \<Rightarrow> bool \<Rightarrow> mem \<Rightarrow> (handle \<times> handle \<times> mem) option" where
  \<comment> \<open>the second result is what \<open>args[0]\<close> holds afterwards\<close>
  "rc_fast_last cb c fn p tail_position is_head s =
     (let v = field_of s p is_head; other = field_of s p (\<not> is_head)
      in if fast_projection s c fn p is_head \<and> v \<noteq> HNull \<and> not_request s v
         then if unique_unplanned s p then Some (v, p, rc_fast_release other (clear_pair p s))
              else let (v, s) = rc_fast_retain v s in Some (v, HNull, rc_fast_release p s)
         else leaf_last cb c is_head fn p tail_position s)"

definition rc_fast_cons_owned :: "callbacks \<Rightarrow> ctxid \<Rightarrow> handle \<Rightarrow> handle \<Rightarrow> handle \<Rightarrow> bool \<Rightarrow> mem \<Rightarrow> (handle \<times> mem) option" where
  "rc_fast_cons_owned cb c fn h t tail_position s =
     (if rc_fast_builtin s c fn 14 \<and> rc_fast_ok s c
      then let (v, s) = rc_cons_owned c h t s
           in if v = HNull then Some (HNull, s)
              else if \<not> rc_fast_ok s c then Some (HNull, rc_fast_release v s)
              else Some (v, rc_fast_safepoint c s)
      else leaf_owned cb c 14 fn [h, t] tail_position s)"

subsection \<open>Conditions\<close>

definition fast_operand :: "mem \<Rightarrow> ctxid \<Rightarrow> handle \<Rightarrow> bool" where
  \<comment> \<open>an immediate, or a value of this context or nil\<close>
  "fast_operand s c v \<longleftrightarrow> rc_fast_immediate v \<or> (v \<noteq> HNull \<and> rc_value_context_or_nil s c v)"

definition rc_fast_consp_borrowed :: "callbacks \<Rightarrow> ctxid \<Rightarrow> handle \<Rightarrow> handle \<Rightarrow> mem \<Rightarrow> (int \<times> mem) option" where
  "rc_fast_consp_borrowed cb c fn x s =
     (if rc_fast_builtin s c fn 2 \<and> rc_fast_ok s c \<and> fast_operand s c x
      then Some (of_bool (x \<noteq> HNull \<and> \<not> rc_fast_immediate x \<and> rc_type s x = RC_PAIR), s)
      else rc_condition_borrowed cb c 2 fn [x] s)"

definition rc_fast_consp_owned :: "callbacks \<Rightarrow> ctxid \<Rightarrow> handle \<Rightarrow> handle \<Rightarrow> mem \<Rightarrow> (int \<times> mem) option" where
  "rc_fast_consp_owned cb c fn x s =
     (if rc_fast_builtin s c fn 2 \<and> rc_fast_ok s c \<and> fast_operand s c x
      then Some (of_bool (\<not> rc_fast_immediate x \<and> rc_type s x = RC_PAIR), rc_fast_release x s)
      else rc_condition_owned cb c 2 fn [x] s)"

definition rc_fast_identity_class :: "mem \<Rightarrow> handle \<Rightarrow> bool" where
  "rc_fast_identity_class s v \<longleftrightarrow>
     v \<noteq> HNull \<and> (rc_fast_immediate v \<or> rc_type s v = RC_NIL \<or> rc_type s v = RC_SYMBOL)"

definition rc_fast_unique_against :: "mem \<Rightarrow> handle \<Rightarrow> handle \<Rightarrow> bool" where
  "rc_fast_unique_against s v other \<longleftrightarrow>
     \<not> rc_fast_immediate v \<and> (rc_type s v = RC_SYMBOL \<or> rc_type s v = RC_NIL) \<and>
     (rc_fast_immediate other \<or> rc_type s other \<noteq> RC_TAIL)"

definition fast_eq_guard :: "mem \<Rightarrow> ctxid \<Rightarrow> handle \<Rightarrow> handle \<Rightarrow> handle \<Rightarrow> bool" where
  "fast_eq_guard s c fn x y \<longleftrightarrow>
     rc_fast_builtin s c fn 5 \<and> rc_fast_ok s c \<and> x \<noteq> HNull \<and> y \<noteq> HNull \<and>
     (rc_fast_immediate x \<or> rc_value_context_or_nil s c x) \<and>
     (rc_fast_immediate y \<or> rc_value_context_or_nil s c y) \<and>
     (x = y \<or> (rc_fast_identity_class s x \<and> rc_fast_identity_class s y) \<or>
      rc_fast_unique_against s x y \<or> rc_fast_unique_against s y x)"

definition rc_fast_eq_owned :: "callbacks \<Rightarrow> ctxid \<Rightarrow> handle \<Rightarrow> handle \<Rightarrow> handle \<Rightarrow> mem \<Rightarrow> (int \<times> mem) option" where
  "rc_fast_eq_owned cb c fn x y s =
     (if fast_eq_guard s c fn x y then Some (of_bool (x = y), rc_fast_release y (rc_fast_release x s))
      else rc_condition_owned cb c 5 fn [x, y] s)"

definition rc_fast_eq_borrowed :: "callbacks \<Rightarrow> ctxid \<Rightarrow> handle \<Rightarrow> handle \<Rightarrow> handle \<Rightarrow> mem \<Rightarrow> (int \<times> mem) option" where
  "rc_fast_eq_borrowed cb c fn x y s =
     (if fast_eq_guard s c fn x y then Some (of_bool (x = y), s)
      else rc_condition_borrowed cb c 5 fn [x, y] s)"

end
