(* ===== verification/Reclaim.thy ===== *)
theory Reclaim
  imports Frame
begin

text \<open>
  Release is complete where reference counting can be: counts never grow during a cascade, and in
  a heap whose edges have no cycle the cells that survive a release are exactly those the remaining
  owners and the immortal cells can reach.
\<close>

lemma refs_release_cell_le: "refs (cell_at (snd (release_cell d W s)) a) \<le> refs (cell_at s a)"
proof -
  let ?u = "unlink_object d s"
  obtain W' v where f: "fold release_edge (edges ?u d) (W, ?u) = (W', v)" by fastforce
  have w: "snd (release_cell d W s) = raw_free d v" by (simp add: release_cell_def f)
  have or: "only_refs ?u v" using only_refs_fold [of "(W, ?u)" "edges ?u d"] f by simp
  have "refs (cell_at (raw_free d v) a) \<le> refs (cell_at v a)" by (simp add: raw_free_simps free_cell_def)
  also have "\<dots> \<le> refs (cell_at s a)" using or by (metis only_refs_def refs_unlink_object(1))
  finally show ?thesis by (simp add: w)
qed

lemma refs_release_loop_le: "refs (cell_at (release_loop W s) a) \<le> refs (cell_at s a)"
proof (induction W s rule: release_loop.induct)
  case (2 d W s)
  show ?case
  proof (cases "live s d")
    case True
    with 2 have "refs (cell_at (release_loop (d # W) s) a) \<le> refs (cell_at (snd (release_cell d W s)) a)"
      by (simp add: case_prod_beta)
    with refs_release_cell_le show ?thesis using order_trans by blast
  qed (simp add: cell_at_def)
qed simp

lemma refs_release_le: "refs (cell_at (rc_release v s) a) \<le> refs (cell_at s a)"
proof -
  obtain W s' where e: "release_edge v ([], s) = (W, s')" by fastforce
  have "refs (cell_at s' a) \<le> refs (cell_at s a)"
    using only_refs_release_edge [of "([], s)" v] e by (simp add: only_refs_def)
  with refs_release_loop_le [of W s' a] show ?thesis by (simp add: rc_release_def e)
qed

text \<open>In a heap without cycles a release leaves exactly what the other owners can reach.\<close>

lemma release_leaves_owned:
  assumes ok: "heap_ok s (add_mset v R)" and ac: "Transitive_Closure.acyclic (g_edge (view s))"
  shows "live (rc_release v s) a \<longleftrightarrow> a \<in> owned (view s) R"
proof
  let ?s = "rc_release v s"
  note ok' = heap_ok_release [OF ok]
  note cs = rc_okD(6) [OF ok [unfolded heap_ok_def]] and cs' = rc_okD(6) [OF ok' [unfolded heap_ok_def]]
  have sh: "shrinks s ?s" using shrinks_release ok by (simp add: heap_ok_def)
  show "live ?s a" if "a \<in> owned (view s) R" by (rule owned_survives [OF sh cs' that])
  have sub: "g_edge (view ?s) \<subseteq> g_edge (view s)"
  proof (rule subrelI)
    fix b x assume "(b, x) \<in> g_edge (view ?s)"
    then have b: "live ?s b" "HRef x \<in> set (holds ?s b)" by (simp_all add: g_edge_def live_fmdom)
    with shrinks_cell(1,8) [OF sh b(1)] show "(b, x) \<in> g_edge (view s)" by (simp add: g_edge_def live_fmdom)
  qed
  have mono: "x \<in> owned (view s) R" if "x \<in> owned (view ?s) R" for x
    using that
  proof induction
    case (root x)
    then show ?case by (rule owned.root)
  next
    case (immortal x)
    then have l: "live ?s x" "refs (cell_at ?s x) = RC_IMMORTAL" by (simp_all add: live_fmdom)
    then have ls: "live s x" using shrinks_cell(1) [OF sh] by blast
    then have "x \<in> nodes (view s) - {}" by (simp add: live_fmdom)
    from counts_okD(6) [OF cs this] have "refs (cell_at s x) = RC_IMMORTAL"
      using l(2) refs_release_le [of v s x] by auto
    with ls show ?case by (intro owned.immortal) (simp_all add: live_fmdom)
  next
    case (edge b x)
    have "live ?s b" using owned_live [OF cs' edge(1)] by (simp add: live_fmdom)
    with shrinks_cell(8) [OF sh this] edge(2) have "HRef x \<in> set (out (view s) b)" by simp
    with edge.IH show ?case by (rule owned.edge)
  qed
  assume "live ?s a"
  then have "a \<in> nodes (view ?s)" by (simp add: live_fmdom)
  from acyclic_all_owned [OF cs' acyclic_subset [OF ac sub] this] show "a \<in> owned (view s) R" by (rule mono)
qed

end
