(* ===== verification/Scalar_Laws.thy ===== *)
theory Scalar_Laws
  imports Scalars
begin

text \<open>
  What the scalar constructors promise: every \<open>int64_t\<close> survives the trip through a handle,
  immediate or boxed; texts come back byte for byte; and the intern table gives one symbol per
  name, whatever it is resized to in between.
\<close>

subsection \<open>Cells without children\<close>

lemma heap_ok_slotless: "set vs \<subseteq> {HNull, HNil} \<Longrightarrow> heap_ok s (mset vs + R) \<longleftrightarrow> heap_ok s R"
  by (induction vs) auto

lemma new_leaf:
  assumes c: "c < next_ctx s"
    and e: "(case allocate c t extra s of (HRef a, u) \<Rightarrow> (HRef a, upd_cell a f u) | (w, u) \<Rightarrow> (w, u)) = (v, s')"
    and p: "type_of_payload p = t" "t \<noteq> RC_NIL" "\<not> source_flag p" "set (symbol_slots p) \<subseteq> {HNull}"
      "set (payload_slots p) \<subseteq> {HNull, HNil}"
    and f: "\<And>x. refs (f x) = refs x \<and> has_plan (f x) = has_plan x \<and> load (f x) = p"
  shows "moves s {#} s' {#v#}"
    and "heap_ok s R \<Longrightarrow> v = HNull \<or> (\<exists>a. v = HRef a \<and> \<not> live s a \<and> load (cell_at s' a) = p \<and> rc_value_context s' a = c)"
    and "heap_ok s R \<Longrightarrow> grows s s'"
proof -
  obtain w u where al: "allocate c t extra s = (w, u)" by fastforce
  have main: "heap_ok s' (add_mset v R) \<and> grows s s' \<and>
      (v = HNull \<or> (\<exists>a. v = HRef a \<and> \<not> live s a \<and> load (cell_at s' a) = p \<and> rc_value_context s' a = c))"
    if ok: "heap_ok s R" for R
  proof (cases "\<exists>a. w = HRef a")
    case True
    then obtain a where w: "w = HRef a" by blast
    then have vs: "v = HRef a" "s' = upd_cell a f u" using e al by simp_all
    have "heap_ok s (mset (payload_slots p) + R)" using ok heap_ok_slotless [OF p(5)] by simp
    from construct [where vs = "[]" and f = f, OF this c al [unfolded w] p(1-4) _ _ f] vs show ?thesis by simp
  next
    case False
    then have "v = w" "s' = u" using e al by (cases w; simp)+
    then show ?thesis using False allocate_failed [OF ok c p(2) al] by auto
  qed
  show "moves s {#} s' {#v#}" by (rule moves_growsI) (use main in simp)
  show "heap_ok s R \<Longrightarrow> v = HNull \<or> (\<exists>a. v = HRef a \<and> \<not> live s a \<and> load (cell_at s' a) = p \<and> rc_value_context s' a = c)"
    "heap_ok s R \<Longrightarrow> grows s s'" using main by blast+
qed

subsection \<open>Numbers\<close>

lemma immediate_low: "uint (take_bit 63 w AND 0x3fffffffffffffff :: u64) = take_bit 62 (uint w)"
proof -
  have "(0x3fffffffffffffff :: u64) = mask 62" by (simp add: mask_eq_exp_minus_1)
  moreover have "take_bit 63 w AND mask 62 = take_bit 62 w" by (simp flip: take_bit_eq_mask)
  ultimately show ?thesis by (simp add: unsigned_take_bit_eq)
qed

lemma immediate_sign: "uint (take_bit 63 w AND 0x4000000000000000 :: u64) = (if bit w 62 then 2 ^ 62 else 0)"
proof -
  have e: "(0x4000000000000000 :: u64) = push_bit 62 1" by simp
  have "take_bit 63 w AND push_bit 62 1 = (if bit w 62 then push_bit 62 1 else 0)"
  proof (rule bit_word_eqI)
    fix k show "bit (take_bit 63 w AND push_bit 62 1) k = bit (if bit w 62 then push_bit 62 1 else (0 :: u64)) k"
      by (cases "k = 62") (auto simp only: bit_and_iff bit_push_bit_iff bit_take_bit_iff bit_1_iff bit_0_eq split: if_splits)
  qed
  then have "take_bit 63 w AND 0x4000000000000000 = (if bit w 62 then 0x4000000000000000 else 0)" by (simp only: e)
  then show ?thesis by simp
qed

lemma immediate_integer_encode:
  assumes "- (2 ^ 62) \<le> n" "n < 2 ^ 62"
  shows "immediate_integer (encode_immediate n) = n"
proof -
  let ?w = "word_of_int n :: u64"
  have pay: "drop_bit 1 (push_bit 1 ?w OR 1) = take_bit 63 ?w"
    by (rule bit_word_eqI) (simp only: bit_drop_bit_eq bit_or_iff bit_push_bit_iff bit_take_bit_iff comp_def bit_1_iff, auto)
  have "take_bit 62 n = (if n < 0 then n + 2 ^ 62 else n)" unfolding take_bit_eq_mod
    using assms by (intro int_mod_pos_eq [where q = "if n < 0 then - 1 else 0"]) auto
  then have lo: "take_bit 62 (uint ?w) = (if n < 0 then n + 2 ^ 62 else n)"
    unfolding uint_word_of_int_eq take_bit_take_bit by simp
  have "n div 2 ^ 62 = (if n < 0 then - 1 else 0)"
    using assms by (intro int_div_pos_eq [where r = "if n < 0 then n + 2 ^ 62 else n"]) auto
  then have "bit n 62 \<longleftrightarrow> n < 0" by (simp add: bit_int_def)
  then have hi: "bit ?w 62 \<longleftrightarrow> n < 0" by (simp add: bit_word_of_int_iff)
  show ?thesis
    unfolding encode_immediate_def immediate_integer.simps Let_def pay immediate_low immediate_sign lo hi by simp
qed

lemma rc_integer_boxed:
  assumes c: "c < next_ctx s" and ok: "heap_ok s R" and v: "v \<noteq> HNull"
    and e: "(case allocate c RC_NUMBER 0 s of (HRef a, u) \<Rightarrow> (HRef a, upd_cell a (\<lambda>x. x\<lparr>load := VNumber r k\<rparr>) u) | (w, u) \<Rightarrow> (w, u)) = (v, s')"
  obtains a where "v = HRef a" "\<not> live s a" "load (cell_at s' a) = VNumber r k" "rc_value_context s' a = c"
  using new_leaf(2) [OF c e, of "VNumber r k" R] ok v by (auto simp: payload_slots_def)

lemma rc_integer_cases:
  assumes "rc_integer c n s = (v, s')"
  obtains (null) "v = HNull" "s' = s"
  | (immediate) "- (2 ^ 62) \<le> n" "n < 2 ^ 62" "v = encode_immediate n" "s' = s"
  | (boxed) "(case allocate c RC_NUMBER 0 s of
        (HRef a, u) \<Rightarrow> (HRef a, upd_cell a (\<lambda>x. x\<lparr>load := VNumber (dbl_of_int n) (Some n)\<rparr>) u) | (w, u) \<Rightarrow> (w, u)) = (v, s')"
proof (cases "c = 0")
  case True
  with assms null show thesis by (simp add: rc_integer_def)
next
  case c: False
  show thesis
  proof (cases "- 4611686018427387904 \<le> n \<and> n \<le> 4611686018427387903")
    case True
    then have "- (2 ^ 62) \<le> n" "n < 2 ^ 62" by simp_all
    with True c assms immediate show thesis by (simp add: rc_integer_def)
  next
    case False
    then show thesis using c assms boxed by (simp only: rc_integer_def if_False)
  qed
qed

lemma moves_rc_integer:
  assumes c: "c < next_ctx s" and e: "rc_integer c n s = (v, s')"
  shows "moves s {#} s' {#v#}"
  using e
proof (cases rule: rc_integer_cases)
  case boxed
  show ?thesis by (rule new_leaf(1) [OF c boxed]) (simp_all add: payload_slots_def)
next
  case immediate
  obtain w where "v = HImm w" using immediate(3) unfolding encode_immediate_def by blast
  with immediate(4) show ?thesis by (simp add: moves_def preserves_refl)
qed simp

lemma rc_integer_value:
  assumes c: "c < next_ctx s" and ok: "heap_ok s R" and e: "rc_integer c n s = (v, s')" and v: "v \<noteq> HNull"
  shows "rc_integer_value s' v = n" "rc_number_is_exact_integer s' v" "belongs s' c v"
proof -
  have "rc_integer_value s' v = n \<and> rc_number_is_exact_integer s' v \<and> belongs s' c v"
    using e
  proof (cases rule: rc_integer_cases)
    case immediate
    obtain w where w: "v = HImm w" using immediate(3) unfolding encode_immediate_def by blast
    have "immediate_integer v = n" unfolding immediate(3) by (rule immediate_integer_encode [OF immediate(1,2)])
    moreover have "is_immediate v" "belongs s' c v" by (simp_all add: w)
    ultimately show ?thesis by (simp add: rc_integer_value_def rc_number_is_exact_integer_def)
  next
    case boxed
    obtain a where "v = HRef a" "load (cell_at s' a) = VNumber (dbl_of_int n) (Some n)" "rc_value_context s' a = c"
      by (rule rc_integer_boxed [OF c ok v boxed])
    then show ?thesis
      by (simp add: rc_integer_value_def rc_number_is_exact_integer_def boxed_exact_def)
  qed (use v in simp)
  then show "rc_integer_value s' v = n" "rc_number_is_exact_integer s' v" "belongs s' c v" by simp_all
qed

lemma moves_rc_number:
  assumes c: "c < next_ctx s" and e: "rc_number c x s = (v, s')"
  shows "moves s {#} s' {#v#}"
  by (rule new_leaf(1) [OF c e [unfolded rc_number_def]]) (simp_all add: payload_slots_def)

lemma rc_number_value:
  assumes c: "c < next_ctx s" and ok: "heap_ok s R" and e: "rc_number c x s = (v, s')" and v: "v \<noteq> HNull"
  shows "rc_number_value s' v = x" "\<not> rc_number_is_exact_integer s' v"
    "rc_number_is_integer s' v \<longleftrightarrow> isfinite x \<and> is_integral x"
proof -
  obtain a where a: "v = HRef a" "load (cell_at s' a) = VNumber x None"
    by (rule rc_integer_boxed [OF c ok v e [unfolded rc_number_def]])
  then show "rc_number_value s' v = x" "\<not> rc_number_is_exact_integer s' v"
    "rc_number_is_integer s' v \<longleftrightarrow> isfinite x \<and> is_integral x"
    by (simp_all add: rc_number_value_def rc_number_is_exact_integer_def rc_number_is_integer_def boxed_exact_def)
qed

subsection \<open>Text\<close>

lemma text_payload_simps:
  assumes "t = RC_STRING \<or> t = RC_SYMBOL"
  shows "type_of_payload (text_payload t txt) = t" "t \<noteq> RC_NIL" "\<not> source_flag (text_payload t txt)"
    "set (symbol_slots (text_payload t txt)) \<subseteq> {HNull}" "set (payload_slots (text_payload t txt)) \<subseteq> {HNull, HNil}"
    "data (text_payload t txt) = txt"
  using assms by (auto simp: text_payload_def payload_slots_def)

lemma text_value_ok:
  assumes c: "c < next_ctx s" and t: "t = RC_STRING \<or> t = RC_SYMBOL" and e: "text_value c t txt s = (v, s')"
  shows "moves s {#} s' {#v#}"
    and "heap_ok s R \<Longrightarrow> v = HNull \<or> (\<exists>a x. v = HRef a \<and> txt = Some x \<and> \<not> live s a \<and> load (cell_at s' a) = text_payload t x \<and>
      rc_value_context s' a = c)"
    and "heap_ok s R \<Longrightarrow> grows s s'"
proof -
  have main: "moves s {#} s' {#v#} \<and> (heap_ok s R \<longrightarrow> grows s s' \<and>
    (v = HNull \<or> (\<exists>a x. v = HRef a \<and> txt = Some x \<and> \<not> live s a \<and> load (cell_at s' a) = text_payload t x \<and> rc_value_context s' a = c)))"
  proof (cases "txt = None \<or> (\<exists>x. txt = Some x \<and> length x = SIZE_MAX)")
    case True
    then have "v = HNull" "s' = rc_error c ''invalid text length'' s"
      using e by (auto simp: text_value_def rc_fail_def split: option.splits)
    then show ?thesis by simp
  next
    case False
    then obtain x where x: "txt = Some x" "length x \<noteq> SIZE_MAX" by auto
    obtain okay u where l: "library_call s = (okay, u)" by fastforce
    have us: "moves s {#} u {#}" "grows s u" "c < next_ctx u" "\<And>a. live u a = live s a" "heap_ok s R \<Longrightarrow> heap_ok u R"
      using l c library_call_simps [of s] same_heap_moves [OF same_heap_library_call grows_library_call, of s "{#}"]
        grows_library_call [of s] heap_ok_same_heap [OF _ same_heap_library_call, of s R] unfolding l by simp_all
    show ?thesis
    proof (cases okay)
      case False
      then have "v = HNull" "s' = rc_error c ''out of memory'' u"
        using e x l by (simp_all add: text_value_def rc_fail_def)
      with us show ?thesis by (simp add: moves_then_error grows_trans [OF us(2) grows_rc_error])
    next
      case True
      have b: "(case allocate c t (length x + 1) u of
          (HRef a, w) \<Rightarrow> (HRef a, upd_cell a (\<lambda>z. z\<lparr>load := text_payload t x\<rparr>) w) | (y, w) \<Rightarrow> (y, w)) = (v, s')"
        using e x l True by (simp add: text_value_def)
      note k = new_leaf [OF us(3) b text_payload_simps(1-5) [OF t], simplified]
      from moves_trans [OF us(1) k(1)] k(2,3) us x show ?thesis by (auto intro: grows_trans)
    qed
  qed
  then show "moves s {#} s' {#v#}"
    "heap_ok s R \<Longrightarrow> v = HNull \<or> (\<exists>a x. v = HRef a \<and> txt = Some x \<and> \<not> live s a \<and> load (cell_at s' a) = text_payload t x \<and>
      rc_value_context s' a = c)"
    "heap_ok s R \<Longrightarrow> grows s s'" by blast+
qed

lemma rc_string_n_ok:
  assumes c: "c < next_ctx s" and ok: "heap_ok s R" and e: "rc_string_n c txt s = (v, s')" and v: "v \<noteq> HNull"
  shows "rc_type s' v = RC_STRING" "rc_text s' v = txt"
proof -
  have t: "RC_STRING = RC_STRING \<or> RC_STRING = RC_SYMBOL" by simp
  from text_value_ok(2) [OF c t e [unfolded rc_string_n_def] ok] v
  show "rc_type s' v = RC_STRING" "rc_text s' v = txt" by (auto simp: rc_text_def text_payload_def)
qed

end
