(* ===== verification/Symbol_Laws.thy ===== *)
theory Symbol_Laws
  imports Scalar_Laws
begin

text \<open>
  The intern table. \<open>symbols_wf\<close> is its invariant: every chain holds the symbols whose hash leads
  to it, no name occurs twice, and \<open>true_symbol\<close> and \<open>false_symbol\<close> are the symbols with these
  names. Under it the search of one chain is the search of the whole table, growing the table
  changes no answer, and a symbol's address is its identity.
\<close>

subsection \<open>The invariant\<close>

definition interned :: "mem \<Rightarrow> ctxid \<Rightarrow> addr set" where
  "interned s c = set (concat (symbols (ctxs s c)))"

definition name_of :: "mem \<Rightarrow> addr \<Rightarrow> string" where
  "name_of s a = data (load (cell_at s a))"

definition symbol_cell :: "mem \<Rightarrow> ctxid \<Rightarrow> addr \<Rightarrow> bool" where
  "symbol_cell s c a \<longleftrightarrow> live s a \<and> rc_type s (HRef a) = RC_SYMBOL \<and> refs (cell_at s a) = RC_IMMORTAL \<and>
     rc_value_context s a = c \<and> hash (load (cell_at s a)) = symbol_hash (name_of s a) \<and> c_string (name_of s a) = name_of s a"

definition chained :: "mem \<Rightarrow> addr list list \<Rightarrow> bool" where
  \<comment> \<open>every symbol is in the chain of its hash\<close>
  "chained s bs \<longleftrightarrow> (\<forall>b<length bs. \<forall>a\<in>set (bs ! b). hash_bucket (hash (load (cell_at s a))) (length bs) = b)"

definition names_wf :: "mem \<Rightarrow> ctxid \<Rightarrow> string \<Rightarrow> handle \<Rightarrow> bool" where
  "names_wf s c name v \<longleftrightarrow> (\<forall>a. v = HRef a \<longleftrightarrow> a \<in> interned s c \<and> name_of s a = name) \<and> (v = HNull \<or> is_heap v)"

definition symbols_wf :: "mem \<Rightarrow> ctxid \<Rightarrow> bool" where
  "symbols_wf s c \<longleftrightarrow>
     (symbols (ctxs s c) \<noteq> [] \<longrightarrow> pow2 (length (symbols (ctxs s c)))) \<and> distinct (concat (symbols (ctxs s c))) \<and>
     (\<forall>a\<in>interned s c. symbol_cell s c a) \<and> chained s (symbols (ctxs s c)) \<and> inj_on (name_of s) (interned s c) \<and>
     names_wf s c ''true'' (true_symbol (ctxs s c)) \<and> names_wf s c ''false'' (false_symbol (ctxs s c))"

lemma symbols_wfD:
  assumes "symbols_wf s c"
  shows "symbols (ctxs s c) \<noteq> [] \<Longrightarrow> pow2 (length (symbols (ctxs s c)))" "distinct (concat (symbols (ctxs s c)))"
    "a \<in> interned s c \<Longrightarrow> symbol_cell s c a" "chained s (symbols (ctxs s c))" "inj_on (name_of s) (interned s c)"
    "names_wf s c ''true'' (true_symbol (ctxs s c))" "names_wf s c ''false'' (false_symbol (ctxs s c))"
  using assms by (simp_all add: symbols_wf_def)

lemma c_string_idem [simp]: "c_string (c_string x) = c_string x"
  by (simp add: c_string_def takeWhile_idem)

lemma symbol_hash_c_string [simp]: "symbol_hash (c_string x) = symbol_hash x"
  by (simp add: symbol_hash_def)

lemma symbols_wf_cong:
  assumes wf: "symbols_wf s c" and "symbols (ctxs t c) = symbols (ctxs s c)"
    "true_symbol (ctxs t c) = true_symbol (ctxs s c)" "false_symbol (ctxs t c) = false_symbol (ctxs s c)"
    and kept: "\<And>a. a \<in> interned s c \<Longrightarrow> cell_kept s t a"
  shows "symbols_wf t c"
proof -
  have i: "interned t c = interned s c" using assms(2) by (simp add: interned_def)
  have k: "live t a" "load (cell_at t a) = load (cell_at s a)" "refs (cell_at s a) = RC_IMMORTAL \<longrightarrow> refs (cell_at t a) = RC_IMMORTAL"
    "rc_value_context t a = rc_value_context s a" if "a \<in> interned s c" for a
    using kept [OF that] cell_kept_load(1) [OF kept [OF that]] by (simp_all add: cell_kept_def)
  have n: "name_of t a = name_of s a" if "a \<in> interned s c" for a using k(2) [OF that] by (simp add: name_of_def)
  have mem: "a \<in> interned s c" if "b < length (symbols (ctxs s c))" "a \<in> set (symbols (ctxs s c) ! b)" for a b
    using that by (auto simp: interned_def)
  have "chained t (symbols (ctxs s c))"
    using symbols_wfD(4) [OF wf] k(2) [OF mem] by (simp add: chained_def)
  moreover have "symbol_cell t c a" if "a \<in> interned s c" for a
    using symbols_wfD(3) [OF wf that] k [OF that] n [OF that] by (simp add: symbol_cell_def)
  moreover have "inj_on (name_of t) (interned s c)" using symbols_wfD(5) [OF wf] n by (simp cong: inj_on_cong)
  moreover have "names_wf t c x v" if "names_wf s c x v" for x v
    using that n by (auto simp: names_wf_def i)
  ultimately show ?thesis using wf by (simp add: symbols_wf_def assms(2-4) i)
qed

text \<open>Operations that neither intern nor free a symbol keep the table as it is.\<close>

lemma symbols_wf_moves:
  assumes wf: "symbols_wf s c" and m: "moves s A t B" and ok: "heap_ok s (A + R)"
  shows "symbols_wf t c"
proof (rule symbols_wf_cong [OF wf])
  have p: "preserves R s t" by (rule movesD(2) [OF m ok])
  then have "same_core s t" by (simp add: preserves_def)
  from same_coreD(1,3,4) [OF this] show "symbols (ctxs t c) = symbols (ctxs s c)"
    "true_symbol (ctxs t c) = true_symbol (ctxs s c)" "false_symbol (ctxs t c) = false_symbol (ctxs s c)" by simp_all
  fix a assume "a \<in> interned s c"
  from symbols_wfD(3) [OF wf this] have "a \<in> owned (view s) R"
    by (intro owned.immortal) (simp_all add: symbol_cell_def live_fmdom)
  with p show "cell_kept s t a" by (simp add: preserves_def)
qed

subsection \<open>Searching a chain\<close>

lemma find_symbol_iff:
  assumes wf: "symbols_wf s c"
  shows "find_symbol s c name = Some a \<longleftrightarrow> a \<in> interned s c \<and> name_of s a = c_string name"
proof (cases "symbols (ctxs s c) = []")
  case True
  then show ?thesis by (simp add: find_symbol_def interned_def Let_def)
next
  case False
  let ?bs = "symbols (ctxs s c)" and ?h = "symbol_hash name"
  let ?b = "hash_bucket ?h (length ?bs)"
  let ?P = "\<lambda>v. hash (load (cell_at s v)) = ?h \<and> data (load (cell_at s v)) = c_string name"
  have b: "?b < length ?bs" using symbols_wfD(1) [OF wf False] wrap_less by (simp add: hash_bucket_def)
  have f: "find_symbol s c name = List.find ?P (?bs ! ?b)" using False by (simp add: find_symbol_def Let_def)
  have sub: "set (?bs ! ?b) \<subseteq> interned s c" 
    unfolding interned_def set_concat using nth_mem [OF b] by blast
  show ?thesis
  proof
    assume "find_symbol s c name = Some a"
    then obtain i where "i < length (?bs ! ?b)" "?P (?bs ! ?b ! i)" "a = ?bs ! ?b ! i"
      unfolding f find_Some_iff by blast
    with sub show "a \<in> interned s c \<and> name_of s a = c_string name" by (auto simp: name_of_def)
  next
    assume a: "a \<in> interned s c \<and> name_of s a = c_string name"
    then have h: "hash (load (cell_at s a)) = ?h"
      using symbols_wfD(3) [OF wf, of a] symbol_hash_c_string [of name] by (simp add: symbol_cell_def)
    from a obtain k where k: "k < length ?bs" "a \<in> set (?bs ! k)"
      unfolding interned_def by (metis in_set_conv_nth set_concat UN_iff)
    with symbols_wfD(4) [OF wf] h have "k = ?b" unfolding chained_def by metis
    with k a h have in_b: "a \<in> set (?bs ! ?b)" "?P a" by (simp_all add: name_of_def)
    then have "List.find ?P (?bs ! ?b) \<noteq> None" unfolding find_None_iff by blast
    then obtain w where w: "List.find ?P (?bs ! ?b) = Some w" by blast
    then obtain i where "i < length (?bs ! ?b)" "?P (?bs ! ?b ! i)" "w = ?bs ! ?b ! i" unfolding find_Some_iff by blast
    then have "w \<in> interned s c" "name_of s w = name_of s a" using sub a by (auto simp: name_of_def)
    with a symbols_wfD(5) [OF wf] have "w = a" by (meson inj_onD)
    with w f show "find_symbol s c name = Some a" by simp
  qed
qed

lemma find_symbol_None:
  assumes "symbols_wf s c"
  shows "find_symbol s c name = None \<longleftrightarrow> (\<forall>a\<in>interned s c. name_of s a \<noteq> c_string name)"
proof
  assume "find_symbol s c name = None"
  then show "\<forall>a\<in>interned s c. name_of s a \<noteq> c_string name" using find_symbol_iff [OF assms, of name] by auto
next
  assume "\<forall>a\<in>interned s c. name_of s a \<noteq> c_string name"
  then show "find_symbol s c name = None" using find_symbol_iff [OF assms, of name] by (cases "find_symbol s c name") auto
qed

subsection \<open>Growing the table\<close>

lemma mset_concat_update: "b < length bs \<Longrightarrow> mset (concat (bs[b := v # bs ! b])) = add_mset v (mset (concat bs))"
proof (induction bs arbitrary: b)
  case (Cons x bs)
  then show ?case by (cases b) simp_all
qed simp

lemma rehash_symbols:
  assumes "pow2 (length bs)" "chained s bs"
  shows "length (fold (rehash_symbol s (length bs)) vs bs) = length bs \<and> chained s (fold (rehash_symbol s (length bs)) vs bs) \<and>
    mset (concat (fold (rehash_symbol s (length bs)) vs bs)) = mset vs + mset (concat bs)"
  using assms
proof (induction vs arbitrary: bs)
  case (Cons v vs)
  let ?b = "hash_bucket (hash (load (cell_at s v))) (length bs)" and ?bs = "rehash_symbol s (length bs) v bs"
  have b: "?b < length bs" using Cons.prems(1) wrap_less by (simp add: hash_bucket_def)
  have r: "?bs = bs[?b := v # bs ! ?b]" "length ?bs = length bs" by (simp_all add: rehash_symbol_def Let_def)
  have ch: "chained s ?bs"
    using Cons.prems(2) b unfolding chained_def r(1) by (auto simp: nth_list_update)
  have m: "mset (concat ?bs) = add_mset v (mset (concat bs))" unfolding r(1) by (rule mset_concat_update [OF b])
  from Cons.IH [of ?bs] Cons.prems(1) ch r(2) m show ?case by simp
qed simp

text \<open>A change of the context's symbol fields moves no cell.\<close>

lemma same_cells_symbol_fields:
  assumes "\<And>x. plans (f x) = plans x \<and> plan_count (f x) = plan_count x \<and> sources (f x) = sources x \<and> cycle_sources (f x) = cycle_sources x"
  shows "same_cells s (upd_ctx c f s)"
  using assms by (auto simp: same_cells_def ctxs_upd_ctx)

lemma resize_symbols_ok:
  assumes wf: "symbols_wf s c" and cap: "pow2 capacity" and e: "resize_symbols c capacity s = (okay, s')"
  shows "same_heap s s'" "\<forall>a. live s a \<longrightarrow> cell_kept s s' a" "symbols_wf s' c" "interned s' c = interned s c"
    and "okay \<Longrightarrow> length (symbols (ctxs s' c)) = capacity" "name_of s' a = name_of s a"
proof -
  let ?bs = "symbols (ctxs s c)" and ?t = "snd (library_call s)"
  let ?new = "fold (rehash_symbol ?t capacity) (concat ?bs) (replicate capacity [])"
  let ?u = "upd_ctx c (\<lambda>x. x\<lparr>symbols := ?new\<rparr>) ?t"
  have noop: "same_heap s t \<and> (\<forall>a. live s a \<longrightarrow> cell_kept s t a) \<and> symbols_wf t c \<and> interned t c = interned s c \<and>
      (\<forall>a. name_of t a = name_of s a)"
    if "same_heap s t" "grows s t" for t
  proof -
    have "same_core s t" using that(2) by (simp add: grows_def)
    from same_coreD(1,3,4) [OF this, of c] have "symbols (ctxs t c) = ?bs" "true_symbol (ctxs t c) = true_symbol (ctxs s c)"
      "false_symbol (ctxs t c) = false_symbol (ctxs s c)" by simp_all
    moreover have "cell_kept s t a" if "a \<in> interned s c" for a
      using symbols_wfD(3) [OF wf that] \<open>grows s t\<close> by (simp add: symbol_cell_def grows_def)
    ultimately show ?thesis using symbols_wf_cong [OF wf, of t] that
      by (simp add: grows_def interned_def name_of_def same_heap_def)
  qed
  have "same_heap s s' \<and> (\<forall>a. live s a \<longrightarrow> cell_kept s s' a) \<and> symbols_wf s' c \<and> interned s' c = interned s c \<and>
    (\<forall>a. name_of s' a = name_of s a) \<and> (okay \<longrightarrow> length (symbols (ctxs s' c)) = capacity)"
  proof (cases "capacity > SIZE_MAX div PTR_BYTES \<or> \<not> fst (library_call s)")
    case True
    with e have r: "\<not> okay" "(\<exists>m. s' = rc_error c m s) \<or> (\<exists>m. s' = rc_error c m ?t)"
      by (auto simp: resize_symbols_def case_prod_beta split: if_splits)
    have "same_heap s (rc_error c m s)" "grows s (rc_error c m s)" "same_heap s (rc_error c m ?t)" "grows s (rc_error c m ?t)" for m
      using same_heap_trans [OF same_heap_library_call same_heap_rc_error] grows_trans [OF grows_library_call grows_rc_error] by simp_all
    with r noop show ?thesis by blast
  next
    case False
    with e have r: "okay" "s' = ?u" by (auto simp: resize_symbols_def case_prod_beta Let_def split: if_splits)
    have "chained ?t (replicate capacity [])" by (simp add: chained_def)
    from rehash_symbols [of "replicate capacity []" ?t "concat ?bs"] cap this
    have new: "length ?new = capacity" "chained ?t ?new" "mset (concat ?new) = mset (concat ?bs)" by simp_all
    have set: "set (concat ?new) = set (concat ?bs)" using new(3) by (metis set_mset_mset)
    have dist: "distinct (concat ?new)" using new(3) symbols_wfD(2) [OF wf] by (metis mset_eq_imp_distinct_iff)
    note n = noop [OF same_heap_library_call grows_library_call]
    have i: "interned ?u c = interned s c" unfolding interned_def set [symmetric] by (simp add: ctxs_upd_ctx)
    have "symbol_cell ?u c = symbol_cell ?t c" "name_of ?u = name_of ?t"
      by (intro ext, simp add: symbol_cell_def name_of_def)+
    moreover have "names_wf ?u c x v \<longleftrightarrow> names_wf ?t c x v" for x v
      using n i by (simp add: names_wf_def name_of_def)
    moreover have "chained ?u ?new" using new(2) by (simp add: chained_def)
    ultimately have parts: "symbol_cell ?u c = symbol_cell ?t c" "name_of ?u = name_of ?t"
        "\<And>x v. names_wf ?u c x v \<longleftrightarrow> names_wf ?t c x v" "chained ?u ?new" by simp_all
    have bs: "symbols (ctxs ?u c) = ?new" "true_symbol (ctxs ?u c) = true_symbol (ctxs ?t c)"
      "false_symbol (ctxs ?u c) = false_symbol (ctxs ?t c)" "interned ?u c = interned ?t c"
      using n i by (simp_all add: ctxs_upd_ctx)
    have wft: "symbols_wf ?t c" using n by blast
    have wf': "symbols_wf ?u c"
      unfolding symbols_wf_def bs parts(1-3) new(1)
      using cap new(1) dist parts(4) symbols_wfD(3,5,6,7) [OF wft] by (intro conjI impI ballI) metis+
    have sh: "same_heap s ?u" by (rule same_heap_trans [OF same_heap_library_call same_heap_upd_ctx]) simp
    have sc: "same_cells ?t ?u" by (rule same_cells_symbol_fields) simp
    have "cell_kept s ?u a" if "live s a" for a
      using n that cell_kept_trans [OF _ same_cells_kept [OF sc]] by simp
    with sh wf' i r new(1) n show ?thesis by (simp add: ctxs_upd_ctx name_of_def)
  qed
  then show "same_heap s s'" "\<forall>a. live s a \<longrightarrow> cell_kept s s' a" "symbols_wf s' c" "interned s' c = interned s c"
    "okay \<Longrightarrow> length (symbols (ctxs s' c)) = capacity" "name_of s' a = name_of s a" by blast+
qed

subsection \<open>Interning\<close>

lemma upd_cell_upd_cell: "live s a \<Longrightarrow> upd_cell a f (upd_cell a g s) = upd_cell a (\<lambda>x. f (g x)) s"
  by (auto simp: upd_cell_def live_def split: option.splits)

lemma heap_ok_immortal:
  assumes ok: "heap_ok s R" and a: "live s a"
  shows "heap_ok (upd_cell a (\<lambda>x. x\<lparr>refs := RC_IMMORTAL\<rparr>) s) R"
proof -
  let ?s = "upd_cell a (\<lambda>x. x\<lparr>refs := RC_IMMORTAL\<rparr>) s"
  note rc = ok [unfolded heap_ok_def]
  have ld: "load (cell_at ?s b) = load (cell_at s b)" "has_plan (cell_at ?s b) = has_plan (cell_at s b)" for b
    by (simp_all add: cell_at_upd_cell)
  have "holds ?s b = holds s b" for b by (rule holds_cong; (intro plan_of_cong)?) (simp_all add: ld)
  then have h: "holds ?s = holds s" by (rule ext)
  have v: "nodes (view ?s) = nodes (view s)" "out (view ?s) = out (view s)"
    "cnt (view ?s) b = (if b = a then RC_IMMORTAL else cnt (view s) b)" for b
    using a h by (simp_all add: cell_at_upd_cell)
  have "held (view ?s) {} = held (view s) {}" by (simp only: held_def v)
  then have "counts_ok (view ?s) R [] {}"
    using rc_okD(6) [OF rc] unfolding counts_ok_def v by auto
  moreover have "plans_wf ?s" by (rule plans_wf_cong [OF rc_okD(2) [OF rc]]) (simp_all add: ld)
  moreover have "sources_wf ?s" by (rule sources_wf_cong [OF rc_okD(3) [OF rc]]) (simp_all add: is_source_flag ld)
  moreover have "alloc_wf ?s" by (rule alloc_wf_cong [OF rc_okD(4) [OF rc]]) (simp_all add: ld)
  moreover have "symbols_ok ?s" using rc_okD(5) [OF rc] by (simp add: symbols_ok_def ld cell_at_upd_cell)
  ultimately show ?thesis using rc_okD(1) [OF rc] a by (simp add: heap_ok_def rc_ok_def)
qed

text \<open>Chaining one more symbol.\<close>

lemma symbols_wf_add:
  assumes wf: "symbols_wf s c" and new: "a \<notin> interned s c" and fresh: "\<forall>b\<in>interned s c. name_of s b \<noteq> name"
    and ne: "symbols (ctxs s c) \<noteq> []"
    and t: "symbols (ctxs t c) = (symbols (ctxs s c))[b := a # symbols (ctxs s c) ! b]"
    and b: "b = hash_bucket (symbol_hash name) (length (symbols (ctxs s c)))"
    and tf: "true_symbol (ctxs t c) = (if name = ''true'' then HRef a else true_symbol (ctxs s c))"
      "false_symbol (ctxs t c) = (if name = ''false'' then HRef a else false_symbol (ctxs s c))"
    and other: "\<And>x. x \<in> interned s c \<Longrightarrow> live t x \<and> cell_at t x = cell_at s x \<and> rc_value_context t x = rc_value_context s x"
    and cell: "symbol_cell t c a" "name_of t a = name"
  shows "symbols_wf t c" "interned t c = insert a (interned s c)"
proof -
  let ?bs = "symbols (ctxs s c)"
  have bl: "b < length ?bs" using symbols_wfD(1) [OF wf ne] wrap_less by (simp add: b hash_bucket_def)
  have mset: "mset (concat (symbols (ctxs t c))) = add_mset a (mset (concat ?bs))"
    unfolding t by (rule mset_concat_update [OF bl])
  show i: "interned t c = insert a (interned s c)"
    using arg_cong [OF mset, of set_mset] unfolding interned_def set_mset_mset set_mset_add_mset_insert .
  have nb: "name_of t x = name_of s x" if "x \<in> interned s c" for x
    using other [OF that] by (simp add: name_of_def)
  show "symbols_wf t c" unfolding symbols_wf_def
  proof (intro conjI impI ballI)
    show "pow2 (length (symbols (ctxs t c)))" using symbols_wfD(1) [OF wf ne] unfolding t by simp
    have "a \<notin> set (concat ?bs)" using new by (simp add: interned_def)
    then have "distinct (a # concat ?bs)" using symbols_wfD(2) [OF wf] by simp
    moreover have "mset (concat (symbols (ctxs t c))) = mset (a # concat ?bs)" using mset by simp
    ultimately show "distinct (concat (symbols (ctxs t c)))" by (metis mset_eq_imp_distinct_iff)
    show "symbol_cell t c x" if "x \<in> interned t c" for x
    proof (cases "x = a")
      case False
      with that i have x: "x \<in> interned s c" by simp
      from symbols_wfD(3) [OF wf x] other [OF x] nb [OF x] show ?thesis by (simp add: symbol_cell_def)
    qed (use cell in simp)
    show "chained t (symbols (ctxs t c))"
    proof (unfold chained_def, intro allI impI ballI)
      fix k x assume k: "k < length (symbols (ctxs t c))" and x: "x \<in> set (symbols (ctxs t c) ! k)"
      have len: "length (symbols (ctxs t c)) = length ?bs" unfolding t by simp
      show "hash_bucket (hash (load (cell_at t x))) (length (symbols (ctxs t c))) = k"
      proof (cases "x = a \<and> k = b")
        case True
        then show ?thesis unfolding len using cell by (simp add: symbol_cell_def b)
      next
        case False
        then have xk: "x \<in> set (?bs ! k)" using x bl k unfolding t by (cases "k = b") auto
        have kl: "k < length ?bs" using k len by simp
        then have "x \<in> interned s c" using xk by (auto simp: interned_def)
        then have "cell_at t x = cell_at s x" using other by blast
        moreover have "hash_bucket (hash (load (cell_at s x))) (length ?bs) = k"
          using symbols_wfD(4) [OF wf] kl xk unfolding chained_def by blast
        ultimately show ?thesis unfolding len by simp
      qed
    qed
    have "inj_on (name_of t) (interned s c)" using symbols_wfD(5) [OF wf] nb by (simp cong: inj_on_cong)
    moreover have "name_of t a \<notin> name_of t ` (interned s c - {a})" using fresh nb cell(2) by auto
    ultimately show "inj_on (name_of t) (interned t c)" unfolding i by simp
    have nw: "names_wf t c x v'"
      if "names_wf s c x v" "v' = (if name = x then HRef a else v)" for x v v'
      using that nb cell(2) fresh new unfolding names_wf_def i by (cases "name = x") auto
    show "names_wf t c ''true'' (true_symbol (ctxs t c))" by (rule nw [OF symbols_wfD(6) [OF wf] tf(1)])
    show "names_wf t c ''false'' (false_symbol (ctxs t c))" by (rule nw [OF symbols_wfD(7) [OF wf] tf(2)])
  qed
qed

lemma intern_symbol_ok:
  assumes ok: "heap_ok s (add_mset (HRef a) R)" and wf: "symbols_wf s c" and new: "a \<notin> interned s c"
    and a: "load (cell_at s a) = VSymbol (c_string name) 0 HNull HNull" "rc_value_context s a = c"
    and fresh: "\<forall>b\<in>interned s c. name_of s b \<noteq> c_string name" and ne: "symbols (ctxs s c) \<noteq> []"
    and t: "t = intern_symbol c name a s"
  shows "heap_ok t (add_mset (HRef a) R)" "\<forall>b. live s b \<longrightarrow> b \<noteq> a \<longrightarrow> cell_kept s t b"
    "symbols_wf t c" "interned t c = insert a (interned s c)" "name_of t a = c_string name"
proof -
  let ?h = "symbol_hash name"
  let ?b = "hash_bucket ?h (length (symbols (ctxs s c)))"
  let ?f = "\<lambda>x. x\<lparr>symbols := (symbols x)[?b := a # symbols x ! ?b], symbol_count := symbol_count x + 1\<rparr>"
  let ?g = "\<lambda>x. if c_string name = ''true'' then x\<lparr>true_symbol := HRef a\<rparr>
    else if c_string name = ''false'' then x\<lparr>false_symbol := HRef a\<rparr> else x"
  have live: "live s a" by (rule heap_ok_owned_live [OF ok]) simp
  obtain u where u: "u = upd_cell a (\<lambda>x. x\<lparr>load := VSymbol (c_string name) ?h HNull HNull, refs := RC_IMMORTAL\<rparr>) s" by blast
  have e: "t = upd_ctx c (\<lambda>x. ?g (?f x)) u"
    by (auto simp: t u intern_symbol_def Let_def upd_ctx_def)
  let ?w = "upd_cell a (\<lambda>x. x\<lparr>load := VSymbol (c_string name) ?h HNull HNull\<rparr>) s"
  have "heap_ok ?w (add_mset (HRef a) R)"
    using heap_ok_exchange [of s "{#}" "add_mset (HRef a) R" a "VSymbol (c_string name) ?h HNull HNull" "{#}"] live a ok
    by (simp add: payload_slots_def)
  from heap_ok_immortal [OF this, of a] live have oku: "heap_ok u (add_mset (HRef a) R)"
    by (simp add: upd_cell_upd_cell u)
  have sh: "same_heap u t" unfolding e by (rule same_heap_upd_ctx) simp
  have sc: "same_cells u t" unfolding e by (rule same_cells_symbol_fields) simp
  from heap_ok_same_heap [OF oku sh] show "heap_ok t (add_mset (HRef a) R)" .
  have ku: "cell_kept s u b" if "live s b" "b \<noteq> a" for b
    unfolding u by (rule cell_kept_upd_other [OF that(2,1)])
  have kept: "cell_kept s t b" if "live s b" "b \<noteq> a" for b
    by (rule cell_kept_trans [OF ku [OF that] same_cells_kept [OF sc]]) (use that u in simp)
  then show "\<forall>b. live s b \<longrightarrow> b \<noteq> a \<longrightarrow> cell_kept s t b" by blast
  have ct: "cell_at t x = cell_at u x" "live t x = live s x" "rc_value_context t x = rc_value_context s x" for x
    by (simp_all add: e u)
  have at: "cell_at u a = (cell_at s a)\<lparr>load := VSymbol (c_string name) ?h HNull HNull, refs := RC_IMMORTAL\<rparr>"
    using live by (simp add: u cell_at_upd_cell)
  have other: "cell_at u x = cell_at s x" if "x \<noteq> a" for x using that by (simp add: u cell_at_upd_cell)
  show na: "name_of t a = c_string name" by (simp add: name_of_def ct at)
  have cell: "symbol_cell t c a"
    using live a(2) na by (simp add: symbol_cell_def ct at)
  have fields: "symbols (ctxs t c) = (symbols (ctxs s c))[?b := a # symbols (ctxs s c) ! ?b]"
    "true_symbol (ctxs t c) = (if c_string name = ''true'' then HRef a else true_symbol (ctxs s c))"
    "false_symbol (ctxs t c) = (if c_string name = ''false'' then HRef a else false_symbol (ctxs s c))"
    by (simp_all add: e u ctxs_upd_ctx)
  have old: "live t x \<and> cell_at t x = cell_at s x \<and> rc_value_context t x = rc_value_context s x" if "x \<in> interned s c" for x
  proof -
    have "x \<noteq> a" using that new by blast
    moreover have "live s x" using symbols_wfD(3) [OF wf that] by (simp add: symbol_cell_def)
    ultimately show ?thesis by (simp add: ct other)
  qed
  have hb: "?b = hash_bucket (symbol_hash (c_string name)) (length (symbols (ctxs s c)))" by simp
  from symbols_wf_add [OF wf new fresh ne fields(1) hb fields(2,3) old cell na]
  show "symbols_wf t c" "interned t c = insert a (interned s c)" by simp_all
qed

subsection \<open>\<open>rc_symbol\<close>\<close>

lemma interned_live: "symbols_wf s c \<Longrightarrow> a \<in> interned s c \<Longrightarrow> live s a \<and> rc_value_context s a = c \<and> is_counted s (HRef a) = False"
  using symbols_wfD(3) by (simp add: symbol_cell_def)

lemma heap_ok_add_immortal:
  assumes ok: "heap_ok s R" and a: "live s a" "refs (cell_at s a) = RC_IMMORTAL"
  shows "heap_ok s (add_mset (HRef a) R)"
  using own.retain_inv [OF ok, of "HRef a"] a by (simp add: valid_def)

lemma grown_pow2:
  assumes "c \<noteq> [] \<longrightarrow> pow2 (length c)" "(if length c \<noteq> 0 then length c * 2 mod 2 ^ 64 else 64) \<ge> length c"
  shows "pow2 (if length c \<noteq> 0 then length c * 2 mod 2 ^ 64 else 64)"
proof (cases "c = []")
  case True
  have "pow2 64" unfolding pow2_def by (intro exI [of _ 6]) simp
  with True show ?thesis by simp
next
  case False
  with assms(1) have p: "pow2 (length c)" by simp
  then obtain k where k: "length c = 2 ^ k" "k \<le> 64" by (auto simp: pow2_def)
  have "k < 63"
  proof (rule ccontr)
    assume "\<not> k < 63"
    with k(2) have "k = 63 \<or> k = 64" by auto
    then show False using k(1) assms(2) False by auto
  qed
  then have "k + 1 \<le> 63" by simp
  then have "(2::nat) ^ (k + 1) \<le> 2 ^ 63" by (rule power_increasing) simp
  then have "length c * 2 mod 2 ^ 64 = 2 ^ (k + 1)" by (simp add: k(1))
  moreover have "pow2 (2 ^ (k + 1))" unfolding pow2_def using \<open>k < 63\<close> by (intro exI [of _ "k + 1"]) simp
  ultimately show ?thesis using False by simp
qed

definition symbol_result :: "mem \<Rightarrow> ctxid \<Rightarrow> string \<Rightarrow> handle \<Rightarrow> mem \<Rightarrow> bool" where
  \<comment> \<open>what a call of \<open>rc_symbol\<close> may do: at most one symbol is added, and it is the one returned\<close>
  "symbol_result s c name v t \<longleftrightarrow> symbols_wf t c \<and> next_ctx t = next_ctx s \<and> (\<forall>a. live s a \<longrightarrow> cell_kept s t a) \<and>
     (\<forall>a\<in>interned s c. name_of t a = name_of s a) \<and>
     (v = HNull \<and> interned t c = interned s c \<or>
      (\<exists>a. v = HRef a \<and> name_of t a = c_string name \<and> a \<in> interned t c \<and> interned t c = insert a (interned s c)))"

lemma symbol_result_null:
  assumes wf: "symbols_wf s c" and m: "moves s {#} t {#}" "heap_ok s R" "grows s t"
  shows "symbol_result s c name HNull t"
proof -
  have "symbols_wf t c" by (rule symbols_wf_moves [OF wf m(1)]) (use m(2) in simp)
  moreover have "same_core s t" using m(3) by (simp add: grows_def)
  moreover have "name_of t a = name_of s a" if "a \<in> interned s c" for a
    using m(3) interned_live [OF wf that] cell_kept_load(1) [of s t a] by (simp add: grows_def name_of_def)
  ultimately show ?thesis using m(3) same_coreD(1) [of s t c] same_coreD(12) [of s t] by (simp add: symbol_result_def grows_def interned_def)
qed

lemma symbol_cell_step:
  assumes c: "c < next_ctx s" and wf: "symbols_wf s c" and ok: "heap_ok s R"
    and none: "\<forall>a\<in>interned s c. name_of s a \<noteq> c_string name" and ne: "symbols (ctxs s c) \<noteq> []"
    and e: "(case text_value c RC_SYMBOL (Some (c_string name)) s of (HRef a, t) \<Rightarrow> (HRef a, intern_symbol c name a t)
      | (v, t) \<Rightarrow> (v, t)) = (v, s')"
  shows "heap_ok s' (add_mset v R)" "symbol_result s c name v s'"
proof -
  obtain w t where tv: "text_value c RC_SYMBOL (Some (c_string name)) s = (w, t)" by fastforce
  have sym: "RC_SYMBOL = RC_STRING \<or> RC_SYMBOL = RC_SYMBOL" by simp
  note T = text_value_ok [OF c sym tv]
  have m: "heap_ok t (add_mset w R)" using movesD(1) [OF T(1), of R] ok by simp
  have wft: "symbols_wf t c" by (rule symbols_wf_moves [OF wf T(1)]) (use ok in simp)
  note g = T(3) [OF ok]
  then have core: "same_core s t" by (simp add: grows_def)
  from T(2) [OF ok] have "heap_ok s' (add_mset v R) \<and> symbol_result s c name v s'"
  proof
    assume w: "w = HNull"
    then have "v = HNull" "s' = t" using e tv by simp_all
    moreover have "moves s {#} t {#}" using T(1) w by simp
    ultimately show ?thesis using symbol_result_null [OF wf _ ok g] m w by simp
  next
    assume "\<exists>a x. w = HRef a \<and> Some (c_string name) = Some x \<and> \<not> live s a \<and> load (cell_at t a) = text_payload RC_SYMBOL x \<and> rc_value_context t a = c"
    then obtain a where a: "w = HRef a" "\<not> live s a" "load (cell_at t a) = VSymbol (c_string name) 0 HNull HNull" "rc_value_context t a = c"
      by (auto simp: text_payload_def)
    then have r: "v = HRef a" "s' = intern_symbol c name a t" using e tv by simp_all
    have it: "interned t c = interned s c" "symbols (ctxs t c) = symbols (ctxs s c)"
      using same_coreD(1) [OF core] by (simp_all add: interned_def)
    have new: "a \<notin> interned t c" using a(2) interned_live [OF wf] it(1) by blast
    have nm: "name_of t b = name_of s b" if "b \<in> interned s c" for b
      using g interned_live [OF wf that] cell_kept_load(1) [of s t b] by (simp add: grows_def name_of_def)
    have kn: "\<forall>b\<in>interned t c. name_of t b \<noteq> c_string name" using none nm it(1) by simp
    have net: "symbols (ctxs t c) \<noteq> []" using ne it(2) by simp
    note I = intern_symbol_ok [OF m [unfolded a(1)] wft new a(3,4) kn net r(2)]
    have k: "cell_kept s s' b" if "live s b" for b
    proof -
      have "cell_kept s t b" using g that by (simp add: grows_def)
      moreover have "b \<noteq> a" using a(2) that by blast
      ultimately show ?thesis using I(2) cell_kept_trans [of s t b s'] by (simp add: cell_kept_def [of s t])
    qed
    have "name_of s' b = name_of s b" if "b \<in> interned s c" for b
      using cell_kept_load(1) [OF k] interned_live [OF wf that] by (simp add: name_of_def)
    moreover have "next_ctx s' = next_ctx s" using same_coreD(12) [OF core] by (simp add: r(2) intern_symbol_def Let_def)
    ultimately show ?thesis using I(1,3,4,5) k r it(1) by (simp add: symbol_result_def)
  qed
  then show "heap_ok s' (add_mset v R)" "symbol_result s c name v s'" by simp_all
qed

lemma symbol_result_trans:
  assumes k: "\<forall>a. live s a \<longrightarrow> cell_kept s t a" "interned t c = interned s c" "\<And>a. name_of t a = name_of s a"
      "next_ctx t = next_ctx s"
    and r: "symbol_result t c name v u"
  shows "symbol_result s c name v u"
proof -
  have "cell_kept s u a" if "live s a" for a
  proof -
    have "cell_kept s t a" using k(1) that by blast
    moreover from this have "cell_kept t u a" using r by (simp add: symbol_result_def cell_kept_def [of s t])
    ultimately show ?thesis by (rule cell_kept_trans)
  qed
  with r show ?thesis by (simp add: symbol_result_def k(2-4))
qed

lemma rc_symbol_ok:
  assumes c: "c < next_ctx s" and wf: "symbols_wf s c" and ok: "heap_ok s R" and e: "rc_symbol c (Some name) s = (v, s')"
  shows "heap_ok s' (add_mset v R)" "symbol_result s c name v s'"
proof -
  have "heap_ok s' (add_mset v R) \<and> symbol_result s c name v s'"
  proof (cases "c = 0")
    case True
    with e have "v = HNull" "s' = rc_error c ''invalid symbol'' s" by (auto simp: rc_symbol_def rc_fail_def)
    then show ?thesis using symbol_result_null [OF wf _ ok] heap_ok_same_heap [OF ok] by simp
  next
    case c0: False
    show ?thesis
    proof (cases "find_symbol s c name")
      case (Some a)
      with find_symbol_iff [OF wf] have a: "a \<in> interned s c" "name_of s a = c_string name" by simp_all
      from Some c0 e have "v = HRef a" "s' = s" by (simp_all add: rc_symbol_def)
      moreover from symbols_wfD(3) [OF wf a(1)] have "heap_ok s (add_mset (HRef a) R)"
        by (intro heap_ok_add_immortal [OF ok]) (simp_all add: symbol_cell_def)
      ultimately show ?thesis using wf a by (auto simp: symbol_result_def intro: cell_kept_refl)
    next
      case None
      with find_symbol_None [OF wf] have none: "\<forall>a\<in>interned s c. name_of s a \<noteq> c_string name" by simp
      let ?bs = "symbols (ctxs s c)"
      let ?grown = "if length ?bs \<noteq> 0 then length ?bs * 2 mod 2 ^ 64 else 64"
      let ?tail = "\<lambda>t. case text_value c RC_SYMBOL (Some (c_string name)) t of
          (HRef a, u) \<Rightarrow> (HRef a, intern_symbol c name a u) | (w, u) \<Rightarrow> (w, u)"
      obtain okay t where g: "(if symbols_full (ctxs s c) then if ?grown < length ?bs then (False, rc_error c ''symbol table size overflow'' s)
          else resize_symbols c ?grown s else (True, s)) = (okay, t)" by fastforce
      have e2: "(if \<not> okay then (HNull, t) else ?tail t) = (v, s')"
        using e c0 None g unfolding rc_symbol_def Let_def by simp
      have K: "same_heap s t \<and> (\<forall>a. live s a \<longrightarrow> cell_kept s t a) \<and> symbols_wf t c \<and> interned t c = interned s c \<and>
          (\<forall>a. name_of t a = name_of s a) \<and> (okay \<longrightarrow> symbols (ctxs t c) \<noteq> [])"
      proof (cases "symbols_full (ctxs s c)")
        case False
        then have "okay" "t = s" using g by simp_all
        with False wf show ?thesis by (auto simp: symbols_full_def intro: cell_kept_refl)
      next
        case full: True
        show ?thesis
        proof (cases "?grown < length ?bs")
          case True
          with full g have t: "\<not> okay" "t = rc_error c ''symbol table size overflow'' s" by auto
          have "moves s {#} t {#}" "grows s t" by (simp_all add: t)
          from symbol_result_null [OF wf this(1) ok this(2)] t show ?thesis
            by (simp add: symbol_result_def name_of_def)
        next
          case False
          with full g have r: "resize_symbols c ?grown s = (okay, t)" by simp
          have p: "pow2 ?grown" by (rule grown_pow2) (use symbols_wfD(1) [OF wf] False in auto)
          note R = resize_symbols_ok [OF wf p r]
          have "okay \<longrightarrow> symbols (ctxs t c) \<noteq> []" using R(5) pow2_pos [OF p] by auto
          then show ?thesis using R(1-4,6) by blast
        qed
      qed
      then have okt: "heap_ok t R" and ct: "c < next_ctx t" using heap_ok_same_heap [OF ok] c by (auto simp: same_heap_def)
      show ?thesis
      proof (cases okay)
        case False
        with e2 have "v = HNull" "s' = t" by simp_all
        with K okt show ?thesis by (simp add: symbol_result_def same_heap_def)
      next
        case True
        with e2 have b: "?tail t = (v, s')" by simp
        have "\<forall>a\<in>interned t c. name_of t a \<noteq> c_string name" "symbols (ctxs t c) \<noteq> []" "symbols_wf t c" using K none True by simp_all
        note S = symbol_cell_step [OF ct this(3) okt this(1,2) b]
        have "symbol_result s c name v s'"
          by (rule symbol_result_trans [OF _ _ _ _ S(2)]) (use K in \<open>simp_all add: same_heap_def\<close>)
        with S(1) show ?thesis by simp
      qed
    qed
  qed
  then show "heap_ok s' (add_mset v R)" "symbol_result s c name v s'" by simp_all
qed

text \<open>A symbol found again is the same symbol, and equal handles are equal names.\<close>

lemma rc_symbol_again:
  assumes "symbols_wf s c" "c \<noteq> 0" "a \<in> interned s c" "name_of s a = c_string name"
  shows "rc_symbol c (Some name) s = (HRef a, s)"
  using find_symbol_iff [OF assms(1), of name a] assms by (simp add: rc_symbol_def)

lemma rc_symbol_identity:
  assumes c: "c < next_ctx s" and wf: "symbols_wf s c" and ok: "heap_ok s R"
    and m: "rc_symbol c (Some m) s = (v, s1)" "v \<noteq> HNull" and n: "rc_symbol c (Some n) s1 = (w, s2)" "w \<noteq> HNull"
  shows "v = w \<longleftrightarrow> c_string m = c_string n" "c_string m = c_string n \<Longrightarrow> s2 = s1"
proof -
  note R1 = rc_symbol_ok [OF c wf ok m(1)]
  then obtain a where a: "v = HRef a" "name_of s1 a = c_string m" "a \<in> interned s1 c" and wf1: "symbols_wf s1 c"
    using m(2) by (auto simp: symbol_result_def)
  have c0: "c \<noteq> 0"
  proof
    assume "c = 0"
    with m show False by (simp add: rc_symbol_def rc_fail_def)
  qed
  show "c_string m = c_string n \<Longrightarrow> s2 = s1" using rc_symbol_again [OF wf1 c0 a(3)] a(2) n(1) by simp
  show "v = w \<longleftrightarrow> c_string m = c_string n"
  proof
    assume "c_string m = c_string n"
    then show "v = w" using rc_symbol_again [OF wf1 c0 a(3)] a n(1) by simp
  next
    assume vw: "v = w"
    have c1: "c < next_ctx s1" using c R1(2) by (simp add: symbol_result_def)
    have "symbol_result s1 c n w s2" by (rule rc_symbol_ok(2) [OF c1 wf1 R1(1) n(1)])
    then obtain b where "w = HRef b" "name_of s2 b = c_string n" "\<forall>x\<in>interned s1 c. name_of s2 x = name_of s1 x"
      using n(2) by (auto simp: symbol_result_def)
    with vw a show "c_string m = c_string n" by simp
  qed
qed

end
