(* ===== verification/Graph_Laws.thy ===== *)
theory Graph_Laws
  imports Closures Scalar_Laws
begin

text \<open>
  Ownership of the constructors with children: evaluator frames, closures with borrowed, owned and
  partly moved captures, partial applications and tail requests. Each one consumes exactly the
  arguments it says it consumes, on the error paths too.
\<close>

subsection \<open>Shared steps\<close>

lemma optional_call:
  assumes "(if b then library_call s else (True, s)) = (okay, t)"
  shows "moves s A t A" "grows s t" "next_ctx t = next_ctx s" "live t a = live s a" "cell_at t a = cell_at s a"
    "rc_value_context t a = rc_value_context s a" "heap_ok s R \<Longrightarrow> heap_ok t R"
proof -
  have t: "t = s \<or> t = snd (library_call s)" using assms by (auto split: if_splits)
  then show "moves s A t A" using same_heap_moves [OF same_heap_library_call grows_library_call] by auto
  show "grows s t" "next_ctx t = next_ctx s" "live t a = live s a" "cell_at t a = cell_at s a"
    "rc_value_context t a = rc_value_context s a" "heap_ok s R \<Longrightarrow> heap_ok t R"
    using t heap_ok_same_heap [OF _ same_heap_library_call] by auto
qed

lemma accounting:
  fixes k :: "ctx \<Rightarrow> nat" and l :: "ctx \<Rightarrow> stats"
  shows "moves s A (upd_ctx c (\<lambda>x. x\<lparr>graph_slots := k x\<rparr>) s) A" "grows s (upd_ctx c (\<lambda>x. x\<lparr>graph_slots := k x\<rparr>) s)"
    "moves s A (upd_ctx c (\<lambda>x. x\<lparr>stats := l x, graph_slots := k x\<rparr>) s) A" "grows s (upd_ctx c (\<lambda>x. x\<lparr>stats := l x, graph_slots := k x\<rparr>) s)"
proof -
  have core: "ctx_core (x\<lparr>graph_slots := i\<rparr>) = ctx_core x" "ctx_core (x\<lparr>stats := j, graph_slots := i\<rparr>) = ctx_core x" for x i j
    by (simp_all add: ctx_core_def heap_fields_cleared_def)
  have "same_core s (upd_ctx c (\<lambda>x. x\<lparr>graph_slots := k x\<rparr>) s)" "same_core s (upd_ctx c (\<lambda>x. x\<lparr>stats := l x, graph_slots := k x\<rparr>) s)"
    by (rule same_core_upd_ctx, rule core)+
  moreover have "same_cells s (upd_ctx c (\<lambda>x. x\<lparr>graph_slots := k x\<rparr>) s)"
    "same_cells s (upd_ctx c (\<lambda>x. x\<lparr>stats := l x, graph_slots := k x\<rparr>) s)" by (auto simp: same_cells_def ctxs_upd_ctx)
  ultimately have g: "grows s (upd_ctx c (\<lambda>x. x\<lparr>graph_slots := k x\<rparr>) s)" "grows s (upd_ctx c (\<lambda>x. x\<lparr>stats := l x, graph_slots := k x\<rparr>) s)"
    by (simp_all add: grows_same_cells)
  have h: "same_heap s (upd_ctx c (\<lambda>x. x\<lparr>graph_slots := k x\<rparr>) s)" "same_heap s (upd_ctx c (\<lambda>x. x\<lparr>stats := l x, graph_slots := k x\<rparr>) s)"
    by (rule same_heap_upd_ctx, simp)+
  show "moves s A (upd_ctx c (\<lambda>x. x\<lparr>graph_slots := k x\<rparr>) s) A" "moves s A (upd_ctx c (\<lambda>x. x\<lparr>stats := l x, graph_slots := k x\<rparr>) s) A"
    using same_heap_moves [OF h(1) g(1)] same_heap_moves [OF h(2) g(2)] by blast+
  show "grows s (upd_ctx c (\<lambda>x. x\<lparr>graph_slots := k x\<rparr>) s)" "grows s (upd_ctx c (\<lambda>x. x\<lparr>stats := l x, graph_slots := k x\<rparr>) s)"
    by (fact g)+
qed

lemma child_valid:
  assumes ok: "heap_ok s R" and live: "live s a" and v: "v \<in> set (payload_slots (load (cell_at s a)))"
  shows "valid s v"
  unfolding valid_def
proof (intro allI impI)
  fix b assume b: "v = HRef b"
  note c = rc_okD(6) [OF ok [unfolded heap_ok_def]]
  have "set (payload_slots (load (cell_at s a))) \<subseteq> set (out (view s) a)"
    by (cases "load (cell_at s a)") (auto simp: payload_slots_def holds_def edges_def)
  then have "HRef b \<in># held (view s) {} + R"
    using held_mem [OF counts_okD(1) [OF c]] live v b by (auto simp: live_fmdom)
  from counts_okD(5) [OF c this] show "live s b" by (simp add: live_fmdom)
qed

lemma belongs_valid: "\<forall>v\<in>set vs. v \<in># R \<Longrightarrow> heap_ok s R \<Longrightarrow> \<forall>v\<in>set vs. valid s v"
  using valid_owned by blast

text \<open>Allocate, retain the borrowed children, store the payload; on failure release the moved ones.\<close>

lemma new_graph_cell:
  assumes c: "c < next_ctx s"
    and e: "(case allocate c t extra s of
        (HRef a, u) \<Rightarrow> (HRef a, upd_cell a (F (fold rc_retain vs u)) (fold rc_retain vs u))
      | (w, u) \<Rightarrow> (HNull, fold rc_release ms u)) = (v, s')"
    and p: "type_of_payload p = t" "t \<noteq> RC_NIL" "\<not> source_flag p" "set (symbol_slots p) \<subseteq> {HNull}"
    and slots: "mset (payload_slots p) = mset vs + mset ms" and vs: "\<forall>v\<in>set vs. valid s v"
    and F: "\<And>u x. refs (F u x) = refs x \<and> has_plan (F u x) = has_plan x \<and> load (F u x) = p"
  shows "moves s (mset ms) s' {#v#}"
    and "heap_ok s (mset ms + R) \<Longrightarrow>
      v = HNull \<or> (\<exists>a. v = HRef a \<and> \<not> live s a \<and> load (cell_at s' a) = p \<and> rc_value_context s' a = c \<and> grows s s')"
proof -
  obtain w u where al: "allocate c t extra s = (w, u)" by fastforce
  have main: "moves s (mset ms) s' {#v#} \<and> (heap_ok s (mset ms + R) \<longrightarrow>
      v = HNull \<or> (\<exists>a. v = HRef a \<and> \<not> live s a \<and> load (cell_at s' a) = p \<and> rc_value_context s' a = c \<and> grows s s'))"
  proof (cases "\<exists>a. w = HRef a")
    case True
    then obtain a where w: "w = HRef a" by blast
    then have r: "v = HRef a" "s' = upd_cell a (F (fold rc_retain vs u)) (fold rc_retain vs u)" using e al by simp_all
    note k = construct [where f = "F (fold rc_retain vs u)" and s = s and ms = ms and vs = vs and p = p,
        OF _ c al [unfolded w] p slots vs F, folded r(2)]
    have "moves s (mset ms) s' {#v#}" by (rule moves_growsI) (use k(1,2) r(1) in simp)
    with k(2-6) r(1) show ?thesis by blast
  next
    case False
    then have r: "v = HNull" "s' = fold rc_release ms u" using e al by (cases w; simp)+
    have "moves s (mset ms) u (mset ms)"
      by (rule moves_growsI) (use allocate_failed [OF _ c p(2) al] False in auto)
    from moves_trans [OF this moves_release_list [of u ms "{#}", simplified]] r show ?thesis by simp
  qed
  then show "moves s (mset ms) s' {#v#}"
    "heap_ok s (mset ms + R) \<Longrightarrow>
      v = HNull \<or> (\<exists>a. v = HRef a \<and> \<not> live s a \<and> load (cell_at s' a) = p \<and> rc_value_context s' a = c \<and> grows s s')"
    by blast+
qed

subsection \<open>Closures\<close>

lemma mset_masked: "mset (unmasked msk vs) + mset (masked msk vs) = mset vs"
proof -
  have "mset (map snd (filter P xs)) + mset (map snd (filter (\<lambda>p. \<not> P p) xs)) = mset (map snd xs)" for P and xs :: "(nat \<times> handle) list"
    by (induction xs) auto
  from this [of "\<lambda>(i, v). \<not> bit_set msk i" "enumerate 0 vs"] show ?thesis
    by (simp add: masked_def unmasked_def case_prod_unfold)
qed

lemma masked_subset: "set (unmasked msk vs) \<subseteq> set vs" "set (masked msk vs) \<subseteq> set vs"
  using arg_cong [OF mset_masked [of msk vs], of set_mset] by auto

lemma masked_none [simp]: "masked 0 vs = []" "unmasked 0 vs = vs"
proof -
  show "masked 0 vs = []" by (simp add: masked_def bit_set_def case_prod_unfold)
  show "unmasked 0 vs = vs" by (simp add: unmasked_def bit_set_def case_prod_unfold)
qed

lemma closure_create_moved_ok:
  assumes c: "c < next_ctx s" and vs: "\<forall>v\<in>set cs. valid s v" and e: "closure_create_moved c n nv own cs moved s = (v, s')"
  shows "moves s (mset (masked moved cs)) s' {#v#}"
    and "heap_ok s (mset (masked moved cs) + R) \<Longrightarrow> v = HNull \<or>
      (\<exists>a. v = HRef a \<and> \<not> live s a \<and> load (cell_at s' a) = VClosure nv own n cs [] \<and> rc_value_context s' a = c \<and> grows s s')"
proof -
  let ?ms = "masked moved cs" and ?vs = "unmasked moved cs" and ?p = "VClosure nv own n cs []"
  have failed: "moves s (mset ?ms) (rc_error c m (moved_release cs moved t)) {#HNull#}" if "moves s (mset ?ms) t (mset ?ms)" for t m
    using moves_then_error [OF moves_trans [OF that moves_release_list [of t ?ms "{#}", simplified]]]
    by (simp add: moved_release_def)
  have main: "moves s (mset ?ms) s' {#v#} \<and> (heap_ok s (mset ?ms + R) \<longrightarrow> v = HNull \<or>
      (\<exists>a. v = HRef a \<and> \<not> live s a \<and> load (cell_at s' a) = ?p \<and> rc_value_context s' a = c \<and> grows s s'))"
  proof (cases "(nv = 0 \<and> own = 0) \<or> length cs > SIZE_MAX div PTR_BYTES \<or> (\<exists>v\<in>set cs. \<not> belongs s c v)")
    case True
    then have "v = HNull" "\<exists>m. s' = rc_error c m (moved_release cs moved s)"
      using e by (auto simp: closure_create_moved_def rc_fail_def split: if_splits)
    with failed [of s] show ?thesis by auto
  next
    case False
    then have nots: "\<not> ((nv = 0 \<and> own = 0) \<or> length cs > SIZE_MAX div PTR_BYTES)" "\<not> (\<exists>v\<in>set cs. \<not> belongs s c v)" by blast+
    obtain okay t where l: "(if cs \<noteq> [] then library_call s else (True, s)) = (okay, t)" by fastforce
    note L = optional_call [OF l]
    let ?tail = "case allocate c RC_CLOSURE (length cs * PTR_BYTES) t of
        (HRef a, u) \<Rightarrow> (HRef a, upd_cell a (closure_cell (fold rc_retain ?vs u) nv own n cs) (fold rc_retain ?vs u))
      | (w, u) \<Rightarrow> (HNull, fold rc_release ?ms u)"
    have e2: "(if \<not> okay then (HNull, rc_error c ''out of memory'' (moved_release cs moved t)) else ?tail) = (v, s')"
      using e l unfolding closure_create_moved_def rc_fail_def Let_def moved_release_def if_not_P [OF nots(1)] if_not_P [OF nots(2)]
      by simp
    show ?thesis
    proof (cases okay)
      case False
      with e2 have "v = HNull" "s' = rc_error c ''out of memory'' (moved_release cs moved t)" by simp_all
      with failed [OF L(1)] show ?thesis by simp
    next
      case True
      with e2 have b: "?tail = (v, s')" by simp
      have ct: "c < next_ctx t" using c L(3) by simp
      have vt: "\<forall>v\<in>set ?vs. valid t v" using vs masked_subset(1) [of moved cs] L(4) by (auto simp: valid_def)
      note k = new_graph_cell [where p = ?p and F = "\<lambda>u. closure_cell u nv own n cs", OF ct b, simplified, OF _ vt]
      have sl: "mset cs = mset ?vs + mset ?ms" by (simp add: mset_masked)
      have 1: "moves t (mset ?ms) s' {#v#}"
        by (rule k(1)) (simp_all add: payload_slots_def closure_cell_def sl)
      have 2: "heap_ok t (mset ?ms + R) \<Longrightarrow> v = HNull \<or>
          (\<exists>a. v = HRef a \<and> \<not> live t a \<and> load (cell_at s' a) = ?p \<and> rc_value_context s' a = c \<and> grows t s')"
        by (rule k(2)) (simp_all add: payload_slots_def closure_cell_def sl)
      from moves_trans [OF L(1) 1] 2 L(2,4,7) grows_trans [OF L(2)] show ?thesis by blast
    qed
  qed
  then show "moves s (mset (masked moved cs)) s' {#v#}"
    "heap_ok s (mset (masked moved cs) + R) \<Longrightarrow> v = HNull \<or>
      (\<exists>a. v = HRef a \<and> \<not> live s a \<and> load (cell_at s' a) = VClosure nv own n cs [] \<and> rc_value_context s' a = c \<and> grows s s')"
    by blast+
qed

subsection \<open>Tail requests\<close>

text \<open>The common tail of both constructors: \<open>vs\<close> is retained, \<open>ms\<close> was owned by the caller.\<close>

lemma tail_request_ok:
  assumes c: "c < next_ctx s" and vs: "\<forall>v\<in>set vs. valid s v" and split: "mset (fn # args) = mset vs + mset ms"
    and e: "(let (okay, u) = (if length args > 3 then library_call s else (True, s))
      in if \<not> okay then rc_fail c m (fold rc_release ms u)
         else case allocate c RC_TAIL n u of
           (HRef a, u) \<Rightarrow> (HRef a, upd_ctx c (\<lambda>x. x\<lparr>graph_slots := graph_slots x + length args\<rparr>)
             (upd_cell a (tail_cell (fold rc_retain vs u) fn args) (fold rc_retain vs u)))
         | (w, u) \<Rightarrow> (HNull, fold rc_release ms u)) = (v, s')"
  shows "moves s (mset ms) s' {#v#}"
    and "heap_ok s (mset ms + R) \<Longrightarrow> v = HNull \<or>
      (\<exists>a. v = HRef a \<and> \<not> live s a \<and> load (cell_at s' a) = VTail fn args 0 \<and> rc_value_context s' a = c \<and> grows s s')"
proof -
  let ?p = "VTail fn args 0"
  obtain okay t where l: "(if length args > 3 then library_call s else (True, s)) = (okay, t)" by fastforce
  note L = optional_call [OF l]
  let ?core = "case allocate c RC_TAIL n t of
      (HRef a, u) \<Rightarrow> (HRef a, upd_cell a (tail_cell (fold rc_retain vs u) fn args) (fold rc_retain vs u))
    | (w, u) \<Rightarrow> (HNull, fold rc_release ms u)"
  have main: "moves s (mset ms) s' {#v#} \<and> (heap_ok s (mset ms + R) \<longrightarrow> v = HNull \<or>
      (\<exists>a. v = HRef a \<and> \<not> live s a \<and> load (cell_at s' a) = ?p \<and> rc_value_context s' a = c \<and> grows s s'))"
  proof (cases okay)
    case False
    with e l have r: "v = HNull" "s' = rc_error c m (fold rc_release ms t)" by (simp_all add: rc_fail_def)
    have "moves s (mset ms) (fold rc_release ms t) {#}"
      by (rule moves_trans [OF L(1) moves_release_list [of t ms "{#}", simplified]])
    with r show ?thesis by (simp add: moves_then_error)
  next
    case True
    obtain w u where core: "?core = (w, u)" by fastforce
    have w: "w = HNull \<or> (\<exists>a. w = HRef a)" using core by (auto split: prod.splits handle.splits)
    have r: "v = w" "s' = (if w = HNull then u else upd_ctx c (\<lambda>x. x\<lparr>graph_slots := graph_slots x + length args\<rparr>) u)"
      using e l True core by (auto split: prod.splits handle.splits)
    have ct: "c < next_ctx t" using c L(3) by simp
    have vt: "\<forall>v\<in>set vs. valid t v" using vs L(4) by (auto simp: valid_def)
    note k = new_graph_cell [where p = ?p and F = "\<lambda>u. tail_cell u fn args", OF ct core, simplified, OF _ vt]
    have 1: "moves t (mset ms) u {#w#}" by (rule k(1)) (use split in \<open>simp_all add: payload_slots_def tail_cell_def\<close>)
    have 2: "heap_ok t (mset ms + R) \<Longrightarrow> w = HNull \<or>
        (\<exists>a. w = HRef a \<and> \<not> live t a \<and> load (cell_at u a) = ?p \<and> rc_value_context u a = c \<and> grows t u)"
      by (rule k(2)) (use split in \<open>simp_all add: payload_slots_def tail_cell_def\<close>)
    have g: "moves u A s' A" "grows u s'" "cell_at s' a = cell_at u a" "rc_value_context s' a = rc_value_context u a" for A a
      using r(2) accounting(1,2) by simp_all
    from moves_trans [OF moves_trans [OF L(1) 1] g(1)] 2 L(2,4,7) g r(1) show ?thesis
      using grows_trans by metis
  qed
  then show "moves s (mset ms) s' {#v#}"
    "heap_ok s (mset ms + R) \<Longrightarrow> v = HNull \<or>
      (\<exists>a. v = HRef a \<and> \<not> live s a \<and> load (cell_at s' a) = VTail fn args 0 \<and> rc_value_context s' a = c \<and> grows s s')"
    by blast+
qed

lemma rc_tailcall_ok:
  assumes c: "c < next_ctx s" and vs: "\<forall>v\<in>set (fn # args). valid s v" and e: "rc_tailcall c fn args s = (v, s')"
  shows "moves s {#} s' {#v#}"
    and "heap_ok s R \<Longrightarrow> v = HNull \<or>
      (\<exists>a. v = HRef a \<and> \<not> live s a \<and> load (cell_at s' a) = VTail fn args 0 \<and> rc_value_context s' a = c \<and> grows s s')"
proof -
  have "moves s {#} s' {#v#} \<and> (heap_ok s R \<longrightarrow> v = HNull \<or>
      (\<exists>a. v = HRef a \<and> \<not> live s a \<and> load (cell_at s' a) = VTail fn args 0 \<and> rc_value_context s' a = c \<and> grows s s'))"
  proof (cases "(\<not> belongs s c fn \<or> length args > SIZE_MAX div PTR_BYTES) \<or> (\<exists>v\<in>set args. \<not> belongs s c v)")
    case True
    with e have "v = HNull" "\<exists>m. s' = rc_error c m s" by (auto simp: rc_tailcall_def rc_fail_def split: if_splits)
    then show ?thesis by auto
  next
    case False
    then have nots: "\<not> (\<not> belongs s c fn \<or> length args > SIZE_MAX div PTR_BYTES)" "\<not> (\<exists>v\<in>set args. \<not> belongs s c v)" by blast+
    have b: "(let (okay, u) = (if length args > 3 then library_call s else (True, s))
      in if \<not> okay then rc_fail c ''out of memory'' (fold rc_release [] u)
         else case allocate c RC_TAIL (tail_extra (length args)) u of
           (HRef a, u) \<Rightarrow> (HRef a, upd_ctx c (\<lambda>x. x\<lparr>graph_slots := graph_slots x + length args\<rparr>)
             (upd_cell a (tail_cell (fold rc_retain (fn # args) u) fn args) (fold rc_retain (fn # args) u)))
         | (w, u) \<Rightarrow> (HNull, fold rc_release [] u)) = (v, s')"
      using e unfolding rc_tailcall_def if_not_P [OF nots(1)] if_not_P [OF nots(2)] Let_def by (simp only: fold_simps)
    from tail_request_ok(1) [OF c vs _ b] tail_request_ok(2) [OF c vs _ b, of R] show ?thesis by simp
  qed
  then show "moves s {#} s' {#v#}" "heap_ok s R \<Longrightarrow> v = HNull \<or>
      (\<exists>a. v = HRef a \<and> \<not> live s a \<and> load (cell_at s' a) = VTail fn args 0 \<and> rc_value_context s' a = c \<and> grows s s')" by blast+
qed

lemma rc_tailcall_owned_args_ok:
  assumes c: "c < next_ctx s" and fn: "valid s fn" and e: "rc_tailcall_owned_args c fn args s = (v, s')"
  shows "moves s (mset args) s' {#v#}"
    and "heap_ok s (mset args + R) \<Longrightarrow> v = HNull \<or>
      (\<exists>a. v = HRef a \<and> \<not> live s a \<and> load (cell_at s' a) = VTail fn args 0 \<and> rc_value_context s' a = c \<and> grows s s')"
proof -
  have "moves s (mset args) s' {#v#} \<and> (heap_ok s (mset args + R) \<longrightarrow> v = HNull \<or>
      (\<exists>a. v = HRef a \<and> \<not> live s a \<and> load (cell_at s' a) = VTail fn args 0 \<and> rc_value_context s' a = c \<and> grows s s'))"
  proof (cases "(\<not> belongs s c fn \<or> length args > SIZE_MAX div PTR_BYTES) \<or> (\<exists>v\<in>set args. \<not> belongs s c v)")
    case True
    with e have "v = HNull" "\<exists>m. s' = rc_error c m (fold rc_release args s)"
      by (auto simp: rc_tailcall_owned_args_def rc_fail_def consume_arguments_def split: if_splits)
    moreover have "moves s (mset args) (rc_error c m (fold rc_release args s)) {#}" for m
      by (rule moves_then_error [OF moves_release_list [of s args "{#}", simplified]])
    ultimately show ?thesis by auto
  next
    case False
    then have nots: "\<not> (\<not> belongs s c fn \<or> length args > SIZE_MAX div PTR_BYTES)" "\<not> (\<exists>v\<in>set args. \<not> belongs s c v)" by blast+
    have b: "(let (okay, u) = (if length args > 3 then library_call s else (True, s))
      in if \<not> okay then rc_fail c ''out of memory'' (fold rc_release args u)
         else case allocate c RC_TAIL (tail_extra (length args)) u of
           (HRef a, u) \<Rightarrow> (HRef a, upd_ctx c (\<lambda>x. x\<lparr>graph_slots := graph_slots x + length args\<rparr>)
             (upd_cell a (tail_cell (fold rc_retain [fn] u) fn args) (fold rc_retain [fn] u)))
         | (w, u) \<Rightarrow> (HNull, fold rc_release args u)) = (v, s')"
      using e unfolding rc_tailcall_owned_args_def if_not_P [OF nots(1)] if_not_P [OF nots(2)] Let_def consume_arguments_def by (simp only: fold_simps)
    from tail_request_ok(1) [OF c _ _ b] tail_request_ok(2) [OF c _ _ b, of R] fn show ?thesis by simp
  qed
  then show "moves s (mset args) s' {#v#}" "heap_ok s (mset args + R) \<Longrightarrow> v = HNull \<or>
      (\<exists>a. v = HRef a \<and> \<not> live s a \<and> load (cell_at s' a) = VTail fn args 0 \<and> rc_value_context s' a = c \<and> grows s s')" by blast+
qed

subsection \<open>Evaluator frames\<close>

lemma env_frame_construct_ok:
  assumes c: "c < next_ctx s" and vs: "\<forall>v\<in>set (par # vs). valid s v" and e: "env_frame_construct c par ks vs n s = (v, s')"
  shows "moves s {#} s' {#v#}"
    and "heap_ok s R \<Longrightarrow> vs \<noteq> [] \<Longrightarrow> v = HNull \<or> (\<exists>a u. v = HRef a \<and> \<not> live s a \<and> rc_value_context s' a = c \<and> grows s s' \<and> grows s u \<and>
      load (cell_at s' a) = load (frame_of u par ks vs (cell_at s' a)))"
proof -
  have main: "moves s {#} s' {#v#} \<and> (heap_ok s R \<longrightarrow> vs \<noteq> [] \<longrightarrow> v = HNull \<or>
      (\<exists>a u. v = HRef a \<and> \<not> live s a \<and> rc_value_context s' a = c \<and> grows s s' \<and> grows s u \<and>
        load (cell_at s' a) = load (frame_of u par ks vs (cell_at s' a))))"
  proof (cases "vs = []")
    case True
    with e have "v = par" "s' = rc_retain par s" by (auto simp: env_frame_construct_def)
    moreover have "valid s par" using vs by simp
    ultimately show ?thesis using True moves_retain [of s par "{#}"] by simp
  next
    case False
    obtain okay t where l: "(if n \<noteq> 0 then library_call s else (True, s)) = (okay, t)" by fastforce
    note L = optional_call [OF l]
    show ?thesis
    proof (cases okay)
      case False
      with e l \<open>vs \<noteq> []\<close> have "v = HNull" "\<exists>m. s' = rc_error c m t" by (auto simp: env_frame_construct_def rc_fail_def)
      with moves_then_error [OF L(1)] show ?thesis by auto
    next
      case True
      obtain w u where al: "allocate c RC_ENV n t = (w, u)" by fastforce
      let ?r = "fold rc_retain (par # vs) u"
      let ?p = "load (frame_of ?r par ks vs (cell_at u 0))"
      have "(case (w, u) of (HRef a, s) \<Rightarrow> (HRef a, upd_ctx c (\<lambda>x. x\<lparr>graph_slots := graph_slots x + 1 + length vs\<rparr>)
          (upd_cell a (frame_of (fold rc_retain (par # vs) s) par ks vs) (fold rc_retain (par # vs) s))) | (v, s) \<Rightarrow> (HNull, s)) = (v, s')"
        using e \<open>vs \<noteq> []\<close> unfolding env_frame_construct_def l Let_def by (simp add: True al)
      moreover define u1 where "u1 = (case w of HRef a \<Rightarrow> upd_cell a (frame_of ?r par ks vs) ?r | _ \<Rightarrow> u)"
      ultimately have core: "(case allocate c RC_ENV n t of
          (HRef a, u') \<Rightarrow> (HRef a, upd_cell a (frame_of ?r par ks vs) (fold rc_retain (par # vs) u'))
        | (w', u') \<Rightarrow> (HNull, fold rc_release [] u')) = (v, u1)"
        and s': "s' = (if v = HNull then u1 else upd_ctx c (\<lambda>x. x\<lparr>graph_slots := graph_slots x + 1 + length vs\<rparr>) u1)"
        by (auto simp: al split: handle.splits)
      have ct: "c < next_ctx t" using c L(3) by simp
      have vt: "\<forall>v\<in>set (par # vs). valid t v" using vs L(4) by (auto simp: valid_def)
      note k = new_graph_cell [where p = ?p and F = "\<lambda>_. frame_of ?r par ks vs" and vs = "par # vs" and ms = "[]", OF ct core _ _ _ _ _ vt]
      have 1: "moves t (mset []) u1 {#v#}" by (rule k(1)) (simp_all add: payload_slots_def frame_of_def)
      have 2: "heap_ok t (mset [] + R) \<Longrightarrow> v = HNull \<or> (\<exists>a. v = HRef a \<and> \<not> live t a \<and> load (cell_at u1 a) = ?p \<and> rc_value_context u1 a = c \<and> grows t u1)"
        by (rule k(2)) (simp_all add: payload_slots_def frame_of_def)
      have g: "moves u1 A s' A" "grows u1 s'" "cell_at s' a = cell_at u1 a" "rc_value_context s' a = rc_value_context u1 a" for A a
        using s' accounting(1,2) by simp_all
      have gr: "grows s ?r" if "heap_ok s R"
        using grows_trans [OF grows_trans [OF L(2) grows_allocate [OF L(7) [OF that] ct al]] grows_retain_list] .
      have pe: "load (frame_of ?r par ks vs (cell_at s' a)) = ?p" for a by (simp add: frame_of_def)
      show ?thesis
        using moves_trans [OF moves_trans [OF L(1) 1 [unfolded mset.simps]] g(1)] 2 L(4,7) g gr pe grows_trans [OF grows_trans [OF L(2)] g(2)]
        by (metis add_0 mset.simps(1))
    qed
  qed
  then show "moves s {#} s' {#v#}"
    "heap_ok s R \<Longrightarrow> vs \<noteq> [] \<Longrightarrow> v = HNull \<or> (\<exists>a u. v = HRef a \<and> \<not> live s a \<and> rc_value_context s' a = c \<and> grows s s' \<and> grows s u \<and>
      load (cell_at s' a) = load (frame_of u par ks vs (cell_at s' a)))" by blast+
qed

end
