(* ===== verification/Env_Laws.thy ===== *)
theory Env_Laws
  imports Graph_Laws
begin

text \<open>
  Evaluator environments. \<open>env_at\<close> relates a frame handle to the list of frames it stands for;
  the class mask of a frame covers every key of the chain. Under this invariant \<open>rc_env_lookup\<close>,
  with its class filter, is the lookup in the concatenated bindings, and \<open>rc_env_frame\<close> extends
  the environment at the front.
\<close>

type_synonym frame = "handle list \<times> handle list"

definition covers :: "mem \<Rightarrow> nat \<Rightarrow> frame list \<Rightarrow> bool" where
  \<comment> \<open>the mask has the class bit of every key\<close>
  "covers s m fs \<longleftrightarrow> (\<forall>(ks, vs)\<in>set fs. \<forall>k\<in>set ks. m AND env_key_class s k \<noteq> 0)"

fun env_at :: "mem \<Rightarrow> handle \<Rightarrow> frame list \<Rightarrow> bool" where
  "env_at s v [] \<longleftrightarrow> rc_type s v \<noteq> RC_ENV"
| "env_at s v (f # fs) \<longleftrightarrow> rc_type s v = RC_ENV \<and> f = (env_keys (load_of s v), env_values (load_of s v)) \<and>
     length (fst f) = length (snd f) \<and> covers s (key_classes (load_of s v)) (f # fs) \<and> env_at s (parent (load_of s v)) fs"

definition env_bindings :: "frame list \<Rightarrow> (handle \<times> handle) list" where
  \<comment> \<open>newest first\<close>
  "env_bindings fs = concat (map (\<lambda>(ks, vs). rev (zip ks vs)) fs)"

lemma env_bindings_simps [simp]:
  "env_bindings [] = []" "env_bindings ((ks, vs) # fs) = rev (zip ks vs) @ env_bindings fs"
  by (simp_all add: env_bindings_def)

lemma env_at_det: "env_at s v fs \<Longrightarrow> env_at s v gs \<Longrightarrow> fs = gs"
proof (induction fs arbitrary: v gs)
  case Nil
  then show ?case by (cases gs) simp_all
next
  case (Cons f fs)
  then show ?case by (cases gs) auto
qed

lemma env_type_ref: "rc_type s v = RC_ENV \<Longrightarrow> \<exists>a. v = HRef a \<and> live s a"
proof (cases v)
  case (HRef a)
  assume "rc_type s v = RC_ENV"
  then have "live s a" using HRef cell_at_dead [of s a] by (cases "live s a") (simp_all add: free_cell_def)
  with HRef show ?thesis by blast
qed simp_all

lemma symbol_type_ref: "rc_type s v = RC_SYMBOL \<Longrightarrow> \<exists>a. v = HRef a \<and> live s a"
proof (cases v)
  case (HRef a)
  assume "rc_type s v = RC_SYMBOL"
  then have "live s a" using HRef cell_at_dead [of s a] by (cases "live s a") (simp_all add: free_cell_def)
  with HRef show ?thesis by blast
qed simp_all

text \<open>The frames of a chain are different cells, so the number of live cells bounds the search.\<close>

fun chain_cells :: "mem \<Rightarrow> handle \<Rightarrow> nat \<Rightarrow> handle list" where
  "chain_cells s v 0 = []"
| "chain_cells s v (Suc n) = v # chain_cells s (parent (load_of s v)) n"

lemma chain_cells_env:
  "env_at s v fs \<Longrightarrow> w \<in> set (chain_cells s v (length fs)) \<Longrightarrow> rc_type s w = RC_ENV \<and> (\<exists>gs. env_at s w gs \<and> length gs \<le> length fs)"
proof (induction fs arbitrary: v)
  case (Cons f fs)
  show ?case
  proof (cases "w = v")
    case True
    then show ?thesis using Cons.prems by (auto simp del: env_at.simps(2) intro!: exI [of _ "f # fs"]) simp
  next
    case False
    with Cons.prems have "env_at s (parent (load_of s v)) fs" "w \<in> set (chain_cells s (parent (load_of s v)) (length fs))" by auto
    from Cons.IH [OF this] show ?thesis by auto
  qed
qed simp

lemma chain_cells_distinct: "env_at s v fs \<Longrightarrow> distinct (chain_cells s v (length fs))"
proof (induction fs arbitrary: v)
  case (Cons f fs)
  then have p: "env_at s (parent (load_of s v)) fs" by simp
  have "v \<notin> set (chain_cells s (parent (load_of s v)) (length fs))"
  proof
    assume "v \<in> set (chain_cells s (parent (load_of s v)) (length fs))"
    from chain_cells_env [OF p this] obtain gs where gs: "env_at s v gs" "length gs \<le> length fs" by blast
    from env_at_det [OF gs(1) Cons.prems] gs(2) show False by simp
  qed
  with Cons.IH [OF p] show ?case by simp
qed simp

lemma env_depth: "env_at s v fs \<Longrightarrow> length fs \<le> cell_count s"
proof -
  assume e: "env_at s v fs"
  let ?cs = "chain_cells s v (length fs)"
  have len: "length (chain_cells s u n) = n" for u n by (induction n arbitrary: u) simp_all
  have "set ?cs \<subseteq> HRef ` fmdom' (cells s)"
  proof
    fix w assume "w \<in> set ?cs"
    with chain_cells_env [OF e] have "rc_type s w = RC_ENV" by blast
    from env_type_ref [OF this] show "w \<in> HRef ` fmdom' (cells s)" by (auto simp: live_fmdom)
  qed
  then have "card (set ?cs) \<le> card (HRef ` fmdom' (cells s))" by (rule card_mono [rotated]) simp
  also have "\<dots> \<le> cell_count s" unfolding cell_count_def by (rule card_image_le) simp
  finally show ?thesis using distinct_card [OF chain_cells_distinct [OF e]] len by simp
qed

lemma env_search_bindings:
  "env_at s v fs \<Longrightarrow> length fs < n \<Longrightarrow>
     env_search s n v key = Some (case map_of (env_bindings fs) key of Some x \<Rightarrow> x | None \<Rightarrow> HNull)"
proof (induction fs arbitrary: v n)
  case Nil
  then show ?case by (cases n) simp_all
next
  case (Cons f fs)
  then obtain k where n: "n = Suc k" by (cases n) simp_all
  from Cons.prems obtain ks vs where f: "f = (ks, vs)" "env_keys (load_of s v) = ks" "env_values (load_of s v) = vs"
    and ty: "rc_type s v = RC_ENV" and p: "env_at s (parent (load_of s v)) fs" by auto
  have "env_search s n v key = (case map_of (rev (zip ks vs)) key of Some x \<Rightarrow> Some x | None \<Rightarrow> env_search s k (parent (load_of s v)) key)"
    using ty f by (simp add: n frame_binding_def)
  with Cons.IH [OF p, of k] Cons.prems(2) show ?case by (simp add: n f map_add_def split: option.splits)
qed

lemma map_of_bindings_key: "map_of (env_bindings fs) key = Some x \<Longrightarrow> \<exists>(ks, vs)\<in>set fs. key \<in> set ks"
proof (induction fs)
  case (Cons f fs)
  obtain ks vs where f: "f = (ks, vs)" by fastforce
  show ?case
  proof (cases "map_of (rev (zip ks vs)) key")
    case None
    with Cons f show ?thesis by (auto simp: map_add_def)
  next
    case (Some y)
    then have "key \<in> set ks" using map_of_SomeD set_zip_leftD by fastforce
    with f show ?thesis by auto
  qed
qed simp

lemma env_lookup_bindings:
  assumes e: "env_at s env fs" and key: "rc_type s key = RC_SYMBOL"
  shows "rc_env_lookup s env key = Some (case map_of (env_bindings fs) key of Some x \<Rightarrow> x | None \<Rightarrow> HNull)"
proof (cases "rc_type s env = RC_ENV \<and> key_classes (load_of s env) AND env_key_class s key \<noteq> 0")
  case True
  then show ?thesis using key env_search_bindings [OF e, of "cell_count s + 1"] env_depth [OF e]
    by (simp add: rc_env_lookup_def)
next
  case False
  have "map_of (env_bindings fs) key = None"
  proof (rule ccontr)
    assume "map_of (env_bindings fs) key \<noteq> None"
    then obtain ks vs where k: "(ks, vs) \<in> set fs" "key \<in> set ks" using map_of_bindings_key by fastforce
    then obtain f gs where fs: "fs = f # gs" by (cases fs) simp_all
    then have "covers s (key_classes (load_of s env)) fs" "rc_type s env = RC_ENV" using e by auto
    with k have "key_classes (load_of s env) AND env_key_class s key \<noteq> 0" unfolding covers_def by blast
    with False \<open>rc_type s env = RC_ENV\<close> show False by simp
  qed
  with False key show ?thesis by (auto simp: rc_env_lookup_def)
qed

subsection \<open>Extending an environment\<close>

lemma env_key_class_kept: "cell_kept s t a \<Longrightarrow> env_key_class t (HRef a) = env_key_class s (HRef a)"
  using cell_kept_load(1) [of s t a] by (simp add: env_key_class_def)

lemma env_key_class_pos: "env_key_class s k \<noteq> 0"
  by (simp add: env_key_class_def Let_def)

definition keys_live :: "mem \<Rightarrow> frame list \<Rightarrow> bool" where
  "keys_live s fs \<longleftrightarrow> (\<forall>(ks, vs)\<in>set fs. \<forall>k\<in>set ks. valid s k)"

lemma env_key_class_valid: "\<forall>a. live s a \<longrightarrow> cell_kept s t a \<Longrightarrow> valid s k \<Longrightarrow> env_key_class t k = env_key_class s k"
  using env_key_class_kept by (cases k) (auto simp: valid_def env_key_class_def)

lemma env_at_kept:
  assumes "env_at s v fs" "keys_live s fs" "\<forall>a. live s a \<longrightarrow> cell_kept s t a" "valid s v" "heap_ok s R"
  shows "env_at t v fs"
  using assms(1,2,4)
proof (induction fs arbitrary: v)
  case Nil
  then show ?case
    using assms(3) cell_kept_load(1) [of s t] by (cases v) (auto simp: valid_def)
next
  case (Cons f fs)
  then obtain a where a: "v = HRef a" "live s a" using env_type_ref by fastforce
  with assms(3) have ld: "load (cell_at t a) = load (cell_at s a)" using cell_kept_load(1) by blast
  have ty: "rc_type s (HRef a) = RC_ENV" using Cons.prems a by simp
  then obtain par ks vs m where p: "load (cell_at s a) = VEnv par ks vs m" by (cases "load (cell_at s a)") auto
  have "valid s par" by (rule child_valid [OF assms(5) a(2)]) (simp add: p payload_slots_def)
  moreover have "env_at s par fs" "keys_live s fs" using Cons.prems a p by (auto simp: keys_live_def)
  ultimately have "env_at t par fs" using Cons.IH by blast
  moreover have "covers t m (f # fs)"
    using Cons.prems a p env_key_class_valid [OF assms(3)] by (fastforce simp: covers_def keys_live_def)
  ultimately show ?case using Cons.prems a p ld by auto
qed

lemma fold_or_mask: "(fold (\<lambda>k m. m OR g k) ks m0) AND (x :: nat) = 0 \<longleftrightarrow> m0 AND x = 0 \<and> (\<forall>k\<in>set ks. g k AND x = 0)"
proof (induction ks arbitrary: m0)
  case (Cons k ks)
  have "(m0 OR g k) AND x = 0 \<longleftrightarrow> m0 AND x = 0 \<and> g k AND x = 0"
    by (auto simp: bit_eq_iff bit_and_iff bit_or_iff)
  then show ?case using Cons.IH [of "m0 OR g k"] by auto
qed simp

lemma rc_env_frame_ok:
  assumes c: "c < next_ctx s" and args: "\<forall>v\<in>set (par # vs). valid s v" and len: "length ks = n" "length vs = n"
    and e: "rc_env_frame c par n (Some ks) (Some vs) s = (v, s')"
  shows "moves s {#} s' {#v#}"
    and "heap_ok s R \<Longrightarrow> v \<noteq> HNull \<Longrightarrow> \<forall>k\<in>set ks. valid s k \<Longrightarrow> env_at s par fs \<Longrightarrow> keys_live s fs \<Longrightarrow>
      grows s s' \<and> (\<forall>k\<in>set ks. rc_type s k = RC_SYMBOL) \<and> env_at s' v (if n = 0 then fs else (ks, vs) # fs)"
proof -
  let ?thesis2 = "heap_ok s R \<longrightarrow> v \<noteq> HNull \<longrightarrow> (\<forall>k\<in>set ks. valid s k) \<longrightarrow> env_at s par fs \<longrightarrow> keys_live s fs \<longrightarrow>
      grows s s' \<and> (\<forall>k\<in>set ks. rc_type s k = RC_SYMBOL) \<and> env_at s' v (if n = 0 then fs else (ks, vs) # fs)"
  let ?bad = "\<exists>(k, v)\<in>set (zip ks vs). \<not> belongs s c k \<or> rc_type s k \<noteq> RC_SYMBOL \<or> \<not> belongs s c v"
  have main: "moves s {#} s' {#v#} \<and> ?thesis2"
  proof (cases "(c = 0 \<or> \<not> belongs s c par \<or> (\<not> rc_is_nil par \<and> rc_type s par \<noteq> RC_ENV)) \<or> n > SIZE_MAX div 2 div PTR_BYTES \<or> ?bad")
    case True
    then have "v = HNull" "\<exists>m. s' = rc_error c m s"
      using e len by (auto simp: rc_env_frame_def rc_fail_def env_storage_bytes_def split: if_splits)
    then show ?thesis by auto
  next
    case False
    then have nots: "c \<noteq> 0" "belongs s c par" "rc_is_nil par \<or> rc_type s par = RC_ENV" "\<not> n > SIZE_MAX div 2 div PTR_BYTES" "\<not> ?bad"
      by (simp_all only: de_Morgan_disj de_Morgan_conj not_not simp_thms)
    have b: "env_frame_construct c par ks vs (if n > 1 then 2 * n * PTR_BYTES else 0) s = (v, s')"
    proof -
      have g: "\<not> (c = 0 \<or> \<not> belongs s c par \<or> (\<not> rc_is_nil par \<and> rc_type s par \<noteq> RC_ENV) \<or> (n \<noteq> 0 \<and> (Some ks = None \<or> Some vs = None)))"
        using nots(1-3) by simp
      have bytes: "env_storage_bytes c n s = (Some (if n > 1 then 2 * n * PTR_BYTES else 0), s)"
        unfolding env_storage_bytes_def if_not_P [OF nots(4)] ..
      have take: "take n ks = ks" "take n vs = vs" using len by simp_all
      show ?thesis using e
        unfolding rc_env_frame_def if_not_P [OF g] bytes Let_def option.case prod.case take if_not_P [OF nots(5)] .
    qed
    note F = env_frame_construct_ok [OF c args b]
    have sym: "rc_type s k = RC_SYMBOL" if k: "k \<in> set ks" for k
    proof -
      obtain i where "i < length ks" "ks ! i = k" using k by (auto simp: in_set_conv_nth)
      with len have "(k, vs ! i) \<in> set (zip ks vs)" by (auto simp: set_zip)
      with nots(5) show ?thesis by blast
    qed
    have ?thesis2
    proof (intro impI)
      assume ok: "heap_ok s R" and v: "v \<noteq> HNull" and kl: "\<forall>k\<in>set ks. valid s k" and ea: "env_at s par fs" and fl: "keys_live s fs"
      have pv: "valid s par" using args by simp
      show "grows s s' \<and> (\<forall>k\<in>set ks. rc_type s k = RC_SYMBOL) \<and> env_at s' v (if n = 0 then fs else (ks, vs) # fs)"
      proof (cases "vs = []")
        case True
        with b have r: "v = par" "s' = rc_retain par s" by (auto simp: env_frame_construct_def)
        have g: "grows s s'" unfolding r by (rule grows_retain)
        have "env_at s' v fs" unfolding r(1) by (rule env_at_kept [OF ea fl _ pv ok]) (use g in \<open>simp add: grows_def\<close>)
        with g True len sym show ?thesis by simp
      next
        case False
        from F(2) [OF ok False] v obtain a u where a: "v = HRef a" "grows s s'" "grows s u"
            "load (cell_at s' a) = load (frame_of u par ks vs (cell_at s' a))" by blast
        let ?base = "if rc_is_nil par then 0 else key_classes (load_of u par)"
        let ?m = "fold (\<lambda>k m. m OR env_key_class u k) ks ?base"
        have ld: "load (cell_at s' a) = VEnv par ks vs ?m" using a(4) by (simp add: frame_of_def)
        have k1: "\<forall>a. live s a \<longrightarrow> cell_kept s s' a" "\<forall>a. live s a \<longrightarrow> cell_kept s u a" using a(2,3) by (simp_all add: grows_def)
        have par: "env_at s' par fs" by (rule env_at_kept [OF ea fl k1(1) pv ok])
        have parm: "load_of u par = load_of s par" if "\<not> rc_is_nil par"
          using nots(3) that env_type_ref [of s par] k1(2) cell_kept_load(1) [of s u] by auto
        have "covers s' ?m ((ks, vs) # fs)" unfolding covers_def
        proof (rule ballI, unfold case_prod_beta, intro ballI notI)
          fix x k assume x: "x \<in> set ((ks, vs) # fs)" and kx: "k \<in> set (fst x)" and z: "?m AND env_key_class s' k = 0"
          obtain ks' vs' where "x = (ks', vs')" by fastforce
          with x kx have f: "(ks', vs') \<in> set ((ks, vs) # fs)" and k: "k \<in> set ks'" by simp_all
          have kv: "valid s k" using f k kl fl by (auto simp: keys_live_def)
          have cl: "env_key_class s' k = env_key_class u k" "env_key_class u k = env_key_class s k"
            using env_key_class_valid [OF k1(1) kv] env_key_class_valid [OF k1(2) kv] by simp_all
          show False
          proof (cases "k \<in> set ks")
            case True
            then have "env_key_class u k AND env_key_class u k = 0" using z fold_or_mask [where g = "env_key_class u"] cl by auto
            then show False using env_key_class_pos [of u k] by simp
          next
            case False
            with f k have fs: "(ks', vs') \<in> set fs" by auto
            then obtain g gs where gs: "fs = g # gs" by (cases fs) simp_all
            with ea have env: "rc_type s par = RC_ENV" "covers s (key_classes (load_of s par)) fs" by auto
            then have "\<not> rc_is_nil par" by (auto simp: rc_is_nil_def)
            moreover have "?base AND env_key_class s' k = 0"
              by (rule conjunct1 [OF z [unfolded fold_or_mask]])
            ultimately have "key_classes (load_of s par) AND env_key_class s k = 0" using parm cl by simp
            with env(2) fs k show False unfolding covers_def by blast
          qed
        qed
        then have "env_at s' v ((ks, vs) # fs)" using a(1) ld par len by simp
        with a(2) sym False len show ?thesis by auto
      qed
    qed
    with F(1) show ?thesis by blast
  qed
  then show "moves s {#} s' {#v#}" by blast
  from main show "heap_ok s R \<Longrightarrow> v \<noteq> HNull \<Longrightarrow> \<forall>k\<in>set ks. valid s k \<Longrightarrow> env_at s par fs \<Longrightarrow> keys_live s fs \<Longrightarrow>
      grows s s' \<and> (\<forall>k\<in>set ks. rc_type s k = RC_SYMBOL) \<and> env_at s' v (if n = 0 then fs else (ks, vs) # fs)" by blast
qed

text \<open>A frame shadows its parent; nothing else about the parent's bindings changes.\<close>

lemma rc_env_frame_lookup:
  assumes c: "c < next_ctx s" and ok: "heap_ok s R" and args: "\<forall>v\<in>set (par # ks @ vs). valid s v" and len: "length ks = length vs"
    and env: "env_at s par fs" "keys_live s fs" and e: "rc_env_frame c par (length vs) (Some ks) (Some vs) s = (v, s')"
    and v: "v \<noteq> HNull" and key: "rc_type s key = RC_SYMBOL"
  shows "rc_env_lookup s' v key = (case map_of (rev (zip ks vs)) key of Some x \<Rightarrow> Some x | None \<Rightarrow> rc_env_lookup s par key)"
proof -
  have pv: "\<forall>v\<in>set (par # vs). valid s v" "\<forall>k\<in>set ks. valid s k" using args by auto
  from rc_env_frame_ok(2) [OF c pv(1) len refl e ok v pv(2) env]
  have g: "grows s s'" and ea: "env_at s' v (if length vs = 0 then fs else (ks, vs) # fs)" by simp_all
  obtain a where a: "key = HRef a" "live s a"
    using symbol_type_ref [OF key] by blast
  then have key': "rc_type s' key = RC_SYMBOL" using g key cell_kept_load(1) [of s s' a] by (simp add: grows_def)
  from env_lookup_bindings [OF ea key'] env_lookup_bindings [OF env(1) key] len show ?thesis
    by (cases "length vs = 0") (auto simp: map_add_def split: option.splits)
qed

end
