(* ===== verification/Plan_Laws.thy ===== *)
theory Plan_Laws
  imports Plans
begin

text \<open>
  Evaluation plans. The stored form decodes to what was compiled; every index in a compiled plan is
  in bounds, which is what lets the interpreter of plans index without checks; and the one bound that
  the compiler does not keep, the size of the auxiliary buffer.
\<close>

subsection \<open>The stored form\<close>

lemma get16_le16:
  assumes "take 2 (drop i bs) = le16 n"
  shows "get16 bs i = n mod 65536"
proof -
  have "i + 1 < length bs"
  proof (rule ccontr)
    assume "\<not> i + 1 < length bs"
    then have "length (take 2 (drop i bs)) < 2" by simp
    with assms show False by (simp add: le16_def)
  qed
  then have "bs ! i = take 2 (drop i bs) ! 0" "bs ! (i + 1) = take 2 (drop i bs) ! 1" by simp_all
  then have b: "byte_at bs i = n mod 256" "byte_at bs (i + 1) = n div 256 mod 256"
    unfolding assms by (simp_all add: byte_at_def le16_def)
  have "n mod 65536 = n mod (256 * 256)" by simp
  also have "\<dots> = n mod 256 + 256 * (n div 256 mod 256)" by (simp only: mod_mult2_eq)
  finally show ?thesis unfolding get16_def b by simp
qed

lemma drop_blocks: "(\<And>x. x \<in> set xs \<Longrightarrow> length (f x) = k) \<Longrightarrow> drop (k * i) (concat (map f xs)) = concat (map f (drop i xs))"
proof (induction xs arbitrary: i)
  case (Cons x xs)
  then show ?case by (cases i) simp_all
qed simp

lemma encode_lengths [simp]: "length (le16 n) = 2" "length (le32 n) = 4" "length (encode_header h) = 20" "length (encode_node x) = 10"
  by (simp_all add: le16_def le32_def encode_header_def encode_node_def)

lemma encode_nodes_length: "length (concat (map encode_node xs)) = 10 * length xs"
  by (induction xs) simp_all

lemma plan_op_round_trip: "plan_ops ! plan_op_index x plan_ops = x" "plan_op_index x plan_ops < 12"
  by (cases x; simp add: plan_ops_def)+

lemma node_round_trip:
  assumes pc: "pc < length (nodes b)"
    and f: "node_a (nodes b ! pc) < 65536" "node_b (nodes b ! pc) < 65536" "node_c (nodes b ! pc) < 65536" "node_n (nodes b ! pc) < 65536"
  shows "node_at (encode_plan h b) pc = nodes b ! pc"
proof -
  let ?bs = "encode_plan h b" and ?x = "nodes b ! pc" and ?i = "20 + 10 * pc"
  have "drop ?i ?bs = drop (10 * pc) (concat (map encode_node (nodes b)) @ concat (map le16 (aux b)))"
    by (simp add: encode_plan_def)
  also have "\<dots> = concat (map encode_node (drop pc (nodes b))) @ concat (map le16 (aux b))"
    using pc by (simp add: drop_blocks encode_nodes_length)
  also have "\<dots> = encode_node ?x @ concat (map encode_node (drop (Suc pc) (nodes b))) @ concat (map le16 (aux b))"
    using pc by (simp add: Cons_nth_drop_Suc [symmetric])
  finally obtain rest where d: "drop ?i ?bs = le16 (plan_op_index (node_op ?x) plan_ops) @ le16 (node_a ?x) @ le16 (node_b ?x) @ le16 (node_c ?x) @ le16 (node_n ?x) @ rest"
    unfolding encode_node_def by simp
  have at: "drop (?i + k) ?bs = drop k (drop ?i ?bs)" for k by (simp add: add.commute)
  have "get16 ?bs ?i = plan_op_index (node_op ?x) plan_ops mod 65536" by (rule get16_le16) (simp add: d)
  moreover have "get16 ?bs (?i + 2) = node_a ?x mod 65536" by (rule get16_le16, unfold at d) simp
  moreover have "get16 ?bs (?i + 4) = node_b ?x mod 65536" by (rule get16_le16, unfold at d) simp
  moreover have "get16 ?bs (?i + 6) = node_c ?x mod 65536" by (rule get16_le16, unfold at d) simp
  moreover have "get16 ?bs (?i + 8) = node_n ?x mod 65536" by (rule get16_le16, unfold at d) simp
  moreover have "plan_op_index (node_op ?x) plan_ops < 65536" using plan_op_round_trip(2) [of "node_op ?x"] by simp
  ultimately show ?thesis using f by (simp add: node_at_def Let_def plan_op_round_trip(1))
qed

lemma aux_round_trip:
  assumes "i < length (aux b)" "aux b ! i < 65536"
  shows "aux_at (encode_plan h b) (length (nodes b)) i = aux b ! i"
proof -
  let ?bs = "encode_plan h b"
  have "drop (20 + 10 * length (nodes b) + 2 * i) ?bs = drop (2 * i) (concat (map le16 (aux b)))"
    by (simp add: encode_plan_def encode_nodes_length)
  also have "\<dots> = concat (map le16 (drop i (aux b)))" by (simp add: drop_blocks)
  also have "\<dots> = le16 (aux b ! i) @ concat (map le16 (drop (Suc i) (aux b)))"
    using assms(1) by (simp add: Cons_nth_drop_Suc [symmetric])
  finally have "get16 ?bs (20 + 10 * length (nodes b) + 2 * i) = (aux b ! i) mod 65536" by (intro get16_le16) simp
  with assms(2) show ?thesis by (simp add: aux_at_def)
qed

subsection \<open>Every index is in bounds\<close>

definition small :: "PlanNode \<Rightarrow> bool" where
  \<comment> \<open>what a \<open>uint16_t\<close> holds\<close>
  "small x \<longleftrightarrow> node_a x < 65536 \<and> node_b x < 65536 \<and> node_c x < 65536 \<and> node_n x < 65536"

definition node_ok :: "PlanBuild \<Rightarrow> PlanNode \<Rightarrow> bool" where
  "node_ok b x =
     (small x \<and> (let N = length (nodes b); L = length (literals b); A = length (aux b)
      in case node_op x of
           PL_CONST \<Rightarrow> node_a x < L | PL_NONLOCAL \<Rightarrow> node_a x < L | PL_FALLBACK \<Rightarrow> node_a x < L
         | PL_LOCAL \<Rightarrow> True
         | PL_CALL \<Rightarrow> node_a x < N \<and> node_b x + node_n x \<le> A
         | PL_CALL_EXPR \<Rightarrow> node_a x < N \<and> node_b x + node_n x \<le> A
         | PL_IF \<Rightarrow> node_a x < N \<and> node_b x < N \<and> node_c x < N
         | PL_LET \<Rightarrow> node_a x < L \<and> node_b x < N \<and> node_c x < N
         | PL_COND \<Rightarrow> node_a x + 2 * node_n x \<le> A
         | PL_AND \<Rightarrow> node_a x < N \<and> node_b x < N
         | PL_OR \<Rightarrow> node_a x < N \<and> node_b x < N
         | PL_TYPE \<Rightarrow> node_a x < N))"

definition pending :: "nat set \<Rightarrow> PlanBuild \<Rightarrow> bool" where
  \<comment> \<open>well formed, but for the nodes \<open>S\<close> that are not filled in yet\<close>
  "pending S b \<longleftrightarrow> (\<forall>k<length (nodes b). k \<in> S \<or> node_ok b (nodes b ! k)) \<and> (\<forall>i\<in>set (aux b). i < length (nodes b)) \<and>
     length (nodes b) \<le> PLAN_LIMIT \<and> length (literals b) \<le> PLAN_LIMIT"

abbreviation build_ok :: "PlanBuild \<Rightarrow> bool" where
  "build_ok \<equiv> pending {}"

definition build_grows :: "PlanBuild \<Rightarrow> PlanBuild \<Rightarrow> bool" where
  "build_grows b b' \<longleftrightarrow> length (nodes b) \<le> length (nodes b') \<and> length (aux b) \<le> length (aux b') \<and>
     length (literals b) \<le> length (literals b') \<and> (failed b \<longrightarrow> failed b')"

lemma build_grows_refl [simp]: "build_grows b b"
  by (simp add: build_grows_def)

lemma build_grows_trans: "build_grows a b \<Longrightarrow> build_grows b c \<Longrightarrow> build_grows a c"
  by (auto simp: build_grows_def)

lemma node_ok_grows: "node_ok b x \<Longrightarrow> build_grows b b' \<Longrightarrow> node_ok b' x"
  by (cases "node_op x") (auto simp: node_ok_def build_grows_def Let_def)

lemma pending_grows:
  assumes "pending S b" "build_grows b b'" "nodes b' = nodes b" "set (aux b') \<subseteq> set (aux b) \<union> {..<length (nodes b)}" "length (literals b') \<le> PLAN_LIMIT"
  shows "pending S b'"
  using assms node_ok_grows [OF _ assms(2)] by (auto simp: pending_def)

lemma pending_set_node:
  assumes "pending S b" "pc < length (nodes b)" "node_ok b (f (nodes b ! pc))" "S \<subseteq> {pc}"
  shows "build_ok (set_node pc f b)" "build_grows b (set_node pc f b)" "length (nodes (set_node pc f b)) = length (nodes b)"
    "aux (set_node pc f b) = aux b" "literals (set_node pc f b) = literals b"
proof -
  have n: "node_ok (set_node pc f b) x = node_ok b x" for x by (cases "node_op x") (simp_all add: node_ok_def set_node_def)
  have "node_ok b (nodes (set_node pc f b) ! k)" if "k < length (nodes b)" for k
    using assms that by (cases "k = pc") (auto simp: pending_def set_node_def)
  then show "build_ok (set_node pc f b)" using assms(1) n by (auto simp: pending_def) (auto simp: set_node_def)
  show "build_grows b (set_node pc f b)" "length (nodes (set_node pc f b)) = length (nodes b)"
    "aux (set_node pc f b) = aux b" "literals (set_node pc f b) = literals b" by (simp_all add: build_grows_def set_node_def)
qed

lemma plan_literal_ok:
  assumes "pending S b" "plan_literal v b = (i, b')"
  shows "pending S b'" "build_grows b b'" "i < length (literals b')" "nodes b' = nodes b" "aux b' = aux b" "i < 65536"
proof -
  have "build_grows b b' \<and> i < length (literals b') \<and> nodes b' = nodes b \<and> aux b' = aux b \<and> length (literals b') \<le> PLAN_LIMIT"
  proof (cases "List.find (\<lambda>i. literals b ! i = v) [0..<length (literals b)]")
    case (Some j)
    then have "j < length (literals b)" unfolding find_Some_iff by auto
    with Some assms show ?thesis by (auto simp: plan_literal_def pending_def)
  next
    case None
    have P: "0 < PLAN_LIMIT" by (simp add: PLAN_LIMIT_def)
    have "length (literals b) \<le> PLAN_LIMIT" using assms(1) by (simp add: pending_def)
    with None assms(2) P show ?thesis
      by (cases "length (literals b) = PLAN_LIMIT") (auto simp: plan_literal_def build_grows_def)
  qed
  with pending_grows [OF assms(1)] show "pending S b'" "build_grows b b'" "i < length (literals b')" "nodes b' = nodes b" "aux b' = aux b" "i < 65536"
    by (auto simp: PLAN_LIMIT_def)
qed

definition filled :: "nat set \<Rightarrow> PlanBuild \<Rightarrow> PlanBuild \<Rightarrow> bool" where
  \<comment> \<open>well formed again, and of the nodes there were only \<open>S\<close> may have changed\<close>
  "filled S b b' \<longleftrightarrow> build_ok b' \<and> build_grows b b' \<and> (\<forall>k<length (nodes b). k \<notin> S \<longrightarrow> nodes b' ! k = nodes b ! k)"

lemma filled_trans: "filled S a b \<Longrightarrow> filled S b c \<Longrightarrow> filled S a c"
  unfolding filled_def by (auto intro: build_grows_trans simp: build_grows_def)

lemma filled_weaken: "filled S a b \<Longrightarrow> S \<subseteq> T \<Longrightarrow> filled T a b"
  by (auto simp: filled_def)

lemma filled_refl: "build_ok b \<Longrightarrow> filled S b b"
  by (simp add: filled_def)

lemma filledD: "filled S b b' \<Longrightarrow> build_ok b'" "filled S b b' \<Longrightarrow> k < length (nodes b) \<Longrightarrow> k < length (nodes b')"
  "filled S b b' \<Longrightarrow> nodes b \<noteq> [] \<Longrightarrow> nodes b' \<noteq> []"
  by (auto simp: filled_def build_grows_def)

lemma filled_set_node:
  assumes "pending S b" "S \<subseteq> {pc}" "pc < length (nodes b)" "node_ok b (f (nodes b ! pc))"
  shows "filled {pc} b (set_node pc f b)" "nodes (set_node pc f b) ! pc = f (nodes b ! pc)"
  using pending_set_node [where S = S and b = b and pc = pc and f = f, OF assms(1,3,4,2)] assms(3)
  by (auto simp: filled_def set_node_def)

text \<open>A compiler that keeps the invariant under at most \<open>D\<close> let frames.\<close>

definition rec_ok :: "nat \<Rightarrow> compiler \<Rightarrow> bool" where
  "rec_ok D rec \<longleftrightarrow> (\<forall>e sc depth b i b'. depth \<le> D \<longrightarrow> build_ok b \<longrightarrow> nodes b \<noteq> [] \<longrightarrow> rec e sc depth b = (i, b') \<longrightarrow>
     filled {} b b' \<and> i < length (nodes b'))"

lemma rec_okD:
  assumes "rec_ok D rec" "depth \<le> D" "rec e sc depth b = (i, b')" "build_ok b" "nodes b \<noteq> []"
  shows "filled {} b b'" "i < length (nodes b')" "i < 65536"
proof -
  show R: "filled {} b b'" "i < length (nodes b')" using assms unfolding rec_ok_def by blast+
  have "length (nodes b') \<le> PLAN_LIMIT" using R(1) by (simp add: filled_def pending_def)
  with R(2) show "i < 65536" by (simp add: PLAN_LIMIT_def)
qed

lemma compile_into_ok:
  assumes "rec_ok D rec" "depth \<le> D" "build_ok b" "nodes b \<noteq> []"
  shows "filled {} b (compile_into rec sc depth i es b)"
  using assms(3,4)
proof (induction es arbitrary: i b)
  case (Cons e es)
  obtain j b1 where r: "rec e sc depth b = (j, b1)" by fastforce
  note R = rec_okD [OF assms(1,2) r Cons.prems]
  let ?b2 = "b1\<lparr>aux := (aux b1)[i := j]\<rparr>"
  have g: "build_grows b1 ?b2" by (simp add: build_grows_def)
  have "build_ok ?b2"
    by (rule pending_grows [OF filledD(1) [OF R(1)] g])
      (use filledD(1) [OF R(1)] R(2) set_update_subset_insert [of "aux b1" i j] in \<open>auto simp: pending_def\<close>)
  then have f: "filled {} b ?b2" using filled_trans [OF R(1), of ?b2] g by (simp add: filled_def)
  with Cons.IH [OF filledD(1) [OF f] filledD(3) [OF f Cons.prems(2)]] filled_trans [OF f] r show ?case by simp
qed (simp add: filled_refl)

lemma reserve_ok:
  assumes "build_ok b" "nodes b \<noteq> []"
  shows "filled {} b (b\<lparr>aux := aux b @ replicate n 0\<rparr>)"
proof -
  have g: "build_grows b (b\<lparr>aux := aux b @ replicate n 0\<rparr>)" by (simp add: build_grows_def)
  have "build_ok (b\<lparr>aux := aux b @ replicate n 0\<rparr>)"
    by (rule pending_grows [OF assms(1) g]) (use assms in \<open>auto simp: pending_def\<close>)
  with g show ?thesis by (simp add: filled_def)
qed

text \<open>Compile a child, then store its index in the node.\<close>

lemma child_step:
  assumes "rec_ok D rec" "depth \<le> D" "build_ok b" "pc < length (nodes b)" "rec e sc depth b = (i, b1)"
    and ok: "\<And>b1. i < 65536 \<Longrightarrow> i < length (nodes b1) \<Longrightarrow> node_ok b1 (nodes b ! pc) \<Longrightarrow> node_ok b1 (f (nodes b ! pc))"
  shows "filled {pc} b (set_node pc f b1)" "nodes (set_node pc f b1) ! pc = f (nodes b ! pc)"
proof -
  have ne: "nodes b \<noteq> []" using assms(4) by auto
  note R = rec_okD [OF assms(1,2,5,3) ne]
  then have x: "nodes b1 ! pc = nodes b ! pc" "build_grows b b1" "build_ok b1" using assms(4) by (simp_all add: filled_def)
  have pc1: "pc < length (nodes b1)" by (rule filledD(2) [OF R(1) assms(4)])
  then have "node_ok b1 (nodes b ! pc)" using x(1,3) by (simp add: pending_def) (metis x(1))
  from ok [OF R(3,2) this] have "node_ok b1 (f (nodes b1 ! pc))" by (simp add: x(1))
  note S = filled_set_node [where S = "{}" and b = b1 and pc = pc and f = f, OF x(3) _ pc1 this]
  show "filled {pc} b (set_node pc f b1)" by (rule filled_trans [OF filled_weaken [OF R(1)] S(1)]) simp_all
  show "nodes (set_node pc f b1) ! pc = f (nodes b ! pc)" using S(2) x(1) by simp
qed

lemma fallback_ok:
  assumes "pending {pc} b" "pc < length (nodes b)" "nodes b ! pc = new_node"
  shows "filled {pc} b (plan_fallback e pc b)"
proof -
  obtain i b1 where l: "plan_literal e b = (i, b1)" by fastforce
  note L = plan_literal_ok [OF assms(1) l]
  have "node_ok b1 ((nodes b1 ! pc)\<lparr>node_op := PL_FALLBACK, node_a := i\<rparr>)" using L(3,4,6) assms(3) by (simp add: node_ok_def small_def new_node_def)
  from filled_set_node(1) [where S = "{pc}" and pc = pc and f = "\<lambda>n. n\<lparr>node_op := PL_FALLBACK, node_a := i\<rparr>", OF L(1) _ _ this] assms(2) L(2,4) show ?thesis
    by (auto simp: plan_fallback_def l filled_def intro: build_grows_trans)
qed

lemma atom_ok:
  assumes "pending {pc} b" "pc < length (nodes b)" "nodes b ! pc = new_node" "depth < 65536" "length params < 65536"
  shows "filled {pc} b (plan_atom s params e sc depth pc b)"
proof -
  obtain i b1 where l: "plan_literal e b = (i, b1)" by fastforce
  note L = plan_literal_ok [OF assms(1) l]
  have lit: "filled {pc} b (set_node pc f b1)" if "node_ok b1 (f (nodes b1 ! pc))" for f
    using filled_set_node(1) [of "{pc}" b1 pc f] that L(1,2,4) assms(2) by (auto simp: filled_def intro: build_grows_trans)
  show ?thesis
  proof (cases "rc_type s e = RC_SYMBOL")
    case False
    have "node_ok b1 ((nodes b1 ! pc)\<lparr>node_a := i\<rparr>)" using L(3,4,6) assms(3) by (simp add: node_ok_def small_def new_node_def)
    from lit [where f = "\<lambda>n. n\<lparr>node_a := i\<rparr>", OF this] False show ?thesis by (simp add: plan_atom_def l)
  next
    case True
    show ?thesis
    proof (cases "plan_local params e sc depth")
      case None
      have "node_ok b1 ((nodes b1 ! pc)\<lparr>node_op := PL_NONLOCAL, node_a := i\<rparr>)" using L(3,4,6) assms(3) by (simp add: node_ok_def small_def new_node_def)
      from lit [where f = "\<lambda>n. n\<lparr>node_op := PL_NONLOCAL, node_a := i\<rparr>", OF this] True None show ?thesis by (simp add: plan_atom_def l)
    next
      case (Some us)
      obtain up slot where us: "us = (up, slot)" by fastforce
      have "up \<le> depth \<and> slot \<le> length params"
        using Some us by (auto simp: plan_local_def find_Some_iff split: option.splits)
      then have "node_ok b ((nodes b ! pc)\<lparr>node_op := PL_LOCAL, node_a := up, node_b := slot\<rparr>)"
        using assms(3-5) by (simp add: node_ok_def small_def new_node_def)
      from filled_set_node(1) [where S = "{pc}" and b = b and pc = pc and f = "\<lambda>n. n\<lparr>node_op := PL_LOCAL, node_a := up, node_b := slot\<rparr>", OF assms(1) _ assms(2) this] True Some us show ?thesis by (simp add: plan_atom_def)
    qed
  qed
qed

text \<open>Set the opcode of a node that is still empty, and go on from there.\<close>

lemma opcode_step:
  assumes "pending {pc} b" "pc < length (nodes b)" "nodes b ! pc = new_node" "node_ok b (new_node\<lparr>node_op := x\<rparr>)"
  shows "filled {pc} b (set_node pc (\<lambda>n. n\<lparr>node_op := x\<rparr>) b)"
    "nodes (set_node pc (\<lambda>n. n\<lparr>node_op := x\<rparr>) b) ! pc = new_node\<lparr>node_op := x\<rparr>"
  using filled_set_node [where S = "{pc}" and b = b and pc = pc and f = "\<lambda>n. n\<lparr>node_op := x\<rparr>"] assms by simp_all

text \<open>An open node: the node \<open>pc\<close> of \<open>b'\<close> is \<open>x\<close>, and everything else is as after \<open>b\<close>.\<close>

definition at_node :: "nat \<Rightarrow> PlanBuild \<Rightarrow> PlanNode \<Rightarrow> PlanBuild \<Rightarrow> bool" where
  "at_node pc b x b' \<longleftrightarrow> filled {pc} b b' \<and> pc < length (nodes b') \<and> nodes b' ! pc = x"

lemma at_node_open:
  assumes "pending {pc} b" "pc < length (nodes b)" "nodes b ! pc = new_node" "node_ok b (new_node\<lparr>node_op := x\<rparr>)"
  shows "at_node pc b (new_node\<lparr>node_op := x\<rparr>) (set_node pc (\<lambda>n. n\<lparr>node_op := x\<rparr>) b)"
  using opcode_step [OF assms] assms(2) by (simp add: at_node_def set_node_def)

lemma at_node_child:
  assumes "at_node pc b x b0" "rec_ok D rec" "depth \<le> D" "rec e sc depth b0 = (i, b1)"
    and "\<And>b1. i < 65536 \<Longrightarrow> i < length (nodes b1) \<Longrightarrow> node_ok b1 x \<Longrightarrow> node_ok b1 (f x)"
  shows "at_node pc b (f x) (set_node pc f b1)"
proof -
  have b0: "filled {pc} b b0" "pc < length (nodes b0)" "nodes b0 ! pc = x" using assms(1) by (simp_all add: at_node_def)
  have "\<And>b1. i < 65536 \<Longrightarrow> i < length (nodes b1) \<Longrightarrow> node_ok b1 (nodes b0 ! pc) \<Longrightarrow> node_ok b1 (f (nodes b0 ! pc))"
    unfolding b0(3) by (rule assms(5))
  note C = child_step [where f = f, OF assms(2,3) filledD(1) [OF b0(1)] b0(2) assms(4) this]
  show ?thesis unfolding at_node_def
    using filled_trans [OF b0(1) C(1)] C(2) b0(3) filledD(2) [OF C(1) b0(2)] by simp
qed

lemma at_node_filled: "at_node pc b x b' \<Longrightarrow> filled {pc} b b'"
  by (simp add: at_node_def)

text \<open>The nodes with two and with three children that are compiled one after the other.\<close>

lemma three_children_ok:
  assumes "rec_ok D rec" "d0 \<le> D" "at_node pc b (new_node\<lparr>node_op := PL_IF\<rparr>) b0"
  shows "filled {pc} b (let (i, b) = rec e0 sc0 d0 b0; b = set_node pc (\<lambda>x. x\<lparr>node_a := i\<rparr>) b;
                            (j, b) = rec e1 sc1 d0 b; b = set_node pc (\<lambda>x. x\<lparr>node_b := j\<rparr>) b;
                            (k, b) = rec e2 sc2 d0 b
                        in set_node pc (\<lambda>x. x\<lparr>node_c := k\<rparr>) b)"
proof -
  obtain i b1 where r0: "rec e0 sc0 d0 b0 = (i, b1)" by fastforce
  define b2 where "b2 = set_node pc (\<lambda>x. x\<lparr>node_a := i\<rparr>) b1"
  have 1: "at_node pc b (new_node\<lparr>node_op := PL_IF, node_a := i\<rparr>) b2"
    using at_node_child [where f = "\<lambda>x. x\<lparr>node_a := i\<rparr>", OF assms(3,1,2) r0] by (simp add: b2_def node_ok_def small_def new_node_def Let_def)
  obtain j b3 where r1: "rec e1 sc1 d0 b2 = (j, b3)" by fastforce
  define b4 where "b4 = set_node pc (\<lambda>x. x\<lparr>node_b := j\<rparr>) b3"
  have 2: "at_node pc b (new_node\<lparr>node_op := PL_IF, node_a := i, node_b := j\<rparr>) b4"
    using at_node_child [where f = "\<lambda>x. x\<lparr>node_b := j\<rparr>", OF 1 assms(1,2) r1] by (simp add: b4_def node_ok_def small_def new_node_def Let_def)
  obtain k b5 where r2: "rec e2 sc2 d0 b4 = (k, b5)" by fastforce
  have "at_node pc b (new_node\<lparr>node_op := PL_IF, node_a := i, node_b := j, node_c := k\<rparr>) (set_node pc (\<lambda>x. x\<lparr>node_c := k\<rparr>) b5)"
    using at_node_child [where f = "\<lambda>x. x\<lparr>node_c := k\<rparr>", OF 2 assms(1,2) r2] by (simp add: node_ok_def small_def new_node_def Let_def)
  from at_node_filled [OF this] show ?thesis by (simp add: r0 r1 [unfolded b2_def] r2 [unfolded b4_def])
qed

lemma two_children_ok:
  assumes "rec_ok D rec" "d0 \<le> D" "at_node pc b (new_node\<lparr>node_op := op\<rparr>) b0" "op = PL_AND \<or> op = PL_OR"
  shows "filled {pc} b (let (i, b) = rec e0 sc0 d0 b0; b = set_node pc (\<lambda>x. x\<lparr>node_a := i\<rparr>) b;
                            (j, b) = rec e1 sc1 d0 b
                        in set_node pc (\<lambda>x. x\<lparr>node_b := j\<rparr>) b)"
proof -
  obtain i b1 where r0: "rec e0 sc0 d0 b0 = (i, b1)" by fastforce
  define b2 where "b2 = set_node pc (\<lambda>x. x\<lparr>node_a := i\<rparr>) b1"
  have 1: "at_node pc b (new_node\<lparr>node_op := op, node_a := i\<rparr>) b2"
    using at_node_child [where f = "\<lambda>x. x\<lparr>node_a := i\<rparr>", OF assms(3,1,2) r0] assms(4) by (auto simp: b2_def node_ok_def small_def new_node_def Let_def)
  obtain j b3 where r1: "rec e1 sc1 d0 b2 = (j, b3)" by fastforce
  have "at_node pc b (new_node\<lparr>node_op := op, node_a := i, node_b := j\<rparr>) (set_node pc (\<lambda>x. x\<lparr>node_b := j\<rparr>) b3)"
    using at_node_child [where f = "\<lambda>x. x\<lparr>node_b := j\<rparr>", OF 1 assms(1,2) r1] assms(4) by (auto simp: node_ok_def small_def new_node_def Let_def)
  from at_node_filled [OF this] show ?thesis by (simp add: r0 r1 [unfolded b2_def])
qed

lemma one_child_ok:
  assumes "rec_ok D rec" "d0 \<le> D" "at_node pc b (new_node\<lparr>node_op := PL_TYPE\<rparr>) b0"
  shows "filled {pc} b (let (i, b) = rec e0 sc0 d0 b0 in set_node pc (\<lambda>x. x\<lparr>node_a := i\<rparr>) b)"
proof -
  obtain i b1 where r0: "rec e0 sc0 d0 b0 = (i, b1)" by fastforce
  have "at_node pc b (new_node\<lparr>node_op := PL_TYPE, node_a := i\<rparr>) (set_node pc (\<lambda>x. x\<lparr>node_a := i\<rparr>) b1)"
    using at_node_child [where f = "\<lambda>x. x\<lparr>node_a := i\<rparr>", OF assms(3,1,2) r0] by (simp add: node_ok_def small_def new_node_def Let_def)
  from at_node_filled [OF this] show ?thesis by (simp add: r0)
qed

text \<open>The nodes whose first field is a literal.\<close>

lemma pending_again:
  assumes "pending {pc} b" "pc < length (nodes b)"
  shows "pending {pc} (set_node pc f b)" "build_grows b (set_node pc f b)" "length (nodes (set_node pc f b)) = length (nodes b)"
proof -
  have n: "node_ok (set_node pc f b) x = node_ok b x" for x by (cases "node_op x") (simp_all add: node_ok_def set_node_def)
  have "k = pc \<or> node_ok b (nodes (set_node pc f b) ! k)" if "k < length (nodes b)" for k
    using assms that by (cases "k = pc") (auto simp: pending_def set_node_def)
  then show "pending {pc} (set_node pc f b)" using assms(1) n by (simp add: pending_def) (simp add: set_node_def)
  show "build_grows b (set_node pc f b)" "length (nodes (set_node pc f b)) = length (nodes b)" by (simp_all add: build_grows_def set_node_def)
qed

lemma at_node_literal:
  assumes "pending {pc} b" "pc < length (nodes b)" "plan_literal v b = (i, b1)"
    and "\<And>b1. i < 65536 \<Longrightarrow> i < length (literals b1) \<Longrightarrow> 0 < length (nodes b1) \<Longrightarrow> node_ok b1 (f (nodes b ! pc))"
  shows "at_node pc b (f (nodes b ! pc)) (set_node pc f b1)"
proof -
  note L = plan_literal_ok [OF assms(1,3)]
  have "0 < length (nodes b1)" using assms(2) L(4) by auto
  then have "node_ok b1 (f (nodes b1 ! pc))" using assms(4) L(3,4,6) by simp
  from filled_set_node [where S = "{pc}" and b = b1 and pc = pc and f = f, OF L(1) _ _ this] assms(2) L(2,4) show ?thesis
    by (auto simp: at_node_def filled_def build_grows_def set_node_def)
qed

lemma let_node_ok:
  assumes "rec_ok D rec" "Suc d1 \<le> D" "pending {pc} b" "pc < length (nodes b)" "nodes b ! pc = new_node"
  shows "filled {pc} b (let b = set_node pc (\<lambda>x. x\<lparr>node_op := PL_LET\<rparr>) b;
                            (i, b) = plan_literal v b; b = set_node pc (\<lambda>x. x\<lparr>node_a := i\<rparr>) b;
                            (j, b) = rec e1 sc1 d1 b; b = set_node pc (\<lambda>x. x\<lparr>node_b := j\<rparr>) b;
                            (k, b) = rec e2 sc2 (Suc d1) b
                        in set_node pc (\<lambda>x. x\<lparr>node_c := k\<rparr>) b)"
proof -
  have d1: "d1 \<le> D" using assms(2) by simp
  define b0 where "b0 = set_node pc (\<lambda>x. x\<lparr>node_op := PL_LET\<rparr>) b"
  note P = pending_again [OF assms(3,4), of "\<lambda>x. x\<lparr>node_op := PL_LET\<rparr>", folded b0_def]
  have x: "nodes b0 ! pc = new_node\<lparr>node_op := PL_LET\<rparr>" using assms(4,5) by (simp add: b0_def set_node_def)
  obtain i b1 where l: "plan_literal v b0 = (i, b1)" by fastforce
  define b2 where "b2 = set_node pc (\<lambda>x. x\<lparr>node_a := i\<rparr>) b1"
  have "at_node pc b0 (new_node\<lparr>node_op := PL_LET, node_a := i\<rparr>) b2"
    using at_node_literal [where f = "\<lambda>x. x\<lparr>node_a := i\<rparr>", OF P(1) _ l] P(3) assms(4) x
    by (simp add: b2_def node_ok_def small_def new_node_def Let_def)
  then have 1: "at_node pc b (new_node\<lparr>node_op := PL_LET, node_a := i\<rparr>) b2"
    using P(2,3) assms(4) by (auto simp: at_node_def filled_def b0_def set_node_def intro: build_grows_trans)
  obtain j b3 where r1: "rec e1 sc1 d1 b2 = (j, b3)" by fastforce
  define b4 where "b4 = set_node pc (\<lambda>x. x\<lparr>node_b := j\<rparr>) b3"
  have 2: "at_node pc b (new_node\<lparr>node_op := PL_LET, node_a := i, node_b := j\<rparr>) b4"
    using at_node_child [where f = "\<lambda>x. x\<lparr>node_b := j\<rparr>", OF 1 assms(1) d1 r1] by (simp add: b4_def node_ok_def small_def new_node_def Let_def)
  obtain k b5 where r2: "rec e2 sc2 (Suc d1) b4 = (k, b5)" by fastforce
  have "at_node pc b (new_node\<lparr>node_op := PL_LET, node_a := i, node_b := j, node_c := k\<rparr>) (set_node pc (\<lambda>x. x\<lparr>node_c := k\<rparr>) b5)"
    using at_node_child [where f = "\<lambda>x. x\<lparr>node_c := k\<rparr>", OF 2 assms(1,2) r2] by (simp add: node_ok_def small_def new_node_def Let_def)
  from at_node_filled [OF this] show ?thesis unfolding b0_def [symmetric] by (simp add: l r1 [unfolded b2_def] r2 [unfolded b4_def])
qed

lemma quote_node_ok:
  assumes "pending {pc} b" "pc < length (nodes b)" "nodes b ! pc = new_node"
  shows "filled {pc} b (let (i, b) = plan_literal v b in set_node pc (\<lambda>x. x\<lparr>node_a := i\<rparr>) b)"
proof -
  obtain i b1 where l: "plan_literal v b = (i, b1)" by fastforce
  have "at_node pc b (new_node\<lparr>node_a := i\<rparr>) (set_node pc (\<lambda>x. x\<lparr>node_a := i\<rparr>) b1)"
    using at_node_literal [where f = "\<lambda>x. x\<lparr>node_a := i\<rparr>", OF assms(1,2) l] assms(3)
    by (simp add: node_ok_def small_def new_node_def Let_def)
  from at_node_filled [OF this] show ?thesis by (simp add: l)
qed

text \<open>The nodes with a block of auxiliary entries.\<close>

lemma block_ok:
  assumes "pending {pc} b" "pc < length (nodes b)" "start \<le> length (aux b)" "rec_ok D rec" "depth \<le> D"
    and "\<And>b1. 0 < length (nodes b1) \<Longrightarrow> build_grows b b1 \<Longrightarrow> start + m \<le> length (aux b1) \<Longrightarrow> node_ok b1 (f (nodes b ! pc))"
  shows "filled {pc} b (let b = set_node pc f b; b = b\<lparr>aux := aux b @ replicate m 0\<rparr> in compile_into rec sc depth start es b)"
proof -
  define b1 where "b1 = (set_node pc f b)\<lparr>aux := aux b @ replicate m 0\<rparr>"
  have g: "build_grows b b1" "length (nodes b1) = length (nodes b)" "nodes b1 = (nodes b)[pc := f (nodes b ! pc)]"
    "start + m \<le> length (aux b1)" "literals b1 = literals b" "set (aux b1) \<subseteq> set (aux b) \<union> {0}"
    using assms(3) by (auto simp: b1_def build_grows_def set_node_def)
  have "0 < length (nodes b1)" using assms(2) g(2) by auto
  from assms(6) [OF this g(1,4)] have "node_ok b1 (f (nodes b ! pc))" .
  moreover have "node_ok b1 (nodes b ! k)" if "k < length (nodes b)" "k \<noteq> pc" for k
    using assms(1) that node_ok_grows [OF _ g(1)] by (auto simp: pending_def)
  ultimately have "node_ok b1 (nodes b1 ! k)" if "k < length (nodes b)" for k
    using that by (cases "k = pc") (simp_all add: g(3))
  moreover have "\<forall>i\<in>set (aux b1). i < length (nodes b1)"
    using assms(1,2) g(2,6) by (auto simp: pending_def)
  ultimately have "build_ok b1" using assms(1) g(2,5) by (simp add: pending_def)
  then have f: "filled {pc} b b1" using g(1,3) by (simp add: filled_def)
  have "nodes b1 \<noteq> []" using assms(2) g(2) by auto
  from filled_trans [OF f filled_weaken [OF compile_into_ok [OF assms(4,5) filledD(1) [OF f] this]]] show ?thesis
    by (simp add: b1_def set_node_def)
qed

lemma u16_le: "u16 n \<le> n"
  by (simp add: u16_def)

lemma u16_less: "u16 n < 65536"
  by (simp add: u16_def)

lemma call_node_ok:
  assumes "rec_ok D rec" "depth \<le> D" "n \<le> PLAN_LIMIT" "pending {pc} b" "pc < length (nodes b)" "nodes b ! pc = new_node" "op = PL_CALL \<or> op = PL_CALL_EXPR"
  shows "filled {pc} b (let b = set_node pc (\<lambda>x. x\<lparr>node_op := op\<rparr>) b;
                            (i, b) = rec h sc depth b; start = u16 (length (aux b));
                            b = set_node pc (\<lambda>x. x\<lparr>node_a := i, node_b := start, node_n := n\<rparr>) b;
                            b = b\<lparr>aux := aux b @ replicate n 0\<rparr>
                        in compile_into rec sc depth start es b)"
proof -
  define b0 where "b0 = set_node pc (\<lambda>x. x\<lparr>node_op := op\<rparr>) b"
  have ne: "nodes b \<noteq> []" using assms(5) by auto
  have 0: "at_node pc b (new_node\<lparr>node_op := op\<rparr>) b0" unfolding b0_def
    by (rule at_node_open [OF assms(4,5,6)]) (use assms(7) ne in \<open>auto simp: node_ok_def small_def PLAN_LIMIT_def new_node_def Let_def\<close>)
  then have x: "filled {pc} b b0" "pc < length (nodes b0)" "nodes b0 ! pc = new_node\<lparr>node_op := op\<rparr>" by (simp_all add: at_node_def)
  obtain i b1 where r: "rec h sc depth b0 = (i, b1)" by fastforce
  have ne0: "nodes b0 \<noteq> []" using x(2) by auto
  note R = rec_okD [OF assms(1,2) r filledD(1) [OF x(1)] ne0]
  have x1: "nodes b1 ! pc = new_node\<lparr>node_op := op\<rparr>" "pc < length (nodes b1)" "build_ok b1"
    using R(1) x by (auto simp: filled_def build_grows_def)
  have pd: "pending {pc} b1" using x1(3) by (simp add: pending_def)
  have "filled {pc} b1 (let b = set_node pc (\<lambda>x. x\<lparr>node_a := i, node_b := u16 (length (aux b1)), node_n := n\<rparr>) b1; b = b\<lparr>aux := aux b @ replicate n 0\<rparr>
      in compile_into rec sc depth (u16 (length (aux b1))) es b)"
    by (rule block_ok [OF pd x1(2) u16_le assms(1,2)])
      (use assms(3,7) R(2,3) u16_less in \<open>auto simp: x1(1) node_ok_def small_def PLAN_LIMIT_def new_node_def Let_def build_grows_def\<close>)
  from filled_trans [OF filled_trans [OF x(1) filled_weaken [OF R(1)]] this] show ?thesis
    unfolding b0_def [symmetric] by (simp add: r Let_def)
qed

lemma cond_node_ok:
  assumes "rec_ok D rec" "depth \<le> D" "n \<le> PLAN_LIMIT" "pending {pc} b" "pc < length (nodes b)" "nodes b ! pc = new_node"
  shows "filled {pc} b (let start = u16 (length (aux b));
                            b = set_node pc (\<lambda>x. x\<lparr>node_op := PL_COND, node_a := start, node_n := n\<rparr>) b;
                            b = b\<lparr>aux := aux b @ replicate (2 * n) 0\<rparr>
                        in compile_into rec sc depth start es b)"
  using block_ok [OF assms(4,5) u16_le assms(1,2),
      where f = "\<lambda>x. x\<lparr>node_op := PL_COND, node_a := u16 (length (aux b)), node_n := n\<rparr>" and m = "2 * n" and sc = sc and es = es]
  assms(3,6) u16_less by (simp add: node_ok_def small_def new_node_def PLAN_LIMIT_def Let_def)

lemma plan_form_ok:
  assumes "rec_ok D rec" "Suc depth \<le> D" "pending {pc} b" "pc < length (nodes b)" "nodes b ! pc = new_node"
  shows "filled {pc} b (plan_form s rec params e sc depth pc b)"
proof -
  let ?args = "rc_tail_borrowed s e" and ?h = "rc_head_borrowed s e"
  obtain status n where l: "rc_list_length_cached s ?args = (status, n)" by fastforce
  let ?form = "if rc_type s ?h = RC_SYMBOL \<and> plan_local params ?h sc depth \<noteq> None then F_CALL else form_of s ?h"
  note F = fallback_ok [OF assms(3,4,5), of e]
  have ne: "nodes b \<noteq> []" using assms(4) by auto
  note O = at_node_open [OF assms(3,4,5)]
  have if_: "at_node pc b (new_node\<lparr>node_op := PL_IF\<rparr>) (set_node pc (\<lambda>n. n\<lparr>node_op := PL_IF\<rparr>) b)"
    and ty: "at_node pc b (new_node\<lparr>node_op := PL_TYPE\<rparr>) (set_node pc (\<lambda>n. n\<lparr>node_op := PL_TYPE\<rparr>) b)"
    and an: "at_node pc b (new_node\<lparr>node_op := PL_AND\<rparr>) (set_node pc (\<lambda>n. n\<lparr>node_op := PL_AND\<rparr>) b)"
    and or_: "at_node pc b (new_node\<lparr>node_op := PL_OR\<rparr>) (set_node pc (\<lambda>n. n\<lparr>node_op := PL_OR\<rparr>) b)"
    by (rule O; use ne in \<open>simp add: node_ok_def small_def new_node_def\<close>)+
  have d: "depth \<le> D" using assms(2) by simp
  show ?thesis
  proof (cases "status \<noteq> RC_LIST_LENGTH_OK \<or> n > PLAN_LIMIT")
    case True
    then show ?thesis using F by (simp add: plan_form_def l)
  next
    case False
    then have n: "n \<le> PLAN_LIMIT" by simp
    show ?thesis
      unfolding plan_form_def Let_def [of ?h] Let_def [of ?args] Let_def [of "nth_item s ?args"] l prod.case if_not_P [OF False] Let_def [of ?form]
      using F three_children_ok [OF assms(1) d if_] two_children_ok [OF assms(1) d an] two_children_ok [OF assms(1) d or_]
        one_child_ok [OF assms(1) d ty] let_node_ok [OF assms] quote_node_ok [OF assms(3-5)]
        call_node_ok [OF assms(1) d n assms(3-5)] cond_node_ok [OF assms(1) d n assms(3-5)]
      by (cases ?form; simp only: Form.case split: if_split; simp add: Let_def)
  qed
qed

lemma failed_ok: "build_ok (b\<lparr>failed := True\<rparr>) = build_ok b"
proof -
  have "node_ok (b\<lparr>failed := True\<rparr>) = node_ok b" by (rule ext) (simp add: node_ok_def)
  then show ?thesis by (simp add: pending_def)
qed

lemma rec_ok_compile:
  assumes "length params < 65536"
  shows "D + left < 65536 \<Longrightarrow> rec_ok D (plan_compile left s params)"
proof (induction left arbitrary: D)
  case 0
  show ?case by (auto simp: rec_ok_def filled_def failed_ok build_grows_def)
next
  case (Suc left)
  have IH: "rec_ok (Suc D) (plan_compile left s params)" using Suc by simp
  show ?case unfolding rec_ok_def
  proof (intro allI impI)
    fix e sc depth b i b'
    assume d: "depth \<le> D" and b: "build_ok b" "nodes b \<noteq> []" and r: "plan_compile (Suc left) s params e sc depth b = (i, b')"
    show "filled {} b b' \<and> i < length (nodes b')"
    proof (cases "failed b \<or> length (nodes b) = PLAN_LIMIT")
      case True
      with b r show ?thesis by (auto simp: filled_def failed_ok build_grows_def)
    next
      case False
      let ?pc = "length (nodes b)"
      define b1 where "b1 = b\<lparr>nodes := nodes b @ [new_node]\<rparr>"
      have g: "build_grows b b1" by (simp add: b1_def build_grows_def)
      have x: "?pc < length (nodes b1)" "nodes b1 ! ?pc = new_node" by (simp_all add: b1_def)
      have "node_ok b1 (nodes b1 ! k)" if "k < ?pc" for k
        using b(1) that node_ok_grows [OF _ g] by (simp add: pending_def b1_def nth_append)
      then have pd: "pending {?pc} b1" using b(1) False
        by (auto simp: pending_def b1_def less_Suc_eq)
      have e: "b' = (if rc_type s e \<noteq> RC_PAIR then plan_atom s params e sc depth ?pc b1
                     else plan_form s (plan_compile left s params) params e sc depth ?pc b1)" "i = ?pc"
        using r False by (auto simp: b1_def Let_def split: if_splits)
      have "filled {?pc} b1 b'" unfolding e(1) using atom_ok [OF pd x _ assms] plan_form_ok [OF IH _ pd x] d Suc.prems by simp
      then show ?thesis using g x e(2) by (auto simp: filled_def build_grows_def b1_def nth_append)
    qed
  qed
qed

text \<open>The root of a body, from the empty buffers.\<close>

lemma plan_root:
  assumes "plan_compile PLAN_DEPTH s params body [] 0 plan_start = (root, b)" "length params < 65536"
  shows "build_ok b" "root < length (nodes b)"
proof -
  have left: "PLAN_DEPTH = Suc 127" by (simp add: PLAN_DEPTH_def)
  define b1 where "b1 = plan_start\<lparr>nodes := [new_node]\<rparr>"
  have e: "root = 0" "b = (if rc_type s body \<noteq> RC_PAIR then plan_atom s params body [] 0 0 b1
                 else plan_form s (plan_compile 127 s params) params body [] 0 0 b1)"
    using assms(1) unfolding left plan_compile.simps by (auto simp: b1_def plan_start_def PLAN_LIMIT_def Let_def split: if_splits)
  have pd: "pending {0} b1" "0 < length (nodes b1)" "nodes b1 ! 0 = new_node"
    by (simp_all add: pending_def b1_def plan_start_def PLAN_LIMIT_def)
  have R: "rec_ok 1 (plan_compile 127 s params)" by (rule rec_ok_compile [OF assms(2)]) simp
  have "filled {0} b1 b" unfolding e(2) using atom_ok [OF pd _ assms(2)] plan_form_ok [OF R _ pd] by simp
  with pd(2) e(1) show "build_ok b" "root < length (nodes b)" by (auto simp: filled_def build_grows_def)
qed

lemma build_ok_round_trip:
  assumes "build_ok b"
  shows "pc < length (nodes b) \<Longrightarrow> node_at (encode_plan h b) pc = nodes b ! pc"
    "i < length (aux b) \<Longrightarrow> aux_at (encode_plan h b) (length (nodes b)) i = aux b ! i"
proof -
  show "node_at (encode_plan h b) pc = nodes b ! pc" if "pc < length (nodes b)"
    using assms that by (intro node_round_trip) (auto simp: pending_def node_ok_def small_def)
  have "aux b ! i < 65536" if "i < length (aux b)"
    using assms nth_mem [OF that] by (force simp: pending_def PLAN_LIMIT_def)
  then show "aux_at (encode_plan h b) (length (nodes b)) i = aux b ! i" if "i < length (aux b)"
    using that by (intro aux_round_trip)
qed

subsection \<open>The size of the auxiliary buffer\<close>

text \<open>\<open>plan_compile\<close> checks the room for the items of an application before it compiles the head, and
  reserves them after. What the head reserves in between is not seen by the check.\<close>

lemma aux_set_node [simp]: "aux (set_node pc f b) = aux b"
  by (simp add: set_node_def)

lemma aux_plan_literal [simp]: "aux (snd (plan_literal v b)) = aux b"
  by (auto simp: plan_literal_def split: option.splits if_splits)

lemma aux_plan_atom: "aux (plan_atom s params e sc depth pc b) = aux b"
  by (auto simp: plan_atom_def case_prod_beta split: option.splits prod.splits)

lemma aux_compile_atom: "rc_type s e \<noteq> RC_PAIR \<Longrightarrow> aux (snd (plan_compile left s params e sc depth b)) = aux b"
  by (cases left) (simp_all add: aux_plan_atom Let_def)

lemma aux_compile_into:
  assumes "\<And>e b. e \<in> set es \<Longrightarrow> length (aux (snd (rec e sc depth b))) = length (aux b)"
  shows "length (aux (compile_into rec sc depth i es b)) = length (aux b)"
  using assms
proof (induction es arbitrary: i b)
  case (Cons e es)
  then have "length (aux (snd (rec e sc depth b))) = length (aux b)" by simp
  with Cons show ?case by (simp add: case_prod_beta)
qed simp

lemma aux_call:
  assumes "rc_type s e = RC_PAIR" "rc_list_length_cached s (rc_tail_borrowed s e) = (RC_LIST_LENGTH_OK, n)" "n \<le> PLAN_LIMIT"
    and "form_of s (rc_head_borrowed s e) = F_CALL" "aux b = []" "\<not> failed b" "length (nodes b) \<noteq> PLAN_LIMIT"
    and atoms: "\<forall>x\<in>set (spine s (rc_tail_borrowed s e) n). rc_type s x \<noteq> RC_PAIR"
  obtains b0 where "aux b0 = []" "failed b0 = failed b" "length (nodes b0) = Suc (length (nodes b))"
    "length (aux (snd (plan_compile (Suc left) s params e sc depth b))) =
      length (aux (snd (plan_compile left s params (rc_head_borrowed s e) sc depth b0))) + n"
proof -
  let ?h = "rc_head_borrowed s e" and ?rec = "plan_compile left s params" and ?pc = "length (nodes b)" and ?args = "rc_tail_borrowed s e"
  let ?form = "if rc_type s ?h = RC_SYMBOL \<and> plan_local params ?h sc depth \<noteq> None then F_CALL else form_of s ?h"
  define b1 where "b1 = b\<lparr>nodes := nodes b @ [new_node]\<rparr>"
  define b2 where "b2 = set_node ?pc (\<lambda>x. x\<lparr>node_op := (if rc_type s ?h = RC_SYMBOL then PL_CALL else PL_CALL_EXPR)\<rparr>) b1"
  have b2: "aux b2 = []" "failed b2 = failed b" "length (nodes b2) = Suc (length (nodes b))"
    using assms(5) by (simp_all add: b2_def b1_def set_node_def)
  obtain i b3 where r: "?rec ?h sc depth b2 = (i, b3)" by fastforce
  have c: "\<not> (RC_LIST_LENGTH_OK \<noteq> RC_LIST_LENGTH_OK \<or> PLAN_LIMIT < n)" using assms(3) by simp
  have f: "?form = F_CALL" using assms(4) by simp
  have room: "\<not> sub64 PLAN_LIMIT (length (aux b1)) < n" using assms(3,5) by (simp add: b1_def sub64_def PLAN_LIMIT_def)
  have "plan_form s ?rec params e sc depth ?pc b1 =
      compile_into ?rec sc depth (u16 (length (aux b3))) (spine s ?args n)
        (set_node ?pc (\<lambda>x. x\<lparr>node_a := i, node_b := u16 (length (aux b3)), node_n := n\<rparr>) b3\<lparr>aux := aux b3 @ replicate n 0\<rparr>)"
    unfolding plan_form_def Let_def [of ?h] Let_def [of ?args] Let_def [of "nth_item s ?args"] assms(2) prod.case if_not_P [OF c] f Let_def [of F_CALL]
      Form.case if_not_P [OF room]
    using r c room by (simp add: b2_def Let_def)
  moreover have "length (aux (snd (?rec x sc depth b'))) = length (aux b')" if "x \<in> set (spine s ?args n)" for x b'
    using aux_compile_atom atoms that by metis
  ultimately have "length (aux (plan_form s ?rec params e sc depth ?pc b1)) = length (aux b3) + n"
    by (simp add: aux_compile_into)
  moreover have "snd (plan_compile (Suc left) s params e sc depth b) = plan_form s ?rec params e sc depth ?pc b1"
    using assms(1,6,7) by (simp add: b1_def Let_def)
  ultimately show thesis using that [OF b2] r by simp
qed

lemma nested_call_aux:
  assumes "rc_type s e = RC_PAIR" "rc_head_borrowed s e = h" "rc_list_length_cached s (rc_tail_borrowed s e) = (RC_LIST_LENGTH_OK, n)" "n \<le> PLAN_LIMIT"
    and "rc_type s h = RC_PAIR" "rc_list_length_cached s (rc_tail_borrowed s h) = (RC_LIST_LENGTH_OK, m)" "m \<le> PLAN_LIMIT"
    and "rc_type s (rc_head_borrowed s h) \<noteq> RC_PAIR" "form_of s (rc_head_borrowed s h) = F_CALL"
    and "\<forall>x\<in>set (spine s (rc_tail_borrowed s e) n). rc_type s x \<noteq> RC_PAIR" "\<forall>x\<in>set (spine s (rc_tail_borrowed s h) m). rc_type s x \<noteq> RC_PAIR"
  shows "length (aux (snd (plan_compile PLAN_DEPTH s params e [] 0 plan_start))) = m + n"
proof -
  have left: "PLAN_DEPTH = Suc (Suc 126)" by (simp add: PLAN_DEPTH_def)
  have fc: "form_of s (rc_head_borrowed s e) = F_CALL" using assms(2,5) by (simp add: form_of_def)
  obtain b0 where 0: "aux b0 = []" "failed b0 = failed plan_start" "length (nodes b0) = Suc (length (nodes plan_start))"
    "length (aux (snd (plan_compile (Suc (Suc 126)) s params e [] 0 plan_start))) =
      length (aux (snd (plan_compile (Suc 126) s params (rc_head_borrowed s e) [] 0 b0))) + n"
    by (rule aux_call [OF assms(1,3,4) fc _ _ _ assms(10), where b = plan_start and left = "Suc 126" and params = params and sc = "[]" and depth = 0])
      (simp_all add: plan_start_def PLAN_LIMIT_def)
  have b0: "\<not> failed b0" "length (nodes b0) \<noteq> PLAN_LIMIT" using 0 by (simp_all add: plan_start_def PLAN_LIMIT_def)
  obtain b1 where 1: "aux b1 = []" "failed b1 = failed b0" "length (nodes b1) = Suc (length (nodes b0))"
    "length (aux (snd (plan_compile (Suc 126) s params h [] 0 b0))) =
      length (aux (snd (plan_compile 126 s params (rc_head_borrowed s h) [] 0 b1))) + m"
    by (rule aux_call [OF assms(5-7,9) 0(1) b0 assms(11), where left = 126 and params = params and sc = "[]" and depth = 0])
  show ?thesis unfolding left 0(4) assms(2) 1(4) aux_compile_atom [OF assms(8)] 1(1) by simp
qed

lemma spine_list_at: "list_at s v xs \<Longrightarrow> spine s v (length xs) = xs"
proof (induction xs arbitrary: v)
  case (Cons x xs)
  have "nth_item s v (Suc i) = nth_item s (rc_tail_borrowed s v) i" for i
    by (simp only: nth_item_def nth_tail_def funpow_Suc_right o_apply)
  moreover have "nth_item s v 0 = rc_head_borrowed s v" by (simp add: nth_item_def nth_tail_def)
  ultimately have "spine s v (length (x # xs)) = rc_head_borrowed s v # spine s (rc_tail_borrowed s v) (length xs)"
    by (simp add: spine_def upt_conv_Cons del: upt_Suc flip: map_Suc_upt)
  with Cons show ?case by (cases v) (simp_all add: rc_head_borrowed_def rc_tail_borrowed_def)
qed (simp add: spine_def)

lemma list_at_pair:
  assumes "list_at s v (x # xs)" "length xs \<le> PLAN_LIMIT"
  shows "rc_type s v = RC_PAIR" "rc_head_borrowed s v = x"
    "rc_list_length_cached s (rc_tail_borrowed s v) = (RC_LIST_LENGTH_OK, length xs)" "spine s (rc_tail_borrowed s v) (length xs) = xs"
proof -
  have l: "list_at s (rc_tail_borrowed s v) xs" using assms(1) by (cases v) (simp_all add: rc_tail_borrowed_def)
  have "length xs \<le> SIZE_MAX - 2" using assms(2) by (simp add: PLAN_LIMIT_def SIZE_MAX_def)
  from rc_list_length_spec [OF this] l
  show "rc_list_length_cached s (rc_tail_borrowed s v) = (RC_LIST_LENGTH_OK, length xs)" by blast
  show "spine s (rc_tail_borrowed s v) (length xs) = xs" by (rule spine_list_at [OF l])
  show "rc_type s v = RC_PAIR" "rc_head_borrowed s v = x" using assms(1) by (cases v; simp add: rc_head_borrowed_def)+
qed

end
