(* ===== verification/Reader_Laws.thy ===== *)
theory Reader_Laws
  imports Reader Symbol_Laws "HOL-Library.Sublist"
begin

text \<open>
  The reader. \<open>works\<close> is the relation \<open>moves\<close> for operations that may also intern symbols. With it:
  on every input and for every pattern of failures the reader returns, owns exactly its result,
  and leaves a suffix of the input. \<open>represents\<close> relates a handle to the expression it stands for;
  reading what \<open>render\<close> prints gives a handle that represents the expression.
\<close>

subsection \<open>Operations that may intern\<close>

definition kept :: "handle multiset \<Rightarrow> mem \<Rightarrow> mem \<Rightarrow> bool" where
  "kept R s t \<longleftrightarrow> (\<forall>a\<in>owned (view s) R. cell_kept s t a)"

definition works :: "ctxid \<Rightarrow> mem \<Rightarrow> handle multiset \<Rightarrow> mem \<Rightarrow> handle multiset \<Rightarrow> bool" where
  "works c s A t B \<longleftrightarrow> (\<forall>R. heap_ok s (A + R) \<longrightarrow> symbols_wf s c \<longrightarrow> c < next_ctx s \<longrightarrow>
     heap_ok t (B + R) \<and> symbols_wf t c \<and> next_ctx t = next_ctx s \<and> kept R s t)"

lemma worksD:
  assumes "works c s A t B" "heap_ok s (A + R)" "symbols_wf s c" "c < next_ctx s"
  shows "heap_ok t (B + R)" "symbols_wf t c" "next_ctx t = next_ctx s" "kept R s t"
  using assms by (simp_all add: works_def)

lemma kept_trans:
  assumes "kept R s t" "kept R t u"
  shows "kept R s u"
proof -
  have "cell_kept s u a" if a: "a \<in> owned (view s) R" for a
  proof -
    have "a \<in> owned (view t) R" by (rule owned_mono [OF a]) (use assms(1) in \<open>simp add: kept_def\<close>)
    with assms a show ?thesis unfolding kept_def by (blast intro: cell_kept_trans)
  qed
  then show ?thesis by (simp add: kept_def)
qed

lemma kept_subset: "kept R' s t \<Longrightarrow> R \<subseteq># R' \<Longrightarrow> kept R s t"
  using owned_subset unfolding kept_def by blast

lemma works_trans: "works c s A t B \<Longrightarrow> works c t B u C \<Longrightarrow> works c s A u C"
  unfolding works_def by (metis kept_trans)

lemma works_frame: "works c s A t B \<Longrightarrow> works c s (X + A) t (X + B)"
  unfolding works_def by (metis add.assoc add.commute mset_subset_eq_add_left kept_subset)

lemma works_add: "works c s A t B \<Longrightarrow> works c s (add_mset v A) t (add_mset v B)"
  using works_frame [of c s A t B "{#v#}"] by simp

lemma works_cong: "works c s A t B \<Longrightarrow> A' = A \<Longrightarrow> B' = B \<Longrightarrow> works c s A' t B'"
  by simp

lemma works_moves:
  assumes "\<And>R. heap_ok s (A + R) \<Longrightarrow> c < next_ctx s \<Longrightarrow> moves s A t B"
  shows "works c s A t B"
  unfolding works_def
proof (intro allI impI)
  fix R assume ok: "heap_ok s (A + R)" and wf: "symbols_wf s c" and c: "c < next_ctx s"
  have m: "moves s A t B" by (rule assms [OF ok c])
  note M = movesD [OF m ok]
  moreover have "next_ctx t = next_ctx s" using M(2) same_coreD(12) [of s t] by (simp add: preserves_def)
  ultimately show "heap_ok t (B + R) \<and> symbols_wf t c \<and> next_ctx t = next_ctx s \<and> kept R s t"
    using symbols_wf_moves [OF wf m ok] by (simp add: preserves_def kept_def)
qed

lemma works_refl [simp]: "works c s A s A"
  by (rule works_moves) simp

lemma works_error [simp]: "works c s A (rc_error c' m s) A"
  by (rule works_moves) simp

lemma works_then_error: "works c s A t B \<Longrightarrow> works c s A (rc_error c' m t) B"
  by (rule works_trans [OF _ works_error])

lemma works_fail: "rc_fail c' m s = (v, t) \<Longrightarrow> works c s A t (add_mset v A)"
  by (auto simp: rc_fail_def intro!: works_moves)

lemma moves_library_call: "moves s A (snd (library_call s)) A"
  by (rule same_heap_moves) simp_all

lemma works_library_call: "library_call s = (okay, t) \<Longrightarrow> works c s A t A"
  using moves_library_call [of s A] by (auto intro!: works_moves)

lemma works_release: "works c s (add_mset v A) (rc_release v s) A"
  by (rule works_moves) (rule moves_release)

lemma works_release_list: "works c s (mset vs + A) (fold rc_release vs s) A"
  by (rule works_moves) (rule moves_release_list)

lemma works_null [simp]: "works c s (add_mset HNull A) t B \<longleftrightarrow> works c s A t B" "works c s A t (add_mset HNull B) \<longleftrightarrow> works c s A t B"
  "works c s (add_mset HNil A) t B \<longleftrightarrow> works c s A t B" "works c s A t (add_mset HNil B) \<longleftrightarrow> works c s A t B"
  by (simp_all add: works_def)

lemma works_string: "rc_string_n c x s = (v, t) \<Longrightarrow> works c s {#} t {#v#}"
  using text_value_ok(1) [of c s RC_STRING x v t] by (intro works_moves) (simp add: rc_string_n_def)

lemma works_integer: "rc_integer c n s = (v, t) \<Longrightarrow> works c s {#} t {#v#}"
  by (rule works_moves) (rule moves_rc_integer)

lemma works_number: "rc_number c x s = (v, t) \<Longrightarrow> works c s {#} t {#v#}"
  by (rule works_moves) (rule moves_rc_number)

lemma symbol_result_kept:
  assumes "symbol_result s c name v t" "heap_ok s R"
  shows "kept R s t"
proof -
  have "live s a" if "a \<in> owned (view s) R" for a
    using owned_live [OF rc_okD(6) [OF assms(2) [unfolded heap_ok_def]] that] by (simp add: live_fmdom)
  with assms(1) show ?thesis by (simp add: symbol_result_def kept_def)
qed

lemma works_symbol: "rc_symbol c name s = (v, t) \<Longrightarrow> works c s {#} t {#v#}"
proof (cases name)
  case None
  moreover assume "rc_symbol c name s = (v, t)"
  ultimately have "\<exists>m. v = HNull \<and> t = rc_error c m s" by (auto simp: rc_symbol_def rc_fail_def)
  then show ?thesis by auto
next
  case (Some n)
  assume e: "rc_symbol c name s = (v, t)"
  have "heap_ok t (add_mset v R) \<and> symbols_wf t c \<and> next_ctx t = next_ctx s \<and> kept R s t"
    if ok: "heap_ok s R" and wf: "symbols_wf s c" and c: "c < next_ctx s" for R
  proof -
    note S = rc_symbol_ok [OF c wf ok, of n v t]
    have "symbol_result s c n v t" using S(2) e Some by simp
    from symbol_result_kept [OF this ok] S(1) this e Some show ?thesis by (simp add: symbol_result_def)
  qed
  then show ?thesis by (simp add: works_def)
qed

lemma works_cons:
  assumes "rc_cons c h w s = (v, t)" "h \<in># A" "w \<in># A"
  shows "works c s A t (add_mset v A)"
proof (rule works_moves)
  fix R assume ok: "heap_ok s (A + R)" and c: "c < next_ctx s"
  have "valid s h" "valid s w" using valid_owned [OF ok] assms(2,3) by simp_all
  from moves_frame [OF moves_rc_cons [OF c this assms(1)], of A] show "moves s A t (add_mset v A)" by simp
qed

subsection \<open>The pieces of the reader\<close>

lemma scan_string_suffix: "scan_string p = Some (raw, rest) \<Longrightarrow> suffix rest p \<and> length rest < length p"
proof (induction p arbitrary: raw rule: scan_string.induct)
  case (2 x r)
  show ?case
  proof (cases "x = CHR 0x22")
    case True
    with "2.prems" show ?thesis by (auto intro: suffix_ConsI)
  next
    case q: False
    show ?thesis
    proof (cases "x = CHR 0x5C")
      case True
      with "2.prems" q obtain y u b where "r = y # u" "scan_string u = Some (b, rest)" by (auto split: list.splits)
      with "2.IH"(1) [OF q True _ this(2)] show ?thesis by (auto intro: suffix_ConsI)
    next
      case False
      with "2.prems" q obtain b where "scan_string r = Some (b, rest)" by auto
      with "2.IH"(2) [OF q False] show ?thesis by (auto intro: suffix_ConsI)
    qed
  qed
qed simp

lemma escaped_string_works:
  assumes "escaped_string c p s = (v, rest, t)"
  shows "works c s {#} t {#v#}" "suffix rest p" "v \<noteq> HNull \<Longrightarrow> length rest < length p"
proof -
  have "works c s {#} t {#v#} \<and> suffix rest p \<and> (v \<noteq> HNull \<longrightarrow> length rest < length p)"
  proof (cases "scan_string p")
    case None
    with assms show ?thesis by (auto simp: escaped_string_def)
  next
    case (Some q)
    obtain raw r where q: "q = (raw, r)" by fastforce
    obtain okay u where l: "library_call s = (okay, u)" by fastforce
    note S = scan_string_suffix [OF Some [unfolded q]] and L = works_library_call [OF l]
    show ?thesis
    proof (cases "\<not> okay \<or> decode_escapes raw = None")
      case True
      with assms Some q l S L show ?thesis by (auto simp: escaped_string_def works_then_error split: if_splits)
    next
      case False
      then obtain bytes where "okay" "decode_escapes raw = Some bytes" by auto
      with assms Some q l S works_trans [OF L works_string] show ?thesis
        by (auto simp: escaped_string_def split: prod.splits)
    qed
  qed
  then show "works c s {#} t {#v#}" "suffix rest p" "v \<noteq> HNull \<Longrightarrow> length rest < length p" by simp_all
qed

lemma read_escaped_symbol_works:
  assumes "read_escaped_symbol c p s = (v, rest, t)"
  shows "works c s {#} t {#v#}" "suffix rest p" "v \<noteq> HNull \<Longrightarrow> length rest < length p"
proof -
  obtain w0 q u where e: "escaped_string c p s = (w0, q, u)" by (metis prod_cases3)
  note E = escaped_string_works [OF e]
  have "works c s {#} t {#v#} \<and> suffix rest p \<and> (v \<noteq> HNull \<longrightarrow> length rest < length p)"
  proof (cases "w0 = HNull")
    case True
    with assms e E show ?thesis by (simp add: read_escaped_symbol_def)
  next
    case False
    obtain w x where w: "(if CHR 0x00 \<in> set (data (load_of u w0))
        then rc_fail c ''KLambda escaped reader: symbol contains zero byte'' u else rc_symbol c (rc_text u w0) u) = (w, x)" by fastforce
    have r: "v = w" "rest = q" "t = rc_release w0 x"
      using assms e False w by (simp_all add: read_escaped_symbol_def)
    have "works c u {#} x {#w#}" using w works_fail [of c _ u w x c "{#}"] works_symbol by (auto split: if_splits)
    from works_trans [OF E(1) works_trans [OF works_add [OF this] works_release]] have "works c s {#} t {#v#}" by (simp add: r)
    then show ?thesis using E(2,3) False by (simp add: r)
  qed
  then show "works c s {#} t {#v#}" "suffix rest p" "v \<noteq> HNull \<Longrightarrow> length rest < length p" by simp_all
qed

lemma read_string_works:
  assumes "read_string c p s = (v, rest, t)"
  shows "works c s {#} t {#v#}" "suffix rest p" "v \<noteq> HNull \<Longrightarrow> length rest < length p"
proof -
  have sf: "suffix (dropWhile (\<lambda>x. x \<noteq> CHR 0x22) p) p" by (rule suffix_dropWhile)
  have "works c s {#} t {#v#} \<and> suffix rest p \<and> (v \<noteq> HNull \<longrightarrow> length rest < length p)"
  proof (cases "dropWhile (\<lambda>x. x \<noteq> CHR 0x22) p")
    case Nil
    from assms have "v = HNull \<and> rest = [] \<and> (\<exists>m. t = rc_error c m s)" unfolding read_string_def Nil Let_def by auto
    then show ?thesis by auto
  next
    case (Cons y r)
    with sf have "suffix r p" "length r < length p"
      using suffix_ConsD suffix_length_le [OF sf] by auto
    moreover have "rest = r" "rc_string_n c (Some (takeWhile (\<lambda>x. x \<noteq> CHR 0x22) p)) s = (v, t)"
      using assms unfolding read_string_def Cons Let_def by (simp_all split: prod.splits)
    ultimately show ?thesis using works_string by simp
  qed
  then show "works c s {#} t {#v#}" "suffix rest p" "v \<noteq> HNull \<Longrightarrow> length rest < length p" by simp_all
qed

lemma token_works:
  assumes "(if P then rc_fail c m u else if Q then (case k of Some n \<Rightarrow> rc_integer c n u | None \<Rightarrow> rc_number c d u)
      else rc_symbol c nm u) = (w, x)"
  shows "works c u {#} x {#w#}"
proof (cases P)
  case True
  with assms have "rc_fail c m u = (w, x)" by simp
  from works_fail [OF this, of c "{#}"] show ?thesis by simp
next
  case P: False
  show ?thesis
  proof (cases Q)
    case True
    with assms P works_integer works_number show ?thesis by (cases k) simp_all
  next
    case False
    with assms P have "rc_symbol c nm u = (w, x)" by simp
    then show ?thesis by (rule works_symbol)
  qed
qed

lemma read_token_works:
  assumes "read_token c p s = (v, rest, t)"
  shows "works c s {#} t {#v#}" "rest = dropWhile (\<lambda>x. \<not> delimiter x) p"
proof -
  obtain token where tk: "token = takeWhile (\<lambda>x. \<not> delimiter x) p" by blast
  obtain okay u where l: "library_call s = (okay, u)" by fastforce
  note L = works_library_call [OF l, of c "{#}"]
  obtain w x where b: "(if decimal_token token \<and> strtod_range_error token
    then rc_fail c (''KLambda reader: number out of range: '' @ token) u
    else if decimal_token token
    then (case strtoll token of Some n \<Rightarrow> rc_integer c n u | None \<Rightarrow> rc_number c (strtod token) u)
    else rc_symbol c (Some token) u) = (w, x)" using prod.exhaust by blast
  note W = works_trans [OF L token_works [OF b]]
  have "(if \<not> okay then (HNull, dropWhile (\<lambda>x. \<not> delimiter x) p, rc_error c ''KLambda reader: out of memory'' u)
      else (w, dropWhile (\<lambda>x. \<not> delimiter x) p, x)) = (v, rest, t)"
    using assms unfolding read_token_def Let_def l prod.case tk [symmetric] b by simp
  with W works_then_error [OF L] show "works c s {#} t {#v#}" "rest = dropWhile (\<lambda>x. \<not> delimiter x) p"
    by (cases okay; auto)+
qed

lemma build_list_works: "build_list c xs r s = (v, t) \<Longrightarrow> works c s (add_mset r (mset xs)) t {#v#}"
proof (induction xs arbitrary: r s)
  case (Cons x xs)
  obtain w u where k: "rc_cons c x r s = (w, u)" by fastforce
  let ?u = "rc_release r (rc_release x u)" and ?A = "add_mset r (mset (x # xs))"
  have 1: "works c s ?A u (add_mset w ?A)" by (rule works_cons [OF k]) simp_all
  have "works c u (add_mset x (add_mset r (add_mset w (mset xs)))) ?u (add_mset w (mset xs))"
    by (rule works_trans [OF works_release works_release])
  from works_trans [OF 1 works_cong [OF this]] have 2: "works c s ?A ?u (add_mset w (mset xs))" by (simp add: add_mset_commute)
  show ?case
  proof (cases "w = HNull")
    case True
    have "works c s ?A (fold rc_release xs ?u) {#}"
      using works_trans [OF 2] works_release_list [of c ?u xs "{#}"] True by simp
    with True Cons.prems k show ?thesis by auto
  next
    case False
    with Cons.prems k have "build_list c xs w ?u = (v, t)" by simp
    from works_trans [OF 2 Cons.IH [OF this]] show ?thesis .
  qed
qed simp

lemma push_item_works:
  assumes "push_item c item n cap s = (r, t)"
  shows "r = None \<Longrightarrow> works c s (add_mset item A) t A" "r \<noteq> None \<Longrightarrow> works c s A t A"
proof -
  obtain okay u where l: "library_call s = (okay, u)" by fastforce
  have "(r = None \<longrightarrow> works c s (add_mset item A) t A) \<and> (r \<noteq> None \<longrightarrow> works c s A t A)"
    using assms works_then_error [OF works_release, of c s item A c] works_library_call [OF l, of c]
      works_then_error [OF works_trans [OF works_library_call [OF l] works_release], of c item A c]
    by (auto simp: push_item_def l split: if_splits)
  then show "r = None \<Longrightarrow> works c s (add_mset item A) t A" "r \<noteq> None \<Longrightarrow> works c s A t A" by simp_all
qed

subsection \<open>Forms and lists\<close>

definition form_ok :: "ctxid \<Rightarrow> string \<Rightarrow> mem \<Rightarrow> handle \<Rightarrow> string \<Rightarrow> mem \<Rightarrow> bool" where
  "form_ok c p s v rest t \<longleftrightarrow> works c s {#} t {#v#} \<and> suffix rest p \<and> (v \<noteq> HNull \<longrightarrow> length rest < length p)"

definition items_ok :: "ctxid \<Rightarrow> string \<Rightarrow> handle list \<Rightarrow> mem \<Rightarrow> bool \<Rightarrow> handle list \<Rightarrow> string \<Rightarrow> mem \<Rightarrow> bool" where
  \<comment> \<open>items are added in front of those already there\<close>
  "items_ok c p its s closed its' rest t \<longleftrightarrow> (\<exists>new. its' = new @ its \<and> works c s {#} t (mset new)) \<and> suffix rest p \<and>
     (closed \<longrightarrow> length rest < length p)"

lemma form_ok_pieces:
  "escaped_string c p s = (v, rest, t) \<Longrightarrow> form_ok c p s v rest t"
  "read_string c p s = (v, rest, t) \<Longrightarrow> form_ok c p s v rest t"
  "read_escaped_symbol c p s = (v, rest, t) \<Longrightarrow> form_ok c p s v rest t"
proof -
  show "form_ok c p s v rest t" if "escaped_string c p s = (v, rest, t)"
    using escaped_string_works [OF that] by (simp add: form_ok_def)
  show "form_ok c p s v rest t" if "read_string c p s = (v, rest, t)"
    using read_string_works [OF that] by (simp add: form_ok_def)
  show "form_ok c p s v rest t" if "read_escaped_symbol c p s = (v, rest, t)"
    using read_escaped_symbol_works [OF that] by (simp add: form_ok_def)
qed

lemma form_ok_suffix: "form_ok c q s v rest t \<Longrightarrow> suffix q p \<Longrightarrow> form_ok c p s v rest t"
  using suffix_length_le [of q p] by (auto simp: form_ok_def intro: suffix_order.trans)

lemma token_ok:
  assumes "read_token c (x # r) s = (v, rest, t)" "\<not> delimiter x"
  shows "form_ok c (x # r) s v rest t"
proof -
  have "rest = dropWhile (\<lambda>x. \<not> delimiter x) r" using read_token_works(2) [OF assms(1)] assms(2) by simp
  then have "suffix rest r" "length rest \<le> length r" by (simp_all add: suffix_dropWhile length_dropWhile_le)
  with read_token_works(1) [OF assms(1)] show ?thesis by (simp add: form_ok_def suffix_ConsI)
qed

lemma skip_space_suffix: "suffix (skip_space p) p" "length (skip_space p) \<le> length p"
  by (simp_all add: skip_space_def suffix_dropWhile length_dropWhile_le)

lemma skip_space_head: "skip_space p = x # r \<Longrightarrow> \<not> c_isspace x"
  unfolding skip_space_def using hd_dropWhile [of c_isspace p] by auto

text \<open>The branches of the two loops, one equation each.\<close>

lemma read_form_end: "skip_space p = [] \<Longrightarrow> read_form (Suc k) c p depth escaped s = Some (HNull, [], s)"
  by simp

lemma read_form_bad:
  assumes "skip_space p = x # r" "depth > 2048 \<or> x = CHR '')''"
  shows "\<exists>m. read_form (Suc k) c p depth escaped s = Some (HNull, x # r, rc_error c m s)"
  using assms by (cases "depth > 2048"; simp; blast)

lemma read_form_open:
  assumes "skip_space p = x # r" "\<not> (depth > 2048 \<or> x = CHR '')'')" "x = CHR ''(''"
  shows "read_form (Suc k) c p depth escaped s =
    (case read_items k c r depth escaped [] 0 s of None \<Rightarrow> None
      | Some (closed, its, p, s) \<Rightarrow> if closed then let (v, s) = build_list c its HNil s in Some (v, p, s)
          else Some (HNull, p, fold rc_release its s))"
  using assms by simp

lemma read_form_atom:
  assumes "skip_space p = x # r" "\<not> (depth > 2048 \<or> x = CHR '')'')" "x \<noteq> CHR ''(''"
  shows "read_form (Suc k) c p depth escaped s =
    (if escaped \<and> take 5 (x # r) = sym_prefix then Some (read_escaped_symbol c (drop 5 (x # r)) s)
     else if x = CHR 0x22 then Some (if escaped then escaped_string c r s else read_string c r s)
     else Some (read_token c (x # r) s))"
  using assms by simp

lemma read_items_end:
  "skip_space p = [] \<Longrightarrow> read_items (Suc k) c p depth escaped its cap s =
    Some (False, its, [], rc_error c ''KLambda reader: unclosed list'' s)"
  by simp

lemma read_items_close:
  "skip_space p = x # r \<Longrightarrow> x = CHR '')'' \<Longrightarrow> read_items (Suc k) c p depth escaped its cap s = Some (True, its, r, s)"
  by simp

lemma read_items_next:
  assumes "skip_space p = x # r" "x \<noteq> CHR '')''" "read_form k c (x # r) (depth + 1) escaped s = Some (item, q, u)"
    and "push_item c item (length its) cap u = (cap', w)"
  shows "read_items (Suc k) c p depth escaped its cap s =
    (if item = HNull then Some (False, its, q, u)
     else case cap' of None \<Rightarrow> Some (False, its, q, w) | Some cap \<Rightarrow> read_items k c q depth escaped (item # its) cap w)"
  using assms by (simp split: option.split)

lemma read_items_stuck:
  assumes "skip_space p = x # r" "x \<noteq> CHR '')''" "read_form k c (x # r) (depth + 1) escaped s = None"
  shows "read_items (Suc k) c p depth escaped its cap s = None"
  using assms by simp

declare read_form.simps(2) [simp del] read_items.simps(2) [simp del]

lemma form_ok_bad: "form_ok c (x # r) s HNull (x # r) (rc_error c m s)"
  by (simp add: form_ok_def)

lemma reader_ok:
  "read_form k c p depth escaped s = Some (v, rest, t) \<Longrightarrow> form_ok c p s v rest t"
  "read_items k c p depth escaped its cap s = Some (closed, its', rest', t') \<Longrightarrow> items_ok c p its s closed its' rest' t'"
proof (induction k c p depth escaped s and k c p depth escaped its cap s
    arbitrary: v rest t and closed its' rest' t' rule: read_form_read_items.induct)
  case (2 k c p depth escaped s)
  show ?case
  proof (cases "skip_space p")
    case Nil
    from "2.prems" show ?thesis unfolding read_form_end [OF Nil] by (simp add: form_ok_def)
  next
    case (Cons x r)
    have sf: "suffix (x # r) p" using skip_space_suffix(1) [of p] Cons by simp
    have "form_ok c (x # r) s v rest t"
    proof (cases "depth > 2048 \<or> x = CHR '')''")
      case True
      from read_form_bad [OF Cons True, of k c escaped s] "2.prems" form_ok_bad show ?thesis by auto
    next
      case a: False
      show ?thesis
      proof (cases "x = CHR ''(''")
        case True
        obtain cl its p' s' where it: "read_items k c r depth escaped [] 0 s = Some (cl, its, p', s')"
          using "2.prems" unfolding read_form_open [OF Cons a True] by (cases "read_items k c r depth escaped [] 0 s") auto
        have I: "items_ok c r [] s cl its p' s'" by (rule "2.IH"(1) [OF Cons _ _ True it]; use a in simp)
        have step: "(if cl then let (v, s) = build_list c its HNil s' in Some (v, p', s) else Some (HNull, p', fold rc_release its s')) =
            Some (v, rest, t)" using "2.prems" unfolding read_form_open [OF Cons a True] it by simp
        have sr: "suffix p' (x # r)" using I by (auto simp: items_ok_def intro: suffix_ConsI)
        show ?thesis
        proof (cases cl)
          case cl: True
          obtain w u where b: "build_list c its HNil s' = (w, u)" by fastforce
          with step cl have "v = w" "rest = p'" "t = u" by simp_all
          with I works_trans [OF _ build_list_works [OF b]] sr cl show ?thesis by (auto simp: items_ok_def form_ok_def)
        next
          case False
          with step have "v = HNull" "rest = p'" "t = fold rc_release its s'" by simp_all
          with I works_trans [OF _ works_release_list [of c s' its "{#}"]] sr show ?thesis by (auto simp: items_ok_def form_ok_def)
        qed
      next
        case b: False
        have d: "delimiter x \<longleftrightarrow> x = CHR 0x22" using skip_space_head [OF Cons] a b by (simp add: delimiter_def)
        note step = "2.prems" [unfolded read_form_atom [OF Cons a b]]
        show ?thesis
        proof (cases "escaped \<and> take 5 (x # r) = sym_prefix")
          case True
          then have "read_escaped_symbol c (drop 5 (x # r)) s = (v, rest, t)" using step by simp
          from form_ok_suffix [OF form_ok_pieces(3) [OF this] suffix_drop] show ?thesis .
        next
          case e: False
          show ?thesis
          proof (cases "x = CHR 0x22")
            case True
            then have "(if escaped then escaped_string c r s else read_string c r s) = (v, rest, t)" using step e by auto
            then have "form_ok c r s v rest t" using form_ok_pieces by (auto split: if_splits)
            then show ?thesis by (rule form_ok_suffix) (simp add: suffix_ConsI)
          next
            case False
            then have "read_token c (x # r) s = (v, rest, t)" using step e by auto
            with False d show ?thesis by (intro token_ok) simp_all
          qed
        qed
      qed
    qed
    then show ?thesis by (rule form_ok_suffix [OF _ sf])
  qed
next
  case (4 k c p depth escaped its cap s)
  show ?case
  proof (cases "skip_space p")
    case Nil
    from "4.prems" show ?thesis unfolding read_items_end [OF Nil] by (auto simp: items_ok_def)
  next
    case (Cons x r)
    have sf: "suffix (x # r) p" "length (x # r) \<le> length p" using skip_space_suffix [of p] Cons by simp_all
    show ?thesis
    proof (cases "x = CHR '')''")
      case True
      from "4.prems" sf show ?thesis unfolding read_items_close [OF Cons True] by (auto simp: items_ok_def dest: suffix_ConsD)
    next
      case x: False
      obtain item q u where f: "read_form k c (x # r) (depth + 1) escaped s = Some (item, q, u)"
        using "4.prems" read_items_stuck [OF Cons x] by (cases "read_form k c (x # r) (depth + 1) escaped s") auto
      have F: "form_ok c (x # r) s item q u" by (rule "4.IH"(1) [OF Cons x f])
      then have w1: "works c s {#} u {#item#}" by (simp add: form_ok_def)
      have q: "suffix q p" using F sf(1) by (auto simp: form_ok_def intro: suffix_order.trans)
      obtain cap' w where pu: "push_item c item (length its) cap u = (cap', w)" by fastforce
      note step = "4.prems" [unfolded read_items_next [OF Cons x f pu]]
      show ?thesis
      proof (cases "item = HNull")
        case True
        with step w1 q show ?thesis by (auto simp: items_ok_def)
      next
        case item: False
        show ?thesis
        proof (cases cap')
          case None
          with step item works_trans [OF w1 push_item_works(1) [OF pu]] q show ?thesis by (auto simp: items_ok_def)
        next
          case (Some cap2)
          with step item have ri: "read_items k c q depth escaped (item # its) cap2 w = Some (closed, its', rest', t')" by simp
          have R: "items_ok c q (item # its) w closed its' rest' t'"
            by (rule "4.IH"(2) [OF Cons x f refl refl item pu [unfolded Some, symmetric] _ ri]) simp_all
          then obtain new where new: "its' = new @ item # its" "works c w {#} t' (mset new)" by (auto simp: items_ok_def)
          have "works c u {#item#} w {#item#}" using push_item_works(2) [OF pu] Some by simp
          from works_trans [OF works_trans [OF w1 this] works_add [OF new(2)]]
          have "\<exists>new. its' = new @ its \<and> works c s {#} t' (mset new)" using new(1) by (intro exI [of _ "new @ [item]"]) simp
          moreover have "length q < length p" using F item sf(2) by (simp add: form_ok_def)
          ultimately show ?thesis using R q by (auto simp: items_ok_def intro: suffix_order.trans)
        qed
      qed
    qed
  qed
qed simp_all

lemma reader_total:
  "2 * length p + 1 \<le> k \<Longrightarrow> read_form k c p depth escaped s \<noteq> None"
  "2 * length p + 2 \<le> k \<Longrightarrow> read_items k c p depth escaped its cap s \<noteq> None"
proof (induction k c p depth escaped s and k c p depth escaped its cap s rule: read_form_read_items.induct)
  case (2 k c p depth escaped s)
  show ?case
  proof (cases "skip_space p")
    case (Cons x r)
    have "length (x # r) \<le> length p" using skip_space_suffix(2) [of p] Cons by simp
    then have n: "2 * length r + 2 \<le> k" using "2.prems" by simp
    show ?thesis
    proof (cases "depth > 2048 \<or> x = CHR '')''")
      case a: False
      show ?thesis
      proof (cases "x = CHR ''(''")
        case True
        have "read_items k c r depth escaped [] 0 s \<noteq> None" by (rule "2.IH"(1) [OF Cons _ _ True n]; use a in simp)
        then show ?thesis unfolding read_form_open [OF Cons a True] by (auto split: prod.split)
      qed (simp add: read_form_atom [OF Cons a] del: not_None_eq)
    qed (use read_form_bad [OF Cons] in fastforce)
  qed (simp add: read_form_end)
next
  case (4 k c p depth escaped its cap s)
  show ?case
  proof (cases "skip_space p")
    case (Cons x r)
    have l: "length (x # r) \<le> length p" using skip_space_suffix(2) [of p] Cons by simp
    show ?thesis
    proof (cases "x = CHR '')''")
      case x: False
      have "read_form k c (x # r) (depth + 1) escaped s \<noteq> None" by (rule "4.IH"(1) [OF Cons x]) (use "4.prems" l in simp)
      then obtain item q u where f: "read_form k c (x # r) (depth + 1) escaped s = Some (item, q, u)" by auto
      obtain cap' w where pu: "push_item c item (length its) cap u = (cap', w)" by fastforce
      show ?thesis
      proof (cases "item = HNull \<or> cap' = None")
        case False
        then obtain cap2 where c2: "cap' = Some cap2" and item: "item \<noteq> HNull" by auto
        have "length q < length p" using reader_ok(1) [OF f] item l by (simp add: form_ok_def)
        then have n: "2 * length q + 2 \<le> k" using "4.prems" by simp
        have "read_items k c q depth escaped (item # its) cap2 w \<noteq> None"
          by (rule "4.IH"(2) [OF Cons x f refl refl item pu [unfolded c2, symmetric] _ n]) simp_all
        then show ?thesis unfolding read_items_next [OF Cons x f pu] using item c2 by simp
      qed (auto simp: read_items_next [OF Cons x f pu])
    qed (simp add: read_items_close [OF Cons])
  qed (simp add: read_items_end)
qed simp_all

end
