(* ===== verification/Print_Read.thy ===== *)
theory Print_Read
  imports Printing Reader_Laws
begin

text \<open>
  Printing and reading back. \<open>represents s v e\<close> says that the handle \<open>v\<close> stands for the expression
  \<open>e\<close> in memory \<open>s\<close>. The printer writes \<open>render e\<close> for such a handle, and the reader turns
  \<open>render e\<close> into a handle that represents \<open>e\<close> again: for integers of 64 bits, symbols, strings
  without a quote, and lists of such expressions within the printer's limits.
\<close>

subsection \<open>Numerals\<close>

lemma digit_of: "d < 10 \<Longrightarrow> c_isdigit (char_of (48 + d)) \<and> digit_value (char_of (48 + d)) = d"
  by (simp add: c_isdigit_def digit_value_def)

lemma digits_of_step: "digits_of n = (if n < 10 then [] else digits_of (n div 10)) @ [char_of (48 + n mod 10)]"
  by (subst digits_of.simps) simp

lemma digits_value_snoc: "digits_value (xs @ [x]) = 10 * digits_value xs + digit_value x"
  by (simp add: digits_value_def)

lemma digits_of_digits: "list_all c_isdigit (digits_of n) \<and> digits_value (digits_of n) = n \<and> digits_of n \<noteq> []"
proof (induction n rule: digits_of.induct)
  case (1 n)
  show ?case
  proof (cases "n < 10")
    case True
    then show ?thesis using digit_of [of n] by (subst (1 2 3) digits_of_step) (simp add: digits_value_def)
  next
    case False
    with 1 digit_of [of "n mod 10"] show ?thesis by (subst (1 2 3) digits_of_step) (simp add: digits_value_snoc)
  qed
qed

lemma digits_of_simps [simp]:
  "takeWhile c_isdigit (digits_of n) = digits_of n" "dropWhile c_isdigit (digits_of n) = []"
  "digits_value (digits_of n) = n" "digits_of n \<noteq> []" "list_all c_isdigit (digits_of n)"
  using digits_of_digits [of n] by (simp_all add: list_all_iff)

lemma digit_not_special: "c_isdigit x \<Longrightarrow> \<not> is_sign x \<and> \<not> delimiter x \<and> x \<noteq> CHR 0x00 \<and> x \<noteq> CHR ''-''"
  by (auto simp: c_isdigit_def is_sign_def delimiter_def c_isspace_def)

lemma show_int_parts:
  "skip_sign (show_int n) = digits_of (nat \<bar>n\<bar>)" "is_negative (show_int n) \<longleftrightarrow> n < 0"
proof -
  obtain x r where d: "digits_of (nat n) = x # r" using digits_of_digits [of "nat n"] by (cases "digits_of (nat n)") auto
  then have x: "\<not> is_sign x" "x \<noteq> CHR ''-''" using digits_of_digits [of "nat n"] digit_not_special [of x] by simp_all
  show "skip_sign (show_int n) = digits_of (nat \<bar>n\<bar>)" using d x(1) by (auto simp: show_int_def skip_sign_def is_sign_def)
  show "is_negative (show_int n) \<longleftrightarrow> n < 0" using d x(2) by (auto simp: show_int_def is_negative_def)
qed

lemma show_int_chars: "x \<in> set (show_int n) \<Longrightarrow> \<not> delimiter x \<and> x \<noteq> CHR 0x00" "show_int n \<noteq> []"
proof -
  have "\<not> delimiter y \<and> y \<noteq> CHR 0x00" if "y \<in> set (digits_of k)" for y k
    using digits_of_digits [of k] digit_not_special [of y] that by (simp add: list_all_iff)
  then show "x \<in> set (show_int n) \<Longrightarrow> \<not> delimiter x \<and> x \<noteq> CHR 0x00"
    by (auto simp: show_int_def delimiter_def c_isspace_def split: if_splits)
  show "show_int n \<noteq> []" using digits_of_digits [of "nat n"] by (simp add: show_int_def)
qed

lemma show_int_decimal: "decimal_token (show_int n)"
  by (simp add: decimal_token_def show_int_parts Let_def)

lemma show_int_strtoll: "- (2 ^ 63) \<le> n \<Longrightarrow> n < 2 ^ 63 \<Longrightarrow> strtoll (show_int n) = Some n"
  by (simp add: strtoll_def show_int_parts Let_def)

lemma show_int_value: "decimal_parts (show_int n) = (nat \<bar>n\<bar>, 0)"
  by (simp add: decimal_parts_def show_int_parts Let_def)

lemma round_ratio_int:
  assumes "0 < n" "n < 2 ^ 64"
  obtains m e where "round_ratio s n 1 = Fin s m e" "0 < m"
proof -
  define k where "k = bits n - 1"
  have kb: "2 ^ k \<le> n" and b: "bits n = Suc k"
    using bits_bounds [OF assms(1)] assms(1) by (auto simp: k_def bits.simps [of n])
  have bits1: "bits 1 = 1" by (simp add: bits.simps)
  have "(2::nat) ^ k < 2 ^ 64" using kb assms(2) by (rule le_less_trans)
  then have k: "k < 64" by (rule power_less_imp_less_exp [rotated]) simp
  define e where "e = max (- 1074) (int k - 52)"
  have e: "e = int k - 52" using k by (simp add: e_def)
  define num where "num = n * 2 ^ nat (- e)"
  define den :: nat where "den = 2 ^ nat e"
  have "0 < num div den"
  proof -
    have "den \<le> num"
    proof (cases "k \<le> 52")
      case True
      then show ?thesis using assms(1) by (simp add: num_def den_def e)
    next
      case False
      then have "den \<le> 2 ^ k" unfolding den_def e by (intro power_increasing) auto
      with kb False show ?thesis by (simp add: num_def e)
    qed
    moreover have "0 < den" by (simp add: den_def)
    ultimately show ?thesis by (simp add: div_greater_zero_iff)
  qed
  then have m: "0 < (if den < 2 * (num mod den) \<or> 2 * (num mod den) = den \<and> odd (num div den) then num div den + 1 else num div den)"
    by simp
  have "round_ratio s n 1 =
      (let m = (if den < 2 * (num mod den) \<or> 2 * (num mod den) = den \<and> odd (num div den) then num div den + 1 else num div den)
       in if m = 2 ^ 53 then (if 971 < e + 1 then Inf s else Fin s (2 ^ 52) (e + 1)) else if 971 < e then Inf s else Fin s m e)"
  proof -
    have n0: "n \<noteq> 0" using assms(1) by simp
    have k1: "int (bits n) - int (bits 1) = int k" by (simp only: b bits1)
    have top: "(if 1 * 2 ^ nat (int k) \<le> n * 2 ^ nat (- int k) then int k else int k - 1) = int k" using kb by simp
    have den1: "1 * 2 ^ nat e = den" by (simp add: den_def)
    show ?thesis
      unfolding round_ratio_def if_not_P [OF n0] Let_def k1 top e_def [symmetric] num_def [symmetric] den1 by (rule refl)
  qed
  then obtain m where m: "0 < m" "round_ratio s n 1 =
      (if m = 2 ^ 53 then (if 971 < e + 1 then Inf s else Fin s (2 ^ 52) (e + 1)) else if 971 < e then Inf s else Fin s m e)"
    using m unfolding Let_def by blast
  have e971: "\<not> 971 < e + 1" "\<not> 971 < e" using k by (simp_all add: e)
  show thesis
  proof (cases "m = 2 ^ 53")
    case True
    have "round_ratio s n 1 = Fin s (2 ^ 52) (e + 1)" unfolding m(2) if_P [OF True] if_not_P [OF e971(1)] ..
    then show thesis by (rule that) simp
  next
    case False
    have "round_ratio s n 1 = Fin s m e" unfolding m(2) if_not_P [OF False] if_not_P [OF e971(2)] ..
    then show thesis using m(1) by (rule that)
  qed
qed

lemma show_int_no_range_error:
  assumes "- (2 ^ 63) \<le> n" "n < 2 ^ 63"
  shows "\<not> strtod_range_error (show_int n)"
proof (cases "n = 0")
  case True
  then show ?thesis by (simp add: strtod_range_error_def show_int_value)
next
  case False
  have "0 < nat \<bar>n\<bar>" "nat \<bar>n\<bar> < 2 ^ 64" using False assms by auto
  then obtain m e where r: "round_ratio (n < 0) (nat \<bar>n\<bar>) 1 = Fin (n < 0) m e" "0 < m" by (rule round_ratio_int)
  have "strtod (show_int n) = Fin (n < 0) m e" using r(1) by (simp add: strtod_def show_int_value show_int_parts)
  with r(2) show ?thesis by (simp add: strtod_range_error_def)
qed

subsection \<open>Expressions\<close>

datatype sexp = SInt int | SSym string | SStr string | SList "sexp list"

fun represents :: "mem \<Rightarrow> handle \<Rightarrow> sexp \<Rightarrow> bool" and represents_list :: "mem \<Rightarrow> handle \<Rightarrow> sexp list \<Rightarrow> bool" where
  "represents s v (SInt n) \<longleftrightarrow> rc_type s v = RC_NUMBER \<and> rc_number_is_exact_integer s v \<and> rc_integer_value s v = n"
| "represents s v (SSym x) \<longleftrightarrow> rc_type s v = RC_SYMBOL \<and> data (load_of s v) = x"
| "represents s v (SStr x) \<longleftrightarrow> rc_type s v = RC_STRING \<and> data (load_of s v) = x"
| "represents s v (SList es) \<longleftrightarrow> represents_list s v es"
| "represents_list s v [] \<longleftrightarrow> v = HNil"
| "represents_list s v (e # es) \<longleftrightarrow> rc_type s v = RC_PAIR \<and> represents s (head (load_of s v)) e \<and>
     represents_list s (tail (load_of s v)) es"

fun render :: "sexp \<Rightarrow> string" and render_items :: "bool \<Rightarrow> sexp list \<Rightarrow> string" where
  "render (SInt n) = show_int n"
| "render (SSym x) = x"
| "render (SStr x) = quoted x"
| "render (SList es) = CHR ''('' # render_items True es"
| "render_items first [] = '')''"
| "render_items first (e # es) = (if first then [] else '' '') @ render e @ render_items False es"

text \<open>What can be printed and read at a depth: the printer stops at depth 256 and after 100,000
  items of a list; a symbol must not look like something else; a string has no quote.\<close>

fun printable :: "nat \<Rightarrow> sexp \<Rightarrow> bool" and printable_items :: "nat \<Rightarrow> nat \<Rightarrow> sexp list \<Rightarrow> bool" where
  "printable d (SInt n) \<longleftrightarrow> d \<le> 256 \<and> - (2 ^ 63) \<le> n \<and> n < 2 ^ 63"
| "printable d (SSym x) \<longleftrightarrow> d \<le> 256 \<and> x \<noteq> [] \<and> (\<forall>y\<in>set x. \<not> delimiter y \<and> y \<noteq> CHR 0x00) \<and> \<not> decimal_token x"
| "printable d (SStr x) \<longleftrightarrow> d \<le> 256 \<and> (\<forall>y\<in>set x. y \<noteq> CHR 0x22 \<and> y \<noteq> CHR 0x00)"
| "printable d (SList es) \<longleftrightarrow> d \<le> 256 \<and> printable_items d 0 es"
| "printable_items d n [] \<longleftrightarrow> True"
| "printable_items d n (e # es) \<longleftrightarrow> n + 1 \<le> list_limit \<and> printable (d + 1) e \<and> printable_items d (n + 1) es"

fun print_cost :: "sexp \<Rightarrow> nat" and items_cost :: "sexp list \<Rightarrow> nat" where
  "print_cost (SList es) = Suc (items_cost es)"
| "print_cost _ = 1"
| "items_cost [] = 1"
| "items_cost (e # es) = Suc (print_cost e + items_cost es)"

subsection \<open>The printer writes \<open>render\<close>\<close>

lemma quoted_chars: "quoted x = CHR 0x22 # x @ [CHR 0x22]"
  by (simp add: quoted_def)

lemma print_render:
  "represents s v e \<Longrightarrow> printable d e \<Longrightarrow> print_cost e \<le> k \<Longrightarrow> print_value k s v d = Some (render e)"
  "represents_list s v es \<Longrightarrow> printable_items d n es \<Longrightarrow> items_cost es \<le> k \<Longrightarrow>
     print_spine k s v d n = Some (render_items (n = 0) es)"
proof (induction s v e and s v es arbitrary: d k and d n k rule: represents_represents_list.induct)
  case (1 s v n)
  then show ?case by (cases k) (simp_all add: show_number_def)
next
  case (2 s v x)
  then show ?case by (cases k) simp_all
next
  case (3 s v x)
  then show ?case by (cases k) simp_all
next
  case (4 s v es)
  then obtain j where k: "k = Suc j" by (cases k) auto
  show ?case
  proof (cases es)
    case Nil
    with "4.prems" k show ?thesis by simp
  next
    case (Cons e es')
    then have "rc_type s v = RC_PAIR" using "4.prems" by simp
    with "4.IH" [of d 0 j] "4.prems" k show ?thesis by simp
  qed
next
  case (5 s v)
  then show ?case by (cases k) (simp_all add: rc_is_nil_def)
next
  case (6 s v e es)
  then obtain j where k: "k = Suc j" by (cases k) auto
  from "6.prems"(1) have v: "rc_type s v = RC_PAIR" "v \<noteq> HNull" by (cases v; simp)+
  have "print_value j s (rc_head_borrowed s v) (d + 1) = Some (render e)"
    using "6.IH"(1) [of "d + 1" j] "6.prems" v k by (simp add: rc_head_borrowed_def)
  moreover have "print_spine j s (rc_tail_borrowed s v) d (n + 1) = Some (render_items False es)"
    using "6.IH"(2) [of d "n + 1" j] "6.prems" v k by (simp add: rc_tail_borrowed_def)
  ultimately show ?case using "6.prems" v k by simp
qed

subsection \<open>Representation is kept\<close>

definition rooted :: "mem \<Rightarrow> handle multiset \<Rightarrow> handle \<Rightarrow> bool" where
  "rooted s R v \<longleftrightarrow> (\<forall>a. v = HRef a \<longrightarrow> a \<in> owned (view s) R)"

lemma rooted_root: "v \<in># R \<Longrightarrow> rooted s R v"
  by (auto simp: rooted_def intro: owned.root)

lemma rooted_pair:
  assumes "rooted s R v" "rc_type s v = RC_PAIR"
  shows "rooted s R (head (load_of s v))" "rooted s R (tail (load_of s v))"
proof -
  obtain a h t where a: "v = HRef a" "load (cell_at s a) = VPair h t"
    using assms(2) pair_payload by (cases v) fastforce+
  then have "set (out (view s) a) \<supseteq> {h, t}" by (simp add: holds_def edges_def)
  then have "HRef b \<in> set (out (view s) a)" if "h = HRef b \<or> t = HRef b" for b using that by auto
  with assms(1) a show "rooted s R (head (load_of s v))" "rooted s R (tail (load_of s v))"
    by (auto simp: rooted_def intro: owned.edge)
qed

lemma kept_load:
  assumes "kept R s t" "rooted s R v"
  shows "load_of t v = load_of s v" "rc_type t v = rc_type s v"
proof -
  have "cell_kept s t a" if "v = HRef a" for a using assms that by (simp add: kept_def rooted_def)
  then show "load_of t v = load_of s v" "rc_type t v = rc_type s v" using cell_kept_load(1) by (cases v; simp)+
qed

lemma represents_kept:
  "represents s v e \<Longrightarrow> kept R s t \<Longrightarrow> rooted s R v \<Longrightarrow> represents t v e"
  "represents_list s v es \<Longrightarrow> kept R s t \<Longrightarrow> rooted s R v \<Longrightarrow> represents_list t v es"
proof (induction s v e and s v es rule: represents_represents_list.induct)
  case (1 s v n)
  then show ?case using kept_load [of R s t v]
    by (cases v) (auto simp: rc_number_is_exact_integer_def rc_integer_value_def boxed_exact_def)
next
  case (6 s v e es)
  with rooted_pair [of s R v] kept_load [of R s t v] show ?case by simp
qed (use kept_load in simp_all)

subsection \<open>Reading atoms\<close>

definition ready :: "ctxid \<Rightarrow> handle multiset \<Rightarrow> mem \<Rightarrow> bool" where
  "ready c R s \<longleftrightarrow> heap_ok s R \<and> symbols_wf s c \<and> c < next_ctx s"

lemma works_ready: "works c s A t B \<Longrightarrow> ready c (A + R) s \<Longrightarrow> ready c (B + R) t \<and> kept R s t"
  using worksD [of c s A t B R] by (simp add: ready_def)

lemma symbol_represents:
  assumes "rc_symbol c (Some x) s = (v, t)" "v \<noteq> HNull" "ready c R s" "c_string x = x"
  shows "represents t v (SSym x)"
proof -
  have "symbol_result s c x v t" using rc_symbol_ok(2) [OF _ _ _ assms(1), of R] assms(3) by (simp add: ready_def)
  with assms(2,4) obtain a where a: "v = HRef a" "name_of t a = x" "a \<in> interned t c" and wf: "symbols_wf t c"
    by (auto simp: symbol_result_def)
  from symbols_wfD(3) [OF wf a(3)] a(1,2) show ?thesis by (simp add: symbol_cell_def name_of_def)
qed

lemma string_represents:
  assumes "rc_string_n c (Some x) s = (v, t)" "v \<noteq> HNull" "ready c R s"
  shows "represents t v (SStr x)"
  using rc_string_n_ok [OF _ _ assms(1,2), of R] assms(2,3) by (simp add: ready_def rc_text_def split: if_splits)

lemma integer_represents:
  assumes "rc_integer c n s = (v, t)" "v \<noteq> HNull" "ready c R s"
  shows "represents t v (SInt n)"
proof -
  have "rc_integer_value t v = n" "rc_number_is_exact_integer t v"
    using rc_integer_value [OF _ _ assms(1,2), of R] assms(3) by (simp_all add: ready_def)
  then show ?thesis by (cases v) (auto simp: rc_number_is_exact_integer_def)
qed

lemma token_span:
  assumes "\<forall>y\<in>set w. \<not> delimiter y" "q = [] \<or> delimiter (hd q)"
  shows "takeWhile (\<lambda>x. \<not> delimiter x) (w @ q) = w" "dropWhile (\<lambda>x. \<not> delimiter x) (w @ q) = q"
  using assms by (cases q; simp)+

lemma read_token_value:
  assumes "read_token c (w @ q) s = (v, rest, t)" "v \<noteq> HNull" "\<forall>y\<in>set w. \<not> delimiter y" "q = [] \<or> delimiter (hd q)"
  obtains u where "library_call s = (True, u)" "rest = q" "\<not> (decimal_token w \<and> strtod_range_error w)"
    "(if decimal_token w then (case strtoll w of Some n \<Rightarrow> rc_integer c n u | None \<Rightarrow> rc_number c (strtod w) u)
      else rc_symbol c (Some w) u) = (v, t)"
proof -
  obtain okay u where l: "library_call s = (okay, u)" by fastforce
  obtain x y where b: "(if decimal_token w \<and> strtod_range_error w
    then rc_fail c (''KLambda reader: number out of range: '' @ w) u
    else if decimal_token w
    then (case strtoll w of Some n \<Rightarrow> rc_integer c n u | None \<Rightarrow> rc_number c (strtod w) u)
    else rc_symbol c (Some w) u) = (x, y)" using prod.exhaust by blast
  have e: "(if \<not> okay then (HNull, q, rc_error c ''KLambda reader: out of memory'' u) else (x, q, y)) = (v, rest, t)"
    using assms(1) unfolding read_token_def Let_def token_span [OF assms(3,4)] l prod.case b by simp
  then have ok: okay "rest = q" "x = v" "y = t" using assms(2) by (auto split: if_splits)
  have nr: "\<not> (decimal_token w \<and> strtod_range_error w)"
  proof
    assume r: "decimal_token w \<and> strtod_range_error w"
    have "rc_fail c (''KLambda reader: number out of range: '' @ w) u = (v, t)" using b unfolding if_P [OF r] ok(3,4) .
    with assms(2) show False by (simp add: rc_fail_def)
  qed
  show thesis
    by (rule that [of u]) (use l ok nr b [unfolded if_not_P [OF nr] ok(3,4)] in simp_all)
qed

lemma read_atom:
  assumes "read_token c (render e @ q) s = (v, rest, t)" "v \<noteq> HNull" "q = [] \<or> delimiter (hd q)" "ready c R s"
    and e: "(\<exists>n. e = SInt n) \<or> (\<exists>x. e = SSym x)" "printable d e"
  shows "rest = q \<and> represents t v e"
proof -
  have nd: "\<forall>y\<in>set (render e). \<not> delimiter y" using e show_int_chars by auto
  obtain u where u: "library_call s = (True, u)" "rest = q"
    "(if decimal_token (render e) then (case strtoll (render e) of Some n \<Rightarrow> rc_integer c n u | None \<Rightarrow> rc_number c (strtod (render e)) u)
      else rc_symbol c (Some (render e)) u) = (v, t)"
    by (rule read_token_value [OF assms(1,2) nd assms(3)])
  have ru: "ready c R u" using works_ready [OF works_library_call [OF u(1)], of c "{#}" R] assms(4) by simp
  from e(1) show ?thesis
  proof
    assume "\<exists>n. e = SInt n"
    then obtain n where n: "e = SInt n" by blast
    then have "strtoll (show_int n) = Some n" using e(2) by (intro show_int_strtoll) simp_all
    with u n show_int_decimal have "rc_integer c n u = (v, t)" by simp
    from integer_represents [OF this assms(2) ru] n u(2) show ?thesis by (simp only:)
  next
    assume "\<exists>x. e = SSym x"
    then obtain x where x: "e = SSym x" by blast
    with u e(2) have "rc_symbol c (Some x) u = (v, t)" by simp
    moreover have "c_string x = x" using e(2) x by (simp add: c_string_def takeWhile_eq_all_conv)
    ultimately have "represents t v (SSym x)" by (intro symbol_represents [OF _ assms(2) ru])
    with x u(2) show ?thesis by (simp only:)
  qed
qed

lemma read_quoted:
  assumes "read_string c (x @ CHR 0x22 # q) s = (v, rest, t)" "v \<noteq> HNull" "ready c R s" "\<forall>y\<in>set x. y \<noteq> CHR 0x22"
  shows "rest = q \<and> represents t v (SStr x)"
proof -
  have "takeWhile (\<lambda>y. y \<noteq> CHR 0x22) (x @ CHR 0x22 # q) = x" "dropWhile (\<lambda>y. y \<noteq> CHR 0x22) (x @ CHR 0x22 # q) = CHR 0x22 # q"
    using assms(4) by simp_all
  with assms(1) have "rest = q" "rc_string_n c (Some x) s = (v, t)"
    unfolding read_string_def by (simp_all split: prod.splits)
  with string_represents [OF _ assms(2,3)] show ?thesis by blast
qed

subsection \<open>Building a list\<close>

lemma build_list_represents:
  assumes "build_list c xs r s = (v, t)" "v \<noteq> HNull" "ready c (add_mset r (mset xs) + R) s"
    and "list_all2 (represents s) xs es" "represents_list s r fs"
  shows "represents_list t v (rev es @ fs)"
  using assms
proof (induction xs arbitrary: r s es fs)
  case (Cons x xs)
  obtain w u where k: "rc_cons c x r s = (w, u)" by fastforce
  let ?u = "rc_release r (rc_release x u)" and ?A = "add_mset r (mset (x # xs))"
  from Cons.prems(4) obtain e es' where es: "es = e # es'" "represents s x e" "list_all2 (represents s) xs es'"
    by (auto simp: list_all2_Cons1)
  have w: "w \<noteq> HNull" and b: "build_list c xs w ?u = (v, t)" using Cons.prems(1,2) k by (auto simp: Let_def split: if_splits)
  have vd: "valid s x" "valid s r" using Cons.prems(3) valid_owned [of s "?A + R"] by (simp_all add: ready_def)
  have m: "works c s ?A u (add_mset w ?A)" by (rule works_cons [OF k]) simp_all
  have ru: "ready c (add_mset w ?A + R) u" using works_ready [OF m Cons.prems(3)] by simp
  have g: "kept (?A + R) s u"
    using works_ready [of c s "{#}" u "{#w#}" "?A + R"] works_moves [OF moves_rc_cons [OF _ vd k], of c] Cons.prems(3) by simp
  obtain a where a: "w = HRef a" "load (cell_at u a) = VPair x r"
  proof -
    have ok: "heap_ok s (?A + R)" "c < next_ctx s" using Cons.prems(3) by (simp_all add: ready_def)
    have "\<exists>a. w = HRef a" using k
    proof (cases rule: rc_cons_cases)
      case (failed s1)
      with allocate_failed(1) [OF ok(1,2) _ failed(1)] w show ?thesis by simp
    qed (use w in auto)
    then show thesis using that rc_cons_result(2) [OF ok vd] k by blast
  qed
  have rep: "represents u y f" if "represents s y f" "y \<in># ?A" for y f
    by (rule represents_kept(1) [OF that(1) g rooted_root]) (use that(2) in auto)
  have repl: "represents_list u r fs" by (rule represents_kept(2) [OF Cons.prems(5) g rooted_root]) simp
  have pair: "represents_list u w (e # fs)" using a rep [OF es(2)] repl by simp
  have rel: "works c u (add_mset x (add_mset r (add_mset w (mset xs)))) ?u (add_mset w (mset xs))"
    by (rule works_trans [OF works_release works_release])
  have "ready c (add_mset x (add_mset r (add_mset w (mset xs))) + R) u" using ru by (simp add: add_mset_commute)
  from works_ready [OF rel this] have r2: "ready c (add_mset w (mset xs) + R) ?u" by simp
  have "works c u {#x, r#} ?u {#}" using works_trans [OF works_release works_release] by simp
  moreover have "ready c ({#x, r#} + (add_mset w (mset xs) + R)) u" using ru by (simp add: add_mset_commute)
  ultimately have k2: "kept (add_mset w (mset xs) + R) u ?u" using works_ready by blast
  have "represents_list ?u w (e # fs)" by (rule represents_kept(2) [OF pair k2 rooted_root]) simp
  moreover have "list_all2 (represents ?u) xs es'"
    using es(3)
  proof (rule list.rel_mono_strong)
    fix y f assume "y \<in> set xs" "f \<in> set es'" "represents s y f"
    then show "represents ?u y f" using represents_kept(1) [OF rep k2 rooted_root] by simp
  qed
  ultimately show ?case using Cons.IH [OF b Cons.prems(2) r2] es(1) by simp
qed simp

subsection \<open>Reading what was printed\<close>

lemma render_head:
  assumes "printable d e"
  obtains x r where "render e = x # r" "\<not> c_isspace x" "x \<noteq> CHR '')''" "x = CHR ''('' \<longleftrightarrow> (\<exists>es. e = SList es)"
    "x = CHR 0x22 \<longleftrightarrow> (\<exists>y. e = SStr y)"
proof (cases e)
  case (SInt n)
  obtain x r where x: "show_int n = x # r" using show_int_chars(2) [of n] by (cases "show_int n") auto
  then have "\<not> delimiter x" using show_int_chars(1) [of x n] by simp
  with x SInt that show thesis by (auto simp: delimiter_def)
next
  case (SSym w)
  then obtain x r where x: "w = x # r" using assms by (cases w) auto
  with SSym assms have "\<not> delimiter x" by simp
  with x SSym that show thesis by (auto simp: delimiter_def)
qed (use that in \<open>auto simp: quoted_def c_isspace_def\<close>)

lemma skip_render: "printable d e \<Longrightarrow> skip_space (render e @ q) = render e @ q"
  by (rule render_head [of d e]) (auto simp: skip_space_def)

lemma skip_items: "printable_items d n es \<Longrightarrow> skip_space (render_items first es @ q) = render_items True es @ q"
proof (cases es)
  case Nil
  then show ?thesis by (simp add: skip_space_def c_isspace_def)
next
  case (Cons e es')
  assume "printable_items d n es"
  then have "skip_space (render e @ render_items False es' @ q) = render e @ render_items False es' @ q"
    using Cons skip_render [of "d + 1" e] by simp
  with Cons show ?thesis by (auto simp: skip_space_def c_isspace_def)
qed

lemma items_delimiter: "delimiter (hd (render_items False es @ q)) \<and> render_items False es @ q \<noteq> []"
  by (cases es) (simp_all add: delimiter_def c_isspace_def)

lemma read_render:
  "read_form k c p d False s = Some (v, rest, t) \<Longrightarrow> skip_space p = render e @ q \<Longrightarrow> q = [] \<or> delimiter (hd q) \<Longrightarrow>
     printable d e \<Longrightarrow> v \<noteq> HNull \<Longrightarrow> ready c R s \<Longrightarrow> rest = q \<and> represents t v e"
  "read_items k c p d False its cap s = Some (True, its', rest, t) \<Longrightarrow> skip_space p = render_items True es @ q \<Longrightarrow>
     printable_items d n es \<Longrightarrow> ready c R s \<Longrightarrow> rest = q \<and> (\<exists>vs. its' = rev vs @ its \<and> list_all2 (represents t) vs es)"
proof (induction k arbitrary: p d s v rest t e q R its cap its' es n)
  case (Suc k)
  {
    case 1
    obtain x r where xr: "render e = x # r" "\<not> c_isspace x" "x \<noteq> CHR '')''" "x = CHR ''('' \<longleftrightarrow> (\<exists>es. e = SList es)"
      "x = CHR 0x22 \<longleftrightarrow> (\<exists>y. e = SStr y)" by (rule render_head [OF 1(4)])
    have sk: "skip_space p = x # (r @ q)" using 1(2) xr(1) by simp
    have "d \<le> 256" using 1(4) by (cases e) simp_all
    then have go: "\<not> (d > 2048 \<or> x = CHR '')'')" using xr(3) by simp
    show ?case
    proof (cases "x = CHR ''(''")
      case True
      then obtain es where e: "e = SList es" using xr(4) by blast
      have rq: "r @ q = render_items True es @ q" using xr(1) e by simp
      obtain cl its p' s' where it: "read_items k c (r @ q) d False [] 0 s = Some (cl, its, p', s')"
        using 1(1) unfolding read_form_open [OF sk go True] by (cases "read_items k c (r @ q) d False [] 0 s") auto
      have step: "(if cl then let (v, s) = build_list c its HNil s' in Some (v, p', s) else Some (HNull, p', fold rc_release its s')) =
          Some (v, rest, t)" using 1(1) unfolding read_form_open [OF sk go True] it by simp
      then have cl: cl using 1(5) by (cases cl) auto
      with step obtain b: "build_list c its HNil s' = (v, t)" and rest: "rest = p'" by (auto split: prod.splits)
      have pi: "printable_items d 0 es" using 1(4) e by simp
      have "skip_space (r @ q) = render_items True es @ q" unfolding rq by (rule skip_items [OF pi])
      from Suc.IH(2) [OF it [unfolded eqTrueI [OF cl]] this pi 1(6)] obtain vs where
        vs: "p' = q" "its = rev vs" "list_all2 (represents s') vs es" by auto
      from reader_ok(2) [OF it] have "works c s {#} s' (mset its)" by (simp add: items_ok_def)
      from works_ready [OF this, of R] 1(6) have "ready c (add_mset HNil (mset its) + R) s'" by (simp add: ready_def)
      from build_list_represents [OF b 1(5) this, of "rev es" "[]"] vs have "represents_list t v es" by simp
      with e vs(1) rest show ?thesis by simp
    next
      case b: False
      note step = 1(1) [unfolded read_form_atom [OF sk go b]]
      show ?thesis
      proof (cases "x = CHR 0x22")
        case True
        then obtain y where e: "e = SStr y" using xr(5) by blast
        then have "r @ q = y @ CHR 0x22 # q" using xr(1) by (auto simp: quoted_def)
        with step True have "read_string c (y @ CHR 0x22 # q) s = (v, rest, t)" by simp
        from read_quoted [OF this 1(5,6)] e 1(4) show ?thesis by (simp only:) simp
      next
        case False
        with step xr(1) have "read_token c (render e @ q) s = (v, rest, t)" by simp
        moreover have "(\<exists>n. e = SInt n) \<or> (\<exists>x. e = SSym x)" using xr(4,5) b False by (cases e) auto
        ultimately show ?thesis using read_atom 1 by blast
      qed
    qed
  next
    case 2
    show ?case
    proof (cases es)
      case Nil
      then have "skip_space p = CHR '')'' # q" using 2(2) by simp
      from 2(1) read_items_close [OF this refl] Nil show ?thesis by (intro conjI exI [of _ "[]"]) simp_all
    next
      case (Cons e es')
      have pe: "printable (d + 1) e" "printable_items d (n + 1) es'" using 2(3) Cons by simp_all
      obtain x r where xr: "render e = x # r" "x \<noteq> CHR '')''" by (rule render_head [OF pe(1)])
      let ?q = "render_items False es' @ q"
      have sk: "skip_space p = x # (r @ ?q)" using 2(2) Cons xr(1) by simp
      obtain item q1 u where f: "read_form k c (x # (r @ ?q)) (d + 1) False s = Some (item, q1, u)"
        using 2(1) read_items_stuck [OF sk xr(2)] by (cases "read_form k c (x # (r @ ?q)) (d + 1) False s") auto
      obtain cap' w where pu: "push_item c item (length its) cap u = (cap', w)" by fastforce
      note step = 2(1) [unfolded read_items_next [OF sk xr(2) f pu]]
      obtain cap2 where ne: "item \<noteq> HNull" and c2: "cap' = Some cap2"
        and ri: "read_items k c q1 d False (item # its) cap2 w = Some (True, its', rest, t)"
        using step by (cases cap') (auto split: if_splits)
      have "skip_space (x # (r @ ?q)) = render e @ ?q" using skip_render [OF pe(1), of ?q] xr(1) by simp
      with Suc.IH(1) [OF f this _ pe(1) ne 2(4)] items_delimiter have F: "q1 = ?q" "represents u item e" by blast+
      have w1: "works c s {#} u {#item#}" using reader_ok(1) [OF f] by (simp add: form_ok_def)
      then have ru: "ready c (add_mset item R) u" using works_ready [OF w1, of R] 2(4) by simp
      have w2: "works c u {#} w {#}" using push_item_works(2) [OF pu] c2 by simp
      have rw: "ready c (add_mset item R) w" "kept (add_mset item R) u w" using works_ready [OF w2, of "add_mset item R"] ru by simp_all
      have "skip_space q1 = render_items True es' @ q" unfolding F(1) by (rule skip_items [OF pe(2)])
      from Suc.IH(2) [OF ri this pe(2) rw(1)] obtain vs where
        vs: "rest = q" "its' = rev vs @ item # its" "list_all2 (represents t) vs es'" by blast
      from reader_ok(2) [OF ri] obtain new where "works c w {#} t (mset new)" by (auto simp: items_ok_def)
      from works_ready [OF this, of "add_mset item R"] rw(1) have "kept (add_mset item R) w t" by simp
      with rw(2) have "kept (add_mset item R) u t" by (rule kept_trans)
      from represents_kept(1) [OF F(2) this rooted_root] have "represents t item e" by simp
      with vs Cons show ?thesis by (intro conjI exI [of _ "item # vs"]) simp_all
    qed
  }
qed simp_all

lemma render_no_nul:
  "printable d e \<Longrightarrow> CHR 0x00 \<notin> set (render e)"
  "printable_items d n es \<Longrightarrow> CHR 0x00 \<notin> set (render_items first es)"
proof (induction d e and d n es arbitrary: and first rule: printable_printable_items.induct)
  case (1 d n)
  then show ?case using show_int_chars(1) [of "CHR 0x00" n] by auto
next
  case (3 d x)
  then show ?case by (auto simp: quoted_def)
qed auto

text \<open>The two entry points.\<close>

lemma rc_read_render:
  assumes "rc_read c (Some (render e)) s = Some (v, rest, t)" "v \<noteq> HNull" "printable 0 e" "ready c R s"
  shows "rest = [] \<and> represents t v e"
proof -
  have "c_string (render e) = render e"
    using render_no_nul(1) [OF assms(3)] by (auto simp: c_string_def takeWhile_eq_all_conv)
  with assms(1) have "read_form (reader_fuel (render e)) c (render e) 0 False s = Some (v, rest, t)" by (simp add: rc_read_def)
  from read_render(1) [OF this _ _ assms(3,2,4), of "[]"] skip_render [OF assms(3), of "[]"] show ?thesis by simp
qed

lemma rc_read_ok:
  assumes "rc_read c src s = Some (v, rest, t) \<or> rc_read_escaped c src s = Some (v, rest, t)" "ready c R s"
  shows "ready c (add_mset v R) t \<and> kept R s t \<and> (\<forall>p. src = Some p \<longrightarrow> suffix rest (c_string p))"
proof -
  have "works c s {#} t {#v#} \<and> (\<forall>p. src = Some p \<longrightarrow> suffix rest (c_string p))"
  proof (cases src)
    case None
    with assms(1) show ?thesis by (auto simp: rc_read_def rc_read_escaped_def)
  next
    case (Some p)
    with assms(1) obtain k d b where "read_form k c (c_string p) d b s = Some (v, rest, t)"
      by (auto simp: rc_read_def rc_read_escaped_def)
    from reader_ok(1) [OF this] Some show ?thesis by (simp add: form_ok_def)
  qed
  with works_ready [of c s "{#}" t "{#v#}" R] assms(2) show ?thesis by simp
qed

lemma rc_read_total: "rc_read c src s \<noteq> None" "rc_read_escaped c src s \<noteq> None"
  using reader_total(1) [of _ "reader_fuel p" for p]
  by (simp_all add: rc_read_def rc_read_escaped_def reader_fuel_def split: option.split)

end
