(* ===== verification/Emit.thy ===== *)
theory Emit
  imports Apply Builtins Printing
begin

text \<open>
  The compile-time decisions of the C code generator (\<open>src/rc/emit.c\<close>): what it reads of an
  expression, which lexical slots are live, which pairs may be reused, how frame slots are shared,
  how string literals and frame references are written, when a kernel definition is certified, and
  the tables of constants together with the loop that the generated code runs over them.

  The emitter only reads its input, through \<open>rc_type\<close>, \<open>rc_head_borrowed\<close>, \<open>rc_tail_borrowed\<close> and
  \<open>rc_text\<close>; expressions are the trees those show. \<open>bad\<close>, a \<open>longjmp\<close> out of the emission, is \<open>Inl\<close>
  with its message. Allocation in the emission arena is taken to succeed.
\<close>

subsection \<open>Expressions\<close>

datatype tree = TNull | TNil | TSymbol string | TInteger int | TReal dbl | TString string | TPair tree tree
  | TOther RcType addr  \<comment> \<open>closures, vectors and the like, which no source form contains\<close>

fun tree_type :: "tree \<Rightarrow> RcType" where
  "tree_type (TSymbol _) = RC_SYMBOL"
| "tree_type (TInteger _) = RC_NUMBER"
| "tree_type (TReal _) = RC_NUMBER"
| "tree_type (TString _) = RC_STRING"
| "tree_type (TPair _ _) = RC_PAIR"
| "tree_type (TOther t _) = t"
| "tree_type _ = RC_NIL"

fun is_symbol :: "tree \<Rightarrow> bool" where
  "is_symbol (TSymbol _) = True"
| "is_symbol _ = False"

fun is_pair :: "tree \<Rightarrow> bool" where
  "is_pair (TPair _ _) = True"
| "is_pair _ = False"

fun first :: "tree \<Rightarrow> tree" where
  "first (TPair h _) = h"
| "first _ = TNull"

fun rest :: "tree \<Rightarrow> tree" where
  "rest (TPair _ t) = t"
| "rest _ = TNull"

definition second :: "tree \<Rightarrow> tree" where
  "second x = first (rest x)"

definition named :: "tree \<Rightarrow> string \<Rightarrow> bool" where
  "named x s \<longleftrightarrow> x = TSymbol s"

fun name :: "tree \<Rightarrow> string" where
  "name (TSymbol s) = s"
| "name (TString s) = s"
| "name _ = []"

fun arg_count :: "tree \<Rightarrow> string + nat" where
  \<comment> \<open>\<open>count\<close>\<close>
  "arg_count TNil = Inr 0"
| "arg_count (TPair _ r) = (case arg_count r of Inl e \<Rightarrow> Inl e | Inr n \<Rightarrow> Inr (n + 1))"
| "arg_count _ = Inl ''rc emit: improper argument list''"

fun arg_at :: "tree \<Rightarrow> nat \<Rightarrow> string + tree" where
  "arg_at (TPair h _) 0 = Inr h"
| "arg_at (TPair _ t) (Suc n) = arg_at t n"
| "arg_at _ _ = Inl ''rc emit: missing special form argument''"

fun constructors :: "tree \<Rightarrow> nat" where
  "constructors (TPair y r) = (if named y ''cons'' \<or> named y ''protect'' then 1 else constructors y) + constructors r"
| "constructors _ = 0"

lemma arg_at_size: "arg_at x n = Inr y \<Longrightarrow> size y < size x"
  by (induction x n rule: arg_at.induct) auto

subsection \<open>Text\<close>

definition octal3 :: "nat \<Rightarrow> string" where
  \<comment> \<open>\<open>%03o\<close> of a byte\<close>
  "octal3 n = [char_of (48 + n div 64 mod 8), char_of (48 + n div 8 mod 8), char_of (48 + n mod 8)]"

definition quoted_char :: "char \<Rightarrow> string" where
  "quoted_char c =
     (if c = CHR 0x22 \<or> c = CHR 0x5C then [CHR 0x5C, c]
      else if (of_char c :: nat) < 32 \<or> of_char c \<ge> (127 :: nat) then CHR 0x5C # octal3 (of_char c)
      else [c])"

definition quoted_n :: "string \<Rightarrow> string" where
  "quoted_n s = [CHR 0x22] @ concat (map quoted_char s) @ [CHR 0x22]"

definition c_digit :: "char \<Rightarrow> bool" where
  "c_digit c \<longleftrightarrow> (of_char c :: nat) \<in> {48 .. 57}"

definition c_ident :: "char \<Rightarrow> bool" where
  "c_ident c \<longleftrightarrow> (of_char c :: nat) \<in> {97 .. 122} \<union> {65 .. 90} \<or> c_digit c \<or> c = CHR ''_''"

definition is_identifier :: "string \<Rightarrow> bool" where
  "is_identifier s \<longleftrightarrow> s \<noteq> [] \<and> (\<forall>c\<in>set s. c_ident c) \<and> \<not> c_digit (hd s)"

subsection \<open>Frames\<close>

text \<open>\<open>RcEmitFn\<close>, as far as these decisions read it: the lexical bindings in the order they were
  made, and per logical slot its frame slot and its flags. The top of \<open>free_slots\<close> is its head.\<close>

record frame =
  conservative :: bool  \<comment> \<open>\<open>p->options.conservative_ownership\<close>\<close>
  bindings :: "(string \<times> nat) list"
  slots :: nat
  physical :: "nat list"
  free_slots :: "nat list"
  active :: "bool list"
  borrowed_fn :: "bool list"
  blex :: "nat list"  \<comment> \<open>\<open>i + 1\<close>: capture \<open>i\<close> of the closure\<close>
  fuse :: "bool list"
  fuse_left :: "nat list"
  frame_slots :: nat

definition binding :: "(string \<times> nat) list \<Rightarrow> string \<Rightarrow> nat option" where
  "binding bs s = map_of (rev bs) s"

definition bind :: "frame \<Rightarrow> string \<Rightarrow> nat \<Rightarrow> frame" where
  "bind f s slot = f\<lparr>bindings := bindings f @ [(s, slot)]\<rparr>"

definition fresh :: "frame \<Rightarrow> nat \<times> frame" where
  "fresh f =
     (let slot = slots f;
          (p, free, n) = (case free_slots f of
                            q # qs \<Rightarrow> (q, qs, frame_slots f)
                          | [] \<Rightarrow> (frame_slots f, [], frame_slots f + 1))
      in (slot, f\<lparr>slots := slot + 1, physical := physical f @ [p], free_slots := free, frame_slots := n,
                 active := active f @ [True], borrowed_fn := borrowed_fn f @ [False], blex := blex f @ [0],
                 fuse := fuse f @ [False], fuse_left := fuse_left f @ [0]\<rparr>))"

definition retire_slot :: "nat option \<Rightarrow> nat \<Rightarrow> frame \<Rightarrow> frame" where
  "retire_slot result i f =
     (if Some i \<noteq> result \<and> active f ! i
      then f\<lparr>active := (active f)[i := False], free_slots := physical f ! i # free_slots f\<rparr> else f)"

definition retire_scope :: "frame \<Rightarrow> nat \<Rightarrow> nat option \<Rightarrow> frame" where
  "retire_scope f mark result =
     (if conservative f then f else fold (retire_slot result) [mark ..< slots f] f)"

definition optimize :: "frame \<Rightarrow> bool" where
  "optimize f \<longleftrightarrow> \<not> conservative f"

fun skip_quote :: "char \<Rightarrow> string \<Rightarrow> string \<times> string" where
  \<comment> \<open>a literal up to its closing quote, and what follows\<close>
  "skip_quote q [] = ([], [])"
| "skip_quote q [c] = ([c], [])"
| "skip_quote q (c # d # cs) =
     (if c = CHR 0x5C then (let (a, b) = skip_quote q cs in (c # d # a, b))
      else if c = q then ([c], d # cs)
      else (let (a, b) = skip_quote q (d # cs) in (c # a, b)))"

lemma skip_quote_length: "length (snd (skip_quote q s)) \<le> length s"
  by (induction q s rule: skip_quote.induct) (auto split: prod.splits)

definition frame_reference :: "frame \<Rightarrow> nat \<Rightarrow> string" where
  "frame_reference f slot =
     (if borrowed_fn f ! slot then ''bf['' @ digits_of (physical f ! slot) @ '']''
      else if blex f ! slot > 0 then ''self->as.closure.captures['' @ digits_of (blex f ! slot - 1) @ '']''
      else ''t['' @ digits_of (physical f ! slot) @ '']'')"

definition decimal_value :: "string \<Rightarrow> nat" where
  "decimal_value s = foldl (\<lambda>n c. n * 10 + (of_char c - 48)) 0 s"

definition slot_reference :: "frame \<Rightarrow> string \<Rightarrow> (nat \<times> string) option" where
  \<comment> \<open>the text starts with a reference \<open>t[slot]\<close>: its slot, and the text after it\<close>
  "slot_reference f s =
     (if take 2 s = ''t['' \<and> takeWhile c_digit (drop 2 s) \<noteq> [] \<and> take 1 (dropWhile c_digit (drop 2 s)) = '']'' \<and>
         decimal_value (takeWhile c_digit (drop 2 s)) < slots f
      then Some (decimal_value (takeWhile c_digit (drop 2 s)), drop 1 (dropWhile c_digit (drop 2 s)))
      else None)"

lemma slot_reference_length: "slot_reference f s = Some (n, r) \<Longrightarrow> length r < length s"
  using length_dropWhile_le [of c_digit "drop 2 s"]
  by (auto simp: slot_reference_def split: if_splits) (cases s; simp)

function rewrite_frame_code :: "frame \<Rightarrow> char option \<Rightarrow> string \<Rightarrow> string" where
  \<comment> \<open>\<open>before\<close> is the character before the text\<close>
  "rewrite_frame_code f before [] = []"
| "rewrite_frame_code f before (c # cs) =
     (if c = CHR 0x22 \<or> c = CHR 0x27
      then let (lit, r) = skip_quote c cs in c # lit @ rewrite_frame_code f (Some (last (c # lit))) r
      else case (if before = None \<or> \<not> c_ident (the before) then slot_reference f (c # cs) else None) of
             Some (slot, r) \<Rightarrow> frame_reference f slot @ rewrite_frame_code f (Some (CHR '']'')) r
           | None \<Rightarrow> c # rewrite_frame_code f (Some c) cs)"
  by pat_completeness auto
termination
proof (relation "measure (\<lambda>(f, b, s). length s)")
  fix f :: frame and before c cs x lit r
  assume "x = skip_quote c cs" "(lit, r) = x"
  then have "length r \<le> length cs" using skip_quote_length [of c cs] by (metis snd_conv)
  then show "((f, Some (last (c # lit)), r), f, before, c # cs) \<in> measure (\<lambda>(f, b, s). length s)" by simp
next
  fix f :: frame and before c cs x slot r
  assume "(if before = None \<or> \<not> c_ident (the before) then slot_reference f (c # cs) else None) = Some x" "(slot, r) = x"
  then have "slot_reference f (c # cs) = Some (slot, r)" by (auto split: if_splits)
  from slot_reference_length [OF this]
  show "((f, Some (CHR '']''), r), f, before, c # cs) \<in> measure (\<lambda>(f, b, s). length s)" by simp
qed simp_all

subsection \<open>Liveness\<close>

text \<open>A set of slots is a list without repetitions, in the order the slots were added.\<close>

definition add_slot :: "nat list \<Rightarrow> nat option \<Rightarrow> nat list" where
  "add_slot s slot = (case slot of None \<Rightarrow> s | Some i \<Rightarrow> if i \<in> set s then s else s @ [i])"

definition merge_live :: "nat list \<Rightarrow> nat list \<Rightarrow> nat list" where
  "merge_live dst src = foldl (\<lambda>l i. add_slot l (Some i)) dst src"

definition copy_live :: "nat list \<Rightarrow> nat list" where
  "copy_live src = merge_live [] src"

fun special_head :: "(string \<times> nat) list \<Rightarrow> string list \<Rightarrow> tree \<Rightarrow> bool" where
  "special_head bs scope (TSymbol n) \<longleftrightarrow> binding bs n = None \<and> n \<notin> set scope"
| "special_head bs scope _ \<longleftrightarrow> False"

lemma arg_count_sizes:
  "arg_count args = Inr 3 \<Longrightarrow> size (second args) < size args"
  "arg_count args = Inr 2 \<Longrightarrow> size (first args) < size args \<and> size (second args) < size args"
  by (auto simp: second_def elim!: arg_count.elims split: sum.splits)

function scan :: "(string \<times> nat) list \<Rightarrow> string list \<Rightarrow> tree \<Rightarrow> nat list \<Rightarrow> string + nat list"
  and scan_items :: "(string \<times> nat) list \<Rightarrow> string list \<Rightarrow> tree \<Rightarrow> nat list \<Rightarrow> string + nat list" where
  "scan bs scope x acc =
     (if bs = [] then Inr acc
      else case x of
        TSymbol n \<Rightarrow> Inr (if n \<in> set scope then acc else add_slot acc (binding bs n))
      | TPair h args \<Rightarrow>
          if special_head bs scope h \<and> named h ''defun'' then Inr acc
          else if special_head bs scope h \<and> named h ''type''
          then (case arg_at args 0 of Inl e \<Rightarrow> Inl e | Inr a \<Rightarrow> scan bs scope a acc)
          else (case (if special_head bs scope h \<and> (named h ''let'' \<or> named h ''lambda'' \<or> named h ''do'') then arg_count args else Inr 0) of
            Inl e \<Rightarrow> Inl e
          | Inr n \<Rightarrow>
              if special_head bs scope h \<and> named h ''let'' \<and> n = 3 \<and> is_symbol (first args)
              then (case scan bs scope (second args) acc of
                      Inl e \<Rightarrow> Inl e
                    | Inr acc \<Rightarrow> (case arg_at args 2 of
                          Inl e \<Rightarrow> Inl e | Inr body \<Rightarrow> scan bs (name (first args) # scope) body acc))
              else if special_head bs scope h \<and> named h ''lambda'' \<and> n = 2 \<and> is_symbol (first args)
              then scan bs (name (first args) # scope) (second args) acc
              else if special_head bs scope h \<and> named h ''do'' \<and> n = 2
              then (case scan bs scope (first args) acc of Inl e \<Rightarrow> Inl e | Inr acc \<Rightarrow> scan bs scope (second args) acc)
              else (case scan bs scope h acc of Inl e \<Rightarrow> Inl e | Inr acc \<Rightarrow> scan_items bs scope args acc))
      | _ \<Rightarrow> Inr acc)"
| "scan_items bs scope p acc =
     (case p of
        TNil \<Rightarrow> Inr acc
      | TPair a r \<Rightarrow> (case scan bs scope a acc of Inl e \<Rightarrow> Inl e | Inr acc \<Rightarrow> scan_items bs scope r acc)
      | _ \<Rightarrow> Inl ''rc emit: improper expression'')"
  by pat_completeness auto

termination
  by (relation "measure (\<lambda>z. case z of Inl (bs, sc, x, acc) \<Rightarrow> 2 * size x | Inr (bs, sc, x, acc) \<Rightarrow> 2 * size x + 1)")
    (auto dest: arg_at_size arg_count_sizes)

definition uses :: "frame \<Rightarrow> tree \<Rightarrow> string + nat list" where
  "uses f x = (if optimize f then scan (bindings f) [] x [] else Inr [])"

fun sequence_items :: "(string \<times> nat) list \<Rightarrow> tree \<Rightarrow> nat list \<Rightarrow> string + nat list" where
  "sequence_items bs TNil acc = Inr acc"
| "sequence_items bs (TPair a r) acc =
     (case scan bs [] a acc of Inl e \<Rightarrow> Inl e | Inr acc \<Rightarrow> sequence_items bs r acc)"
| "sequence_items bs _ acc = Inl ''rc emit: improper sequence''"

definition sequence_live :: "frame \<Rightarrow> tree \<Rightarrow> nat list \<Rightarrow> string + nat list" where
  "sequence_live f expressions after =
     (if optimize f then sequence_items (bindings f) expressions (copy_live after) else Inr (copy_live after))"

subsection \<open>Dropping dead lexicals\<close>

definition drop_text :: "frame \<Rightarrow> nat \<Rightarrow> string" where
  \<comment> \<open>\<open>drop\<close>: what it appends to the code\<close>
  "drop_text f x =
     (if blex f ! x > 0 \<or> borrowed_fn f ! x then []
      else ''  if(t['' @ digits_of x @ '']) rc_release(t['' @ digits_of x @ '']); t['' @ digits_of x @ '']=NULL;'' @ [CHR 0x0A])"

definition check_text :: "string \<Rightarrow> nat \<Rightarrow> string" where
  "check_text fail x = ''  if(!t['' @ digits_of x @ '']) goto '' @ fail @ '';'' @ [CHR 0x0A]"

definition move_text :: "nat \<Rightarrow> nat \<Rightarrow> string" where
  "move_text dst src =
     ''  t['' @ digits_of dst @ '']=t['' @ digits_of src @ '']; t['' @ digits_of src @ '']=NULL;'' @ [CHR 0x0A]"

definition argument_text :: "nat \<Rightarrow> nat \<Rightarrow> string" where
  "argument_text index slot = ''  a['' @ digits_of index @ '']=t['' @ digits_of slot @ ''];'' @ [CHR 0x0A]"

definition drop_range_text :: "nat \<times> nat \<Rightarrow> string" where
  "drop_range_text r = ''  rc_drop_range(t,'' @ digits_of (fst r) @ '','' @ digits_of (snd r) @ '');'' @ [CHR 0x0A]"

fun frame_runs :: "nat \<Rightarrow> nat \<Rightarrow> nat list \<Rightarrow> (nat \<times> nat) list" where
  \<comment> \<open>the loop of \<open>dead_range\<close>: neighbours in the frame share one range\<close>
  "frame_runs begin limit [] = [(begin, limit)]"
| "frame_runs begin limit (p # ps) =
     (if p = limit then frame_runs begin (limit + 1) ps else (begin, limit) # frame_runs p (p + 1) ps)"

definition dead_ranges :: "frame \<Rightarrow> nat \<Rightarrow> nat \<Rightarrow> (nat \<times> nat) list" where
  \<comment> \<open>the frame slots that \<open>dead_range\<close> drops, as ranges\<close>
  "dead_ranges f start stop =
     frame_runs (physical f ! start) (physical f ! start + 1) (map ((!) (physical f)) [start + 1 ..< stop])"

definition dead_range :: "frame \<Rightarrow> nat \<times> nat \<Rightarrow> string" where
  "dead_range f r =
     (if snd r = fst r + 1 then drop_text f (fst r)
      else concat (map drop_range_text (dead_ranges f (fst r) (snd r))))"

fun dead_runs :: "nat list \<Rightarrow> (nat \<times> nat) option \<Rightarrow> nat list \<Rightarrow> (nat \<times> nat) list" where
  \<comment> \<open>the loop of \<open>drop_dead\<close>: runs of neighbouring logical slots\<close>
  "dead_runs keep cur [] = (case cur of None \<Rightarrow> [] | Some r \<Rightarrow> [r])"
| "dead_runs keep cur (i # js) =
     (if i \<in> set keep then (case cur of None \<Rightarrow> [] | Some r \<Rightarrow> [r]) @ dead_runs keep None js
      else case cur of
             None \<Rightarrow> dead_runs keep (Some (i, i + 1)) js
           | Some (a, e) \<Rightarrow>
               if i = e then dead_runs keep (Some (a, e + 1)) js
               else (a, e) # dead_runs keep (Some (i, i + 1)) js)"

definition drop_dead :: "frame \<Rightarrow> nat list \<Rightarrow> string" where
  "drop_dead f keep =
     (if \<not> optimize f then [] else concat (map (dead_range f) (dead_runs keep None (map snd (bindings f)))))"

subsection \<open>Projections and reuse\<close>

record proj_use =
  total :: nat
  heads :: nat
  tails :: nat
  scan_budget :: nat

definition RC_PROJECTION_BUDGET :: nat where "RC_PROJECTION_BUDGET = 512"

definition disqualify :: "proj_use \<Rightarrow> proj_use" where
  "disqualify u = u\<lparr>total := total u + 1000\<rparr>"

function proj_scan :: "(string \<times> nat) list \<Rightarrow> string \<Rightarrow> tree \<Rightarrow> bool \<Rightarrow> proj_use \<Rightarrow> proj_use"
  and proj_items :: "(string \<times> nat) list \<Rightarrow> string \<Rightarrow> tree \<Rightarrow> bool \<Rightarrow> proj_use \<Rightarrow> proj_use" where
  "proj_scan bs v x closed u =
     (if scan_budget u = 0 then disqualify u
      else let u = u\<lparr>scan_budget := scan_budget u - 1\<rparr>
           in case x of
                TSymbol n \<Rightarrow> if n = v then (if closed then disqualify u else u\<lparr>total := total u + 1\<rparr>) else u
              | TPair h args \<Rightarrow>
                  if is_symbol h \<and> binding bs (name h) = None
                  then if named h ''defun'' then u
                       else let u = (if (named h ''let'' \<or> named h ''lambda'') \<and> is_pair args \<and> is_symbol (first args) \<and>
                                         name (first args) \<in> {v, ''hd'', ''tl''} then disqualify u else u);
                                nested = (closed \<or> named h ''lambda'' \<or> named h ''freeze'')
                            in if (named h ''hd'' \<or> named h ''tl'') \<and> is_pair args \<and> rest args = TNil \<and> named (first args) v
                               then let u = (if nested then disqualify u else u\<lparr>total := total u + 1\<rparr>)
                                    in if named h ''hd'' then u\<lparr>heads := heads u + 1\<rparr> else u\<lparr>tails := tails u + 1\<rparr>
                               else proj_items bs v args nested u
                  else proj_items bs v x closed u
              | _ \<Rightarrow> u)"
| "proj_items bs v q closed u =
     (case q of TPair a r \<Rightarrow> proj_items bs v r closed (proj_scan bs v a closed u) | _ \<Rightarrow> u)"
  by pat_completeness auto
termination
  by (relation "measure (\<lambda>z. case z of Inl (bs, v, x, b, u) \<Rightarrow> 2 * size x + 1 | Inr (bs, v, x, b, u) \<Rightarrow> 2 * size x)") auto

declare scan.simps [simp del] scan_items.simps [simp del] proj_scan.simps [simp del] proj_items.simps [simp del]

definition proj_uses :: "(string \<times> nat) list \<Rightarrow> tree \<Rightarrow> string \<Rightarrow> proj_use" where
  "proj_uses bs x v = proj_scan bs v x False \<lparr>total = 0, heads = 0, tails = 0, scan_budget = RC_PROJECTION_BUDGET\<rparr>"

function proj_names :: "frame \<Rightarrow> nat list \<Rightarrow> nat \<Rightarrow> tree \<Rightarrow> string list \<times> nat \<Rightarrow> string list \<times> nat"
  and proj_names_items :: "frame \<Rightarrow> nat list \<Rightarrow> nat \<Rightarrow> tree \<Rightarrow> string list \<times> nat \<Rightarrow> string list \<times> nat" where
  "proj_names f after cap x st =
     (case x of
        TPair h args \<Rightarrow>
          (case st of (names, left) \<Rightarrow>
             if left = 0 then st
             else if (named h ''hd'' \<or> named h ''tl'') \<and> binding (bindings f) (name h) = None \<and> is_pair args \<and> is_symbol (first args)
             then (case binding (bindings f) (name (first args)) of
                     Some b \<Rightarrow> if blex f ! b = 0 \<and> \<not> borrowed_fn f ! b \<and> b \<notin> set after \<and>
                                  name (first args) \<notin> set names \<and> length names < cap
                               then (names @ [name (first args)], left - 1) else (names, left - 1)
                   | None \<Rightarrow> (names, left - 1))
             else proj_names_items f after cap x (names, left - 1))
      | _ \<Rightarrow> st)"
| "proj_names_items f after cap q st =
     (case q of TPair a r \<Rightarrow> proj_names_items f after cap r (proj_names f after cap a st) | _ \<Rightarrow> st)"
  by pat_completeness auto
termination
  by (relation "measure (\<lambda>z. case z of Inl (f, a, c, x, u) \<Rightarrow> 2 * size x + 1 | Inr (f, a, c, x, u) \<Rightarrow> 2 * size x)") auto

definition projected :: "frame \<Rightarrow> tree \<Rightarrow> nat list \<Rightarrow> string list" where
  \<comment> \<open>the names that \<open>mark_fusion\<close>, \<open>reuse_candidate\<close> and \<open>let_token\<close> collect\<close>
  "projected f x after = fst (proj_names f after 8 x ([], RC_PROJECTION_BUDGET))"

definition only_projected :: "frame \<Rightarrow> tree \<Rightarrow> string \<Rightarrow> bool" where
  \<comment> \<open>\<open>u.total>0&&u.total==u.hd+u.tl\<close>\<close>
  "only_projected f x v =
     (let u = proj_uses (bindings f) x v in total u > 0 \<and> total u = heads u + tails u)"

definition reuse_candidate :: "frame \<Rightarrow> tree \<Rightarrow> nat list \<Rightarrow> nat option" where
  "reuse_candidate f x after =
     (case filter (only_projected f x) (projected f x after) of [] \<Rightarrow> None | v # _ \<Rightarrow> binding (bindings f) v)"

function let_body :: "frame \<Rightarrow> tree \<Rightarrow> string + tree" where
  \<comment> \<open>the loop of \<open>let_token\<close> over nested lets\<close>
  "let_body f y =
     (if is_pair y \<and> named (first y) ''let'' \<and> binding (bindings f) ''let'' = None
      then case arg_count (rest y) of
             Inl e \<Rightarrow> Inl e
           | Inr n \<Rightarrow> if n = 3 then (case arg_at (rest y) 2 of Inl e \<Rightarrow> Inl e | Inr b \<Rightarrow> let_body f b) else Inr y
      else Inr y)"
  by pat_completeness auto
termination
  by (relation "measure (\<lambda>(f, y). size y)") (auto dest: arg_at_size elim!: is_pair.elims)

definition let_token :: "frame \<Rightarrow> tree \<Rightarrow> nat list \<Rightarrow> string + nat option" where
  "let_token f x after =
     (case let_body f x of
        Inl e \<Rightarrow> Inl e
      | Inr y \<Rightarrow>
          if \<not> is_pair y \<or> \<not> named (first y) ''cons'' \<or> binding (bindings f) ''cons'' \<noteq> None then Inr None
          else case arg_count (rest y) of
                 Inl e \<Rightarrow> Inl e
               | Inr n \<Rightarrow>
                   if n \<noteq> 2 then Inr None
                   else case filter (\<lambda>v. only_projected f x v \<and> total (proj_uses (bindings f) y v) = 0) (projected f x after) of
                          [] \<Rightarrow> Inr None
                        | v # _ \<Rightarrow> Inr (binding (bindings f) v))"

record fuse_state =
  sites :: nat
  fuel_left :: nat
  unsafe :: bool

function fuse_walk :: "(string \<times> nat) list \<Rightarrow> string \<Rightarrow> tree \<Rightarrow> fuse_state \<Rightarrow> fuse_state"
  and fuse_items :: "(string \<times> nat) list \<Rightarrow> string \<Rightarrow> tree \<Rightarrow> fuse_state \<Rightarrow> fuse_state"
  and fuse_clauses :: "(string \<times> nat) list \<Rightarrow> string \<Rightarrow> tree \<Rightarrow> fuse_state \<Rightarrow> fuse_state" where
  "fuse_walk bs v x w =
     (case x of
        TPair h args \<Rightarrow>
          if fuel_left w = 0 then w\<lparr>unsafe := True\<rparr>
          else let w = w\<lparr>fuel_left := fuel_left w - 1\<rparr>;
                   special = (is_symbol h \<and> binding bs (name h) = None)
               in if special \<and> name h \<in> {''lambda'', ''freeze'', ''quote'', ''c-quote''} then w
                  else if special \<and> named h ''let'' \<and> is_pair args \<and> is_pair (rest args) then fuse_items bs v (rest args) w
                  else if special \<and> name h \<in> {''if'', ''and'', ''or'', ''do'', ''type'', ''trap-error''} then fuse_items bs v args w
                  else if special \<and> named h ''cond'' then fuse_clauses bs v args w
                  else if special \<and> (named h ''hd'' \<or> named h ''tl'') \<and> is_pair args \<and> rest args = TNil \<and> named (first args) v
                  then w\<lparr>sites := sites w + 1\<rparr>
                  else let w = fuse_items bs v args (if special then w else fuse_walk bs v h w)
                       in if sites w = 1 then w\<lparr>unsafe := True\<rparr> else w
      | _ \<Rightarrow> w)"
| "fuse_items bs v q w = (case q of TPair a r \<Rightarrow> fuse_items bs v r (fuse_walk bs v a w) | _ \<Rightarrow> w)"
| "fuse_clauses bs v q w = (case q of TPair a r \<Rightarrow> fuse_clauses bs v r (fuse_items bs v a w) | _ \<Rightarrow> w)"
  by pat_completeness auto
termination
  by (relation "measure (\<lambda>z. case z of Inl (bs, v, x, w) \<Rightarrow> 2 * size x + 1
      | Inr (Inl (bs, v, x, w)) \<Rightarrow> 2 * size x | Inr (Inr (bs, v, x, w)) \<Rightarrow> 2 * size x)") (auto elim!: is_pair.elims)

declare fuse_walk.simps [simp del] fuse_items.simps [simp del] fuse_clauses.simps [simp del]
  proj_names.simps [simp del] proj_names_items.simps [simp del] let_body.simps [simp del]

definition mark_one :: "tree \<Rightarrow> string \<Rightarrow> frame \<times> nat list \<Rightarrow> frame \<times> nat list" where
  \<comment> \<open>one step of the loop of \<open>mark_fusion\<close>\<close>
  "mark_one x v st =
     (case st of (f, marks) \<Rightarrow>
        case binding (bindings f) v of
          None \<Rightarrow> st
        | Some b \<Rightarrow>
            if fuse_left f ! b > 0 then st
            else let u = proj_uses (bindings f) x v
                 in if total u > 0 \<and> total u = heads u + tails u
                    then let both = (total u = 2 \<and> heads u = 1 \<and> tails u = 1);
                             w = fuse_walk (bindings f) v x \<lparr>sites = 0, fuel_left = RC_PROJECTION_BUDGET, unsafe = False\<rparr>
                         in (f\<lparr>fuse_left := (fuse_left f)[b := total u], fuse := (fuse f)[b := (both \<and> \<not> unsafe w)]\<rparr>,
                             marks @ [b])
                    else st)"

definition mark_fusion :: "frame \<Rightarrow> tree \<Rightarrow> nat list \<Rightarrow> frame \<times> nat list" where
  "mark_fusion f x after = fold (mark_one x) (projected f x after) (f, [])"

subsection \<open>Names the emitter knows\<close>

definition leaf_primitive :: "tree \<Rightarrow> bool" where
  "leaf_primitive x \<longleftrightarrow> is_symbol x \<and> name x \<in> {''hd'', ''tl'', ''cons?'', ''cons'', ''='', ''number?'', ''string?'',
     ''symbol?'', ''boolean?'', ''integer?'', ''variable?'', ''absvector?'', ''not'',
     ''+'', ''-'', ''*'', ''/'', ''>'', ''<'', ''>='', ''<=''}"

definition tiny_leaf_api :: "tree \<Rightarrow> nat \<Rightarrow> string option" where
  "tiny_leaf_api x n =
     (if \<not> is_symbol x then None
      else if n = 1
      then map_of [(''hd'', ''rc_primitive_hd_owned''), (''tl'', ''rc_primitive_tl_owned''),
                   (''cons?'', ''rc_primitive_consp_owned''), (''number?'', ''rc_primitive_numberp_owned''),
                   (''string?'', ''rc_primitive_stringp_owned'')] (name x)
      else if n = 2
      then map_of [(''='', ''rc_primitive_eq_owned''), (''cons'', ''rc_primitive_cons_owned''),
                   (''+'', ''rc_primitive_add_owned''), (''-'', ''rc_primitive_sub_owned''),
                   (''*'', ''rc_primitive_mul_owned''), (''/'', ''rc_primitive_div_owned''),
                   (''>'', ''rc_primitive_gt_owned''), (''<'', ''rc_primitive_lt_owned''),
                   (''>='', ''rc_primitive_ge_owned''), (''<='', ''rc_primitive_le_owned'')] (name x)
      else None)"

definition call_api :: "frame \<Rightarrow> bool \<Rightarrow> string" where
  \<comment> \<open>\<open>tail\<close>: the mode is 1\<close>
  "call_api f tailp =
     (if optimize f then (if tailp then ''rc_tailcall_owned_args'' else ''rc_apply_rooted_owned_args'')
      else (if tailp then ''rc_tailcall'' else ''rc_apply''))"

definition closure_api :: "frame \<Rightarrow> string" where
  "closure_api f = (if conservative f then ''rc_closure'' else ''rc_closure_owned'')"

definition symbol_index :: "string list \<Rightarrow> string \<Rightarrow> nat \<times> string list" where
  \<comment> \<open>the index of a symbol of the module, which is added when it is new\<close>
  "symbol_index syms n =
     (if n \<in> set syms then (length (takeWhile ((\<noteq>) n) syms), syms) else (length syms, syms @ [n]))"

definition module_call_kind :: "(nat \<times> bool \<times> bool) list \<Rightarrow> string list \<Rightarrow> string \<Rightarrow> bool \<Rightarrow>
    nat \<times> string list \<times> (nat \<times> bool \<times> bool) list" where
  \<comment> \<open>\<open>module_calls\<close>: the symbol, whether it is called, whether it is tail called\<close>
  "module_call_kind calls syms n tailp =
     (let (i, syms) = symbol_index syms n
      in (i, syms,
          if i \<in> fst ` set calls
          then map (\<lambda>(j, called, tl). if j = i then (if tailp then (j, called, True) else (j, True, tl)) else (j, called, tl)) calls
          else (i, \<not> tailp, tailp) # calls))"

subsection \<open>Certified definitions\<close>

definition exact_second_identity :: "tree \<Rightarrow> tree \<Rightarrow> nat \<Rightarrow> bool" where
  "exact_second_identity params body n \<longleftrightarrow>
     n = 2 \<and> is_symbol body \<and> is_symbol (first params) \<and> is_symbol (second params) \<and>
     name body = name (second params) \<and> name (first params) \<noteq> name (second params)"

definition ALPHA_BINDERS :: nat where "ALPHA_BINDERS = 64"

definition alpha_index :: "string list \<Rightarrow> string \<Rightarrow> nat option" where
  \<comment> \<open>the last position of the name\<close>
  "alpha_index ns n = (case dropWhile ((\<noteq>) n) (rev ns) of [] \<Rightarrow> None | m # ms \<Rightarrow> Some (length ms))"

fun atom_equal :: "tree \<Rightarrow> tree \<Rightarrow> bool" where
  \<comment> \<open>\<open>rc_equal\<close> on what is neither a pair nor a symbol\<close>
  "atom_equal TNull TNull = True"
| "atom_equal TNil TNil = True"
| "atom_equal (TInteger m) (TInteger n) = (m = n)"
| "atom_equal (TInteger m) (TReal x) = (isfinite x \<and> int64_range x \<and> is_integral x \<and> dbl_to_int x = m)"
| "atom_equal (TReal x) (TInteger m) = (isfinite x \<and> int64_range x \<and> is_integral x \<and> dbl_to_int x = m)"
| "atom_equal (TReal x) (TReal y) = dbl_eq x y"
| "atom_equal (TString x) (TString y) = (x = y)"
| "atom_equal (TOther t a) (TOther u b) = (a = b)"
| "atom_equal _ _ = False"

fun let_parts :: "tree \<Rightarrow> (string \<times> tree \<times> tree) option" where
  \<comment> \<open>\<open>(let X V B)\<close>\<close>
  "let_parts (TPair h (TPair (TSymbol x) (TPair v (TPair b TNil)))) = Some (x, v, b)"
| "let_parts _ = None"

fun lambda_parts :: "tree \<Rightarrow> (string \<times> tree) option" where
  \<comment> \<open>\<open>(lambda X B)\<close>\<close>
  "lambda_parts (TPair h (TPair (TSymbol x) (TPair b TNil))) = Some (x, b)"
| "lambda_parts _ = None"

lemma parts_size:
  "Some (x, v, b) = let_parts a \<Longrightarrow> size v < size a \<and> size b < size a"
  "Some (x, b) = lambda_parts a \<Longrightarrow> size b < size a"
  by (auto elim!: let_parts.elims [OF sym] lambda_parts.elims [OF sym])

lemma first_rest_size: "is_pair x \<Longrightarrow> size (first x) < size x \<and> size (rest x) < size x"
  by (cases x) auto

function alpha_equal :: "tree \<Rightarrow> tree \<Rightarrow> string list \<Rightarrow> string list \<Rightarrow> bool"
  and alpha_items :: "tree \<Rightarrow> tree \<Rightarrow> string list \<Rightarrow> string list \<Rightarrow> bool" where
  "alpha_equal a b as bs =
     (if is_symbol a \<or> is_symbol b
      then is_symbol a \<and> is_symbol b \<and>
           alpha_index as (name a) = alpha_index bs (name b) \<and> (alpha_index as (name a) \<noteq> None \<or> name a = name b)
      else if \<not> is_pair a \<or> \<not> is_pair b then \<not> is_pair a \<and> \<not> is_pair b \<and> atom_equal a b
      else if named (first a) ''let'' \<and> named (first b) ''let''
      then (case (let_parts a, let_parts b) of
              (Some (x, v, e), Some (y, w, g)) \<Rightarrow>
                alpha_equal v w as bs \<and> length as \<noteq> ALPHA_BINDERS \<and> alpha_equal e g (as @ [x]) (bs @ [y])
            | _ \<Rightarrow> False)
      else if named (first a) ''lambda'' \<and> named (first b) ''lambda''
      then (case (lambda_parts a, lambda_parts b) of
              (Some (x, e), Some (y, g)) \<Rightarrow> length as \<noteq> ALPHA_BINDERS \<and> alpha_equal e g (as @ [x]) (bs @ [y])
            | _ \<Rightarrow> False)
      else alpha_items a b as bs)"
| "alpha_items a b as bs =
     (if is_pair a \<and> is_pair b then alpha_equal (first a) (first b) as bs \<and> alpha_items (rest a) (rest b) as bs
      else alpha_equal a b as bs)"
  by pat_completeness auto
termination
  by (relation "measure (\<lambda>z. case z of Inl (a, b, as, bs) \<Rightarrow> 2 * size a + (if is_pair a \<and> is_pair b then 1 else 0)
      | Inr (a, b, as, bs) \<Rightarrow> 2 * size a + (if is_pair a \<and> is_pair b then 0 else 1))")
    (auto dest!: parts_size first_rest_size)

declare alpha_equal.simps [simp del] alpha_items.simps [simp del]

fun template_params :: "tree \<Rightarrow> tree \<Rightarrow> string list \<Rightarrow> string list \<Rightarrow> (string list \<times> string list) option" where
  \<comment> \<open>the parameters of the candidate and of the template, pairwise\<close>
  "template_params (TPair x xs) ys as bs =
     (if \<not> is_symbol x \<or> length as = ALPHA_BINDERS then None
      else template_params xs (rest ys) (as @ [name x]) (bs @ [name (first ys)]))"
| "template_params _ ys as bs = Some (as, bs)"

definition kernel_template :: "tree \<Rightarrow> tree \<Rightarrow> tree \<Rightarrow> string + bool" where
  \<comment> \<open>\<open>expected\<close> is the definition \<open>(defun NAME PARAMS BODY)\<close> that \<open>rc_read\<close> made of the text\<close>
  "kernel_template params body expected =
     (case arg_at (rest expected) 2 of
        Inl e \<Rightarrow> Inl e
      | Inr tbody \<Rightarrow>
          case (arg_count params, arg_count (second (rest expected))) of
            (Inr m, Inr n) \<Rightarrow>
              Inr (m = n \<and> (case template_params params (second (rest expected)) [] [] of
                               None \<Rightarrow> False
                             | Some (as, bs) \<Rightarrow> alpha_equal body tbody as bs))
          | (Inl e, _) \<Rightarrow> Inl e
          | (_, Inl e) \<Rightarrow> Inl e)"

end
