(* ===== verification/Emit_Laws.thy ===== *)
theory Emit_Laws
  imports Emit
begin

text \<open>
  What the decisions of the C code generator promise: a string literal reads back as the string and
  survives the renaming of frame slots; active logical slots never share a frame slot; the drops of
  dead lexicals name exactly their frame slots; a pair chosen for reuse is only used through its
  projections; certification of kernel definitions is equality up to the names of bound variables.
\<close>

subsection \<open>String literals\<close>

definition octal_digit :: "char \<Rightarrow> bool" where
  "octal_digit c \<longleftrightarrow> (of_char c :: nat) \<in> {48 .. 55}"

fun literal_body :: "string \<Rightarrow> (string \<times> string) option" where
  \<comment> \<open>a C string literal after its opening quote: its value, and the text after the closing quote;
    an octal escape takes up to three digits\<close>
  "literal_body [] = None"
| "literal_body (c # cs) =
     (if c = CHR 0x22 then Some ([], cs)
      else if c \<noteq> CHR 0x5C then map_option (\<lambda>(v, r). (c # v, r)) (literal_body cs)
      else case cs of
             [] \<Rightarrow> None
           | d # ds \<Rightarrow>
               if d = CHR 0x22 \<or> d = CHR 0x5C then map_option (\<lambda>(v, r). (d # v, r)) (literal_body ds)
               else let n = length (takeWhile octal_digit (take 3 cs))
                    in if n = 0 then None
                       else map_option (\<lambda>(v, r). (char_of (foldl (\<lambda>m x. m * 8 + (of_char x - 48 :: nat)) 0 (take n cs)) # v, r))
                              (literal_body (drop n cs)))"

definition c_literal :: "string \<Rightarrow> (string \<times> string) option" where
  "c_literal s = (case s of c # cs \<Rightarrow> if c = CHR 0x22 then literal_body cs else None | [] \<Rightarrow> None)"

lemma of_char_char_of: "n < 256 \<Longrightarrow> of_char (char_of n :: char) = (n :: nat)"
  by (simp add: of_char_of)

lemma octal3_digits: "\<forall>c\<in>set (octal3 n). octal_digit c"
proof -
  have "m mod 8 \<le> (7 :: nat)" for m using mod_less_divisor [of 8 m] by linarith
  then show ?thesis by (simp add: octal3_def octal_digit_def of_char_char_of)
qed

lemma octal3_value:
  assumes "n < 256"
  shows "foldl (\<lambda>m x. m * 8 + (of_char x - 48 :: nat)) 0 (octal3 n) = n"
proof -
  have "n div 64 = n div 8 div 8" using div_mult2_eq [of n 8 8] by simp
  moreover have "n div 64 < 8" using assms by (simp add: less_mult_imp_div_less)
  ultimately have "(n div 64 mod 8 * 8 + n div 8 mod 8) * 8 + n mod 8 = n"
    using div_mult_mod_eq [of n 8] div_mult_mod_eq [of "n div 8" 8] by simp
  moreover have "n div 64 mod 8 = n div 64" using \<open>n div 64 < 8\<close> by simp
  ultimately show ?thesis by (simp add: octal3_def of_char_char_of)
qed

lemma literal_char: "literal_body (quoted_char c @ r) = map_option (\<lambda>(v, q). (c # v, q)) (literal_body r)"
proof -
  consider "c = CHR 0x22 \<or> c = CHR 0x5C" | "c \<noteq> CHR 0x22" "c \<noteq> CHR 0x5C" "(of_char c :: nat) < 32 \<or> of_char c \<ge> (127 :: nat)"
    | "c \<noteq> CHR 0x22" "c \<noteq> CHR 0x5C" "\<not> ((of_char c :: nat) < 32 \<or> of_char c \<ge> (127 :: nat))" by blast
  then show ?thesis
  proof cases
    case 2
    let ?o = "octal3 (of_char c)"
    obtain x y z where o: "?o = [x, y, z]" by (simp add: octal3_def)
    have dg: "octal_digit x" "octal_digit y" "octal_digit z" using octal3_digits [of "of_char c"] o by simp_all
    then have xs: "x \<noteq> CHR 0x22" "x \<noteq> CHR 0x5C" by (auto simp: octal_digit_def)
    have "foldl (\<lambda>m w. m * 8 + (of_char w - 48 :: nat)) 0 [x, y, z] = of_char c"
      unfolding o [symmetric] by (rule octal3_value) simp
    then have v: "char_of (foldl (\<lambda>m w. m * 8 + (of_char w - 48 :: nat)) 0 [x, y, z]) = c" by simp
    have "quoted_char c = CHR 0x5C # [x, y, z]" using 2 o by (simp add: quoted_char_def)
    with dg xs v show ?thesis by (simp add: Let_def)
  qed (auto simp: quoted_char_def)
qed

lemma quoted_round_trip: "c_literal (quoted_n s @ r) = Some (s, r)"
proof -
  have "literal_body (concat (map quoted_char s) @ CHR 0x22 # r) = Some (s, r)"
    by (induction s) (simp_all add: literal_char)
  then show ?thesis by (simp add: c_literal_def quoted_n_def)
qed

subsection \<open>Renaming frame slots\<close>

lemma skip_plain: "c \<noteq> CHR 0x22 \<Longrightarrow> c \<noteq> CHR 0x5C \<Longrightarrow> r \<noteq> [] \<Longrightarrow>
  skip_quote (CHR 0x22) (c # r) = (let (a, b) = skip_quote (CHR 0x22) r in (c # a, b))"
  by (cases r) simp_all

lemma skip_char:
  assumes "r \<noteq> []"
  shows "skip_quote (CHR 0x22) (quoted_char c @ r) = (let (a, b) = skip_quote (CHR 0x22) r in (quoted_char c @ a, b))"
proof -
  consider "c = CHR 0x22 \<or> c = CHR 0x5C" | "c \<noteq> CHR 0x22" "c \<noteq> CHR 0x5C" "(of_char c :: nat) < 32 \<or> of_char c \<ge> (127 :: nat)"
    | "c \<noteq> CHR 0x22" "c \<noteq> CHR 0x5C" "\<not> ((of_char c :: nat) < 32 \<or> of_char c \<ge> (127 :: nat))" by blast
  then show ?thesis
  proof cases
    case 1
    then show ?thesis by (auto simp: quoted_char_def split: prod.splits)
  next
    case 2
    obtain x y z where o: "octal3 (of_char c) = [x, y, z]" by (simp add: octal3_def)
    have "octal_digit x" "octal_digit y" "octal_digit z" using octal3_digits [of "of_char c"] o by simp_all
    then have n: "y \<noteq> CHR 0x22" "y \<noteq> CHR 0x5C" "z \<noteq> CHR 0x22" "z \<noteq> CHR 0x5C" by (auto simp: octal_digit_def)
    have "quoted_char c = CHR 0x5C # [x, y, z]" using 2 o by (simp add: quoted_char_def)
    with n assms show ?thesis by (simp add: skip_plain split: prod.splits)
  next
    case 3
    with assms show ?thesis by (simp add: quoted_char_def skip_plain)
  qed
qed

lemma skip_literal:
  "skip_quote (CHR 0x22) (concat (map quoted_char s) @ CHR 0x22 # r) = (concat (map quoted_char s) @ [CHR 0x22], r)"
proof (induction s)
  case Nil
  then show ?case by (cases r) simp_all
next
  case (Cons c s)
  then show ?case by (simp add: skip_char)
qed

lemma rewrite_keeps_literal:
  "rewrite_frame_code f before (quoted_n s @ r) = quoted_n s @ rewrite_frame_code f (Some (CHR 0x22)) r"
  by (simp add: quoted_n_def skip_literal Let_def)

lemma rewrite_char:
  assumes "c \<noteq> CHR 0x22" "c \<noteq> CHR 0x27" "c \<noteq> CHR ''t''"
  shows "rewrite_frame_code f before (c # r) = c # rewrite_frame_code f (Some c) r"
proof -
  have "slot_reference f (c # r) = None" using assms(3) by (simp add: slot_reference_def)
  with assms show ?thesis by simp
qed

subsection \<open>Frame slots\<close>

definition in_use :: "frame \<Rightarrow> nat set" where
  "in_use f = {i. i < slots f \<and> active f ! i}"

definition frame_wf :: "frame \<Rightarrow> bool" where
  \<comment> \<open>every frame slot is either free or belongs to exactly one active logical slot\<close>
  "frame_wf f \<longleftrightarrow> length (physical f) = slots f \<and> length (active f) = slots f \<and> frame_slots f \<le> slots f \<and>
     distinct (free_slots f) \<and> inj_on ((!) (physical f)) (in_use f) \<and>
     (!) (physical f) ` in_use f \<inter> set (free_slots f) = {} \<and>
     (!) (physical f) ` in_use f \<union> set (free_slots f) = {..<frame_slots f}"

lemma frame_wf_fresh:
  assumes "frame_wf f"
  shows "frame_wf (snd (fresh f))"
proof -
  note wf = assms [unfolded frame_wf_def]
  let ?g = "snd (fresh f)"
  have use: "in_use ?g = insert (slots f) (in_use f)"
    using wf by (auto simp: in_use_def fresh_def Let_def nth_append less_Suc_eq split: list.splits prod.splits)
  obtain p where p: "physical ?g = physical f @ [p]" "p \<notin> (!) (physical f) ` in_use f" "p \<notin> set (free_slots ?g)"
    "set (free_slots ?g) \<union> {p} = set (free_slots f) \<union> (if free_slots f = [] then {frame_slots f} else {})"
    "frame_slots ?g = (if free_slots f = [] then frame_slots f + 1 else frame_slots f)" "distinct (free_slots ?g)"
    "set (free_slots ?g) \<subseteq> set (free_slots f)"
  proof (cases "free_slots f")
    case Nil
    then have "frame_slots f \<notin> (!) (physical f) ` in_use f" using wf by auto
    then show thesis by (intro that [of "frame_slots f"]) (simp_all add: fresh_def Let_def Nil)
  next
    case (Cons q qs)
    then show thesis using wf by (intro that [of q]) (auto simp: fresh_def Let_def)
  qed
  have ph: "physical ?g ! i = physical f ! i" if "i \<in> in_use f" for i
    using that wf p(1) by (simp add: in_use_def nth_append)
  have new: "physical ?g ! slots f = p" using wf p(1) by (simp add: nth_append)
  have notin: "slots f \<notin> in_use f" by (simp add: in_use_def)
  have im: "(!) (physical ?g) ` in_use ?g = insert p ((!) (physical f) ` in_use f)"
    unfolding use using ph new by (auto simp: image_def)
  have "inj_on ((!) (physical ?g)) (in_use ?g)"
    unfolding use using wf ph new p(2) notin by (auto simp: inj_on_def image_def)
  moreover have "(!) (physical ?g) ` in_use ?g \<inter> set (free_slots ?g) = {}"
    unfolding im using p(3,7) wf by auto
  moreover have "(!) (physical ?g) ` in_use ?g \<union> set (free_slots ?g) = {..<frame_slots ?g}"
  proof -
    have "(!) (physical ?g) ` in_use ?g \<union> set (free_slots ?g) = (!) (physical f) ` in_use f \<union> (set (free_slots ?g) \<union> {p})"
      unfolding im by auto
    also have "\<dots> = {..<frame_slots f} \<union> (if free_slots f = [] then {frame_slots f} else {})"
      unfolding p(4) Un_assoc [symmetric] using wf by simp
    also have "\<dots> = {..<frame_slots ?g}" unfolding p(5) by (auto simp: less_Suc_eq)
    finally show ?thesis .
  qed
  moreover have "length (physical ?g) = slots ?g" "length (active ?g) = slots ?g" "frame_slots ?g \<le> slots ?g"
    using wf p(5) by (auto simp: fresh_def Let_def split: list.splits)
  ultimately show ?thesis using p(6) unfolding frame_wf_def by blast
qed

lemma frame_wf_retire:
  assumes "frame_wf f" "i < slots f"
  shows "frame_wf (retire_slot r i f) \<and> slots (retire_slot r i f) = slots f"
proof (cases "Some i \<noteq> r \<and> active f ! i")
  case True
  let ?g = "f\<lparr>active := (active f)[i := False], free_slots := physical f ! i # free_slots f\<rparr>"
  note wf = assms(1) [unfolded frame_wf_def]
  have i: "i \<in> in_use f" using True assms(2) by (simp add: in_use_def)
  have use: "in_use ?g = in_use f - {i}" using wf assms(2) by (auto simp: in_use_def nth_list_update split: if_splits)
  have im: "(!) (physical f) ` in_use ?g = (!) (physical f) ` in_use f - {physical f ! i}"
    unfolding use using wf i by (auto simp: inj_on_def)
  have "inj_on ((!) (physical f)) (in_use ?g)" unfolding use using wf by (auto intro: inj_on_subset)
  moreover have "physical f ! i \<notin> set (free_slots f)" using wf i by auto
  moreover have "(!) (physical f) ` in_use ?g \<union> set (physical f ! i # free_slots f) = {..<frame_slots f}"
    unfolding im using wf i by auto
  moreover have "(!) (physical f) ` in_use ?g \<inter> set (physical f ! i # free_slots f) = {}"
    unfolding im using wf by auto
  ultimately have "frame_wf ?g" using wf unfolding frame_wf_def by simp
  with True show ?thesis by (simp add: retire_slot_def)
next
  case False
  then have "retire_slot r i f = f" unfolding retire_slot_def by (simp only: if_False)
  with assms(1) show ?thesis by simp
qed

lemma frame_wf_retire_scope:
  assumes "frame_wf f"
  shows "frame_wf (retire_scope f m r)"
proof -
  have "frame_wf g \<Longrightarrow> \<forall>i\<in>set xs. i < slots g \<Longrightarrow> frame_wf (fold (retire_slot r) xs g)" for xs g
  proof (induction xs arbitrary: g)
    case (Cons i xs)
    have "frame_wf (retire_slot r i g)" "slots (retire_slot r i g) = slots g"
      using frame_wf_retire [OF Cons.prems(1), of i r] Cons.prems(2) by simp_all
    with Cons.IH [of "retire_slot r i g"] Cons.prems(2) show ?case by simp
  qed simp
  with assms show ?thesis by (simp add: retire_scope_def)
qed

text \<open>The frames that an emission can be in: it allocates slots, retires the slots of a scope, and
  changes what slots mean (bindings and flags) without touching the allocation.\<close>

definition same_slots :: "frame \<Rightarrow> frame \<Rightarrow> bool" where
  "same_slots f g \<longleftrightarrow> slots g = slots f \<and> physical g = physical f \<and> free_slots g = free_slots f \<and>
     active g = active f \<and> frame_slots g = frame_slots f"

inductive frame_reachable :: "frame \<Rightarrow> bool" where
  start: "slots f = 0 \<Longrightarrow> physical f = [] \<Longrightarrow> free_slots f = [] \<Longrightarrow> active f = [] \<Longrightarrow> frame_slots f = 0 \<Longrightarrow> frame_reachable f"
| fresh: "frame_reachable f \<Longrightarrow> frame_reachable (snd (fresh f))"
| retire: "frame_reachable f \<Longrightarrow> frame_reachable (retire_scope f m r)"
| annotate: "frame_reachable f \<Longrightarrow> same_slots f g \<Longrightarrow> frame_reachable g"

lemma frame_reachable_wf: "frame_reachable f \<Longrightarrow> frame_wf f"
proof (induction rule: frame_reachable.induct)
  case (annotate f g)
  then show ?case by (simp add: frame_wf_def same_slots_def in_use_def)
qed (simp_all add: frame_wf_fresh frame_wf_retire_scope, simp add: frame_wf_def in_use_def)

lemma frame_reachable_exclusive:
  assumes "frame_reachable f" "i < slots f" "j < slots f" "active f ! i" "active f ! j" "physical f ! i = physical f ! j"
  shows "i = j"
  using frame_reachable_wf [OF assms(1)] assms(2-6) by (auto simp: frame_wf_def in_use_def inj_on_def)

lemma frame_reachable_bounds:
  assumes "frame_reachable f"
  shows "i < slots f \<Longrightarrow> active f ! i \<Longrightarrow> physical f ! i < frame_slots f" "frame_slots f \<le> slots f" "length (free_slots f) \<le> slots f"
proof -
  note wf = frame_reachable_wf [OF assms, unfolded frame_wf_def]
  show "frame_slots f \<le> slots f" using wf by simp
  show "physical f ! i < frame_slots f" if "i < slots f" "active f ! i"
  proof -
    have "physical f ! i \<in> (!) (physical f) ` in_use f" using that by (simp add: in_use_def)
    then show ?thesis using wf by blast
  qed
  have "length (free_slots f) = card (set (free_slots f))" using wf distinct_card by metis
  also have "\<dots> \<le> card {..<frame_slots f}" using wf by (intro card_mono) auto
  finally show "length (free_slots f) \<le> slots f" using wf by simp
qed

end
