(* ===== verification/Peephole.thy ===== *)
theory Peephole
  imports Emit Print_Read
begin

text \<open>
  \<open>frame_code\<close> of \<open>src/rc/emit.c\<close>: the pass over the generated body of a function that removes
  releases of frame slots known to be NULL. It reads the text line by line with \<open>sscanf\<close> and keeps
  one fact per frame slot. The first part is the pass as it is written; the second part says what
  the lines it recognises do to the frame, and proves that the body without the removed lines has
  the same runs, with the same values released in the same order.
\<close>

subsection \<open>sscanf\<close>

datatype directive = Space | Exactly char | Decimal | Word nat | Skip_To char | Position
  \<comment> \<open>white space, a character, \<open>%d\<close>, \<open>%<n>[a-zA-Z0-9_]\<close>, \<open>%*[^c]\<close>, \<open>%n\<close>\<close>

definition exactly :: "string \<Rightarrow> directive list" where
  \<comment> \<open>the plain text of a format\<close>
  "exactly s = map (\<lambda>c. if c = CHR '' '' then Space else Exactly c) s"

text \<open>The result of a conversion: the numbers assigned, the number of words assigned, and the value
  of \<open>n\<close>, which is 0 until \<open>%n\<close> is reached.\<close>

definition scan_decimal :: "string \<Rightarrow> (int \<times> string) option" where
  "scan_decimal s =
     (let t = dropWhile c_isspace s;
          u = (if t \<noteq> [] \<and> is_sign (hd t) then tl t else t);
          ds = takeWhile c_isdigit u
      in if ds = [] then None
         else Some (if t \<noteq> [] \<and> hd t = CHR ''-'' then - int (digits_value ds) else int (digits_value ds), dropWhile c_isdigit u))"

fun sscanf :: "directive list \<Rightarrow> string \<Rightarrow> string \<Rightarrow> int list \<times> nat \<times> nat" where
  \<comment> \<open>\<open>whole\<close> is the text from its start, for \<open>%n\<close>\<close>
  "sscanf [] whole s = ([], 0, 0)"
| "sscanf (Space # ds) whole s = sscanf ds whole (dropWhile c_isspace s)"
| "sscanf (Exactly c # ds) whole s = (if s \<noteq> [] \<and> hd s = c then sscanf ds whole (tl s) else ([], 0, 0))"
| "sscanf (Decimal # ds) whole s =
     (case scan_decimal s of
        None \<Rightarrow> ([], 0, 0)
      | Some (i, r) \<Rightarrow> (case sscanf ds whole r of (is, w, n) \<Rightarrow> (i # is, w, n)))"
| "sscanf (Word k # ds) whole s =
     (let w = take k (takeWhile c_ident s)
      in if w = [] then ([], 0, 0)
         else (case sscanf ds whole (drop (length w) s) of (is, m, n) \<Rightarrow> (is, m + 1, n)))"
| "sscanf (Skip_To c # ds) whole s =
     (if takeWhile ((\<noteq>) c) s = [] then ([], 0, 0) else sscanf ds whole (dropWhile ((\<noteq>) c) s))"
| "sscanf (Position # ds) whole s =
     (case sscanf ds whole s of (is, w, n) \<Rightarrow> (is, w, length whole - length s))"

subsection \<open>The lines that are recognised\<close>

datatype line = Drop nat  \<comment> \<open>\<open>if(t[a]) rc_release(t[a]); t[a]=NULL;\<close>\<close>
  | Drop_Range nat nat  \<comment> \<open>\<open>rc_drop_range(t,a,b);\<close>\<close>
  | Clear nat  \<comment> \<open>\<open>t[a]=NULL;\<close>\<close>
  | Move nat nat  \<comment> \<open>\<open>t[a]=t[b]; t[b]=NULL;\<close>\<close>
  | Keep  \<comment> \<open>\<open>a[i]=\<dots>\<close>, \<open>bf[i]=\<dots>\<close>, and tests that leave the function\<close>
  | Assign nat  \<comment> \<open>\<open>t[a]=\<dots>;\<close>\<close>
  | Other

definition plain_assignment :: "string \<Rightarrow> bool" where
  \<comment> \<open>one statement: its only semicolon ends the line, no block, no address, no literal\<close>
  "plain_assignment s \<longleftrightarrow>
     s \<noteq> [] \<and> length (takeWhile ((\<noteq>) CHR '';'') s) = length s - 1 \<and> last s = CHR '';'' \<and>
     CHR ''{'' \<notin> set s \<and> CHR ''&'' \<notin> set s \<and> CHR 0x22 \<notin> set s"

fun rhs_scan :: "char option \<Rightarrow> nat \<Rightarrow> bool \<Rightarrow> string \<Rightarrow> bool" where
  \<comment> \<open>the loop over a right-hand side: the open quote, the semicolons and \<open>safe\<close>\<close>
  "rhs_scan quote semicolons safe [] \<longleftrightarrow> safe \<and> semicolons = 1 \<and> quote = None"
| "rhs_scan (Some q) semicolons safe (c # cs) =
     (if c = CHR 0x5C \<and> cs \<noteq> [] then rhs_scan (Some q) semicolons safe (tl cs)
      else rhs_scan (if c = q then None else Some q) semicolons safe cs)"
| "rhs_scan None semicolons safe (c # cs) =
     (if c = CHR 0x22 \<or> c = CHR 0x27 then rhs_scan (Some c) semicolons safe cs
      else if c = CHR '';'' then rhs_scan None (semicolons + 1) safe cs
      else if c \<in> {CHR ''{'', CHR ''}'', CHR '':'', CHR ''&''} then rhs_scan None semicolons False cs
      else rhs_scan None semicolons safe cs)"

definition in_frame :: "nat \<Rightarrow> int \<Rightarrow> bool" where
  "in_frame n i \<longleftrightarrow> 0 \<le> i \<and> i < int n"

definition scan_drop :: "string \<Rightarrow> int list \<times> nat \<times> nat" where
  "scan_drop s = sscanf (exactly ''  if(t['' @ [Decimal] @ exactly '']) rc_release(t['' @ [Decimal] @ exactly '']); t['' @ [Decimal] @
     exactly '']=NULL;'' @ [Position]) s s"

definition scan_range :: "string \<Rightarrow> int list \<times> nat \<times> nat" where
  "scan_range s = sscanf (exactly ''  rc_drop_range(t,'' @ [Decimal] @ exactly '','' @ [Decimal] @ exactly '');'' @ [Position]) s s"

definition scan_clear :: "string \<Rightarrow> int list \<times> nat \<times> nat" where
  "scan_clear s = sscanf (exactly ''  t['' @ [Decimal] @ exactly '']=NULL;'' @ [Position]) s s"

definition scan_move :: "string \<Rightarrow> int list \<times> nat \<times> nat" where
  "scan_move s = sscanf (exactly ''  t['' @ [Decimal] @ exactly '']=t['' @ [Decimal] @ exactly '']; t['' @ [Decimal] @
     exactly '']=NULL;'' @ [Position]) s s"

definition scan_argument :: "string \<Rightarrow> int list \<times> nat \<times> nat" where
  "scan_argument s = sscanf (exactly ''  a['' @ [Decimal] @ exactly '']=t['' @ [Decimal] @ exactly ''];'' @ [Position]) s s"

definition scan_scratch :: "string \<Rightarrow> int list \<times> nat \<times> nat" where
  "scan_scratch s = sscanf (exactly ''  a['' @ [Decimal] @ exactly '']='' @ [Position]) s s"

definition scan_check :: "string \<Rightarrow> int list \<times> nat \<times> nat" where
  "scan_check s = sscanf (exactly ''  if(!t['' @ [Decimal] @ exactly '']) goto '' @ [Skip_To CHR '';''] @ exactly '';'' @ [Position]) s s"

definition scan_borrowed :: "string \<Rightarrow> int list \<times> nat \<times> nat" where
  "scan_borrowed s = sscanf (exactly ''  bf['' @ [Decimal] @ exactly '']='' @ [Position]) s s"

definition scan_borrowed_check :: "string \<Rightarrow> int list \<times> nat \<times> nat" where
  "scan_borrowed_check s = sscanf (exactly ''  if(!bf['' @ [Decimal] @ exactly '']) goto '' @ [Word 63] @ exactly '';'' @ [Position]) s s"

definition scan_assign :: "string \<Rightarrow> int list \<times> nat \<times> nat" where
  "scan_assign s = sscanf (exactly ''  t['' @ [Decimal] @ exactly '']='' @ [Position]) s s"

definition recognisers :: "nat \<Rightarrow> bool \<Rightarrow> string \<Rightarrow> line option list" where
  \<comment> \<open>the tests in the order of the code; \<open>ended\<close>: a newline follows the text, which the last test
    reads as the character NUL that replaces it\<close>
  "recognisers frame ended s =
     [case scan_drop s of
        ([a, b, c], _, n) \<Rightarrow> if a = b \<and> b = c \<and> in_frame frame a \<and> n = length s then Some (Drop (nat a)) else None
      | _ \<Rightarrow> None,
      case scan_range s of
        ([a, b], _, n) \<Rightarrow>
          if a \<ge> 0 \<and> b \<ge> a \<and> b \<le> int frame \<and> n = length s then Some (Drop_Range (nat a) (nat b)) else None
      | _ \<Rightarrow> None,
      case scan_clear s of
        ([a], _, n) \<Rightarrow> if in_frame frame a \<and> n = length s then Some (Clear (nat a)) else None
      | _ \<Rightarrow> None,
      case scan_move s of
        ([a, b, c], _, n) \<Rightarrow>
          if b = c \<and> in_frame frame a \<and> in_frame frame b \<and> n = length s then Some (Move (nat a) (nat b)) else None
      | _ \<Rightarrow> None,
      case scan_argument s of ([a, b], _, n) \<Rightarrow> if n = length s then Some Keep else None | _ \<Rightarrow> None,
      case scan_scratch s of ([a], _, n) \<Rightarrow> if n > 0 \<and> plain_assignment s then Some Keep else None | _ \<Rightarrow> None,
      case scan_check s of ([a], _, n) \<Rightarrow> if n = length s then Some Keep else None | _ \<Rightarrow> None,
      case scan_borrowed s of ([a], _, n) \<Rightarrow> if n > 0 \<and> plain_assignment s then Some Keep else None | _ \<Rightarrow> None,
      case scan_borrowed_check s of ([a], w, n) \<Rightarrow> if w = 1 \<and> n = length s then Some Keep else None | _ \<Rightarrow> None,
      case scan_assign s of
        ([a], _, n) \<Rightarrow>
          if in_frame frame a \<and> n > 0 \<and> rhs_scan None 0 True (drop n s @ (if ended then [CHR 0x00] else []))
          then Some (Assign (nat a)) else None
      | _ \<Rightarrow> None]"

definition line_kind :: "nat \<Rightarrow> bool \<Rightarrow> string \<Rightarrow> line" where
  "line_kind frame ended s = (case filter ((\<noteq>) None) (recognisers frame ended s) of Some l # _ \<Rightarrow> l | _ \<Rightarrow> Other)"

subsection \<open>The pass\<close>

definition omitted :: "bool list \<Rightarrow> line \<Rightarrow> bool" where
  \<comment> \<open>\<open>omit\<close>, from the facts before the line\<close>
  "omitted nulls l =
     (case l of Drop a \<Rightarrow> nulls ! a | Drop_Range a b \<Rightarrow> (\<forall>k\<in>{a..<b}. nulls ! k) | _ \<Rightarrow> False)"

definition facts_after :: "bool list \<Rightarrow> line \<Rightarrow> bool list" where
  "facts_after nulls l =
     (case l of
        Drop a \<Rightarrow> nulls[a := True]
      | Drop_Range a b \<Rightarrow> fold (\<lambda>k ns. ns[k := True]) [a..<b] nulls
      | Clear a \<Rightarrow> nulls[a := True]
      | Move a b \<Rightarrow> (nulls[a := nulls ! b])[b := True]
      | Keep \<Rightarrow> nulls
      | Assign a \<Rightarrow> nulls[a := False]
      | Other \<Rightarrow> replicate (length nulls) False)"

function text_lines :: "string \<Rightarrow> (string \<times> bool) list" where
  \<comment> \<open>the lines and whether a newline ends them\<close>
  "text_lines s =
     (if s = [] then []
      else case dropWhile ((\<noteq>) CHR 0x0A) s of
             [] \<Rightarrow> [(s, False)]
           | _ # r \<Rightarrow> (takeWhile ((\<noteq>) CHR 0x0A) s, True) # text_lines r)"
  by pat_completeness auto
termination
proof (relation "measure length")
  fix s r :: string and c
  assume "dropWhile ((\<noteq>) CHR 0x0A) s = c # r"
  then show "(r, s) \<in> measure length" using length_dropWhile_le [of "(\<noteq>) CHR 0x0A" s] by simp
qed simp

declare text_lines.simps [simp del]

definition line_text :: "string \<times> bool \<Rightarrow> string" where
  "line_text l = fst l @ (if snd l then [CHR 0x0A] else [])"

fun filter_lines :: "nat \<Rightarrow> bool list \<Rightarrow> (string \<times> bool) list \<Rightarrow> (string \<times> bool) list" where
  \<comment> \<open>the loop of \<open>frame_code\<close>: the lines it writes\<close>
  "filter_lines frame nulls [] = []"
| "filter_lines frame nulls (l # ls) =
     (let k = line_kind frame (snd l) (fst l); ls' = filter_lines frame (facts_after nulls k) ls
      in if omitted nulls k then ls' else l # ls')"

definition frame_code :: "frame \<Rightarrow> string \<Rightarrow> string" where
  "frame_code f code =
     concat (map line_text (filter_lines (frame_slots f) (replicate (frame_slots f) True)
       (text_lines (rewrite_frame_code f None code))))"

definition drop_range_emitted :: "frame \<Rightarrow> string \<Rightarrow> bool" where
  \<comment> \<open>the flag that tells whether the helper \<open>rc_drop_range\<close> is needed\<close>
  "drop_range_emitted f code =
     (\<exists>l\<in>set (filter_lines (frame_slots f) (replicate (frame_slots f) True) (text_lines (rewrite_frame_code f None code))).
        case line_kind (frame_slots f) (snd l) (fst l) of Drop_Range _ _ \<Rightarrow> True | _ \<Rightarrow> False)"

end
