(* ===== verification/Peephole_Laws.thy ===== *)
theory Peephole_Laws
  imports Peephole
begin

text \<open>
  Why \<open>frame_code\<close> may remove lines. A run of the generated body goes from line to line; recognised
  lines have the effect on the frame that their text says, other lines may do anything to it and may
  go to any other unrecognised line or leave the body. The facts of the pass hold in every reachable
  state, so a removed line does nothing there, and the runs of the body with and without the removed
  lines release the same values in the same order.
\<close>

subsection \<open>Runs\<close>

type_synonym 'v config = "nat option \<times> (nat \<Rightarrow> 'v option)"  \<comment> \<open>the next line, unless the body was left; the frame\<close>

definition occupants :: "(nat \<Rightarrow> 'v option) \<Rightarrow> nat list \<Rightarrow> 'v list" where
  "occupants t ks = List.map_filter t ks"

inductive line_step :: "line list \<Rightarrow> 'v config \<Rightarrow> 'v list \<Rightarrow> 'v config \<Rightarrow> bool" for p where
  drop: "pc < length p \<Longrightarrow> p ! pc = Drop a \<Longrightarrow> line_step p (Some pc, t) (occupants t [a]) (Some (pc + 1), t(a := None))"
| range: "pc < length p \<Longrightarrow> p ! pc = Drop_Range a b \<Longrightarrow>
    line_step p (Some pc, t) (occupants t [a..<b]) (Some (pc + 1), \<lambda>k. if a \<le> k \<and> k < b then None else t k)"
| clear: "pc < length p \<Longrightarrow> p ! pc = Clear a \<Longrightarrow> line_step p (Some pc, t) [] (Some (pc + 1), t(a := None))"
| move: "pc < length p \<Longrightarrow> p ! pc = Move a b \<Longrightarrow> line_step p (Some pc, t) [] (Some (pc + 1), (t(a := t b))(b := None))"
| keep: "pc < length p \<Longrightarrow> p ! pc = Keep \<Longrightarrow> line_step p (Some pc, t) [] (Some (pc + 1), t)"
| assign: "pc < length p \<Longrightarrow> p ! pc = Assign a \<Longrightarrow> line_step p (Some pc, t) es (Some (pc + 1), t(a := v))"
| other: "pc < length p \<Longrightarrow> p ! pc = Other \<Longrightarrow> line_step p (Some pc, t) es (Some (pc + 1), t')"
| jump: "pc < length p \<Longrightarrow> p ! pc = Keep \<and> t' = t \<or> p ! pc = Other \<Longrightarrow> target < length p \<Longrightarrow> p ! target = Other \<Longrightarrow>
    line_step p (Some pc, t) [] (Some target, t')"
| leave: "pc < length p \<Longrightarrow> p ! pc = Keep \<and> t' = t \<or> p ! pc = Other \<Longrightarrow> line_step p (Some pc, t) [] (None, t')"

inductive runs :: "line list \<Rightarrow> 'v config \<Rightarrow> 'v list \<Rightarrow> 'v config \<Rightarrow> bool" for p where
  stay: "runs p x [] x"
| go: "runs p x es y \<Longrightarrow> line_step p y fs z \<Longrightarrow> runs p x (es @ fs) z"

lemmas line_steps = line_step.intros [unfolded Suc_eq_plus1 [symmetric]]

inductive_cases line_step_cases: "line_step p x es y"

definition empty_frame :: "nat \<Rightarrow> 'v option" where
  "empty_frame = (\<lambda>_. None)"

subsection \<open>The pass on recognised lines\<close>

fun remaining :: "bool list \<Rightarrow> line list \<Rightarrow> line list" where
  "remaining nulls [] = []"
| "remaining nulls (l # ls) = (if omitted nulls l then [] else [l]) @ remaining (facts_after nulls l) ls"

definition facts_at :: "bool list \<Rightarrow> line list \<Rightarrow> nat \<Rightarrow> bool list" where
  "facts_at nulls p pc = foldl facts_after nulls (take pc p)"

definition kept_before :: "bool list \<Rightarrow> line list \<Rightarrow> nat \<Rightarrow> nat" where
  \<comment> \<open>where line \<open>pc\<close> is after the pass\<close>
  "kept_before nulls p pc = length (remaining nulls (take pc p))"

definition line_ok :: "nat \<Rightarrow> line \<Rightarrow> bool" where
  "line_ok n l \<longleftrightarrow> (case l of Drop a \<Rightarrow> a < n | Drop_Range a b \<Rightarrow> a \<le> b \<and> b \<le> n | Clear a \<Rightarrow> a < n
     | Move a b \<Rightarrow> a < n \<and> b < n | Assign a \<Rightarrow> a < n | _ \<Rightarrow> True)"

lemma kept_append: "remaining nulls (xs @ ys) = remaining nulls xs @ remaining (foldl facts_after nulls xs) ys"
  by (induction xs arbitrary: nulls) simp_all

lemma length_set_all [simp]: "length (fold (\<lambda>k ns. ns[k := True]) ks nulls) = length nulls"
  by (induction ks arbitrary: nulls) simp_all

lemma nth_set_all:
  "k < length nulls \<Longrightarrow> fold (\<lambda>k ns. ns[k := True]) ks nulls ! k = (nulls ! k \<or> k \<in> set ks)"
proof (induction ks arbitrary: nulls)
  case (Cons a ks)
  then show ?case by (cases "k = a") simp_all
qed simp

lemma length_facts_after [simp]: "length (facts_after nulls l) = length nulls"
  by (simp add: facts_after_def split: line.splits)

lemma length_facts_at [simp]: "length (facts_at nulls p pc) = length nulls"
proof -
  have "length (foldl facts_after nulls xs) = length nulls" for xs
    by (induction xs arbitrary: nulls) simp_all
  then show ?thesis by (simp add: facts_at_def)
qed

lemma facts_at_0 [simp]: "facts_at nulls p 0 = nulls"
  by (simp add: facts_at_def)

lemma facts_at_Suc: "pc < length p \<Longrightarrow> facts_at nulls p (Suc pc) = facts_after (facts_at nulls p pc) (p ! pc)"
  by (simp add: facts_at_def take_Suc_conv_app_nth)

lemma kept_before_0 [simp]: "kept_before nulls p 0 = 0"
  by (simp add: kept_before_def)

lemma kept_before_Suc: "pc < length p \<Longrightarrow>
  kept_before nulls p (Suc pc) = kept_before nulls p pc + (if omitted (facts_at nulls p pc) (p ! pc) then 0 else 1)"
  by (simp add: kept_before_def take_Suc_conv_app_nth kept_append facts_at_def)

lemma kept_nth:
  assumes "pc < length p" "\<not> omitted (facts_at nulls p pc) (p ! pc)"
  shows "kept_before nulls p pc < length (remaining nulls p)" "remaining nulls p ! kept_before nulls p pc = p ! pc"
proof -
  have "p = take pc p @ p ! pc # drop (Suc pc) p" using assms(1) by (rule id_take_nth_drop)
  then have "remaining nulls p = remaining nulls (take pc p) @ remaining (facts_at nulls p pc) (p ! pc # drop (Suc pc) p)"
    by (metis kept_append facts_at_def)
  with assms(2) show "kept_before nulls p pc < length (remaining nulls p)" "remaining nulls p ! kept_before nulls p pc = p ! pc"
    by (simp_all add: kept_before_def nth_append)
qed

lemma kept_before_all: "kept_before nulls p (length p) = length (remaining nulls p)"
  by (simp add: kept_before_def)

lemma kept_before_mono: "i \<le> j \<Longrightarrow> j \<le> length p \<Longrightarrow> kept_before nulls p i \<le> kept_before nulls p j"
proof (induction j)
  case (Suc j)
  then show ?case by (cases "i = Suc j") (auto simp: kept_before_Suc)
qed simp

lemma kept_before_le: "pc \<le> length p \<Longrightarrow> kept_before nulls p pc \<le> length (remaining nulls p)"
  using kept_before_mono [of pc "length p" p nulls] by (simp add: kept_before_all)

subsection \<open>The facts hold\<close>

definition facts_hold :: "bool list \<Rightarrow> (nat \<Rightarrow> 'v option) \<Rightarrow> bool" where
  "facts_hold nulls t \<longleftrightarrow> (\<forall>k < length nulls. nulls ! k \<longrightarrow> t k = None)"

definition sound :: "bool list \<Rightarrow> line list \<Rightarrow> 'v config \<Rightarrow> bool" where
  "sound nulls p c \<longleftrightarrow>
     (case fst c of None \<Rightarrow> True | Some pc \<Rightarrow> pc \<le> length p \<and> (facts_hold (facts_at nulls p pc) (snd c) \<or> pc < length p \<and> p ! pc = Other))"


lemma omitted_nothing:
  assumes "omitted nulls l" "line_ok (length nulls) l" "facts_hold nulls t"
  shows "(\<exists>a. l = Drop a \<and> a < length nulls \<and> t a = None) \<or>
    (\<exists>a b. l = Drop_Range a b \<and> b \<le> length nulls \<and> (\<forall>k\<in>{a..<b}. t k = None))"
  using assms by (cases l) (auto simp: omitted_def line_ok_def facts_hold_def)

lemma line_step_sound:
  assumes "line_step p c es d" "\<forall>l\<in>set p. line_ok (length nulls) l" "sound nulls p c"
  shows "sound nulls p d"
  using assms(1)
proof (cases rule: line_step.cases)
  case (drop pc a t)
  then show ?thesis using assms by (auto simp: sound_def facts_hold_def facts_at_Suc facts_after_def nth_list_update)
next
  case (range pc a b t)
  then show ?thesis using assms by (auto simp: sound_def facts_hold_def facts_at_Suc facts_after_def nth_set_all)
next
  case (clear pc a t)
  then show ?thesis using assms by (auto simp: sound_def facts_hold_def facts_at_Suc facts_after_def nth_list_update)
next
  case (move pc a b t)
  then have "line_ok (length nulls) (Move a b)" using assms(2) by (metis nth_mem)
  with move show ?thesis using assms(3)
    by (auto simp: sound_def facts_hold_def facts_at_Suc facts_after_def nth_list_update line_ok_def split: if_splits)
next
  case (keep pc t)
  then show ?thesis using assms by (auto simp: sound_def facts_hold_def facts_at_Suc facts_after_def)
next
  case (assign pc a t v)
  then show ?thesis using assms by (auto simp: sound_def facts_hold_def facts_at_Suc facts_after_def nth_list_update)
next
  case (other pc t t')
  then show ?thesis using assms by (auto simp: sound_def facts_hold_def facts_at_Suc facts_after_def)
next
  case (jump pc t' t target)
  then show ?thesis by (simp add: sound_def)
next
  case (leave pc t' t)
  then show ?thesis by (simp add: sound_def)
qed

lemma runs_sound:
  assumes "runs p c es d" "\<forall>l\<in>set p. line_ok (length nulls) l" "sound nulls p c"
  shows "sound nulls p d"
  using assms by induction (auto dest: line_step_sound)

lemma sound_start: "sound nulls p (Some 0, empty_frame)"
  by (simp add: sound_def facts_hold_def empty_frame_def)

subsection \<open>The same runs\<close>

definition after_pass :: "bool list \<Rightarrow> line list \<Rightarrow> 'v config \<Rightarrow> 'v config" where
  "after_pass nulls p c = (map_option (kept_before nulls p) (fst c), snd c)"

lemma occupants_none: "\<forall>k\<in>set ks. t k = None \<Longrightarrow> occupants t ks = []"
  by (induction ks) (simp_all add: occupants_def List.map_filter_simps)

lemma omitted_step:
  \<comment> \<open>a removed line only moves on\<close>
  assumes "pc < length p" "omitted (facts_at nulls p pc) (p ! pc)" "\<forall>l\<in>set p. line_ok (length nulls) l"
    "sound nulls p (Some pc, t)"
  shows "line_step p (Some pc, t) es d \<longleftrightarrow> es = [] \<and> d = (Some (pc + 1), t)"
proof -
  have "p ! pc \<noteq> Other" using assms(2) by (auto simp: omitted_def)
  then have "facts_hold (facts_at nulls p pc) t" using assms(4) by (simp add: sound_def)
  moreover have "line_ok (length (facts_at nulls p pc)) (p ! pc)" using assms(1,3) by simp
  ultimately consider a where "p ! pc = Drop a" "t a = None"
    | a b where "p ! pc = Drop_Range a b" "\<forall>k\<in>{a..<b}. t k = None"
    using omitted_nothing [OF assms(2)] by blast
  then show ?thesis
  proof cases
    case 1
    then have "t(a := None) = t" "occupants t [a] = []" by (auto simp: occupants_none)
    with 1 assms(1) show ?thesis using line_step.drop [OF assms(1) 1(1), of t] by (auto elim: line_step_cases)
  next
    case 2
    then have "(\<lambda>k. if a \<le> k \<and> k < b then None else t k) = t" "occupants t [a..<b] = []" by (auto simp: occupants_none)
    with 2 assms(1) show ?thesis using line_step.range [OF assms(1) 2(1), of t] by (auto elim: line_step_cases)
  qed
qed

lemma kept_step:
  assumes "line_step p (Some pc, t) es d" "\<not> omitted (facts_at nulls p pc) (p ! pc)"
  shows "line_step (remaining nulls p) (Some (kept_before nulls p pc), t) es (after_pass nulls p d)"
proof -
  have pc: "pc < length p" using assms(1) by (auto elim: line_step_cases)
  note k = kept_nth [OF pc assms(2)]
  have s: "kept_before nulls p (pc + 1) = kept_before nulls p pc + 1" using pc assms(2) by (simp add: kept_before_Suc)
  have t: "kept_before nulls p i < length (remaining nulls p) \<and> remaining nulls p ! kept_before nulls p i = Other"
    if "i < length p" "p ! i = Other" for i
    using kept_nth [of i p nulls] that by (simp add: omitted_def)
  from assms(1) show ?thesis
    by (cases rule: line_step.cases) (use k s t in \<open>auto simp: after_pass_def intro: line_steps\<close>)
qed

lemma runs_forward:
  assumes "runs p (Some 0, empty_frame) es d" "\<forall>l\<in>set p. line_ok (length nulls) l"
  shows "runs (remaining nulls p) (Some 0, empty_frame) es (after_pass nulls p d)"
  using assms(1)
proof (induction "(Some 0 :: nat option, empty_frame :: nat \<Rightarrow> 'a option)" es d rule: runs.induct)
  case stay
  then show ?case by (simp add: after_pass_def runs.stay)
next
  case (go es y fs z)
  obtain pc t where y: "y = (Some pc, t)" "pc < length p" using go.hyps(3) by (auto elim: line_step_cases)
  have snd: "sound nulls p (Some pc, t)" using runs_sound [OF go.hyps(1) assms(2) sound_start] y by simp
  show ?case
  proof (cases "omitted (facts_at nulls p pc) (p ! pc)")
    case True
    with omitted_step [OF y(2) True assms(2) snd] go.hyps(3) y
    have "fs = []" "z = (Some (pc + 1), t)" by simp_all
    with True y go.hyps(2) show ?thesis by (simp add: after_pass_def kept_before_Suc)
  next
    case False
    from kept_step [of p pc t fs z nulls] go.hyps(3) False y
    have "line_step (remaining nulls p) (after_pass nulls p y) fs (after_pass nulls p z)" by (simp add: after_pass_def)
    with go.hyps(2) show ?thesis by (rule runs.go)
  qed
qed

lemma kept_index:
  assumes "q < length (remaining nulls p)"
  obtains pc where "pc < length p" "\<not> omitted (facts_at nulls p pc) (p ! pc)" "kept_before nulls p pc = q"
proof -
  have ex: "q < kept_before nulls p (length p)" using assms by (simp add: kept_before_all)
  define i where "i = (LEAST i. q < kept_before nulls p i)"
  have i: "q < kept_before nulls p i" "i \<le> length p"
    unfolding i_def using ex by (auto intro: LeastI Least_le)
  then obtain pc where pc: "i = Suc pc" by (cases i) simp_all
  then have le: "kept_before nulls p pc \<le> q" using not_less_Least [of pc "\<lambda>i. q < kept_before nulls p i"] i_def by simp
  have "pc < length p" using i pc by simp
  moreover have "\<not> omitted (facts_at nulls p pc) (p ! pc)" "kept_before nulls p pc = q"
    using i(1) le \<open>pc < length p\<close> pc by (auto simp: kept_before_Suc split: if_splits)
  ultimately show thesis by (rule that)
qed

lemma run_to_kept:
  \<comment> \<open>removed lines are run through, up to any line that starts at the same place after the pass\<close>
  assumes "runs p x es (Some pc, t)" "sound nulls p x" "\<forall>l\<in>set p. line_ok (length nulls) l"
    "pc \<le> j" "j \<le> length p" "kept_before nulls p j = kept_before nulls p pc"
  shows "runs p x es (Some j, t)"
  using assms(4-6)
proof (induction j)
  case 0
  then show ?case using assms(1) by simp
next
  case (Suc j)
  show ?case
  proof (cases "pc = Suc j")
    case False
    then have j: "pc \<le> j" "j < length p" using Suc.prems by simp_all
    then have "kept_before nulls p pc \<le> kept_before nulls p j" "kept_before nulls p j \<le> kept_before nulls p (Suc j)"
      by (simp_all add: kept_before_mono)
    with Suc.prems(3) have eq: "kept_before nulls p j = kept_before nulls p pc" "omitted (facts_at nulls p j) (p ! j)"
      using j by (auto simp: kept_before_Suc split: if_splits)
    have r: "runs p x es (Some j, t)" using Suc.IH j eq by simp
    have "line_step p (Some j, t) [] (Some (j + 1), t)"
      using omitted_step [OF j(2) eq(2) assms(3) runs_sound [OF r assms(3,2)]] by simp
    with r show ?thesis using runs.go by fastforce
  qed (use assms(1) in simp)
qed

lemma kept_step_back:
  assumes "line_step (remaining nulls p) (Some (kept_before nulls p pc), t) es d"
    "pc < length p" "\<not> omitted (facts_at nulls p pc) (p ! pc)"
  shows "\<exists>d'. line_step p (Some pc, t) es d' \<and> after_pass nulls p d' = d"
proof -
  note k = kept_nth [OF assms(2,3)]
  have s: "kept_before nulls p (Suc pc) = Suc (kept_before nulls p pc)" using assms(2,3) by (simp add: kept_before_Suc)
  have next_line: "\<exists>d'. line_step p (Some pc, t) fs d' \<and> after_pass nulls p d' = (Some (Suc (kept_before nulls p pc)), u)"
    if "line_step p (Some pc, t) fs (Some (Suc pc), u)" for fs u
    using that s by (intro exI [of _ "(Some (Suc pc), u)"]) (simp add: after_pass_def)
  from assms(1) show ?thesis
  proof (cases rule: line_step.cases)
    case (jump t' target)
    obtain i where i: "i < length p" "\<not> omitted (facts_at nulls p i) (p ! i)" "kept_before nulls p i = target"
      using kept_index [OF jump(5)] .
    with jump k kept_nth [OF i(1,2)] have "line_step p (Some pc, t) es (Some i, t')"
      using assms(2) by (auto intro: line_step.jump)
    with jump i show ?thesis by (intro exI [of _ "(Some i, t')"]) (simp add: after_pass_def)
  next
    case (leave t')
    with k assms(2) have "line_step p (Some pc, t) es (None, t')" by (auto intro: line_step.leave)
    with leave show ?thesis by (intro exI [of _ "(None, t')"]) (simp add: after_pass_def)
  qed (use k assms(2) in \<open>auto simp del: split_paired_Ex intro!: next_line intro: line_steps\<close>)
qed

lemma runs_backward:
  assumes "runs (remaining nulls p) (Some 0, empty_frame) es d" "\<forall>l\<in>set p. line_ok (length nulls) l"
  shows "\<exists>c. runs p (Some 0, empty_frame) es c \<and> after_pass nulls p c = d \<and> (\<forall>pc. fst c = Some pc \<longrightarrow> pc \<le> length p)"
  using assms(1)
proof (induction "(Some 0 :: nat option, empty_frame :: nat \<Rightarrow> 'a option)" es d rule: runs.induct)
  case stay
  then show ?case by (intro exI [of _ "(Some 0, empty_frame)"]) (simp add: runs.stay after_pass_def)
next
  case (go es y fs z)
  obtain c where c: "runs p (Some 0, empty_frame) es c" "after_pass nulls p c = y" "\<forall>pc. fst c = Some pc \<longrightarrow> pc \<le> length p"
    using go.hyps(2) by blast
  obtain q t where y: "y = (Some q, t)" "q < length (remaining nulls p)" using go.hyps(3) by (auto elim: line_step_cases)
  then obtain i where i: "c = (Some i, t)" "kept_before nulls p i = q" "i \<le> length p"
    using c(2,3) by (cases c) (auto simp: after_pass_def)
  obtain pc where pc: "pc < length p" "\<not> omitted (facts_at nulls p pc) (p ! pc)" "kept_before nulls p pc = q"
    using kept_index [OF y(2)] .
  have "kept_before nulls p i < kept_before nulls p (Suc pc)" using pc i(2) by (simp add: kept_before_Suc)
  then have "i \<le> pc" using kept_before_mono [of "Suc pc" i p nulls] i(3) by (metis not_less_eq_eq leD)
  then have r: "runs p (Some 0, empty_frame) es (Some pc, t)"
    using run_to_kept [OF c(1) [unfolded i(1)] sound_start assms(2), of pc] i pc by simp
  obtain d' where d': "line_step p (Some pc, t) fs d'" "after_pass nulls p d' = z"
    using kept_step_back [of nulls p pc t fs z] go.hyps(3) y pc by auto
  have "\<forall>j. fst d' = Some j \<longrightarrow> j \<le> length p" using d'(1) by (auto elim: line_step_cases)
  with runs.go [OF r d'(1)] d'(2) show ?case by blast
qed

lemma same_runs:
  assumes "\<forall>l\<in>set p. line_ok (length nulls) l"
  shows "(\<exists>q. runs (remaining nulls p) (Some 0, empty_frame) es (q, t)) \<longleftrightarrow> (\<exists>q. runs p (Some 0, empty_frame) es (q, t))"
    and "runs (remaining nulls p) (Some 0, empty_frame) es (None, t) \<longleftrightarrow> runs p (Some 0, empty_frame) es (None, t)"
    and "runs (remaining nulls p) (Some 0, empty_frame) es (Some (length (remaining nulls p)), t) \<longleftrightarrow>
      runs p (Some 0, empty_frame) es (Some (length p), t)"
proof -
  show "(\<exists>q. runs (remaining nulls p) (Some 0, empty_frame) es (q, t)) \<longleftrightarrow> (\<exists>q. runs p (Some 0, empty_frame) es (q, t))"
    using runs_forward [OF _ assms] runs_backward [OF _ assms] by (fastforce simp: after_pass_def)
  show "runs (remaining nulls p) (Some 0, empty_frame) es (None, t) \<longleftrightarrow> runs p (Some 0, empty_frame) es (None, t)"
    using runs_forward [of p es "(None, t)", OF _ assms] runs_backward [of nulls p es "(None, t)", OF _ assms]
    by (auto simp: after_pass_def)
  show "runs (remaining nulls p) (Some 0, empty_frame) es (Some (length (remaining nulls p)), t) \<longleftrightarrow>
      runs p (Some 0, empty_frame) es (Some (length p), t)" (is "?l \<longleftrightarrow> ?r")
  proof
    assume ?l
    then obtain i where i: "runs p (Some 0, empty_frame) es (Some i, t)" "kept_before nulls p i = length (remaining nulls p)" "i \<le> length p"
      using runs_backward [OF _ assms] by (fastforce simp: after_pass_def)
    from run_to_kept [OF i(1) sound_start assms i(3) le_refl] i(2) show ?r by (simp add: kept_before_all)
  qed (use runs_forward [of p es "(Some (length p), t)", OF _ assms] in \<open>simp add: after_pass_def kept_before_all\<close>)
qed

subsection \<open>The text\<close>

definition kinds :: "nat \<Rightarrow> (string \<times> bool) list \<Rightarrow> line list" where
  "kinds frame ls = map (\<lambda>l. line_kind frame (snd l) (fst l)) ls"

lemma kinds_filter_lines: "kinds frame (filter_lines frame nulls ls) = remaining nulls (kinds frame ls)"
  by (induction ls arbitrary: nulls) (simp_all add: kinds_def Let_def)

lemma recogniser_cases:
  "(case m of ([a], _, n) \<Rightarrow> f1 a n | _ \<Rightarrow> None) = Some l \<Longrightarrow> \<exists>a n. f1 a n = Some l"
  "(case m of ([a, b], _, n) \<Rightarrow> f2 a b n | _ \<Rightarrow> None) = Some l \<Longrightarrow> \<exists>a b n. f2 a b n = Some l"
  "(case m of ([a, b, c], _, n) \<Rightarrow> f3 a b c n | _ \<Rightarrow> None) = Some l \<Longrightarrow> \<exists>a b c n. f3 a b c n = Some l"
  "(case m of ([a], w, n) \<Rightarrow> f4 a w n | _ \<Rightarrow> None) = Some l \<Longrightarrow> \<exists>a w n. f4 a w n = Some l"
  by (auto split: prod.splits list.splits)

lemma line_kind_ok: "line_ok frame (line_kind frame ended s)"
proof -
  have "list_all (\<lambda>r. \<forall>l. r = Some l \<longrightarrow> line_ok frame l) (recognisers frame ended s)"
    unfolding recognisers_def list.pred_inject
    by (intro conjI allI impI TrueI) (drule recogniser_cases, auto simp: line_ok_def in_frame_def split: if_splits)+
  then have all: "line_ok frame l" if "Some l \<in> set (recognisers frame ended s)" for l
    using that by (auto simp: list_all_iff)
  show ?thesis
  proof (cases "filter ((\<noteq>) None) (recognisers frame ended s)")
    case Nil
    then show ?thesis by (simp add: line_kind_def line_ok_def del: filter_empty_conv)
  next
    case (Cons r rs)
    then have "r \<in> set (filter ((\<noteq>) None) (recognisers frame ended s))" by simp
    then have r: "None \<noteq> r" "r \<in> set (recognisers frame ended s)" by simp_all
    then obtain l where l: "r = Some l" by (cases r) simp_all
    with Cons all [of l] r(2) show ?thesis by (simp add: line_kind_def)
  qed
qed

lemma text_lines_text: "concat (map line_text (text_lines s)) = s"
proof (induction s rule: text_lines.induct)
  case (1 s)
  show ?case
  proof (cases "dropWhile ((\<noteq>) CHR 0x0A) s")
    case Nil
    then show ?thesis by (subst text_lines.simps) (simp add: line_text_def del: dropWhile_eq_Nil_conv)
  next
    case (Cons c r)
    then have c: "c = CHR 0x0A" using hd_dropWhile [of "(\<noteq>) CHR 0x0A" s] by simp
    have "s = takeWhile ((\<noteq>) CHR 0x0A) s @ c # r" using Cons by (metis takeWhile_dropWhile_id)
    moreover have "s \<noteq> []" using Cons by auto
    moreover have "concat (map line_text (text_lines s)) = takeWhile ((\<noteq>) CHR 0x0A) s @ [c] @ concat (map line_text (text_lines r))"
      using Cons c calculation(2) by (subst text_lines.simps) (simp add: line_text_def)
    ultimately show ?thesis using 1 Cons by simp
  qed
qed

fun lines_ok :: "(string \<times> bool) list \<Rightarrow> bool" where
  \<comment> \<open>only the last line may lack its end, and then it is not empty\<close>
  "lines_ok [] \<longleftrightarrow> True"
| "lines_ok (l # ls) \<longleftrightarrow> CHR 0x0A \<notin> set (fst l) \<and> (snd l \<or> ls = [] \<and> fst l \<noteq> []) \<and> lines_ok ls"

lemma lines_ok_text_lines: "lines_ok (text_lines s)"
proof (induction s rule: text_lines.induct)
  case (1 s)
  have "CHR 0x0A \<notin> set (takeWhile ((\<noteq>) CHR 0x0A) s)" using set_takeWhileD by fastforce
  moreover have "CHR 0x0A \<notin> set s" if "dropWhile ((\<noteq>) CHR 0x0A) s = []" using that by auto
  ultimately show ?case
    using 1 by (subst text_lines.simps) (simp del: dropWhile_eq_Nil_conv split: list.splits)
qed

lemma lines_ok_filter: "lines_ok ls \<Longrightarrow> lines_ok (filter_lines frame nulls ls)"
proof (induction ls arbitrary: nulls)
  case (Cons l ls)
  then show ?case by (auto simp: Let_def)
qed simp

lemma line_text_pair: "line_text (x, e) = x @ (if e then [CHR 0x0A] else [])"
  by (simp add: line_text_def)

lemma text_lines_concat: "lines_ok ls \<Longrightarrow> text_lines (concat (map line_text ls)) = ls"
proof (induction ls)
  case Nil
  show ?case by (simp add: text_lines.simps)
next
  case (Cons l ls)
  obtain x e where l: "l = (x, e)" by (rule prod.exhaust)
  have x: "takeWhile ((\<noteq>) CHR 0x0A) (x @ r) = x @ takeWhile ((\<noteq>) CHR 0x0A) r"
    "dropWhile ((\<noteq>) CHR 0x0A) (x @ r) = dropWhile ((\<noteq>) CHR 0x0A) r" for r
    using Cons.prems l by (auto simp: takeWhile_append dropWhile_append)
  show ?case
  proof (cases e)
    case True
    with Cons x l show ?thesis by (subst text_lines.simps) (simp add: line_text_pair)
  next
    case False
    have d: "dropWhile ((\<noteq>) CHR 0x0A) x = []" using x(2) [of "[]"] by simp
    have "concat (map line_text (l # ls)) = x" "x \<noteq> []" "ls = []" using False Cons.prems l by (simp_all add: line_text_pair)
    with False l show ?thesis by (subst text_lines.simps) (simp add: d del: concat.simps list.map)
  qed
qed

lemma text_lines_frame_code:
  "text_lines (frame_code f code) =
     filter_lines (frame_slots f) (replicate (frame_slots f) True) (text_lines (rewrite_frame_code f None code))"
  by (simp add: frame_code_def text_lines_concat lines_ok_filter lines_ok_text_lines)

lemma kinds_frame_code:
  "kinds (frame_slots f) (text_lines (frame_code f code)) =
     remaining (replicate (frame_slots f) True) (kinds (frame_slots f) (text_lines (rewrite_frame_code f None code)))"
  by (simp add: text_lines_frame_code kinds_filter_lines)

lemma kinds_ok: "\<forall>l\<in>set (kinds frame ls). line_ok frame l"
  by (auto simp: kinds_def line_kind_ok)

subsection \<open>The emitter's own lines are recognised\<close>

lemma scan_decimal_digits: "r = [] \<or> \<not> c_isdigit (hd r) \<Longrightarrow> scan_decimal (digits_of n @ r) = Some (int n, r)"
proof -
  assume r: "r = [] \<or> \<not> c_isdigit (hd r)"
  obtain x xs where d: "digits_of n = x # xs" using digits_of_digits [of n] by (cases "digits_of n") auto
  then have x: "\<not> is_sign x" "x \<noteq> CHR ''-''" "\<not> c_isspace x" "c_isdigit x"
    using digits_of_digits [of n] digit_not_special [of x] by (auto simp: delimiter_def)
  have "takeWhile c_isdigit (digits_of n @ r) = digits_of n" "dropWhile c_isdigit (digits_of n @ r) = r"
    using r digits_of_digits [of n] by (cases r; simp add: takeWhile_append dropWhile_append list_all_iff)+
  with d x digits_of_simps(3) [of n] show ?thesis by (simp add: scan_decimal_def Let_def)
qed

lemma line_kind_emitted:
  "line_kind frame e (butlast (check_text ''cleanup'' a)) = Keep"
  "line_kind frame e (butlast (argument_text a b)) = Keep"
  "a < frame \<Longrightarrow> b < frame \<Longrightarrow> line_kind frame e (butlast (move_text a b)) = Move a b"
  "a \<le> b \<Longrightarrow> b \<le> frame \<Longrightarrow> line_kind frame e (butlast (drop_range_text (a, b))) = Drop_Range a b"
  "a < frame \<Longrightarrow> line_kind frame e
     (''  if(t['' @ digits_of a @ '']) rc_release(t['' @ digits_of a @ '']); t['' @ digits_of a @ '']=NULL;'') = Drop a"
  by (simp_all add: line_kind_def recognisers_def scan_drop_def scan_range_def scan_clear_def scan_move_def scan_argument_def
      scan_scratch_def scan_check_def scan_borrowed_def scan_borrowed_check_def scan_assign_def exactly_def c_isspace_def
      scan_decimal_digits c_isdigit_def check_text_def argument_text_def move_text_def drop_range_text_def in_frame_def butlast_append)

end
