(* ===== verification/Alpha_Laws.thy ===== *)
theory Alpha_Laws
  imports Emit
begin

text \<open>
  The comparison of a definition with a kernel template (\<open>alpha_equal\<close> of \<open>src/rc/emit.c\<close>) decides
  equality up to renaming of bound variables. The reference is the translation into terms without
  names, where a bound variable is its binder's level.
\<close>

subsection \<open>Terms without names\<close>

datatype 'a nameless_term = Level nat | Free string | Constant 'a | Let_In "'a nameless_term" "'a nameless_term"
  | Abs "'a nameless_term" | Node "'a nameless_term" "'a nameless_term"

function nameless :: "string list \<Rightarrow> tree \<Rightarrow> tree nameless_term"
  and nameless_items :: "string list \<Rightarrow> tree \<Rightarrow> tree nameless_term" where
  "nameless ns x =
     (if is_symbol x then (case alpha_index ns (name x) of Some i \<Rightarrow> Level i | None \<Rightarrow> Free (name x))
      else if \<not> is_pair x then Constant x
      else if named (first x) ''let''
      then (case let_parts x of Some (y, v, e) \<Rightarrow> Let_In (nameless ns v) (nameless (ns @ [y]) e) | None \<Rightarrow> Constant x)
      else if named (first x) ''lambda''
      then (case lambda_parts x of Some (y, e) \<Rightarrow> Abs (nameless (ns @ [y]) e) | None \<Rightarrow> Constant x)
      else nameless_items ns x)"
| "nameless_items ns x =
     (if is_pair x then Node (nameless ns (first x)) (nameless_items ns (rest x)) else nameless ns x)"
  by pat_completeness auto
termination
  by (relation "measure (\<lambda>z. case z of Inl (ns, x) \<Rightarrow> 2 * size x + (if is_pair x then 1 else 0)
      | Inr (ns, x) \<Rightarrow> 2 * size x + (if is_pair x then 0 else 1))") (auto dest!: parts_size [OF sym] first_rest_size)

text \<open>Well-formed expressions: binding forms have their parts, no binder is called \<open>let\<close> or
  \<open>lambda\<close>, and the nesting stays below the comparison's bound.\<close>

function well_formed :: "nat \<Rightarrow> tree \<Rightarrow> bool"
  and well_formed_items :: "nat \<Rightarrow> tree \<Rightarrow> bool" where
  "well_formed n x \<longleftrightarrow>
     (if \<not> is_pair x then True
      else if named (first x) ''let''
      then (case let_parts x of
              Some (y, v, e) \<Rightarrow> y \<notin> {''let'', ''lambda''} \<and> n < ALPHA_BINDERS \<and> well_formed n v \<and> well_formed (n + 1) e
            | None \<Rightarrow> False)
      else if named (first x) ''lambda''
      then (case lambda_parts x of
              Some (y, e) \<Rightarrow> y \<notin> {''let'', ''lambda''} \<and> n < ALPHA_BINDERS \<and> well_formed (n + 1) e
            | None \<Rightarrow> False)
      else well_formed_items n x)"
| "well_formed_items n x \<longleftrightarrow>
     (if is_pair x then well_formed n (first x) \<and> well_formed_items n (rest x) else True)"
  by pat_completeness auto
termination
  by (relation "measure (\<lambda>z. case z of Inl (n, x) \<Rightarrow> 2 * size x + (if is_pair x then 1 else 0)
      | Inr (n, x) \<Rightarrow> 2 * size x + (if is_pair x then 0 else 1))") (auto dest!: parts_size [OF sym] first_rest_size)

declare nameless.simps [simp del] nameless_items.simps [simp del] well_formed.simps [simp del] well_formed_items.simps [simp del]

definition binders_ok :: "string list \<Rightarrow> bool" where
  "binders_ok ns \<longleftrightarrow> ''let'' \<notin> set ns \<and> ''lambda'' \<notin> set ns"

lemma alpha_index_None: "alpha_index ns n = None \<longleftrightarrow> n \<notin> set ns"
proof -
  have "n \<in> set ns" if "dropWhile ((\<noteq>) n) (rev ns) = m # ms" for m ms
    using that dropWhile_eq_Nil_conv [of "(\<noteq>) n" "rev ns"] by auto
  then show ?thesis by (auto simp: alpha_index_def split: list.splits)
qed

abbreviation same_term :: "tree nameless_term \<Rightarrow> tree nameless_term \<Rightarrow> bool" where
  "same_term \<equiv> rel_nameless_term atom_equal"

lemma not_binder_head:
  assumes "''let'' \<notin> set ns" "''lambda'' \<notin> set ns" "y \<in> {''let'', ''lambda''}"
  shows "alpha_index ns y = None" "nameless ns (TSymbol y) = Free y"
  using assms by (auto simp: alpha_index_None nameless.simps split: option.splits)

lemma binder_heads:
  assumes "binders_ok as" "binders_ok bs" "s \<in> {''let'', ''lambda''}" "named x s" "\<not> named y s"
  shows "\<not> alpha_equal x y as bs" "\<not> alpha_equal y x bs as"
proof -
  have x: "x = TSymbol s" using assms(4) by (simp add: named_def)
  have "alpha_index as s = None" "alpha_index bs s = None" using assms(1-3) by (auto simp: alpha_index_None binders_ok_def)
  with x assms(5) show "\<not> alpha_equal x y as bs" "\<not> alpha_equal y x bs as"
    by (cases y; auto simp: alpha_equal.simps named_def)+
qed

lemma nameless_pair:
  assumes "is_pair x" "well_formed n x"
  shows "\<exists>u v. nameless ns x = Let_In u v \<and> named (first x) ''let'' \<or> nameless ns x = Abs u \<and> named (first x) ''lambda'' \<or>
    nameless ns x = Node u v \<and> \<not> named (first x) ''let'' \<and> \<not> named (first x) ''lambda''"
proof -
  have "\<not> is_symbol x" using assms(1) by (cases x) simp_all
  then show ?thesis using assms
    by (auto simp: nameless.simps [of ns x] nameless_items.simps [of ns x] well_formed.simps [of n x] named_def
        split: option.splits if_splits)
qed

lemma nameless_atom: "\<not> is_pair x \<Longrightarrow> \<not> is_symbol x \<Longrightarrow> nameless ns x = Constant x"
  by (simp add: nameless.simps)

lemma nameless_symbol: "nameless ns (TSymbol s) = (case alpha_index ns s of Some i \<Rightarrow> Level i | None \<Rightarrow> Free s)"
  by (simp add: nameless.simps split: option.splits)

lemma is_symbol_name: "is_symbol x \<Longrightarrow> x = TSymbol (name x)"
  by (cases x) simp_all

lemma is_symbol_not_pair: "is_symbol x \<Longrightarrow> \<not> is_pair x"
  by (cases x) simp_all

fun shape :: "'a nameless_term \<Rightarrow> nat" where
  "shape (Level _) = 0"
| "shape (Free _) = 0"
| "shape (Constant _) = 1"
| "shape (Let_In _ _) = 2"
| "shape (Abs _) = 3"
| "shape (Node _ _) = 4"

lemma same_shape: "same_term u v \<Longrightarrow> shape u = shape v"
  by (cases u; cases v) simp_all

lemma shape_nameless:
  "is_symbol x \<Longrightarrow> shape (nameless ns x) = 0"
  "\<not> is_symbol x \<Longrightarrow> well_formed n x \<Longrightarrow>
     shape (nameless ns x) = (if \<not> is_pair x then 1 else if named (first x) ''let'' then 2 else if named (first x) ''lambda'' then 3 else 4)"
  using nameless_pair [of x n ns] nameless_atom [of x ns] by (auto simp: nameless.simps [of ns x] named_def split: option.splits)

lemma let_nameless:
  "named (first x) ''let'' \<Longrightarrow> is_pair x \<Longrightarrow> let_parts x = Some (y, v, e) \<Longrightarrow>
     nameless ns x = Let_In (nameless ns v) (nameless (ns @ [y]) e)"
  "named (first x) ''lambda'' \<Longrightarrow> is_pair x \<Longrightarrow> lambda_parts x = Some (y, e) \<Longrightarrow> nameless ns x = Abs (nameless (ns @ [y]) e)"
  using is_symbol_not_pair [of x] by (auto simp: nameless.simps [of ns x] named_def)

lemma let_well_formed:
  "named (first x) ''let'' \<Longrightarrow> is_pair x \<Longrightarrow> well_formed n x \<Longrightarrow>
     \<exists>y v e. let_parts x = Some (y, v, e) \<and> y \<notin> {''let'', ''lambda''} \<and> n < ALPHA_BINDERS \<and> well_formed n v \<and> well_formed (n + 1) e"
  "named (first x) ''lambda'' \<Longrightarrow> is_pair x \<Longrightarrow> well_formed n x \<Longrightarrow>
     \<exists>y e. lambda_parts x = Some (y, e) \<and> y \<notin> {''let'', ''lambda''} \<and> n < ALPHA_BINDERS \<and> well_formed (n + 1) e"
  by (auto simp: well_formed.simps [of n x] named_def split: option.splits)

lemma items_nameless:
  "is_pair x \<Longrightarrow> \<not> named (first x) ''let'' \<Longrightarrow> \<not> named (first x) ''lambda'' \<Longrightarrow> nameless ns x = nameless_items ns x"
  "is_pair x \<Longrightarrow> \<not> named (first x) ''let'' \<Longrightarrow> \<not> named (first x) ''lambda'' \<Longrightarrow> well_formed n x = well_formed_items n x"
  using is_symbol_not_pair [of x] by (auto simp: nameless.simps [of ns x] well_formed.simps [of n x])

lemma binders_ok_snoc: "binders_ok ns \<Longrightarrow> y \<notin> {''let'', ''lambda''} \<Longrightarrow> binders_ok (ns @ [y])"
  by (auto simp: binders_ok_def)

lemma alpha_equal_correct:
  "length as = length bs \<Longrightarrow> binders_ok as \<Longrightarrow> binders_ok bs \<Longrightarrow> well_formed (length as) a \<Longrightarrow> well_formed (length bs) b \<Longrightarrow>
     alpha_equal a b as bs \<longleftrightarrow> same_term (nameless as a) (nameless bs b)"
  "length as = length bs \<Longrightarrow> binders_ok as \<Longrightarrow> binders_ok bs \<Longrightarrow>
     well_formed_items (length as) a \<Longrightarrow> well_formed_items (length bs) b \<Longrightarrow>
     alpha_items a b as bs \<longleftrightarrow> same_term (nameless_items as a) (nameless_items bs b)"
proof (induction a b as bs and a b as bs rule: alpha_equal_alpha_items.induct)
  case (1 a b as bs)
  note wf = 1(8,9)
  consider (symbols) "is_symbol a \<or> is_symbol b" | (atoms) "\<not> is_symbol a" "\<not> is_symbol b" "\<not> is_pair a \<or> \<not> is_pair b"
    | (pairs) "is_pair a" "is_pair b" "\<not> is_symbol a" "\<not> is_symbol b" by blast
  then show ?case
  proof cases
    case symbols
    show ?thesis
    proof (cases "is_symbol a \<and> is_symbol b")
      case True
      then obtain s t where "a = TSymbol s" "b = TSymbol t" by (metis is_symbol_name)
      then show ?thesis by (auto simp: alpha_equal.simps nameless_symbol split: option.splits)
    next
      case False
      then have "\<not> alpha_equal a b as bs" using symbols by (subst alpha_equal.simps) auto
      moreover have "\<not> same_term (nameless as a) (nameless bs b)"
        using False symbols shape_nameless(1) [of a as] shape_nameless(1) [of b bs] shape_nameless(2) [OF _ wf(1), of as]
          shape_nameless(2) [OF _ wf(2), of bs] same_shape [of "nameless as a" "nameless bs b"] by (auto split: if_splits)
      ultimately show ?thesis by simp
    qed
  next
    case atoms
    then have "alpha_equal a b as bs \<longleftrightarrow> \<not> is_pair a \<and> \<not> is_pair b \<and> atom_equal a b" by (subst alpha_equal.simps) auto
    moreover have "same_term (nameless as a) (nameless bs b) \<longleftrightarrow> \<not> is_pair a \<and> \<not> is_pair b \<and> atom_equal a b"
      using atoms nameless_atom [of a as] nameless_atom [of b bs] shape_nameless(2) [OF atoms(1) wf(1), of as]
        shape_nameless(2) [OF atoms(2) wf(2), of bs] same_shape [of "nameless as a" "nameless bs b"] by (auto split: if_splits)
    ultimately show ?thesis by simp
  next
    case pairs
    consider (let_both) "named (first a) ''let''" "named (first b) ''let''"
      | (lambda_both) "named (first a) ''lambda''" "named (first b) ''lambda''"
      | (differ) s where "s \<in> {''let'', ''lambda''}" "named (first a) s \<noteq> named (first b) s"
      | (plain) "\<not> named (first a) ''let''" "\<not> named (first b) ''let''" "\<not> named (first a) ''lambda''" "\<not> named (first b) ''lambda''"
      by auto
    then show ?thesis
    proof cases
      case let_both
      obtain x v e where a: "let_parts a = Some (x, v, e)" "x \<notin> {''let'', ''lambda''}" "length as < ALPHA_BINDERS"
        "well_formed (length as) v" "well_formed (length as + 1) e" using let_well_formed(1) [OF let_both(1) pairs(1) wf(1)] by auto
      obtain y w g where b: "let_parts b = Some (y, w, g)" "y \<notin> {''let'', ''lambda''}"
        "well_formed (length bs) w" "well_formed (length bs + 1) g" using let_well_formed(1) [OF let_both(2) pairs(2) wf(2)] by auto
      have c: "\<not> (is_symbol a \<or> is_symbol b)" "\<not> (\<not> is_pair a \<or> \<not> is_pair b)" "named (first a) ''let'' \<and> named (first b) ''let''"
        using pairs let_both by simp_all
      have "alpha_equal v w as bs \<longleftrightarrow> same_term (nameless as v) (nameless bs w)"
        by (rule 1(1) [OF c refl a(1) refl refl b(1) refl refl 1(5-7) a(4) b(3)])
      moreover have "alpha_equal e g (as @ [x]) (bs @ [y]) \<longleftrightarrow> same_term (nameless (as @ [x]) e) (nameless (bs @ [y]) g)"
        by (rule 1(2) [OF c refl a(1) refl refl b(1) refl refl]) (use 1(5-7) a b in \<open>simp_all add: binders_ok_snoc\<close>)
      moreover have "alpha_equal a b as bs \<longleftrightarrow> alpha_equal v w as bs \<and> alpha_equal e g (as @ [x]) (bs @ [y])"
        using pairs let_both a b by (subst alpha_equal.simps) simp
      ultimately show ?thesis
        by (simp add: let_nameless(1) [OF let_both(1) pairs(1) a(1)] let_nameless(1) [OF let_both(2) pairs(2) b(1)])
    next
      case lambda_both
      obtain x e where a: "lambda_parts a = Some (x, e)" "x \<notin> {''let'', ''lambda''}" "length as < ALPHA_BINDERS"
        "well_formed (length as + 1) e" using let_well_formed(2) [OF lambda_both(1) pairs(1) wf(1)] by auto
      obtain y g where b: "lambda_parts b = Some (y, g)" "y \<notin> {''let'', ''lambda''}" "well_formed (length bs + 1) g"
        using let_well_formed(2) [OF lambda_both(2) pairs(2) wf(2)] by auto
      have c: "\<not> (is_symbol a \<or> is_symbol b)" "\<not> (\<not> is_pair a \<or> \<not> is_pair b)" "\<not> (named (first a) ''let'' \<and> named (first b) ''let'')"
        "named (first a) ''lambda'' \<and> named (first b) ''lambda''" and c': "\<not> named (first a) ''let''"
        using pairs lambda_both by (auto simp: named_def)
      have "alpha_equal e g (as @ [x]) (bs @ [y]) \<longleftrightarrow> same_term (nameless (as @ [x]) e) (nameless (bs @ [y]) g)"
        by (rule 1(3) [OF c refl a(1) refl b(1) refl]) (use 1(5-7) a b in \<open>simp_all add: binders_ok_snoc\<close>)
      moreover have "alpha_equal a b as bs \<longleftrightarrow> alpha_equal e g (as @ [x]) (bs @ [y])"
        using pairs lambda_both a b c' by (subst alpha_equal.simps) auto
      ultimately show ?thesis
        by (simp add: let_nameless(2) [OF lambda_both(1) pairs(1) a(1)] let_nameless(2) [OF lambda_both(2) pairs(2) b(1)])
    next
      case differ
      have "\<not> alpha_equal (first a) (first b) as bs"
        using differ binder_heads(1) [OF 1(6,7) differ(1), of "first a" "first b"]
          binder_heads(2) [OF 1(7,6) differ(1), of "first b" "first a"] by auto
      moreover have "\<not> (named (first a) ''let'' \<and> named (first b) ''let'')" "\<not> (named (first a) ''lambda'' \<and> named (first b) ''lambda'')"
        using differ by (auto simp: named_def)
      ultimately have "\<not> alpha_equal a b as bs" using pairs by (subst alpha_equal.simps) (auto simp: alpha_items.simps [of a])
      moreover have "shape (nameless as a) \<noteq> shape (nameless bs b)"
        using differ pairs shape_nameless(2) [OF pairs(3) wf(1), of as] shape_nameless(2) [OF pairs(4) wf(2), of bs]
        by (auto simp: named_def split: if_splits)
      ultimately show ?thesis using same_shape by blast
    next
      case plain
      have "alpha_items a b as bs \<longleftrightarrow> same_term (nameless_items as a) (nameless_items bs b)"
        by (rule 1(4)) (use 1(5-9) pairs plain items_nameless in auto)
      moreover have "alpha_equal a b as bs \<longleftrightarrow> alpha_items a b as bs" using pairs plain by (subst alpha_equal.simps) simp
      ultimately show ?thesis using pairs plain items_nameless(1) by simp
    qed
  qed
next
  case (2 a b as bs)
  have atom: "well_formed n x" if "\<not> is_pair x" for n x using that by (simp add: well_formed.simps)
  have i: "nameless_items as a = (if is_pair a then Node (nameless as (first a)) (nameless_items as (rest a)) else nameless as a)"
    "nameless_items bs b = (if is_pair b then Node (nameless bs (first b)) (nameless_items bs (rest b)) else nameless bs b)"
    by (simp_all add: nameless_items.simps [of as a] nameless_items.simps [of bs b])
  have sh: "shape (nameless ns x) < 4" if "\<not> is_pair x" for ns x
    using that shape_nameless(1) [of x ns] shape_nameless(2) [OF _ atom, of x ns] by (cases "is_symbol x") auto
  consider (both) "is_pair a" "is_pair b" | (neither) "\<not> is_pair a" "\<not> is_pair b" | (one) "is_pair a \<noteq> is_pair b" by blast
  then show ?case
  proof cases
    case both
    then have "alpha_items a b as bs \<longleftrightarrow> alpha_equal (first a) (first b) as bs \<and> alpha_items (rest a) (rest b) as bs"
      by (subst alpha_items.simps) simp
    moreover have "well_formed (length as) (first a)" "well_formed_items (length as) (rest a)"
      "well_formed (length bs) (first b)" "well_formed_items (length bs) (rest b)"
      using both 2(7,8) by (simp_all add: well_formed_items.simps [of _ a] well_formed_items.simps [of _ b])
    ultimately show ?thesis using 2(1,2) [OF conjI [OF both] 2(4-6)] both i by simp
  next
    case neither
    then have "alpha_items a b as bs \<longleftrightarrow> alpha_equal a b as bs" by (subst alpha_items.simps) simp
    with neither i 2(3) [OF _ 2(4-6) atom atom] show ?thesis by simp
  next
    case one
    then have "\<not> alpha_items a b as bs" using is_symbol_not_pair
      by (subst alpha_items.simps, subst alpha_equal.simps) auto
    moreover have "\<not> same_term (nameless_items as a) (nameless_items bs b)"
      using one sh [of a as] sh [of b bs] same_shape [of "nameless_items as a" "nameless_items bs b"] i
      by (cases "is_pair a") auto
    ultimately show ?thesis by simp
  qed
qed

subsection \<open>Definitions\<close>

text \<open>A definition, given by its parameters and its body. The comparison takes both parameter lists
  apart together, so parameters are the outer binders.\<close>

fun symbol_list :: "tree \<Rightarrow> string list option" where
  "symbol_list TNil = Some []"
| "symbol_list (TPair (TSymbol s) r) = map_option ((#) s) (symbol_list r)"
| "symbol_list _ = None"

lemma arg_count_symbols: "symbol_list x = Some ns \<Longrightarrow> arg_count x = Inr (length ns)"
  by (induction x arbitrary: ns rule: symbol_list.induct) auto

lemma template_params_symbols:
  "symbol_list xs = Some ns \<Longrightarrow> symbol_list ys = Some ms \<Longrightarrow> length ns = length ms \<Longrightarrow>
   length as + length ns \<le> ALPHA_BINDERS \<Longrightarrow> template_params xs ys as bs = Some (as @ ns, bs @ ms)"
proof (induction xs arbitrary: ys ns ms as bs rule: symbol_list.induct)
  case (2 s r)
  obtain ns' where n: "ns = s # ns'" "symbol_list r = Some ns'" using "2.prems"(1) by auto
  obtain t q ms' where m: "ys = TPair (TSymbol t) q" "ms = t # ms'" "symbol_list q = Some ms'"
    using "2.prems"(2,3) n by (cases ys rule: symbol_list.cases) auto
  have "template_params r q (as @ [s]) (bs @ [t]) = Some ((as @ [s]) @ ns', (bs @ [t]) @ ms')"
    using "2.prems"(3,4) n m by (intro "2.IH") simp_all
  with "2.prems"(4) n m show ?case by simp
qed simp_all

lemma kernel_template_correct:
  assumes "symbol_list params = Some ns" "symbol_list tparams = Some ms"
    "expected = TPair d (TPair f (TPair tparams (TPair tbody r)))"
    "length ns \<le> ALPHA_BINDERS" "binders_ok ns" "binders_ok ms"
    "well_formed (length ns) body" "well_formed (length ms) tbody"
  shows "kernel_template params body expected =
    Inr (length ns = length ms \<and> same_term (nameless ns body) (nameless ms tbody))"
proof -
  have e: "arg_at (rest expected) 2 = Inr tbody" "second (rest expected) = tparams"
    using assms(3) by (simp_all add: second_def numeral_2_eq_2)
  note c = arg_count_symbols [OF assms(1)] arg_count_symbols [OF assms(2)]
  show ?thesis
  proof (cases "length ns = length ms")
    case True
    then have "template_params params tparams [] [] = Some (ns, ms)"
      using template_params_symbols [OF assms(1,2), of "[]" "[]"] assms(4) by simp
    with True e c alpha_equal_correct(1) [OF True assms(5-8)] show ?thesis by (simp add: kernel_template_def)
  qed (use e c in \<open>simp add: kernel_template_def\<close>)
qed

end
