(* ===== verification/Constants.thy ===== *)
theory Constants
  imports Emit
begin

text \<open>
  Tables of constants (\<open>src/rc/emit.c\<close>): large literal trees and large trees of \<open>cons\<close> and \<open>protect\<close>
  calls are emitted as a table of 32-bit words and three arrays of data, and one loop, which the
  generated module contains, runs a table on a stack of owned values. \<open>const_node\<close> writes the table,
  \<open>rc_constant_data\<close> is the loop of the generated module, translated from the text that
  \<open>constant_helpers\<close> writes.
\<close>

subsection \<open>Writing a table\<close>

definition RC_CONSTANT_DATA_MIN :: nat where "RC_CONSTANT_DATA_MIN = 64"
definition RC_CONSTANT_DATA_BULK_MIN :: nat where "RC_CONSTANT_DATA_BULK_MIN = 8"
definition RC_CONSTANT_DATA_BULK :: nat where "RC_CONSTANT_DATA_BULK = 2048"

datatype const_op = RC_CONST_NIL | RC_CONST_SYMBOL | RC_CONST_STRING | RC_CONST_INTEGER | RC_CONST_REAL
  | RC_CONST_FUNCTION | RC_CONST_CONS | RC_CONST_CALL1 | RC_CONST_PAIR

fun const_code :: "const_op \<Rightarrow> nat" where
  \<comment> \<open>the value of the enumerator\<close>
  "const_code RC_CONST_NIL = 0"
| "const_code RC_CONST_SYMBOL = 1"
| "const_code RC_CONST_STRING = 2"
| "const_code RC_CONST_INTEGER = 3"
| "const_code RC_CONST_REAL = 4"
| "const_code RC_CONST_FUNCTION = 5"
| "const_code RC_CONST_CONS = 6"
| "const_code RC_CONST_CALL1 = 7"
| "const_code RC_CONST_PAIR = 8"

fun constant_nodes :: "(string \<times> nat) list \<Rightarrow> tree \<Rightarrow> bool \<Rightarrow> nat option"
  and constant_args :: "(string \<times> nat) list \<Rightarrow> nat \<Rightarrow> tree \<Rightarrow> nat option" where
  \<comment> \<open>the number of nodes of an eligible tree, None for -1\<close>
  "constant_nodes bs TNull raw = None"
| "constant_nodes bs TNil raw = Some 1"
| "constant_nodes bs (TSymbol s) raw = (if raw \<or> binding bs s = None then Some 1 else None)"
| "constant_nodes bs (TInteger n) raw = Some 1"
| "constant_nodes bs (TReal x) raw = Some 1"
| "constant_nodes bs (TString s) raw = Some 1"
| "constant_nodes bs (TOther t a) raw = None"
| "constant_nodes bs (TPair h t) raw =
     (if raw
      then case constant_nodes bs h True of
             None \<Rightarrow> None
           | Some m \<Rightarrow> map_option (\<lambda>n. 1 + m + n) (constant_nodes bs t True)
      else let argc = (if named h ''cons'' then 2 else if named h ''protect'' then 1 else 0)
           in if argc = 0 \<or> binding bs (name h) \<noteq> None then None
              else map_option (\<lambda>n. 1 + n) (constant_args bs argc t))"
| "constant_args bs n q =
     (if n = 0 then if q = TNil then Some 0 else None
      else case q of
             TPair a r \<Rightarrow> (case constant_nodes bs a False of
                              None \<Rightarrow> None
                            | Some k \<Rightarrow> map_option (\<lambda>m. k + m) (constant_args bs (n - 1) r))
           | _ \<Rightarrow> None)"

record const_table =
  words :: "32 word list"
  texts :: "string list"
  integers :: "int list"
  reals :: "dbl list"
  sp :: nat
  depth :: nat
  uses_symbols :: bool

definition empty_table :: const_table where
  "empty_table = \<lparr>words = [], texts = [], integers = [], reals = [], sp = 0, depth = 0, uses_symbols = False\<rparr>"

type_synonym const_state = "const_table \<times> string list"  \<comment> \<open>the table; the symbols of the module\<close>

definition const_word :: "const_op \<Rightarrow> nat \<Rightarrow> int \<Rightarrow> const_table \<Rightarrow> string + const_table" where
  "const_word op operand effect c =
     (if operand > 2 ^ 28 - 1 then Inl ''constant data table overflow''
      else let n = nat (int (sp c) + effect)
           in Inr (c\<lparr>words := words c @ [word_of_nat (const_code op) OR push_bit 4 (word_of_nat operand)],
                     sp := n, depth := max (depth c) n\<rparr>))"

definition const_symbol :: "const_op \<Rightarrow> string \<Rightarrow> const_state \<Rightarrow> string + const_state" where
  "const_symbol op s st =
     (case st of (c, syms) \<Rightarrow>
        case symbol_index syms s of (i, syms) \<Rightarrow>
          map_sum id (\<lambda>c. (c, syms)) (const_word op i 1 (c\<lparr>uses_symbols := True\<rparr>)))"

fun const_node :: "tree \<Rightarrow> bool \<Rightarrow> const_state \<Rightarrow> string + const_state"
  and const_args :: "tree \<Rightarrow> const_state \<Rightarrow> string + const_state" where
  \<comment> \<open>only eligible trees are written, so TNull and TOther do not occur\<close>
  "const_node TNil raw (c, syms) = map_sum id (\<lambda>c. (c, syms)) (const_word RC_CONST_NIL 0 1 c)"
| "const_node (TInteger n) raw (c, syms) =
     map_sum id (\<lambda>c. (c, syms)) (const_word RC_CONST_INTEGER (length (integers c)) 1 (c\<lparr>integers := integers c @ [n]\<rparr>))"
| "const_node (TReal x) raw (c, syms) =
     map_sum id (\<lambda>c. (c, syms)) (const_word RC_CONST_REAL (length (reals c)) 1 (c\<lparr>reals := reals c @ [x]\<rparr>))"
| "const_node (TString x) raw (c, syms) =
     map_sum id (\<lambda>c. (c, syms)) (const_word RC_CONST_STRING (length (texts c)) 1 (c\<lparr>texts := texts c @ [x]\<rparr>))"
| "const_node (TSymbol s) raw st = const_symbol RC_CONST_SYMBOL s st"
| "const_node (TPair h t) raw st =
     (if raw
      then case const_node h True st of
             Inl e \<Rightarrow> Inl e
           | Inr st \<Rightarrow> (case const_node t True st of
                           Inl e \<Rightarrow> Inl e
                         | Inr (c, syms) \<Rightarrow> map_sum id (\<lambda>c. (c, syms)) (const_word RC_CONST_PAIR 0 (- 1) c))
      else case const_symbol RC_CONST_FUNCTION (name h) st of
             Inl e \<Rightarrow> Inl e
           | Inr st \<Rightarrow> (case const_args t st of
                           Inl e \<Rightarrow> Inl e
                         | Inr (c, syms) \<Rightarrow>
                             map_sum id (\<lambda>c. (c, syms))
                               (if named h ''cons'' then const_word RC_CONST_CONS 0 (- 2) c
                                else const_word RC_CONST_CALL1 0 (- 1) c)))"
| "const_node x raw st = Inr st"
| "const_args (TPair a r) st = (case const_node a False st of Inl e \<Rightarrow> Inl e | Inr st \<Rightarrow> const_args r st)"
| "const_args q st = Inr st"

definition constant_table :: "tree \<Rightarrow> bool \<Rightarrow> string list \<Rightarrow> string + const_state" where
  \<comment> \<open>\<open>constant_data\<close>: the table of a tree\<close>
  "constant_table x raw syms =
     (case const_node x raw (empty_table, syms) of
        Inl e \<Rightarrow> Inl e
      | Inr (c, syms) \<Rightarrow> if sp c \<noteq> 1 then Inl ''constant data stack imbalance'' else Inr (c, syms))"

subsection \<open>Running a table\<close>

definition word_op :: "32 word \<Rightarrow> nat" where
  "word_op w = unat (w AND 15)"

definition word_operand :: "32 word \<Rightarrow> nat" where
  "word_operand w = unat (drop_bit 4 w)"

definition at_index :: "'a list \<Rightarrow> nat \<Rightarrow> ('a \<Rightarrow> mem \<Rightarrow> handle \<times> mem) \<Rightarrow> mem \<Rightarrow> handle \<times> mem" where
  \<comment> \<open>an element of an array; an index outside it is a fault\<close>
  "at_index xs i f s = (if i < length xs then f (xs ! i) s else (HNull, s\<lparr>fault := True\<rparr>))"

definition table_step :: "callbacks \<Rightarrow> ctxid \<Rightarrow> handle list \<Rightarrow> const_table \<Rightarrow> 32 word \<Rightarrow> handle list \<Rightarrow> mem \<Rightarrow>
    (handle \<times> handle list \<times> mem) option" where
  \<comment> \<open>one round of the switch: the new value, what remains on the stack (its top first)\<close>
  "table_step cb c symtab d w st s =
     (let op = word_op w; x = word_operand w;
          leaf = (\<lambda>r. case r of (v, s) \<Rightarrow> Some (v, st, s));
          lost = Some (HNull, st, s\<lparr>fault := True\<rparr>)
      in if op = 0 then Some (HNil, st, s)
         else if op = 1 then leaf (at_index symtab x (\<lambda>v s. (v, rc_retain v s)) s)
         else if op = 2 then leaf (at_index (texts d) x (\<lambda>t. rc_string_n c (Some t)) s)
         else if op = 3 then leaf (at_index (integers d) x (rc_integer c) s)
         else if op = 4 then leaf (at_index (reals d) x (rc_number c) s)
         else if op = 5 then leaf (at_index symtab x (rc_function_get c) s)
         else if op = 6 then
           (case st of
              t # h # fn # st \<Rightarrow> map_option (\<lambda>(v, s). (v, st, rc_release fn s)) (leaf_owned cb c 14 fn [h, t] False s)
            | _ \<Rightarrow> lost)
         else if op = 7 then
           (case st of
              a # fn # st \<Rightarrow> map_option (\<lambda>(v, s). (v, st, rc_release fn s)) (rc_apply_rooted_owned_args cb c fn [a] s)
            | _ \<Rightarrow> lost)
         else if op = 8 then
           (case st of t # h # st \<Rightarrow> (case rc_cons_owned c h t s of (v, s) \<Rightarrow> Some (v, st, s)) | _ \<Rightarrow> lost)
         else Some (HNull, st, rc_error c ''invalid constant data'' s))"

definition stack_size :: "const_table \<Rightarrow> nat" where
  \<comment> \<open>\<open>small\<close> has 64 entries\<close>
  "stack_size d = (if depth d \<le> 64 then 64 else depth d)"

fun table_loop :: "callbacks \<Rightarrow> ctxid \<Rightarrow> handle list \<Rightarrow> const_table \<Rightarrow> 32 word list \<Rightarrow> handle list \<Rightarrow> mem \<Rightarrow>
    (handle \<times> mem) option" where
  "table_loop cb c symtab d [] st s =
     (case st of
        [v] \<Rightarrow> Some (v, s)
      | _ \<Rightarrow> Some (HNull, fold rc_release st (rc_error c ''invalid constant data'' s)))"
| "table_loop cb c symtab d (w # ws) st s =
     (case table_step cb c symtab d w st s of
        None \<Rightarrow> None
      | Some (v, st, s) \<Rightarrow>
          if v = HNull then Some (HNull, fold rc_release st s)
          else table_loop cb c symtab d ws (v # st) (if length st < stack_size d then s else s\<lparr>fault := True\<rparr>))"

definition rc_constant_data :: "callbacks \<Rightarrow> ctxid \<Rightarrow> handle list \<Rightarrow> const_table \<Rightarrow> mem \<Rightarrow> (handle \<times> mem) option" where
  "rc_constant_data cb c symtab d s =
     (let (ok, s) = (if depth d \<le> 64 then (True, s) else library_call s)
      in if ok then table_loop cb c symtab d (words d) [] s
         else Some (rc_fail c ''constant data allocation failed'' s))"

end
