(* ===== verification/Constants_Laws.thy ===== *)
theory Constants_Laws
  imports Constants Print_Read
begin

text \<open>
  What a table of constants does. \<open>build\<close> is the direct recursion that the table replaces: it
  resolves, evaluates and applies in the order of the straight-line code. Running the table of an
  eligible tree is exactly \<open>build\<close>, for data and for calls, and never leaves its stack. For data the
  result stands for the tree and is owned by the caller; on failure nothing is left behind.
\<close>

subsection \<open>Words\<close>

lemma word_parts:
  assumes "n < 16" "m < 2 ^ 28"
  shows "word_op (word_of_nat n OR push_bit 4 (word_of_nat m)) = n"
    "word_operand (word_of_nat n OR push_bit 4 (word_of_nat m)) = m"
proof -
  let ?k = "n OR push_bit 4 m"
  have w: "(word_of_nat n OR push_bit 4 (word_of_nat m) :: 32 word) = word_of_nat ?k"
    by (simp add: of_nat_or_eq of_nat_push_bit)
  have "take_bit 4 ?k = take_bit 4 n OR take_bit 4 (push_bit 4 m)" "drop_bit 4 ?k = drop_bit 4 n OR drop_bit 4 (push_bit 4 m)"
    by (simp_all only: take_bit_or drop_bit_or)
  then have k: "?k mod 16 = n" "?k div 16 = m"
    using assms(1) by (simp_all add: take_bit_eq_mod drop_bit_eq_div push_bit_eq_mult)
  then have "?k = 16 * m + n" by (metis mult_div_mod_eq)
  then have less: "?k < 2 ^ 32" using assms by simp
  then have u: "unat (word_of_nat ?k :: 32 word) = ?k" by (simp add: unsigned_of_nat take_bit_nat_eq_self del: take_bit_or)
  have "unat ((word_of_nat ?k :: 32 word) AND 15) = ?k AND 15" by (simp add: unsigned_and_eq u)
  also have "\<dots> = ?k mod 16" using and_nat_def [of ?k 15] take_bit_eq_mask [of 4 ?k] by (simp add: take_bit_eq_mod mask_eq_exp_minus_1)
  finally show "word_op (word_of_nat n OR push_bit 4 (word_of_nat m)) = n" using k(1) by (simp add: word_op_def w)
  have "unat (drop_bit 4 (word_of_nat ?k :: 32 word)) = drop_bit 4 ?k" by (simp only: unat_drop_bit_eq u)
  also have "\<dots> = ?k div 16" unfolding drop_bit_eq_div by simp
  finally have "unat (drop_bit 4 (word_of_nat ?k :: 32 word)) = ?k div 16" .
  then show "word_operand (word_of_nat n OR push_bit 4 (word_of_nat m)) = m" using k(2) by (simp add: word_operand_def w)
qed

subsection \<open>The direct recursion\<close>

fun build :: "callbacks \<Rightarrow> ctxid \<Rightarrow> (string \<Rightarrow> handle) \<Rightarrow> tree \<Rightarrow> bool \<Rightarrow> mem \<Rightarrow> (handle \<times> mem) option"
  and build_args :: "callbacks \<Rightarrow> ctxid \<Rightarrow> (string \<Rightarrow> handle) \<Rightarrow> tree \<Rightarrow> handle list \<Rightarrow> mem \<Rightarrow> (handle list option \<times> mem) option" where
  "build cb c symv TNil raw s = Some (HNil, s)"
| "build cb c symv (TSymbol x) raw s = Some (symv x, rc_retain (symv x) s)"
| "build cb c symv (TInteger n) raw s = Some (rc_integer c n s)"
| "build cb c symv (TReal x) raw s = Some (rc_number c x s)"
| "build cb c symv (TString x) raw s = Some (rc_string_n c (Some x) s)"
| "build cb c symv (TPair h t) raw s =
     (if raw
      then case build cb c symv h True s of
             None \<Rightarrow> None
           | Some (v, s) \<Rightarrow>
               if v = HNull then Some (HNull, s)
               else (case build cb c symv t True s of
                       None \<Rightarrow> None
                     | Some (w, s) \<Rightarrow> if w = HNull then Some (HNull, rc_release v s) else Some (rc_cons_owned c v w s))
      else case rc_function_get c (symv (name h)) s of
             (fn, s) \<Rightarrow>
               if fn = HNull then Some (HNull, s)
               else case build_args cb c symv t [fn] s of
                      None \<Rightarrow> None
                    | Some (None, s) \<Rightarrow> Some (HNull, s)
                    | Some (Some vs, s) \<Rightarrow>
                        map_option (\<lambda>(v, s). (v, rc_release fn s))
                          (if named h ''cons'' then leaf_owned cb c 14 fn [vs ! 1, vs ! 0] False s
                           else rc_apply_rooted_owned_args cb c fn [vs ! 0] s))"
| "build cb c symv x raw s = None"
| "build_args cb c symv (TPair a r) vs s =
     (case build cb c symv a False s of
        None \<Rightarrow> None
      | Some (v, s) \<Rightarrow> if v = HNull then Some (None, fold rc_release vs s) else build_args cb c symv r (v # vs) s)"
| "build_args cb c symv q vs s = Some (Some vs, s)"

lemma build_args_length:
  "build_args cb c symv q vs s = Some (Some us, t) \<Longrightarrow> constant_args bs n q \<noteq> None \<Longrightarrow>
     \<exists>ws. us = ws @ vs \<and> length ws = n"
proof (induction q arbitrary: n vs s)
  case (TPair a r)
  then obtain k where n: "n = Suc k" "constant_args bs k r \<noteq> None"
    by (cases n) (auto split: option.splits)
  from TPair.prems(1) obtain v u where "build_args cb c symv r (v # vs) u = Some (Some us, t)"
    by (auto split: option.splits if_splits)
  from TPair.IH(2) [OF this n(2)] n(1) show ?case by auto
qed (auto split: if_splits)

subsection \<open>Writing extends the table\<close>

definition extends :: "const_state \<Rightarrow> const_state \<Rightarrow> bool" where
  "extends st st' \<longleftrightarrow> (case (st, st') of ((c, syms), (c', syms')) \<Rightarrow>
     prefix (words c) (words c') \<and> prefix (texts c) (texts c') \<and> prefix (integers c) (integers c') \<and>
     prefix (reals c) (reals c') \<and> prefix syms syms' \<and> depth c \<le> depth c')"

lemma extends_refl [simp]: "extends st st"
  by (auto simp: extends_def split: prod.splits)

lemma extends_trans: "extends st st' \<Longrightarrow> extends st' st'' \<Longrightarrow> extends st st''"
  unfolding extends_def by (auto split: prod.splits intro: prefix_order.trans)

lemma const_word_cases:
  assumes "const_word op operand effect c = Inr c'"
  shows "operand < 2 ^ 28" "c' = c\<lparr>words := words c @ [word_of_nat (const_code op) OR push_bit 4 (word_of_nat operand)],
    sp := nat (int (sp c) + effect), depth := max (depth c) (nat (int (sp c) + effect))\<rparr>"
  using assms by (auto simp: const_word_def Let_def split: if_splits)

lemma map_sum_Inr: "map_sum id f x = Inr y \<longleftrightarrow> (\<exists>z. x = Inr z \<and> y = f z)"
  by (cases x) auto

lemma extends_word: "const_word op n e c = Inr c' \<Longrightarrow> extends (c, syms) (c', syms)"
  by (auto dest!: const_word_cases(2) simp: extends_def)

lemma symbol_index_prefix: "symbol_index syms x = (i, syms') \<Longrightarrow> prefix syms syms' \<and> i < length syms' \<and> syms' ! i = x"
proof -
  assume e: "symbol_index syms x = (i, syms')"
  show ?thesis
  proof (cases "x \<in> set syms")
    case True
    then have "takeWhile ((\<noteq>) x) syms \<noteq> syms" by (auto simp: takeWhile_eq_all_conv)
    then have "length (takeWhile ((\<noteq>) x) syms) < length syms"
      using length_takeWhile_le [of "(\<noteq>) x" syms] takeWhile_eq_take [of "(\<noteq>) x" syms] by (metis le_neq_implies_less take_all_iff le_refl)
    with True e nth_length_takeWhile [of "(\<noteq>) x" syms] show ?thesis by (auto simp: symbol_index_def)
  qed (use e in \<open>auto simp: symbol_index_def\<close>)
qed

lemma extends_symbol: "const_symbol op x st = Inr st' \<Longrightarrow> extends st st'"
  using symbol_index_prefix
  by (auto simp: const_symbol_def map_sum_Inr split: prod.splits dest!: const_word_cases(2)) (force simp: extends_def)

lemma const_leaf:
  "const_node TNil raw st = (case st of (c, syms) \<Rightarrow> map_sum id (\<lambda>c. (c, syms)) (const_word RC_CONST_NIL 0 1 c))"
  "const_node (TInteger n) raw st = (case st of (c, syms) \<Rightarrow>
     map_sum id (\<lambda>c. (c, syms)) (const_word RC_CONST_INTEGER (length (integers c)) 1 (c\<lparr>integers := integers c @ [n]\<rparr>)))"
  "const_node (TReal x) raw st = (case st of (c, syms) \<Rightarrow>
     map_sum id (\<lambda>c. (c, syms)) (const_word RC_CONST_REAL (length (reals c)) 1 (c\<lparr>reals := reals c @ [x]\<rparr>)))"
  "const_node (TString y) raw st = (case st of (c, syms) \<Rightarrow>
     map_sum id (\<lambda>c. (c, syms)) (const_word RC_CONST_STRING (length (texts c)) 1 (c\<lparr>texts := texts c @ [y]\<rparr>)))"
  by (cases st; simp)+

lemma extends_grow:
  "const_word op n e (c\<lparr>integers := integers c @ is\<rparr>) = Inr c' \<Longrightarrow> extends (c, syms) (c', syms)"
  "const_word op n e (c\<lparr>reals := reals c @ rs\<rparr>) = Inr c' \<Longrightarrow> extends (c, syms) (c', syms)"
  "const_word op n e (c\<lparr>texts := texts c @ ts\<rparr>) = Inr c' \<Longrightarrow> extends (c, syms) (c', syms)"
  "const_word op n e c = Inr c' \<Longrightarrow> extends (c, syms) (c', syms)"
  by (auto dest!: const_word_cases(2) simp: extends_def)

lemma extends_node:
  "const_node x raw st = Inr st' \<Longrightarrow> extends st st'"
  "const_args x st = Inr st' \<Longrightarrow> extends st st'"
proof (induction x arbitrary: raw st st')
  case (TPair h t)
  { case 1
    show ?case
    proof (cases raw)
      case True
      with 1 obtain u c syms z where "const_node h True st = Inr u" "const_node t True u = Inr (c, syms)"
        "const_word RC_CONST_PAIR 0 (- 1) c = Inr z" "st' = (z, syms)" by (auto split: sum.splits simp: map_sum_Inr)
      with TPair(1,3) extends_word show ?thesis by (blast intro: extends_trans)
    next
      case False
      with 1 obtain u c syms op e z where "const_symbol RC_CONST_FUNCTION (name h) st = Inr u" "const_args t u = Inr (c, syms)"
        "const_word op 0 e c = Inr z" "st' = (z, syms)" by (auto split: sum.splits if_splits simp: map_sum_Inr)
      with TPair(4) extends_symbol extends_word show ?thesis by (blast intro: extends_trans)
    qed }
  { case 2
    then obtain u where "const_node h False st = Inr u" "const_args t u = Inr st'" by (auto split: sum.splits)
    with TPair(1,4) show ?case by (blast intro: extends_trans) }
qed (auto simp: const_leaf map_sum_Inr extends_symbol dest: extends_grow split: prod.splits)

subsection \<open>Running a table is the direct recursion\<close>

definition serves :: "const_table \<Rightarrow> handle list \<Rightarrow> (string \<Rightarrow> handle) \<Rightarrow> const_state \<Rightarrow> bool" where
  \<comment> \<open>the table and the symbols of the module contain what has been written so far\<close>
  "serves d symtab symv st \<longleftrightarrow> (case st of (c, syms) \<Rightarrow>
     prefix (texts c) (texts d) \<and> prefix (integers c) (integers d) \<and> prefix (reals c) (reals d) \<and>
     depth c \<le> depth d \<and> prefix (map symv syms) symtab)"

lemma serves_extends: "serves d symtab symv st' \<Longrightarrow> extends st st' \<Longrightarrow> serves d symtab symv st"
  unfolding serves_def extends_def by (auto split: prod.splits intro: prefix_order.trans map_mono_prefix)

lemma prefix_nth: "prefix xs ys \<Longrightarrow> i < length xs \<Longrightarrow> i < length ys \<and> ys ! i = xs ! i"
  by (auto simp: prefix_def nth_append)

definition pushes :: "callbacks \<Rightarrow> ctxid \<Rightarrow> handle list \<Rightarrow> const_table \<Rightarrow> 32 word list \<Rightarrow> nat \<Rightarrow>
    (mem \<Rightarrow> (handle \<times> mem) option) \<Rightarrow> bool" where
  \<comment> \<open>the words push the value of the computation, or leave the loop where it fails\<close>
  "pushes cb c symtab d ws n f \<longleftrightarrow> (\<forall>st s later. length st = n \<longrightarrow>
     table_loop cb c symtab d (ws @ later) st s =
       (case f s of
          None \<Rightarrow> None
        | Some (v, t) \<Rightarrow> if v = HNull then Some (HNull, fold rc_release st t) else table_loop cb c symtab d later (v # st) t))"

lemma pushesD:
  "pushes cb c symtab d ws n f \<Longrightarrow> length st = n \<Longrightarrow> table_loop cb c symtab d (ws @ later) st s =
     (case f s of
        None \<Rightarrow> None
      | Some (v, t) \<Rightarrow> if v = HNull then Some (HNull, fold rc_release st t) else table_loop cb c symtab d later (v # st) t)"
  by (simp add: pushes_def)

lemma word_written:
  assumes "const_word op n e c = Inr c'"
  obtains w where "words c' = words c @ [w]" "word_op w = const_code op" "word_operand w = n" "sp c' = nat (int (sp c) + e)"
    "sp c' \<le> depth c'"
proof -
  note c = const_word_cases [OF assms]
  have "const_code op < 16" by (cases op) simp_all
  with c(1) show thesis using word_parts [of "const_code op" n] c(2) by (intro that) auto
qed

lemma pushes_word:
  assumes "\<And>st s. length st = n \<Longrightarrow> table_step cb c symtab d w st s = map_option (\<lambda>(v, t). (v, st, t)) (f s)" "n < depth d"
  shows "pushes cb c symtab d [w] n f"
  using assms by (auto simp: pushes_def stack_size_def split: option.splits)

definition runs_node :: "callbacks \<Rightarrow> ctxid \<Rightarrow> handle list \<Rightarrow> const_table \<Rightarrow> (mem \<Rightarrow> (handle \<times> mem) option) \<Rightarrow>
    const_table \<Rightarrow> const_table \<Rightarrow> bool" where
  "runs_node cb c symtab d f b b' \<longleftrightarrow>
     (\<exists>ws. words b' = words b @ ws \<and> sp b' = Suc (sp b) \<and> pushes cb c symtab d ws (sp b) f)"

lemma runs_nodeI:
  "pushes cb c symtab d ws (sp b) f \<Longrightarrow> words b' = words b @ ws \<Longrightarrow> sp b' = Suc (sp b) \<Longrightarrow> runs_node cb c symtab d f b b'"
  by (auto simp: runs_node_def)

lemma runs_node_data:
  "runs_node cb c symtab d f (b\<lparr>integers := is\<rparr>) b' = runs_node cb c symtab d f b b'"
  "runs_node cb c symtab d f (b\<lparr>reals := rs\<rparr>) b' = runs_node cb c symtab d f b b'"
  "runs_node cb c symtab d f (b\<lparr>texts := ts\<rparr>) b' = runs_node cb c symtab d f b b'"
  by (simp_all add: runs_node_def)

lemma runs_word:
  assumes "const_word op n 1 b = Inr b'" "depth b' \<le> depth d"
    and "\<And>w st s. word_op w = const_code op \<Longrightarrow> word_operand w = n \<Longrightarrow>
      table_step cb c symtab d w st s = map_option (\<lambda>(v, t). (v, st, t)) (f s)"
  shows "runs_node cb c symtab d f b b'"
proof -
  obtain w where w: "words b' = words b @ [w]" "word_op w = const_code op" "word_operand w = n" "sp b' = nat (int (sp b) + 1)" "sp b' \<le> depth b'"
    using word_written [OF assms(1)] .
  have "pushes cb c symtab d [w] (sp b) f" by (rule pushes_word) (use w assms(2,3) in auto)
  with w show ?thesis by (auto simp: runs_node_def nat_add_distrib)
qed

lemma runs_symbol:
  assumes "const_symbol op x (b, syms) = Inr (b', syms')" "serves d symtab symv (b', syms')"
    and "\<And>w st s. word_op w = const_code op \<Longrightarrow> word_operand w < length symtab \<Longrightarrow> symtab ! word_operand w = symv x \<Longrightarrow>
      table_step cb c symtab d w st s = map_option (\<lambda>(v, t). (v, st, t)) (f s)"
  shows "runs_node cb c symtab d f b b'"
proof -
  obtain i where i: "symbol_index syms x = (i, syms')" "const_word op i 1 (b\<lparr>uses_symbols := True\<rparr>) = Inr b'"
    using assms(1) by (auto simp: const_symbol_def map_sum_Inr split: prod.splits)
  have t: "i < length symtab \<and> symtab ! i = symv x"
    using symbol_index_prefix [OF i(1)] prefix_nth [of "map symv syms'" symtab i] assms(2) by (simp add: serves_def)
  have "runs_node cb c symtab d f (b\<lparr>uses_symbols := True\<rparr>) b'"
    by (rule runs_word [OF i(2)]) (use assms(2,3) t in \<open>auto simp: serves_def\<close>)
  then show ?thesis by (simp add: runs_node_def)
qed

lemma runs_data:
  assumes "i < length xs" "prefix xs ys"
  shows "at_index ys i f s = f (xs ! i) s"
  using prefix_nth [OF assms(2,1)] by (simp add: at_index_def)

lemma serves_depth: "serves d symtab symv (b, syms) \<Longrightarrow> depth b \<le> depth d"
  by (simp add: serves_def)

lemma node_runs:
  "const_node x raw (b, syms) = Inr (b', syms') \<Longrightarrow> constant_nodes bs x raw \<noteq> None \<Longrightarrow> serves d symtab symv (b', syms') \<Longrightarrow>
     runs_node cb c symtab d (build cb c symv x raw) b b'"
  "const_args x (b, syms) = Inr (b', syms') \<Longrightarrow> constant_args bs n x \<noteq> None \<Longrightarrow> serves d symtab symv (b', syms') \<Longrightarrow>
     \<exists>ws. words b' = words b @ ws \<and> sp b' = sp b + n \<and>
       (\<forall>vs st s later. length vs + length st = sp b \<longrightarrow> table_loop cb c symtab d (ws @ later) (vs @ st) s =
          (case build_args cb c symv x vs s of
             None \<Rightarrow> None
           | Some (None, t) \<Rightarrow> Some (HNull, fold rc_release st t)
           | Some (Some us, t) \<Rightarrow> table_loop cb c symtab d later (us @ st) t))"
proof (induction x arbitrary: raw b syms b' syms' n)
  case TNil
  { case 1
    then have w: "const_word RC_CONST_NIL 0 1 b = Inr b'" by (simp add: map_sum_Inr)
    from runs_word [OF w serves_depth [OF 1(3)]] show ?case by (simp add: table_step_def) }
  { case 2
    then show ?case by (auto split: if_splits) }
next
  case (TSymbol y)
  { case 1
    then have w: "const_symbol RC_CONST_SYMBOL y (b, syms) = Inr (b', syms')" by simp
    from runs_symbol [OF w 1(3)] show ?case by (simp add: table_step_def at_index_def) }
  { case 2
    then show ?case by (auto split: if_splits) }
next
  case (TInteger k)
  { case 1
    then have w: "const_word RC_CONST_INTEGER (length (integers b)) 1 (b\<lparr>integers := integers b @ [k]\<rparr>) = Inr b'" by (simp add: map_sum_Inr)
    have p: "prefix (integers b @ [k]) (integers d)" using const_word_cases(2) [OF w] 1(3) by (simp add: serves_def)
    have "runs_node cb c symtab d (build cb c symv (TInteger k) raw) (b\<lparr>integers := integers b @ [k]\<rparr>) b'"
      by (rule runs_word [OF w serves_depth [OF 1(3)]]) (simp add: table_step_def runs_data [OF _ p] split: prod.splits)
    then show ?case by (simp only: runs_node_data) }
  { case 2
    then show ?case by (auto split: if_splits) }
next
  case (TReal k)
  { case 1
    then have w: "const_word RC_CONST_REAL (length (reals b)) 1 (b\<lparr>reals := reals b @ [k]\<rparr>) = Inr b'" by (simp add: map_sum_Inr)
    have p: "prefix (reals b @ [k]) (reals d)" using const_word_cases(2) [OF w] 1(3) by (simp add: serves_def)
    have "runs_node cb c symtab d (build cb c symv (TReal k) raw) (b\<lparr>reals := reals b @ [k]\<rparr>) b'"
      by (rule runs_word [OF w serves_depth [OF 1(3)]]) (simp add: table_step_def runs_data [OF _ p] split: prod.splits)
    then show ?case by (simp only: runs_node_data) }
  { case 2
    then show ?case by (auto split: if_splits) }
next
  case (TString k)
  { case 1
    then have w: "const_word RC_CONST_STRING (length (texts b)) 1 (b\<lparr>texts := texts b @ [k]\<rparr>) = Inr b'" by (simp add: map_sum_Inr)
    have p: "prefix (texts b @ [k]) (texts d)" using const_word_cases(2) [OF w] 1(3) by (simp add: serves_def)
    have "runs_node cb c symtab d (build cb c symv (TString k) raw) (b\<lparr>texts := texts b @ [k]\<rparr>) b'"
      by (rule runs_word [OF w serves_depth [OF 1(3)]]) (simp add: table_step_def runs_data [OF _ p] split: prod.splits)
    then show ?case by (simp only: runs_node_data) }
  { case 2
    then show ?case by (auto split: if_splits) }
next
  case (TPair h t)
  note IH = this
  { case 1
    show ?case
    proof (cases raw)
      case True
      obtain c1 s1 c2 where e: "const_node h True (b, syms) = Inr (c1, s1)" "const_node t True (c1, s1) = Inr (c2, syms')"
        "const_word RC_CONST_PAIR 0 (- 1) c2 = Inr b'"
        using 1(1) True by (auto simp: map_sum_Inr split: sum.splits)
      have n: "constant_nodes bs h True \<noteq> None" "constant_nodes bs t True \<noteq> None"
        using 1(2) True by (auto split: option.splits)
      have s2: "serves d symtab symv (c2, syms')" by (rule serves_extends [OF 1(3) extends_word [OF e(3)]])
      have s1: "serves d symtab symv (c1, s1)" by (rule serves_extends [OF s2 extends_node(1) [OF e(2)]])
      from IH(1) [OF e(1) n(1) s1] obtain u where u: "words c1 = words b @ u" "sp c1 = Suc (sp b)"
        "pushes cb c symtab d u (sp b) (build cb c symv h True)" by (auto simp: runs_node_def)
      from IH(3) [OF e(2) n(2) s2] obtain v where v: "words c2 = words c1 @ v" "sp c2 = Suc (sp c1)"
        "pushes cb c symtab d v (sp c1) (build cb c symv t True)" by (auto simp: runs_node_def)
      obtain w where w: "words b' = words c2 @ [w]" "word_op w = const_code RC_CONST_PAIR"
        "sp b' = nat (int (sp c2) + - 1)" "sp b' \<le> depth b'" using word_written [OF e(3)] .
      have sp: "sp b' = Suc (sp b)" "sp b < stack_size d"
        using u(2) v(2) w(3,4) serves_depth [OF 1(3)] by (auto simp: stack_size_def)
      have "pushes cb c symtab d (u @ v @ [w]) (sp b) (build cb c symv (TPair h t) raw)"
        unfolding pushes_def
      proof (intro allI impI)
        fix st :: "handle list" and s later
        assume l: "length st = sp b"
        have A: "table_loop cb c symtab d (u @ v @ [w] @ later) st s =
          (case build cb c symv h True s of None \<Rightarrow> None
           | Some (x, t) \<Rightarrow> if x = HNull then Some (HNull, fold rc_release st t) else table_loop cb c symtab d (v @ [w] @ later) (x # st) t)" for s
          by (rule pushesD [OF u(3) l])
        have B: "table_loop cb c symtab d (v @ [w] @ later) (x # st) s =
          (case build cb c symv t True s of None \<Rightarrow> None
           | Some (y, t) \<Rightarrow> if y = HNull then Some (HNull, fold rc_release (x # st) t) else table_loop cb c symtab d ([w] @ later) (y # x # st) t)" for x s
          by (rule pushesD [OF v(3)]) (simp add: u(2) l)
        show "table_loop cb c symtab d ((u @ v @ [w]) @ later) st s =
          (case build cb c symv (TPair h t) raw s of None \<Rightarrow> None
           | Some (x, t) \<Rightarrow> if x = HNull then Some (HNull, fold rc_release st t) else table_loop cb c symtab d later (x # st) t)"
        proof (cases "build cb c symv h True s")
          case None
          with A [of s] True show ?thesis by simp
        next
          case (Some p)
          obtain x t1 where p: "p = (x, t1)" by (rule prod.exhaust)
          show ?thesis
          proof (cases "x = HNull")
            case True
            with A [of s] Some p \<open>raw\<close> show ?thesis by simp
          next
            case x: False
            show ?thesis
            proof (cases "build cb c symv t True t1")
              case None
              with A [of s] B [of x t1] Some p \<open>raw\<close> x show ?thesis by simp
            next
              case (Some q)
              obtain y t2 where q: "q = (y, t2)" by (rule prod.exhaust)
              obtain r t3 where r: "rc_cons_owned c x y t2 = (r, t3)" by (rule prod.exhaust)
              have C: "table_loop cb c symtab d ([w] @ later) (y # x # st) t2 =
                (if r = HNull then Some (HNull, fold rc_release st t3) else table_loop cb c symtab d later (r # st) t3)"
                using r w(2) l sp(2) by (simp add: table_step_def)
              show ?thesis using A [of s] B [of x t1] C Some \<open>build cb c symv h True s = Some p\<close> p q r \<open>raw\<close> x
                by (cases "y = HNull") simp_all
            qed
          qed
        qed
      qed
      then show ?thesis by (rule runs_nodeI) (simp_all add: u(1) v(1) w(1) sp(1))
    next
      case False
      define argc where "argc = (if named h ''cons'' then 2 else 1 :: nat)"
      define op where "op = (if named h ''cons'' then RC_CONST_CONS else RC_CONST_CALL1)"
      obtain c1 s1 c2 where e: "const_symbol RC_CONST_FUNCTION (name h) (b, syms) = Inr (c1, s1)" "const_args t (c1, s1) = Inr (c2, syms')"
        "const_word op 0 (- int argc) c2 = Inr b'"
        using 1(1) False by (auto simp: map_sum_Inr op_def argc_def split: sum.splits if_splits)
      have n: "constant_args bs argc t \<noteq> None"
        using 1(2) False by (auto simp: argc_def Let_def split: if_splits)
      have s2: "serves d symtab symv (c2, syms')" by (rule serves_extends [OF 1(3) extends_word [OF e(3)]])
      have s1: "serves d symtab symv (c1, s1)" by (rule serves_extends [OF s2 extends_node(2) [OF e(2)]])
      have "runs_node cb c symtab d (\<lambda>s. Some (rc_function_get c (symv (name h)) s)) b c1"
        by (rule runs_symbol [OF e(1) s1]) (simp add: table_step_def at_index_def split: prod.splits)
      then obtain u where u: "words c1 = words b @ u" "sp c1 = Suc (sp b)"
        "pushes cb c symtab d u (sp b) (\<lambda>s. Some (rc_function_get c (symv (name h)) s))" by (auto simp: runs_node_def)
      from IH(4) [OF e(2) n s2] obtain v where v: "words c2 = words c1 @ v" "sp c2 = sp c1 + argc"
        and run: "\<And>vs st s later. length vs + length st = sp c1 \<Longrightarrow> table_loop cb c symtab d (v @ later) (vs @ st) s =
          (case build_args cb c symv t vs s of
             None \<Rightarrow> None
           | Some (None, t) \<Rightarrow> Some (HNull, fold rc_release st t)
           | Some (Some us, t) \<Rightarrow> table_loop cb c symtab d later (us @ st) t)" by blast
      obtain w where w: "words b' = words c2 @ [w]" "word_op w = const_code op"
        "sp b' = nat (int (sp c2) + - int argc)" "sp b' \<le> depth b'" using word_written [OF e(3)] .
      have sp: "sp b' = Suc (sp b)" "sp b < stack_size d"
        using u(2) v(2) w(3,4) serves_depth [OF 1(3)] by (auto simp: stack_size_def)
      have "pushes cb c symtab d (u @ v @ [w]) (sp b) (build cb c symv (TPair h t) raw)"
        unfolding pushes_def
      proof (intro allI impI)
        fix st :: "handle list" and s later
        assume l: "length st = sp b"
        obtain fn s1 where fn: "rc_function_get c (symv (name h)) s = (fn, s1)" by (rule prod.exhaust)
        have A: "table_loop cb c symtab d (u @ v @ [w] @ later) st s =
          (if fn = HNull then Some (HNull, fold rc_release st s1) else table_loop cb c symtab d (v @ [w] @ later) ([fn] @ st) s1)"
          using pushesD [OF u(3) l, of "v @ [w] @ later" s] fn by simp
        have B: "table_loop cb c symtab d (v @ [w] @ later) ([fn] @ st) s1 =
          (case build_args cb c symv t [fn] s1 of
             None \<Rightarrow> None
           | Some (None, t) \<Rightarrow> Some (HNull, fold rc_release st t)
           | Some (Some us, t) \<Rightarrow> table_loop cb c symtab d ([w] @ later) (us @ st) t)"
          by (rule run) (use l u(2) in simp)
        show "table_loop cb c symtab d ((u @ v @ [w]) @ later) st s =
          (case build cb c symv (TPair h t) raw s of None \<Rightarrow> None
           | Some (x, t) \<Rightarrow> if x = HNull then Some (HNull, fold rc_release st t) else table_loop cb c symtab d later (x # st) t)"
        proof (cases "fn = HNull")
          case True
          with A fn \<open>\<not> raw\<close> show ?thesis by simp
        next
          case f: False
          consider (diverges) "build_args cb c symv t [fn] s1 = None" | (failed) t1 where "build_args cb c symv t [fn] s1 = Some (None, t1)"
            | (returned) us t1 where "build_args cb c symv t [fn] s1 = Some (Some us, t1)"
            by (cases "build_args cb c symv t [fn] s1") (auto split: option.splits, metis not_None_eq)
          then show ?thesis
          proof cases
            case diverges
            with A B f fn \<open>\<not> raw\<close> show ?thesis by simp
          next
            case failed
            with A B f fn \<open>\<not> raw\<close> show ?thesis by simp
          next
            case returned
            define call where "call = (if named h ''cons'' then leaf_owned cb c 14 fn [us ! 1, us ! 0] False t1
              else rc_apply_rooted_owned_args cb c fn [us ! 0] t1)"
            obtain ws where ws: "us = ws @ [fn]" "length ws = argc" using build_args_length [OF returned n] by auto
            have "table_step cb c symtab d w (us @ st) t1 = map_option (\<lambda>(v, s). (v, st, rc_release fn s)) call"
            proof (cases "named h ''cons''")
              case True
              then obtain x y where "us = [x, y, fn]" using ws by (auto simp: argc_def numeral_2_eq_2 length_Suc_conv)
              with True w(2) show ?thesis by (simp add: table_step_def op_def call_def)
            next
              case False
              then obtain x where "us = [x, fn]" using ws by (auto simp: argc_def length_Suc_conv)
              with False w(2) show ?thesis by (simp add: table_step_def op_def call_def)
            qed
            then have "table_loop cb c symtab d ([w] @ later) (us @ st) t1 =
              (case map_option (\<lambda>(v, s). (v, rc_release fn s)) call of None \<Rightarrow> None
               | Some (x, t) \<Rightarrow> if x = HNull then Some (HNull, fold rc_release st t) else table_loop cb c symtab d later (x # st) t)"
              using l sp(2) by (cases call) auto
            with A B f fn \<open>\<not> raw\<close> returned call_def show ?thesis by simp
          qed
        qed
      qed
      then show ?thesis by (rule runs_nodeI) (simp_all add: u(1) v(1) w(1) sp(1))
    qed }
  { case 2
    obtain c1 s1 where e: "const_node h False (b, syms) = Inr (c1, s1)" "const_args t (c1, s1) = Inr (b', syms')"
      using 2(1) by (auto split: sum.splits)
    obtain k where n: "n = Suc k" "constant_nodes bs h False \<noteq> None" "constant_args bs k t \<noteq> None"
      using 2(2) by (cases n) (auto split: option.splits)
    have s1: "serves d symtab symv (c1, s1)" by (rule serves_extends [OF 2(3) extends_node(2) [OF e(2)]])
    from IH(1) [OF e(1) n(2) s1] obtain u where u: "words c1 = words b @ u" "sp c1 = Suc (sp b)"
      "pushes cb c symtab d u (sp b) (build cb c symv h False)" by (auto simp: runs_node_def)
    from IH(4) [OF e(2) n(3) 2(3)] obtain v where v: "words b' = words c1 @ v" "sp b' = sp c1 + k"
      and run: "\<And>vs st s later. length vs + length st = sp c1 \<Longrightarrow> table_loop cb c symtab d (v @ later) (vs @ st) s =
          (case build_args cb c symv t vs s of
             None \<Rightarrow> None
           | Some (None, t) \<Rightarrow> Some (HNull, fold rc_release st t)
           | Some (Some us, t) \<Rightarrow> table_loop cb c symtab d later (us @ st) t)" by blast
    have "table_loop cb c symtab d ((u @ v) @ later) (vs @ st) s =
      (case build_args cb c symv (TPair h t) vs s of
         None \<Rightarrow> None
       | Some (None, t) \<Rightarrow> Some (HNull, fold rc_release st t)
       | Some (Some us, t) \<Rightarrow> table_loop cb c symtab d later (us @ st) t)"
      if l: "length vs + length st = sp b" for vs st s later
    proof -
      have A: "table_loop cb c symtab d (u @ v @ later) (vs @ st) s =
        (case build cb c symv h False s of None \<Rightarrow> None
         | Some (x, t) \<Rightarrow> if x = HNull then Some (HNull, fold rc_release (vs @ st) t) else table_loop cb c symtab d (v @ later) (x # vs @ st) t)"
        using pushesD [OF u(3), of "vs @ st" "v @ later" s] l by simp
      have B: "table_loop cb c symtab d (v @ later) (x # vs @ st) t1 =
        (case build_args cb c symv t (x # vs) t1 of
           None \<Rightarrow> None
         | Some (None, t) \<Rightarrow> Some (HNull, fold rc_release st t)
         | Some (Some us, t) \<Rightarrow> table_loop cb c symtab d later (us @ st) t)" for x t1
        using run [of "x # vs" st] l u(2) by simp
      show ?thesis by (cases "build cb c symv h False s") (auto simp: A B)
    qed
    with u v n(1) show ?case by (intro exI [of _ "u @ v"]) simp }
qed (auto split: if_splits)

lemma table_is_build:
  assumes "constant_table x raw syms = Inr (d, syms')" "constant_nodes bs x raw \<noteq> None" "prefix (map symv syms') symtab"
  shows "table_loop cb c symtab d (words d) [] s = build cb c symv x raw s"
proof -
  have e: "const_node x raw (empty_table, syms) = Inr (d, syms')" "sp d = 1"
    using assms(1) by (auto simp: constant_table_def split: sum.splits if_splits)
  have "serves d symtab symv (d, syms')" using assms(3) by (simp add: serves_def)
  from node_runs(1) [OF e(1) assms(2) this] obtain ws where ws: "words d = ws" "pushes cb c symtab d ws 0 (build cb c symv x raw)"
    by (auto simp: runs_node_def empty_table_def)
  have null: "build cb c symv x raw s = Some (HNull, t) \<or> v \<noteq> HNull" if "build cb c symv x raw s = Some (v, t)" for v t
    using that by auto
  from pushesD [OF ws(2), of "[]" "[]" s] ws(1) null show ?thesis by (auto split: option.splits)
qed

subsection \<open>Data\<close>

fun stands_for :: "mem \<Rightarrow> handle \<Rightarrow> tree \<Rightarrow> bool" where
  \<comment> \<open>the tree is what the accessors of the runtime show of the value\<close>
  "stands_for s v TNil \<longleftrightarrow> v = HNil"
| "stands_for s v (TSymbol x) \<longleftrightarrow> rc_type s v = RC_SYMBOL \<and> data (load_of s v) = x"
| "stands_for s v (TInteger n) \<longleftrightarrow> rc_type s v = RC_NUMBER \<and> rc_number_is_exact_integer s v \<and> rc_integer_value s v = n"
| "stands_for s v (TReal x) \<longleftrightarrow> rc_type s v = RC_NUMBER \<and> \<not> rc_number_is_exact_integer s v \<and> rc_number_value s v = x"
| "stands_for s v (TString x) \<longleftrightarrow> rc_type s v = RC_STRING \<and> data (load_of s v) = x"
| "stands_for s v (TPair h t) \<longleftrightarrow> rc_type s v = RC_PAIR \<and> stands_for s (head (load_of s v)) h \<and> stands_for s (tail (load_of s v)) t"
| "stands_for s v x \<longleftrightarrow> False"

lemma stands_for_kept: "stands_for s v x \<Longrightarrow> kept R s t \<Longrightarrow> rooted s R v \<Longrightarrow> stands_for t v x"
proof (induction x arbitrary: v)
  case (TPair h u)
  with rooted_pair [of s R v] kept_load [of R s t v] show ?case by simp
next
  case (TInteger n)
  then have "represents s v (SInt n)" by simp
  from represents_kept(1) [OF this TInteger(2,3)] show ?case by simp
next
  case (TReal x)
  with kept_load [of R s t v] show ?case
    by (cases v) (auto simp: rc_number_is_exact_integer_def rc_number_value_def boxed_exact_def)
qed (use kept_load in simp_all)

definition symbol_served :: "mem \<Rightarrow> handle \<Rightarrow> string \<Rightarrow> bool" where
  \<comment> \<open>an entry of the module's symbol table: an immortal symbol of that name\<close>
  "symbol_served s v x \<longleftrightarrow> (\<exists>a. v = HRef a \<and> live s a \<and> refs (cell_at s a) = RC_IMMORTAL \<and> stands_for s v (TSymbol x))"

lemma symbol_served_kept: "symbol_served s v x \<Longrightarrow> kept R s t \<Longrightarrow> symbol_served t v x"
proof -
  assume s: "symbol_served s v x" and k: "kept R s t"
  then obtain a where a: "v = HRef a" "live s a" "refs (cell_at s a) = RC_IMMORTAL" "stands_for s v (TSymbol x)"
    by (auto simp: symbol_served_def)
  then have o: "a \<in> owned (view s) R" by (intro owned.immortal) (simp_all add: live_fmdom)
  with k have "cell_kept s t a" by (simp add: kept_def)
  with a stands_for_kept [OF a(4) k] o show ?thesis by (auto simp: symbol_served_def cell_kept_def rooted_def)
qed

fun tree_symbols :: "tree \<Rightarrow> string set" where
  "tree_symbols (TSymbol x) = {x}"
| "tree_symbols (TPair h t) = tree_symbols h \<union> tree_symbols t"
| "tree_symbols _ = {}"

lemma ready_release: "ready c (add_mset v R) s \<Longrightarrow> ready c R (rc_release v s) \<and> kept R s (rc_release v s)"
  using works_ready [OF works_release [of c s v "{#}"], of R] by simp

lemma cons_owned_ready:
  assumes "rc_cons_owned c h w s = (v, t)" "ready c (add_mset h (add_mset w R)) s"
    and "stands_for s h x" "stands_for s w y"
  shows "ready c (add_mset v R) t \<and> kept R s t \<and> (v \<noteq> HNull \<longrightarrow> stands_for t v (TPair x y))"
proof -
  have c: "c < next_ctx s" and ok: "heap_ok s (add_mset h (add_mset w R))" using assms(2) by (simp_all add: ready_def)
  have "works c s {#h, w#} t {#v#}" by (rule works_moves) (rule moves_rc_cons_owned [OF c assms(1)])
  from works_ready [OF this, of R] assms(2) have r: "ready c (add_mset v R) t" "kept R s t" by simp_all
  have "stands_for t v (TPair x y)" if "v \<noteq> HNull"
    using assms(1)
  proof (cases rule: rc_cons_owned_cases)
    case (new a s1 r)
    note res = rc_cons_owned_result [OF ok c assms(1) [unfolded new(1)]]
    have k: "kept (add_mset h (add_mset w R)) s t"
      using res(4) owned_live [OF rc_okD(6) [OF ok [unfolded heap_ok_def]]] by (auto simp: kept_def grows_def live_fmdom)
    have "stands_for t h x" "stands_for t w y"
      using stands_for_kept [OF assms(3) k rooted_root] stands_for_kept [OF assms(4) k rooted_root] by simp_all
    with new(1) res(2) show ?thesis by simp
  qed (use that in simp_all)
  with r show ?thesis by simp
qed

lemma build_data:
  assumes "build cb c symv x True s = Some (v, t)" "ready c R s" "\<forall>y\<in>tree_symbols x. symbol_served s (symv y) y"
  shows "ready c (add_mset v R) t \<and> kept R s t \<and> (v \<noteq> HNull \<longrightarrow> stands_for t v x)"
  using assms
proof (induction x arbitrary: v s t R)
  case TNil
  with works_ready [OF works_refl [of c s "{#}"], of R] show ?case by (simp add: ready_def)
next
  case (TSymbol y)
  obtain a where a: "symv y = HRef a" "live s a" "refs (cell_at s a) = RC_IMMORTAL" "stands_for s (HRef a) (TSymbol y)"
    using TSymbol(3) by (auto simp: symbol_served_def)
  have vt: "v = HRef a" "t = rc_retain (HRef a) s" using TSymbol(1) a(1) by (auto simp del: rc_retain.simps)
  have "works c s {#} t {#HRef a#}" unfolding vt(2) by (rule works_moves) (rule moves_retain, use a in \<open>simp add: valid_def\<close>)
  from works_ready [OF this, of R] TSymbol(2) have r: "ready c (add_mset (HRef a) R) t" "kept R s t" by simp_all
  have "rooted s R (HRef a)" using a by (auto simp: rooted_def live_fmdom intro: owned.immortal)
  with r vt stands_for_kept [OF a(4) r(2)] show ?case by simp
next
  case (TInteger n)
  then have e: "rc_integer c n s = (v, t)" by simp
  from works_ready [OF works_integer [OF e], of R] integer_represents [OF e _ TInteger(2)] TInteger(2) show ?case by simp
next
  case (TReal x)
  then have e: "rc_number c x s = (v, t)" by simp
  have "stands_for t v (TReal x)" if v: "v \<noteq> HNull"
  proof -
    have c: "c < next_ctx s" "heap_ok s R" using TReal(2) by (simp_all add: ready_def)
    obtain a where "v = HRef a" "load (cell_at t a) = VNumber x None"
      by (rule rc_integer_boxed [OF c v e [unfolded rc_number_def]])
    then show ?thesis by (simp add: rc_number_is_exact_integer_def rc_number_value_def boxed_exact_def)
  qed
  with works_ready [OF works_number [OF e], of R] TReal(2) show ?case by simp
next
  case (TString x)
  then have e: "rc_string_n c (Some x) s = (v, t)" by simp
  from works_ready [OF works_string [OF e], of R] string_represents [OF e _ TString(2)] TString(2) show ?case by simp
next
  case (TPair h u)
  obtain vh s1 where h: "build cb c symv h True s = Some (vh, s1)" using TPair.prems(1) by (auto split: option.splits)
  have H: "ready c (add_mset vh R) s1" "kept R s s1" "vh \<noteq> HNull \<Longrightarrow> stands_for s1 vh h"
    using TPair.IH(1) [OF h TPair.prems(2)] TPair.prems(3) by auto
  show ?case
  proof (cases "vh = HNull")
    case True
    with TPair.prems(1) h H show ?thesis by simp
  next
    case vh: False
    obtain w s2 where u: "build cb c symv u True s1 = Some (w, s2)" using TPair.prems(1) h vh by (auto split: option.splits)
    have "\<forall>y\<in>tree_symbols u. symbol_served s1 (symv y) y" using TPair.prems(3) symbol_served_kept [OF _ H(2)] by auto
    from TPair.IH(2) [OF u H(1) this]
    have U: "ready c (add_mset w (add_mset vh R)) s2" "kept (add_mset vh R) s1 s2" "w \<noteq> HNull \<Longrightarrow> stands_for s2 w u" by simp_all
    have kR: "kept R s s2" using kept_trans [OF H(2) kept_subset [OF U(2)]] by simp
    show ?thesis
    proof (cases "w = HNull")
      case True
      then have vt: "v = HNull" "t = rc_release vh s2" using TPair.prems(1) h u vh by simp_all
      have "ready c (add_mset vh R) s2" using U(1) True by (simp add: ready_def)
      from ready_release [OF this] vt kept_trans [OF kR] show ?thesis by (simp add: ready_def)
    next
      case w: False
      then have e: "rc_cons_owned c vh w s2 = (v, t)" using TPair.prems(1) h u vh by simp
      have "stands_for s2 vh h" by (rule stands_for_kept [OF H(3) [OF vh] U(2) rooted_root]) simp
      from cons_owned_ready [OF e _ this U(3) [OF w], of R] U(1) kept_trans [OF kR]
      show ?thesis by (simp add: add_mset_commute)
    qed
  qed
qed simp_all

lemma build_total: "constant_nodes bs x True \<noteq> None \<Longrightarrow> build cb c symv x True s \<noteq> None"
  by (induction x arbitrary: s) (auto split: option.splits if_splits, (metis option.distinct(1))+)

lemma constant_data_is_build:
  assumes "constant_table x raw syms = Inr (d, syms')" "constant_nodes bs x raw \<noteq> None" "prefix (map symv syms') symtab"
  shows "rc_constant_data cb c symtab d s =
    (case (if depth d \<le> 64 then (True, s) else library_call s) of
       (okay, s) \<Rightarrow> if okay then build cb c symv x raw s else Some (rc_fail c ''constant data allocation failed'' s))"
  by (simp add: rc_constant_data_def table_is_build [OF assms] split: prod.split)

lemma constant_data_ready:
  assumes "constant_table x True syms = Inr (d, syms')" "constant_nodes bs x True \<noteq> None" "prefix (map symv syms') symtab"
    and "\<forall>y\<in>tree_symbols x. symbol_served s (symv y) y" "ready c R s"
  shows "\<exists>v t. rc_constant_data cb c symtab d s = Some (v, t) \<and> ready c (add_mset v R) t \<and> kept R s t \<and>
    (v \<noteq> HNull \<longrightarrow> stands_for t v x)"
proof -
  obtain okay s1 where l: "(if depth d \<le> 64 then (True, s) else library_call s) = (okay, s1)" by (rule prod.exhaust)
  have "works c s {#} s1 {#}" using l works_library_call [of s okay s1 c "{#}"] by (auto split: if_splits)
  from works_ready [OF this, of R] assms(5) have r: "ready c R s1" "kept R s s1" by simp_all
  show ?thesis
  proof (cases okay)
    case True
    obtain v t where b: "build cb c symv x True s1 = Some (v, t)" using build_total [OF assms(2)] by fastforce
    have "\<forall>y\<in>tree_symbols x. symbol_served s1 (symv y) y" using assms(4) symbol_served_kept [OF _ r(2)] by blast
    from build_data [OF b r(1) this] kept_trans [OF r(2)] True b show ?thesis
      by (auto simp: constant_data_is_build [OF assms(1-3)] l)
  next
    case False
    obtain v t where f: "rc_fail c ''constant data allocation failed'' s1 = (v, t)" by (rule prod.exhaust)
    then have "v = HNull" by (simp add: rc_fail_def)
    with works_ready [OF works_fail [OF f, of c "{#}"], of R] r kept_trans [OF r(2)] False f show ?thesis
      by (auto simp: constant_data_is_build [OF assms(1-3)] l ready_def)
  qed
qed

end
