(* ===== verification/Tier.thy ===== *)
theory Tier
  imports Evaluator Emit
begin

text \<open>
  The background native tier (\<open>src/rc/native_tier.c\<close>): the registry of interpreted functions with
  its open-addressed index, call counting, the queue of functions to compile, the key text of a
  batch, promotion with its on-disk cache, and the callback that publishes compiled functions.

  What the tier only calls is a record: the emitter's output for a list of definitions, the
  compiler, the dynamic loader. The entry point of a loaded module is a tree of steps that may
  call back. Files are the \<open>disk\<close> of the memory; a
  system call that may fail is a library call. Clocks are left out.
\<close>

subsection \<open>State\<close>

datatype entry_state = COLD | PENDING | FAILED | PROMOTED | STALE

record entry =
  e_fn :: handle
  e_name :: handle
  e_definition :: handle
  e_calls :: u64
  e_state :: entry_state

definition no_entry :: entry where
  "no_entry = \<lparr>e_fn = HNull, e_name = HNull, e_definition = HNull, e_calls = 0, e_state = COLD\<rparr>"

datatype tslot = Tombstone | At nat  \<comment> \<open>the index of an entry; an empty slot is None\<close>

definition HISTOGRAM :: nat where "HISTOGRAM = 24"
definition BATCH_LIMIT :: nat where "BATCH_LIMIT = 512"
definition ENTRY_BYTES :: nat where "ENTRY_BYTES = 40"

record tier_state =
  registry :: "entry list"
  entry_cap :: nat
  t_live :: nat
  t_slots :: "tslot option list"
  slot_used :: nat
  queue :: "nat list"  \<comment> \<open>\<open>pending\<close>\<close>
  queue_cap :: nat
  threshold :: u64
  count_only :: bool
  disabled :: bool
  busy :: bool
  cache_owned :: bool
  t_cc :: string
  t_cflags :: string
  t_cache :: string
  t_include :: string
  t_abi :: string
  loaded :: nat  \<comment> \<open>\<open>nhandles\<close>\<close>
  loaded_cap :: nat
  defuns :: nat
  redefined :: nat
  promoted :: nat
  failed_count :: nat
  batches :: nat
  compiles :: nat
  cache_hits :: nat
  fallbacks :: nat
  emit_failures :: nat
  guard_misses :: nat
  load_failures :: nat
  load_error :: string
  histogram :: "u64 list"
  histogram_calls :: "u64 list"

definition entry_at :: "tier_state \<Rightarrow> nat \<Rightarrow> entry" where
  "entry_at t i = (if i < length (registry t) then registry t ! i else no_entry)"

definition upd_entry :: "nat \<Rightarrow> (entry \<Rightarrow> entry) \<Rightarrow> tier_state \<Rightarrow> tier_state" where
  "upd_entry i f t = t\<lparr>registry := (registry t)[i := f (entry_at t i)]\<rparr>"

subsection \<open>The index\<close>

definition hash_ptr :: "handle \<Rightarrow> nat \<Rightarrow> nat" where
  "hash_ptr p cap =
     (let x = handle_word p;
          x = x XOR drop_bit 33 x;
          x = x * 0xff51afd7ed558ccd;
          x = x XOR drop_bit 33 x
      in wrap cap (unat x))"

fun points_to :: "tier_state \<Rightarrow> handle \<Rightarrow> tslot \<Rightarrow> bool" where
  "points_to t fn Tombstone = False"
| "points_to t fn (At i) = (e_fn (entry_at t i) = fn)"

definition find_slot :: "tier_state \<Rightarrow> handle \<Rightarrow> nat option" where
  "find_slot t fn =
     (if t_slots t = [] then None
      else case probe (length (t_slots t)) (points_to t fn) (t_slots t) (hash_ptr fn (length (t_slots t))) of
             None \<Rightarrow> None
           | Some j \<Rightarrow> if t_slots t ! j = None then None else Some j)"

fun slot_fn :: "entry list \<Rightarrow> tslot \<Rightarrow> handle" where
  "slot_fn es (At i) = e_fn (es ! i)"
| "slot_fn es Tombstone = HNull"

definition slot_home :: "entry list \<Rightarrow> tslot \<Rightarrow> nat \<Rightarrow> nat" where
  "slot_home es = (\<lambda>x. hash_ptr (slot_fn es x))"

function grown_cap :: "nat \<Rightarrow> nat \<Rightarrow> nat" where
  \<comment> \<open>\<open>while (cap < 4*(live+1)) cap *= 2;\<close> for a positive \<open>cap\<close>\<close>
  "grown_cap cap n = (if 0 < cap \<and> cap < 4 * (n + 1) then grown_cap (cap * 2) n else cap)"
  by pat_completeness auto
termination by (relation "measure (\<lambda>(cap, n). 4 * (n + 1) - cap)") auto

declare grown_cap.simps [simp del]

definition live_slot :: "tslot option \<Rightarrow> tslot option" where
  "live_slot x = (if x = Some Tombstone then None else x)"

definition grow_slots :: "tier_state \<Rightarrow> mem \<Rightarrow> bool \<times> tier_state \<times> mem" where
  "grow_slots t s =
     (let cap = grown_cap (if t_slots t \<noteq> [] then length (t_slots t) * 2 else 1024) (t_live t);
          (ok, s) = library_call s
      in if \<not> ok \<or> cap * 8 > SIZE_MAX then (False, t, s)
         else (True, t\<lparr>t_slots := rehash (slot_home (registry t)) (map live_slot (t_slots t)) (replicate cap None),
                       slot_used := t_live t\<rparr>, s))"

subsection \<open>Retiring and queueing\<close>

definition histogram_index :: "u64 \<Rightarrow> nat" where
  \<comment> \<open>\<open>while (calls>>k && k<HISTOGRAM-1) k++;\<close>\<close>
  "histogram_index calls = length (takeWhile (\<lambda>k. drop_bit k calls \<noteq> 0) [0..<HISTOGRAM - 1])"

definition record_calls :: "u64 \<Rightarrow> tier_state \<Rightarrow> tier_state" where
  \<comment> \<open>\<open>record\<close>\<close>
  "record_calls calls t =
     (let k = histogram_index calls
      in t\<lparr>histogram := (histogram t)[k := histogram t ! k + 1],
           histogram_calls := (histogram_calls t)[k := histogram_calls t ! k + calls]\<rparr>)"

definition retire :: "nat \<Rightarrow> tier_state \<Rightarrow> mem \<Rightarrow> tier_state \<times> mem" where
  \<comment> \<open>of a slot that holds an entry\<close>
  "retire j t s =
     (case t_slots t ! j of
        Some (At i) \<Rightarrow>
          let e = entry_at t i;
              s = rc_release (e_definition e) (rc_release (e_name e) (rc_release (e_fn e) s));
              t = record_calls (e_calls e) t
          in (t\<lparr>registry := (registry t)[i := no_entry], t_slots := (t_slots t)[j := Some Tombstone], t_live := t_live t - 1\<rparr>, s)
      | _ \<Rightarrow> (t, s\<lparr>fault := True\<rparr>))"

definition push_pending :: "nat \<Rightarrow> tier_state \<Rightarrow> mem \<Rightarrow> tier_state \<times> mem" where
  "push_pending i t s =
     (let push = (\<lambda>t. (upd_entry i (\<lambda>e. e\<lparr>e_state := PENDING\<rparr>) t)\<lparr>queue := queue t @ [i]\<rparr>)
      in if length (queue t) = queue_cap t
         then let cap = (if queue_cap t \<noteq> 0 then queue_cap t * 2 else 256); (ok, s) = library_call s
              in if ok then (push (t\<lparr>queue_cap := cap\<rparr>), s) else (t, s)
         else (push t, s))"

subsection \<open>Hooks\<close>

fun requeue :: "nat \<Rightarrow> entry list \<Rightarrow> tier_state \<Rightarrow> mem \<Rightarrow> tier_state \<times> mem" where
  \<comment> \<open>\<open>for (i = 0; i < keep; i++) if (entries[i].state == PENDING) push_pending(t, i);\<close>\<close>
  "requeue i [] t s = (t, s)"
| "requeue i (e # es) t s =
     (if e_state e = PENDING then (case push_pending i t s of (t, s) \<Rightarrow> requeue (i + 1) es t s)
      else requeue (i + 1) es t s)"

definition compact :: "tier_state \<Rightarrow> mem \<Rightarrow> tier_state \<times> mem" where
  \<comment> \<open>drop retired entries, then rebuild the queue and the index\<close>
  "compact t s =
     (let kept = filter (\<lambda>e. e_fn e \<noteq> HNull) (registry t)
      in if length kept = length (registry t) then (t, s)
         else case requeue 0 kept (t\<lparr>registry := kept, queue := []\<rparr>) s of
                (t, s) \<Rightarrow>
                  (t\<lparr>t_slots := fold (\<lambda>i. put_first_free (slot_home (registry t)) (At i)) [0..<length kept]
                                (replicate (length (t_slots t)) None),
                     slot_used := length kept\<rparr>, s))"

definition make_room :: "tier_state \<Rightarrow> mem \<Rightarrow> bool \<times> tier_state \<times> mem" where
  \<comment> \<open>room for one more entry\<close>
  "make_room t s =
     (if length (registry t) \<noteq> entry_cap t then (True, t, s)
      else case compact t s of
             (t, s) \<Rightarrow>
               if length (registry t) \<noteq> entry_cap t then (True, t, s)
               else let cap = (if entry_cap t \<noteq> 0 then entry_cap t * 2 else 1024); (ok, s) = library_call s
                    in if ok \<and> cap * ENTRY_BYTES \<le> SIZE_MAX then (True, t\<lparr>entry_cap := cap\<rparr>, s) else (False, t, s))"

definition register :: "handle \<Rightarrow> handle \<Rightarrow> handle \<Rightarrow> tier_state \<Rightarrow> mem \<Rightarrow> tier_state \<times> mem" where
  \<comment> \<open>the last part of \<open>on_defun\<close>\<close>
  "register nm def fn t s =
     (let i = length (registry t);
          s = rc_retain def (rc_retain nm (rc_retain fn s));
          t = t\<lparr>registry := registry t @ [\<lparr>e_fn = fn, e_name = nm, e_definition = def, e_calls = 0, e_state = COLD\<rparr>]\<rparr>
      in case probe (length (t_slots t)) (\<lambda>x. x = Tombstone) (t_slots t) (hash_ptr fn (length (t_slots t))) of
           None \<Rightarrow> (t, s\<lparr>fault := True\<rparr>)
         | Some j \<Rightarrow>
             let t = t\<lparr>t_slots := (t_slots t)[j := Some (At i)], t_live := t_live t + 1,
                       slot_used := (if t_slots t ! j = None then slot_used t + 1 else slot_used t)\<rparr>
             in if \<not> count_only t \<and> threshold t = 0 then push_pending i t s else (t, s))"

definition on_defun :: "handle \<Rightarrow> handle \<Rightarrow> handle \<Rightarrow> handle \<Rightarrow> tier_state \<Rightarrow> mem \<Rightarrow> tier_state \<times> mem" where
  "on_defun nm def fn old t s =
     (let (t, s) = (if old = HNull then (t, s)
                    else case find_slot t old of
                           None \<Rightarrow> (t, s)
                         | Some j \<Rightarrow> (case retire j t s of (t, s) \<Rightarrow> (t\<lparr>redefined := redefined t + 1\<rparr>, s)));
          t = t\<lparr>defuns := defuns t + 1\<rparr>
      in if disabled t \<and> \<not> count_only t then (t, s)
         else let (ok, t, s) = (if 4 * (slot_used t + 1) > 3 * length (t_slots t) then grow_slots t s else (True, t, s))
              in if \<not> ok then (t, s)
                 else case make_room t s of (ok, t, s) \<Rightarrow> if ok then register nm def fn t s else (t, s))"

definition on_call :: "handle \<Rightarrow> tier_state \<Rightarrow> mem \<Rightarrow> tier_state \<times> mem" where
  "on_call self t s =
     (case find_slot t self of
        None \<Rightarrow> (t, s)
      | Some j \<Rightarrow>
          (case t_slots t ! j of
             Some (At i) \<Rightarrow>
               let t = upd_entry i (\<lambda>e. e\<lparr>e_calls := e_calls e + 1\<rparr>) t; e = entry_at t i
               in if e_calls e = threshold t \<and> e_state e = COLD \<and> \<not> count_only t \<and> \<not> disabled t
                  then push_pending i t s else (t, s)
           | _ \<Rightarrow> (t, s)))"

end
