(* ===== verification/Promotion.thy ===== *)
theory Promotion
  imports Tier
begin

text \<open>
  The promotion half of the native tier (\<open>src/rc/native_tier.c\<close>): the key text of a batch of
  definitions and its digest, the compiler's command line, the cache of objects, publication
  through the callback that a loaded module calls, and the safepoint that drives it.
\<close>

subsection \<open>The key text\<close>

fun syntax_tree :: "nat \<Rightarrow> mem \<Rightarrow> handle \<Rightarrow> tree option" where
  \<comment> \<open>what the accessors show of a value; None when it is deeper than the fuel\<close>
  "syntax_tree 0 s v = None"
| "syntax_tree (Suc k) s v =
     (case rc_type s v of
        RC_NIL \<Rightarrow> Some (if v = HNull then TNull else TNil)
      | RC_NUMBER \<Rightarrow> Some (if rc_number_is_exact_integer s v then TInteger (rc_integer_value s v) else TReal (rc_number_value s v))
      | RC_SYMBOL \<Rightarrow> Some (TSymbol (data (load_of s v)))
      | RC_STRING \<Rightarrow> Some (TString (data (load_of s v)))
      | RC_PAIR \<Rightarrow>
          (case (syntax_tree k s (rc_head_borrowed s v), syntax_tree k s (rc_tail_borrowed s v)) of
             (Some h, Some t) \<Rightarrow> Some (TPair h t)
           | _ \<Rightarrow> None)
      | ty \<Rightarrow> Some (TOther ty (case v of HRef a \<Rightarrow> a | _ \<Rightarrow> 0)))"

definition hex_digit_of :: "nat \<Rightarrow> char" where
  "hex_digit_of d = char_of (if d < 10 then 48 + d else 87 + d)"

fun hex_fixed :: "nat \<Rightarrow> nat \<Rightarrow> string" where
  \<comment> \<open>the last \<open>k\<close> hexadecimal digits\<close>
  "hex_fixed 0 n = []"
| "hex_fixed (Suc k) n = hex_fixed k (n div 16) @ [hex_digit_of (n mod 16)]"

definition drop_zeros :: "string \<Rightarrow> string" where
  "drop_zeros x = rev (dropWhile (\<lambda>d. d = CHR ''0'') (rev x))"

fun hex_double :: "dbl \<Rightarrow> string" where
  \<comment> \<open>\<open>%a\<close> as glibc writes it\<close>
  "hex_double NaN = ''nan''"
| "hex_double (Inf s) = (if s then ''-inf'' else ''inf'')"
| "hex_double (Fin s m e) =
     (let n = (2 ^ 52 :: nat);
          frac = drop_zeros (hex_fixed 13 (if m < n then m else m - n));
          ex = (if m = 0 then 0 else e + 52)
      in (if s then ''-'' else []) @ ''0x'' @ (if m < n then ''0'' else ''1'') @
         (if frac = [] then [] else CHR ''.'' # frac) @ ''p'' @
         (if ex < 0 then ''-'' else ''+'') @ digits_of (nat \<bar>ex\<bar>))"

definition int64_real :: "dbl \<Rightarrow> bool" where
  \<comment> \<open>\<open>rc_number_is_int64\<close> of a number that is not marked exact\<close>
  "int64_real x \<longleftrightarrow> isfinite x \<and> is_integral x \<and> int64_range x"

fun serialize :: "tree \<Rightarrow> string option" where
  "serialize TNull = Some ''N''"
| "serialize TNil = Some ''N''"
| "serialize (TInteger n) = Some (''I'' @ show_int n @ '';'')"
| "serialize (TReal x) =
     Some (if int64_real x then ''I'' @ show_int (dbl_to_int x) @ '';'' else ''R'' @ hex_double x @ '';'')"
| "serialize (TSymbol x) = Some (''S'' @ digits_of (length x) @ '':'' @ x)"
| "serialize (TString x) = Some (''T'' @ digits_of (length x) @ '':'' @ x)"
| "serialize (TPair h t) =
     (case serialize h of
        None \<Rightarrow> None
      | Some x \<Rightarrow> map_option (\<lambda>y. ''('' @ x @ y) (serialize t))"
| "serialize (TOther ty a) = None"

definition newline :: char where "newline = CHR 0x0A"

fun key_lines :: "nat \<Rightarrow> mem \<Rightarrow> handle list \<Rightarrow> string option option" where
  \<comment> \<open>None: a definition is not finite; \<open>Some None\<close>: one has no stable spelling\<close>
  "key_lines k s [] = Some (Some [])"
| "key_lines k s (d # ds) =
     (case syntax_tree k s d of
        None \<Rightarrow> None
      | Some x \<Rightarrow>
          (case serialize x of
             None \<Rightarrow> Some None
           | Some line \<Rightarrow> map_option (map_option (\<lambda>r. line @ newline # r)) (key_lines k s ds)))"

definition definitions :: "tier_state \<Rightarrow> nat list \<Rightarrow> handle list" where
  "definitions t batch = map (\<lambda>i. e_definition (entry_at t i)) batch"

definition depth_bound :: "mem \<Rightarrow> nat" where
  \<comment> \<open>no path without repetition is longer\<close>
  "depth_bound s = card (fmdom' (cells s)) + 2"

definition serialize_forms :: "tier_state \<Rightarrow> nat list \<Rightarrow> mem \<Rightarrow> (string option \<times> mem) option" where
  "serialize_forms t batch s =
     (case library_call s of
        (opened, s) \<Rightarrow>
          if \<not> opened then Some (None, s)
          else case key_lines (depth_bound s) s (definitions t batch) of
                 None \<Rightarrow> None
               | Some body \<Rightarrow>
                   (case library_call s of
                      (closed, s) \<Rightarrow>
                        Some (if closed then map_option (\<lambda>b. t_abi t @ newline # b) body else None, s)))"

definition digest_lanes :: "string \<Rightarrow> u64 \<times> u64" where
  "digest_lanes text =
     fold (\<lambda>x (h1, h2). ((h1 XOR char_word x) * 1099511628211,
                          (h2 XOR char_word x XOR drop_bit 29 h2) * 0x100000001b3))
       text (14695981039346656037, 0x84222325cbf29ce4)"

definition digest :: "string \<Rightarrow> string" where
  \<comment> \<open>\<open>%016llx%016llx\<close>; the two inputs are read one after the other\<close>
  "digest text = (case digest_lanes text of (h1, h2) \<Rightarrow> hex_fixed 16 (unat h1) @ hex_fixed 16 (unat h2))"

subsection \<open>What the tier calls\<close>

text \<open>The entry point of a loaded module is foreign code that calls back: a tree of its own work on
  the memory and of the definitions it offers.\<close>

datatype activity =
    Return bool
  | Run "mem \<Rightarrow> mem \<times> activity"
  | Define handle handle "bool \<Rightarrow> activity"  \<comment> \<open>\<open>define(ctx, name, function)\<close>; what follows sees its result\<close>

type_synonym module_code = "activity option"  \<comment> \<open>None when the object has no entry point\<close>

record tier_world =
  emit_program :: "handle list \<Rightarrow> mem \<Rightarrow> (bool \<times> string) \<times> mem"
  compile :: "string list \<Rightarrow> string \<Rightarrow> (nat \<times> string \<times> string) option"
    \<comment> \<open>the exit status, the object and the log; None when the command cannot be executed\<close>
  load_object :: "string option \<Rightarrow> string + module_code"
    \<comment> \<open>\<open>dlopen\<close> of a file with these contents, or the message of \<open>dlerror\<close>\<close>
  host_flags :: string  \<comment> \<open>\<open>RC_TIER_HOST_FLAGS\<close>, generated by the build\<close>
  process_id :: nat

subsection \<open>Files\<close>

definition write_file :: "string \<Rightarrow> string \<Rightarrow> mem \<Rightarrow> bool \<times> mem" where
  \<comment> \<open>through a temporary file that is renamed, so all or nothing\<close>
  "write_file path text s =
     (case library_call s of (ok, s) \<Rightarrow> (ok, if ok then s\<lparr>disk := (disk s)(path \<mapsto> text)\<rparr> else s))"

definition same_file :: "string \<Rightarrow> string \<Rightarrow> mem \<Rightarrow> bool" where
  "same_file path text s \<longleftrightarrow> disk s path = Some text"

definition unlink_file :: "string \<Rightarrow> mem \<Rightarrow> mem" where
  "unlink_file path s = s\<lparr>disk := (disk s)(path := None)\<rparr>"

definition rename_file :: "string \<Rightarrow> string \<Rightarrow> mem \<Rightarrow> bool \<times> mem" where
  "rename_file a b s =
     (case library_call s of
        (ok, s) \<Rightarrow> if ok \<and> disk s a \<noteq> None then (True, s\<lparr>disk := (disk s)(b := disk s a, a := None)\<rparr>) else (False, s))"

definition path_of :: "string \<Rightarrow> string \<Rightarrow> string \<Rightarrow> mem \<Rightarrow> string option \<times> mem" where
  "path_of dir key suffix s =
     (case library_call s of (ok, s) \<Rightarrow> (if ok then Some (dir @ ''/'' @ key @ suffix) else None, s))"

definition is_blank :: "char \<Rightarrow> bool" where
  "is_blank x \<longleftrightarrow> x = CHR '' '' \<or> x = CHR 0x09"

function flag_words :: "string \<Rightarrow> nat \<Rightarrow> string list" where
  \<comment> \<open>\<open>words\<close>: at most so many words\<close>
  "flag_words text room =
     (let text = dropWhile is_blank text
      in if text = [] \<or> room = 0 then []
         else takeWhile (\<lambda>x. \<not> is_blank x) text # flag_words (dropWhile (\<lambda>x. \<not> is_blank x) text) (room - 1))"
  by pat_completeness auto
termination by (relation "measure snd") auto

declare flag_words.simps [simp del]

definition compiler_arguments :: "tier_world \<Rightarrow> tier_state \<Rightarrow> string \<Rightarrow> string \<Rightarrow> string list" where
  "compiler_arguments w t source object =
     [t_cc t] @ flag_words (t_cflags t @ '' '' @ host_flags w) 79 @
     [''-DSHEN_RC_IMMEDIATE_INTEGERS=1'', ''-std=c17'', ''-w'', ''-fPIC'', ''-shared'', ''-fvisibility=hidden'',
      take 4199 (''-I'' @ t_include t), source, ''-o'', object]"

definition run_compiler :: "tier_world \<Rightarrow> tier_state \<Rightarrow> string \<Rightarrow> string \<Rightarrow> string \<Rightarrow> string \<Rightarrow> mem \<Rightarrow> nat \<times> mem" where
  "run_compiler w t source text object log s =
     (case library_call s of
        (joined, s) \<Rightarrow>
          if \<not> joined then (1, s)
          else case compile w (compiler_arguments w t source object) text of
                 None \<Rightarrow> (127, s)
               | Some (status, obj, messages) \<Rightarrow>
                   (status, s\<lparr>disk := (disk s)(log \<mapsto> messages, object := (if status = 0 then Some obj else disk s object))\<rparr>))"

subsection \<open>Emission and failure\<close>

definition emit_forms :: "tier_world \<Rightarrow> ctxid \<Rightarrow> handle list \<Rightarrow> mem \<Rightarrow> string option \<times> mem" where
  \<comment> \<open>\<open>emit\<close>\<close>
  "emit_forms w c forms s =
     (case library_call s of
        (opened, s) \<Rightarrow>
          if \<not> opened then (None, s)
          else case emit_program w forms s of
                 ((ok, text), s) \<Rightarrow>
                   (case library_call s of
                      (closed, s) \<Rightarrow> if ok \<and> closed then (Some text, s) else (None, rc_clear_error c s)))"

definition fail_entry :: "nat \<Rightarrow> tier_state \<Rightarrow> tier_state" where
  "fail_entry i t = (upd_entry i (\<lambda>e. e\<lparr>e_state := FAILED\<rparr>) t)\<lparr>failed_count := failed_count t + 1\<rparr>"

definition fail_batch :: "nat list \<Rightarrow> tier_state \<Rightarrow> tier_state" where
  "fail_batch batch t = (fold fail_entry batch t)\<lparr>fallbacks := fallbacks t + 1\<rparr>"

fun filter_batch :: "tier_world \<Rightarrow> ctxid \<Rightarrow> nat list \<Rightarrow> tier_state \<Rightarrow> mem \<Rightarrow> (nat list \<times> tier_state \<times> mem) option" where
  "filter_batch w c [] t s = Some ([], t, s)"
| "filter_batch w c (i # is) t s =
     Option.bind (serialize_forms t [i] s)
       (\<lambda>(kl, s). let (text, s) = (if kl \<noteq> None then emit_forms w c (definitions t [i]) s else (None, s))
                  in if text \<noteq> None
                     then map_option (\<lambda>(kept, t, s). (i # kept, t, s)) (filter_batch w c is t s)
                     else filter_batch w c is ((fail_entry i t)\<lparr>emit_failures := emit_failures t + 1\<rparr>) s)"

subsection \<open>Publication\<close>

definition offered :: "tier_state \<Rightarrow> nat list \<Rightarrow> handle \<Rightarrow> nat option" where
  \<comment> \<open>the entry of the batch that waits under this name\<close>
  "offered t batch nm = find (\<lambda>i. e_name (entry_at t i) = nm \<and> e_state (entry_at t i) = PENDING) batch"

definition define_function :: "ctxid \<Rightarrow> nat list \<Rightarrow> handle \<Rightarrow> handle \<Rightarrow> tier_state \<Rightarrow> mem \<Rightarrow> bool \<times> tier_state \<times> mem" where
  \<comment> \<open>\<open>define\<close>, the callback of a module\<close>
  "define_function c batch nm fn t s =
     (case offered t batch nm of
        None \<Rightarrow> (True, t, s)
      | Some i \<Rightarrow>
          let e = entry_at t i
          in if rc_function_slot_borrowed s c nm \<noteq> e_fn e \<or> rc_arity s fn \<noteq> rc_arity s (e_fn e)
             then (True, (upd_entry i (\<lambda>e. e\<lparr>e_state := STALE\<rparr>) t)\<lparr>guard_misses := guard_misses t + 1\<rparr>, s)
             else case rc_function_set c nm fn s of
                    (ok, s) \<Rightarrow>
                      if \<not> ok then (False, t, s)
                      else (True, (upd_entry i (\<lambda>e. e\<lparr>e_state := PROMOTED\<rparr>) t)\<lparr>promoted := promoted t + 1\<rparr>, s))"

primrec run_entry :: "activity \<Rightarrow> ctxid \<Rightarrow> nat list \<Rightarrow> tier_state \<Rightarrow> mem \<Rightarrow> bool \<times> tier_state \<times> mem" where
  \<comment> \<open>\<open>entry(ctx, define)\<close>\<close>
  "run_entry (Return ok) c batch t s = (ok, t, s)"
| "run_entry (Run f) c batch t s = (case map_prod id run_entry (f s) of (s, k) \<Rightarrow> k c batch t s)"
| "run_entry (Define nm fn k) c batch t s =
     (case define_function c batch nm fn t s of (ok, t, s) \<Rightarrow> run_entry (k ok) c batch t s)"

definition open_object :: "tier_world \<Rightarrow> string \<Rightarrow> tier_state \<Rightarrow> mem \<Rightarrow> module_code option \<times> tier_state" where
  "open_object w path t s =
     (case load_object w (disk s path) of
        Inr m \<Rightarrow> (Some m, t)
      | Inl message \<Rightarrow> (None, t\<lparr>load_failures := load_failures t + 1, load_error := take 255 message\<rparr>))"

definition keep_loaded :: "tier_state \<Rightarrow> mem \<Rightarrow> tier_state \<times> mem" where
  \<comment> \<open>objects are never closed; without room the handle is only not noted\<close>
  "keep_loaded t s =
     (let (t, s) = (if loaded t = loaded_cap t
                    then let cap = (if loaded_cap t \<noteq> 0 then loaded_cap t * 2 else 16); (ok, s) = library_call s
                         in (if ok then t\<lparr>loaded_cap := cap\<rparr> else t, s)
                    else (t, s))
      in (if loaded t < loaded_cap t then t\<lparr>loaded := loaded t + 1\<rparr> else t, s))"

definition install_module :: "ctxid \<Rightarrow> nat list \<Rightarrow> module_code \<Rightarrow> tier_state \<Rightarrow> mem \<Rightarrow> tier_state \<times> mem" where
  \<comment> \<open>the end of \<open>promote\<close>, with a handle\<close>
  "install_module c batch m t s =
     (case keep_loaded t s of
        (t, s) \<Rightarrow>
          (case m of
             None \<Rightarrow> (t, s)
           | Some entry \<Rightarrow>
               (case run_entry entry c batch t s of (ok, t, s) \<Rightarrow> (t, if ok then s else rc_clear_error c s))))"

definition build_object ::
  "tier_world \<Rightarrow> string \<Rightarrow> string \<Rightarrow> string \<Rightarrow> string \<Rightarrow> string \<Rightarrow> string \<Rightarrow> tier_state \<Rightarrow> mem \<Rightarrow> module_code option \<times> tier_state \<times> mem" where
  \<comment> \<open>compile the text and publish the object before its key text\<close>
  "build_object w key kl text keep object log t s =
     (case path_of (t_cache t) key ''.build.c'' s of
        (source, s) \<Rightarrow>
          let unique = object @ ''.'' @ digits_of (process_id w) @ ''.tmp'';
              (written, s) = (case source of None \<Rightarrow> (False, s) | Some path \<Rightarrow> write_file path text s);
              (built, t, s) =
                (if \<not> written then (False, t, s)
                 else case run_compiler w t (the source) text unique log s of
                        (status, s) \<Rightarrow>
                          let t = t\<lparr>compiles := compiles t + 1, disabled := disabled t \<or> status = 127\<rparr>;
                              (moved, s) = (if status = 0 then rename_file unique object s else (False, s));
                              (published, s) = (if moved then write_file keep kl s else (False, s))
                          in (published, t, if status = 0 then unlink_file log (unlink_file (the source) s) else unlink_file unique s));
              (m, t) = (if built then open_object w object t s else (None, t))
          in (m, t, if cache_owned t then unlink_file keep (unlink_file object s) else s))"

subsection \<open>Promotion\<close>

definition prepare ::
  "tier_world \<Rightarrow> ctxid \<Rightarrow> nat list \<Rightarrow> tier_state \<Rightarrow> mem \<Rightarrow> (nat list \<times> string option \<times> tier_state \<times> mem) option" where
  \<comment> \<open>the key text of the batch, or of what can be serialized and emitted of it\<close>
  "prepare w c batch t s =
     Option.bind (serialize_forms t batch s)
       (\<lambda>(kl, s). if kl \<noteq> None then Some (batch, kl, t, s)
                  else Option.bind (filter_batch w c batch t s)
                         (\<lambda>(batch, t, s). if batch = [] then Some (batch, None, t, s)
                                          else map_option (\<lambda>(kl, s). (batch, kl, t, s)) (serialize_forms t batch s)))"

definition key_paths :: "string \<Rightarrow> string \<Rightarrow> mem \<Rightarrow> (string \<times> string \<times> string) option \<times> mem" where
  \<comment> \<open>\<open>keep\<close>, \<open>object\<close> and \<open>log\<close>\<close>
  "key_paths dir key s =
     (let (keep, s) = path_of dir key ''.kl'' s;
          (object, s) = path_of dir key ''.so'' s;
          (log, s) = path_of dir key ''.log'' s
      in (case (keep, object, log) of (Some a, Some b, Some d) \<Rightarrow> Some (a, b, d) | _ \<Rightarrow> None, s))"

definition cached_object :: "tier_world \<Rightarrow> string \<Rightarrow> string \<Rightarrow> string \<Rightarrow> tier_state \<Rightarrow> mem \<Rightarrow> module_code option \<times> tier_state" where
  "cached_object w kl keep object t s =
     (if \<not> cache_owned t \<and> disk s object \<noteq> None \<and> same_file keep kl s
      then (case open_object w object t s of
              (Some m, t) \<Rightarrow> (Some m, t\<lparr>cache_hits := cache_hits t + 1\<rparr>)
            | (None, t) \<Rightarrow> (None, t))
      else (None, t))"

definition give_up :: "nat list \<Rightarrow> tier_state \<Rightarrow> tier_state" where
  \<comment> \<open>\<open>if (!handle && n) fail_batch(t, batch, n);\<close>\<close>
  "give_up batch t = (if batch \<noteq> [] then fail_batch batch t else t)"

fun promote :: "nat \<Rightarrow> tier_world \<Rightarrow> ctxid \<Rightarrow> nat list \<Rightarrow> tier_state \<Rightarrow> mem \<Rightarrow> (tier_state \<times> mem) option" where
  \<comment> \<open>the fuel counts the retries with a smaller batch\<close>
  "promote 0 w c batch t s = None"
| "promote (Suc k) w c batch t s =
     Option.bind (prepare w c batch t s)
       (\<lambda>(batch, kl, t, s).
          case kl of
            None \<Rightarrow> Some (give_up batch t, s)
          | Some kl \<Rightarrow>
              (case key_paths (t_cache t) (digest kl) s of
                 (None, s) \<Rightarrow> Some (give_up batch t, s)
               | (Some (keep, object, log), s) \<Rightarrow>
                   (case cached_object w kl keep object t s of
                      (Some m, t) \<Rightarrow> Some (install_module c batch m t s)
                    | (None, t) \<Rightarrow>
                        (case emit_forms w c (definitions t batch) s of
                           (None, s) \<Rightarrow>
                             Option.bind (filter_batch w c batch t s)
                               (\<lambda>(batch, t, s). if batch = [] then Some (t, s) else promote k w c batch t s)
                         | (Some text, s) \<Rightarrow>
                             (case build_object w (digest kl) kl text keep object log t s of
                                (Some m, t, s) \<Rightarrow> Some (install_module c batch m t s)
                              | (None, t, s) \<Rightarrow> Some (give_up batch t, s))))))"

fun collect_batch :: "nat \<Rightarrow> ctxid \<Rightarrow> nat list \<Rightarrow> tier_state \<Rightarrow> mem \<Rightarrow> nat list \<times> nat list \<times> tier_state" where
  \<comment> \<open>the next batch of at most so many entries, and what remains of the queue\<close>
  "collect_batch room c [] t s = ([], [], t)"
| "collect_batch 0 c todo t s = ([], todo, t)"
| "collect_batch (Suc room) c (i # todo) t s =
     (let e = entry_at t i
      in if e_fn e = HNull \<or> e_state e \<noteq> PENDING then collect_batch (Suc room) c todo t s
         else if rc_function_slot_borrowed s c (e_name e) \<noteq> e_fn e
         then collect_batch (Suc room) c todo ((upd_entry i (\<lambda>e. e\<lparr>e_state := STALE\<rparr>) t)\<lparr>guard_misses := guard_misses t + 1\<rparr>) s
         else case collect_batch room c todo t s of (batch, todo, t) \<Rightarrow> (i # batch, todo, t))"

definition fail_unoffered :: "nat \<Rightarrow> tier_state \<Rightarrow> tier_state" where
  \<comment> \<open>never offered: keep interpreting. \<open>filter_batch\<close> compacts the array that this loop of the source
    walks; what it leaves out is FAILED already, so walking the batch as collected is the same\<close>
  "fail_unoffered i t = (if e_state (entry_at t i) = PENDING then fail_entry i t else t)"

definition settle :: "nat \<Rightarrow> tier_state \<times> mem \<Rightarrow> tier_state \<times> mem" where
  \<comment> \<open>one turn of the last loop of \<open>on_safepoint\<close>\<close>
  "settle i r =
     (case r of
        (t, s) \<Rightarrow>
          let e = entry_at t i
          in if e_fn e \<noteq> HNull \<and> (e_state e = PROMOTED \<or> e_state e = STALE)
             then (case find_slot t (e_fn e) of None \<Rightarrow> (t, s) | Some j \<Rightarrow> retire j t s)
             else if e_fn e \<noteq> HNull \<and> e_state e = PENDING then (upd_entry i (\<lambda>e. e\<lparr>e_state := FAILED\<rparr>) t, s)
             else (t, s))"

fun promote_all :: "nat \<Rightarrow> nat \<Rightarrow> tier_world \<Rightarrow> ctxid \<Rightarrow> nat list \<Rightarrow> tier_state \<Rightarrow> mem \<Rightarrow> (tier_state \<times> mem) option" where
  \<comment> \<open>the batches; the first number bounds how many there are and never runs out\<close>
  "promote_all n fuel w c [] t s = Some (t, s)"
| "promote_all 0 fuel w c todo t s = None"
| "promote_all (Suc n) fuel w c (i # todo) t s =
     (if disabled t then Some (t, s)
      else case collect_batch BATCH_LIMIT c (i # todo) t s of
             (batch, later, t) \<Rightarrow>
               Option.bind (if batch = [] then Some (t, s) else promote fuel w c batch (t\<lparr>batches := batches t + 1\<rparr>) s)
                 (\<lambda>(t, s). promote_all n fuel w c later (fold fail_unoffered batch t) s))"

definition on_safepoint :: "nat \<Rightarrow> tier_world \<Rightarrow> ctxid \<Rightarrow> tier_state \<Rightarrow> mem \<Rightarrow> (tier_state \<times> mem) option" where
  "on_safepoint fuel w c t s =
     (if queue t = [] \<or> busy t then Some (t, s)
      else if disabled t then Some (t\<lparr>queue := []\<rparr>, s)
      else let todo = queue t
           in map_option
                (\<lambda>(t, s).
                   case fold settle todo (t, s) of
                     (t, s) \<Rightarrow> (t\<lparr>busy := False\<rparr>, if rc_has_error s c then rc_clear_error c s else s))
                (promote_all (length todo) fuel w c todo (t\<lparr>busy := True, queue := [], queue_cap := 0\<rparr>) s))"

subsection \<open>Detaching\<close>

definition detach_slot :: "nat \<Rightarrow> tier_state \<times> mem \<Rightarrow> tier_state \<times> mem" where
  "detach_slot j r =
     (case r of (t, s) \<Rightarrow> (case t_slots t ! j of Some (At i) \<Rightarrow> retire j t s | _ \<Rightarrow> (t, s)))"

definition rc_native_tier_detach :: "tier_state \<Rightarrow> mem \<Rightarrow> tier_state \<times> mem" where
  \<comment> \<open>the tier that the statistics are printed from, and the memory\<close>
  "rc_native_tier_detach t s = fold detach_slot [0..<length (t_slots t)] (t, s)"

end
