(* ===== verification/Binding_Laws.thy ===== *)
theory Binding_Laws
  imports Apply Symbol_Laws
begin

text \<open>
  Bindings of symbols (\<open>set_symbol_slot\<close>, \<open>retire_function\<close>, \<open>rc_call_leave\<close>). The context owns the
  bindings it replaced while calls were running; \<open>retired s c\<close> are these handles. Setting a slot
  keeps every count exact for the other owners together with them, frees nothing while a call is
  running, and the outermost \<open>rc_call_leave\<close> gives them back.
\<close>

abbreviation retired :: "mem \<Rightarrow> ctxid \<Rightarrow> handle multiset" where
  "retired s c \<equiv> mset (retired_functions (ctxs s c))"

definition keeps_but :: "addr \<Rightarrow> mem \<Rightarrow> mem \<Rightarrow> bool" where
  \<comment> \<open>no live cell is lost, and none but \<open>a\<close> is changed\<close>
  "keeps_but a s t \<longleftrightarrow> (\<forall>b. live s b \<longrightarrow> live t b \<and> (b \<noteq> a \<longrightarrow> cell_kept s t b))"

lemma keeps_but_refl [simp]: "keeps_but a s s"
  by (simp add: keeps_but_def cell_kept_refl)

lemma keeps_but_trans: "keeps_but a s t \<Longrightarrow> keeps_but a t u \<Longrightarrow> keeps_but a s u"
  unfolding keeps_but_def using cell_kept_trans by blast

lemma grows_keeps_but: "grows s t \<Longrightarrow> keeps_but a s t"
  by (simp add: keeps_but_def grows_def cell_kept_def)

lemma same_cells_keeps_but: "same_cells s t \<Longrightarrow> keeps_but a s t"
  by (simp add: keeps_but_def same_cells_kept same_cellsD)

lemma upd_cell_keeps_but: "keeps_but a s (upd_cell a f s)"
  by (simp add: keeps_but_def cell_kept_upd_other)

lemma cell_kept_refs:
  assumes "\<And>x. refs x = RC_IMMORTAL \<Longrightarrow> refs (f x) = RC_IMMORTAL" "\<And>x. same_contents x (f x)" "live s b"
  shows "cell_kept s (upd_cell a f s) b"
proof -
  have sc: "same_contents (cell_at s b) (cell_at (upd_cell a f s) b)" using assms(2) by (simp add: cell_at_upd_cell)
  moreover from this have "plan_of (upd_cell a f s) b = plan_of s b" by (intro plan_of_cong) (simp_all add: same_contents_def)
  ultimately show ?thesis using assms by (simp add: cell_kept_def cell_at_upd_cell)
qed

lemma release_uncounted: "\<not> is_counted s v \<Longrightarrow> rc_release v s = s"
  by (cases v) (simp_all add: rc_release_def)

lemma release_shared:
  assumes "1 < refs (cell_at s a)"
  shows "rc_release (HRef a) s = (if refs (cell_at s a) = RC_IMMORTAL then s
    else upd_cell a (\<lambda>x. x\<lparr>refs := refs (cell_at s a) - 1\<rparr>) s)"
  using assms by (simp add: rc_release_def Let_def)

lemma release_shared_keeps:
  assumes "1 < refs (cell_at s a)"
  shows "keeps_but b s (rc_release (HRef a) s)"
proof (cases "refs (cell_at s a) = RC_IMMORTAL")
  case True
  then show ?thesis using release_shared [OF assms] by simp
next
  case False
  let ?f = "\<lambda>x. x\<lparr>refs := refs (cell_at s a) - 1\<rparr>"
  have "cell_kept s (upd_cell a ?f s) x" if x: "live s x" for x
  proof -
    have sc: "same_contents (cell_at s x) (cell_at (upd_cell a ?f s) x)" by (simp add: cell_at_upd_cell same_contents_def)
    moreover from this have "plan_of (upd_cell a ?f s) x = plan_of s x" by (intro plan_of_cong) (simp_all add: same_contents_def)
    ultimately show ?thesis using False x by (auto simp: cell_kept_def cell_at_upd_cell)
  qed
  then show ?thesis using release_shared [OF assms] False by (simp add: keeps_but_def cell_kept_def)
qed

text \<open>Retiring: the context takes the handle over, or the cell becomes immortal when there is no
  room to note it.\<close>

lemma same_heap_ctx_only: "same_heap s t \<Longrightarrow> same_cells s t \<Longrightarrow> heap_ok s R \<Longrightarrow> heap_ok t R \<and> keeps_but a s t"
  using heap_ok_same_heap same_cells_keeps_but by blast

lemma heap_ok_forget_immortal:
  assumes "heap_ok s (add_mset (HRef a) R)" "refs (cell_at s a) = RC_IMMORTAL"
  shows "heap_ok s R"
  using heap_ok_release [OF assms(1)] release_uncounted [of s "HRef a"] assms(2) by simp

lemma retire_function_ok:
  assumes ok: "heap_ok s (add_mset old (R + retired s c))" and counted: "is_counted s old"
  shows "heap_ok (retire_function c old s) (R + retired (retire_function c old s) c)"
    and "\<And>b. live s b \<Longrightarrow> cell_kept s (retire_function c old s) b"
proof -
  obtain a where a: "old = HRef a" "refs (cell_at s a) \<noteq> RC_IMMORTAL" using counted by (cases old) auto
  let ?push = "\<lambda>cap. upd_ctx c (\<lambda>x. x\<lparr>retired_functions := retired_functions x @ [old]\<rparr>) \<circ> cap"
  let ?l = "snd (library_call s)"
  let ?grown = "upd_ctx c (\<lambda>x. x\<lparr>retired_capacity :=
    (if retired_capacity (ctxs s c) \<noteq> 0 then retired_capacity (ctxs s c) * 2 else 64)\<rparr>)"
  let ?im = "upd_cell a (\<lambda>x. x\<lparr>refs := RC_IMMORTAL\<rparr>)"
  have lv: "live s a" by (rule heap_ok_owned_live [OF ok]) (simp add: a)
  consider (push) "retire_function c old s = ?push id s" | (grow) "retire_function c old s = ?push ?grown ?l"
    | (stuck) "retire_function c old s = ?im ?l"
  proof (cases "length (retired_functions (ctxs s c)) = retired_capacity (ctxs s c)")
    case True
    show ?thesis
    proof (cases "fst (library_call s)")
      case okay: True
      from True okay have "retire_function c old s = ?push ?grown ?l"
        by (simp add: retire_function_def Let_def case_prod_beta)
      then show ?thesis by (rule grow)
    next
      case False
      with True have "retire_function c old s = ?im ?l"
        by (simp add: retire_function_def Let_def case_prod_beta a)
      then show ?thesis by (rule stuck)
    qed
  next
    case False
    then have "retire_function c old s = ?push id s" by (simp add: retire_function_def Let_def)
    then show ?thesis by (rule push)
  qed
  note cases = this
  have sc: "same_cells s (?push id s)" "same_cells s (?push ?grown ?l)" "same_cells s ?l"
    by (auto simp: same_cells_def ctxs_upd_ctx)
  have up: "same_heap u (upd_ctx c (\<lambda>x. x\<lparr>retired_functions := retired_functions x @ [old]\<rparr>) u)" for u
    by (rule same_heap_upd_ctx) simp
  have ug: "same_heap u (?grown u)" for u by (rule same_heap_upd_ctx) simp
  have sh: "same_heap s (?push id s)" "same_heap s ?l" "same_heap s (?push ?grown ?l)"
    using up [of s] same_heap_library_call [of s]
      same_heap_trans [OF same_heap_library_call [of s] same_heap_trans [OF ug up]]
    by (simp_all only: comp_def id_def)
  from cases show "heap_ok (retire_function c old s) (R + retired (retire_function c old s) c)"
  proof cases
    case push
    then show ?thesis using heap_ok_same_heap [OF ok sh(1)] by (simp add: ctxs_upd_ctx)
  next
    case grow
    then show ?thesis using heap_ok_same_heap [OF ok sh(3)] by (simp add: ctxs_upd_ctx)
  next
    case stuck
    have "heap_ok ?l (add_mset old (R + retired s c))" by (rule heap_ok_same_heap [OF ok sh(2)])
    from heap_ok_immortal [OF this, of a] lv have "heap_ok (?im ?l) (add_mset (HRef a) (R + retired s c))" by (simp add: a)
    from heap_ok_forget_immortal [OF this] lv stuck show ?thesis by (simp add: cell_at_upd_cell)
  qed
  have im: "cell_kept s (?im ?l) b" if "live s b" for b
    by (rule cell_kept_trans [OF same_cells_kept [OF sc(3) that]], rule cell_kept_refs) (use that in \<open>simp_all add: same_contents_def\<close>)
  show "cell_kept s (retire_function c old s) b" if "live s b" for b
    using cases same_cells_kept [OF sc(1) that] same_cells_kept [OF sc(2) that] im [OF that] by cases simp_all
qed

text \<open>Storing into a slot: the old binding is handed out, nothing else moves.\<close>

lemma store_slot_ok:
  assumes ok: "heap_ok s (add_mset v R)" and a: "live s a" "refs (cell_at s a) = RC_IMMORTAL"
    and p: "type_of_payload (load (cell_at s a)) = RC_SYMBOL"
    and t: "t = upd_cell a (\<lambda>x. x\<lparr>load := with_symbol_slot function v (load x)\<rparr>) s"
  shows "heap_ok t (add_mset (symbol_slot function (load (cell_at s a))) R)"
    and "symbol_slot function (load (cell_at t a)) = v" "type_of_payload (load (cell_at t a)) = RC_SYMBOL"
    and "symbol_slot (\<not> function) (load (cell_at t a)) = symbol_slot (\<not> function) (load (cell_at s a))"
proof -
  obtain d h g f where l: "load (cell_at s a) = VSymbol d h g f" using p by (cases "load (cell_at s a)") auto
  show "symbol_slot function (load (cell_at t a)) = v" "type_of_payload (load (cell_at t a)) = RC_SYMBOL"
    "symbol_slot (\<not> function) (load (cell_at t a)) = symbol_slot (\<not> function) (load (cell_at s a))"
    using a(1) l by (simp_all add: t cell_at_upd_cell with_symbol_slot_def symbol_slot_def)
  show "heap_ok t (add_mset (symbol_slot function (load (cell_at s a))) R)"
    using heap_ok_exchange [where s = s and a = a and X = "{#v#}" and Y = "{#symbol_slot function (load (cell_at s a))#}"
      and p = "with_symbol_slot function v (load (cell_at s a))" and R = R
      and f = "\<lambda>x. x\<lparr>load := with_symbol_slot function v (load x)\<rparr>"] ok a
    by (simp add: t l with_symbol_slot_def symbol_slot_def payload_slots_def)
qed

lemma set_symbol_slot_cases:
  assumes e: "set_symbol_slot c (HRef a) v function s = (okay, t)"
  obtains (fail) "\<not> okay" "t = rc_error c ''invalid binding/context'' s"
    | (set) s1 s2 old where "okay" "belongs s c (HRef a)" "rc_type s (HRef a) = RC_SYMBOL" "belongs s c v"
      "same_heap s s1" "same_cells s s1" "\<And>d. retired_functions (ctxs s1 d) = retired_functions (ctxs s d)"
      "\<And>d. call_depth (ctxs s1 d) = call_depth (ctxs s d)" "next_ctx s1 = next_ctx s"
      "s2 = upd_cell a (\<lambda>x. x\<lparr>load := with_symbol_slot function v (load x)\<rparr>) (rc_retain v s1)"
      "old = symbol_slot function (load (cell_at s a))"
      "t = (if function \<and> call_depth (ctxs s2 c) \<noteq> 0 \<and> is_counted s2 old \<and> old \<noteq> v then retire_function c old s2 else rc_release old s2)"
proof -
  define s1 where "s1 = (if function \<and> function_generation (ctxs s c) < SIZE_MAX
    then upd_ctx c (\<lambda>x. x\<lparr>function_generation := function_generation x + 1\<rparr>) s else s)"
  have 1: "same_heap s s1" unfolding s1_def by (auto intro: same_heap_upd_ctx)
  have 2: "same_cells s s1" by (auto simp: s1_def same_cells_def ctxs_upd_ctx)
  have 3: "retired_functions (ctxs s1 d) = retired_functions (ctxs s d)" "call_depth (ctxs s1 d) = call_depth (ctxs s d)"
    "next_ctx s1 = next_ctx s" "cell_at s1 a = cell_at s a" for d
    by (auto simp: s1_def ctxs_upd_ctx)
  show thesis
  proof (cases "\<not> belongs s c (HRef a) \<or> rc_type s (HRef a) \<noteq> RC_SYMBOL \<or> \<not> belongs s c v")
    case True
    then have "\<not> okay" "t = rc_error c ''invalid binding/context'' s" using e by (auto simp: set_symbol_slot_def)
    then show thesis by (rule fail)
  next
    case False
    let ?s2 = "upd_cell a (\<lambda>x. x\<lparr>load := with_symbol_slot function v (load x)\<rparr>) (rc_retain v s1)"
    let ?old = "symbol_slot function (load (cell_at s a))"
    let ?C = "function \<and> call_depth (ctxs ?s2 c) \<noteq> 0 \<and> is_counted ?s2 ?old \<and> ?old \<noteq> v"
    have "set_symbol_slot c (HRef a) v function s = (if ?C then (True, retire_function c ?old ?s2) else (True, rc_release ?old ?s2))"
      unfolding set_symbol_slot_def Let_def s1_def [symmetric] 3(4) handle.case if_not_P [OF False] by (rule refl)
    with e have "okay" "t = (if ?C then retire_function c ?old ?s2 else rc_release ?old ?s2)" by (auto split: if_splits)
    then show thesis using False by (intro set [of s1 ?s2 ?old]) (simp_all add: 1 2 3)
  qed
qed

lemma same_core_retired: "same_core s t \<Longrightarrow> retired_functions (ctxs t c) = retired_functions (ctxs s c)"
  by (rule same_coreD)

lemma set_symbol_slot_ok:
  assumes ok: "heap_ok s (R + retired s c)" and a: "live s a" "refs (cell_at s a) = RC_IMMORTAL" and v: "valid s v"
    and e: "set_symbol_slot c (HRef a) v function s = (okay, t)"
  shows "heap_ok t (R + retired t c)"
    and "okay \<Longrightarrow> symbol_slot function (load (cell_at t a)) = v"
    and "\<not> okay \<or> function \<and> call_depth (ctxs s c) \<noteq> 0 \<Longrightarrow> keeps_but a s t"
    and "\<And>b. live s b \<Longrightarrow> refs (cell_at s b) = RC_IMMORTAL \<Longrightarrow> b \<noteq> a \<Longrightarrow> cell_kept s t b"
    and "live t a" "refs (cell_at t a) = RC_IMMORTAL"
    and "symbol_slot (\<not> function) (load (cell_at t a)) = symbol_slot (\<not> function) (load (cell_at s a))"
proof -
  have "heap_ok t (R + retired t c) \<and> (okay \<longrightarrow> symbol_slot function (load (cell_at t a)) = v) \<and>
    (\<not> okay \<or> function \<and> call_depth (ctxs s c) \<noteq> 0 \<longrightarrow> keeps_but a s t) \<and>
    (\<forall>b. live s b \<longrightarrow> refs (cell_at s b) = RC_IMMORTAL \<longrightarrow> b \<noteq> a \<longrightarrow> cell_kept s t b) \<and>
    live t a \<and> refs (cell_at t a) = RC_IMMORTAL \<and>
    symbol_slot (\<not> function) (load (cell_at t a)) = symbol_slot (\<not> function) (load (cell_at s a))"
    using e
  proof (cases rule: set_symbol_slot_cases)
    case fail
    have g: "grows s t" "same_heap s t" by (simp_all add: fail)
    from g(1) have k: "cell_kept s t b" if "live s b" for b using that by (simp add: grows_def)
    have "retired t c = retired s c" using same_core_retired [of s t c] g(1) by (simp add: grows_def)
    then show ?thesis using heap_ok_same_heap [OF ok g(2)] fail(1) grows_keeps_but [OF g(1)] k cell_kept_load(1) [OF k [OF a(1)]] k [OF a(1)] a(2)
      by (auto simp: cell_kept_def)
  next
    case (set s1 s2 old)
    have ok1: "heap_ok s1 (R + retired s c)" by (rule heap_ok_same_heap [OF ok set(5)])
    have c1: "cell_at s1 b = cell_at s b" "live s1 b = live s b" for b using same_cellsD [OF set(6)] by simp_all
    let ?r = "rc_retain v s1"
    have g: "grows s1 ?r" by (rule grows_retain)
    have okr: "heap_ok ?r (add_mset v (R + retired s c))" by (rule own.retain_inv [OF ok1]) (use v c1 in \<open>simp add: valid_def\<close>)
    have kr: "cell_kept s1 ?r b" if "live s b" for b using g that c1 by (simp add: grows_def)
    have la: "load (cell_at ?r a) = load (cell_at s a)" "live ?r a" "refs (cell_at ?r a) = RC_IMMORTAL"
      using cell_kept_load(1) [OF kr [OF a(1)]] kr [OF a(1)] a(2) c1 by (auto simp: cell_kept_def)
    have ty: "type_of_payload (load (cell_at ?r a)) = RC_SYMBOL" using set(3) la(1) by simp
    note st = store_slot_ok [OF okr la(2,3) ty set(10), unfolded la(1), folded set(11)]
    have k12: "keeps_but a s s2"
      using keeps_but_trans [OF same_cells_keeps_but [OF set(6)] keeps_but_trans [OF grows_keeps_but [OF g] upd_cell_keeps_but]]
      by (simp add: set(10))
    have rt: "retired_functions (ctxs ?r d) = retired_functions (ctxs s d)" for d
      using same_core_retired [of s1 ?r d] g set(7) by (simp add: grows_def)
    then have r2: "retired s2 c = retired s c" by (simp add: set(10))
    have cd: "call_depth (ctxs s2 c) = call_depth (ctxs s c)"
      using set(8) by (cases v) (simp_all add: set(10))
    have ok2: "heap_ok s2 (add_mset old (R + retired s2 c))" using st(1) by (simp only: r2)
    have a2: "live s2 a" "refs (cell_at s2 a) = RC_IMMORTAL" using la(2,3) by (simp_all add: set(10) cell_at_upd_cell)
    have i2: "cell_kept s s2 b \<and> refs (cell_at s2 b) = RC_IMMORTAL" if "live s b" "refs (cell_at s b) = RC_IMMORTAL" "b \<noteq> a" for b
      using k12 that by (auto simp: keeps_but_def cell_kept_def)
    show ?thesis
    proof (cases "function \<and> call_depth (ctxs s2 c) \<noteq> 0 \<and> is_counted s2 old \<and> old \<noteq> v")
      case True
      then have t: "t = retire_function c old s2" using set(12) by simp
      note rf = retire_function_ok [OF ok2, folded t]
      have k: "cell_kept s2 t b" if "live s2 b" for b using rf(2) [OF _ that] True by simp
      have "keeps_but a s t" by (rule keeps_but_trans [OF k12]) (simp add: keeps_but_def k k [unfolded cell_kept_def])
      moreover have "heap_ok t (R + retired t c)" using rf(1) True by simp
      moreover have "load (cell_at t a) = load (cell_at s2 a)" by (rule cell_kept_load [OF k [OF a2(1)]])
      moreover have "live t a" "refs (cell_at t a) = RC_IMMORTAL" using k [OF a2(1)] a2(2) by (auto simp: cell_kept_def)
      moreover have "cell_kept s t b" if "live s b" "refs (cell_at s b) = RC_IMMORTAL" "b \<noteq> a" for b
        using cell_kept_trans [OF conjunct1 [OF i2 [OF that]] k] i2 [OF that] by (simp add: cell_kept_def)
      ultimately show ?thesis using st(2,4) by auto
    next
      case False
      then have t: "t = rc_release old s2" using set(12) by (simp only: if_False)
      have okt: "heap_ok t (R + retired s2 c)" unfolding t by (rule heap_ok_release [OF ok2])
      have pr: "preserves (R + retired s2 c) s2 t" unfolding t by (rule own.release_keeps [OF ok2])
      have "retired_functions (ctxs t c) = retired_functions (ctxs s2 c)" by (rule same_core_retired) (use pr in \<open>simp add: preserves_def\<close>)
      then have 1: "heap_ok t (R + retired t c)" using okt by simp
      have im: "cell_kept s2 t b" if "live s2 b" "refs (cell_at s2 b) = RC_IMMORTAL" for b
      proof -
        have "b \<in> owned (view s2) (R + retired s2 c)" by (rule owned.immortal) (use that in \<open>simp_all add: live_fmdom\<close>)
        with pr show ?thesis by (simp add: preserves_def)
      qed
      have 2: "load (cell_at t a) = load (cell_at s2 a)" by (rule cell_kept_load [OF im [OF a2]])
      have 3: "keeps_but a s2 t" if d: "call_depth (ctxs s c) \<noteq> 0" "function"
      proof (cases "is_counted s2 old")
        case counted: True
        then have "old = v" using False d cd by simp
        then obtain x where x: "old = HRef x" "v = HRef x" using counted by (cases old) auto
        have "held (view s) {} = mset (holds s a) + held (view s) {a}"
          using held_remove [of "view s" a "{}"] a(1) by (simp add: live_fmdom)
        moreover have "old \<in> set (holds s a)"
        proof -
          obtain d h g f where "load (cell_at s a) = VSymbol d h g f" using ty la(1) by (cases "load (cell_at s a)") auto
          then show ?thesis using d set(11) by (simp add: holds_def symbol_slot_def)
        qed
        ultimately have m: "HRef x \<in># held (view s) {} + (R + retired s c)" using x by simp
        note cs = rc_okD(6) [OF ok [unfolded heap_ok_def]]
        from counts_okD(5) [OF cs m] have nx: "x \<in> nodes (view s) - {}" .
        from counts_okD(6) [OF cs nx] m have pos: "0 < refs (cell_at s x)" by (auto simp flip: count_greater_zero_iff)
        have rs2: "refs (cell_at s2 x) = refs (cell_at ?r x)" by (simp add: set(10) cell_at_upd_cell)
        have "1 < refs (cell_at s2 x)"
          using pos nx c1 x counted by (simp add: rs2 live_fmdom cell_at_upd_cell RC_IMMORTAL_def)
        then show ?thesis unfolding t x by (rule release_shared_keeps)
      qed (simp add: t release_uncounted)
      have 4: "live t a" "refs (cell_at t a) = RC_IMMORTAL" using im [OF a2] a2(2) by (auto simp: cell_kept_def)
      have 5: "cell_kept s t b" if "live s b" "refs (cell_at s b) = RC_IMMORTAL" "b \<noteq> a" for b
        using cell_kept_trans [OF conjunct1 [OF i2 [OF that]] im] i2 [OF that] by (simp add: cell_kept_def)
      from 1 2 3 4 5 st(2,4) set(1) keeps_but_trans [OF k12 3] show ?thesis by auto
    qed
  qed
  then show "heap_ok t (R + retired t c)"
    and "okay \<Longrightarrow> symbol_slot function (load (cell_at t a)) = v"
    and "\<not> okay \<or> function \<and> call_depth (ctxs s c) \<noteq> 0 \<Longrightarrow> keeps_but a s t"
    and "\<And>b. live s b \<Longrightarrow> refs (cell_at s b) = RC_IMMORTAL \<Longrightarrow> b \<noteq> a \<Longrightarrow> cell_kept s t b"
    and "live t a" "refs (cell_at t a) = RC_IMMORTAL"
    and "symbol_slot (\<not> function) (load (cell_at t a)) = symbol_slot (\<not> function) (load (cell_at s a))"
    by simp_all
qed

subsection \<open>Calls\<close>

lemma call_enter_ok: "heap_ok s R \<Longrightarrow> heap_ok (rc_call_enter c s) R" "keeps_but a s (rc_call_enter c s)"
  "retired_functions (ctxs (rc_call_enter c s) d) = retired_functions (ctxs s d)"
proof -
  have h: "same_heap s (rc_call_enter c s)" unfolding rc_call_enter_def by (rule same_heap_upd_ctx) simp
  have "same_cells s (rc_call_enter c s)" by (auto simp: rc_call_enter_def same_cells_def ctxs_upd_ctx)
  then show "keeps_but a s (rc_call_enter c s)" by (rule same_cells_keeps_but)
  show "heap_ok s R \<Longrightarrow> heap_ok (rc_call_enter c s) R" using h by (rule heap_ok_same_heap [rotated])
  show "retired_functions (ctxs (rc_call_enter c s) d) = retired_functions (ctxs s d)"
    by (simp add: rc_call_enter_def ctxs_upd_ctx)
qed

lemma call_leave_ok:
  assumes ok: "heap_ok s (R + retired s c)" and depth: "0 < call_depth (ctxs s c)"
  shows "heap_ok (rc_call_leave c s) (R + retired (rc_call_leave c s) c)"
    and "call_depth (ctxs s c) \<noteq> 1 \<Longrightarrow> keeps_but a s (rc_call_leave c s) \<and> retired (rc_call_leave c s) c = retired s c"
    and "call_depth (ctxs s c) = 1 \<Longrightarrow> retired (rc_call_leave c s) c = {#}"
    and "\<And>b. b \<in> owned (view s) R \<Longrightarrow> cell_kept s (rc_call_leave c s) b"
proof -
  let ?d = "upd_ctx c (\<lambda>x. x\<lparr>call_depth := call_depth x - 1\<rparr>) s" and ?old = "retired_functions (ctxs s c)"
  let ?e = "upd_ctx c (\<lambda>x. x\<lparr>retired_functions := []\<rparr>) ?d"
  have sh: "same_heap s ?d" "same_heap s ?e"
    using same_heap_upd_ctx [of "\<lambda>x. x\<lparr>call_depth := call_depth x - 1\<rparr>" s c]
      same_heap_upd_ctx [of "\<lambda>x. x\<lparr>retired_functions := []\<rparr>" ?d c] by (auto intro: same_heap_trans)
  have sc: "same_cells s ?d" "same_cells s ?e" by (auto simp: same_cells_def ctxs_upd_ctx)
  note okd = heap_ok_same_heap [OF ok sh(1)]
  have oke: "heap_ok ?e (mset ?old + R)" using heap_ok_same_heap [OF ok sh(2)] by (simp add: add.commute)
  have v: "view ?d = view s" "view ?e = view s"
    using view_cong [of ?d s] view_cong [of ?e s] plan_of_same_cells [OF sc(1)] plan_of_same_cells [OF sc(2)] by simp_all
  have live_owned: "live s b" if "b \<in> owned (view s) R" for b
  proof -
    have "b \<in> owned (view s) (R + retired s c)" by (rule set_mp [OF owned_subset that]) simp
    then show ?thesis using owned_live [OF rc_okD(6) [OF ok [unfolded heap_ok_def]]] by (simp add: live_fmdom)
  qed
  consider (stay) "rc_call_leave c s = ?d" "call_depth (ctxs s c) \<noteq> 1 \<or> ?old = []"
    | (last) "rc_call_leave c s = fold rc_release ?old ?e" "call_depth (ctxs s c) \<le> 1"
  proof (cases "call_depth (ctxs s c) \<noteq> 1 \<or> ?old = []")
    case True
    then have "rc_call_leave c s = ?d" using depth by (auto simp: rc_call_leave_def ctxs_upd_ctx)
    then show ?thesis using True by (rule stay)
  next
    case False
    then have "rc_call_leave c s = fold rc_release ?old ?e" by (simp add: rc_call_leave_def Let_def ctxs_upd_ctx)
    then show ?thesis using False by (intro last) simp_all
  qed
  note cases = this
  have last: "heap_ok (fold rc_release ?old ?e) R" "preserves R ?e (fold rc_release ?old ?e)"
    using own.release_list [OF oke] by simp_all
  have el: "retired_functions (ctxs (fold rc_release ?old ?e) c) = []"
    using same_core_retired [of ?e _ c] last(2) by (simp add: preserves_def ctxs_upd_ctx)
  from cases show "heap_ok (rc_call_leave c s) (R + retired (rc_call_leave c s) c)"
    by cases (use okd last(1) el in \<open>simp_all add: ctxs_upd_ctx\<close>)
  from cases show "call_depth (ctxs s c) \<noteq> 1 \<Longrightarrow> keeps_but a s (rc_call_leave c s) \<and> retired (rc_call_leave c s) c = retired s c"
    by cases (use same_cells_keeps_but [OF sc(1)] depth in \<open>simp_all add: ctxs_upd_ctx\<close>)
  from cases show "call_depth (ctxs s c) = 1 \<Longrightarrow> retired (rc_call_leave c s) c = {#}"
    by cases (use el in \<open>simp_all add: ctxs_upd_ctx\<close>)
  show "cell_kept s (rc_call_leave c s) b" if b: "b \<in> owned (view s) R" for b
    using cases
  proof cases
    case stay
    with same_cells_kept [OF sc(1) live_owned [OF b]] show ?thesis by simp
  next
    case last
    have "b \<in> owned (view ?e) R" using b v by simp
    with \<open>preserves R ?e (fold rc_release ?old ?e)\<close> have "cell_kept ?e (fold rc_release ?old ?e) b" by (simp add: preserves_def)
    from cell_kept_trans [OF same_cells_kept [OF sc(2) live_owned [OF b]] this] last(1) show ?thesis by simp
  qed
qed

end
