(* ===== verification/Tier_Laws.thy ===== *)
theory Tier_Laws
  imports Tier Binding_Laws Print_Read
begin

text \<open>
  The registry of the native tier. \<open>index_ok\<close> ties the slots to the entries: every registered
  function has exactly one slot, and nothing between its home and that slot is empty, so a probe
  ends at the entry of the function or at an empty slot. \<open>tier_ok\<close> adds the counters and the queue.
  The registry owns the closure, the name and the definition of each entry (\<open>owners\<close>).
\<close>

subsection \<open>The index\<close>

definition registered :: "entry list \<Rightarrow> nat \<Rightarrow> bool" where
  "registered es i \<longleftrightarrow> i < length es \<and> e_fn (es ! i) \<noteq> HNull"

definition fns_distinct :: "entry list \<Rightarrow> bool" where
  "fns_distinct es \<longleftrightarrow> (\<forall>i j. registered es i \<longrightarrow> registered es j \<longrightarrow> e_fn (es ! i) = e_fn (es ! j) \<longrightarrow> i = j)"

definition index_ok :: "entry list \<Rightarrow> tslot option list \<Rightarrow> bool" where
  "index_ok es ts \<longleftrightarrow> fns_distinct es \<and>
     (if ts = [] then \<forall>i. \<not> registered es i
      else pow2 (length ts) \<and> occupied ts < length ts \<and>
        (\<forall>p<length ts. \<forall>i. ts ! p = Some (At i) \<longrightarrow> registered es i \<and> reachable_slot (slot_home es) ts (At i) p) \<and>
        (\<forall>i. registered es i \<longrightarrow> (\<exists>p<length ts. ts ! p = Some (At i))) \<and>
        (\<forall>p<length ts. \<forall>q<length ts. \<forall>i. ts ! p = Some (At i) \<longrightarrow> ts ! q = Some (At i) \<longrightarrow> p = q))"

lemma index_okD:
  assumes "index_ok es ts"
  shows "fns_distinct es" "ts = [] \<Longrightarrow> \<not> registered es i" "ts \<noteq> [] \<Longrightarrow> pow2 (length ts)"
    "ts \<noteq> [] \<Longrightarrow> occupied ts < length ts"
    "p < length ts \<Longrightarrow> ts ! p = Some (At i) \<Longrightarrow> registered es i"
    "p < length ts \<Longrightarrow> ts ! p = Some (At i) \<Longrightarrow> reachable_slot (slot_home es) ts (At i) p"
    "registered es i \<Longrightarrow> \<exists>p<length ts. ts ! p = Some (At i)"
    "p < length ts \<Longrightarrow> q < length ts \<Longrightarrow> ts ! p = Some (At i) \<Longrightarrow> ts ! q = Some (At i) \<Longrightarrow> p = q"
  using assms by (auto simp: index_ok_def split: if_splits)

lemma fns_distinctD:
  "fns_distinct es \<Longrightarrow> registered es i \<Longrightarrow> registered es j \<Longrightarrow> e_fn (es ! i) = e_fn (es ! j) \<Longrightarrow> i = j"
  by (simp add: fns_distinct_def)

lemma hash_ptr_less: "pow2 n \<Longrightarrow> hash_ptr p n < n"
  by (simp add: hash_ptr_def Let_def wrap_less)

interpretation registry_tab: open_addressing hash_ptr "slot_fn es" for es
  by unfold_locales (rule hash_ptr_less)

lemma registered_cong: "map e_fn es' = map e_fn es \<Longrightarrow> registered es' i = registered es i"
  by (metis length_map nth_map registered_def)

lemma index_ok_cong:
  assumes "map e_fn es' = map e_fn es" "index_ok es ts"
  shows "index_ok es' ts"
proof -
  note r = registered_cong [OF assms(1)]
  have f: "e_fn (es' ! i) = e_fn (es ! i)" if "registered es i" for i
    using that assms(1) unfolding registered_def by (metis length_map nth_map)
  have h: "reachable_slot (slot_home es') ts (At i) p = reachable_slot (slot_home es) ts (At i) p" if "registered es i" for i p
    using f [OF that] by (simp add: reachable_slot_def slot_home_def)
  have "fns_distinct es'" using index_okD(1) [OF assms(2)] f by (simp add: fns_distinct_def r)
  with assms(2) h show ?thesis by (auto simp: index_ok_def r split: if_splits)
qed

text \<open>A probe for a function ends, at its entry or at an empty slot.\<close>

lemma find_slot_spec:
  assumes ok: "index_ok (registry t) (t_slots t)" and fn: "fn \<noteq> HNull"
  shows "case find_slot t fn of
      None \<Rightarrow> \<forall>i. registered (registry t) i \<longrightarrow> e_fn (registry t ! i) \<noteq> fn
    | Some j \<Rightarrow> j < length (t_slots t) \<and> (\<exists>i. t_slots t ! j = Some (At i) \<and> registered (registry t) i \<and> e_fn (registry t ! i) = fn)"
proof (cases "t_slots t = []")
  case True
  then show ?thesis using index_okD(2) [OF ok] by (simp add: find_slot_def)
next
  case False
  let ?ts = "t_slots t" and ?n = "length (t_slots t)" and ?h = "hash_ptr fn (length (t_slots t))"
  note p2 = index_okD(3) [OF ok False]
  from occupied_less_ex [OF index_okD(4) [OF ok False]] obtain z where z: "z < ?n" "?ts ! z = None" by blast
  note h = hash_ptr_less [OF p2, of fn]
  from probe_spec [OF p2 h z cdist_less [OF h z(1)]]
  obtain j where j: "j < ?n" "probe ?n (points_to t fn) ?ts ?h = Some j"
    "?ts ! j = None \<or> (\<exists>e. ?ts ! j = Some e \<and> points_to t fn e)"
    "\<And>q. q < ?n \<Longrightarrow> cdist ?n ?h q < cdist ?n ?h j \<Longrightarrow> \<exists>e. ?ts ! q = Some e \<and> \<not> points_to t fn e" by blast
  have at: "entry_at t i = registry t ! i" if "registered (registry t) i" for i
    using that by (simp add: entry_at_def registered_def)
  show ?thesis
  proof (cases "?ts ! j = None")
    case True
    have "e_fn (registry t ! i) \<noteq> fn" if r: "registered (registry t) i" for i
    proof
      assume f: "e_fn (registry t ! i) = fn"
      from index_okD(7) [OF ok r] obtain p where p: "p < ?n" "?ts ! p = Some (At i)" by blast
      with index_okD(6) [OF ok p] f have reach: "q < ?n \<Longrightarrow> cdist ?n ?h q < cdist ?n ?h p \<Longrightarrow> ?ts ! q \<noteq> None" for q
        by (simp add: reachable_slot_def slot_home_def)
      have "\<not> cdist ?n ?h j < cdist ?n ?h p" using reach [OF j(1)] True by auto
      moreover have "\<not> cdist ?n ?h p < cdist ?n ?h j"
        using j(4) [OF p(1)] p(2) f at [OF r] by auto
      ultimately have "j = p" using cdist_inj [OF h j(1) p(1)] by simp
      with True p show False by simp
    qed
    with True j(2) False show ?thesis by (simp add: find_slot_def)
  next
    case hit: False
    then obtain e where e: "?ts ! j = Some e" "points_to t fn e" using j(3) by auto
    then obtain i where i: "e = At i" "e_fn (entry_at t i) = fn" by (cases e) auto
    with e have "registered (registry t) i" using index_okD(5) [OF ok j(1)] by simp
    with hit j(1,2) False e i at show ?thesis by (auto simp: find_slot_def)
  qed
qed

lemma reachable_slot_mono:
  assumes "reachable_slot home ts x p" "length ts' = length ts" "\<And>q. q < length ts \<Longrightarrow> ts ! q \<noteq> None \<Longrightarrow> ts' ! q \<noteq> None"
  shows "reachable_slot home ts' x p"
  using assms by (auto simp: reachable_slot_def)

lemma index_retire:
  assumes ok: "index_ok es ts" and j: "j < length ts" "ts ! j = Some (At i)"
  shows "index_ok (es[i := no_entry]) (ts[j := Some Tombstone])"
proof -
  let ?es = "es[i := no_entry]" and ?ts = "ts[j := Some Tombstone]"
  have ne: "ts \<noteq> []" using j by auto
  note i = index_okD(5) [OF ok j]
  have r: "registered ?es k \<longleftrightarrow> registered es k \<and> k \<noteq> i" for k
    using i by (cases "k = i") (simp_all add: registered_def no_entry_def)
  have same: "?es ! k = es ! k" if "k \<noteq> i" for k using that by simp
  have old: "p \<noteq> j \<and> ts ! p = Some (At k)" if "?ts ! p = Some (At k)" for p k using that j(1) by (cases "p = j") simp_all
  have "fns_distinct ?es"
    unfolding fns_distinct_def r
  proof (intro allI impI)
    fix a b assume "registered es a \<and> a \<noteq> i" "registered es b \<and> b \<noteq> i" "e_fn (?es ! a) = e_fn (?es ! b)"
    with fns_distinctD [OF index_okD(1) [OF ok], of a b] show "a = b" by simp
  qed
  moreover have "occupied ?ts < length ?ts" using occupied_update [OF j(1), of "Some Tombstone"] j index_okD(4) [OF ok ne] by simp
  moreover have "registered ?es k \<and> reachable_slot (slot_home ?es) ?ts (At k) p"
    if p: "p < length ts" "?ts ! p = Some (At k)" for p k
  proof -
    have pj: "p \<noteq> j" and pk: "ts ! p = Some (At k)" using old [OF p(2)] by simp_all
    have "k \<noteq> i" using index_okD(8) [OF ok p(1) j(1) pk] j(2) pj by auto
    moreover have "reachable_slot (slot_home es) ts (At k) p" by (rule index_okD(6) [OF ok p(1) pk])
    then have "reachable_slot (slot_home es) ?ts (At k) p" by (rule reachable_slot_mono) (use j(1) in \<open>simp_all add: nth_list_update\<close>)
    moreover have "slot_home ?es (At k) = slot_home es (At k)" using same [OF \<open>k \<noteq> i\<close>] by (simp add: slot_home_def)
    ultimately show ?thesis using index_okD(5) [OF ok p(1) pk] by (simp add: r reachable_slot_def)
  qed
  moreover have "\<exists>p<length ts. ?ts ! p = Some (At k)" if k: "registered ?es k" for k
  proof -
    from k r [of k] have k: "registered es k" "k \<noteq> i" by blast+
    from index_okD(7) [OF ok k(1)] obtain p where p: "p < length ts" "ts ! p = Some (At k)" by blast
    then have "p \<noteq> j" using j(2) k(2) by auto
    with p show ?thesis by (intro exI [of _ p]) simp
  qed
  moreover have "p = q" if "p < length ts" "q < length ts" "?ts ! p = Some (At k)" "?ts ! q = Some (At k)" for p q k
    using index_okD(8) [OF ok that(1,2)] old [OF that(3)] old [OF that(4)] by blast
  ultimately show ?thesis using ne index_okD(3) [OF ok ne] by (simp add: index_ok_def)
qed

lemma index_register:
  assumes ok: "index_ok es ts" and ne: "ts \<noteq> []" and fn: "e_fn e \<noteq> HNull" and new: "\<forall>i. registered es i \<longrightarrow> e_fn (es ! i) \<noteq> e_fn e"
    and room: "occupied ts + 1 < length ts"
  shows "\<exists>j<length ts. probe (length ts) (\<lambda>x. x = Tombstone) ts (hash_ptr (e_fn e) (length ts)) = Some j \<and>
    (ts ! j = None \<or> ts ! j = Some Tombstone) \<and> index_ok (es @ [e]) (ts[j := Some (At (length es))])"
proof -
  let ?n = "length ts" and ?h = "hash_ptr (e_fn e) (length ts)" and ?es = "es @ [e]"
  note p2 = index_okD(3) [OF ok ne]
  from occupied_less_ex [OF index_okD(4) [OF ok ne]] obtain z where z: "z < ?n" "ts ! z = None" by blast
  note h = hash_ptr_less [OF p2, of "e_fn e"]
  from probe_spec [OF p2 h z cdist_less [OF h z(1)]]
  obtain j where j: "j < ?n" "probe ?n (\<lambda>x. x = Tombstone) ts ?h = Some j"
    "ts ! j = None \<or> ts ! j = Some Tombstone"
    "\<And>q. q < ?n \<Longrightarrow> cdist ?n ?h q < cdist ?n ?h j \<Longrightarrow> \<exists>e. ts ! q = Some e" by blast
  let ?ts = "ts[j := Some (At (length es))]"
  have r: "registered ?es k \<longleftrightarrow> registered es k \<or> k = length es" for k
    using fn by (auto simp: registered_def nth_append)
  have same: "?es ! k = es ! k" if "registered es k" for k using that by (simp add: registered_def nth_append)
  have lt: "registered es k \<Longrightarrow> k < length es" for k by (simp add: registered_def)
  have "fns_distinct ?es" using index_okD(1) [OF ok] new same fn
    unfolding fns_distinct_def r by (metis nth_append_length)
  moreover have "occupied ?ts < length ?ts"
    using occupied_update [OF j(1), of "Some (At (length es))"] room by (auto split: if_splits)
  moreover have "registered ?es k \<and> reachable_slot (slot_home ?es) ?ts (At k) p"
    if p: "p < ?n" "?ts ! p = Some (At k)" for p k
  proof (cases "p = j")
    case True
    with p j(1) have "k = length es" by simp
    moreover have "reachable_slot (slot_home ?es) ?ts (At (length es)) j"
      using j(1,4) by (auto simp: reachable_slot_def slot_home_def nth_list_update)
    ultimately show ?thesis using True by (simp add: r)
  next
    case False
    with p have pk: "ts ! p = Some (At k)" by simp
    note rk = index_okD(5) [OF ok p(1) pk]
    have "reachable_slot (slot_home es) ?ts (At k) p"
      by (rule reachable_slot_mono [OF index_okD(6) [OF ok p(1) pk]]) (use j(1) in \<open>auto simp: nth_list_update\<close>)
    with rk same [OF rk] show ?thesis by (simp add: r reachable_slot_def slot_home_def)
  qed
  moreover have "\<exists>p<?n. ?ts ! p = Some (At k)" if k: "registered ?es k" for k
  proof (cases "registered es k")
    case True
    from index_okD(7) [OF ok True] obtain p where p: "p < ?n" "ts ! p = Some (At k)" by blast
    with j(3) have "p \<noteq> j" by auto
    with p show ?thesis by (intro exI [of _ p]) simp
  next
    case False
    with k r have "k = length es" by blast
    with j(1) show ?thesis by (intro exI [of _ j]) simp
  qed
  moreover have "p = q" if pq: "p < ?n" "q < ?n" "?ts ! p = Some (At k)" "?ts ! q = Some (At k)" for p q k
  proof -
    have old: "x = j \<and> k = length es \<or> x \<noteq> j \<and> ts ! x = Some (At k) \<and> k < length es"
      if "x < ?n" "?ts ! x = Some (At k)" for x
      using that j(1) lt index_okD(5) [OF ok that(1), of k] by (cases "x = j") auto
    show ?thesis using old [OF pq(1,3)] old [OF pq(2,4)] index_okD(8) [OF ok pq(1,2), of k] by auto
  qed
  ultimately have "index_ok ?es ?ts" using ne p2 by (simp add: index_ok_def)
  with j(1-3) show ?thesis by blast
qed

text \<open>A rebuilt index.\<close>

lemma index_rebuilt:
  assumes "fns_distinct es" "table_ok (slot_home es) (slot_fn es) ts" "entries ts = {At i | i. registered es i}"
  shows "index_ok es ts"
proof -
  have ne: "ts \<noteq> []" "pow2 (length ts)" "occupied ts < length ts" using assms(2) by (auto simp: table_ok_def)
  have e: "registered es i" if "p < length ts" "ts ! p = Some (At i)" for p i
    using entriesI [OF that] assms(3) by auto
  moreover have "reachable_slot (slot_home es) ts (At i) p" if "p < length ts" "ts ! p = Some (At i)" for p i
    using assms(2) that by (auto simp: table_ok_def)
  moreover have "\<exists>p<length ts. ts ! p = Some (At i)" if "registered es i" for i
    using that assms(3) by (auto simp flip: entries_nth)
  moreover have "p = q" if "p < length ts" "q < length ts" "ts ! p = Some (At i)" "ts ! q = Some (At i)" for p q i
    using assms(2) that unfolding table_ok_def by blast
  ultimately show ?thesis using assms(1) ne by (simp add: index_ok_def)
qed

subsection \<open>The whole registry\<close>

definition registry_ok :: "tier_state \<Rightarrow> bool" where
  "registry_ok t \<longleftrightarrow> index_ok (registry t) (t_slots t) \<and> slot_used t = occupied (t_slots t) \<and>
     t_live t = length (filter (\<lambda>e. e_fn e \<noteq> HNull) (registry t)) \<and> length (registry t) \<le> entry_cap t \<and>
     (\<forall>e\<in>set (registry t). e_fn e = HNull \<longrightarrow> e = no_entry)"

definition waiting :: "entry list \<Rightarrow> nat set" where
  "waiting es = {i. i < length es \<and> e_state (es ! i) = PENDING}"

definition queue_ok :: "tier_state \<Rightarrow> bool" where
  "queue_ok t \<longleftrightarrow> distinct (queue t) \<and> (\<forall>i\<in>set (queue t). i < length (registry t)) \<and>
     (\<forall>i\<in>set (queue t). registered (registry t) i \<longrightarrow> i \<in> waiting (registry t)) \<and>
     length (queue t) \<le> queue_cap t \<and> (\<not> disabled t \<longrightarrow> waiting (registry t) \<subseteq> set (queue t))"

definition quiet :: "mem \<Rightarrow> mem \<Rightarrow> bool" where
  \<comment> \<open>nothing but library calls\<close>
  "quiet s s' \<longleftrightarrow> (\<exists>bs. s' = s\<lparr>outcomes := bs\<rparr>)"

lemma quiet_refl [simp]: "quiet s s"
  unfolding quiet_def by (rule exI [of _ "outcomes s"]) simp

lemma quiet_trans: "quiet s t \<Longrightarrow> quiet t u \<Longrightarrow> quiet s u"
  by (auto simp: quiet_def)

lemma quiet_library_call [simp]: "quiet s (snd (library_call s))"
  by (cases "outcomes s") (auto simp: library_call_def quiet_def intro: exI [of _ "outcomes s"])

lemma quiet_cells: "quiet s t \<Longrightarrow> same_heap s t \<and> same_cells s t \<and> grows s t"
proof -
  assume "quiet s t"
  then obtain bs where t: "t = s\<lparr>outcomes := bs\<rparr>" by (auto simp: quiet_def)
  have "same_cells s t" "same_heap s t" "same_core s t"
    by (simp_all add: t same_cells_def same_heap_def same_core_def cell_at_def live_def rc_value_context_def)
  then show ?thesis by (simp add: grows_same_cells)
qed

lemma moves_quiet: "quiet s t \<Longrightarrow> moves s A t A"
  using quiet_cells same_heap_moves by blast

lemma registry_okD:
  assumes "registry_ok t"
  shows "index_ok (registry t) (t_slots t)" "slot_used t = occupied (t_slots t)"
    "t_live t = length (filter (\<lambda>e. e_fn e \<noteq> HNull) (registry t))" "length (registry t) \<le> entry_cap t"
    "\<And>e. e \<in> set (registry t) \<Longrightarrow> e_fn e = HNull \<Longrightarrow> e = no_entry"
  using assms by (auto simp: registry_ok_def)

lemma registered_card: "length (filter (\<lambda>e. e_fn e \<noteq> HNull) es) = card {i. registered es i}"
  by (simp add: length_filter_conv_card registered_def)

lemma live_slots:
  assumes ok: "index_ok es ts"
  shows "entries (map live_slot ts) = {At i | i. registered es i}"
    "distinct (map (slot_fn es) (contents (map live_slot ts)))"
    "occupied (map live_slot ts) = length (filter (\<lambda>e. e_fn e \<noteq> HNull) es)"
proof -
  have ls: "map live_slot ts ! p = Some x \<longleftrightarrow> (\<exists>i. x = At i \<and> ts ! p = Some (At i))" if "p < length ts" for p x
    using that by (cases x; cases "ts ! p"; cases "the (ts ! p)") (auto simp: live_slot_def)
  show e: "entries (map live_slot ts) = {At i | i. registered es i}"
  proof (intro set_eqI iffI)
    fix x assume "x \<in> entries (map live_slot ts)"
    then show "x \<in> {At i | i. registered es i}" using index_okD(5) [OF ok] ls by (auto simp: entries_nth)
  next
    fix x assume "x \<in> {At i | i. registered es i}"
    then obtain i where i: "x = At i" "registered es i" by blast
    from index_okD(7) [OF ok i(2)] obtain p where p: "p < length ts" "ts ! p = Some (At i)" by blast
    with ls [OF p(1), of "At i"] have "map live_slot ts ! p = Some (At i)" by blast
    with p(1) i(1) show "x \<in> entries (map live_slot ts)" unfolding entries_nth by auto
  qed
  have same: "p = q" if pq: "p < length ts" "q < length ts" and x: "map live_slot ts ! p = Some x" and y: "map live_slot ts ! q = Some y"
    and f: "slot_fn es x = slot_fn es y" for p q x y
  proof -
    obtain i k where ik: "x = At i" "ts ! p = Some (At i)" "y = At k" "ts ! q = Some (At k)"
      using x y ls [OF pq(1)] ls [OF pq(2)] by blast
    with index_okD(5) [OF ok pq(1)] index_okD(5) [OF ok pq(2)] f have "i = k"
      by (intro fns_distinctD [OF index_okD(1) [OF ok]]) simp_all
    with ik index_okD(8) [OF ok pq] show ?thesis by simp
  qed
  show d: "distinct (map (slot_fn es) (contents (map live_slot ts)))"
    by (rule contents_distinct) (use same in simp)
  have "inj_on At {i. registered es i}" by (simp add: inj_on_def)
  moreover have "{At i | i. registered es i} = At ` {i. registered es i}" by auto
  ultimately have "card (set (contents (map live_slot ts))) = card {i. registered es i}"
    using e by (simp add: entries_contents card_image)
  moreover have "distinct (contents (map live_slot ts))" using d by (simp add: distinct_map)
  ultimately show "occupied (map live_slot ts) = length (filter (\<lambda>e. e_fn e \<noteq> HNull) es)"
    by (simp add: occupied_contents distinct_card registered_card)
qed

lemma grown_cap_spec: "cap = 2 ^ k \<Longrightarrow> \<exists>m. grown_cap cap n = 2 ^ m \<and> 4 * (n + 1) \<le> 2 ^ m"
proof (induction cap n arbitrary: k rule: grown_cap.induct)
  case (1 cap n)
  show ?case
  proof (cases "cap < 4 * (n + 1)")
    case True
    have "cap * 2 = 2 ^ Suc k" using 1(2) by simp
    from 1(1) [OF _ this] True 1(2) obtain m where "grown_cap (cap * 2) n = 2 ^ m" "4 * (n + 1) \<le> 2 ^ m" by auto
    with True 1(2) show ?thesis by (subst grown_cap.simps) auto
  next
    case False
    then show ?thesis using 1(2) by (subst grown_cap.simps) auto
  qed
qed

lemma grow_slots_ok:
  assumes ok: "registry_ok t" and e: "grow_slots t s = (okay, t', s')"
  shows "registry_ok t'" "quiet s s'" "registry t' = registry t" "okay \<Longrightarrow> slot_used t' + 1 < length (t_slots t')"
    "\<exists>ts n. t' = t\<lparr>t_slots := ts, slot_used := n\<rparr>"
proof -
  note r = registry_okD [OF ok]
  let ?cap = "grown_cap (if t_slots t \<noteq> [] then length (t_slots t) * 2 else 1024) (t_live t)"
  have "\<exists>k. (if t_slots t \<noteq> [] then length (t_slots t) * 2 else 1024 :: nat) = 2 ^ k"
  proof (cases "t_slots t = []")
    case True
    then show ?thesis by (intro exI [of _ 10]) simp
  next
    case False
    with index_okD(3) [OF r(1)] obtain k where "length (t_slots t) = 2 ^ k" by (auto simp: pow2_def)
    then show ?thesis using False by (intro exI [of _ "Suc k"]) simp
  qed
  then obtain k where k: "(if t_slots t \<noteq> [] then length (t_slots t) * 2 else 1024 :: nat) = 2 ^ k" by blast
  from grown_cap_spec [OF k, of "t_live t"] obtain m where m: "?cap = 2 ^ m" "4 * (t_live t + 1) \<le> 2 ^ m" by blast
  have "s' = snd (library_call s)" using e by (auto simp: grow_slots_def Let_def split: prod.splits if_splits)
  then have q: "quiet s s'" by simp
  have c: "okay \<and> ?cap * 8 \<le> SIZE_MAX \<and>
      t' = t\<lparr>t_slots := rehash (slot_home (registry t)) (map live_slot (t_slots t)) (replicate ?cap None), slot_used := t_live t\<rparr> \<or>
      \<not> okay \<and> t' = t"
    using e unfolding grow_slots_def Let_def by (cases "library_call s") (auto simp del: grown_cap.simps split: if_splits)
  show "quiet s s'" by (rule q)
  show "registry t' = registry t" using c by auto
  show "\<exists>ts n. t' = t\<lparr>t_slots := ts, slot_used := n\<rparr>"
    using c by (elim disjE) (blast, intro exI [of _ "t_slots t"] exI [of _ "slot_used t"], simp)
  have "registry_ok t' \<and> (okay \<longrightarrow> slot_used t' + 1 < length (t_slots t'))"
  proof (cases okay)
    case False
    with c ok show ?thesis by simp
  next
    case True
    let ?ts = "rehash (slot_home (registry t)) (map live_slot (t_slots t)) (replicate ?cap None)"
    have t': "t' = t\<lparr>t_slots := ?ts, slot_used := t_live t\<rparr>" and le: "?cap * 8 \<le> SIZE_MAX" using c True by simp_all
    have "(2::nat) ^ m \<le> 2 ^ 64" using le m(1) by (simp add: SIZE_MAX_def)
    then have "m \<le> 64" by (rule power_le_imp_le_exp [rotated]) simp
    then have p2: "pow2 ?cap" unfolding pow2_def m(1) by blast
    note ls = live_slots [OF r(1)]
    have rh: "table_ok (slot_home (registry t)) (slot_fn (registry t)) ?ts \<and>
      entries ?ts = entries (map live_slot (t_slots t)) \<union> entries (replicate ?cap (None :: tslot option)) \<and>
      occupied ?ts = occupied (map live_slot (t_slots t)) + occupied (replicate ?cap (None :: tslot option)) \<and>
      length ?ts = length (replicate ?cap (None :: tslot option))"
      unfolding slot_home_def
      by (rule registry_tab.rehash) (use ls m r(3) p2 in \<open>simp_all add: table_ok_replicate\<close>)
    have "index_ok (registry t) ?ts"
      by (rule index_rebuilt [OF index_okD(1) [OF r(1)]]) (use rh ls(1) in simp_all)
    then show ?thesis using rh ls(3) r m by (simp add: registry_ok_def t')
  qed
  then show "registry_ok t'" "okay \<Longrightarrow> slot_used t' + 1 < length (t_slots t')" by simp_all
qed

subsection \<open>Ownership\<close>

definition held_by :: "entry \<Rightarrow> handle multiset" where
  "held_by e = {#e_fn e, e_name e, e_definition e#}"

definition owners :: "entry list \<Rightarrow> handle multiset" where
  "owners es = (\<Sum>e\<leftarrow>es. held_by e)"

lemma owners_simps [simp]: "owners [] = {#}" "owners (e # es) = held_by e + owners es" "owners (es @ es') = owners es + owners es'"
  by (simp_all add: owners_def)

lemma owners_at: "i < length es \<Longrightarrow> owners es = held_by (es ! i) + owners (take i es @ drop (Suc i) es)"
  by (subst id_take_nth_drop [of i es], assumption) (simp add: ac_simps)

lemma owners_update: "i < length es \<Longrightarrow> owners (es[i := e]) = held_by e + owners (take i es @ drop (Suc i) es)"
  by (subst upd_conv_take_nth_drop, assumption) (simp add: ac_simps)

lemma owners_state: "i < length es \<Longrightarrow> held_by e = held_by (es ! i) \<Longrightarrow> owners (es[i := e]) = owners es"
  by (simp add: owners_at owners_update)

lemma held_by_no_entry: "heap_ok s (held_by no_entry + R) \<longleftrightarrow> heap_ok s R"
  by (simp add: held_by_def no_entry_def)

lemma moves_no_entry: "moves s A t (held_by no_entry + B) \<longleftrightarrow> moves s A t B"
  by (simp add: held_by_def no_entry_def)

lemma owners_compact: "\<forall>e\<in>set es. e_fn e = HNull \<longrightarrow> e = no_entry \<Longrightarrow>
   heap_ok s (owners (filter (\<lambda>e. e_fn e \<noteq> HNull) es) + R) \<longleftrightarrow> heap_ok s (owners es + R)"
proof (induction es arbitrary: R)
  case (Cons e es)
  have "heap_ok s (owners (filter (\<lambda>e. e_fn e \<noteq> HNull) es) + (held_by e + R)) \<longleftrightarrow> heap_ok s (owners es + (held_by e + R))"
    using Cons by simp
  moreover have "heap_ok s (held_by no_entry + (owners (filter (\<lambda>e. e_fn e \<noteq> HNull) es) + R)) \<longleftrightarrow>
     heap_ok s (owners (filter (\<lambda>e. e_fn e \<noteq> HNull) es) + R)" by (rule held_by_no_entry)
  ultimately show ?case using Cons.prems by (cases "e_fn e = HNull") (auto simp: ac_simps)
qed simp

subsection \<open>Retiring\<close>

lemma entry_at_registered: "registered (registry t) i \<Longrightarrow> entry_at t i = registry t ! i"
  by (simp add: entry_at_def registered_def)

lemma record_calls_simps [simp]:
  "registry (record_calls n t) = registry t" "t_slots (record_calls n t) = t_slots t" "slot_used (record_calls n t) = slot_used t"
  "t_live (record_calls n t) = t_live t" "queue (record_calls n t) = queue t" "queue_cap (record_calls n t) = queue_cap t"
  "entry_cap (record_calls n t) = entry_cap t" "disabled (record_calls n t) = disabled t" "busy (record_calls n t) = busy t"
  "count_only (record_calls n t) = count_only t" "threshold (record_calls n t) = threshold t"
  by (simp_all add: record_calls_def Let_def)

lemma moves_release_entry:
  "moves s (held_by e + A) (rc_release (e_definition e) (rc_release (e_name e) (rc_release (e_fn e) s))) A"
  using moves_release_three [of s "e_fn e" "e_name e" "e_definition e" A] by (simp add: held_by_def add.commute)

lemma retire_ok:
  assumes ok: "registry_ok t" and j: "j < length (t_slots t)" "t_slots t ! j = Some (At i)" and e: "retire j t s = (t', s')"
  shows "registry_ok t'" "registry t' = (registry t)[i := no_entry]" "queue t' = queue t"
    "moves s (owners (registry t)) s' (owners (registry t'))"
    "queue_cap t' = queue_cap t" "disabled t' = disabled t" "busy t' = busy t" "count_only t' = count_only t"
    "threshold t' = threshold t" "entry_cap t' = entry_cap t"
proof -
  note r = registry_okD [OF ok]
  have i: "registered (registry t) i" by (rule index_okD(5) [OF r(1) j])
  then have il: "i < length (registry t)" by (simp add: registered_def)
  note at = entry_at_registered [OF i]
  have t': "registry t' = (registry t)[i := no_entry]" "t_slots t' = (t_slots t)[j := Some Tombstone]" "t_live t' = t_live t - 1"
    "slot_used t' = slot_used t" "queue t' = queue t" "entry_cap t' = entry_cap t"
    "queue_cap t' = queue_cap t" "disabled t' = disabled t" "busy t' = busy t" "count_only t' = count_only t" "threshold t' = threshold t"
    and s': "s' = rc_release (e_definition (registry t ! i)) (rc_release (e_name (registry t ! i)) (rc_release (e_fn (registry t ! i)) s))"
    using e j(2) at by (auto simp: retire_def Let_def)
  show "registry t' = (registry t)[i := no_entry]" "queue t' = queue t"
    "queue_cap t' = queue_cap t" "disabled t' = disabled t" "busy t' = busy t" "count_only t' = count_only t"
    "threshold t' = threshold t" "entry_cap t' = entry_cap t" by (rule t')+
  let ?rest = "owners (take i (registry t) @ drop (Suc i) (registry t))"
  have "moves s (held_by (registry t ! i) + ?rest) s' ?rest" unfolding s' by (rule moves_release_entry)
  then show "moves s (owners (registry t)) s' (owners (registry t'))"
    unfolding t'(1) owners_update [OF il] owners_at [OF il] by (simp only: moves_no_entry)
  have "{k. registered ((registry t)[i := no_entry]) k} = {k. registered (registry t) k} - {i}"
    using il by (auto simp: registered_def no_entry_def nth_list_update)
  moreover have "finite {k. registered (registry t) k}" by (simp add: registered_def)
  ultimately have "length (filter (\<lambda>e. e_fn e \<noteq> HNull) ((registry t)[i := no_entry])) = t_live t - 1"
    using i by (simp add: registered_card r(3))
  moreover have "occupied (t_slots t') = occupied (t_slots t)"
    using occupied_update [OF j(1), of "Some Tombstone"] j(2) by (simp add: t')
  moreover have "e = no_entry" if "e \<in> set (registry t')" "e_fn e = HNull" for e
    using that r(5) set_update_subset_insert [of "registry t" i no_entry] by (auto simp: t')
  ultimately show "registry_ok t'" using index_retire [OF r(1) j] r by (simp add: registry_ok_def t')
qed

lemma waiting_retire: "waiting (es[i := no_entry]) = waiting es - {i}"
proof -
  have "k \<in> waiting (es[i := no_entry]) \<longleftrightarrow> k \<in> waiting es - {i}" for k
    by (cases "k = i") (auto simp: waiting_def no_entry_def)
  then show ?thesis by blast
qed

lemma registered_retire: "registered (es[i := no_entry]) k \<longleftrightarrow> registered es k \<and> k \<noteq> i"
  by (cases "k = i") (auto simp: registered_def no_entry_def)

lemma queue_retire:
  assumes "queue_ok t" "registry t' = (registry t)[i := no_entry]" "queue t' = queue t" "queue_cap t' = queue_cap t" "disabled t' = disabled t"
  shows "queue_ok t'"
  using assms by (auto simp: queue_ok_def waiting_retire registered_retire)

subsection \<open>Queueing\<close>

lemma upd_entry_simps [simp]:
  "t_slots (upd_entry i f t) = t_slots t" "slot_used (upd_entry i f t) = slot_used t"
  "t_live (upd_entry i f t) = t_live t" "queue (upd_entry i f t) = queue t" "queue_cap (upd_entry i f t) = queue_cap t"
  "entry_cap (upd_entry i f t) = entry_cap t" "disabled (upd_entry i f t) = disabled t" "busy (upd_entry i f t) = busy t"
  "count_only (upd_entry i f t) = count_only t" "threshold (upd_entry i f t) = threshold t"
  "registry (upd_entry i f t) = (registry t)[i := f (entry_at t i)]"
  by (simp_all add: upd_entry_def)

lemma push_pending_cases:
  assumes "push_pending i t s = (t', s')"
  obtains (pushed) n where "t' = (upd_entry i (\<lambda>e. e\<lparr>e_state := PENDING\<rparr>) t)\<lparr>queue := queue t @ [i], queue_cap := n\<rparr>"
      "length (queue t) < n \<or> queue_cap t < length (queue t)" "quiet s s'" "length (queue t) < queue_cap t \<longrightarrow> n = queue_cap t \<and> s' = s"
    | (full) "t' = t" "quiet s s'" "length (queue t) = queue_cap t"
proof (cases "length (queue t) = queue_cap t")
  case False
  with assms have "t' = (upd_entry i (\<lambda>e. e\<lparr>e_state := PENDING\<rparr>) t)\<lparr>queue := queue t @ [i], queue_cap := queue_cap t\<rparr>" "s' = s"
    by (auto simp: push_pending_def Let_def)
  then show thesis using False by (intro pushed [of "queue_cap t"]) auto
next
  case True
  let ?cap = "if queue_cap t \<noteq> 0 then queue_cap t * 2 else 256"
  obtain okay where l: "library_call s = (okay, snd (library_call s))" by (cases "library_call s") simp
  show thesis
  proof (cases okay)
    case True
    with l assms \<open>length (queue t) = queue_cap t\<close>
    have "t' = (upd_entry i (\<lambda>e. e\<lparr>e_state := PENDING\<rparr>) t)\<lparr>queue := queue t @ [i], queue_cap := ?cap\<rparr>" "s' = snd (library_call s)"
      unfolding push_pending_def Let_def by (auto simp: upd_entry_def entry_at_def split: prod.splits if_splits)
    then show thesis using \<open>length (queue t) = queue_cap t\<close> by (intro pushed [of ?cap]) auto
  next
    case False
    with l assms \<open>length (queue t) = queue_cap t\<close> have "t' = t" "s' = snd (library_call s)"
      unfolding push_pending_def Let_def by (auto split: prod.splits if_splits)
    then show thesis using \<open>length (queue t) = queue_cap t\<close> by (intro full) simp_all
  qed
qed

lemma registry_ok_state:
  assumes "registry_ok t" "map e_fn (registry t') = map e_fn (registry t)" "t_slots t' = t_slots t" "slot_used t' = slot_used t"
    "t_live t' = t_live t" "entry_cap t' = entry_cap t" "\<And>e. e \<in> set (registry t') \<Longrightarrow> e_fn e = HNull \<Longrightarrow> e = no_entry"
  shows "registry_ok t'"
proof -
  note r = registry_okD [OF assms(1)]
  have "length (registry t') = length (registry t)" by (metis assms(2) length_map)
  moreover have "length (filter (\<lambda>e. e_fn e \<noteq> HNull) es) = length (filter (\<lambda>v. v \<noteq> HNull) (map e_fn es))" for es
    by (induction es) simp_all
  then have "length (filter (\<lambda>e. e_fn e \<noteq> HNull) (registry t')) = length (filter (\<lambda>e. e_fn e \<noteq> HNull) (registry t))"
    by (metis assms(2))
  ultimately show ?thesis using index_ok_cong [OF assms(2) r(1)] r assms by (simp add: registry_ok_def)
qed

lemma waiting_card: "card (waiting es) = length (filter (\<lambda>e. e_state e = PENDING) es)"
  by (simp add: waiting_def length_filter_conv_card)

lemma finite_waiting [simp]: "finite (waiting es)"
  by (simp add: waiting_def)

lemma pending_unchanged: "e_state e = PENDING \<Longrightarrow> e\<lparr>e_state := PENDING\<rparr> = e"
  by (cases e) simp

lemma waiting_from:
  assumes "registry t = pre @ e # es" "length pre = i"
  shows "waiting (registry t) \<inter> {i..} =
    (if e_state e = PENDING then insert i (waiting (registry t) \<inter> {Suc i..}) else waiting (registry t) \<inter> {Suc i..})"
proof -
  have "i \<in> waiting (registry t) \<longleftrightarrow> e_state e = PENDING" using assms by (auto simp: waiting_def nth_append)
  moreover have "{i..} = insert i {Suc i..}" by auto
  ultimately show ?thesis by auto
qed

lemma requeue_ok:
  assumes "requeue i es t s = (t', s')" "registry t = pre @ es" "length pre = i"
    and "distinct (queue t)" "\<forall>k\<in>set (queue t). k < i" "length (queue t) \<le> queue_cap t"
  shows "\<exists>q n. t' = t\<lparr>queue := q, queue_cap := n\<rparr> \<and> distinct q \<and> set q \<subseteq> set (queue t) \<union> (waiting (registry t) \<inter> {i..}) \<and>
    length q \<le> n \<and> (length (queue t) + card (waiting (registry t) \<inter> {i..}) \<le> queue_cap t \<longrightarrow>
      set q = set (queue t) \<union> (waiting (registry t) \<inter> {i..})) \<and> quiet s s'"
  using assms
proof (induction es arbitrary: i t s pre)
  case Nil
  have "waiting (registry t) \<inter> {i..} = {}" using Nil.prems(2,3) by (auto simp: waiting_def)
  then show ?case using Nil.prems by (intro exI [of _ "queue t"] exI [of _ "queue_cap t"]) simp
next
  case (Cons e es)
  note wf = waiting_from [OF Cons.prems(2,3)]
  have pre: "registry t = (pre @ [e]) @ es" "length (pre @ [e]) = Suc i" using Cons.prems(2,3) by simp_all
  show ?case
  proof (cases "e_state e = PENDING")
    case False
    have "\<forall>k\<in>set (queue t). k < Suc i" using Cons.prems(5) by auto
    from Cons.IH [OF _ pre Cons.prems(4) this Cons.prems(6)] Cons.prems(1) False show ?thesis by (simp add: wf)
  next
    case True
    obtain t1 s1 where push: "push_pending i t s = (t1, s1)" by (rule prod.exhaust)
    then have rest: "requeue (Suc i) es t1 s1 = (t', s')" using Cons.prems(1) True by simp
    have at: "entry_at t i = e" using Cons.prems(2,3) by (simp add: entry_at_def nth_append)
    have upd: "(registry t)[i := e] = registry t"
      using Cons.prems(2,3) list_update_id [of "registry t" i] by (simp add: nth_append)
    have fin: "finite (waiting (registry t) \<inter> {Suc i..})" by simp
    have card: "card (waiting (registry t) \<inter> {i..}) = Suc (card (waiting (registry t) \<inter> {Suc i..}))"
      using True card_insert_disjoint [OF fin, of i] by (simp add: wf)
    show ?thesis
      using push
    proof (cases rule: push_pending_cases)
      case (pushed n)
      have t1: "t1 = t\<lparr>queue := queue t @ [i], queue_cap := n\<rparr>"
        using pushed(1) upd by (simp add: upd_entry_def at pending_unchanged [OF True])
      have "registry t1 = (pre @ [e]) @ es" "distinct (queue t1)" "\<forall>k\<in>set (queue t1). k < Suc i" "length (queue t1) \<le> queue_cap t1"
        using pre Cons.prems(4,5,6) pushed(2) by (auto simp: t1)
      from Cons.IH [OF rest this(1) pre(2) this(2-4)] obtain q m where q: "t' = t1\<lparr>queue := q, queue_cap := m\<rparr>" "distinct q"
        "set q \<subseteq> set (queue t1) \<union> (waiting (registry t1) \<inter> {Suc i..})" "length q \<le> m"
        "length (queue t1) + card (waiting (registry t1) \<inter> {Suc i..}) \<le> queue_cap t1 \<longrightarrow>
           set q = set (queue t1) \<union> (waiting (registry t1) \<inter> {Suc i..})" "quiet s1 s'" by blast
      have "length (queue t) + card (waiting (registry t) \<inter> {i..}) \<le> queue_cap t \<longrightarrow>
           set q = set (queue t) \<union> (waiting (registry t) \<inter> {i..})"
        using q(5) pushed(4) True unfolding card by (auto simp: t1 wf)
      moreover have "set q \<subseteq> set (queue t) \<union> (waiting (registry t) \<inter> {i..})" using q(3) True by (auto simp: t1 wf)
      ultimately show ?thesis using q(1,2,4) quiet_trans [OF pushed(3) q(6)]
        by (intro exI [of _ q] exI [of _ m]) (simp add: t1)
    next
      case full
      have "\<forall>k\<in>set (queue t). k < Suc i" using Cons.prems(5) by auto
      from Cons.IH [OF rest [unfolded full(1)] pre Cons.prems(4) this Cons.prems(6)] obtain q m where q: "t' = t\<lparr>queue := q, queue_cap := m\<rparr>" "distinct q"
        "set q \<subseteq> set (queue t) \<union> (waiting (registry t) \<inter> {Suc i..})" "length q \<le> m" "quiet s1 s'" by blast
      have "set q \<subseteq> set (queue t) \<union> (waiting (registry t) \<inter> {i..})" using q(3) by (auto simp: wf)
      then show ?thesis using q(1,2,4) quiet_trans [OF full(2) q(5)] full(3) card
        by (intro exI [of _ q] exI [of _ m]) simp
    qed
  qed
qed

subsection \<open>Compaction\<close>

lemma fns_distinct_list: "fns_distinct es \<Longrightarrow> distinct (map e_fn (filter (\<lambda>e. e_fn e \<noteq> HNull) es))"
proof (induction es)
  case (Cons e es)
  have "fns_distinct es"
    unfolding fns_distinct_def
  proof (intro allI impI)
    fix i j assume "registered es i" "registered es j" "e_fn (es ! i) = e_fn (es ! j)"
    with fns_distinctD [OF Cons.prems, of "Suc i" "Suc j"] show "i = j" by (simp add: registered_def)
  qed
  moreover have "e_fn e \<notin> e_fn ` set (filter (\<lambda>e. e_fn e \<noteq> HNull) es)" if e: "e_fn e \<noteq> HNull"
  proof
    assume "e_fn e \<in> e_fn ` set (filter (\<lambda>e. e_fn e \<noteq> HNull) es)"
    then obtain x where x: "x \<in> set es" and f: "e_fn x = e_fn e" by auto
    from x obtain i where "i < length es" "es ! i = x" by (auto simp: in_set_conv_nth)
    with fns_distinctD [OF Cons.prems, of "Suc i" 0] f e show False by (simp add: registered_def)
  qed
  ultimately show ?case using Cons.IH by (simp add: image_image)
qed simp

lemma filter_same_length: "length (filter P xs) = length xs \<Longrightarrow> filter P xs = xs"
  using length_filter_less [of _ xs P] by (metis filter_True less_irrefl)

lemma waiting_filter_le: "card (waiting (filter P es)) \<le> card (waiting es)"
  by (induction es) (simp_all add: waiting_card)

lemma occupied_live_le: "occupied (map live_slot ts) \<le> occupied ts"
  by (induction ts) (auto simp: occupied_def live_slot_def)

lemma contents_Some: "contents (map Some xs) = xs"
  by (induction xs) simp_all

lemma compact_ok:
  assumes ok: "registry_ok t" and q: "queue_ok t" and ne: "t_slots t \<noteq> []" and e: "compact t s = (t', s')"
  shows "registry_ok t'" "queue_ok t'" "quiet s s'" "length (t_slots t') = length (t_slots t)" "slot_used t' \<le> slot_used t"
    "disabled t' = disabled t" "busy t' = busy t" "count_only t' = count_only t" "threshold t' = threshold t" "entry_cap t' = entry_cap t"
    "registry t' = filter (\<lambda>e. e_fn e \<noteq> HNull) (registry t)"
proof -
  note r = registry_okD [OF ok]
  let ?kept = "filter (\<lambda>e. e_fn e \<noteq> HNull) (registry t)" and ?n = "length (t_slots t)"
  have all: "registry_ok t' \<and> queue_ok t' \<and> quiet s s' \<and> length (t_slots t') = ?n \<and> slot_used t' \<le> slot_used t \<and>
    disabled t' = disabled t \<and> busy t' = busy t \<and> count_only t' = count_only t \<and> threshold t' = threshold t \<and>
    entry_cap t' = entry_cap t \<and> registry t' = ?kept"
  proof (cases "length ?kept = length (registry t)")
    case True
    then have "?kept = registry t" by (rule filter_same_length)
    with True e ok q show ?thesis by (simp add: compact_def)
  next
    case False
    let ?t0 = "t\<lparr>registry := ?kept, queue := []\<rparr>"
    let ?ts = "fold (\<lambda>i. put_first_free (slot_home ?kept) (At i)) [0..<length ?kept] (replicate ?n None)"
    obtain t1 s1 where rq: "requeue 0 ?kept ?t0 s = (t1, s1)" by (rule prod.exhaust)
    from requeue_ok [OF rq, of "[]"] obtain qu m where q1: "t1 = ?t0\<lparr>queue := qu, queue_cap := m\<rparr>" "distinct qu"
      "set qu \<subseteq> waiting ?kept" "length qu \<le> m" "quiet s s1" "card (waiting ?kept) \<le> queue_cap t \<longrightarrow> set qu = waiting ?kept"
      by auto
    have t': "t' = t1\<lparr>t_slots := ?ts, slot_used := length ?kept\<rparr>" and s': "s' = s1"
      using e False rq by (auto simp: compact_def Let_def q1(1))
    have lk: "length ?kept = t_live t" using r(3) by simp
    have small: "length ?kept < ?n"
      using live_slots(3) [OF r(1)] occupied_live_le [of "t_slots t"] index_okD(4) [OF r(1) ne] by simp
    have d: "distinct (map e_fn ?kept)" by (rule fns_distinct_list [OF index_okD(1) [OF r(1)]])
    then have fd: "fns_distinct ?kept" by (auto simp: fns_distinct_def registered_def distinct_conv_nth)
    have sf: "map (slot_fn ?kept) (map At [0..<length ?kept]) = map e_fn ?kept"
      by (rule nth_equalityI) simp_all
    have ats: "?ts = rehash (slot_home ?kept) (map Some (map At [0..<length ?kept])) (replicate ?n None)"
      unfolding rehash_Some fold_map comp_def ..
    let ?old = "map Some (map At [0..<length ?kept])" and ?new = "replicate ?n (None :: tslot option)"
    have "table_ok (slot_home ?kept) (slot_fn ?kept) ?new" by (rule table_ok_replicate) (rule index_okD(3) [OF r(1) ne])
    moreover have "\<forall>x\<in>entries ?old. \<forall>y\<in>entries ?new. slot_fn ?kept x \<noteq> slot_fn ?kept y"
      unfolding entries_replicate by blast
    moreover have "distinct (map (slot_fn ?kept) (contents ?old))" using d by (simp only: contents_Some sf)
    moreover have oo: "occupied ?old = length ?kept" by (simp only: occupied_contents contents_Some) simp
    then have "occupied ?old + occupied ?new < length ?new" using small by simp
    ultimately have rh: "table_ok (slot_home ?kept) (slot_fn ?kept) ?ts \<and>
      entries ?ts = entries ?old \<union> entries ?new \<and> occupied ?ts = occupied ?old + occupied ?new \<and> length ?ts = length ?new"
      unfolding ats unfolding slot_home_def by (rule registry_tab.rehash)
    have reg: "registered ?kept i \<longleftrightarrow> i < length ?kept" for i
      using nth_mem [of i ?kept] by (auto simp: registered_def)
    have "entries ?old = At ` {0..<length ?kept}" by (auto simp: entries_def)
    then have en: "entries ?ts = {At i | i. registered ?kept i}" using rh by (auto simp: reg)
    have oc: "occupied ?ts = length ?kept" using rh oo by simp
    have "index_ok ?kept ?ts" by (rule index_rebuilt [OF fd _ en]) (use rh in simp)
    then have "registry_ok t'" using oc lk r(4) length_filter_le [of "\<lambda>e. e_fn e \<noteq> HNull" "registry t"]
      by (auto simp: registry_ok_def t' q1(1))
    moreover have "queue_ok t'"
    proof -
      have "set qu = waiting ?kept" if "\<not> disabled t"
      proof -
        have "card (waiting (registry t)) \<le> length (queue t)"
          using q that by (metis card_mono distinct_card finite_set queue_ok_def)
        moreover have "card (waiting ?kept) \<le> card (waiting (registry t))" by (rule waiting_filter_le)
        ultimately have "card (waiting ?kept) \<le> queue_cap t" using q by (simp add: queue_ok_def)
        with q1(6) show ?thesis by blast
      qed
      then show ?thesis using q1(2-4) by (auto simp: queue_ok_def t' q1(1) waiting_def)
    qed
    moreover have "length ?kept \<le> slot_used t"
      using live_slots(3) [OF r(1)] occupied_live_le [of "t_slots t"] r(2) by simp
    ultimately show ?thesis using rh q1(5) s' by (simp add: t' q1(1))
  qed
  then show "registry_ok t'" "queue_ok t'" "quiet s s'" "length (t_slots t') = length (t_slots t)" "slot_used t' \<le> slot_used t"
    "disabled t' = disabled t" "busy t' = busy t" "count_only t' = count_only t" "threshold t' = threshold t" "entry_cap t' = entry_cap t"
    "registry t' = ?kept" by blast+
qed

subsection \<open>Registering\<close>

text \<open>What every hook keeps: the registry, the queue, and the counts of all handles it owns.\<close>

definition tier_ok :: "tier_state \<Rightarrow> bool" where
  "tier_ok t \<longleftrightarrow> registry_ok t \<and> queue_ok t"

lemma queue_pushed:
  assumes q: "queue_ok t" and i: "i < length (registry t)" "e_state (registry t ! i) = COLD" "e_fn (registry t ! i) \<noteq> HNull"
    and n: "length (queue t) < n"
    and t': "t' = (upd_entry i (\<lambda>e. e\<lparr>e_state := PENDING\<rparr>) t)\<lparr>queue := queue t @ [i], queue_cap := n\<rparr>"
  shows "queue_ok t'"
proof -
  have at: "entry_at t i = registry t ! i" using i by (simp add: entry_at_def)
  have ni: "i \<notin> set (queue t)" using q i by (auto simp: queue_ok_def waiting_def registered_def)
  have "k \<in> waiting (registry t') \<longleftrightarrow> k = i \<or> k \<in> waiting (registry t)" for k
    using i by (cases "k = i") (auto simp: waiting_def t' at)
  then have w: "waiting (registry t') = insert i (waiting (registry t))" by blast
  have r: "registered (registry t') k \<longleftrightarrow> registered (registry t) k" for k
    using i by (cases "k = i") (auto simp: registered_def t' at)
  have fields: "queue t' = queue t @ [i]" "queue_cap t' = n" "disabled t' = disabled t" "length (registry t') = length (registry t)"
    by (simp_all add: t')
  show ?thesis using q ni i n unfolding queue_ok_def w r fields by auto
qed

lemma push_new_ok:
  assumes ok: "tier_ok t" and i: "i < length (registry t)" "e_state (registry t ! i) = COLD" "e_fn (registry t ! i) \<noteq> HNull"
    and e: "push_pending i t s = (t', s')"
  shows "tier_ok t'" "quiet s s'" "owners (registry t') = owners (registry t)" "map e_fn (registry t') = map e_fn (registry t)"
    "busy t' = busy t"
proof -
  have at: "entry_at t i = registry t ! i" using i by (simp add: entry_at_def)
  have "tier_ok t' \<and> quiet s s' \<and> owners (registry t') = owners (registry t) \<and> map e_fn (registry t') = map e_fn (registry t) \<and> busy t' = busy t"
    using e
  proof (cases rule: push_pending_cases)
    case (pushed n)
    have m: "map e_fn (registry t') = map e_fn (registry t)"
      using i by (simp add: pushed(1) at map_update list_update_same_conv)
    have "registry_ok t'"
    proof (rule registry_ok_state [OF _ m])
      show "registry_ok t" using ok by (simp add: tier_ok_def)
      fix e assume "e \<in> set (registry t')" "e_fn e = HNull"
      then have "e \<in> insert ((registry t ! i)\<lparr>e_state := PENDING\<rparr>) (set (registry t))"
        using set_update_subset_insert [of "registry t" i "(registry t ! i)\<lparr>e_state := PENDING\<rparr>"] by (simp add: pushed(1) at subset_iff)
      with \<open>e_fn e = HNull\<close> i(3) have "e \<in> set (registry t)" by auto
      with \<open>registry_ok t\<close> \<open>e_fn e = HNull\<close> show "e = no_entry" by (simp add: registry_ok_def)
    qed (simp_all add: pushed(1))
    moreover have "queue_ok t'"
      by (rule queue_pushed [OF _ i _ pushed(1)]) (use ok pushed(2) in \<open>auto simp: tier_ok_def queue_ok_def\<close>)
    moreover have "owners (registry t') = owners (registry t)"
      using i by (simp add: pushed(1) at owners_state held_by_def)
    ultimately show ?thesis using m pushed by (simp add: tier_ok_def)
  next
    case full
    with ok show ?thesis by simp
  qed
  then show "tier_ok t'" "quiet s s'" "owners (registry t') = owners (registry t)" "map e_fn (registry t') = map e_fn (registry t)"
    "busy t' = busy t" by simp_all
qed

lemma moves_retain_three:
  assumes "valid s u" "valid s v" "valid s w"
  shows "moves s A (rc_retain w (rc_retain v (rc_retain u s))) (add_mset w (add_mset v (add_mset u A)))"
  by (rule moves_trans [OF moves_retain [OF assms(1)] moves_trans [OF moves_retain [OF valid_retain [OF assms(2)]]
        moves_retain [OF valid_retain [OF valid_retain [OF assms(3)]]]]])

lemma find_slot_registered:
  assumes "registry_ok t" "registered (registry t) i" "e_fn (registry t ! i) = fn"
  shows "find_slot t fn \<noteq> None"
proof
  assume "find_slot t fn = None"
  moreover have "fn \<noteq> HNull" using assms(2,3) by (auto simp: registered_def)
  ultimately have "e_fn (registry t ! i) \<noteq> fn" using find_slot_spec [OF registry_okD(1) [OF assms(1)], of fn] assms(2) by simp
  with assms(3) show False by simp
qed

lemma register_ok:
  assumes ok: "tier_ok t" and ne: "t_slots t \<noteq> []" "slot_used t + 1 < length (t_slots t)" "length (registry t) < entry_cap t"
    and fn: "fn \<noteq> HNull" "\<forall>i. registered (registry t) i \<longrightarrow> e_fn (registry t ! i) \<noteq> fn"
    and v: "valid s fn" "valid s nm" "valid s def"
    and e: "register nm def fn t s = (t', s')"
  shows "tier_ok t'" "moves s (owners (registry t)) s' (owners (registry t'))"
    "find_slot t' fn \<noteq> None" "busy t' = busy t"
proof -
  note r = registry_okD [OF conjunct1 [OF ok [unfolded tier_ok_def]]]
  define x where "x = \<lparr>e_fn = fn, e_name = nm, e_definition = def, e_calls = 0, e_state = COLD\<rparr>"
  have xf: "e_fn x = fn" "e_state x = COLD" "held_by x = {#fn, nm, def#}" by (simp_all add: x_def held_by_def)
  let ?i = "length (registry t)"
  let ?s = "rc_retain def (rc_retain nm (rc_retain fn s))"
  from index_register [OF r(1) ne(1), of x] fn ne(2) r(2) obtain j where j: "j < length (t_slots t)"
    "probe (length (t_slots t)) (\<lambda>x. x = Tombstone) (t_slots t) (hash_ptr fn (length (t_slots t))) = Some j"
    "t_slots t ! j = None \<or> t_slots t ! j = Some Tombstone"
    "index_ok (registry t @ [x]) ((t_slots t)[j := Some (At ?i)])" unfolding xf by metis
  define u where "u = t\<lparr>registry := registry t @ [x], t_slots := (t_slots t)[j := Some (At ?i)], t_live := t_live t + 1,
    slot_used := (if t_slots t ! j = None then slot_used t + 1 else slot_used t)\<rparr>"
  have uf: "registry u = registry t @ [x]" "t_slots u = (t_slots t)[j := Some (At ?i)]" "t_live u = t_live t + 1"
    "slot_used u = (if t_slots t ! j = None then slot_used t + 1 else slot_used t)" "entry_cap u = entry_cap t" "busy u = busy t"
    "queue u = queue t" "queue_cap u = queue_cap t" "disabled u = disabled t"
    by (simp_all add: u_def)
  have step: "(if \<not> count_only t \<and> threshold t = 0 then push_pending ?i u ?s else (u, ?s)) = (t', s')"
    using e j(2) by (simp add: register_def Let_def u_def x_def cong: if_cong)
  have "occupied (t_slots u) = slot_used u"
    using occupied_update [OF j(1), of "Some (At ?i)"] j(3) r(2) unfolding uf by auto
  moreover have "length (filter (\<lambda>e. e_fn e \<noteq> HNull) (registry u)) = t_live u" using r(3) fn(1) by (simp add: uf xf)
  moreover have "e_fn e = HNull \<longrightarrow> e = no_entry" if "e \<in> set (registry u)" for e using that r(5) fn(1) by (auto simp: uf xf)
  moreover have "length (registry u) \<le> entry_cap u" using ne(3) by (simp add: uf)
  ultimately have rok: "registry_ok u" using j(4) unfolding registry_ok_def by (simp only: uf) simp
  have w: "waiting (registry u) = waiting (registry t)" by (auto simp: waiting_def nth_append uf xf)
  have rg: "registered (registry u) k \<longleftrightarrow> registered (registry t) k \<or> k = ?i" for k
    using fn(1) by (auto simp: registered_def nth_append uf xf)
  have q: "distinct (queue t)" "\<And>i. i \<in> set (queue t) \<Longrightarrow> i < ?i"
    "\<And>i. i \<in> set (queue t) \<Longrightarrow> registered (registry t) i \<Longrightarrow> i \<in> waiting (registry t)"
    "length (queue t) \<le> queue_cap t" "\<not> disabled t \<Longrightarrow> waiting (registry t) \<subseteq> set (queue t)"
    using ok by (auto simp: tier_ok_def queue_ok_def)
  have "i \<in> waiting (registry u)" if i: "i \<in> set (queue t)" "registered (registry u) i" for i
    using q(2) [OF i(1)] q(3) [OF i(1)] i(2) unfolding w rg by blast
  moreover have "i < length (registry u)" if "i \<in> set (queue t)" for i using q(2) [OF that] by (simp add: uf)
  ultimately have "queue_ok u" unfolding queue_ok_def using q(1,4,5) w uf(7-9) by metis
  with rok have tok: "tier_ok u" by (simp add: tier_ok_def)
  have own: "owners (registry u) = add_mset def (add_mset nm (add_mset fn (owners (registry t))))" by (simp add: uf xf)
  have m: "moves s (owners (registry t)) ?s (owners (registry u))" unfolding own by (rule moves_retain_three [OF v])
  have li: "?i < length (registry u)" "registry u ! ?i = x" by (simp_all add: uf)
  have last: "registered (registry u) ?i" "e_fn (registry u ! ?i) = fn" using fn(1) li by (simp_all add: registered_def xf)
  have "tier_ok t' \<and> moves s (owners (registry t)) s' (owners (registry t')) \<and> find_slot t' fn \<noteq> None \<and> busy t' = busy t"
  proof (cases "\<not> count_only t \<and> threshold t = 0")
    case True
    with step have p: "push_pending ?i u ?s = (t', s')" by simp
    have "e_state (registry u ! ?i) = COLD" "e_fn (registry u ! ?i) \<noteq> HNull" using li xf fn(1) by simp_all
    note pn = push_new_ok [OF tok li(1) this p]
    have "moves s (owners (registry t)) s' (owners (registry t'))"
      unfolding pn(3) by (rule moves_trans [OF m moves_quiet [OF pn(2)]])
    moreover have rt: "registry_ok t'" using pn(1) by (simp add: tier_ok_def)
    moreover have "registered (registry t') ?i" using last(1) registered_cong [OF pn(4)] by simp
    moreover have "map e_fn (registry t') ! ?i = fn" unfolding pn(4) using last li by simp
    then have "e_fn (registry t' ! ?i) = fn" using \<open>registered (registry t') ?i\<close> by (simp add: registered_def)
    ultimately have "find_slot t' fn \<noteq> None" by (intro find_slot_registered)
    then show ?thesis using pn(1,5) \<open>moves s _ s' _\<close> by (simp add: uf)
  next
    case False
    with step have "t' = u" "s' = ?s" by auto
    then show ?thesis using tok m find_slot_registered [OF rok last] by (simp add: uf(6))
  qed
  then show "tier_ok t'" "moves s (owners (registry t)) s' (owners (registry t'))" "find_slot t' fn \<noteq> None" "busy t' = busy t"
    by simp_all
qed

lemma make_room_ok:
  assumes ok: "tier_ok t" and ne: "t_slots t \<noteq> []" and e: "make_room t s = (okay, t', s')"
  shows "tier_ok t'" "quiet s s'" "length (t_slots t') = length (t_slots t)" "slot_used t' \<le> slot_used t"
    "registry t' = registry t \<or> registry t' = filter (\<lambda>e. e_fn e \<noteq> HNull) (registry t)"
    "okay \<Longrightarrow> length (registry t') < entry_cap t'" "busy t' = busy t"
proof -
  have rok: "registry_ok t" "queue_ok t" using ok by (simp_all add: tier_ok_def)
  have "tier_ok t' \<and> quiet s s' \<and> length (t_slots t') = length (t_slots t) \<and> slot_used t' \<le> slot_used t \<and>
    (registry t' = registry t \<or> registry t' = filter (\<lambda>e. e_fn e \<noteq> HNull) (registry t)) \<and>
    (okay \<longrightarrow> length (registry t') < entry_cap t') \<and> busy t' = busy t"
  proof (cases "length (registry t) \<noteq> entry_cap t")
    case True
    then have "t' = t" "s' = s" using e by (auto simp: make_room_def)
    then show ?thesis using True ok registry_okD(4) [OF rok(1)] by simp
  next
    case False
    obtain t1 s1 where c: "compact t s = (t1, s1)" by (rule prod.exhaust)
    note co = compact_ok [OF rok ne c]
    have t1: "tier_ok t1" using co by (simp add: tier_ok_def)
    show ?thesis
    proof (cases "length (registry t1) \<noteq> entry_cap t1")
      case True
      then have "t' = t1" "s' = s1" using e False c by (auto simp: make_room_def)
      then show ?thesis using True t1 co registry_okD(4) [OF co(1)] by simp
    next
      case full: False
      let ?cap = "if entry_cap t1 \<noteq> 0 then entry_cap t1 * 2 else 1024"
      have s': "s' = snd (library_call s1)" and c2: "okay \<and> t' = t1\<lparr>entry_cap := ?cap\<rparr> \<or> \<not> okay \<and> t' = t1"
        using e False c full by (auto simp: make_room_def Let_def split: prod.splits if_splits)
      have "quiet s s'" unfolding s' by (rule quiet_trans [OF co(3)]) simp
      moreover have "tier_ok (t1\<lparr>entry_cap := ?cap\<rparr>)"
        using t1 full by (auto simp: tier_ok_def registry_ok_def queue_ok_def)
      moreover have "length (registry t1) < ?cap" using full by auto
      ultimately show ?thesis using c2 t1 co by auto
    qed
  qed
  then show "tier_ok t'" "quiet s s'" "length (t_slots t') = length (t_slots t)" "slot_used t' \<le> slot_used t"
    "registry t' = registry t \<or> registry t' = filter (\<lambda>e. e_fn e \<noteq> HNull) (registry t)"
    "okay \<Longrightarrow> length (registry t') < entry_cap t'" "busy t' = busy t" by simp_all
qed

definition fn_known :: "tier_state \<Rightarrow> handle \<Rightarrow> bool" where
  "fn_known t fn \<longleftrightarrow> (\<exists>i. registered (registry t) i \<and> e_fn (registry t ! i) = fn)"

lemma fn_known_set: "fn \<noteq> HNull \<Longrightarrow> fn_known t fn \<longleftrightarrow> fn \<in> e_fn ` set (registry t)"
  unfolding fn_known_def registered_def image_iff Bex_def in_set_conv_nth by metis

lemma find_slot_map:
  assumes "registry_ok t" "fn \<noteq> HNull"
  shows "(find_slot t fn = None \<longleftrightarrow> \<not> fn_known t fn) \<and>
    (\<forall>j. find_slot t fn = Some j \<longrightarrow> (\<exists>i. t_slots t ! j = Some (At i) \<and> e_fn (entry_at t i) = fn \<and>
       (\<forall>k. registered (registry t) k \<longrightarrow> e_fn (entry_at t k) = fn \<longrightarrow> k = i)))"
proof -
  note ix = registry_okD(1) [OF assms(1)]
  note fs = find_slot_spec [OF ix assms(2)]
  show ?thesis
  proof (cases "find_slot t fn")
    case None
    then show ?thesis using fs by (auto simp: fn_known_def)
  next
    case (Some j)
    with fs obtain i where i: "t_slots t ! j = Some (At i)" "registered (registry t) i" "e_fn (registry t ! i) = fn" by auto
    have one: "k = i" if "registered (registry t) k" "e_fn (entry_at t k) = fn" for k
      using fns_distinctD [OF index_okD(1) [OF ix] that(1) i(2)] that(2) i(3) entry_at_registered [OF that(1)] by simp
    have known: "fn_known t fn" unfolding fn_known_def using i(2,3) by blast
    have at: "e_fn (entry_at t i) = fn" using i(3) entry_at_registered [OF i(2)] by simp
    show ?thesis
    proof (intro conjI allI impI)
      show "find_slot t fn = None \<longleftrightarrow> \<not> fn_known t fn" using Some known by simp
      fix m assume "find_slot t fn = Some m"
      with Some have "m = j" by simp
      then show "\<exists>i. t_slots t ! m = Some (At i) \<and> e_fn (entry_at t i) = fn \<and>
          (\<forall>k. registered (registry t) k \<longrightarrow> e_fn (entry_at t k) = fn \<longrightarrow> k = i)" using i(1) at one by blast
    qed
  qed
qed

lemma tier_ok_counters:
  "tier_ok (t\<lparr>defuns := n\<rparr>) \<longleftrightarrow> tier_ok t" "tier_ok (t\<lparr>redefined := n\<rparr>) \<longleftrightarrow> tier_ok t"
  by (simp_all add: tier_ok_def registry_ok_def queue_ok_def)

lemma register_fns:
  assumes "register nm def fn t s = (t', s')"
  shows "e_fn ` set (registry t') \<subseteq> insert fn (e_fn ` set (registry t))"
proof -
  have p: "e_fn ` set (registry u') = e_fn ` set (registry u)" if "push_pending i u v = (u', v')" for i u v u' v'
    using that
  proof (cases rule: push_pending_cases)
    case (pushed n)
    have "map e_fn (registry u') = map e_fn (registry u)"
      by (cases "i < length (registry u)") (simp_all add: pushed(1) entry_at_def map_update list_update_same_conv list_update_beyond)
    then show ?thesis by (metis list.set_map)
  qed simp
  show ?thesis using assms
    by (auto simp: register_def Let_def split: option.splits if_splits dest!: p) (metis image_eqI insertE)+
qed

lemma retire_old_ok:
  assumes ok: "tier_ok t" and old: "old \<noteq> HNull"
    and e: "(case find_slot t old of None \<Rightarrow> (t, s)
             | Some j \<Rightarrow> (case retire j t s of (t, s) \<Rightarrow> (t\<lparr>redefined := redefined t + 1\<rparr>, s))) = (t', s')"
  shows "tier_ok t'" "moves s (owners (registry t)) s' (owners (registry t'))" "\<not> fn_known t' old"
    "\<And>fn. \<not> fn_known t fn \<Longrightarrow> \<not> fn_known t' fn" "busy t' = busy t"
proof -
  have rok: "registry_ok t" "queue_ok t" using ok by (simp_all add: tier_ok_def)
  note fs = find_slot_spec [OF registry_okD(1) [OF rok(1)] old]
  have "tier_ok t' \<and> moves s (owners (registry t)) s' (owners (registry t')) \<and> \<not> fn_known t' old \<and>
    (\<forall>fn. \<not> fn_known t fn \<longrightarrow> \<not> fn_known t' fn) \<and> busy t' = busy t"
  proof (cases "find_slot t old")
    case None
    then show ?thesis using e fs ok by (auto simp: fn_known_def)
  next
    case (Some j)
    with fs obtain i where j: "j < length (t_slots t)" "t_slots t ! j = Some (At i)" "registered (registry t) i" "e_fn (registry t ! i) = old" by auto
    obtain t1 where t1: "retire j t s = (t1, s')" "t' = t1\<lparr>redefined := redefined t1 + 1\<rparr>"
      using e Some by (auto split: prod.splits)
    note re = retire_ok [OF rok(1) j(1,2) t1(1)]
    have "queue_ok t1" by (rule queue_retire [OF rok(2) re(2,3,5,6)])
    then have "tier_ok t1" using re(1) by (simp add: tier_ok_def)
    moreover have "\<not> fn_known t1 old"
      unfolding fn_known_def re(2) registered_retire
    proof
      assume "\<exists>k. (registered (registry t) k \<and> k \<noteq> i) \<and> e_fn ((registry t)[i := no_entry] ! k) = old"
      then obtain k where k: "registered (registry t) k" "k \<noteq> i" "e_fn ((registry t)[i := no_entry] ! k) = old" by blast
      then have "e_fn (registry t ! k) = old" by simp
      with fns_distinctD [OF index_okD(1) [OF registry_okD(1) [OF rok(1)]] k(1) j(3)] j(4) k(2) show False by simp
    qed
    moreover have "\<not> fn_known t1 fn" if "\<not> fn_known t fn" for fn
      using that unfolding fn_known_def re(2) registered_retire by auto
    ultimately show ?thesis using re(4,7) by (simp add: t1(2) tier_ok_counters fn_known_def)
  qed
  then show "tier_ok t'" "moves s (owners (registry t)) s' (owners (registry t'))" "\<not> fn_known t' old"
    "\<And>fn. \<not> fn_known t fn \<Longrightarrow> \<not> fn_known t' fn" "busy t' = busy t" by blast+
qed

lemma on_defun_ok:
  assumes ok: "tier_ok t" and heap: "heap_ok s (owners (registry t) + R)"
    and fn: "fn \<noteq> HNull" "\<not> fn_known t fn" and roots: "rooted s R fn" "rooted s R nm" "rooted s R def"
    and e: "on_defun nm def fn old t s = (t', s')"
  shows "tier_ok t'" "heap_ok s' (owners (registry t') + R)" "preserves R s s'" "busy t' = busy t"
    "old \<noteq> HNull \<Longrightarrow> old \<noteq> fn \<Longrightarrow> \<not> fn_known t' old"
proof -
  obtain t1 s1 where 1: "(if old = HNull then (t, s) else case find_slot t old of None \<Rightarrow> (t, s)
    | Some j \<Rightarrow> (case retire j t s of (t, s) \<Rightarrow> (t\<lparr>redefined := redefined t + 1\<rparr>, s))) = (t1, s1)" by (rule prod.exhaust)
  have a: "tier_ok t1 \<and> moves s (owners (registry t)) s1 (owners (registry t1)) \<and> (old \<noteq> HNull \<longrightarrow> \<not> fn_known t1 old) \<and>
    \<not> fn_known t1 fn \<and> busy t1 = busy t"
  proof (cases "old = HNull")
    case True
    then show ?thesis using 1 ok fn by simp
  next
    case False
    from retire_old_ok [OF ok False, of s t1 s1] 1 False fn(2) show ?thesis by simp
  qed
  define t2 where "t2 = t1\<lparr>defuns := defuns t1 + 1\<rparr>"
  have b: "tier_ok t2" "registry t2 = registry t1" "busy t2 = busy t1" using a by (simp_all add: t2_def tier_ok_counters)
  have m1: "heap_ok s1 (owners (registry t1) + R)" "preserves R s s1"
    using movesD [OF conjunct1 [OF conjunct2 [OF a]] heap] by simp_all
  have valid1: "valid s1 v" if "rooted s R v" for v
    using that m1(2) by (auto simp: rooted_def valid_def preserves_def cell_kept_def)
  have known: "fn_known u v \<longleftrightarrow> v \<in> e_fn ` set (registry u)" if "v \<noteq> HNull" for u v by (rule fn_known_set [OF that])
  have eq: "on_defun nm def fn old t s = (if disabled t2 \<and> \<not> count_only t2 then (t2, s1)
      else case (if 4 * (slot_used t2 + 1) > 3 * length (t_slots t2) then grow_slots t2 s1 else (True, t2, s1)) of
             (ok, t, s) \<Rightarrow> if \<not> ok then (t, s) else case make_room t s of (ok, t, s) \<Rightarrow> if ok then register nm def fn t s else (t, s))"
    unfolding on_defun_def 1 Let_def prod.case t2_def [symmetric] ..
  let ?P = "tier_ok t' \<and> heap_ok s' (owners (registry t') + R) \<and> preserves R s s' \<and> busy t' = busy t \<and>
    (old \<noteq> HNull \<longrightarrow> old \<noteq> fn \<longrightarrow> \<not> fn_known t' old)"
  have ?P
  proof (cases "disabled t2 \<and> \<not> count_only t2")
    case True
    then have "t' = t2" "s' = s1" using e unfolding eq by simp_all
    then show ?thesis using a b m1 by (auto simp: fn_known_def)
  next
    case go: False
    obtain ok3 t3 s3 where 3: "(if 4 * (slot_used t2 + 1) > 3 * length (t_slots t2) then grow_slots t2 s1 else (True, t2, s1)) = (ok3, t3, s3)"
      by (metis prod.exhaust)
    have rok2: "registry_ok t2" "queue_ok t2" using b(1) by (simp_all add: tier_ok_def)
    have c: "tier_ok t3 \<and> quiet s1 s3 \<and> registry t3 = registry t2 \<and> (ok3 \<longrightarrow> slot_used t3 + 1 < length (t_slots t3)) \<and> busy t3 = busy t2"
    proof (cases "4 * (slot_used t2 + 1) > 3 * length (t_slots t2)")
      case True
      with 3 have g: "grow_slots t2 s1 = (ok3, t3, s3)" by simp
      note gs = grow_slots_ok [OF rok2(1) g]
      from gs(5) obtain ts n where t3: "t3 = t2\<lparr>t_slots := ts, slot_used := n\<rparr>" by blast
      have "queue_ok t3" using rok2(2) by (simp add: t3 queue_ok_def)
      then show ?thesis using gs t3 by (simp add: tier_ok_def)
    next
      case False
      then show ?thesis using 3 b(1) by auto
    qed
    show ?thesis
    proof (cases ok3)
      case False
      then have "t' = t3" "s' = s3" using e go unfolding eq 3 prod.case by simp_all
      moreover have "heap_ok s3 (owners (registry t3) + R)" "preserves R s1 s3"
        using movesD [OF moves_quiet m1(1), of s3] c b(2) by simp_all
      ultimately show ?thesis using a b c preserves_trans [OF m1(2)] by (auto simp: fn_known_def)
    next
      case ok3: True
      obtain ok4 t4 s4 where 4: "make_room t3 s3 = (ok4, t4, s4)" by (metis prod.exhaust)
      have ne: "t_slots t3 \<noteq> []" using c ok3 by auto
      note mr = make_room_ok [OF conjunct1 [OF c] ne 4]
      have q: "quiet s1 s4" using quiet_trans [OF _ mr(2)] c by blast
      have all_null: "\<forall>e\<in>set (registry t2). e_fn e = HNull \<longrightarrow> e = no_entry" using registry_okD(5) [OF rok2(1)] by blast
      have h4: "heap_ok s4 (owners (registry t4) + R)" "preserves R s1 s4"
      proof -
        have "heap_ok s4 (owners (registry t2) + R)" "preserves R s1 s4"
          using movesD [OF moves_quiet [OF q] m1(1)] b(2) by simp_all
        then show "heap_ok s4 (owners (registry t4) + R)" "preserves R s1 s4"
          using mr(5) owners_compact [OF all_null, of s4 R] c by auto
      qed
      have p4: "preserves R s s4" by (rule preserves_trans [OF m1(2) h4(2)])
      have k4: "e_fn ` set (registry t4) \<subseteq> e_fn ` set (registry t1)" using mr(5) c b(2) by auto
      have new4: "\<not> fn_known t4 fn" using a k4 known [OF fn(1)] by blast
      have old4: "old \<noteq> HNull \<Longrightarrow> \<not> fn_known t4 old" using a k4 known by blast
      show ?thesis
      proof (cases ok4)
        case False
        then have "t' = t4" "s' = s4" using e go ok3 unfolding eq 3 prod.case 4 by simp_all
        then show ?thesis using mr h4 p4 old4 a b c by simp
      next
        case True
        then have rg: "register nm def fn t4 s4 = (t', s')" using e go ok3 unfolding eq 3 prod.case 4 by simp
        have "valid s4 v" if "rooted s R v" for v
          using that p4 by (auto simp: rooted_def valid_def preserves_def cell_kept_def)
        note v = this [OF roots(1)] this [OF roots(2)] this [OF roots(3)]
        have room: "slot_used t4 + 1 < length (t_slots t4)" using mr(3,4) c ok3 by simp
        have "\<forall>i. registered (registry t4) i \<longrightarrow> e_fn (registry t4 ! i) \<noteq> fn" using new4 by (auto simp: fn_known_def)
        moreover have "t_slots t4 \<noteq> []" using room by auto
        moreover note re = register_ok [OF mr(1) _ room mr(6) fn(1) _ v rg]
        ultimately have re: "tier_ok t'" "moves s4 (owners (registry t4)) s' (owners (registry t'))" "busy t' = busy t4"
          using re True by blast+
        have "\<not> fn_known t' old" if o: "old \<noteq> HNull" "old \<noteq> fn"
        proof -
          have "e_fn ` set (registry t') \<subseteq> insert fn (e_fn ` set (registry t4))"
            by (rule register_fns [OF rg])
          then show ?thesis using old4 o known [OF o(1)] by blast
        qed
        with re movesD [OF re(2) h4(1)] preserves_trans [OF p4] show ?thesis using mr(7) a b c by simp
      qed
    qed
  qed
  then show "tier_ok t'" "heap_ok s' (owners (registry t') + R)" "preserves R s s'" "busy t' = busy t"
    "old \<noteq> HNull \<Longrightarrow> old \<noteq> fn \<Longrightarrow> \<not> fn_known t' old" by blast+
qed

subsection \<open>Counting calls\<close>

text \<open>A change of an entry that leaves its owners and its state alone.\<close>

lemma upd_entry_ok:
  assumes ok: "tier_ok t" and i: "registered (registry t) i"
    and f: "\<And>e. e_fn (f e) = e_fn e" "\<And>e. held_by (f e) = held_by e" "\<And>e. e_state (f e) = e_state e"
  shows "tier_ok (upd_entry i f t)" "owners (registry (upd_entry i f t)) = owners (registry t)"
proof -
  have il: "i < length (registry t)" and at: "entry_at t i = registry t ! i" using i by (simp_all add: registered_def entry_at_registered)
  let ?t = "upd_entry i f t"
  have m: "map e_fn (registry ?t) = map e_fn (registry t)" using il by (simp add: at map_update f(1) list_update_same_conv)
  have w: "waiting (registry ?t) = waiting (registry t)"
  proof -
    have "k \<in> waiting (registry ?t) \<longleftrightarrow> k \<in> waiting (registry t)" for k
      using il by (cases "k = i") (simp_all add: waiting_def at f(3))
    then show ?thesis by blast
  qed
  have rok: "registry_ok t" "queue_ok t" using ok by (simp_all add: tier_ok_def)
  have "registry_ok ?t"
  proof (rule registry_ok_state [OF rok(1) m])
    fix e assume e: "e \<in> set (registry ?t)" "e_fn e = HNull"
    have "e \<in> insert (f (registry t ! i)) (set (registry t))"
      using e(1) set_update_subset_insert [of "registry t" i "f (registry t ! i)"] by (simp add: at subset_iff)
    moreover have "e_fn (f (registry t ! i)) \<noteq> HNull" using i by (simp add: f(1) registered_def)
    ultimately have "e \<in> set (registry t)" using e(2) by auto
    with registry_okD(5) [OF rok(1)] e(2) show "e = no_entry" by blast
  qed simp_all
  moreover have "queue_ok ?t"
    unfolding queue_ok_def w registered_cong [OF m] using rok(2) by (simp add: queue_ok_def)
  ultimately show "tier_ok ?t" by (simp add: tier_ok_def)
  show "owners (registry ?t) = owners (registry t)" using il by (simp add: at owners_state f(2))
qed

lemma on_call_ok:
  assumes ok: "tier_ok t" and self: "self \<noteq> HNull" and e: "on_call self t s = (t', s')"
  shows "tier_ok t'" "quiet s s'" "owners (registry t') = owners (registry t)" "busy t' = busy t"
    "\<not> fn_known t self \<Longrightarrow> t' = t \<and> s' = s"
    "registered (registry t) i \<Longrightarrow> e_fn (registry t ! i) = self \<Longrightarrow> e_calls (entry_at t' i) = e_calls (entry_at t i) + 1"
    "e_state (entry_at t' i) \<noteq> e_state (entry_at t i) \<Longrightarrow> e_fn (entry_at t i) = self \<and> e_state (entry_at t i) = COLD \<and>
       e_state (entry_at t' i) = PENDING \<and> e_calls (entry_at t' i) = threshold t \<and> \<not> count_only t \<and> \<not> disabled t"
proof -
  have rok: "registry_ok t" using ok by (simp add: tier_ok_def)
  note fs = find_slot_spec [OF registry_okD(1) [OF rok] self]
  have all: "tier_ok t' \<and> quiet s s' \<and> owners (registry t') = owners (registry t) \<and> busy t' = busy t \<and>
    (\<not> fn_known t self \<longrightarrow> t' = t \<and> s' = s) \<and>
    (\<forall>i. registered (registry t) i \<longrightarrow> e_fn (registry t ! i) = self \<longrightarrow> e_calls (entry_at t' i) = e_calls (entry_at t i) + 1) \<and>
    (\<forall>i. e_state (entry_at t' i) \<noteq> e_state (entry_at t i) \<longrightarrow> e_fn (entry_at t i) = self \<and> e_state (entry_at t i) = COLD \<and>
       e_state (entry_at t' i) = PENDING \<and> e_calls (entry_at t' i) = threshold t \<and> \<not> count_only t \<and> \<not> disabled t)"
  proof (cases "find_slot t self")
    case None
    then have "t' = t" "s' = s" using e by (auto simp: on_call_def)
    moreover have "\<not> fn_known t self" using fs None by (auto simp: fn_known_def)
    ultimately show ?thesis using ok by (auto simp: fn_known_def)
  next
    case (Some j)
    with fs obtain i where j: "t_slots t ! j = Some (At i)" "registered (registry t) i" "e_fn (registry t ! i) = self" by auto
    let ?f = "\<lambda>e. e\<lparr>e_calls := e_calls e + 1\<rparr>"
    define u where "u = upd_entry i ?f t"
    have u: "tier_ok u" "owners (registry u) = owners (registry t)"
      unfolding u_def by (rule upd_entry_ok [OF ok j(2)]; simp add: held_by_def)+
    have il: "i < length (registry t)" using j(2) by (simp add: registered_def)
    have at: "entry_at u k = (if k = i then ?f (entry_at t k) else entry_at t k)" for k
      using il by (simp add: u_def entry_at_def)
    have uf: "threshold u = threshold t" "count_only u = count_only t" "disabled u = disabled t" "busy u = busy t"
      "length (registry u) = length (registry t)" by (simp_all add: u_def)
    have step: "(if e_calls (entry_at u i) = threshold u \<and> e_state (entry_at u i) = COLD \<and> \<not> count_only u \<and> \<not> disabled u
        then push_pending i u s else (u, s)) = (t', s')"
      using e unfolding on_call_def Some option.case j(1) tslot.case Let_def u_def [symmetric] .
    have same: "i' = i" if "registered (registry t) i'" "e_fn (registry t ! i') = self" for i'
      using fns_distinctD [OF index_okD(1) [OF registry_okD(1) [OF rok]] that(1) j(2)] that(2) j(3) by simp
    have known: "fn_known t self" using j(2,3) by (auto simp: fn_known_def)
    have ai: "e_fn (entry_at t i) = self" using entry_at_registered [OF j(2)] j(3) by simp
    show ?thesis
    proof (cases "e_calls (entry_at u i) = threshold u \<and> e_state (entry_at u i) = COLD \<and> \<not> count_only u \<and> \<not> disabled u")
      case True
      with step have p: "push_pending i u s = (t', s')" by simp
      have ui: "i < length (registry u)" "registry u ! i = entry_at u i" using il uf(5) by (simp_all add: entry_at_def)
      have "e_state (registry u ! i) = COLD" "e_fn (registry u ! i) \<noteq> HNull"
        using True ui(2) ai self by (simp_all add: at)
      note pn = push_new_ok [OF u(1) ui(1) this p]
      have st: "entry_at t' k = (if k = i \<and> t' \<noteq> u then (entry_at u k)\<lparr>e_state := PENDING\<rparr> else entry_at u k)" for k
        using p
      proof (cases rule: push_pending_cases)
        case (pushed n)
        have "queue t' = queue u @ [i]" by (simp add: pushed(1))
        then have "t' \<noteq> u" by auto
        moreover have "registry t' = (registry u)[i := (entry_at u i)\<lparr>e_state := PENDING\<rparr>]" by (simp add: pushed(1))
        ultimately show ?thesis using ui(1) by (simp add: entry_at_def)
      qed simp
      have "e_calls (entry_at t' i) = e_calls (entry_at t i) + 1" by (simp add: st at)
      moreover have "e_fn (entry_at t k) = self \<and> e_state (entry_at t k) = COLD \<and>
       e_state (entry_at t' k) = PENDING \<and> e_calls (entry_at t' k) = threshold t \<and> \<not> count_only t \<and> \<not> disabled t"
        if "e_state (entry_at t' k) \<noteq> e_state (entry_at t k)" for k
        using that True ai uf by (cases "k = i") (auto simp: st at split: if_splits)
      ultimately show ?thesis using pn u(2) uf(4) known same by auto
    next
      case False
      with step have "t' = u" "s' = s" by auto
      moreover have "e_state (entry_at u k) = e_state (entry_at t k)" for k by (simp add: at)
      moreover have "e_calls (entry_at u i) = e_calls (entry_at t i) + 1" by (simp add: at)
      ultimately show ?thesis using u uf(4) known same by auto
    qed
  qed
  then show "tier_ok t'" "quiet s s'" "owners (registry t') = owners (registry t)" "busy t' = busy t"
    "\<not> fn_known t self \<Longrightarrow> t' = t \<and> s' = s"
    "registered (registry t) i \<Longrightarrow> e_fn (registry t ! i) = self \<Longrightarrow> e_calls (entry_at t' i) = e_calls (entry_at t i) + 1"
    "e_state (entry_at t' i) \<noteq> e_state (entry_at t i) \<Longrightarrow> e_fn (entry_at t i) = self \<and> e_state (entry_at t i) = COLD \<and>
       e_state (entry_at t' i) = PENDING \<and> e_calls (entry_at t' i) = threshold t \<and> \<not> count_only t \<and> \<not> disabled t"
    by blast+
qed

end
