(* ===== verification/Promotion_Laws.thy ===== *)
theory Promotion_Laws
  imports Promotion Tier_Laws
begin

text \<open>
  Promotion. \<open>link\<close> is what the tier relies on in the code it calls: counts stay exact for all
  other owners, and no function binding changes. \<open>restated\<close> says that only the states of waiting
  entries changed, \<open>published\<close> that a binding changed at most for a waiting entry whose closure
  was bound at that moment. The lemmas carry these through a whole safepoint.
\<close>

subsection \<open>Steps of the memory\<close>

definition function_of :: "mem \<Rightarrow> addr \<Rightarrow> handle" where
  "function_of s a = symbol_slot True (load (cell_at s a))"

definition link :: "ctxid \<Rightarrow> mem \<Rightarrow> handle multiset \<Rightarrow> mem \<Rightarrow> handle multiset \<Rightarrow> bool" where
  "link c s A s' B \<longleftrightarrow>
     (\<forall>X. heap_ok s (A + X + retired s c) \<longrightarrow> heap_ok s' (B + X + retired s' c) \<and>
        (\<forall>a. live s a \<longrightarrow> refs (cell_at s a) = RC_IMMORTAL \<longrightarrow>
           live s' a \<and> refs (cell_at s' a) = RC_IMMORTAL \<and> function_of s' a = function_of s a))"

lemma linkD:
  assumes "link c s A s' B" "heap_ok s (A + X + retired s c)"
  shows "heap_ok s' (B + X + retired s' c)"
    and "live s a \<Longrightarrow> refs (cell_at s a) = RC_IMMORTAL \<Longrightarrow>
      live s' a \<and> refs (cell_at s' a) = RC_IMMORTAL \<and> function_of s' a = function_of s a"
  using assms by (auto simp: link_def)

lemma link_refl [simp]: "link c s A s A"
  by (simp add: link_def)

lemma link_trans: "link c s A t B \<Longrightarrow> link c t B u C \<Longrightarrow> link c s A u C"
  unfolding link_def by metis

lemma link_same:
  assumes "same_heap s t" "same_cells s t" "retired_functions (ctxs t c) = retired_functions (ctxs s c)"
  shows "link c s A t A"
  unfolding link_def using heap_ok_same_heap [OF _ assms(1)] same_cellsD [OF assms(2)] assms(3)
  by (auto simp: function_of_def)

lemma moves_link:
  assumes "moves s A t B"
  shows "link c s A t B"
  unfolding link_def
proof (intro allI impI)
  fix X assume "heap_ok s (A + X + retired s c)"
  then have h: "heap_ok s (A + (X + retired s c))" by (simp add: add.assoc)
  note m = movesD [OF assms h]
  have rt: "retired_functions (ctxs t c) = retired_functions (ctxs s c)"
    by (rule same_core_retired) (use m(2) in \<open>simp add: preserves_def\<close>)
  have k: "cell_kept s t a" if "live s a" "refs (cell_at s a) = RC_IMMORTAL" for a
  proof -
    have "a \<in> owned (view s) (X + retired s c)" by (rule owned.immortal) (use that in \<open>simp_all add: live_fmdom\<close>)
    with m(2) show ?thesis by (simp add: preserves_def)
  qed
  have "live t a \<and> refs (cell_at t a) = RC_IMMORTAL \<and> function_of t a = function_of s a"
    if "live s a" "refs (cell_at s a) = RC_IMMORTAL" for a
    using k [OF that] cell_kept_load(1) [OF k [OF that]] that by (auto simp: cell_kept_def function_of_def)
  then show "heap_ok t (B + X + retired t c) \<and> (\<forall>a. live s a \<longrightarrow> refs (cell_at s a) = RC_IMMORTAL \<longrightarrow>
      live t a \<and> refs (cell_at t a) = RC_IMMORTAL \<and> function_of t a = function_of s a)"
    using m(1) by (simp add: add.assoc rt)
qed

lemma link_quiet: "quiet s t \<Longrightarrow> link c s A t A"
  by (rule moves_link) (rule moves_quiet)

lemma link_library_call: "library_call s = (ok, t) \<Longrightarrow> link c s A t A"
  using link_quiet [OF quiet_library_call [of s]] by simp

lemma link_clear_error: "link c s A (rc_clear_error d s) A"
proof (rule link_same)
  show "same_heap s (rc_clear_error d s)"
    by (auto simp: rc_clear_error_def intro: same_heap_upd_ctx)
  show "same_cells s (rc_clear_error d s)" by (auto simp: rc_clear_error_def same_cells_def ctxs_upd_ctx)
  show "retired_functions (ctxs (rc_clear_error d s) c) = retired_functions (ctxs s c)"
    by (simp add: rc_clear_error_def ctxs_upd_ctx)
qed

lemma link_disk: "link c s A (s\<lparr>disk := d\<rparr>) A"
  by (rule link_same) (simp_all add: same_heap_def same_cells_def cell_at_def live_def rc_value_context_def)

subsection \<open>States of entries\<close>

definition restated :: "tier_state \<Rightarrow> tier_state \<Rightarrow> bool" where
  "restated t t' \<longleftrightarrow> length (registry t') = length (registry t) \<and>
     (\<forall>i<length (registry t). \<exists>x. registry t' ! i = (registry t ! i)\<lparr>e_state := x\<rparr> \<and>
        (e_state (registry t ! i) \<noteq> PENDING \<or> x = COLD \<longrightarrow> x = e_state (registry t ! i))) \<and>
     t_slots t' = t_slots t \<and> slot_used t' = slot_used t \<and> t_live t' = t_live t \<and> entry_cap t' = entry_cap t \<and>
     queue t' = queue t \<and> queue_cap t' = queue_cap t \<and> count_only t' = count_only t \<and> threshold t' = threshold t \<and>
     busy t' = busy t \<and> (disabled t \<longrightarrow> disabled t')"

lemma restatedD:
  assumes "restated t t'"
  shows "length (registry t') = length (registry t)" "t_slots t' = t_slots t" "slot_used t' = slot_used t" "t_live t' = t_live t"
    "entry_cap t' = entry_cap t" "queue t' = queue t" "queue_cap t' = queue_cap t" "busy t' = busy t" "disabled t \<Longrightarrow> disabled t'"
    "count_only t' = count_only t" "threshold t' = threshold t"
    "i < length (registry t) \<Longrightarrow> \<exists>x. registry t' ! i = (registry t ! i)\<lparr>e_state := x\<rparr> \<and>
        (e_state (registry t ! i) \<noteq> PENDING \<or> x = COLD \<longrightarrow> x = e_state (registry t ! i))"
  using assms unfolding restated_def by blast+

lemma same_state: "e\<lparr>e_state := e_state e\<rparr> = e"
  by (cases e) simp

lemma restated_refl [simp]: "restated t t"
  unfolding restated_def using same_state by metis

lemma restated_some:
  assumes "restated t t'"
  shows "\<exists>x. entry_at t' i = (entry_at t i)\<lparr>e_state := x\<rparr> \<and> (e_state (entry_at t i) \<noteq> PENDING \<or> x = COLD \<longrightarrow> x = e_state (entry_at t i))"
proof (cases "i < length (registry t)")
  case True
  with restatedD(1,12) [OF assms] show ?thesis by (simp add: entry_at_def)
next
  case False
  then have "entry_at t' i = (entry_at t i)\<lparr>e_state := e_state (entry_at t i)\<rparr>"
    using restatedD(1) [OF assms] by (simp add: entry_at_def same_state)
  then show ?thesis by blast
qed

lemma restated_entry:
  assumes "restated t t'"
  shows "e_fn (entry_at t' i) = e_fn (entry_at t i)" "e_name (entry_at t' i) = e_name (entry_at t i)"
    "e_definition (entry_at t' i) = e_definition (entry_at t i)" "e_calls (entry_at t' i) = e_calls (entry_at t i)"
    "e_state (entry_at t i) \<noteq> PENDING \<Longrightarrow> entry_at t' i = entry_at t i"
    "held_by (entry_at t' i) = held_by (entry_at t i)"
proof -
  from restated_some [OF assms, of i]
  obtain x where x: "entry_at t' i = (entry_at t i)\<lparr>e_state := x\<rparr>" "e_state (entry_at t i) \<noteq> PENDING \<longrightarrow> x = e_state (entry_at t i)"
    by blast
  show "e_fn (entry_at t' i) = e_fn (entry_at t i)" "e_name (entry_at t' i) = e_name (entry_at t i)"
    "e_definition (entry_at t' i) = e_definition (entry_at t i)" "e_calls (entry_at t' i) = e_calls (entry_at t i)"
    "held_by (entry_at t' i) = held_by (entry_at t i)"
    by (simp_all add: x(1) held_by_def)
  show "e_state (entry_at t i) \<noteq> PENDING \<Longrightarrow> entry_at t' i = entry_at t i" using x same_state by metis
qed

lemma entry_at_nth: "i < length (registry t) \<Longrightarrow> entry_at t i = registry t ! i"
  by (simp add: entry_at_def)

lemma restatedI:
  assumes "length (registry t') = length (registry t)"
    and "\<And>i. i < length (registry t) \<Longrightarrow> \<exists>x. entry_at t' i = (entry_at t i)\<lparr>e_state := x\<rparr> \<and>
        (e_state (entry_at t i) \<noteq> PENDING \<or> x = COLD \<longrightarrow> x = e_state (entry_at t i))"
    and "t_slots t' = t_slots t" "slot_used t' = slot_used t" "t_live t' = t_live t" "entry_cap t' = entry_cap t"
    "queue t' = queue t" "queue_cap t' = queue_cap t" "count_only t' = count_only t" "threshold t' = threshold t"
    "busy t' = busy t" "disabled t \<Longrightarrow> disabled t'"
  shows "restated t t'"
  using assms(1) assms(2) assms(3-) by (auto simp: restated_def entry_at_def)

lemma restated_trans:
  assumes "restated t u" "restated u v"
  shows "restated t v"
proof (rule restatedI)
  fix i assume i: "i < length (registry t)"
  from restatedD(12) [OF assms(1) i] obtain x where x: "registry u ! i = (registry t ! i)\<lparr>e_state := x\<rparr>"
    "e_state (registry t ! i) \<noteq> PENDING \<or> x = COLD \<longrightarrow> x = e_state (registry t ! i)" by blast
  have iu: "i < length (registry u)" using i restatedD(1) [OF assms(1)] by simp
  from restatedD(12) [OF assms(2) iu] obtain y where y: "registry v ! i = (registry u ! i)\<lparr>e_state := y\<rparr>"
    "e_state (registry u ! i) \<noteq> PENDING \<or> y = COLD \<longrightarrow> y = e_state (registry u ! i)" by blast
  have "registry v ! i = (registry t ! i)\<lparr>e_state := y\<rparr>" using x(1) y(1) by simp
  moreover have "e_state (registry t ! i) \<noteq> PENDING \<or> y = COLD \<longrightarrow> y = e_state (registry t ! i)" using x y by auto
  moreover have "i < length (registry v)" using iu restatedD(1) [OF assms(2)] by simp
  ultimately show "\<exists>x. entry_at v i = (entry_at t i)\<lparr>e_state := x\<rparr> \<and> (e_state (entry_at t i) \<noteq> PENDING \<or> x = COLD \<longrightarrow> x = e_state (entry_at t i))"
    using i by (auto simp: entry_at_def)
qed (use restatedD(1-11) [OF assms(1)] restatedD(1-11) [OF assms(2)] in simp_all)

lemma restated_upd:
  assumes "e_state (entry_at t i) = PENDING \<and> x \<noteq> COLD \<or> e_state (entry_at t i) = x"
  shows "restated t (upd_entry i (\<lambda>e. e\<lparr>e_state := x\<rparr>) t)"
proof (rule restatedI)
  fix k assume k: "k < length (registry t)"
  show "\<exists>y. entry_at (upd_entry i (\<lambda>e. e\<lparr>e_state := x\<rparr>) t) k = (entry_at t k)\<lparr>e_state := y\<rparr> \<and>
    (e_state (entry_at t k) \<noteq> PENDING \<or> y = COLD \<longrightarrow> y = e_state (entry_at t k))"
  proof (cases "k = i")
    case True
    with k assms show ?thesis by (intro exI [of _ x]) (auto simp: entry_at_def)
  next
    case False
    with k show ?thesis by (intro exI [of _ "e_state (entry_at t k)"]) (simp add: entry_at_def same_state)
  qed
qed simp_all

lemma restated_counters [simp]:
  "restated t (t'\<lparr>guard_misses := n\<rparr>) \<longleftrightarrow> restated t t'" "restated t (t'\<lparr>promoted := n\<rparr>) \<longleftrightarrow> restated t t'"
  "restated t (t'\<lparr>failed_count := n\<rparr>) \<longleftrightarrow> restated t t'" "restated t (t'\<lparr>fallbacks := n\<rparr>) \<longleftrightarrow> restated t t'"
  "restated t (t'\<lparr>emit_failures := n\<rparr>) \<longleftrightarrow> restated t t'" "restated t (t'\<lparr>cache_hits := n\<rparr>) \<longleftrightarrow> restated t t'"
  "restated t (t'\<lparr>batches := n\<rparr>) \<longleftrightarrow> restated t t'" "restated t (t'\<lparr>loaded := n\<rparr>) \<longleftrightarrow> restated t t'"
  "restated t (t'\<lparr>loaded_cap := n\<rparr>) \<longleftrightarrow> restated t t'"
  "restated t (t'\<lparr>load_failures := n, load_error := m\<rparr>) \<longleftrightarrow> restated t t'"
  by (simp_all add: restated_def)

lemma restated_registry:
  assumes "restated t t'" "registry_ok t"
  shows "registry_ok t'" "owners (registry t') = owners (registry t)" "map e_fn (registry t') = map e_fn (registry t)"
proof -
  note r = restatedD [OF assms(1)]
  have e: "e_fn (registry t' ! i) = e_fn (registry t ! i)" "held_by (registry t' ! i) = held_by (registry t ! i)" if "i < length (registry t)" for i
    using restated_entry(1,6) [OF assms(1), of i] that r(1) by (simp_all add: entry_at_def)
  show m: "map e_fn (registry t') = map e_fn (registry t)" by (rule nth_equalityI) (simp_all add: r(1) e)
  have "map held_by (registry t') = map held_by (registry t)" by (rule nth_equalityI) (simp_all add: r(1) e)
  then show "owners (registry t') = owners (registry t)" by (simp add: owners_def)
  show "registry_ok t'"
  proof (rule registry_ok_state [OF assms(2) m r(2,3,4,5)])
    fix e assume e: "e \<in> set (registry t')" "e_fn e = HNull"
    then obtain i where i: "i < length (registry t)" "registry t' ! i = e" using r(1) by (auto simp: in_set_conv_nth)
    have "e_fn (registry t ! i) = HNull" using i e(2) m by (metis nth_map r(1))
    then have n: "registry t ! i = no_entry" using registry_okD(5) [OF assms(2)] i(1) nth_mem by blast
    have "entry_at t' i = entry_at t i"
      by (rule restated_entry(5) [OF assms(1)]) (use n i(1) in \<open>simp add: entry_at_def no_entry_def\<close>)
    with n i r(1) show "e = no_entry" by (simp add: entry_at_def)
  qed
qed

subsection \<open>Publication\<close>

definition may_publish :: "tier_state \<Rightarrow> addr \<Rightarrow> handle \<Rightarrow> bool" where
  \<comment> \<open>a waiting entry of this name for this closure\<close>
  "may_publish t a v \<longleftrightarrow> (\<exists>i. e_name (entry_at t i) = HRef a \<and> e_fn (entry_at t i) = v \<and> e_state (entry_at t i) = PENDING)"

definition published :: "tier_state \<Rightarrow> mem \<Rightarrow> mem \<Rightarrow> bool" where
  "published t s s' \<longleftrightarrow>
     (\<forall>a. live s a \<longrightarrow> refs (cell_at s a) = RC_IMMORTAL \<longrightarrow> live s' a \<and> refs (cell_at s' a) = RC_IMMORTAL \<and>
        (function_of s' a = function_of s a \<or> may_publish t a (function_of s a)))"

lemma published_refl [simp]: "published t s s"
  by (simp add: published_def)

lemma published_trans: "published t s u \<Longrightarrow> published t u v \<Longrightarrow> published t s v"
  unfolding published_def by metis

lemma may_publish_restated: "restated t t' \<Longrightarrow> may_publish t' a v \<Longrightarrow> may_publish t a v"
  unfolding may_publish_def using restated_entry by metis

lemma published_restated: "restated t t' \<Longrightarrow> published t' s s' \<Longrightarrow> published t s s'"
  unfolding published_def using may_publish_restated by blast

lemma link_published: "link c s A s' B \<Longrightarrow> heap_ok s (A + X + retired s c) \<Longrightarrow> published t s s'"
  unfolding published_def using linkD(2) by blast

lemma function_set_ok:
  assumes ok: "heap_ok s (R + retired s c)" and a: "live s a" "refs (cell_at s a) = RC_IMMORTAL" and v: "valid s v"
    and e: "rc_function_set c (HRef a) v s = (okay, t)"
  shows "heap_ok t (R + retired t c)" "okay \<Longrightarrow> function_of t a = v"
    "0 < call_depth (ctxs s c) \<Longrightarrow> live s b \<Longrightarrow> live t b"
    "live s b \<Longrightarrow> refs (cell_at s b) = RC_IMMORTAL \<Longrightarrow>
      live t b \<and> refs (cell_at t b) = RC_IMMORTAL \<and> (b \<noteq> a \<longrightarrow> function_of t b = function_of s b)"
proof -
  have "heap_ok t (R + retired t c) \<and> (okay \<longrightarrow> function_of t a = v) \<and> (0 < call_depth (ctxs s c) \<longrightarrow> (\<forall>b. live s b \<longrightarrow> live t b)) \<and>
    (\<forall>b. live s b \<longrightarrow> refs (cell_at s b) = RC_IMMORTAL \<longrightarrow>
      live t b \<and> refs (cell_at t b) = RC_IMMORTAL \<and> (b \<noteq> a \<longrightarrow> function_of t b = function_of s b))"
  proof (cases "v = HNull \<or> rc_type s v \<noteq> RC_CLOSURE \<or> c = 0")
    case True
    have f: "\<not> okay" and t: "t = rc_error c ''function binding expects a closure'' s \<or> t = s"
      using e True by (auto simp: rc_function_set_def split: if_splits)
    have "link c s R (rc_error c ''function binding expects a closure'' s) R" by (rule moves_link) simp
    with t have l: "link c s R t R" by auto
    have "live t b" if "live s b" for b
    proof -
      have "grows s t" using t by auto
      with that show ?thesis by (simp add: grows_def cell_kept_def)
    qed
    then show ?thesis using linkD [OF l, of "{#}"] ok f by simp
  next
    case False
    then have "set_symbol_slot c (HRef a) v True s = (okay, t)" using e by (simp add: rc_function_set_def)
    note so = set_symbol_slot_ok [OF ok a v this]
    have "live t b \<and> refs (cell_at t b) = RC_IMMORTAL \<and> (b \<noteq> a \<longrightarrow> function_of t b = function_of s b)"
      if b: "live s b" "refs (cell_at s b) = RC_IMMORTAL" for b
    proof (cases "b = a")
      case True
      then show ?thesis using so(5,6) by simp
    next
      case False
      from so(4) [OF b False] cell_kept_load(1) [OF so(4) [OF b False]] b show ?thesis by (simp add: cell_kept_def function_of_def)
    qed
    then show ?thesis using so(1-3) by (auto simp: function_of_def keeps_but_def)
  qed
  then show "heap_ok t (R + retired t c)" "okay \<Longrightarrow> function_of t a = v"
    "0 < call_depth (ctxs s c) \<Longrightarrow> live s b \<Longrightarrow> live t b"
    "live s b \<Longrightarrow> refs (cell_at s b) = RC_IMMORTAL \<Longrightarrow>
      live t b \<and> refs (cell_at t b) = RC_IMMORTAL \<and> (b \<noteq> a \<longrightarrow> function_of t b = function_of s b)" by blast+
qed

text \<open>One part of a promotion: \<open>A\<close> are the handles it gives up.\<close>

definition passes :: "ctxid \<Rightarrow> handle multiset \<Rightarrow> handle multiset \<Rightarrow> tier_state \<Rightarrow> mem \<Rightarrow> tier_state \<Rightarrow> mem \<Rightarrow> bool" where
  "passes c X A t s t' s' \<longleftrightarrow> restated t t' \<and> heap_ok s' (A + X + retired s' c) \<and> published t s s'"

lemma passes_trans: "passes c X A t s u v \<Longrightarrow> passes c X B u v t' s' \<Longrightarrow> passes c X B t s t' s'"
  unfolding passes_def using restated_trans published_trans published_restated by blast

lemma passes_link: "link c s A s' B \<Longrightarrow> heap_ok s (A + X + retired s c) \<Longrightarrow> restated t t' \<Longrightarrow> passes c X B t s t' s'"
  by (simp add: passes_def linkD(1) link_published)

lemma passes_heap: "passes c X A t s t' s' \<Longrightarrow> heap_ok s' (A + X + retired s' c)"
  by (simp add: passes_def)

lemma passes_restated: "passes c X A t s t' s' \<Longrightarrow> restated t t'"
  by (simp add: passes_def)

lemma bound_function:
  assumes ok: "heap_ok s R" and f: "rc_function_slot_borrowed s c nm = v" "v \<noteq> HNull"
  obtains a where "nm = HRef a" "live s a" "refs (cell_at s a) = RC_IMMORTAL" "function_of s a = v"
proof -
  from f have n: "belongs s c nm" "rc_type s nm = RC_SYMBOL" "function_slot (load_of s nm) = v"
    by (auto simp: rc_function_slot_borrowed_def split: if_splits)
  then obtain a where a: "nm = HRef a" by (cases nm) auto
  have "live s a"
  proof (rule ccontr)
    assume "\<not> live s a"
    then show False using n(2) a cell_at_dead [of s a] by (simp add: free_cell_def)
  qed
  moreover obtain d h g w where l: "load (cell_at s a) = VSymbol d h g w" using n(2) a by (cases "load (cell_at s a)") auto
  moreover have "refs (cell_at s a) = RC_IMMORTAL"
    using symbols_okD [OF rc_okD(5) [OF ok [unfolded heap_ok_def]], of a] l n(3) f(2) a by auto
  moreover have "function_of s a = v" using l n(3) a by (simp add: function_of_def symbol_slot_def)
  ultimately show thesis using a that by blast
qed

lemma offered_spec:
  assumes "offered t batch nm = Some i"
  shows "i \<in> set batch" "e_name (entry_at t i) = nm" "e_state (entry_at t i) = PENDING" "i < length (registry t)"
proof -
  from assms show *: "i \<in> set batch" "e_name (entry_at t i) = nm" "e_state (entry_at t i) = PENDING"
    by (auto simp: offered_def find_Some_iff)
  show "i < length (registry t)" using *(3) by (rule_tac ccontr) (simp add: entry_at_def no_entry_def)
qed

lemma pending_registered:
  assumes "registry_ok t" "e_state (entry_at t i) = PENDING"
  shows "registered (registry t) i"
proof -
  have i: "i < length (registry t)" using assms(2) by (rule_tac ccontr) (simp add: entry_at_def no_entry_def)
  moreover have "registry t ! i \<noteq> no_entry" using assms(2) i by (auto simp: entry_at_def no_entry_def)
  then have "e_fn (registry t ! i) \<noteq> HNull" using registry_okD(5) [OF assms(1) nth_mem [OF i]] by blast
  ultimately show ?thesis by (simp add: registered_def)
qed

lemma define_function_ok:
  assumes rok: "registry_ok t" and ok: "heap_ok s (A + X + retired s c)" and v: "valid s fn"
    and e: "define_function c batch nm fn t s = (okay, t', s')"
  shows "passes c X A t s t' s'"
proof (cases "offered t batch nm")
  case None
  then show ?thesis using e ok by (simp add: define_function_def passes_def)
next
  case (Some i)
  note o = offered_spec [OF Some]
  let ?e = "entry_at t i"
  show ?thesis
  proof (cases "rc_function_slot_borrowed s c nm \<noteq> e_fn ?e \<or> rc_arity s fn \<noteq> rc_arity s (e_fn ?e)")
    case True
    then have "t' = (upd_entry i (\<lambda>e. e\<lparr>e_state := STALE\<rparr>) t)\<lparr>guard_misses := guard_misses t + 1\<rparr>" "s' = s"
      using e Some by (auto simp: define_function_def Let_def)
    then show ?thesis using ok o(3) restated_upd [of t i STALE] by (simp add: passes_def)
  next
    case False
    obtain b u where set: "rc_function_set c nm fn s = (b, u)" by (rule prod.exhaust)
    have s': "s' = u" "t' = (if b then (upd_entry i (\<lambda>e. e\<lparr>e_state := PROMOTED\<rparr>) t)\<lparr>promoted := promoted t + 1\<rparr> else t)"
      using e Some False set by (auto simp: define_function_def Let_def split: if_splits)
    have rs: "restated t t'" using s'(2) o(3) restated_upd [of t i PROMOTED] by simp
    have "registered (registry t) i" by (rule pending_registered [OF rok o(3)])
    then have nn: "e_fn ?e \<noteq> HNull" using o(4) by (simp add: registered_def entry_at_def)
    from False have slot: "rc_function_slot_borrowed s c nm = e_fn ?e" by simp
    from bound_function [OF ok slot nn] obtain a where a: "nm = HRef a" "live s a" "refs (cell_at s a) = RC_IMMORTAL" "function_of s a = e_fn ?e" .
    have may: "may_publish t a (function_of s a)" using o a by (auto simp: may_publish_def)
    have h: "heap_ok s (A + X + retired s c)" using ok .
    note so = function_set_ok [OF h a(2,3) v set [unfolded a(1)]]
    have "published t s s'" unfolding published_def s'(1) using so(4) may by blast
    then show ?thesis using so(1) rs s'(1) by (simp add: passes_def)
  qed
qed

subsection \<open>Foreign code\<close>

text \<open>The code of a module keeps the counts of what it does not own, binds no function itself, and
  owns what it offers.\<close>

primrec conforms :: "ctxid \<Rightarrow> activity \<Rightarrow> handle multiset \<Rightarrow> bool" where
  "conforms c (Return ok) A \<longleftrightarrow> A = {#}"
| "conforms c (Run f) A \<longleftrightarrow>
     (\<forall>s. case map_prod id (conforms c) (f s) of (s', follows) \<Rightarrow> \<exists>B. link c s A s' B \<and> follows B)"
| "conforms c (Define nm fn k) A \<longleftrightarrow> nm \<in># A \<and> fn \<in># A \<and> (\<forall>ok. conforms c (k ok) A)"

definition world_ok :: "tier_world \<Rightarrow> ctxid \<Rightarrow> bool" where
  \<comment> \<open>what the tier relies on in the emitter and in the objects that the loader accepts\<close>
  "world_ok w c \<longleftrightarrow>
     (\<forall>forms s. link c s {#} (snd (emit_program w forms s)) {#}) \<and>
     (\<forall>file entry. load_object w file = Inr (Some entry) \<longrightarrow> conforms c entry {#})"

lemma run_entry_ok:
  assumes "registry_ok t" "heap_ok s (A + X + retired s c)" "conforms c k A" "run_entry k c batch t s = (okay, t', s')"
  shows "passes c X {#} t s t' s'"
  using assms
proof (induction k arbitrary: A t s)
  case (Return b)
  then show ?case by (simp add: passes_def)
next
  case (Run f)
  obtain u k where f: "f s = (u, k)" by (rule prod.exhaust)
  from Run.prems(3) obtain B where B: "link c s A u B" "conforms c k B"
    by (auto simp: f dest: spec [of _ s])
  have "heap_ok u (B + X + retired u c)" by (rule linkD(1) [OF B(1) Run.prems(2)])
  from Run.IH [OF rangeI [of f s, unfolded f] _ Run.prems(1) this B(2)] Run.prems(4) f
  have "passes c X {#} t u t' s'" by auto
  with passes_link [OF B(1) Run.prems(2), of t t] show ?case by (auto intro: passes_trans)
next
  case (Define nm fn k)
  obtain b t1 s1 where d: "define_function c batch nm fn t s = (b, t1, s1)" by (metis prod.exhaust)
  have "valid s fn" by (rule valid_owned [OF Define.prems(2)]) (use Define.prems(3) in auto)
  from define_function_ok [OF Define.prems(1,2) this d] have p: "passes c X A t s t1 s1" .
  have "registry_ok t1" by (rule restated_registry(1) [OF passes_restated [OF p] Define.prems(1)])
  from Define.IH [OF rangeI this passes_heap [OF p]] Define.prems(3,4) d
  have "passes c X {#} t1 s1 t' s'" by auto
  with p show ?case by (rule passes_trans)
qed

subsection \<open>The parts of a promotion\<close>

definition open_state :: "tier_state \<Rightarrow> nat list \<Rightarrow> bool" where
  \<comment> \<open>what \<open>fail_batch\<close> may be applied to\<close>
  "open_state t batch \<longleftrightarrow> (\<forall>i\<in>set batch. e_state (entry_at t i) = PENDING \<or> e_state (entry_at t i) = FAILED)"

lemma entry_at_fail_entry:
  "entry_at (fail_entry i t) k = (if k = i \<and> i < length (registry t) then (entry_at t k)\<lparr>e_state := FAILED\<rparr> else entry_at t k)"
  by (auto simp: fail_entry_def upd_entry_def entry_at_def)

lemma fail_entry_ok:
  assumes "e_state (entry_at t i) = PENDING \<or> e_state (entry_at t i) = FAILED"
  shows "restated t (fail_entry i t)"
  using restated_upd [of t i FAILED] assms by (simp add: fail_entry_def)

lemma open_fail_entry: "open_state t batch \<Longrightarrow> open_state (fail_entry i t) batch"
  by (auto simp: open_state_def entry_at_fail_entry)

lemma fold_fail_entry: "open_state t batch \<Longrightarrow> restated t (fold fail_entry batch t)"
proof (induction batch arbitrary: t)
  case (Cons i batch)
  have "restated t (fail_entry i t)" by (rule fail_entry_ok) (use Cons.prems in \<open>simp add: open_state_def\<close>)
  moreover have "open_state (fail_entry i t) batch" by (rule open_fail_entry) (use Cons.prems in \<open>simp add: open_state_def\<close>)
  ultimately show ?case using Cons.IH restated_trans by fastforce
qed simp

lemma give_up_ok: "open_state t batch \<Longrightarrow> restated t (give_up batch t)"
  using fold_fail_entry by (simp add: give_up_def fail_batch_def)

lemma serialize_forms_quiet: "serialize_forms t batch s = Some (kl, s') \<Longrightarrow> quiet s s'"
  using quiet_trans [OF quiet_library_call [of s] quiet_library_call]
  by (auto simp: serialize_forms_def case_prod_beta split: if_splits option.splits)

lemma emit_forms_link:
  assumes "world_ok w c" "emit_forms w c forms s = (r, s')"
  shows "link c s {#} s' {#}"
proof -
  obtain o1 s1 where 1: "library_call s = (o1, s1)" by (rule prod.exhaust)
  obtain b body s2 where 2: "emit_program w forms s1 = ((b, body), s2)" by (metis prod.exhaust)
  obtain o3 s3 where 3: "library_call s2 = (o3, s3)" by (rule prod.exhaust)
  note l = link_library_call [OF 1, of c "{#}"] link_library_call [OF 3, of c "{#}"]
  have "link c s1 {#} s2 {#}" using assms(1) 2 unfolding world_ok_def by (metis snd_conv)
  then have "link c s {#} s3 {#}" using l link_trans by blast
  moreover have "s' = s1 \<or> s' = s3 \<or> s' = rc_clear_error c s3"
    using assms(2) by (auto simp: emit_forms_def 1 2 3 split: if_splits)
  ultimately show ?thesis using l(1) link_trans [OF _ link_clear_error] by blast
qed

lemma filter_batch_ok:
  assumes "world_ok w c" "open_state t batch" "filter_batch w c batch t s = Some (stay, t', s')"
  shows "restated t t' \<and> link c s {#} s' {#} \<and> set stay \<subseteq> set batch \<and> length stay \<le> length batch \<and>
    (\<forall>js. open_state t js \<longrightarrow> open_state t' js)"
  using assms(2,3)
proof (induction batch arbitrary: t s stay)
  case Nil
  then show ?case by simp
next
  case (Cons i batch)
  from Cons.prems(2) obtain kl s1 where sf: "serialize_forms t [i] s = Some (kl, s1)" by (cases "serialize_forms t [i] s") auto
  obtain body s2 where em: "(if kl \<noteq> None then emit_forms w c (definitions t [i]) s1 else (None, s1)) = (body, s2)" by (rule prod.exhaust)
  have l1: "link c s {#} s1 {#}" by (rule link_quiet [OF serialize_forms_quiet [OF sf]])
  have "link c s1 {#} s2 {#}" using em emit_forms_link [OF assms(1)] by (auto split: if_splits)
  with l1 have l: "link c s {#} s2 {#}" by (rule link_trans)
  have ob: "open_state t batch" using Cons.prems(1) by (simp add: open_state_def)
  show ?case
  proof (cases "body \<noteq> None")
    case True
    with Cons.prems(2) sf em obtain ks where ks: "filter_batch w c batch t s2 = Some (ks, t', s')" "stay = i # ks"
      by (auto split: prod.splits simp: map_option_case split: option.splits)
    from Cons.IH [OF ob ks(1)] link_trans [OF l] ks(2) show ?thesis by auto
  next
    case False
    let ?t = "(fail_entry i t)\<lparr>emit_failures := emit_failures t + 1\<rparr>"
    have f: "filter_batch w c batch ?t s2 = Some (stay, t', s')" using Cons.prems(2) sf em False by (auto split: prod.splits)
    have e: "entry_at (u\<lparr>emit_failures := n\<rparr>) = entry_at u" for u n by (rule ext) (simp add: entry_at_def)
    have o: "open_state t js \<Longrightarrow> open_state ?t js" for js using open_fail_entry [of t js i] by (simp only: open_state_def e)
    have "restated t (fail_entry i t)" by (rule fail_entry_ok) (use Cons.prems(1) in \<open>simp add: open_state_def\<close>)
    then have rt: "restated t ?t" by simp
    note ih = Cons.IH [OF o [OF ob] f]
    have "restated t t'" by (rule restated_trans [OF rt]) (use ih in blast)
    moreover have "link c s {#} s' {#}" by (rule link_trans [OF l]) (use ih in blast)
    moreover have "open_state t js \<Longrightarrow> open_state t' js" for js using ih o by blast
    ultimately show ?thesis using ih by auto
  qed
qed

lemma prepare_ok:
  assumes "world_ok w c" "open_state t batch" "prepare w c batch t s = Some (stay, kl, t', s')"
  shows "restated t t' \<and> link c s {#} s' {#} \<and> open_state t' stay"
proof -
  from assms(3) obtain k1 s1 where sf: "serialize_forms t batch s = Some (k1, s1)"
    by (cases "serialize_forms t batch s") (auto simp: prepare_def)
  have l1: "link c s {#} s1 {#}" by (rule link_quiet [OF serialize_forms_quiet [OF sf]])
  have eq: "(if k1 \<noteq> None then Some (batch, k1, t, s1)
    else Option.bind (filter_batch w c batch t s1)
      (\<lambda>(batch, t, s). if batch = [] then Some (batch, None, t, s)
         else map_option (\<lambda>(kl, s). (batch, kl, t, s)) (serialize_forms t batch s))) = Some (stay, kl, t', s')"
    using assms(3) unfolding prepare_def sf by simp
  show ?thesis
  proof (cases "k1 = None")
    case False
    with eq have "stay = batch" "t' = t" "s' = s1" by simp_all
    then show ?thesis using assms(2) l1 by simp
  next
    case True
    with eq obtain ks t2 s2 where f: "filter_batch w c batch t s1 = Some (ks, t2, s2)"
      by (cases "filter_batch w c batch t s1") auto
    with eq True have eq2: "(if ks = [] then Some (ks, None, t2, s2)
         else map_option (\<lambda>(kl, s). (ks, kl, t2, s)) (serialize_forms t2 ks s2)) = Some (stay, kl, t', s')" by simp
    note fb = filter_batch_ok [OF assms(1,2) f]
    have "open_state t2 batch" using fb assms(2) by blast
    then have o: "open_state t2 ks" using fb unfolding open_state_def by blast
    have l2: "link c s {#} s2 {#}" by (rule link_trans [OF l1]) (use fb in blast)
    show ?thesis
    proof (cases "ks = []")
      case True
      with eq2 have "stay = ks" "t' = t2" "s' = s2" by simp_all
      then show ?thesis using fb o l2 by simp
    next
      case False
      with eq2 have eq3: "map_option (\<lambda>(kl, s). (ks, kl, t2, s)) (serialize_forms t2 ks s2) = Some (stay, kl, t', s')"
        by (simp only: if_False)
      then obtain k3 s3 where k3: "serialize_forms t2 ks s2 = Some (k3, s3)" by (cases "serialize_forms t2 ks s2") auto
      from eq3 have s3: "k3 = kl" "stay = ks" "t' = t2" "s' = s3" unfolding k3 by simp_all
      have "link c s2 {#} s3 {#}" by (rule link_quiet [OF serialize_forms_quiet [OF k3]])
      with l2 have "link c s {#} s3 {#}" by (rule link_trans)
      then show ?thesis unfolding s3(2-4) using fb o by blast
    qed
  qed
qed

lemma path_of_link: "path_of dir key ext s = (p, s') \<Longrightarrow> link c s A s' A"
  using link_library_call by (auto simp: path_of_def split: prod.splits)

lemma key_paths_link: "key_paths dir key s = (p, s') \<Longrightarrow> link c s A s' A"
  unfolding key_paths_def Let_def
  by (auto split: prod.splits intro: link_trans [OF path_of_link link_trans [OF path_of_link path_of_link]])

lemma open_object_ok:
  assumes "world_ok w c" "open_object w path t s = (m, t')"
  shows "restated t t' \<and> registry t' = registry t \<and> (\<forall>entry. m = Some (Some entry) \<longrightarrow> conforms c entry {#})"
  using assms by (auto simp: open_object_def world_ok_def split: sum.splits)

lemma cached_object_ok:
  assumes "world_ok w c" "cached_object w kl keep object t s = (m, t')"
  shows "restated t t' \<and> registry t' = registry t \<and> (\<forall>entry. m = Some (Some entry) \<longrightarrow> conforms c entry {#})"
proof -
  obtain m1 t1 where o: "open_object w object t s = (m1, t1)" by (rule prod.exhaust)
  from open_object_ok [OF assms(1) o] assms(2) show ?thesis
    by (auto simp: cached_object_def o split: if_splits option.splits)
qed

lemma write_file_link: "write_file path text s = (b, s') \<Longrightarrow> link c s A s' A"
  using link_library_call [of s _ _ c A] link_trans [OF _ link_disk] by (auto simp: write_file_def split: prod.splits)

lemma unlink_file_link: "link c s A (unlink_file path s) A"
  by (simp add: unlink_file_def link_disk)

lemma rename_file_link: "rename_file a b s = (r, s') \<Longrightarrow> link c s A s' A"
  using link_library_call [of s _ _ c A] link_trans [OF _ link_disk] by (auto simp: rename_file_def split: prod.splits if_splits)

lemma run_compiler_link: "run_compiler w t source text object log s = (r, s') \<Longrightarrow> link c s A s' A"
  using link_library_call [of s _ _ c A] link_trans [OF _ link_disk]
  by (auto simp: run_compiler_def split: prod.splits if_splits option.splits)

lemma restated_compiled [simp]:
  "restated t (t\<lparr>compiles := n, disabled := disabled t \<or> b\<rparr>)"
  by (rule restatedI) (auto simp: entry_at_def intro: exI [of _ "e_state (entry_at t i)" for i] same_state [symmetric])

lemma build_object_ok:
  assumes w: "world_ok w c" and e: "build_object w key kl text keep object log t s = (m, t', s')"
  shows "link c s {#} s' {#} \<and> restated t t' \<and> registry t' = registry t \<and> (\<forall>entry. m = Some (Some entry) \<longrightarrow> conforms c entry {#})"
proof -
  let ?unique = "object @ ''.'' @ digits_of (process_id w) @ ''.tmp''"
  obtain source s1 where 1: "path_of (t_cache t) key ''.build.c'' s = (source, s1)" by (rule prod.exhaust)
  obtain written s2 where 2: "(case source of None \<Rightarrow> (False, s1) | Some path \<Rightarrow> write_file path text s1) = (written, s2)"
    by (rule prod.exhaust)
  define step where "step = (if \<not> written then (False, t, s2)
                 else case run_compiler w t (the source) text ?unique log s2 of
                        (status, s) \<Rightarrow>
                          let t = t\<lparr>compiles := compiles t + 1, disabled := disabled t \<or> status = 127\<rparr>;
                              (moved, s) = (if status = 0 then rename_file ?unique object s else (False, s));
                              (published, s) = (if moved then write_file keep kl s else (False, s))
                          in (published, t, if status = 0 then unlink_file log (unlink_file (the source) s) else unlink_file ?unique s))"
  obtain built t3 s3 where 3: "step = (built, t3, s3)" by (metis prod.exhaust)
  obtain m4 t4 where 4: "(if built then open_object w object t3 s3 else (None, t3)) = (m4, t4)" by (rule prod.exhaust)
  have "(m4, t4, if cache_owned t4 then unlink_file keep (unlink_file object s3) else s3) = (m, t', s')"
    using e unfolding build_object_def 1 prod.case Let_def 2 step_def [symmetric, unfolded Let_def] 3 4 .
  then have fin: "m = m4" "t' = t4" "s' = (if cache_owned t4 then unlink_file keep (unlink_file object s3) else s3)"
    unfolding prod.inject by blast+
  have l1: "link c s {#} s1 {#}" by (rule path_of_link [OF 1])
  have l2: "link c s1 {#} s2 {#}" using 2 write_file_link by (auto split: option.splits)
  have 5: "link c s2 {#} s3 {#} \<and> restated t t3 \<and> registry t3 = registry t"
  proof (cases written)
    case False
    then show ?thesis using 3 by (simp add: step_def)
  next
    case True
    obtain status u1 where u1: "run_compiler w t (the source) text ?unique log s2 = (status, u1)" by (rule prod.exhaust)
    obtain moved u2 where u2: "(if status = 0 then rename_file ?unique object u1 else (False, u1)) = (moved, u2)" by (rule prod.exhaust)
    obtain pub u3 where u3: "(if moved then write_file keep kl u2 else (False, u2)) = (pub, u3)" by (rule prod.exhaust)
    have t3: "t3 = t\<lparr>compiles := compiles t + 1, disabled := disabled t \<or> status = 127\<rparr>"
      and s3: "s3 = (if status = 0 then unlink_file log (unlink_file (the source) u3) else unlink_file ?unique u3)"
      using 3 unfolding step_def by (simp_all only: True not_True_eq_False if_False u1 prod.case Let_def u2 u3 prod.inject)
    have "link c s2 {#} u1 {#}" by (rule run_compiler_link [OF u1])
    moreover have "link c u1 {#} u2 {#}" using u2 rename_file_link by (auto split: if_splits)
    moreover have "link c u2 {#} u3 {#}" using u3 write_file_link by (auto split: if_splits)
    moreover have "link c u3 {#} s3 {#}" unfolding s3 using unlink_file_link link_trans [OF unlink_file_link unlink_file_link] by simp
    ultimately have "link c s2 {#} s3 {#}" using link_trans by metis
    moreover have "restated t t3" unfolding t3 by (rule restated_compiled)
    ultimately show ?thesis by (simp add: t3)
  qed
  have 6: "restated t3 t4 \<and> registry t4 = registry t3 \<and> (\<forall>entry. m4 = Some (Some entry) \<longrightarrow> conforms c entry {#})"
    using 4 open_object_ok [OF w] by (cases built) auto
  have l7: "link c s3 {#} s' {#}" unfolding fin using link_trans [OF unlink_file_link unlink_file_link] by simp
  have "link c s {#} s' {#}" using l1 l2 5 l7 link_trans by metis
  moreover have "restated t t'" using 5 6 restated_trans fin by metis
  ultimately show ?thesis using 5 6 fin by simp
qed

lemma keep_loaded_ok: "keep_loaded t s = (t', s') \<Longrightarrow> link c s {#} s' {#} \<and> restated t t' \<and> registry t' = registry t"
  using link_library_call [of s _ _ c "{#}"] by (auto simp: keep_loaded_def Let_def split: prod.splits if_splits)

lemma install_module_ok:
  assumes rok: "registry_ok t" and ok: "heap_ok s (X + retired s c)" and m: "\<forall>entry. m = Some entry \<longrightarrow> conforms c entry {#}"
    and e: "install_module c batch m t s = (t', s')"
  shows "passes c X {#} t s t' s'"
proof -
  obtain t1 s1 where 1: "keep_loaded t s = (t1, s1)" by (rule prod.exhaust)
  note k = keep_loaded_ok [OF 1, of c]
  have ok0: "heap_ok s ({#} + X + retired s c)" using ok by simp
  have p1: "passes c X {#} t s t1 s1" by (rule passes_link [OF _ ok0]) (use k in blast)+
  show ?thesis
  proof (cases m)
    case None
    then show ?thesis using e 1 p1 by (simp add: install_module_def)
  next
    case (Some entry)
    obtain okay t2 s2 where 2: "run_entry entry c batch t1 s1 = (okay, t2, s2)" by (metis prod.exhaust)
    have "registry_ok t1" by (rule restated_registry(1) [OF passes_restated [OF p1] rok])
    from run_entry_ok [OF this passes_heap [OF p1] _ 2] m Some have p2: "passes c X {#} t1 s1 t2 s2" by blast
    have "t' = t2" "s' = (if okay then s2 else rc_clear_error c s2)" using e 1 2 Some by (auto simp: install_module_def)
    moreover have "passes c X {#} t2 s2 t2 (rc_clear_error c s2)" by (rule passes_link [OF link_clear_error passes_heap [OF p2]]) simp
    ultimately show ?thesis using passes_trans [OF p1 p2] passes_trans [OF p1 passes_trans [OF p2]] by auto
  qed
qed

lemma open_state_registry: "registry t' = registry t \<Longrightarrow> open_state t' batch = open_state t batch"
  by (simp add: open_state_def entry_at_def)

lemma promote_ok:
  assumes w: "world_ok w c"
  shows "registry_ok t \<Longrightarrow> heap_ok s (X + retired s c) \<Longrightarrow> open_state t batch \<Longrightarrow>
    promote fuel w c batch t s = Some (t', s') \<Longrightarrow> passes c X {#} t s t' s'"
proof (induction fuel arbitrary: batch t s)
  case (Suc k)
  have ok0: "heap_ok s ({#} + X + retired s c)" using Suc.prems(2) by simp
  obtain stay kl t1 s1 where 1: "prepare w c batch t s = Some (stay, kl, t1, s1)"
    using Suc.prems(4) by (cases "prepare w c batch t s") auto
  note pr = prepare_ok [OF w Suc.prems(3) 1]
  have p1: "passes c X {#} t s t1 s1" by (rule passes_link [OF _ ok0]) (use pr in blast)+
  have r1: "registry_ok t1" by (rule restated_registry(1) [OF passes_restated [OF p1] Suc.prems(1)])
  have gu: "passes c X {#} u v (give_up stay u) v" if "open_state u stay" "heap_ok v ({#} + X + retired v c)" for u v
    by (rule passes_link [OF link_refl that(2) give_up_ok [OF that(1)]])
  show ?case
  proof (cases kl)
    case None
    then have "t' = give_up stay t1" "s' = s1" using Suc.prems(4) 1 by simp_all
    then show ?thesis using passes_trans [OF p1 gu [OF _ passes_heap [OF p1]]] pr by simp
  next
    case (Some key)
    obtain paths s2 where 2: "key_paths (t_cache t1) (digest key) s1 = (paths, s2)" by (rule prod.exhaust)
    have p2: "passes c X {#} t s t1 s2"
      by (rule passes_trans [OF p1 passes_link [OF key_paths_link [OF 2] passes_heap [OF p1] restated_refl]])
    show ?thesis
    proof (cases paths)
      case None
      then have "t' = give_up stay t1" "s' = s2" using Suc.prems(4) 1 2 \<open>kl = Some key\<close> by simp_all
      then show ?thesis using passes_trans [OF p2 gu [OF _ passes_heap [OF p2]]] pr by simp
    next
      case (Some triple)
      obtain keep object log where tr: "triple = (keep, object, log)" by (metis prod.exhaust)
      obtain m t3 where 3: "cached_object w key keep object t1 s2 = (m, t3)" by (rule prod.exhaust)
      note co = cached_object_ok [OF w 3]
      have p3: "passes c X {#} t s t3 s2"
        by (rule passes_trans [OF p2 passes_link [OF link_refl passes_heap [OF p2]]]) (use co in blast)
      have r3: "registry_ok t3" by (rule restated_registry(1) [OF passes_restated [OF p3] Suc.prems(1)])
      have h3: "heap_ok s2 (X + retired s2 c)" using passes_heap [OF p3] by simp
      have o3: "open_state t3 stay" using co pr open_state_registry by blast
      show ?thesis
      proof (cases m)
        case (Some entry)
        then have "install_module c stay entry t3 s2 = (t', s')"
          using Suc.prems(4) 1 2 3 \<open>kl = Some key\<close> \<open>paths = Some triple\<close> tr by simp
        from install_module_ok [OF r3 h3 _ this] co Some show ?thesis using passes_trans [OF p3] by blast
      next
        case None
        obtain body s4 where 4: "emit_forms w c (definitions t3 stay) s2 = (body, s4)" by (rule prod.exhaust)
        have p4: "passes c X {#} t s t3 s4"
          by (rule passes_trans [OF p3 passes_link [OF emit_forms_link [OF w 4] passes_heap [OF p3] restated_refl]])
        show ?thesis
        proof (cases body)
          case None
          with Suc.prems(4) 1 2 3 4 \<open>kl = Some key\<close> \<open>paths = Some triple\<close> \<open>m = None\<close> tr
          have eq: "Option.bind (filter_batch w c stay t3 s4)
            (\<lambda>(batch, t, s). if batch = [] then Some (t, s) else promote k w c batch t s) = Some (t', s')" by simp
          then obtain ks t5 s5 where 5: "filter_batch w c stay t3 s4 = Some (ks, t5, s5)"
            by (cases "filter_batch w c stay t3 s4") auto
          note fb = filter_batch_ok [OF w o3 5]
          have p5: "passes c X {#} t s t5 s5"
            by (rule passes_trans [OF p4 passes_link [OF _ passes_heap [OF p4]]]) (use fb in blast)+
          show ?thesis
          proof (cases "ks = []")
            case True
            then show ?thesis using eq 5 p5 by simp
          next
            case False
            then have rec: "promote k w c ks t5 s5 = Some (t', s')" using eq 5 by simp
            have "open_state t5 stay" using fb o3 by blast
            then have o5: "open_state t5 ks" using fb unfolding open_state_def by blast
            have r5: "registry_ok t5" by (rule restated_registry(1) [OF passes_restated [OF p5] Suc.prems(1)])
            have h5: "heap_ok s5 (X + retired s5 c)" using passes_heap [OF p5] by simp
            from passes_trans [OF p5 Suc.IH [OF r5 h5 o5 rec]] show ?thesis .
          qed
        next
          case (Some code)
          obtain m6 t6 s6 where 6: "build_object w (digest key) key code keep object log t3 s4 = (m6, t6, s6)" by (metis prod.exhaust)
          note bo = build_object_ok [OF w 6]
          have p6: "passes c X {#} t s t6 s6"
            by (rule passes_trans [OF p4 passes_link [OF _ passes_heap [OF p4]]]) (use bo in blast)+
          have r6: "registry_ok t6" by (rule restated_registry(1) [OF passes_restated [OF p6] Suc.prems(1)])
          have h6: "heap_ok s6 (X + retired s6 c)" using passes_heap [OF p6] by simp
          have o6: "open_state t6 stay" using bo o3 open_state_registry by blast
          note all = Suc.prems(4) 1 2 3 4 6 \<open>kl = Some key\<close> \<open>paths = Some triple\<close> \<open>m = None\<close> tr Some
          show ?thesis
          proof (cases m6)
            case None
            with all have "t' = give_up stay t6" "s' = s6" by simp_all
            then show ?thesis using passes_trans [OF p6 gu [OF o6 passes_heap [OF p6]]] by simp
          next
            case (Some entry)
            with all have "install_module c stay entry t6 s6 = (t', s')" by simp
            from install_module_ok [OF r6 h6 _ this] bo Some show ?thesis using passes_trans [OF p6] by blast
          qed
        qed
      qed
    qed
  qed
qed simp

subsection \<open>Batches\<close>

lemma collect_batch_ok:
  assumes "distinct todo" "collect_batch room c todo t s = (batch, later, t')"
  shows "restated t t' \<and> set batch \<union> set later \<subseteq> set todo \<and> distinct later \<and> (\<forall>i\<in>set batch. e_state (entry_at t' i) = PENDING) \<and>
    (\<forall>k. k \<notin> set todo \<longrightarrow> entry_at t' k = entry_at t k) \<and> (0 < room \<longrightarrow> todo \<noteq> [] \<longrightarrow> length later < length todo) \<and>
    length later \<le> length todo"
  using assms
proof (induction room c todo t s arbitrary: batch later t' rule: collect_batch.induct)
  case (3 room c i todo t s)
  let ?e = "entry_at t i" and ?t = "(upd_entry i (\<lambda>e. e\<lparr>e_state := STALE\<rparr>) t)\<lparr>guard_misses := guard_misses t + 1\<rparr>"
  have d: "distinct todo" "i \<notin> set todo" using 3(4) by simp_all
  have at: "entry_at ?t k = entry_at t k" if "k \<noteq> i" for k using that by (simp add: entry_at_def)
  show ?case
  proof (cases "e_fn ?e = HNull \<or> e_state ?e \<noteq> PENDING")
    case True
    then have "collect_batch (Suc room) c todo t s = (batch, later, t')" using 3(5) by auto
    from 3(1) [OF refl True d(1) this] show ?thesis by auto
  next
    case run: False
    show ?thesis
    proof (cases "rc_function_slot_borrowed s c (e_name ?e) \<noteq> e_fn ?e")
      case True
      then have "collect_batch (Suc room) c todo ?t s = (batch, later, t')" using 3(5) run by auto
      note ih = 3(2) [OF refl run True d(1) this]
      have "restated t ?t" using restated_upd [of t i STALE] run by simp
      then have "restated t t'" using ih restated_trans by blast
      moreover have "entry_at t' k = entry_at t k" if "k \<notin> set (i # todo)" for k using that ih at by auto
      ultimately show ?thesis using ih by auto
    next
      case False
      obtain b where b: "collect_batch room c todo t s = (b, later, t')" "batch = i # b"
        using 3(5) run False by (auto split: prod.splits)
      note ih = 3(3) [OF refl run False d(1) b(1)]
      have "e_state (entry_at t' i) = PENDING" using ih d(2) run by auto
      then show ?thesis using ih b(2) by auto
    qed
  qed
qed simp_all

lemma fail_unoffered_ok: "restated t (fold fail_unoffered batch t)"
proof (induction batch arbitrary: t)
  case (Cons i batch)
  have "restated t (fail_unoffered i t)" using fail_entry_ok by (simp add: fail_unoffered_def)
  with Cons show ?case using restated_trans by fastforce
qed simp

lemma promote_all_ok:
  assumes w: "world_ok w c"
  shows "registry_ok t \<Longrightarrow> heap_ok s (X + retired s c) \<Longrightarrow> distinct todo \<Longrightarrow>
    promote_all n fuel w c todo t s = Some (t', s') \<Longrightarrow> passes c X {#} t s t' s'"
proof (induction n arbitrary: todo t s)
  case 0
  then show ?case by (cases todo) (simp_all add: passes_def)
next
  case (Suc n)
  show ?case
  proof (cases "todo = [] \<or> disabled t")
    case True
    with Suc.prems show ?thesis by (cases todo) (simp_all add: passes_def)
  next
    case False
    then obtain i rs where todo: "todo = i # rs" by (cases todo) auto
    obtain batch later t1 where 1: "collect_batch BATCH_LIMIT c todo t s = (batch, later, t1)" by (metis prod.exhaust)
    note cb = collect_batch_ok [OF Suc.prems(3) 1]
    let ?t1 = "t1\<lparr>batches := batches t1 + 1\<rparr>"
    let ?run = "if batch = [] then Some (t1, s) else promote fuel w c batch ?t1 s"
    have ok0: "heap_ok s ({#} + X + retired s c)" using Suc.prems(2) by simp
    have p1: "passes c X {#} t s t1 s" by (rule passes_link [OF link_refl ok0]) (use cb in blast)
    have q1: "passes c X {#} t s ?t1 s" by (rule passes_link [OF link_refl ok0]) (use cb in simp)
    have run: "Option.bind ?run (\<lambda>(t, s). promote_all n fuel w c later (fold fail_unoffered batch t) s) = Some (t', s')"
      using Suc.prems(4) False unfolding todo by (simp add: 1 [unfolded todo])
    then obtain t2 s2 where 2: "?run = Some (t2, s2)" by (cases ?run) auto
    have p2: "passes c X {#} t s t2 s2"
    proof (cases "batch = []")
      case True
      with 2 p1 show ?thesis by simp
    next
      case False
      have "open_state t1 batch" using cb by (simp add: open_state_def)
      then have "open_state ?t1 batch" using open_state_registry [of ?t1 t1] by simp
      moreover have "registry_ok ?t1" by (rule restated_registry(1) [OF passes_restated [OF q1] Suc.prems(1)])
      ultimately show ?thesis using 2 False promote_ok [OF w _ Suc.prems(2)] passes_trans [OF q1] by simp
    qed
    let ?t3 = "fold fail_unoffered batch t2"
    have p3: "passes c X {#} t s ?t3 s2"
      by (rule passes_trans [OF p2 passes_link [OF link_refl passes_heap [OF p2] fail_unoffered_ok]])
    have "registry_ok ?t3" by (rule restated_registry(1) [OF passes_restated [OF p3] Suc.prems(1)])
    moreover have "heap_ok s2 (X + retired s2 c)" using passes_heap [OF p3] by simp
    moreover have "promote_all n fuel w c later ?t3 s2 = Some (t', s')" using run 2 by simp
    ultimately show ?thesis using Suc.IH [of ?t3 s2 later] cb passes_trans [OF p3] by blast
  qed
qed

subsection \<open>Settling\<close>

definition settled :: "entry \<Rightarrow> entry" where
  \<comment> \<open>what a safepoint leaves of an entry that was queued\<close>
  "settled e =
     (if e_fn e = HNull then e
      else case e_state e of PENDING \<Rightarrow> e\<lparr>e_state := FAILED\<rparr> | PROMOTED \<Rightarrow> no_entry | STALE \<Rightarrow> no_entry | _ \<Rightarrow> e)"

lemma settled_again [simp]: "settled (settled e) = settled e"
  by (cases "e_state e") (simp_all add: settled_def no_entry_def)

lemma settle_ok:
  assumes ok: "registry_ok t" and e: "settle i (t, s) = (t', s')"
  shows "registry_ok t' \<and> moves s (owners (registry t)) s' (owners (registry t')) \<and>
    queue t' = queue t \<and> queue_cap t' = queue_cap t \<and> disabled t' = disabled t \<and> busy t' = busy t \<and> length (registry t') = length (registry t) \<and>
    entry_at t' k = (if k = i then settled (entry_at t k) else entry_at t k)"
proof -
  let ?e = "entry_at t i"
  have null: "settled no_entry = no_entry" by (simp add: settled_def no_entry_def)
  consider "e_fn ?e = HNull" | "e_fn ?e \<noteq> HNull" "e_state ?e = PROMOTED \<or> e_state ?e = STALE"
    | "e_fn ?e \<noteq> HNull" "e_state ?e = PENDING" | "e_fn ?e \<noteq> HNull" "e_state ?e = COLD \<or> e_state ?e = FAILED"
    by (cases "e_state ?e") auto
  then show ?thesis
  proof cases
    case 1
    then show ?thesis using e ok by (auto simp: settle_def settled_def Let_def)
  next
    case 2
    have il: "i < length (registry t)" using 2(1) by (rule_tac ccontr) (simp add: entry_at_def no_entry_def)
    then have i: "registered (registry t) i" using 2(1) by (simp add: registered_def entry_at_def)
    note fs = find_slot_spec [OF registry_okD(1) [OF ok] 2(1)]
    have at: "entry_at t i = registry t ! i" by (rule entry_at_registered [OF i])
    obtain j k where j: "find_slot t (e_fn ?e) = Some j" "j < length (t_slots t)" "t_slots t ! j = Some (At k)" "registered (registry t) k"
      "e_fn (registry t ! k) = e_fn ?e"
      using fs i at by (cases "find_slot t (e_fn ?e)") auto
    have ki: "k = i" using fns_distinctD [OF index_okD(1) [OF registry_okD(1) [OF ok]] j(4) i] j(5) at by simp
    have "retire j t s = (t', s')" using e 2 j(1) by (auto simp: settle_def Let_def)
    note re = retire_ok [OF ok j(2,3) this]
    have "settled ?e = no_entry" using 2 by (auto simp: settled_def)
    then have "entry_at t' k' = (if k' = i then settled (entry_at t k') else entry_at t k')" for k'
      using il by (auto simp: entry_at_def re(2) ki)
    then show ?thesis using re by simp
  next
    case 3
    then have t': "t' = upd_entry i (\<lambda>e. e\<lparr>e_state := FAILED\<rparr>) t" "s' = s" using e by (auto simp: settle_def Let_def)
    have rs: "restated t t'" unfolding t' by (rule restated_upd) (use 3 in simp)
    have il: "i < length (registry t)" using 3(1) by (rule_tac ccontr) (simp add: entry_at_def no_entry_def)
    have "entry_at t' k' = (if k' = i then settled (entry_at t k') else entry_at t k')" for k'
      using il 3 by (auto simp: entry_at_def settled_def t'(1))
    then show ?thesis using restated_registry [OF rs ok] restatedD [OF rs] t' by simp
  next
    case 4
    then show ?thesis using e ok by (auto simp: settle_def settled_def Let_def)
  qed
qed

lemma fold_settle_ok:
  assumes "registry_ok t" "fold settle todo (t, s) = (t', s')"
  shows "registry_ok t' \<and> moves s (owners (registry t)) s' (owners (registry t')) \<and>
    queue t' = queue t \<and> queue_cap t' = queue_cap t \<and> disabled t' = disabled t \<and> busy t' = busy t \<and> length (registry t') = length (registry t) \<and>
    entry_at t' k = (if k \<in> set todo then settled (entry_at t k) else entry_at t k)"
  using assms
proof (induction todo arbitrary: t s)
  case (Cons i todo)
  obtain t1 s1 where 1: "settle i (t, s) = (t1, s1)" by (rule prod.exhaust)
  note st = settle_ok [OF Cons.prems(1) 1]
  have "fold settle todo (t1, s1) = (t', s')" using Cons.prems(2) 1 by simp
  note ih = Cons.IH [OF _ this]
  have "moves s (owners (registry t)) s' (owners (registry t'))" using st ih moves_trans by blast
  then show ?case using st [of k] ih st [of i] by auto
qed simp

subsection \<open>Safepoints\<close>

lemma waiting_entry: "i \<in> waiting (registry t) \<longleftrightarrow> e_state (entry_at t i) = PENDING"
  by (auto simp: waiting_def entry_at_def no_entry_def)

lemma on_safepoint_ok:
  assumes ok: "tier_ok t" "\<not> busy t" and heap: "heap_ok s (owners (registry t) + R + retired s c)" and w: "world_ok w c"
    and e: "on_safepoint fuel w c t s = Some (t', s')"
  shows "tier_ok t'" "heap_ok s' (owners (registry t') + R + retired s' c)" "\<not> busy t'"
    "\<not> disabled t \<Longrightarrow> waiting (registry t') = {}"
    "e_state (entry_at t i) \<noteq> PENDING \<Longrightarrow> entry_at t' i = entry_at t i"
    "entry_at t' i = entry_at t i \<or> entry_at t' i = no_entry \<or> entry_at t' i = (entry_at t i)\<lparr>e_state := FAILED\<rparr>"
    "published t s s'"
proof -
  have rok: "registry_ok t" "queue_ok t" using ok(1) by (simp_all add: tier_ok_def)
  have "tier_ok t' \<and> heap_ok s' (owners (registry t') + R + retired s' c) \<and> \<not> busy t' \<and>
    (\<not> disabled t \<longrightarrow> waiting (registry t') = {}) \<and> published t s s' \<and>
    (\<forall>i. (e_state (entry_at t i) \<noteq> PENDING \<longrightarrow> entry_at t' i = entry_at t i) \<and>
       (entry_at t' i = entry_at t i \<or> entry_at t' i = no_entry \<or> entry_at t' i = (entry_at t i)\<lparr>e_state := FAILED\<rparr>))"
  proof (cases "queue t = []")
    case True
    then have "t' = t" "s' = s" using e by (simp_all add: on_safepoint_def)
    moreover have "\<not> disabled t \<longrightarrow> waiting (registry t) = {}" using rok(2) True by (simp add: queue_ok_def)
    ultimately show ?thesis using ok heap by simp
  next
    case qne: False
    show ?thesis
    proof (cases "disabled t")
      case True
      then have t': "t' = t\<lparr>queue := []\<rparr>" "s' = s" using e qne ok(2) by (simp_all add: on_safepoint_def)
      have "entry_at t' = entry_at t" by (rule ext) (simp add: t' entry_at_def)
      moreover have "tier_ok t'" using ok(1) True by (simp add: t' tier_ok_def registry_ok_def queue_ok_def)
      ultimately show ?thesis using ok heap True by (simp add: t')
    next
      case False
      let ?u = "t\<lparr>busy := True, queue := [], queue_cap := 0\<rparr>" and ?todo = "queue t"
      obtain t1 s1 where 1: "promote_all (length ?todo) fuel w c ?todo ?u s = Some (t1, s1)"
        using e qne ok(2) False by (auto simp: on_safepoint_def Let_def)
      obtain t2 s2 where 2: "fold settle ?todo (t1, s1) = (t2, s2)" by (rule prod.exhaust)
      have fin: "t' = t2\<lparr>busy := False\<rparr>" "s' = (if rc_has_error s2 c then rc_clear_error c s2 else s2)"
        using e qne ok(2) False by (simp_all add: on_safepoint_def Let_def 1 2)
      have at: "entry_at ?u k = entry_at t k" for k by (simp add: entry_at_def)
      have ru: "registry_ok ?u" using rok(1) by (simp add: registry_ok_def)
      have hu: "heap_ok s ((owners (registry t) + R) + retired s c)" using heap .
      have "distinct ?todo" using rok(2) by (simp add: queue_ok_def)
      note p1 = promote_all_ok [OF w ru hu this 1]
      note rs = passes_restated [OF p1]
      note r1 = restated_registry [OF rs ru]
      have own1: "owners (registry t1) = owners (registry t)" using r1(2) by simp
      note st = fold_settle_ok [OF r1(1) 2]
      have l2: "link c s1 (owners (registry t1)) s2 (owners (registry t2))" by (rule moves_link) (use st in blast)
      have h1: "heap_ok s1 (owners (registry t1) + R + retired s1 c)" using passes_heap [OF p1] by (simp add: own1)
      have h2: "heap_ok s2 (owners (registry t2) + R + retired s2 c)" by (rule linkD(1) [OF l2 h1])
      have l3: "link c s2 (owners (registry t2)) s' (owners (registry t2))" using link_clear_error by (simp add: fin(2))
      have h3: "heap_ok s' (owners (registry t2) + R + retired s' c)" by (rule linkD(1) [OF l3 h2])
      have "published ?u s s1" using p1 by (simp add: passes_def)
      moreover have "published ?u s1 s2" "published ?u s2 s'"
        by (rule link_published [OF l2 h1], rule link_published [OF l3 h2])
      ultimately have "published ?u s s'" using published_trans by blast
      then have pub: "published t s s'" by (simp add: published_def may_publish_def at)
      have ent: "entry_at t' k = (if k \<in> set ?todo then settled (entry_at t1 k) else entry_at t1 k)" for k
      proof -
        have "entry_at t' k = entry_at t2 k" by (simp add: fin(1) entry_at_def)
        with st [of k] show ?thesis by simp
      qed
      have wq: "k \<in> set ?todo" if "e_state (entry_at t k) = PENDING" for k
        using that rok(2) False waiting_entry [of k t] by (auto simp: queue_ok_def)
      have still: "entry_at t1 k = entry_at t k" if "e_state (entry_at t k) \<noteq> PENDING" for k
        using restated_entry(5) [OF rs, of k] that by (simp add: at)
      have one: "(e_state (entry_at t k) \<noteq> PENDING \<longrightarrow> entry_at t' k = entry_at t k) \<and>
       (entry_at t' k = entry_at t k \<or> entry_at t' k = no_entry \<or> entry_at t' k = (entry_at t k)\<lparr>e_state := FAILED\<rparr>) \<and>
       e_state (entry_at t' k) \<noteq> PENDING" for k
      proof (cases "e_state (entry_at t k) = PENDING")
        case True
        obtain x where x: "entry_at t1 k = (entry_at t k)\<lparr>e_state := x\<rparr>" "x \<noteq> COLD"
          using restated_some [OF rs, of k] True by (auto simp: at)
        have fn: "e_fn (entry_at t k) \<noteq> HNull"
          using pending_registered [OF rok(1) True] entry_at_registered by (simp add: registered_def)
        have "entry_at t' k = settled ((entry_at t k)\<lparr>e_state := x\<rparr>)" using ent [of k] wq [OF True] x(1) by simp
        then show ?thesis using fn True x(2) by (cases x) (auto simp: settled_def no_entry_def)
      next
        case False
        have "entry_at t' k = entry_at t k"
        proof (cases "k \<in> set ?todo")
          case True
          then have "\<not> registered (registry t) k" using rok(2) False waiting_entry [of k t] by (auto simp: queue_ok_def)
          moreover have "k < length (registry t)" using True rok(2) by (simp add: queue_ok_def)
          ultimately have "e_fn (entry_at t k) = HNull" by (simp add: registered_def entry_at_def)
          with True show ?thesis using ent [of k] still [OF False] by (simp add: settled_def)
        next
          case out: False
          then show ?thesis using ent [of k] still [OF False] by simp
        qed
        with False show ?thesis by simp
      qed
      then have "waiting (registry t') = {}" using waiting_entry [of _ t'] by auto
      moreover have "queue t' = []" using st restatedD(6) [OF rs] by (simp add: fin(1))
      ultimately have "queue_ok t'" by (simp add: queue_ok_def)
      moreover have "registry_ok t2" using st by blast
      then have "registry_ok t'" by (simp add: fin(1) registry_ok_def)
      ultimately have "tier_ok t'" by (simp add: tier_ok_def)
      moreover have "heap_ok s' (owners (registry t') + R + retired s' c)" using h3 by (simp add: fin(1))
      ultimately show ?thesis using one \<open>waiting (registry t') = {}\<close> pub by (simp add: fin(1))
    qed
  qed
  then show "tier_ok t'" "heap_ok s' (owners (registry t') + R + retired s' c)" "\<not> busy t'"
    "\<not> disabled t \<Longrightarrow> waiting (registry t') = {}"
    "e_state (entry_at t i) \<noteq> PENDING \<Longrightarrow> entry_at t' i = entry_at t i"
    "entry_at t' i = entry_at t i \<or> entry_at t' i = no_entry \<or> entry_at t' i = (entry_at t i)\<lparr>e_state := FAILED\<rparr>"
    "published t s s'" by blast+
qed

subsection \<open>Detaching\<close>

lemma owners_all_null: "\<forall>e\<in>set es. e = no_entry \<Longrightarrow> moves s A t (owners es) \<Longrightarrow> moves s A t {#}"
proof (induction es)
  case (Cons e es)
  then have "moves s A t (held_by no_entry + owners es)" by simp
  then have "moves s A t (owners es)" by (simp only: moves_no_entry)
  with Cons show ?case by simp
qed simp

lemma detach_slot_ok:
  assumes ok: "registry_ok t" and e: "detach_slot j (t, s) = (t', s')" and j: "j < length (t_slots t)"
  shows "registry_ok t' \<and> moves s (owners (registry t)) s' (owners (registry t')) \<and> length (t_slots t') = length (t_slots t) \<and>
    (\<forall>i. t_slots t' ! j \<noteq> Some (At i)) \<and> (\<forall>k. k \<noteq> j \<longrightarrow> t_slots t' ! k = t_slots t ! k)"
proof (cases "\<exists>i. t_slots t ! j = Some (At i)")
  case True
  then obtain i where i: "t_slots t ! j = Some (At i)" by blast
  then have r: "retire j t s = (t', s')" using e by (simp add: detach_slot_def)
  then have "t_slots t' = (t_slots t)[j := Some Tombstone]" using i by (auto simp: retire_def Let_def)
  then show ?thesis using retire_ok [OF ok j i r] j by simp
next
  case False
  then have "t' = t" "s' = s" using e by (auto simp: detach_slot_def split: option.splits tslot.splits)
  then show ?thesis using False ok by simp
qed

lemma detach_ok:
  assumes ok: "registry_ok t" and e: "rc_native_tier_detach t s = (t', s')"
  shows "moves s (owners (registry t)) s' {#}" "registry_ok t'" "\<not> registered (registry t') i"
proof -
  have *: "registry_ok t' \<and> moves s (owners (registry t)) s' (owners (registry t')) \<and> length (t_slots t') = length (t_slots t) \<and>
    (\<forall>j<n. \<forall>i. t_slots t' ! j \<noteq> Some (At i))"
    if "fold detach_slot [0..<n] (t, s) = (t', s')" "n \<le> length (t_slots t)" for n t' s'
    using that
  proof (induction n arbitrary: t' s')
    case 0
    then show ?case using ok by simp
  next
    case (Suc n)
    obtain t1 s1 where 1: "fold detach_slot [0..<n] (t, s) = (t1, s1)" by (rule prod.exhaust)
    have n: "n \<le> length (t_slots t)" using Suc.prems(2) by simp
    note ih = Suc.IH [OF 1 n]
    have 2: "detach_slot n (t1, s1) = (t', s')" using Suc.prems(1) 1 by simp
    have "n < length (t_slots t1)" using ih Suc.prems(2) by simp
    from detach_slot_ok [OF _ 2 this] ih
    have d: "registry_ok t'" "moves s1 (owners (registry t1)) s' (owners (registry t'))" "length (t_slots t') = length (t_slots t1)"
      "\<forall>i. t_slots t' ! n \<noteq> Some (At i)" "\<forall>k. k \<noteq> n \<longrightarrow> t_slots t' ! k = t_slots t1 ! k" by blast+
    moreover have "moves s (owners (registry t)) s' (owners (registry t'))" using ih d(2) moves_trans by blast
    moreover have "\<forall>j<Suc n. \<forall>i. t_slots t' ! j \<noteq> Some (At i)" using ih d(4,5) by (auto simp: less_Suc_eq)
    ultimately show ?case using ih by simp
  qed
  from * [OF e [unfolded rc_native_tier_detach_def]]
  have f: "registry_ok t'" "moves s (owners (registry t)) s' (owners (registry t'))" "length (t_slots t') = length (t_slots t)"
    "\<forall>j<length (t_slots t'). \<forall>i. t_slots t' ! j \<noteq> Some (At i)" by simp_all
  have nr: "\<not> registered (registry t') i" for i
    using index_okD(7) [OF registry_okD(1) [OF f(1)], of i] f(4) by blast
  have "\<forall>e\<in>set (registry t'). e = no_entry"
  proof
    fix e assume e: "e \<in> set (registry t')"
    then obtain i where "i < length (registry t')" "registry t' ! i = e" by (auto simp: in_set_conv_nth)
    with nr [of i] have "e_fn e = HNull" by (simp add: registered_def)
    with registry_okD(5) [OF f(1) e] show "e = no_entry" .
  qed
  from owners_all_null [OF this f(2)] show "moves s (owners (registry t)) s' {#}" .
  show "registry_ok t'" by (rule f(1))
  show "\<not> registered (registry t') i" by (rule nr)
qed

end
