(* ===== verification/Key_Laws.thy ===== *)
theory Key_Laws
  imports Promotion Print_Read
begin

text \<open>
  The key text of a batch (\<open>serialize\<close>, \<open>serialize_forms\<close>). Every piece ends at a delimiter or
  announces its length, so what follows a definition in the text cannot be taken for a part of it:
  two texts agree only when they write the same definitions. \<open>key_tree\<close> says what "the same" means:
  a number is written by its value when it fits \<open>int64_t\<close>, whether it is marked exact or not.
\<close>

subsection \<open>Pieces of text\<close>

lemma until_delimiter:
  assumes "x @ d # r = y @ d # r'" "d \<notin> set x" "d \<notin> set y"
  shows "x = y \<and> r = r'"
  using assms
proof (induction x arbitrary: y)
  case Nil
  then show ?case by (cases y) auto
next
  case (Cons a x)
  then show ?case by (cases y) auto
qed

lemma digits_of_chars: "x \<in> set (digits_of n) \<Longrightarrow> c_isdigit x"
  using digits_of_simps(5) [of n] by (simp add: list_all_iff)

lemma digits_of_inject: "digits_of m = digits_of n \<longleftrightarrow> m = n"
  by (metis digits_of_simps(3))

lemma show_int_inject: "show_int m = show_int n \<longleftrightarrow> m = n"
proof
  assume e: "show_int m = show_int n"
  have "nat \<bar>m\<bar> = nat \<bar>n\<bar>" using show_int_parts(1) [of m] show_int_parts(1) [of n] e digits_of_inject by metis
  moreover have "m < 0 \<longleftrightarrow> n < 0" using show_int_parts(2) [of m] show_int_parts(2) [of n] e by metis
  ultimately show "m = n" by linarith
qed simp

lemma digits_of_no: "CHR '':'' \<notin> set (digits_of n)" "CHR '';'' \<notin> set (digits_of n)"
  using digits_of_chars [of "CHR '':''" n] digits_of_chars [of "CHR '';''" n] by (auto simp: c_isdigit_def)

lemma show_int_no: "CHR '';'' \<notin> set (show_int n)"
  by (simp add: show_int_def digits_of_no)

subsection \<open>Hexadecimal doubles\<close>

definition proper_double :: "dbl \<Rightarrow> bool" where
  \<comment> \<open>what a binary64 holds: one form per value\<close>
  "proper_double x \<longleftrightarrow>
     (case x of Fin s m e \<Rightarrow> m < 2 ^ 53 \<and> - 1074 \<le> e \<and> (m < 2 ^ 52 \<longrightarrow> e = - 1074) | _ \<Rightarrow> True)"

lemma hex_digit_of_code: "d < 16 \<Longrightarrow> (of_char (hex_digit_of d) :: nat) = (if d < 10 then 48 + d else 87 + d)"
  by (simp add: hex_digit_of_def)

lemma hex_digit_of_inject: "d < 16 \<Longrightarrow> e < 16 \<Longrightarrow> hex_digit_of d = hex_digit_of e \<Longrightarrow> d = e"
proof -
  assume "d < 16" "e < 16" "hex_digit_of d = hex_digit_of e"
  then have "(if d < 10 then 48 + d else 87 + d) = (if e < 10 then 48 + e else 87 + e)"
    using hex_digit_of_code [of d] hex_digit_of_code [of e] by simp
  then show "d = e" by (simp split: if_splits)
qed

lemma hex_digit_of_no: "d < 16 \<Longrightarrow> hex_digit_of d \<noteq> CHR ''p''" "d < 16 \<Longrightarrow> hex_digit_of d \<noteq> CHR '';''"
  using hex_digit_of_code [of d] by (auto split: if_splits)

lemma hex_fixed_length [simp]: "length (hex_fixed k n) = k"
  by (induction k arbitrary: n) simp_all

lemma hex_fixed_no: "CHR ''p'' \<notin> set (hex_fixed k n)" "CHR '';'' \<notin> set (hex_fixed k n)"
  by (induction k arbitrary: n) (auto dest: sym simp: hex_digit_of_no)

lemma hex_fixed_inject: "hex_fixed k m = hex_fixed k n \<Longrightarrow> m mod 16 ^ k = n mod 16 ^ k"
proof (induction k arbitrary: m n)
  case (Suc k)
  then have h: "hex_fixed k (m div 16) = hex_fixed k (n div 16)" "hex_digit_of (m mod 16) = hex_digit_of (n mod 16)" by simp_all
  have "m mod 16 = n mod 16" by (rule hex_digit_of_inject [OF _ _ h(2)]) simp_all
  moreover have "m div 16 mod 16 ^ k = n div 16 mod 16 ^ k" by (rule Suc.IH [OF h(1)])
  ultimately show ?case by (simp add: mod_mult2_eq)
qed simp

lemma drop_zeros_set: "set (drop_zeros x) \<subseteq> set x"
  using set_dropWhileD [of _ "\<lambda>d. d = CHR ''0''" "rev x"] by (auto simp: drop_zeros_def)

lemma drop_zeros_inject:
  assumes "length x = length y" "drop_zeros x = drop_zeros y"
  shows "x = y"
proof -
  let ?P = "\<lambda>d. d = CHR ''0''"
  have same: "dropWhile ?P (rev x) = dropWhile ?P (rev y)" using assms(2) by (simp add: drop_zeros_def)
  have z: "takeWhile ?P u = replicate (length u - length (dropWhile ?P u)) (CHR ''0'')" for u
    by (induction u) (simp_all add: Suc_diff_le dropWhile_eq_drop)
  have "takeWhile ?P (rev x) = takeWhile ?P (rev y)" using z [of "rev x"] z [of "rev y"] same assms(1) by simp
  then have "rev x = rev y" using same by (metis takeWhile_dropWhile_id)
  then show ?thesis by simp
qed

lemma hex_double_no: "CHR '';'' \<notin> set (hex_double x)"
proof (cases x)
  case (Fin s m e)
  have "CHR '';'' \<notin> set (drop_zeros (hex_fixed k n))" for k n using drop_zeros_set hex_fixed_no(2) by blast
  with Fin show ?thesis by (simp add: Let_def digits_of_no)
qed simp_all

text \<open>The two halves of a finite number, before and after the letter \<open>p\<close>.\<close>

definition hex_mantissa :: "bool \<Rightarrow> bool \<Rightarrow> string \<Rightarrow> string" where
  "hex_mantissa s b f = (if s then ''-'' else []) @ ''0x'' @ (if b then ''0'' else ''1'') @ (if f = [] then [] else CHR ''.'' # f)"

definition hex_exponent :: "int \<Rightarrow> string" where
  "hex_exponent i = (if i < 0 then CHR ''-'' else CHR ''+'') # digits_of (nat \<bar>i\<bar>)"

definition fraction :: "nat \<Rightarrow> nat" where
  "fraction m = (if m < 2 ^ 52 then m else m - 2 ^ 52)"

lemma hex_mantissa_inject: "hex_mantissa s b f = hex_mantissa s' b' f' \<longleftrightarrow> s = s' \<and> b = b' \<and> f = f'"
  by (cases s; cases s'; cases b; cases b'; cases f; cases f') (simp_all add: hex_mantissa_def)

lemma hex_exponent_inject: "hex_exponent i = hex_exponent k \<longleftrightarrow> i = k"
  by (auto simp: hex_exponent_def digits_of_inject split: if_splits)

lemma hex_mantissa_no: "CHR ''p'' \<notin> set f \<Longrightarrow> CHR ''p'' \<notin> set (hex_mantissa s b f)"
  by (simp add: hex_mantissa_def)

lemma hex_double_halves:
  "hex_double (Fin s m e) = hex_mantissa s (m < 2 ^ 52) (drop_zeros (hex_fixed 13 (fraction m))) @
     CHR ''p'' # hex_exponent (if m = 0 then 0 else e + 52)"
  unfolding hex_double.simps Let_def hex_mantissa_def hex_exponent_def fraction_def by simp

lemma fraction_inject:
  assumes "m < 2 ^ 53" "n < 2 ^ 53" "m < 2 ^ 52 \<longleftrightarrow> n < 2 ^ 52" "fraction m mod 16 ^ 13 = fraction n mod 16 ^ 13"
  shows "m = n"
  using assms by (simp add: fraction_def split: if_splits)

lemma hex_double_inject_finite:
  assumes p: "proper_double (Fin s m e)" "proper_double (Fin s' m' e')" and eq: "hex_double (Fin s m e) = hex_double (Fin s' m' e')"
  shows "Fin s m e = Fin s' m' e'"
proof -
  have np: "CHR ''p'' \<notin> set (hex_mantissa s b (drop_zeros (hex_fixed k n)))" for s b k n
    by (rule hex_mantissa_no) (use drop_zeros_set hex_fixed_no(1) in blast)
  from until_delimiter [OF eq [unfolded hex_double_halves] np np]
  have h: "s = s'" "m < 2 ^ 52 \<longleftrightarrow> m' < 2 ^ 52" "drop_zeros (hex_fixed 13 (fraction m)) = drop_zeros (hex_fixed 13 (fraction m'))"
    "(if m = 0 then 0 else e + 52) = (if m' = 0 then 0 else e' + 52)"
    unfolding hex_mantissa_inject hex_exponent_inject by blast+
  have "hex_fixed 13 (fraction m) = hex_fixed 13 (fraction m')" by (rule drop_zeros_inject [OF _ h(3)]) simp
  then have f: "fraction m mod 16 ^ 13 = fraction m' mod 16 ^ 13" by (rule hex_fixed_inject)
  have b: "m < 2 ^ 53" "m' < 2 ^ 53" "m = 0 \<Longrightarrow> e = - 1074" "m' = 0 \<Longrightarrow> e' = - 1074"
    using p by (simp_all add: proper_double_def)
  have "m = m'" by (rule fraction_inject [OF b(1,2) h(2) f])
  moreover from this have "e = e'" using h(4) b(3,4) by (cases "m = 0") simp_all
  ultimately show ?thesis using h(1) by simp
qed

lemma hex_double_inject:
  assumes "proper_double x" "proper_double y" "hex_double x = hex_double y"
  shows "x = y"
proof -
  have d: "hex_double (Fin s m e) \<noteq> ''nan''" "hex_double (Fin s m e) \<noteq> ''inf''" "hex_double (Fin s m e) \<noteq> ''-inf''" for s m e
    unfolding hex_double_halves hex_mantissa_def by (cases s; simp)+
  have f: "hex_double NaN = ''nan''" "hex_double (Inf True) = ''-inf''" "hex_double (Inf False) = ''inf''" by simp_all
  have n: "''nan'' \<noteq> ''inf''" "''nan'' \<noteq> ''-inf''" "''inf'' \<noteq> ''-inf''" by simp_all
  define special where "special = {NaN, Inf True, Inf False}"
  have fin: "z \<in> special \<or> (\<exists>s m e. z = Fin s m e)" for z unfolding special_def by (cases z) auto
  have one: "hex_double z \<noteq> hex_double (Fin s m e)" if "z \<in> special" for z s m e
    using that d [of s m e] f unfolding special_def by (metis empty_iff insert_iff)
  have two: "z = z'" if "z \<in> special" "z' \<in> special" "hex_double z = hex_double z'" for z z'
    using that f n unfolding special_def by (metis empty_iff insert_iff)
  from fin [of x] fin [of y] one two assms hex_double_inject_finite show ?thesis by metis
qed

subsection \<open>Definitions\<close>

fun key_tree :: "tree \<Rightarrow> tree" where
  \<comment> \<open>what the text tells of a tree\<close>
  "key_tree TNull = TNil"
| "key_tree (TReal x) = (if int64_real x then TInteger (dbl_to_int x) else TReal x)"
| "key_tree (TPair h t) = TPair (key_tree h) (key_tree t)"
| "key_tree x = x"

fun tree_doubles :: "tree \<Rightarrow> dbl set" where
  "tree_doubles (TReal x) = {x}"
| "tree_doubles (TPair h t) = tree_doubles h \<union> tree_doubles t"
| "tree_doubles x = {}"

lemma serialize_key_tree: "serialize (key_tree x) = serialize x"
  by (induction x) (simp_all split: option.split)

lemma text_piece:
  assumes "digits_of (length x) @ CHR '':'' # x @ r = digits_of (length y) @ CHR '':'' # y @ r'"
  shows "x = y \<and> r = r'"
proof -
  from until_delimiter [OF assms] digits_of_no have "length x = length y" "x @ r = y @ r'" by (simp_all add: digits_of_inject)
  then show ?thesis by simp
qed

lemma number_piece:
  assumes "x @ CHR '';'' # r = y @ CHR '';'' # r'" "CHR '';'' \<notin> set x" "CHR '';'' \<notin> set y"
  shows "x = y \<and> r = r'"
  by (rule until_delimiter [OF assms])

text \<open>The first character of a piece tells what it is; the rest is read by that.\<close>

fun tag :: "tree \<Rightarrow> char" where
  "tag TNull = CHR ''N''"
| "tag TNil = CHR ''N''"
| "tag (TInteger n) = CHR ''I''"
| "tag (TReal x) = (if int64_real x then CHR ''I'' else CHR ''R'')"
| "tag (TSymbol x) = CHR ''S''"
| "tag (TString x) = CHR ''T''"
| "tag (TPair h t) = CHR ''(''"
| "tag (TOther ty a) = CHR ''?''"

lemma serialize_tag: "serialize x = Some a \<Longrightarrow> a = tag x # tl a"
  by (cases x) (auto split: option.splits)

fun plain :: "tree \<Rightarrow> bool" where
  "plain TNull = False"
| "plain (TReal x) = (\<not> int64_real x)"
| "plain (TPair h t) = (plain h \<and> plain t)"
| "plain x = True"

lemma plain_key_tree: "plain (key_tree x)"
  by (induction x) simp_all

lemma key_tree_doubles: "tree_doubles (key_tree x) \<subseteq> tree_doubles x"
  by (induction x) auto

lemma plain_tag:
  "plain x \<Longrightarrow> tag x = CHR ''N'' \<Longrightarrow> x = TNil"
  "plain x \<Longrightarrow> tag x = CHR ''I'' \<Longrightarrow> \<exists>n. x = TInteger n"
  "plain x \<Longrightarrow> tag x = CHR ''R'' \<Longrightarrow> \<exists>d. x = TReal d"
  "plain x \<Longrightarrow> tag x = CHR ''S'' \<Longrightarrow> \<exists>w. x = TSymbol w"
  "plain x \<Longrightarrow> tag x = CHR ''T'' \<Longrightarrow> \<exists>w. x = TString w"
  "plain x \<Longrightarrow> tag x = CHR ''('' \<Longrightarrow> \<exists>h t. x = TPair h t"
  by (cases x; simp)+

lemma serialize_pair:
  assumes "serialize (TPair h t) = Some a"
  obtains x y where "serialize h = Some x" "serialize t = Some y" "tl a = x @ y"
  using assms by (auto split: option.splits)

lemma serialize_plain:
  assumes "plain x" "plain y" "serialize x = Some a" "serialize y = Some b" "a @ r = b @ r'"
    and "\<forall>d\<in>tree_doubles x \<union> tree_doubles y. proper_double d"
  shows "x = y \<and> r = r'"
  using assms
proof (induction x arbitrary: y a b r r')
  case (TPair h t)
  have e: "tag y = CHR ''(''" "tl a @ r = tl b @ r'"
    using serialize_tag [OF TPair.prems(3)] serialize_tag [OF TPair.prems(4)] TPair.prems(5) by (metis append_Cons list.inject tag.simps(7))+
  obtain h' t' where y: "y = TPair h' t'" using plain_tag(6) [OF TPair.prems(2) e(1)] by blast
  obtain a1 a2 where a: "serialize h = Some a1" "serialize t = Some a2" "tl a = a1 @ a2" using serialize_pair [OF TPair.prems(3)] .
  obtain b1 b2 where b: "serialize h' = Some b1" "serialize t' = Some b2" "tl b = b1 @ b2" using serialize_pair [OF TPair.prems(4) [unfolded y]] .
  have pl: "plain h" "plain t" "plain h'" "plain t'" using TPair.prems(1,2) y by simp_all
  have d: "\<forall>d\<in>tree_doubles h \<union> tree_doubles h'. proper_double d" "\<forall>d\<in>tree_doubles t \<union> tree_doubles t'. proper_double d"
    using TPair.prems(6) y by auto
  have eq: "a1 @ (a2 @ r) = b1 @ (b2 @ r')" using e(2) a(3) b(3) by simp
  from TPair.IH(1) [OF pl(1,3) a(1) b(1) eq d(1)] have 1: "h = h'" "a2 @ r = b2 @ r'" by simp_all
  from TPair.IH(2) [OF pl(2,4) a(2) b(2) 1(2) d(2)] 1(1) y show ?case by simp
next
  case TNull
  then show ?case by simp
next
  case TNil
  have e: "tag y = CHR ''N''" "tl a @ r = tl b @ r'"
    using serialize_tag [OF TNil.prems(3)] serialize_tag [OF TNil.prems(4)] TNil.prems(5) by (metis append_Cons list.inject tag.simps(2))+
  have y: "y = TNil" by (rule plain_tag(1) [OF TNil.prems(2) e(1)])
  then have "a = ''N''" "b = ''N''" using TNil.prems(3,4) by simp_all
  then show ?case using e(2) y by simp
next
  case (TSymbol w)
  have e: "tag y = CHR ''S''" "tl a @ r = tl b @ r'"
    using serialize_tag [OF TSymbol.prems(3)] serialize_tag [OF TSymbol.prems(4)] TSymbol.prems(5) by (metis append_Cons list.inject tag.simps(5))+
  obtain w' where y: "y = TSymbol w'" using plain_tag(4) [OF TSymbol.prems(2) e(1)] by blast
  have "tl a = digits_of (length w) @ CHR '':'' # w" "tl b = digits_of (length w') @ CHR '':'' # w'"
    using TSymbol.prems(3,4) unfolding y by auto
  with e(2) have "digits_of (length w) @ CHR '':'' # w @ r = digits_of (length w') @ CHR '':'' # w' @ r'" by simp
  from text_piece [OF this] y show ?case by simp
next
  case (TString w)
  have e: "tag y = CHR ''T''" "tl a @ r = tl b @ r'"
    using serialize_tag [OF TString.prems(3)] serialize_tag [OF TString.prems(4)] TString.prems(5) by (metis append_Cons list.inject tag.simps(6))+
  obtain w' where y: "y = TString w'" using plain_tag(5) [OF TString.prems(2) e(1)] by blast
  have "tl a = digits_of (length w) @ CHR '':'' # w" "tl b = digits_of (length w') @ CHR '':'' # w'"
    using TString.prems(3,4) unfolding y by auto
  with e(2) have "digits_of (length w) @ CHR '':'' # w @ r = digits_of (length w') @ CHR '':'' # w' @ r'" by simp
  from text_piece [OF this] y show ?case by simp
next
  case (TInteger n)
  have e: "tag y = CHR ''I''" "tl a @ r = tl b @ r'"
    using serialize_tag [OF TInteger.prems(3)] serialize_tag [OF TInteger.prems(4)] TInteger.prems(5) by (metis append_Cons list.inject tag.simps(3))+
  obtain k where y: "y = TInteger k" using plain_tag(2) [OF TInteger.prems(2) e(1)] by blast
  have "tl a = show_int n @ '';''" "tl b = show_int k @ '';''" using TInteger.prems(3,4) unfolding y by auto
  with e(2) have "show_int n @ CHR '';'' # r = show_int k @ CHR '';'' # r'" by simp
  from until_delimiter [OF this show_int_no show_int_no] y show ?case by (simp add: show_int_inject)
next
  case (TReal x)
  have ni: "\<not> int64_real x" using TReal.prems(1) by simp
  then have tx: "tag (TReal x) = CHR ''R''" by simp
  have e: "tag y = CHR ''R''" "tl a @ r = tl b @ r'"
    using serialize_tag [OF TReal.prems(3)] serialize_tag [OF TReal.prems(4)] TReal.prems(5) tx by (metis append_Cons list.inject)+
  obtain x' where y: "y = TReal x'" using plain_tag(3) [OF TReal.prems(2) e(1)] by blast
  then have ni': "\<not> int64_real x'" using TReal.prems(2) by simp
  have "tl a = hex_double x @ '';''" "tl b = hex_double x' @ '';''"
    using TReal.prems(3,4) ni ni' unfolding y by (auto simp del: hex_double.simps)
  with e(2) have "hex_double x @ CHR '';'' # r = hex_double x' @ CHR '';'' # r'" by simp
  from until_delimiter [OF this hex_double_no hex_double_no] have "hex_double x = hex_double x'" "r = r'" by blast+
  moreover have "proper_double x" "proper_double x'" using TReal.prems(6) y by simp_all
  ultimately show ?case using hex_double_inject y by blast
next
  case (TOther ty v)
  then show ?case by simp
qed

lemma serialize_unambiguous:
  assumes "serialize x = Some a" "serialize y = Some b" "a @ r = b @ r'"
    and "\<forall>d\<in>tree_doubles x \<union> tree_doubles y. proper_double d"
  shows "key_tree x = key_tree y \<and> r = r'"
proof (rule serialize_plain [OF plain_key_tree plain_key_tree _ _ assms(3)])
  show "serialize (key_tree x) = Some a" "serialize (key_tree y) = Some b" using assms(1,2) by (simp_all only: serialize_key_tree)
  show "\<forall>d\<in>tree_doubles (key_tree x) \<union> tree_doubles (key_tree y). proper_double d"
    using key_tree_doubles [of x] key_tree_doubles [of y] assms(4) by blast
qed

subsection \<open>Batches\<close>

fun key_text :: "tree list \<Rightarrow> string option" where
  \<comment> \<open>the lines of \<open>key_lines\<close>, over the trees\<close>
  "key_text [] = Some []"
| "key_text (x # xs) =
     (case serialize x of None \<Rightarrow> None | Some line \<Rightarrow> map_option (\<lambda>r. line @ newline # r) (key_text xs))"

lemma key_text_Cons: "key_text (x # xs) = Some a \<Longrightarrow> \<exists>u v. serialize x = Some u \<and> key_text xs = Some v \<and> a = u @ newline # v"
  by (auto split: option.splits)

lemma key_text_unambiguous:
  assumes "key_text xs = Some a" "key_text ys = Some a" "\<forall>x\<in>set xs \<union> set ys. \<forall>d\<in>tree_doubles x. proper_double d"
  shows "map key_tree xs = map key_tree ys"
  using assms
proof (induction xs arbitrary: ys a)
  case Nil
  then show ?case using key_text_Cons by (cases ys) fastforce+
next
  case (Cons x xs)
  obtain u v where x: "serialize x = Some u" "key_text xs = Some v" "a = u @ newline # v" using key_text_Cons [OF Cons.prems(1)] by blast
  show ?case
  proof (cases ys)
    case Nil
    then show ?thesis using Cons.prems(2) x(3) by simp
  next
    case ys: (Cons y zs)
    obtain u' v' where y: "serialize y = Some u'" "key_text zs = Some v'" "a = u' @ newline # v'"
      using key_text_Cons [OF Cons.prems(2) [unfolded ys]] by blast
    have d: "\<forall>d\<in>tree_doubles x \<union> tree_doubles y. proper_double d" using Cons.prems(3) ys by auto
    have "u @ newline # v = u' @ newline # v'" using x(3) y(3) by simp
    from serialize_unambiguous [OF x(1) y(1) this d] have "key_tree x = key_tree y" "v = v'" by simp_all
    moreover have "map key_tree xs = map key_tree zs"
      by (rule Cons.IH [OF x(2)]) (use y(2) \<open>v = v'\<close> Cons.prems(3) ys in auto)
    ultimately show ?thesis using ys by simp
  qed
qed

lemma key_lines_text:
  assumes "\<forall>d\<in>set ds. syntax_tree k s d \<noteq> None"
  shows "key_lines k s ds = Some (key_text (map (\<lambda>d. the (syntax_tree k s d)) ds))"
  using assms
proof (induction ds)
  case (Cons d ds)
  then obtain x where "syntax_tree k s d = Some x" by auto
  with Cons show ?case by (cases "serialize x") simp_all
qed simp

lemma key_lines_trees:
  assumes "key_lines k s ds = Some (Some a)"
  shows "\<exists>xs. map (syntax_tree k s) ds = map Some xs \<and> key_text xs = Some a"
  using assms
proof (induction ds arbitrary: a)
  case (Cons d ds)
  obtain x where 1: "syntax_tree k s d = Some x" using Cons.prems by (cases "syntax_tree k s d") simp_all
  have e: "(case serialize x of None \<Rightarrow> Some None
      | Some line \<Rightarrow> map_option (map_option (\<lambda>r. line @ newline # r)) (key_lines k s ds)) = Some (Some a)"
    using Cons.prems unfolding key_lines.simps 1 option.case .
  then obtain line where 2: "serialize x = Some line" by (cases "serialize x") simp_all
  have "map_option (map_option (\<lambda>r. line @ newline # r)) (key_lines k s ds) = Some (Some a)"
    using e unfolding 2 option.case .
  then obtain b where "key_lines k s ds = Some (Some b)" "a = line @ newline # b" unfolding map_option_eq_Some by blast
  note x = 1 2 this
  from Cons.IH [OF x(3)] obtain xs where "map (syntax_tree k s) ds = map Some xs" "key_text xs = Some b" by blast
  with x show ?case by (intro exI [of _ "x # xs"]) simp
qed simp

lemma library_call_outcomes: "\<exists>bs. snd (library_call s) = s\<lparr>outcomes := bs\<rparr>"
  by (cases "outcomes s") (auto simp: library_call_def intro: exI [of _ "outcomes s"])

lemma outcomes_cell [simp]: "rc_type (s\<lparr>outcomes := bs\<rparr>) v = rc_type s v" "load_of (s\<lparr>outcomes := bs\<rparr>) v = load_of s v"
  by (cases v; simp add: cell_at_def)+

lemma outcomes_accessors [simp]:
  "rc_number_is_exact_integer (s\<lparr>outcomes := bs\<rparr>) v = rc_number_is_exact_integer s v"
  "rc_integer_value (s\<lparr>outcomes := bs\<rparr>) v = rc_integer_value s v"
  "rc_number_value (s\<lparr>outcomes := bs\<rparr>) v = rc_number_value s v"
  "rc_head_borrowed (s\<lparr>outcomes := bs\<rparr>) v = rc_head_borrowed s v"
  "rc_tail_borrowed (s\<lparr>outcomes := bs\<rparr>) v = rc_tail_borrowed s v"
  unfolding rc_number_is_exact_integer_def rc_integer_value_def rc_number_value_def boxed_exact_def rc_head_borrowed_def
    rc_tail_borrowed_def outcomes_cell by (rule refl)+

lemma syntax_tree_outcomes: "syntax_tree k (s\<lparr>outcomes := bs\<rparr>) v = syntax_tree k s v"
proof (induction k arbitrary: v)
  case (Suc k)
  show ?case unfolding syntax_tree.simps outcomes_cell outcomes_accessors Suc.IH by (rule refl)
qed simp

lemma serialize_forms_trees:
  assumes "serialize_forms t batch s = Some (Some kl, s')"
  shows "\<exists>xs b. map (syntax_tree (depth_bound s) s) (definitions t batch) = map Some xs \<and> key_text xs = Some b \<and> kl = t_abi t @ newline # b"
proof -
  obtain o1 s1 where 1: "library_call s = (o1, s1)" by (rule prod.exhaust)
  then obtain bs where bs: "s1 = s\<lparr>outcomes := bs\<rparr>" using library_call_outcomes [of s] by auto
  obtain o2 s2 where 2: "library_call s1 = (o2, s2)" by (rule prod.exhaust)
  from assms obtain b where b: "key_lines (depth_bound s1) s1 (definitions t batch) = Some (Some b)" "kl = t_abi t @ newline # b"
    by (auto simp: serialize_forms_def 1 2 split: if_splits option.splits)
  have "depth_bound s1 = depth_bound s" by (simp add: bs depth_bound_def)
  moreover have "syntax_tree k s1 = syntax_tree k s" for k by (rule ext) (simp add: bs syntax_tree_outcomes)
  ultimately show ?thesis using key_lines_trees [OF b(1)] b(2) by auto
qed

lemma key_text_cong: "map key_tree xs = map key_tree ys \<Longrightarrow> key_text xs = key_text ys"
proof (induction xs arbitrary: ys)
  case (Cons x xs)
  then obtain y zs where y: "ys = y # zs" "key_tree x = key_tree y" "map key_tree xs = map key_tree zs" by (cases ys) auto
  then have "serialize x = serialize y" using serialize_key_tree by metis
  then show ?case using Cons.IH [OF y(3)] y(1) by (simp split: option.split)
qed simp

definition key_of :: "mem \<Rightarrow> handle \<Rightarrow> tree" where
  \<comment> \<open>what the key text tells of a definition\<close>
  "key_of s d = key_tree (the (syntax_tree (depth_bound s) s d))"

definition proper_definitions :: "mem \<Rightarrow> handle list \<Rightarrow> bool" where
  \<comment> \<open>the numbers in the definitions are binary64\<close>
  "proper_definitions s ds \<longleftrightarrow>
     (\<forall>d\<in>set ds. case syntax_tree (depth_bound s) s d of None \<Rightarrow> True | Some x \<Rightarrow> \<forall>y\<in>tree_doubles x. proper_double y)"

lemma proper_definitions_trees:
  assumes "proper_definitions s ds" "map (syntax_tree (depth_bound s) s) ds = map Some xs" "x \<in> set xs" "y \<in> tree_doubles x"
  shows "proper_double y"
proof -
  have "Some x \<in> set (map (syntax_tree (depth_bound s) s) ds)" using assms(2,3) by simp
  then obtain d where "d \<in> set ds" "syntax_tree (depth_bound s) s d = Some x" by auto
  with assms(1,4) show ?thesis unfolding proper_definitions_def by fastforce
qed

lemma key_of_trees: "map (syntax_tree (depth_bound s) s) ds = map Some xs \<Longrightarrow> map (key_of s) ds = map key_tree xs"
proof (induction ds arbitrary: xs)
  case (Cons d ds)
  then show ?case by (cases xs) (simp_all add: key_of_def)
qed simp

lemma serialize_forms_key:
  assumes "serialize_forms t batch s = Some (Some k, s1)" "serialize_forms u others z = Some (Some m, z1)"
    and "length (t_abi t) = length (t_abi u)" "proper_definitions s (definitions t batch)" "proper_definitions z (definitions u others)"
  shows "k = m \<longleftrightarrow> t_abi t = t_abi u \<and> map (key_of s) (definitions t batch) = map (key_of z) (definitions u others)"
proof -
  from serialize_forms_trees [OF assms(1)] obtain xs a where x: "map (syntax_tree (depth_bound s) s) (definitions t batch) = map Some xs"
    "key_text xs = Some a" "k = t_abi t @ newline # a" by blast
  from serialize_forms_trees [OF assms(2)] obtain ys b where y: "map (syntax_tree (depth_bound z) z) (definitions u others) = map Some ys"
    "key_text ys = Some b" "m = t_abi u @ newline # b" by blast
  have d: "\<forall>x\<in>set xs \<union> set ys. \<forall>d\<in>tree_doubles x. proper_double d"
    using proper_definitions_trees [OF assms(4) x(1)] proper_definitions_trees [OF assms(5) y(1)] by blast
  have "a = b \<longleftrightarrow> map key_tree xs = map key_tree ys"
  proof
    assume "a = b"
    then show "map key_tree xs = map key_tree ys" using key_text_unambiguous [OF x(2) _ d] y(2) by simp
  next
    assume "map key_tree xs = map key_tree ys"
    from key_text_cong [OF this] x(2) y(2) show "a = b" by simp
  qed
  moreover have "k = m \<longleftrightarrow> t_abi t = t_abi u \<and> a = b" using assms(3) by (simp add: x(3) y(3))
  ultimately show ?thesis by (simp add: key_of_trees [OF x(1)] key_of_trees [OF y(1)])
qed

end
