(* ===== verification/Spec2Isabelle.thy ===== *)
theory Spec2Isabelle
  imports Examples Runtime Fast Reclaim Symbol_Laws Env_Laws Plan_Laws Print_Read Emit_Laws Peephole_Laws Alpha_Laws Constants_Laws
    Promotion_Laws Key_Laws
begin

text \<open>
  The reference-counting runtime of shen-c (\<open>src/rc\<close>): a model in HOL of its C code and theorems
  about it. Read with \<open>src/rc/rc.c\<close>, \<open>rc_layout.h\<close>, \<open>eval_plan.h\<close> and the other files of that
  directory open beside it; definitions keep the names of the C functions.

  \<^bold>\<open>Memory.\<close> \<open>Heap\<close> has the data model: \<open>struct RcValue\<close> as the record \<open>cell\<close> with its union as
  the datatype \<open>payload\<close>, \<open>struct RcContext\<close> as the record \<open>ctx\<close>, handles (\<open>RcValue *\<close>) as a
  datatype that separates NULL, nil, immediate integers and cell addresses. Memory is passed
  explicitly. A write to a freed cell and every \<open>abort()\<close> set the flag \<open>fault\<close>. Library calls that
  can fail draw their outcome from a list, so theorems cover every pattern of failures. \<open>Double\<close>
  is IEEE 754 binary64 as far as it is used; \<open>Open_Addressing\<close> is the probing scheme of the
  runtime's tables as a locale, interpreted for the plan side table in \<open>Plan_Table\<close>.

  \<^bold>\<open>Reference counting.\<close> \<open>Alloc\<close> and \<open>Release\<close> have the slab allocator, retain and the release
  cascade. \<open>Ownership\<close> states the invariant on an abstract graph, \<open>Invariant\<close> lifts it to memory:
  \<open>heap_ok s R\<close> says that no fault happened, every live count is the number of holders, where the
  multiset \<open>R\<close> lists the handles owned by C code, and the plan table, source lists and free lists
  are well formed. \<open>Allocation\<close> proves the allocator against it. \<open>Frame\<close> adds what an operation may
  not touch (\<open>preserves\<close>), the locale \<open>ownership\<close> with its interpretation \<open>own\<close> on the model's own
  functions, and the calculus \<open>moves s A s' B\<close> (the handles \<open>A\<close> are given up, \<open>B\<close> are owned
  instead, the rest is untouched) in which the laws of all constructors are stated. \<open>Reclaim\<close>
  shows that release is complete where there are no cycles.

  \<^bold>\<open>Values.\<close> \<open>Pairs\<close>, \<open>Vectors\<close> (with the bounded cycle search), \<open>Scalars\<close> (numbers, texts,
  symbols), \<open>Envs\<close> (evaluator frames and small caches), \<open>Closures\<close> (closures, partial applications,
  tail requests, guards), \<open>Contexts\<close>, \<open>Collector\<close> (the trial-deletion cycle collector and context
  destruction), \<open>Equality\<close>. \<open>Vector_Laws\<close>, \<open>Scalar_Laws\<close>, \<open>Symbol_Laws\<close>, \<open>Graph_Laws\<close> and
  \<open>Env_Laws\<close> hold their lemmas.

  \<^bold>\<open>Language.\<close> \<open>Apply\<close> is \<open>rc_apply\<close> with its trampoline, \<open>Reader\<close> and \<open>Printing\<close> are
  \<open>reader.c\<close> and the printer, \<open>Primitives\<close>, \<open>Builtins\<close> and \<open>Intrinsics\<close> are the KLambda
  primitives, \<open>Plans\<close> the compilation of expressions to byte-coded plans (\<open>eval_plan.h\<close>),
  \<open>Evaluator\<close> the interpreter, \<open>Runtime\<close> the execution of plans and the entry points, \<open>Fast\<close>
  the inline paths of \<open>rc_layout.h\<close>. A native function pointer is a number; what it does is the
  parameter \<open>callbacks\<close> of the definitions that call it, and \<open>runtime\<close> ties the knot for the
  runtime's own functions.

  \<^bold>\<open>Laws of the larger parts.\<close> \<open>Plan_Laws\<close> bounds every index of a compiled plan and proves the stored
  layout; \<open>Reader_Laws\<close> and \<open>Print_Read\<close> treat both readers and their inverse, the printer;
  \<open>Collector_Laws\<close> has the collector's walks, \<open>Dismantle\<close> its trial deletion and the release of what is
  dead, \<open>Garbage_Laws\<close> that nothing dead remains. \<open>Examples\<close> holds the small memories at which the
  witnesses of the properties are evaluated.

  \<^bold>\<open>Code generator.\<close> \<open>Emit\<close> is what \<open>emit.c\<close> decides while it writes C text: liveness of lexical slots,
  sharing of frame slots, drops, candidates for reuse and fusion, comparison with kernel templates,
  string literals and the renaming of slots, with \<open>Emit_Laws\<close>. \<open>Peephole\<close> is \<open>frame_code\<close>, the pass that
  removes releases from the text, down to its \<open>sscanf\<close> formats, and \<open>Peephole_Laws\<close> gives the lines a
  meaning and proves that the pass keeps the runs. \<open>Alpha_Laws\<close> proves the comparison with templates
  equal to equality of terms without names. \<open>Constants\<close> is the encoding of large constant trees as
  tables and the loop of the generated module that runs them, \<open>Constants_Laws\<close> proves that a table
  replays the straight-line code and that quoted data comes out as it was written.

  \<^bold>\<open>Bindings and the native tier.\<close> \<open>Binding_Laws\<close> proves that setting a binding keeps the counts exact and
  that a replaced function outlives the calls that may be running it; the context owns it meanwhile
  (\<open>retired s c\<close>). \<open>Tier\<close> is the registry half of \<open>native_tier.c\<close>: entries with their open-addressed
  index, compaction, call counting, the queue; \<open>Tier_Laws\<close> has its invariant \<open>tier_ok\<close>, the meaning of a
  lookup and the ownership of entries. \<open>Promotion\<close> is the other half: key text and digest, the compiler's
  command line, the cache of objects, publication and the safepoint. The emitter, the compiler and the
  loader are fields of a record \<open>tier_world\<close>, the entry point of a loaded module is a tree of steps that
  may call back; \<open>world_ok\<close> states what the tier relies on, that they keep the counts and bind nothing
  themselves. \<open>Promotion_Laws\<close> carries the invariant through a safepoint and shows when a binding may
  change; \<open>Key_Laws\<close> shows what the key text tells of a definition.

  \<^bold>\<open>Fuel.\<close> Loops of the C code that end are total functions with a measure. The evaluator,
  \<open>rc_apply\<close> and everything they call may run forever; there a definition takes fuel and returns
  an option. The lookup in a chain of frames takes the number of live cells plus one, which is
  shown to be enough.

  \<^bold>\<open>Not modelled.\<close> The statements that \<open>emit.c\<close> writes per form and the helper text around them, and
  \<open>native_compile.c\<close>, whose output is C text for an external compiler; the attachment of the tier with its
  environment variables and directories, its clocks and the printing of its statistics; the command
  line \<open>main.c\<close>; the older interpreter under \<open>src/c\<close>, the tools and the tests.
\<close>

section \<open>Properties\<close>

subsection \<open>Reference counting\<close>

text \<open>C1. Releasing an owned handle keeps the heap invariant for the remaining owners: the release
  cascade terminates, never touches a freed cell, never takes a count below zero, and afterwards
  every live count is again exactly the number of holders.\<close>

theorem release_exact:
  assumes "heap_ok s (add_mset v R)"
  shows "heap_ok (rc_release v s) R"
  by (rule own.release_inv [OF assms])

theorem release_exact_witness: "heap_ok (rc_release (HRef 65664) one_pair) {#}"
  by (rule release_exact) (rule heap_ok_one_pair)

text \<open>C2. Release is safe and complete: in a heap without cycles the cells that survive the release
  of a handle are exactly those the other owners or an immortal cell can reach. Nothing in use
  is freed and nothing out of use is kept.\<close>

theorem release_complete:
  assumes "heap_ok s (add_mset v R)" "Transitive_Closure.acyclic (g_edge (view s))"
  shows "live (rc_release v s) a \<longleftrightarrow> a \<in> owned (view s) R"
  by (rule release_leaves_owned [OF assms])

theorem release_complete_witness: "live (rc_release (HRef 65664) one_pair) 65664 \<longleftrightarrow> 65664 \<in> owned (view one_pair) {#}"
proof (rule release_complete)
  show "heap_ok one_pair {#HRef 65664#}" by (rule heap_ok_one_pair)
  have "holds one_pair 65664 = [HNil, HImm 15]"
    by (simp add: holds_def edges_def plan_edge_def one_pair_cells)
  then have "g_edge (view one_pair) = {}" using one_pair_cells(6) by (auto simp: g_edge_def)
  then show "Transitive_Closure.acyclic (g_edge (view one_pair))" by (simp add: wf_acyclic)
qed

text \<open>C3. Whatever the remaining owners can reach is untouched by a release: contents, plan and
  context of every such cell are the same afterwards.\<close>

theorem release_frame:
  assumes "heap_ok s (add_mset v R)" "a \<in> owned (view s) R"
  shows "cell_kept s (rc_release v s) a"
  using own.release_keeps [OF assms(1)] assms(2) by (simp add: preserves_def)

theorem release_frame_witness: "cell_kept one_pair (rc_release HNil one_pair) 65664"
  by (rule release_frame [where R = "{#HRef 65664#}"]) (simp_all add: heap_ok_one_pair owned.root)

subsection \<open>Pairs\<close>

text \<open>C4. The consuming constructor of pairs: on every path, errors and a failing allocator
  included, it takes over exactly the two handles it was given and returns one it owns; when
  it returns a cell, the cell is new, lies in the context and holds the two arguments.\<close>

theorem cons_owned:
  assumes "heap_ok s (add_mset h (add_mset t R))" "c < next_ctx s" "rc_cons_owned c h t s = (v, s')"
  shows "heap_ok s' (add_mset v R) \<and> preserves R s s' \<and>
    (\<forall>a. v = HRef a \<longrightarrow> \<not> live s a \<and> load (cell_at s' a) = VPair h t \<and> rc_value_context s' a = c)"
  using movesD [OF moves_rc_cons_owned [OF assms(2,3)], of R] rc_cons_owned_result [OF assms(1,2)] assms(1,3) by auto

theorem cons_owned_witness:
  "heap_ok one_pair {#HRef 65664#} \<and> load (cell_at one_pair 65664) = VPair HNil (HImm 15)"
proof -
  have "heap_ok start (add_mset HNil (add_mset (HImm 15) {#}))" using heap_ok_start(1) by simp
  from cons_owned [OF this _ one_pair_value] heap_ok_start(2) show ?thesis by simp
qed

text \<open>C5. In-place reuse: given an unshared pair that is neither of the new fields, the reusing
  constructor returns that very cell with the new fields, and the handles it consumed are
  accounted for: its old fields and its plan are released, nobody else's cells change.\<close>

theorem cons_reuse_in_place:
  assumes "heap_ok s (add_mset (HRef a) (add_mset h (add_mset t R)))" "c < next_ctx s"
    and "unique_pair s (HRef a)" "HRef a \<noteq> h" "HRef a \<noteq> t" "belongs s c (HRef a)" "belongs s c h" "belongs s c t"
    and "rc_cons_reuse_owned c (HRef a) h t s = (v, s')"
  shows "v = HRef a \<and> load (cell_at s' a) = VPair h t \<and> heap_ok s' (add_mset v R) \<and> preserves R s s'"
proof -
  have "heap_ok s ({#HRef a, h, t#} + R)" using assms(1) by simp
  from movesD [OF moves_rc_cons_reuse_owned [OF assms(2,9)] this]
    rc_cons_reuse_owned_reused [OF assms(1,3-9)] show ?thesis by simp
qed

theorem cons_reuse_in_place_witness:
  "fst (rc_cons_reuse_owned 1 (HRef 65664) (HImm 3) HNil one_pair) = HRef 65664 \<and>
   load (cell_at (snd (rc_cons_reuse_owned 1 (HRef 65664) (HImm 3) HNil one_pair)) 65664) = VPair (HImm 3) HNil"
proof -
  have "heap_ok one_pair (add_mset (HRef 65664) (add_mset (HImm 3) (add_mset HNil {#})))"
    using heap_ok_one_pair by (simp add: add_mset_commute [of "HRef 65664"])
  from cons_reuse_in_place [OF this, of 1, OF _ _ _ _ _ _ _ prod.collapse [symmetric]] show ?thesis
    by (simp add: one_pair_cells unique_pair_def)
qed

text \<open>C6. Taking the last use of a pair: the field is moved out when the pair is unshared and
  copied with a retain when it is shared; either way the pair the caller owned has become the
  field and the slot, and the rest of the heap is as it was.\<close>

theorem take_last_ownership:
  assumes "rc_pair_take_last c p left s = (v, p', s')" "heap_ok s (add_mset p R)"
  shows "heap_ok s' (add_mset v (add_mset p' R)) \<and> preserves R s s'"
  using movesD [OF moves_rc_pair_take_last [OF assms(1)], of R] assms(2) by simp

theorem take_last_ownership_witness:
  "heap_ok (snd (snd (rc_pair_take_last 1 (HRef 65664) False one_pair)))
     {#fst (rc_pair_take_last 1 (HRef 65664) False one_pair), fst (snd (rc_pair_take_last 1 (HRef 65664) False one_pair))#}"
  using take_last_ownership [of 1 "HRef 65664" False one_pair, OF _ heap_ok_one_pair] by (metis prod.collapse)

text \<open>C7. The length of a list: the result is \<open>n\<close> with status OK exactly when the handle starts a
  chain of \<open>n\<close> pairs that ends in nil, for every length the runtime can represent.\<close>

theorem list_length_correct:
  assumes "n \<le> SIZE_MAX - 2"
  shows "rc_list_length_cached s v = (RC_LIST_LENGTH_OK, n) \<longleftrightarrow> (\<exists>xs. list_at s v xs \<and> length xs = n)"
  by (rule rc_list_length_spec [OF assms])

theorem list_length_correct_witness: "\<not> (\<exists>xs. list_at one_pair (HRef 65664) xs \<and> length xs = 1)"
proof -
  have "rc_list_length_cached one_pair (HRef 65664) = (RC_LIST_LENGTH_IMPROPER, 0)"
    by (simp add: rc_list_length_cached_def list_length_loop.simps [of _ _ "HRef _"] list_length_loop.simps [of _ _ "HImm _"]
        one_pair_cells rc_is_nil_def SIZE_MAX_def)
  with list_length_correct [of 1 one_pair "HRef 65664"] show ?thesis by (simp add: SIZE_MAX_def)
qed

subsection \<open>Vectors\<close>






text \<open>C9. Assignment to a vector keeps the heap invariant for every set of owners, whether it
  succeeds, is out of bounds, of the wrong context, or rejected.\<close>

theorem vector_set_heap_ok:
  assumes "heap_ok s R" "valid s item" "rc_vector_set c v i item s = (r, s')"
  shows "heap_ok s' R"
  by (rule heap_ok_rc_vector_set [OF assms])

theorem vector_set_heap_ok_witness: "heap_ok (snd (rc_vector_set 1 (HRef 65664) 1 (HImm 15) one_vector)) {#HRef 65664#}"
  by (rule vector_set_heap_ok [OF heap_ok_one_vector _ prod.collapse [symmetric]]) (simp add: valid_def)



subsection \<open>Scalars and symbols\<close>

text \<open>C11. Every \<open>int64_t\<close> survives the trip through a handle: what \<open>rc_integer\<close> encodes, in the
  handle itself or in a boxed cell, \<open>rc_integer_value\<close> reads back, and it is exact.\<close>

theorem integer_round_trip:
  assumes "heap_ok s R" "c < next_ctx s" "rc_integer c n s = (v, s')" "v \<noteq> HNull"
  shows "rc_integer_value s' v = n \<and> rc_number_is_exact_integer s' v"
  using rc_integer_value [OF assms(2,1,3,4)] by simp

lemma integer_start: "rc_integer 1 (- 5) start = (encode_immediate (- 5), start)"
  by (simp add: rc_integer_def)

theorem integer_round_trip_witness:
  "rc_integer_value start (encode_immediate (- 5)) = - 5 \<and> rc_number_is_exact_integer start (encode_immediate (- 5))"
proof (rule integer_round_trip [OF heap_ok_start(1) _ integer_start])
  show "1 < next_ctx start" by (simp add: heap_ok_start)
  show "encode_immediate (- 5) \<noteq> HNull" unfolding encode_immediate_def by (rule handle.distinct)
qed

text \<open>C12. A symbol is its name: in a context with a well-formed intern table two calls of
  \<open>rc_symbol\<close> return the same handle exactly when the names are equal as C strings, and interning
  a known name changes nothing. This holds through every growth of the table.\<close>

theorem symbol_identity:
  assumes "c < next_ctx s" "symbols_wf s c" "heap_ok s R"
    and "rc_symbol c (Some m) s = (v, s1)" "v \<noteq> HNull" "rc_symbol c (Some n) s1 = (w, s2)" "w \<noteq> HNull"
  shows "(v = w \<longleftrightarrow> c_string m = c_string n) \<and> (v = w \<longrightarrow> s2 = s1)"
  using rc_symbol_identity [OF assms] by blast

lemma symbols_wf_start: "symbols_wf start 1"
  by (simp add: symbols_wf_def names_wf_def interned_def chained_def evaluate)

definition hd_state :: mem where
  "hd_state = snd (rc_symbol 1 (Some ''hd'') start)"

lemma hd_symbol: "rc_symbol 1 (Some ''hd'') start = (HRef 65664, hd_state)"
proof -
  have "fst (rc_symbol 1 (Some ''hd'') start) = HRef 65664"
    by (simp add: rc_symbol_def find_symbol_def symbols_full_def resize_symbols_def text_value_def c_string_def evaluate)
  then show ?thesis by (metis hd_state_def prod.collapse)
qed

lemma hd_state_ok: "heap_ok hd_state {#HRef 65664#}" "symbols_wf hd_state 1" "next_ctx hd_state = 2"
  "65664 \<in> interned hd_state 1" "name_of hd_state 65664 = ''hd''" "rc_type hd_state (HRef 65664) = RC_SYMBOL" "live hd_state 65664"
proof -
  have c: "1 < next_ctx start" by (simp add: heap_ok_start)
  note r = rc_symbol_ok [OF c symbols_wf_start heap_ok_start(1) hd_symbol]
  show "heap_ok hd_state {#HRef 65664#}" using r(1) .
  have nm: "c_string ''hd'' = ''hd''" by (simp add: c_string_def)
  show wf: "symbols_wf hd_state 1" and "next_ctx hd_state = 2" and i: "65664 \<in> interned hd_state 1" and "name_of hd_state 65664 = ''hd''"
    using r(2) nm heap_ok_start(2) by (simp_all add: symbol_result_def)
  show "rc_type hd_state (HRef 65664) = RC_SYMBOL" "live hd_state 65664"
    using symbols_wfD(3) [OF wf i] by (simp_all add: symbol_cell_def)
qed

theorem symbol_identity_witness: "rc_symbol 1 (Some ''hd'') hd_state = (HRef 65664, hd_state)"
proof -
  have c: "1 < next_ctx start" by (simp add: heap_ok_start)
  have e2: "rc_symbol 1 (Some ''hd'') hd_state = (HRef 65664, hd_state)"
    by (rule rc_symbol_again [OF hd_state_ok(2) _ hd_state_ok(4)]) (simp_all add: hd_state_ok c_string_def)
  from symbol_identity [OF c symbols_wf_start heap_ok_start(1) hd_symbol _ e2] have "HRef 65664 = HRef 65664 \<longrightarrow> hd_state = hd_state" by simp
  with e2 show ?thesis by simp
qed

text \<open>C13. Interning keeps the table well formed: chains, hashes, distinct names and the cached
  booleans; it keeps the heap invariant and every live cell, and it adds at most the symbol asked for.\<close>

theorem symbol_table_invariant:
  assumes "c < next_ctx s" "symbols_wf s c" "heap_ok s R" "rc_symbol c (Some text) s = (v, s')"
  shows "heap_ok s' (add_mset v R) \<and> symbols_wf s' c \<and> (\<forall>a. live s a \<longrightarrow> cell_kept s s' a) \<and>
    interned s' c \<subseteq> interned s c \<union> {a. v = HRef a \<and> name_of s' a = c_string text}"
  using rc_symbol_ok [OF assms] by (auto simp: symbol_result_def)

theorem symbol_table_invariant_witness: "symbols_wf (snd (rc_symbol 1 (Some ''hd'') start)) 1"
  using symbol_table_invariant [OF _ symbols_wf_start heap_ok_start(1) prod.collapse [symmetric]] heap_ok_start(2) by simp

subsection \<open>Environments\<close>

text \<open>C14. Lookup in a frame with its coarse class filter is plain lookup: the newest binding of
  the key in the chain of frames, or NULL when there is none. The search always ends.\<close>

theorem env_lookup_is_map:
  assumes "env_at s env fs" "rc_type s key = RC_SYMBOL"
  shows "rc_env_lookup s env key = Some (case map_of (env_bindings fs) key of Some x \<Rightarrow> x | None \<Rightarrow> HNull)"
  by (rule env_lookup_bindings [OF assms])

theorem env_lookup_is_map_witness: "rc_env_lookup hd_state HNil (HRef 65664) = Some HNull"
  using env_lookup_is_map [of hd_state HNil "[]" "HRef 65664"] hd_state_ok(6) by simp

text \<open>C15. A new frame shadows its parent: a key bound by the frame gets its last value there, every
  other key what it had in the parent.\<close>

theorem env_frame_shadows:
  assumes "c < next_ctx s" "heap_ok s R" "\<forall>v\<in>set (par # ks @ vs). valid s v" "length ks = length vs"
    and "env_at s par fs" "keys_live s fs" "rc_env_frame c par (length vs) (Some ks) (Some vs) s = (v, s')"
    and "v \<noteq> HNull" "rc_type s key = RC_SYMBOL"
  shows "rc_env_lookup s' v key = (case map_of (rev (zip ks vs)) key of Some x \<Rightarrow> Some x | None \<Rightarrow> rc_env_lookup s par key)"
  by (rule rc_env_frame_lookup [OF assms])

lemma hd_frame: "fst (rc_env_frame 1 HNil 1 (Some [HRef 65664]) (Some [HImm 15]) hd_state) \<noteq> HNull"
proof -
  have "rc_value_context hd_state 65664 = 1"
    using symbols_wfD(3) [OF hd_state_ok(2,4)] by (simp add: symbol_cell_def)
  moreover have "fst (allocate 1 RC_ENV 0 hd_state) = HRef 65736"
    by (simp add: hd_state_def rc_symbol_def find_symbol_def symbols_full_def resize_symbols_def text_value_def c_string_def
        intern_symbol_def init_cell_def upd_cell_def evaluate)
  ultimately show ?thesis using hd_state_ok(6)
    by (simp add: rc_env_frame_def env_storage_bytes_def env_frame_construct_def rc_is_nil_def SIZE_MAX_def PTR_BYTES_def
        case_prod_beta Let_def split: handle.splits)
qed

theorem env_frame_shadows_witness:
  "rc_env_lookup (snd (rc_env_frame 1 HNil 1 (Some [HRef 65664]) (Some [HImm 15]) hd_state))
     (fst (rc_env_frame 1 HNil 1 (Some [HRef 65664]) (Some [HImm 15]) hd_state)) (HRef 65664) = Some (HImm 15)"
proof -
  have h: "1 < next_ctx hd_state" "\<forall>v\<in>set (HNil # [HRef 65664] @ [HImm 15]). valid hd_state v" "env_at hd_state HNil []"
    "keys_live hd_state []" "length [HRef 65664] = length [HImm 15]" by (simp_all add: hd_state_ok valid_def keys_live_def)
  have e: "rc_env_frame 1 HNil (length [HImm 15]) (Some [HRef 65664]) (Some [HImm 15]) hd_state =
      (fst (rc_env_frame 1 HNil 1 (Some [HRef 65664]) (Some [HImm 15]) hd_state),
       snd (rc_env_frame 1 HNil 1 (Some [HRef 65664]) (Some [HImm 15]) hd_state))" by simp
  from env_frame_shadows [OF h(1) hd_state_ok(1) h(2,5,3,4) e hd_frame hd_state_ok(6)] show ?thesis by simp
qed

subsection \<open>Closures and requests\<close>

text \<open>C16. A closure takes over exactly the captures marked as moved and shares the others; if it
  cannot be built the moved ones are released. When it is built, it is a new cell of the context
  with the captures in order.\<close>

theorem closure_ownership:
  assumes "c < next_ctx s" "\<forall>v\<in>set cs. valid s v" "rc_closure_moved c n own cs moved s = (v, s')"
    and "heap_ok s (mset (masked moved cs) + R)"
  shows "heap_ok s' (add_mset v R) \<and> preserves R s s' \<and>
    (\<forall>a. v = HRef a \<longrightarrow> \<not> live s a \<and> load (cell_at s' a) = VClosure 0 own n cs [] \<and> rc_value_context s' a = c)"
  using movesD [OF closure_create_moved_ok(1) [OF assms(1,2) assms(3) [unfolded rc_closure_moved_def]] assms(4)]
    closure_create_moved_ok(2) [OF assms(1,2) assms(3) [unfolded rc_closure_moved_def] assms(4)] by auto

theorem closure_ownership_witness:
  "heap_ok (snd (rc_closure_moved 1 1 9 [HRef 65664] 1 one_pair)) {#fst (rc_closure_moved 1 1 9 [HRef 65664] 1 one_pair)#}"
proof -
  have "1 < next_ctx one_pair" "\<forall>v\<in>set [HRef 65664]. valid one_pair v"
    by (simp_all add: one_pair_cells valid_def live_fmdom)
  moreover have "heap_ok one_pair (mset (masked 1 [HRef 65664]) + {#})"
    using heap_ok_one_pair by (simp add: masked_def bit_set_def)
  ultimately show ?thesis using closure_ownership [OF _ _ prod.collapse [symmetric]] by blast
qed

text \<open>C17. A tail request built from owned arguments consumes them on every path and shares only
  its function.\<close>

theorem tail_request_ownership:
  assumes "c < next_ctx s" "valid s fn" "rc_tailcall_owned_args c fn args s = (v, s')" "heap_ok s (mset args + R)"
  shows "heap_ok s' (add_mset v R) \<and> preserves R s s' \<and>
    (\<forall>a. v = HRef a \<longrightarrow> \<not> live s a \<and> load (cell_at s' a) = VTail fn args 0 \<and> rc_value_context s' a = c)"
  using movesD [OF rc_tailcall_owned_args_ok(1) [OF assms(1-3)] assms(4)] rc_tailcall_owned_args_ok(2) [OF assms(1-4)] by auto

theorem tail_request_ownership_witness:
  "heap_ok (snd (rc_tailcall_owned_args 1 HNil [HRef 65664] one_pair)) {#fst (rc_tailcall_owned_args 1 HNil [HRef 65664] one_pair)#}"
proof -
  have "1 < next_ctx one_pair" "valid one_pair HNil" "heap_ok one_pair (mset [HRef 65664] + {#})"
    using heap_ok_one_pair by (simp_all add: one_pair_cells valid_def)
  then show ?thesis using tail_request_ownership [OF _ _ prod.collapse [symmetric]] by blast
qed

subsection \<open>Evaluation plans\<close>

text \<open>A memory with one long list: the cell \<open>i\<close> heads a list of \<open>i\<close> nils, up to 2050 of them, and
  the cell 2051 is the expression that applies that list to 2049 arguments.\<close>

definition long_cell :: "nat \<Rightarrow> cell" where
  "long_cell i = free_cell\<lparr>refs := 1, load :=
     (if i = 2051 then VPair (HRef 2050) (HRef 2049) else VPair HNil (if i = 1 then HNil else HRef (i - 1)))\<rparr>"

definition long_list :: mem where
  "long_list = (empty_mem [])\<lparr>cells := fmap_of_list (map (\<lambda>i. (i, long_cell i)) [1..<2052])\<rparr>"

lemma long_list_cell:
  assumes "1 \<le> i" "i \<le> 2051"
  shows "load (cell_at long_list i) =
    (if i = 2051 then VPair (HRef 2050) (HRef 2049) else VPair HNil (if i = 1 then HNil else HRef (i - 1)))"
proof -
  have "cell_at long_list i = long_cell i" using assms
    by (simp add: long_list_def cell_at_def fmlookup_of_list map_of_map_restrict)
  then show ?thesis by (simp add: long_cell_def)
qed

lemma long_list_at: "1 \<le> i \<Longrightarrow> i \<le> 2050 \<Longrightarrow> list_at long_list (HRef i) (replicate i HNil)"
proof (induction i)
  case (Suc i)
  then show ?case using long_list_cell [of "Suc i"] by (cases "i = 0") simp_all
qed simp



text \<open>C19. The stored form of a plan is faithful: decoding the bytes of the cached string gives back
  every node and every auxiliary entry the compiler produced.\<close>

theorem plan_round_trip:
  assumes "plan_compile PLAN_DEPTH s params body [] 0 plan_start = (root, b)" "length params \<le> PLAN_LIMIT"
  shows "(\<forall>pc<length (nodes b). node_at (encode_plan h b) pc = nodes b ! pc) \<and>
    (\<forall>i<length (aux b). aux_at (encode_plan h b) (length (nodes b)) i = aux b ! i)"
  using build_ok_round_trip [OF plan_root(1) [OF assms(1)]] assms(2) by (simp add: PLAN_LIMIT_def)

theorem plan_round_trip_witness:
  "node_at (encode_plan \<lparr>header_nodes = 1, header_params = 0, header_literals = 0, header_aux = 0, header_root = 0\<rparr>
     (snd (plan_compile PLAN_DEPTH one_pair [] (HRef 65664) [] 0 plan_start))) 0 =
   nodes (snd (plan_compile PLAN_DEPTH one_pair [] (HRef 65664) [] 0 plan_start)) ! 0"
proof -
  let ?c = "plan_compile PLAN_DEPTH one_pair [] (HRef 65664) [] 0 plan_start"
  have "0 < length (nodes (snd ?c))" using plan_root(2) [of one_pair "[]" "HRef 65664" "fst ?c" "snd ?c"] by (simp only: prod.collapse) fastforce
  with plan_round_trip [OF prod.collapse [symmetric], of "[]" one_pair "HRef 65664"] show ?thesis by simp
qed

text \<open>C20. The room for the items of an application is checked before its head is compiled and
  taken after: a call of \<open>length xs\<close> items whose head is a call of \<open>length ys\<close> items takes
  \<open>length ys + length xs\<close> auxiliary entries, although each length is only compared with the 4096
  entries of the buffer. The second half of the entries is then written past its end.\<close>

theorem nested_call_entries:
  assumes "list_at s e (h # xs)" "list_at s h (g # ys)" "length xs \<le> PLAN_LIMIT" "length ys \<le> PLAN_LIMIT"
    and "form_of s g = F_CALL" "rc_type s g \<noteq> RC_PAIR" "\<forall>x\<in>set (xs @ ys). rc_type s x \<noteq> RC_PAIR"
  shows "length (aux (snd (plan_compile PLAN_DEPTH s params e [] 0 plan_start))) = length ys + length xs"
  using assms(5-7) list_at_pair [OF assms(1,3)] list_at_pair [OF assms(2,4)] assms(3,4)
  by (intro nested_call_aux [where h = h and n = "length xs" and m = "length ys"]) simp_all

theorem nested_call_entries_witness:
  "length (aux (snd (plan_compile PLAN_DEPTH long_list [] (HRef 2051) [] 0 plan_start))) = 4098 \<and> PLAN_LIMIT < 4098"
proof -
  have "list_at long_list (HRef 2051) (HRef 2050 # replicate 2049 HNil)"
    using long_list_cell [of 2051] long_list_at [of 2049] by simp
  moreover have "list_at long_list (HRef 2050) (HNil # replicate 2049 HNil)"
    using long_list_at [of 2050] replicate_Suc [of 2049 HNil] by (simp del: list_at.simps)
  ultimately show ?thesis using nested_call_entries [of long_list "HRef 2051" "HRef 2050" "replicate 2049 HNil" HNil "replicate 2049 HNil" "[]"]
    by (simp add: PLAN_LIMIT_def form_of_def del: list_at.simps)
qed

subsection \<open>Reader and printer\<close>

text \<open>C21. Both readers return on every input, however deep, malformed or starved of memory: the
  fuel that stands for the C stack is never used up.\<close>

theorem reader_returns: "rc_read c src s \<noteq> None \<and> rc_read_escaped c src s \<noteq> None"
  using rc_read_total by simp

text \<open>C22. Whatever the input and whichever allocations fail, a reader owns exactly its result: items
  of a list that cannot be finished are released, the other owners and all they reach are
  untouched, the intern table stays well formed, and the rest is a suffix of the input.\<close>

theorem reader_ownership:
  assumes "rc_read c (Some p) s = Some (v, remainder, t)" "heap_ok s R" "symbols_wf s c" "c < next_ctx s"
  shows "heap_ok t (add_mset v R) \<and> symbols_wf t c \<and> (\<forall>a\<in>owned (view s) R. cell_kept s t a) \<and> suffix remainder (c_string p)"
  using rc_read_ok [of c "Some p" s v remainder t R] assms by (simp add: ready_def kept_def)

theorem reader_ownership_witness: "\<exists>v remainder t. rc_read 1 (Some ''(hd (7'') hd_state = Some (v, remainder, t) \<and> heap_ok t {#v, HRef 65664#}"
proof -
  obtain v remainder t where e: "rc_read 1 (Some ''(hd (7'') hd_state = Some (v, remainder, t)"
    using rc_read_total(1) [of 1 "Some ''(hd (7''" hd_state] by auto
  have "1 < next_ctx hd_state" by (simp add: hd_state_ok)
  from reader_ownership [OF e hd_state_ok(1,2) this] e show ?thesis by blast
qed

text \<open>C23. Printing and reading back is the identity on expressions: where a handle represents an
  expression of integers, symbols, strings and nested lists, the printer writes its text, and
  reading that text yields, unless memory runs out, a handle that represents the same expression.\<close>

theorem print_read_round_trip:
  assumes "represents s v e" "printable 0 e" "print_cost e \<le> k" "print_value k s v 0 = Some text"
    and "rc_read c (Some text) s = Some (w, remainder, t)" "w \<noteq> HNull" "heap_ok s R" "symbols_wf s c" "c < next_ctx s"
  shows "text = render e \<and> remainder = [] \<and> represents t w e"
  using print_render(1) [OF assms(1-3)] assms(4) rc_read_render [OF _ assms(6,2), of c s remainder t R] assms(5,7-9)
  by (simp add: ready_def)

lemma read_seven: "rc_read 1 (Some (show_int 7)) start = Some (HImm 15, [], start)"
proof -
  have d: "show_int 7 = ''7''" by (simp add: show_int_def digits_of.simps char_of_def bit_0)
  have t: "decimal_token ''7''" "strtoll ''7'' = Some 7" "\<not> strtod_range_error ''7''"
    using show_int_decimal [of 7] show_int_strtoll [of 7] show_int_no_range_error [of 7] by (simp_all add: d)
  have s: "skip_space ''7'' = CHR ''7'' # []" by (simp add: skip_space_def c_isspace_def)
  have f: "reader_fuel ''7'' = Suc 3" by (simp add: reader_fuel_def)
  have "library_call start = (True, start)" by (simp add: evaluate)
  moreover have "rc_integer 1 7 start = (HImm 15, start)" by (simp add: rc_integer_def encode_immediate_def)
  ultimately have "read_token 1 ''7'' start = (HImm 15, [], start)" using t
    by (simp add: read_token_def delimiter_def c_isspace_def)
  with read_form_atom [OF s, of 0 3 1 False start] show ?thesis by (simp add: rc_read_def d c_string_def f)
qed

theorem print_read_round_trip_witness: "represents start (HImm 15) (SInt 7) \<and> show_int 7 = render (SInt 7)"
proof -
  have i: "immediate_integer (HImm 15) = 7"
    using immediate_integer_encode [of 7] by (simp add: encode_immediate_def)
  then have r: "represents start (HImm 15) (SInt 7)" by (simp add: rc_number_is_exact_integer_def rc_integer_value_def)
  have c: "1 < next_ctx start" by (simp add: heap_ok_start)
  have p: "print_value 1 start (HImm 15) 0 = Some (show_int 7)"
    using print_render(1) [OF r, of 0 1] by simp
  from print_read_round_trip [OF r _ _ p read_seven _ heap_ok_start(1) symbols_wf_start c] show ?thesis by simp
qed

subsection \<open>Collection\<close>

text \<open>C24. A cycle collection is safe: from memory without walk marks it keeps the heap invariant
  whatever the allocator does, and every cell an owner or an immortal cell can reach is alive
  afterwards with the same outgoing references and, up to the flag that registers a vector as a
  cycle source, the same contents. The number of references in memory is below \<open>SIZE_MAX\<close>, as on
  any machine.\<close>

theorem collection_safe:
  assumes "heap_ok s R" "visited_clear s" "size (held (view s) {}) < SIZE_MAX"
  shows "heap_ok (rc_collect c s) R \<and> (\<forall>a\<in>owned (view s) R. live (rc_collect c s) a \<and>
    holds (rc_collect c s) a = holds s a \<and>
    with_cycle_source False (load (cell_at (rc_collect c s) a)) = with_cycle_source False (load (cell_at s a)))"
  using rc_collect_ok [OF assms, of c] collected_owned by blast

theorem collection_safe_witness: "heap_ok (rc_collect 1 ring) {#HRef 65664#} \<and> live (rc_collect 1 ring) 65664"
  using collection_safe [OF heap_ok_ring visited_clear_ring ring_size, of 1] owned.root [of 65664 "{#HRef 65664#}"] by simp

text \<open>C25. A cycle collection is complete: where every cycle goes through a registered vector and
  the scratch array can be grown, a cell is alive after the collection exactly when an owner or an
  immortal cell can reach it. No garbage is left, cyclic or not.\<close>

theorem collection_complete:
  assumes "heap_ok s R" "visited_clear s" "size (held (view s) {}) < SIZE_MAX" "sources_cover s c" "can_collect c s"
  shows "live (rc_collect c s) a \<longleftrightarrow> a \<in> owned (view (rc_collect c s)) R"
  by (rule rc_collect_complete [OF assms])

theorem collection_complete_witness: "live (rc_collect 1 lost_ring) 65664 \<longleftrightarrow> 65664 \<in> owned (view (rc_collect 1 lost_ring)) {#}"
  by (rule collection_complete [OF heap_ok_lost_ring visited_clear_lost_ring lost_ring_size lost_ring_covered lost_ring_can_collect])

subsection \<open>The code generator\<close>

text \<open>C26. Removing releases is invisible: the body that \<open>frame_code\<close> writes has the same runs from an
  empty frame as the body it was given. At every point the same frames are reached with the same
  values released in the same order, whether the body is left by a jump or runs to its end.\<close>

theorem frame_code_same_runs:
  fixes f code
  defines "before \<equiv> kinds (frame_slots f) (text_lines (rewrite_frame_code f None code))"
    and "after \<equiv> kinds (frame_slots f) (text_lines (frame_code f code))"
  shows "((\<exists>q. runs after (Some 0, empty_frame) es (q, t)) = (\<exists>q. runs before (Some 0, empty_frame) es (q, t))) \<and>
    (runs after (Some 0, empty_frame) es (None, t) = runs before (Some 0, empty_frame) es (None, t)) \<and>
    (runs after (Some 0, empty_frame) es (Some (length after), t) = runs before (Some 0, empty_frame) es (Some (length before), t))"
  unfolding before_def after_def kinds_frame_code
  by (intro conjI same_runs) (simp_all add: kinds_ok)

text \<open>C27. Two logical slots of a frame that are in use never share a frame slot, and every frame slot
  is below the size that the generated function declares.\<close>

theorem frame_slots_exclusive:
  assumes "frame_reachable f" "i < slots f" "active f ! i"
  shows "physical f ! i < frame_slots f \<and> frame_slots f \<le> slots f \<and>
    (\<forall>j < slots f. active f ! j \<and> j \<noteq> i \<longrightarrow> physical f ! j \<noteq> physical f ! i)"
  using frame_reachable_exclusive [OF assms(1)] frame_reachable_bounds [OF assms(1)] assms(2,3) by metis

definition first_frame :: frame where
  "first_frame = \<lparr>conservative = False, bindings = [], slots = 0, physical = [], free_slots = [], active = [],
     borrowed_fn = [], blex = [], fuse = [], fuse_left = [], frame_slots = 0\<rparr>"

theorem frame_slots_exclusive_witness:
  "physical (snd (fresh (retire_scope (snd (fresh first_frame)) 0 None))) ! 1 < 1"
proof -
  have "frame_reachable first_frame" by (rule frame_reachable.start) (simp_all add: first_frame_def)
  then have r: "frame_reachable (snd (fresh (retire_scope (snd (fresh first_frame)) 0 None)))"
    by (intro frame_reachable.fresh frame_reachable.retire)
  show ?thesis using frame_slots_exclusive [OF r, of 1]
    by (simp add: first_frame_def fresh_def retire_scope_def retire_slot_def)
qed









subsection \<open>Function bindings\<close>

text \<open>C32. Binding a function to a symbol: on every path the counts stay exact for the other owners,
  the bindings that the context retired included. When it succeeds the symbol has the new
  function, and while a call is running nothing that is alive is lost, the old function included.\<close>

theorem binding_ownership:
  assumes "heap_ok s (R + retired s c)" "v \<in># R" "live s a" "refs (cell_at s a) = RC_IMMORTAL"
    and "rc_function_set c (HRef a) v s = (okay, t)"
  shows "heap_ok t (R + retired t c) \<and> (okay \<longrightarrow> function_of t a = v) \<and>
    (0 < call_depth (ctxs s c) \<longrightarrow> (\<forall>b. live s b \<longrightarrow> live t b))"
proof -
  have "valid s v" by (rule valid_owned [OF assms(1)]) (use assms(2) in simp)
  from function_set_ok [OF assms(1,3,4) this assms(5)] show ?thesis by blast
qed

definition hd_closure :: mem where
  "hd_closure = snd (rc_closure 1 1 9 [] hd_state)"

lemma hd_closure_value: "rc_closure 1 1 9 [] hd_state = (HRef 65736, hd_closure)"
proof -
  have "fst (rc_closure 1 1 9 [] hd_state) = HRef 65736"
    by (simp add: rc_closure_def closure_create_def closure_create_moved_def closure_cell_def hd_state_def rc_symbol_def find_symbol_def
        symbols_full_def resize_symbols_def text_value_def c_string_def intern_symbol_def init_cell_def upd_cell_def evaluate)
  then show ?thesis by (metis hd_closure_def prod.collapse)
qed

lemma hd_closure_ok: "heap_ok hd_closure ({#HRef 65736, HRef 65664#} + retired hd_closure 1)" "grows hd_state hd_closure"
  "rc_type hd_closure (HRef 65736) = RC_CLOSURE" "rc_value_context hd_closure 65736 = 1"
proof -
  have c: "1 < next_ctx hd_state" by (simp add: hd_state_ok)
  have e: "closure_create_moved 1 1 9 0 [] 0 hd_state = (HRef 65736, hd_closure)"
    using hd_closure_value by (simp add: rc_closure_def closure_create_def)
  have h: "heap_ok hd_state (mset (masked 0 []) + {#HRef 65664#})" using hd_state_ok(1) by (simp add: masked_def)
  note cm = closure_create_moved_ok [OF c _ e, simplified]
  have "heap_ok hd_closure {#HRef 65736, HRef 65664#}" using movesD(1) [OF cm(1)] h by (simp add: masked_def)
  moreover from cm(2) h obtain k: "load (cell_at hd_closure 65736) = VClosure 9 0 1 [] []" "rc_value_context hd_closure 65736 = 1"
    "grows hd_state hd_closure" by (auto simp: masked_def)
  moreover have "retired_functions (ctxs hd_state 1) = []"
    by (simp add: hd_state_def rc_symbol_def find_symbol_def symbols_full_def resize_symbols_def text_value_def c_string_def
        intern_symbol_def init_cell_def upd_cell_def evaluate)
  then have "retired_functions (ctxs hd_closure 1) = []" using same_core_retired [of hd_state hd_closure] k(3) by (simp add: grows_def)
  ultimately show "heap_ok hd_closure ({#HRef 65736, HRef 65664#} + retired hd_closure 1)" "grows hd_state hd_closure"
    "rc_type hd_closure (HRef 65736) = RC_CLOSURE" "rc_value_context hd_closure 65736 = 1" by simp_all
qed

lemma hd_closure_symbol: "live hd_closure 65664" "refs (cell_at hd_closure 65664) = RC_IMMORTAL"
  "rc_type hd_closure (HRef 65664) = RC_SYMBOL" "rc_value_context hd_closure 65664 = 1"
proof -
  have k: "cell_kept hd_state hd_closure 65664" using hd_closure_ok(2) hd_state_ok(7) by (simp add: grows_def)
  have "symbol_cell hd_state 1 65664" using symbols_wfD(3) [OF hd_state_ok(2,4)] .
  then show "live hd_closure 65664" "refs (cell_at hd_closure 65664) = RC_IMMORTAL"
    "rc_type hd_closure (HRef 65664) = RC_SYMBOL" "rc_value_context hd_closure 65664 = 1"
    using k cell_kept_load(1) [OF k] by (simp_all add: cell_kept_def symbol_cell_def)
qed

theorem binding_ownership_witness:
  "function_of (snd (rc_function_set 1 (HRef 65664) (HRef 65736) hd_closure)) 65664 = HRef 65736"
proof -
  have "fst (rc_function_set 1 (HRef 65664) (HRef 65736) hd_closure)"
    using hd_closure_ok(3,4) hd_closure_symbol(3,4)
    by (simp add: rc_function_set_def set_symbol_slot_def Let_def)
  then have e: "rc_function_set 1 (HRef 65664) (HRef 65736) hd_closure =
    (True, snd (rc_function_set 1 (HRef 65664) (HRef 65736) hd_closure))" by (simp add: prod_eq_iff)
  from binding_ownership [OF hd_closure_ok(1) _ hd_closure_symbol(1,2) e] show ?thesis by simp
qed

text \<open>C33. A replaced function lives as long as any call that may be running it: leaving a nested call
  gives nothing back, the outermost one gives back everything the context had retired, and either
  way the counts stay exact and what the other owners reach is untouched.\<close>

theorem retired_until_outermost:
  assumes "heap_ok s (R + retired s c)" "0 < call_depth (ctxs s c)"
  shows "heap_ok (rc_call_leave c s) (R + retired (rc_call_leave c s) c) \<and>
    (call_depth (ctxs s c) = 1 \<longrightarrow> retired (rc_call_leave c s) c = {#}) \<and>
    (call_depth (ctxs s c) \<noteq> 1 \<longrightarrow> retired (rc_call_leave c s) c = retired s c \<and> (\<forall>b. live s b \<longrightarrow> live (rc_call_leave c s) b)) \<and>
    (\<forall>b\<in>owned (view s) R. cell_kept s (rc_call_leave c s) b)"
  using call_leave_ok [OF assms] by (auto simp: keeps_but_def)

theorem retired_until_outermost_witness: "heap_ok (rc_call_leave 1 (rc_call_enter 1 hd_closure)) {#HRef 65736, HRef 65664#}"
proof -
  let ?s = "rc_call_enter 1 hd_closure"
  have h: "heap_ok ?s ({#HRef 65736, HRef 65664#} + retired ?s 1)"
    using call_enter_ok(1) [OF hd_closure_ok(1)] by (simp add: call_enter_ok(3))
  have "call_depth (ctxs hd_closure 1) = 0"
    by (simp add: hd_closure_def rc_closure_def closure_create_def closure_create_moved_def closure_cell_def unmasked_def hd_state_def rc_symbol_def find_symbol_def
        symbols_full_def resize_symbols_def text_value_def c_string_def intern_symbol_def init_cell_def upd_cell_def evaluate)
  then have d: "call_depth (ctxs ?s 1) = 1" by (simp add: rc_call_enter_def ctxs_upd_ctx)
  note r = retired_until_outermost [OF h, unfolded d]
  then have "retired (rc_call_leave 1 ?s) 1 = {#}" by simp
  with conjunct1 [OF r] show ?thesis by simp
qed

subsection \<open>Native tier\<close>

text \<open>C34. The index of the native tier is a map from closures to entries: with a consistent registry a
  lookup ends, it finds a slot exactly when the function is registered, and the slot leads to the
  one entry of that function.\<close>

theorem tier_lookup_is_map:
  assumes "registry_ok t" "fn \<noteq> HNull"
  shows "(find_slot t fn = None \<longleftrightarrow> \<not> fn_known t fn) \<and>
    (\<forall>j. find_slot t fn = Some j \<longrightarrow> (\<exists>i. t_slots t ! j = Some (At i) \<and> e_fn (entry_at t i) = fn \<and>
       (\<forall>k. registered (registry t) k \<longrightarrow> e_fn (entry_at t k) = fn \<longrightarrow> k = i)))"
  by (rule find_slot_map [OF assms])

definition tier_start :: tier_state where
  "tier_start =
     \<lparr>registry = [], entry_cap = 0, t_live = 0, t_slots = [], slot_used = 0, queue = [], queue_cap = 0, threshold = 1,
      count_only = False, disabled = False, busy = False, cache_owned = False, t_cc = ''cc'', t_cflags = ''-O1'',
      t_cache = ''cache'', t_include = ''include'', t_abi = ''abi'', loaded = 0, loaded_cap = 0, defuns = 0, redefined = 0,
      promoted = 0, failed_count = 0, batches = 0, compiles = 0, cache_hits = 0, fallbacks = 0, emit_failures = 0,
      guard_misses = 0, load_failures = 0, load_error = [], histogram = replicate 24 0, histogram_calls = replicate 24 0\<rparr>"

definition pair_entry :: entry where
  "pair_entry = \<lparr>e_fn = HRef 65664, e_name = HNil, e_definition = HNil, e_calls = 0, e_state = COLD\<rparr>"

definition tier_one :: tier_state where
  "tier_one = tier_start\<lparr>registry := [pair_entry], entry_cap := 1, t_live := 1, t_slots := [Some (At 0), None], slot_used := 1\<rparr>"

lemma pair_home: "hash_ptr (HRef 65664) 2 = 0"
  by (simp add: hash_ptr_def Let_def wrap_def handle_word_def)

lemma tier_one_ok: "tier_ok tier_one" "t_slots tier_one = [Some (At 0), None]" "registry tier_one = [pair_entry]"
proof -
  show s: "t_slots tier_one = [Some (At 0), None]" and r: "registry tier_one = [pair_entry]" by (simp_all add: tier_one_def)
  have reg: "registered [pair_entry] i \<longleftrightarrow> i = 0" for i by (auto simp: registered_def pair_entry_def)
  have two: "p < length [Some (At 0), None] \<longleftrightarrow> p = 0 \<or> p = 1" for p by auto
  have "pow2 (Suc (Suc 0))" unfolding pow2_def by (rule exI [of _ 1]) simp
  then have "index_ok [pair_entry] [Some (At 0), None]"
    unfolding index_ok_def reg fns_distinct_def two
    by (auto simp: reachable_slot_def slot_home_def pair_entry_def pair_home [unfolded numeral_2_eq_2] occupied_def cdist_def)
  moreover have "occupied [Some (At 0), None] = 1" by (simp add: occupied_def)
  ultimately have "registry_ok tier_one" by (simp add: registry_ok_def tier_one_def pair_entry_def)
  moreover have "waiting [pair_entry] = {}" by (auto simp: waiting_def pair_entry_def)
  then have "queue_ok tier_one" by (simp add: queue_ok_def tier_one_def tier_start_def)
  ultimately show "tier_ok tier_one" by (simp add: tier_ok_def)
qed

theorem tier_lookup_is_map_witness: "find_slot tier_one (HRef 65664) \<noteq> None"
  using tier_lookup_is_map [of tier_one "HRef 65664"] tier_one_ok
  by (auto simp: tier_ok_def fn_known_def registered_def pair_entry_def)

text \<open>C35. A definition reaches the registry: whatever the old function was, and whichever allocation
  fails, the index, the counters and the queue stay consistent, the registry owns exactly the
  closure, name and definition of each entry, and the function that was replaced is forgotten.\<close>

theorem tier_defun:
  assumes "tier_ok t" "heap_ok s (owners (registry t) + R)" "fn \<noteq> HNull" "\<not> fn_known t fn"
    and "rooted s R fn" "rooted s R nm" "rooted s R def" "on_defun nm def fn old t s = (t', s')"
  shows "tier_ok t' \<and> heap_ok s' (owners (registry t') + R) \<and> preserves R s s' \<and> (old \<noteq> HNull \<and> old \<noteq> fn \<longrightarrow> \<not> fn_known t' old)"
  using on_defun_ok [OF assms] by blast

lemma tier_start_ok: "tier_ok tier_start" "registry tier_start = []"
  by (simp_all add: tier_ok_def registry_ok_def queue_ok_def tier_start_def index_ok_def fns_distinct_def registered_def occupied_def waiting_def)

theorem tier_defun_witness: "tier_ok (fst (on_defun HNil HNil (HRef 65664) HNull tier_start one_pair))"
proof -
  have "heap_ok one_pair (owners (registry tier_start) + {#HRef 65664#})" using heap_ok_one_pair by (simp add: tier_start_ok(2))
  from tier_defun [OF tier_start_ok(1) this, of "HRef 65664" HNil HNil HNull, OF _ _ _ _ _ prod.collapse [symmetric]]
  show ?thesis by (simp add: fn_known_def registered_def tier_start_ok(2) rooted_def owned.root)
qed










text \<open>C38. Detaching the tier gives back everything the registry owned and nothing else.\<close>

theorem tier_detach:
  assumes "registry_ok t" "heap_ok s (owners (registry t) + R)" "rc_native_tier_detach t s = (t', s')"
  shows "heap_ok s' R \<and> preserves R s s' \<and> (\<forall>i. \<not> registered (registry t') i)"
  using movesD [OF detach_ok(1) [OF assms(1,3)] assms(2)] detach_ok(3) [OF assms(1,3)] by simp

theorem tier_detach_witness: "heap_ok (snd (rc_native_tier_detach tier_one one_pair)) {#}"
proof -
  have "heap_ok one_pair (owners (registry tier_one) + {#})"
    using heap_ok_one_pair by (simp add: tier_one_ok(3) held_by_def pair_entry_def add_mset_commute [of "HRef 65664"])
  from tier_detach [OF _ this prod.collapse [symmetric]] tier_one_ok(1) show ?thesis by (simp add: tier_ok_def)
qed

text \<open>C39. The key text of a batch identifies it: two texts are equal exactly when they were written
  under the same identity of the runtime for the same definitions in the same order, where a number
  that fits \<open>int64_t\<close> is the same whether it is marked exact or not. So the definitions \<open>1\<close> and
  \<open>1.0\<close>, which evaluate to different representations, share one cached object.\<close>

theorem cache_key_identifies:
  assumes "serialize_forms t batch s = Some (Some k, s1)" "serialize_forms u others z = Some (Some m, z1)"
    and "length (t_abi t) = length (t_abi u)" "proper_definitions s (definitions t batch)" "proper_definitions z (definitions u others)"
  shows "k = m \<longleftrightarrow> t_abi t = t_abi u \<and> map (key_of s) (definitions t batch) = map (key_of z) (definitions u others)"
  by (rule serialize_forms_key [OF assms])

theorem cache_key_identifies_witness:
  "map (key_of one_pair) (definitions tier_one [0]) \<noteq> map (key_of one_pair) (definitions tier_one [])"
proof -
  have d: "definitions tier_one [0] = [HNil]" "definitions tier_one [] = []"
    by (simp_all add: definitions_def entry_at_def tier_one_ok(3) pair_entry_def)
  have l: "library_call one_pair = (True, one_pair)"
    by (simp add: library_call_def one_pair_def evaluate init_cell_def pair_of_def new_header_def upd_cell_def)
  have "depth_bound one_pair = Suc (Suc (Suc 0))" by (simp add: depth_bound_def one_pair_cells)
  then have "serialize_forms tier_one [0] one_pair = Some (Some (t_abi tier_one @ newline # ''N'' @ [newline]), one_pair)"
    "serialize_forms tier_one [] one_pair = Some (Some (t_abi tier_one @ [newline]), one_pair)"
    by (simp_all add: serialize_forms_def l d)
  from cache_key_identifies [OF this] show ?thesis by (simp add: d proper_definitions_def)
qed

end
